(* ===== verification/Prelude.thy ===== *)
theory Prelude
  imports Main "HOL-Library.Word"
begin

unbundle bit_operations_syntax

text \<open>
  Shared vocabulary of the development: the machine integer types of the Rust sources, the
  result type of fallible functions with its sequencing operator, Rust's slice reads with
  their bounds checks, and the big-endian byte encoding of machine integers
  (\<^verbatim>\<open>to_be_bytes\<close> and \<^verbatim>\<open>from_be_bytes\<close> of the standard library) with its two round trips.

  Conventions used by every theory.
  \<^item> \<^verbatim>\<open>u8 .. u64\<close> and \<^verbatim>\<open>i64\<close> are words; \<^verbatim>\<open>sint\<close> reads the signed ones.
  \<^item> \<^verbatim>\<open>usize\<close> values that are lengths and positions inside a buffer are \<open>nat\<close>.
  \<^item> A byte buffer is a list of \<^verbatim>\<open>u8\<close>.
  \<^item> \<^verbatim>\<open>Result<T>\<close> is \<open>error + T\<close>. Error messages are dropped, the variant is kept.
  \<^item> A Rust panic (an index out of range, a failed assertion, an arithmetic overflow that the
    checked build detects) is the error value \<open>Panic\<close>.
\<close>

section \<open>Machine integers and results\<close>

type_synonym u8 = "8 word"
type_synonym u16 = "16 word"
type_synonym u32 = "32 word"
type_synonym u64 = "64 word"
type_synonym i32 = "32 word"
type_synonym i64 = "64 word"
type_synonym usize = nat
type_synonym bytes = "u8 list"

datatype limbo_error =
    Corrupt
  | InternalError
  | Busy
  | BusySnapshot
  | ReadOnly
  | OutOfMemory
  | DatabaseFull
  | Panic

type_synonym 'a res = "limbo_error + 'a"

named_theorems res_simps \<open>unfolding of result sequencing\<close>

definition rbind :: "'e + 'a \<Rightarrow> ('a \<Rightarrow> 'e + 'b) \<Rightarrow> 'e + 'b" where
  "rbind m f = (case m of Inl e \<Rightarrow> Inl e | Inr x \<Rightarrow> f x)"

lemma rbind_Inl [simp, res_simps]: "rbind (Inl e) f = Inl e"
  by (simp add: rbind_def)

lemma rbind_Inr [simp, res_simps]: "rbind (Inr x) f = f x"
  by (simp add: rbind_def)

lemma rbind_eq_Inr_iff:
  "rbind m f = Inr y \<longleftrightarrow> (\<exists>x. m = Inr x \<and> f x = Inr y)"
  by (cases m) auto

lemma rbind_eq_Inl_iff:
  "rbind m f = Inl e \<longleftrightarrow> m = Inl e \<or> (\<exists>x. m = Inr x \<and> f x = Inl e)"
  by (cases m) auto

lemma rbind_InrE [elim]:
  assumes "rbind m f = Inr y"
  obtains x where "m = Inr x" and "f x = Inr y"
  using assms by (auto simp: rbind_eq_Inr_iff)

lemma rbind_split:
  "P (rbind m f) \<longleftrightarrow> (\<forall>e. m = Inl e \<longrightarrow> P (Inl e)) \<and> (\<forall>x. m = Inr x \<longrightarrow> P (f x))"
  by (cases m) auto

section \<open>Orderings\<close>

text \<open>\<^verbatim>\<open>std::cmp::Ordering\<close> with \<^verbatim>\<open>reverse\<close>, and \<^verbatim>\<open>Ord::cmp\<close> of a linear order.\<close>

datatype ordering = Less | Equal | Greater

fun reverse_ordering :: "ordering \<Rightarrow> ordering" where
  "reverse_ordering Less = Greater"
| "reverse_ordering Equal = Equal"
| "reverse_ordering Greater = Less"

definition ord_cmp :: "'a::linorder \<Rightarrow> 'a \<Rightarrow> ordering" where
  "ord_cmp a b = (if a < b then Less else if a = b then Equal else Greater)"

lemma reverse_reverse_ordering [simp]: "reverse_ordering (reverse_ordering c) = c"
  by (cases c) simp_all

lemma reverse_ordering_eq_iff [simp]:
  "reverse_ordering c = Equal \<longleftrightarrow> c = Equal"
  "reverse_ordering c = Less \<longleftrightarrow> c = Greater"
  "reverse_ordering c = Greater \<longleftrightarrow> c = Less"
  by (cases c; simp)+

lemma ord_cmp_simps [simp]:
  "ord_cmp a b = Less \<longleftrightarrow> a < b"
  "ord_cmp a b = Equal \<longleftrightarrow> a = b"
  "ord_cmp a b = Greater \<longleftrightarrow> b < a"
  by (auto simp: ord_cmp_def)

lemma ord_cmp_refl [simp]: "ord_cmp a a = Equal"
  by simp

lemma reverse_ord_cmp: "reverse_ordering (ord_cmp a b) = ord_cmp b a"
  by (auto simp: ord_cmp_def)

text \<open>Lexicographic comparison of slices (\<^verbatim>\<open><[T] as Ord>::cmp\<close>).\<close>

fun slice_cmp :: "'a::linorder list \<Rightarrow> 'a list \<Rightarrow> ordering" where
  "slice_cmp [] [] = Equal"
| "slice_cmp [] (_ # _) = Less"
| "slice_cmp (_ # _) [] = Greater"
| "slice_cmp (a # as) (b # bs) =
     (if a < b then Less else if b < a then Greater else slice_cmp as bs)"

lemma slice_cmp_Equal [simp]: "slice_cmp as bs = Equal \<longleftrightarrow> as = bs"
  by (induction as bs rule: slice_cmp.induct) auto

lemma reverse_slice_cmp: "reverse_ordering (slice_cmp as bs) = slice_cmp bs as"
  by (induction as bs rule: slice_cmp.induct) auto

lemma slice_cmp_Less_trans:
  "slice_cmp as bs = Less \<Longrightarrow> slice_cmp bs cs = Less \<Longrightarrow> slice_cmp as cs = Less"
proof (induction as bs arbitrary: cs rule: slice_cmp.induct)
  case (2 b bs)
  then show ?case by (cases cs) auto
next
  case (4 a as b bs)
  then show ?case by (cases cs) (auto split: if_splits)
qed auto

section \<open>Reading slices\<close>

text \<open>
  \<open>slice xs a b\<close> is \<^verbatim>\<open>&xs[a..b]\<close> where the bounds are known to hold; \<open>index_slice\<close> is
  \<^verbatim>\<open>&xs[a..b]\<close> with Rust's panic, \<open>get_byte\<close> is \<^verbatim>\<open>xs.get(i)\<close> and
  \<open>get_prefix\<close> is \<^verbatim>\<open>xs.get(..n)\<close>.
\<close>

definition slice :: "'a list \<Rightarrow> nat \<Rightarrow> nat \<Rightarrow> 'a list" where
  "slice xs a b = take (b - a) (drop a xs)"

definition index_slice :: "'a list \<Rightarrow> nat \<Rightarrow> nat \<Rightarrow> 'a list res" where
  "index_slice xs a b =
     (if a \<le> b \<and> b \<le> length xs then Inr (slice xs a b) else Inl Panic)"

definition index_from :: "'a list \<Rightarrow> nat \<Rightarrow> 'a list res" where
  "index_from xs a = (if a \<le> length xs then Inr (drop a xs) else Inl Panic)"

definition get_byte :: "'a list \<Rightarrow> nat \<Rightarrow> 'a option" where
  "get_byte xs i = (if i < length xs then Some (xs ! i) else None)"

definition get_prefix :: "'a list \<Rightarrow> nat \<Rightarrow> 'a list option" where
  "get_prefix xs n = (if n \<le> length xs then Some (take n xs) else None)"

lemma length_slice [simp]: "b \<le> length xs \<Longrightarrow> length (slice xs a b) = b - a"
  by (simp add: slice_def)

lemma get_byte_Cons_0 [simp]: "get_byte (x # xs) 0 = Some x"
  by (simp add: get_byte_def)

lemma get_byte_Cons_Suc [simp]: "get_byte (x # xs) (Suc i) = get_byte xs i"
  by (simp add: get_byte_def)

lemma get_byte_Nil [simp]: "get_byte [] i = None"
  by (simp add: get_byte_def)

lemma get_byte_append:
  "get_byte (xs @ ys) i = (if i < length xs then Some (xs ! i) else get_byte ys (i - length xs))"
  by (auto simp: get_byte_def nth_append)

lemma get_prefix_append [simp]: "n = length xs \<Longrightarrow> get_prefix (xs @ ys) n = Some xs"
  by (simp add: get_prefix_def)

lemma slice_append_mid:
  "a = length xs \<Longrightarrow> b = length xs + length ys \<Longrightarrow> slice (xs @ ys @ zs) a b = ys"
  by (simp add: slice_def)

section \<open>Big-endian bytes\<close>

text \<open>
  \<open>be_bytes n w\<close> are the \<open>n\<close> low-order bytes of \<open>w\<close>, most significant first, so
  \<^verbatim>\<open>x.to_be_bytes()\<close> of a \<open>8 n\<close>-bit integer is \<open>be_bytes n x\<close>; \<open>from_be\<close> is
  \<^verbatim>\<open>from_be_bytes\<close>.
\<close>

fun be_bytes :: "nat \<Rightarrow> 'a::len word \<Rightarrow> bytes" where
  "be_bytes 0 w = []"
| "be_bytes (Suc n) w = ucast (drop_bit (8 * n) w) # be_bytes n w"

fun from_be :: "bytes \<Rightarrow> 'a::len word" where
  "from_be [] = 0"
| "from_be (b # bs) = push_bit (8 * length bs) (ucast b) OR from_be bs"

lemma length_be_bytes [simp]: "length (be_bytes n w) = n"
  by (induction n) simp_all

lemma from_be_be_bytes:
  "from_be (be_bytes n (w :: 'a::len word)) = take_bit (8 * n) w"
proof (induction n)
  case (Suc n)
  show ?case
    unfolding be_bytes.simps from_be.simps Suc.IH length_be_bytes
    by (rule bit_word_eqI)
      (auto simp: bit_simps not_le not_less dest: bit_imp_le_length)
qed simp

lemma from_be_be_bytes_full [simp]:
  "LENGTH('a) \<le> 8 * n \<Longrightarrow> from_be (be_bytes n (w :: 'a::len word)) = w"
  by (simp add: from_be_be_bytes take_bit_word_eq_self)

lemma bit_from_be_high:
  "8 * length bs \<le> i \<Longrightarrow> \<not> bit (from_be bs :: 'a::len word) i"
proof (induction bs)
  case (Cons b bs)
  then show ?case by (auto simp: bit_simps dest: bit_imp_le_length)
qed simp

lemma be_bytes_OR_high:
  "be_bytes n (push_bit (8 * m) w OR v) = be_bytes n (v :: 'a::len word)" if "n \<le> m"
  using that
proof (induction n)
  case (Suc n)
  have "ucast (drop_bit (8 * n) (push_bit (8 * m) w OR v)) = (ucast (drop_bit (8 * n) v) :: u8)"
    using Suc.prems by (intro bit_word_eqI) (auto simp: bit_simps)
  with Suc show ?case by simp
qed simp

lemma be_bytes_from_be:
  "length bs = n \<Longrightarrow> 8 * n \<le> LENGTH('a) \<Longrightarrow> be_bytes n (from_be bs :: 'a::len word) = bs"
proof (induction bs arbitrary: n)
  case (Cons b bs)
  then obtain m where n: "n = Suc m" and m: "length bs = m" by (cases n) auto
  have len: "8 * Suc m \<le> LENGTH('a)" using Cons.prems n by simp
  have hd: "ucast (drop_bit (8 * m) (push_bit (8 * m) (ucast b) OR (from_be bs :: 'a word))) = b"
  proof (rule bit_word_eqI)
    fix i assume i: "i < LENGTH(8)"
    then have "\<not> bit (from_be bs :: 'a word) (8 * m + i)"
      using m by (intro bit_from_be_high) simp
    then show "bit (ucast (drop_bit (8 * m) (push_bit (8 * m) (ucast b) OR (from_be bs :: 'a word))) :: u8) i
        = bit b i"
      using i len by (auto simp: bit_simps)
  qed
  have "be_bytes m (from_be bs :: 'a word) = bs"
    using Cons.IH [of m] m len by simp
  with n m hd show ?case
    by (simp add: be_bytes_OR_high)
qed simp

lemmas be_bytes_simps = be_bytes.simps from_be.simps

section \<open>Self-delimiting encodings\<close>

text \<open>
  The contract between a writer of variable-length items and their reader: the reader, given an
  encoded item followed by anything, returns the item and the length of its encoding. Unique
  parsing of a sequence of items follows from this law alone.
\<close>

locale prefix_codec =
  fixes enc :: "'a \<Rightarrow> bytes"
    and dec :: "bytes \<Rightarrow> ('a \<times> nat) res"
  assumes dec_enc: "dec (enc a @ rest) = Inr (a, length (enc a))"
    and enc_nonempty: "0 < length (enc a)"
begin

lemma enc_append_inject:
  assumes "enc a @ r = enc b @ s"
  shows "a = b" and "r = s"
proof -
  have "Inr (a, length (enc a)) = (Inr (b, length (enc b)) :: ('a \<times> nat) res)"
    using dec_enc [of a r] dec_enc [of b s] assms by simp
  then show "a = b" by simp
  with assms show "r = s" by simp
qed

lemma concat_enc_inject:
  "concat (map enc as) = concat (map enc bs) \<Longrightarrow> as = bs"
proof (induction as arbitrary: bs)
  case Nil
  then show ?case using enc_nonempty by (cases bs) auto
next
  case (Cons a as)
  then obtain b bs' where bs: "bs = b # bs'"
    using enc_nonempty [of a] by (cases bs) auto
  with Cons.prems have "enc a @ concat (map enc as) = enc b @ concat (map enc bs')" by simp
  then have "a = b" and "concat (map enc as) = concat (map enc bs')"
    by (rule enc_append_inject)+
  with Cons.IH bs show ?case by simp
qed

lemma length_concat_enc: "length xs \<le> length (concat (map enc xs))"
proof (induction xs)
  case (Cons x xs)
  then show ?case using enc_nonempty [of x] by (simp del: length_greater_0_conv)
qed simp

end

end
