(* ===== verification/Varint.thy ===== *)
theory Varint
  imports Prelude
begin

text \<open>
  SQLite variable-length integers: \<^verbatim>\<open>read_varint\<close>, \<^verbatim>\<open>read_varint_partial\<close>,
  \<^verbatim>\<open>varint_len\<close>, \<^verbatim>\<open>write_varint\<close> and \<^verbatim>\<open>write_varint_to_vec\<close> of
  \<^verbatim>\<open>core/storage/sqlite3_ondisk.rs\<close>. The loops of the source are recursive functions over the
  same counters; a write outside the buffer is \<open>Panic\<close>. The abstract encoding
  \<open>varint_bytes\<close> states what both directions agree on.
\<close>

section \<open>Reading\<close>

text \<open>
  The body shared by both readers: iterations \<open>i .. 8\<close> of the loop over the first eight
  bytes, then the ninth byte. \<open>None\<close> is running out of buffer.
\<close>

function read_varint_loop :: "bytes \<Rightarrow> nat \<Rightarrow> u64 \<Rightarrow> (u64 \<times> usize) option res" where
  "read_varint_loop buf i v =
     (if i < 8 then
        (case get_byte buf i of
           None \<Rightarrow> Inr None
         | Some c \<Rightarrow>
             (let v' = push_bit 7 v + ucast (c AND 0x7f)
              in if c AND 0x80 = 0 then Inr (Some (v', i + 1))
                 else read_varint_loop buf (i + 1) v'))
      else
        (case get_byte buf 8 of
           None \<Rightarrow> Inr None
         | Some c \<Rightarrow>
             if drop_bit 48 v = 0 then Inl Corrupt
             else Inr (Some (push_bit 8 v + ucast c, 9))))"
  by pat_completeness auto
termination
  by (relation "measure (\<lambda>(buf, i, v). 8 - i)") auto

declare read_varint_loop.simps [simp del]

definition read_varint_partial :: "bytes \<Rightarrow> (u64 \<times> usize) option res" where
  "read_varint_partial buf = read_varint_loop buf 0 0"

definition read_varint :: "bytes \<Rightarrow> (u64 \<times> usize) res" where
  "read_varint buf =
     (case read_varint_loop buf 0 0 of
        Inl e \<Rightarrow> Inl e
      | Inr None \<Rightarrow> Inl Corrupt
      | Inr (Some r) \<Rightarrow> Inr r)"

section \<open>Writing\<close>

text \<open>\<^verbatim>\<open>buf[i] = b\<close>.\<close>

definition set_byte :: "bytes \<Rightarrow> nat \<Rightarrow> u8 \<Rightarrow> bytes res" where
  "set_byte buf i b = (if i < length buf then Inr (buf[i := b]) else Inl Panic)"

fun bit_len :: "nat \<Rightarrow> nat" where
  "bit_len n = (if n = 0 then 0 else Suc (bit_len (n div 2)))"

declare bit_len.simps [simp del]

definition leading_zeros :: "u64 \<Rightarrow> nat" where
  "leading_zeros w = 64 - bit_len (unat w)"

definition div_ceil :: "nat \<Rightarrow> nat \<Rightarrow> nat" where
  "div_ceil a b = (a + b - 1) div b"

definition varint_len :: "u64 \<Rightarrow> usize" where
  "varint_len value =
     (if value \<le> 0x7f then 1
      else if value > push_bit 56 1 - 1 then 9
      else (let bits = 64 - leading_zeros value in div_ceil bits 7))"

fun write_varint_high :: "nat \<Rightarrow> bytes \<Rightarrow> u64 \<Rightarrow> bytes res" where
  "write_varint_high 0 buf value = Inr buf"
| "write_varint_high (Suc i) buf value =
     rbind (set_byte buf i (ucast ((value AND 0x7f) OR 0x80)))
       (\<lambda>buf. write_varint_high i buf (drop_bit 7 value))"

lemma drop_bit_7_less: "w \<noteq> 0 \<Longrightarrow> unat (drop_bit 7 (w :: u64)) < unat w"
  by (simp add: drop_bit_eq_div unat_div_distrib unat_gt_0)

function varint_encode_loop :: "bytes \<Rightarrow> nat \<Rightarrow> u64 \<Rightarrow> (bytes \<times> nat) res" where
  "varint_encode_loop encoded n bytes =
     (if bytes \<noteq> 0 then
        rbind (set_byte encoded n (ucast (0x80 OR (bytes AND 0x7f))))
          (\<lambda>encoded. varint_encode_loop encoded (n + 1) (drop_bit 7 bytes))
      else Inr (encoded, n))"
  by pat_completeness auto
termination
  by (relation "measure (\<lambda>(encoded, n, bytes). unat bytes)") (auto intro: drop_bit_7_less)

declare varint_encode_loop.simps [simp del]

fun varint_copy_loop :: "bytes \<Rightarrow> nat \<Rightarrow> nat \<Rightarrow> bytes \<Rightarrow> bytes res" where
  "varint_copy_loop encoded n 0 buf = Inr buf"
| "varint_copy_loop encoded n (Suc k) buf =
     rbind (varint_copy_loop encoded n k buf) (\<lambda>buf. set_byte buf k (encoded ! (n - 1 - k)))"

definition write_varint :: "bytes \<Rightarrow> u64 \<Rightarrow> (bytes \<times> usize) res" where
  "write_varint buf value =
     (if value \<le> 0x7f then
        rbind (set_byte buf 0 (ucast (value AND 0x7f))) (\<lambda>buf. Inr (buf, 1))
      else if value \<le> 0x3fff then
        rbind (set_byte buf 0 (ucast ((drop_bit 7 value AND 0x7f) OR 0x80)))
          (\<lambda>buf. rbind (set_byte buf 1 (ucast (value AND 0x7f))) (\<lambda>buf. Inr (buf, 2)))
      else if value AND push_bit 32 0xff000000 > 0 then
        rbind (set_byte buf 8 (ucast value))
          (\<lambda>buf. rbind (write_varint_high 8 buf (drop_bit 8 value)) (\<lambda>buf. Inr (buf, 9)))
      else
        rbind (varint_encode_loop (replicate 9 0) 0 value)
          (\<lambda>(encoded, n).
             rbind (set_byte encoded 0 (encoded ! 0 AND 0x7f))
               (\<lambda>encoded. rbind (varint_copy_loop encoded n n buf) (\<lambda>buf. Inr (buf, n)))))"

definition write_varint_to_vec :: "u64 \<Rightarrow> bytes \<Rightarrow> bytes res" where
  "write_varint_to_vec value payload =
     rbind (write_varint (replicate 9 0) value)
       (\<lambda>(varint, n). rbind (index_slice varint 0 n) (\<lambda>s. Inr (payload @ s)))"

section \<open>The abstract encoding\<close>

text \<open>
  \<open>varint_groups n w\<close> are the \<open>n\<close> low seven-bit groups of \<open>w\<close>, most significant first, each
  with its continuation bit set.
\<close>

fun varint_groups :: "nat \<Rightarrow> u64 \<Rightarrow> bytes" where
  "varint_groups 0 w = []"
| "varint_groups (Suc n) w = ucast ((drop_bit (7 * n) w AND 0x7f) OR 0x80) # varint_groups n w"

definition varint_bytes :: "u64 \<Rightarrow> bytes" where
  "varint_bytes v =
     (if v < 2 ^ 56 then varint_groups (varint_len v - 1) (drop_bit 7 v) @ [ucast (v AND 0x7f)]
      else varint_groups 8 (drop_bit 8 v) @ [ucast v])"

lemma length_varint_groups [simp]: "length (varint_groups n w) = n"
  by (induction n) simp_all

section \<open>Reading the abstract encoding\<close>

lemma and_7f: "x AND 0x7f = take_bit 7 (x :: 'a::len word)"
  by (simp add: take_bit_eq_mask mask_eq_exp_minus_1)

lemma bit_0x80: "bit (0x80 :: int) n \<longleftrightarrow> n = 7"
proof -
  have "bit (0x80 :: int) n = bit (2 ^ 7 :: int) n" by simp
  also have "\<dots> \<longleftrightarrow> n = 7"
    by (subst bit_exp_iff) auto
  finally show ?thesis .
qed

lemma and_80: "(c :: u8) AND 0x80 = 0 \<longleftrightarrow> \<not> bit c 7"
  by (auto simp: bit_eq_iff [where ?'a = u8] bit_simps bit_0x80 dest: spec [of _ 7])

lemma varint_group_bits:
  fixes x :: u64
  defines "c \<equiv> (ucast ((x AND 0x7f) OR 0x80) :: u8)"
  shows "c AND 0x80 \<noteq> 0" and "ucast (c AND 0x7f) = take_bit 7 x"
proof -
  have c: "c = ucast (take_bit 7 x OR 0x80)"
    by (simp add: c_def and_7f)
  show "c AND 0x80 \<noteq> 0" unfolding and_80 c by (simp add: bit_simps bit_0x80)
  show "ucast (c AND 0x7f) = take_bit 7 x" unfolding and_7f c
    by (rule bit_word_eqI) (auto simp: bit_simps bit_0x80)
qed

lemma varint_last_bits:
  fixes x :: u64
  defines "c \<equiv> (ucast (x AND 0x7f) :: u8)"
  shows "c AND 0x80 = 0" and "ucast (c AND 0x7f) = take_bit 7 x"
proof -
  show "c AND 0x80 = 0" unfolding and_80 c_def and_7f by (simp add: bit_simps)
  show "ucast (c AND 0x7f) = take_bit 7 x" unfolding and_7f c_def
    by (rule bit_word_eqI) (auto simp: bit_simps)
qed

lemma take_bit_add_split:
  "take_bit (m + n) w = push_bit m (take_bit n (drop_bit m w)) + take_bit m (w :: 'a::len word)"
proof -
  have "push_bit m (take_bit n (drop_bit m w)) + take_bit m w =
      (push_bit m (take_bit n (drop_bit m w)) OR take_bit m w)"
    by (rule disjunctive_add) (auto simp: bit_simps)
  also have "\<dots> = take_bit (m + n) w"
    by (rule bit_word_eqI) (auto simp: bit_simps)
  finally show ?thesis by simp
qed

text \<open>The reader consumes \<open>m\<close> continuation groups by shifting them into the accumulator.\<close>

lemma read_varint_loop_groups:
  assumes "length xs + m \<le> 8"
  shows "read_varint_loop (xs @ varint_groups m w @ rest) (length xs) v =
    read_varint_loop (xs @ varint_groups m w @ rest) (length xs + m)
      (push_bit (7 * m) v + take_bit (7 * m) w)"
  using assms
proof (induction m arbitrary: xs v)
  case (Suc m)
  let ?c = "ucast ((drop_bit (7 * m) w AND 0x7f) OR 0x80) :: u8"
  let ?v = "push_bit 7 v + take_bit 7 (drop_bit (7 * m) w)"
  let ?buf = "xs @ varint_groups (Suc m) w @ rest"
  have c: "?c AND 0x80 \<noteq> 0" "ucast (?c AND 0x7f) = take_bit 7 (drop_bit (7 * m) w)"
    by (rule varint_group_bits)+
  have get: "get_byte ?buf (length xs) = Some ?c"
    by (simp add: get_byte_append)
  have "read_varint_loop ?buf (length xs) v = read_varint_loop ?buf (length xs + 1) ?v"
    using Suc.prems by (subst read_varint_loop.simps) (simp only: get option.case Let_def c if_True if_False, simp)
  also have "\<dots> = read_varint_loop ((xs @ [?c]) @ varint_groups m w @ rest) (length (xs @ [?c])) ?v"
    by simp
  also have "\<dots> = read_varint_loop ((xs @ [?c]) @ varint_groups m w @ rest) (length (xs @ [?c]) + m)
      (push_bit (7 * m) ?v + take_bit (7 * m) w)"
    by (rule Suc.IH) (use Suc.prems in simp)
  also have "push_bit (7 * m) ?v + take_bit (7 * m) w
      = push_bit (7 * Suc m) v + take_bit (7 * Suc m) w"
    using take_bit_add_split [of "7 * m" 7 w]
    by (simp add: push_bit_add add.assoc add.commute [of 7])
  finally show ?case by simp
qed simp

lemma bit_len_le_iff: "bit_len n \<le> k \<longleftrightarrow> n < 2 ^ k"
proof (induction k arbitrary: n)
  case 0
  show ?case by (subst bit_len.simps) simp
next
  case (Suc k)
  have "bit_len n \<le> Suc k \<longleftrightarrow> n = 0 \<or> bit_len (n div 2) \<le> k"
    by (subst bit_len.simps) simp
  also have "\<dots> \<longleftrightarrow> n < 2 ^ Suc k"
    using Suc.IH [of "n div 2"] by auto
  finally show ?case .
qed

lemma bit_len_unat_le: "bit_len (unat (w :: u64)) \<le> 64"
  using unsigned_less [of w, where ?'a = nat] by (simp add: bit_len_le_iff)

lemma varint_len_eq:
  "varint_len v = (if unat v < 128 then 1 else if unat v < 2 ^ 56 then (bit_len (unat v) + 6) div 7 else 9)"
proof -
  have "v \<le> 0x7f \<longleftrightarrow> unat v < 128"
    by (simp add: word_le_nat_alt less_Suc_eq_le [symmetric])
  moreover have "v > push_bit 56 1 - 1 \<longleftrightarrow> \<not> unat v < 2 ^ 56"
    by (auto simp: word_less_nat_alt)
  moreover have "64 - leading_zeros v = bit_len (unat v)"
    using bit_len_unat_le [of v] by (simp add: leading_zeros_def)
  ultimately show ?thesis
    by (simp add: varint_len_def div_ceil_def add.commute)
qed

lemma varint_len_bounds:
  assumes "unat v < 2 ^ 56"
  shows "1 \<le> varint_len v" "varint_len v \<le> 8" "unat v < 2 ^ (7 * varint_len v)"
    "varint_len v = Suc m \<Longrightarrow> 0 < m \<Longrightarrow> 2 ^ (7 * m) \<le> unat v"
proof -
  let ?b = "bit_len (unat v)"
  have b56: "?b \<le> 56" using assms by (simp add: bit_len_le_iff)
  have "\<not> unat v < 128 \<Longrightarrow> \<not> ?b \<le> 7" by (simp add: bit_len_le_iff)
  then have len: "varint_len v = (if unat v < 128 then 1 else (?b + 6) div 7)"
      and big: "\<not> unat v < 128 \<Longrightarrow> 8 \<le> ?b"
    using assms by (auto simp: varint_len_eq)
  show "1 \<le> varint_len v" "varint_len v \<le> 8"
    using b56 big len by (auto split: if_splits)
  show "unat v < 2 ^ (7 * varint_len v)"
  proof (cases "unat v < 128")
    case True then show ?thesis by (simp add: len)
  next
    case False
    then have "?b \<le> 7 * varint_len v" using len by simp
    then show ?thesis by (simp add: bit_len_le_iff)
  qed
  show "2 ^ (7 * m) \<le> unat v" if "varint_len v = Suc m" "0 < m"
  proof -
    have "\<not> ?b \<le> 7 * m" using that len by (auto split: if_splits)
    then show ?thesis by (simp add: bit_len_le_iff)
  qed
qed

lemma push_drop_take: "push_bit n (drop_bit n w) + take_bit n w = (w :: 'a::len word)"
proof -
  have "push_bit n (drop_bit n w) + take_bit n w = (push_bit n (drop_bit n w) OR take_bit n w)"
    by (rule disjunctive_add) (auto simp: bit_simps)
  also have "\<dots> = w"
    by (rule bit_word_eqI) (auto simp: bit_simps)
  finally show ?thesis .
qed

lemma less_2_56_iff: "(v :: u64) < 0x100000000000000 \<longleftrightarrow> unat v < 2 ^ 56"
  by (simp add: word_less_nat_alt)

lemma length_varint_bytes: "length (varint_bytes v) = varint_len v"
proof (cases "unat v < 2 ^ 56")
  case True
  then show ?thesis using varint_len_bounds(1) [OF True]
    by (simp add: varint_bytes_def less_2_56_iff)
next
  case False
  then show ?thesis by (simp add: varint_bytes_def less_2_56_iff varint_len_eq)
qed

lemma read_varint_loop_bytes:
  "read_varint_loop (varint_bytes v @ rest) 0 0 = Inr (Some (v, varint_len v))"
proof (cases "unat v < 2 ^ 56")
  case True
  obtain m where m: "varint_len v = Suc m" and m7: "m < 8"
    using varint_len_bounds(1,2) [OF True] by (cases "varint_len v") auto
  let ?buf = "varint_groups m (drop_bit 7 v) @ [ucast (v AND 0x7f)] @ rest"
  have "unat (drop_bit 7 v) < 2 ^ (7 * m)"
    using varint_len_bounds(3) [OF True] m
    by (simp add: drop_bit_eq_div unat_div_distrib less_mult_imp_div_less power_add mult.commute)
  then have t: "take_bit (7 * m) (drop_bit 7 v) = drop_bit 7 v"
    by (intro word_unat_eq_iff [THEN iffD2]) (simp add: unsigned_take_bit_eq take_bit_nat_eq_self)
  have get: "get_byte ?buf m = Some (ucast (v AND 0x7f))"
    by (simp add: get_byte_append)
  have "read_varint_loop ?buf 0 0 = read_varint_loop ?buf m (drop_bit 7 v)"
    using read_varint_loop_groups [of "[]" m "drop_bit 7 v" "[ucast (v AND 0x7f)] @ rest" 0] m7 t
    by simp
  also have "\<dots> = Inr (Some (v, Suc m))"
    using m7 by (subst read_varint_loop.simps)
      (simp only: get option.case Let_def varint_last_bits push_drop_take if_True, simp)
  finally show ?thesis using True m
    by (simp add: varint_bytes_def less_2_56_iff)
next
  case False
  let ?buf = "varint_groups 8 (drop_bit 8 v) @ [ucast v] @ rest"
  have t: "take_bit 56 (drop_bit 8 v) = drop_bit 8 v"
    by (rule bit_word_eqI) (auto simp: bit_simps dest: bit_imp_le_length)
  have nz: "drop_bit 48 (drop_bit 8 v) \<noteq> 0"
  proof
    assume "drop_bit 48 (drop_bit 8 v) = 0"
    then have "unat v div 2 ^ 56 = 0"
      by (simp add: drop_bit_eq_div unat_div_distrib flip: unat_0_iff div_mult2_eq)
    then show False using False by (simp add: div_eq_0_iff)
  qed
  have u: "ucast (ucast v :: u8) = take_bit 8 v"
    by (rule bit_word_eqI) (auto simp: bit_simps)
  have get: "get_byte ?buf 8 = Some (ucast v)"
    by (simp add: get_byte_append)
  have "read_varint_loop ?buf 0 0 = read_varint_loop ?buf 8 (drop_bit 8 v)"
    using read_varint_loop_groups [of "[]" 8 "drop_bit 8 v" "[ucast v] @ rest" 0] t
    by simp
  also have "\<dots> = Inr (Some (v, 9))"
    using nz by (subst read_varint_loop.simps) (simp only: get option.case u push_drop_take, simp)
  finally show ?thesis using False
    by (simp add: varint_bytes_def less_2_56_iff varint_len_eq)
qed

section \<open>Writing produces the abstract encoding\<close>

lemma varint_groups_snoc:
  "varint_groups (Suc n) w = varint_groups n (drop_bit 7 w) @ [ucast ((w AND 0x7f) OR 0x80)]"
  by (induction n) (simp_all add: add.commute)

lemma set_byte_append [simp]:
  "i = length xs \<Longrightarrow> set_byte (xs @ y # ys) i b = Inr (xs @ b # ys)"
  by (simp add: set_byte_def)

lemma write_varint_high_eq:
  "i \<le> length buf \<Longrightarrow> write_varint_high i buf w = Inr (varint_groups i w @ drop i buf)"
proof (induction i arbitrary: buf w)
  case (Suc i)
  let ?b = "ucast ((w AND 0x7f) OR 0x80) :: u8"
  have "set_byte buf i ?b = Inr (buf[i := ?b])"
    using Suc.prems by (simp add: set_byte_def)
  then have "write_varint_high (Suc i) buf w = write_varint_high i (buf[i := ?b]) (drop_bit 7 w)"
    by simp
  also have "\<dots> = Inr (varint_groups i (drop_bit 7 w) @ drop i (buf[i := ?b]))"
    using Suc.prems by (intro Suc.IH) simp
  also have "drop i (buf[i := ?b]) = ?b # drop (Suc i) buf"
    using Suc.prems by (simp add: drop_update_swap Cons_nth_drop_Suc [symmetric])
  finally show ?case by (simp only: varint_groups_snoc) simp
qed simp

lemma varint_encode_loop_eq:
  assumes "unat w < 2 ^ (7 * k)" and "k = 0 \<or> 2 ^ (7 * (k - 1)) \<le> unat w"
    and "n + k \<le> length encoded"
  shows "varint_encode_loop encoded n w =
    Inr (take n encoded @ rev (varint_groups k w) @ drop (n + k) encoded, n + k)"
  using assms
proof (induction k arbitrary: encoded n w)
  case 0
  then have "w = 0" by (simp add: unat_0_iff)
  then show ?case by (subst varint_encode_loop.simps) simp
next
  case (Suc k)
  let ?b = "ucast (0x80 OR (w AND 0x7f)) :: u8"
  have w: "w \<noteq> 0" using Suc.prems(2) by (intro notI) simp
  have d: "unat (drop_bit 7 w) = unat w div 128"
    by (simp add: drop_bit_eq_div unat_div_distrib)
  have "varint_encode_loop encoded n w =
      varint_encode_loop (encoded[n := ?b]) (n + 1) (drop_bit 7 w)"
    using w Suc.prems(3) by (subst varint_encode_loop.simps) (simp add: set_byte_def)
  also have "\<dots> = Inr (take (n + 1) (encoded[n := ?b]) @ rev (varint_groups k (drop_bit 7 w))
      @ drop (n + 1 + k) (encoded[n := ?b]), n + 1 + k)"
  proof (rule Suc.IH)
    show "unat (drop_bit 7 w) < 2 ^ (7 * k)"
      using Suc.prems(1) by (simp add: d power_add less_mult_imp_div_less mult.commute)
    show "k = 0 \<or> 2 ^ (7 * (k - 1)) \<le> unat (drop_bit 7 w)"
    proof (cases k)
      case (Suc k')
      then have "2 ^ (7 * k') * 128 \<le> unat w" using Suc.prems(2) by (simp add: power_add)
      then show ?thesis using Suc by (simp add: d less_eq_div_iff_mult_less_eq)
    qed simp
    show "n + 1 + k \<le> length (encoded[n := ?b])" using Suc.prems(3) by simp
  qed
  also have "take (n + 1) (encoded[n := ?b]) = take n encoded @ [?b]"
    using Suc.prems(3) by (simp add: take_Suc_conv_app_nth)
  finally show ?case
    by (simp add: varint_groups_snoc or.commute del: varint_groups.simps)
qed

lemma varint_copy_loop_eq:
  assumes "k \<le> n" and "n \<le> length encoded"
  shows "varint_copy_loop encoded n k buf =
    (if k \<le> length buf then Inr (take k (rev (take n encoded)) @ drop k buf) else Inl Panic)"
  using assms(1)
proof (induction k)
  case (Suc k)
  have e: "rev (take n encoded) ! k = encoded ! (n - 1 - k)"
    using Suc.prems assms(2) by (simp add: rev_nth)
  show ?case
  proof (cases "Suc k \<le> length buf")
    case True
    then have "drop k buf = buf ! k # drop (Suc k) buf" by (simp add: Cons_nth_drop_Suc)
    with True Suc e assms(2) show ?thesis
      by (simp add: take_Suc_conv_app_nth)
  next
    case False
    with Suc assms(2) show ?thesis
      by (auto simp: set_byte_def)
  qed
qed simp

lemma and_high_byte: "(v :: u64) AND push_bit 32 0xff000000 > 0 \<longleftrightarrow> \<not> unat v < 2 ^ 56"
proof -
  have "v AND push_bit 32 0xff000000 = (v AND push_bit 56 (mask 8))"
    by (simp add: mask_eq_exp_minus_1)
  also have "\<dots> = push_bit 56 (drop_bit 56 v)"
    by (rule bit_word_eqI) (auto simp: bit_simps)
  finally have "v AND push_bit 32 0xff000000 > 0 \<longleftrightarrow> push_bit 56 (drop_bit 56 v) \<noteq> 0"
    by (simp add: word_neq_0_conv)
  also have "\<dots> \<longleftrightarrow> drop_bit 56 v \<noteq> 0"
  proof -
    have "drop_bit 56 (push_bit 56 (drop_bit 56 v)) = drop_bit 56 v"
      by (rule bit_word_eqI) (auto simp: bit_simps dest: bit_imp_le_length)
    then show ?thesis by (metis drop_bit_of_0 push_bit_of_0)
  qed
  also have "\<dots> \<longleftrightarrow> unat v div 2 ^ 56 \<noteq> 0"
    by (simp add: drop_bit_eq_div unat_div_distrib flip: unat_0_iff)
  also have "\<dots> \<longleftrightarrow> \<not> unat v < 2 ^ 56"
    by (simp add: div_eq_0_iff)
  finally show ?thesis .
qed

lemma write_varint_eq_1:
  assumes "unat v < 128"
  shows "write_varint buf v =
     (if varint_len v \<le> length buf
      then Inr (varint_bytes v @ drop (varint_len v) buf, varint_len v) else Inl Panic)"
proof -
  have h: "v \<le> 0x7f" "varint_len v = 1" "v < 2 ^ 56"
    using assms by (auto simp: word_le_nat_alt word_less_nat_alt varint_len_eq)
  show ?thesis
    unfolding write_varint_def varint_bytes_def h if_True
    using h by (cases buf) (simp_all add: set_byte_def)
qed

lemma write_varint_eq_2:
  assumes "128 \<le> unat v" "unat v < 2 ^ 14"
  shows "write_varint buf v =
     (if varint_len v \<le> length buf
      then Inr (varint_bytes v @ drop (varint_len v) buf, varint_len v) else Inl Panic)"
proof -
  have "bit_len (unat v) \<le> 14" "\<not> bit_len (unat v) \<le> 7"
    using assms by (simp_all add: bit_len_le_iff)
  then have "(bit_len (unat v) + 6) div 7 = 2" by linarith
  then have h: "\<not> v \<le> 0x7f" "v \<le> 0x3fff" "varint_len v = Suc (Suc 0)" "v < 2 ^ 56"
    using assms by (auto simp: word_le_nat_alt word_less_nat_alt varint_len_eq)
  show ?thesis
    unfolding write_varint_def varint_bytes_def h if_True if_False
    using h by (cases buf; cases "tl buf") (simp_all add: set_byte_def)
qed

lemma write_varint_eq_9:
  assumes "2 ^ 56 \<le> unat v"
  shows "write_varint buf v =
     (if varint_len v \<le> length buf
      then Inr (varint_bytes v @ drop (varint_len v) buf, varint_len v) else Inl Panic)"
proof -
  have h: "v \<le> 0x7f \<longleftrightarrow> False" "v \<le> 0x3fff \<longleftrightarrow> False"
      "v AND push_bit 32 0xff000000 > 0 \<longleftrightarrow> True" "v < 2 ^ 56 \<longleftrightarrow> False" "varint_len v = 9"
    using assms and_high_byte [of v]
    by (simp_all only: and_high_byte) (simp_all add: word_le_nat_alt word_less_nat_alt varint_len_eq)
  show ?thesis
  proof (cases "9 \<le> length buf")
    case True
    then have "drop 8 (buf[8 := ucast v]) = ucast v # drop 9 buf"
      by (simp add: drop_update_swap Cons_nth_drop_Suc [symmetric])
    with True show ?thesis
      unfolding write_varint_def varint_bytes_def h if_True if_False
      by (simp add: set_byte_def write_varint_high_eq)
  next
    case False
    then show ?thesis 
      unfolding write_varint_def varint_bytes_def h if_True if_False
      by (simp add: set_byte_def)
  qed
qed

lemma write_varint_eq_mid:
  assumes "2 ^ 14 \<le> unat v" "unat v < 2 ^ 56"
  shows "write_varint buf v =
     (if varint_len v \<le> length buf
      then Inr (varint_bytes v @ drop (varint_len v) buf, varint_len v) else Inl Panic)"
proof -
  obtain m where m: "varint_len v = Suc m" "m < 8"
    using varint_len_bounds(1,2) [OF assms(2)] by (cases "varint_len v") auto
  have "\<not> bit_len (unat v) \<le> 14" using assms by (simp add: bit_len_le_iff)
  then have m0: "0 < m" using m assms by (simp add: varint_len_eq)
  let ?z = "replicate 9 0 :: bytes"
  define e where "e = rev (varint_groups (Suc m) v) @ drop (Suc m) ?z"
  define e' where
    "e' = (ucast (v AND 0x7f) :: u8) # rev (varint_groups m (drop_bit 7 v)) @ drop (Suc m) ?z"
  have h: "v \<le> 0x7f \<longleftrightarrow> False" "v \<le> 0x3fff \<longleftrightarrow> False"
      "v AND push_bit 32 0xff000000 > 0 \<longleftrightarrow> False" "v < 2 ^ 56 \<longleftrightarrow> True"
    using assms by (simp_all only: and_high_byte) (simp_all add: word_le_nat_alt word_less_nat_alt)
  have loop: "varint_encode_loop ?z 0 v = Inr (e, Suc m)"
    using varint_encode_loop_eq [of v "Suc m" 0 ?z] varint_len_bounds(3,4) [OF assms(2)] m m0
    by (simp add: e_def)
  have first: "set_byte e 0 (e ! 0 AND 0x7f) = Inr e'"
  proof -
    have "ucast ((v AND 0x7f) OR 0x80) AND 0x7f = (ucast (v AND 0x7f) :: u8)"
      unfolding and_7f by (rule bit_word_eqI) (auto simp: bit_simps bit_0x80)
    then show ?thesis
      by (simp add: e_def e'_def varint_groups_snoc set_byte_def del: varint_groups.simps)
  qed
  have len: "Suc m \<le> length e'" using m by (simp add: e'_def)
  have "take (Suc m) e' = (ucast (v AND 0x7f) :: u8) # rev (varint_groups m (drop_bit 7 v))"
    using m by (simp add: e'_def)
  then have "rev (take (Suc m) e') = varint_bytes v"
    using h m by (simp add: varint_bytes_def)
  then have copy: "varint_copy_loop e' (Suc m) (Suc m) buf =
      (if Suc m \<le> length buf then Inr (varint_bytes v @ drop (Suc m) buf) else Inl Panic)"
    using len m by (subst varint_copy_loop_eq) (simp_all add: length_varint_bytes)
  show ?thesis
    unfolding write_varint_def h if_True if_False loop rbind_Inr prod.case first copy m
    by simp
qed

lemma write_varint_eq:
  "write_varint buf v =
     (if varint_len v \<le> length buf
      then Inr (varint_bytes v @ drop (varint_len v) buf, varint_len v) else Inl Panic)"
proof -
  consider "unat v < 128" | "128 \<le> unat v" "unat v < 2 ^ 14"
    | "2 ^ 14 \<le> unat v" "unat v < 2 ^ 56" | "2 ^ 56 \<le> unat v"
    by linarith
  then show ?thesis
    by cases (rule write_varint_eq_1 write_varint_eq_2 write_varint_eq_mid write_varint_eq_9; assumption)+
qed

lemma write_varint_to_vec_eq: "write_varint_to_vec v payload = Inr (payload @ varint_bytes v)"
proof -
  have "varint_len v \<le> 9"
  proof (cases "unat v < 2 ^ 56")
    case True
    then show ?thesis using varint_len_bounds(2) [OF True] by simp
  qed (simp add: varint_len_eq)
  then show ?thesis
    by (simp add: write_varint_to_vec_def write_varint_eq index_slice_def slice_def
        length_varint_bytes)
qed

lemma read_varint_bytes: "read_varint (varint_bytes v @ rest) = Inr (v, varint_len v)"
  by (simp add: read_varint_def read_varint_loop_bytes)

section \<open>What an accepted encoding looks like\<close>

lemma unat_shift_add:
  assumes "unat (v :: u64) * 2 ^ k + unat x < 2 ^ 64"
  shows "unat (push_bit k v + x) = unat v * 2 ^ k + unat x"
proof -
  have "push_bit k v + x = word_of_nat (unat v * 2 ^ k + unat x)"
    by (simp add: push_bit_eq_mult)
  then show ?thesis using assms by (simp only: unat_of_nat) simp
qed

lemma unat_low7: "unat (ucast ((c :: u8) AND 0x7f) :: u64) < 128"
proof -
  have "unat (ucast (c AND 0x7f) :: u64) = take_bit 7 (unat c)"
    unfolding and_7f by (simp add: unsigned_ucast_eq unsigned_take_bit_eq take_bit_nat_less_exp)
  then show ?thesis by (simp add: take_bit_nat_less_exp [of 7, simplified])
qed

lemma unat_ucast_u8: "unat (ucast (c :: u8) :: u64) = unat c"
  by (simp add: unsigned_ucast_eq take_bit_nat_eq_self order.strict_trans [OF unsigned_less])

lemma read_varint_loop_Some:
  assumes "read_varint_loop buf i v = Inr (Some (w, n))" and "i \<le> 8" and "unat v < 2 ^ (7 * i)"
  shows "i < n \<and> n \<le> 9 \<and> n \<le> length buf \<and> (if n \<le> 8 then unat w < 2 ^ (7 * n) else 2 ^ 56 \<le> unat w)"
  using assms
proof (induction buf i v rule: read_varint_loop.induct)
  case (1 buf i v)
  show ?case
  proof (cases "i < 8")
    case True
    obtain c where c: "get_byte buf i = Some c"
      using "1.prems"(1) True by (subst (asm) read_varint_loop.simps) (auto split: option.splits)
    let ?v = "push_bit 7 v + ucast (c AND 0x7f)"
    have p: "(2::nat) ^ (7 * i) * 128 = 2 ^ (7 * (i + 1))" by (simp add: power_add)
    have b: "unat v * 128 + 127 < 2 ^ (7 * (i + 1))"
      using "1.prems"(3) unfolding p [symmetric] by (simp add: Suc_le_eq [symmetric])
    have "(2::nat) ^ (7 * (i + 1)) \<le> 2 ^ 64"
      using True by (intro power_increasing) auto
    then have "unat ?v = unat v * 128 + unat (ucast (c AND 0x7f) :: u64)"
      using unat_shift_add [of v 7 "ucast (c AND 0x7f)"] b unat_low7 [of c] by simp
    then have v: "unat ?v < 2 ^ (7 * (i + 1))"
      using b unat_low7 [of c] by linarith
    have len: "i < length buf" using c by (simp add: get_byte_def split: if_splits)
    show ?thesis
    proof (cases "c AND 0x80 = 0")
      case True
      with \<open>i < 8\<close> c "1.prems"(1) have "w = ?v" "n = i + 1"
        by (subst (asm) read_varint_loop.simps, simp add: Let_def)+
      with v len \<open>i < 8\<close> show ?thesis by simp
    next
      case False
      with \<open>i < 8\<close> c "1.prems"(1) have "read_varint_loop buf (i + 1) ?v = Inr (Some (w, n))"
        by (subst (asm) read_varint_loop.simps) (simp add: Let_def)
      from "1.IH" [OF \<open>i < 8\<close> c refl False this] v \<open>i < 8\<close> show ?thesis by auto
    qed
  next
    case False
    then have i: "i = 8" using "1.prems" by simp
    with "1.prems"(1) obtain c where c: "get_byte buf 8 = Some c" "drop_bit 48 v \<noteq> 0"
        "w = push_bit 8 v + ucast c" "n = 9"
      by (subst (asm) read_varint_loop.simps) (auto split: option.splits if_splits)
    have "2 ^ 48 \<le> unat v"
    proof (rule ccontr)
      assume "\<not> 2 ^ 48 \<le> unat v"
      then have "unat v div 2 ^ 48 = 0" by simp
      then have "drop_bit 48 v = 0"
        by (simp add: drop_bit_eq_div unat_div_distrib flip: unat_0_iff)
      with c show False by simp
    qed
    moreover have "unat w = unat v * 256 + unat c"
      using unat_shift_add [of v 8 "ucast c"] "1.prems"(3) i c unsigned_less [of c, where ?'a = nat]
      by (simp add: unat_ucast_u8)
    ultimately show ?thesis using c i by (auto simp: get_byte_def split: if_splits)
  qed
qed

lemma varint_len_le_iff: "k \<le> 8 \<Longrightarrow> 0 < k \<Longrightarrow> unat v < 2 ^ (7 * k) \<Longrightarrow> varint_len v \<le> k"
proof -
  assume k: "k \<le> 8" "0 < k" "unat v < 2 ^ (7 * k)"
  have "(2::nat) ^ (7 * k) \<le> 2 ^ 56" using k by (intro power_increasing) auto
  then have v: "unat v < 2 ^ 56" using k by linarith
  obtain m where m: "varint_len v = Suc m"
    using varint_len_bounds(1) [OF v] by (cases "varint_len v") auto
  show ?thesis
  proof (cases "m = 0")
    case False
    then have "(2::nat) ^ (7 * m) < 2 ^ (7 * k)"
      using varint_len_bounds(4) [OF v m] k by linarith
    then have "m < k" by (simp add: power_strict_increasing_iff)
    then show ?thesis by (simp add: m)
  qed (use m k in simp)
qed

lemma read_varint_loop_append:
  "read_varint_loop buf i v \<noteq> Inr None \<Longrightarrow>
    read_varint_loop (buf @ ys) i v = read_varint_loop buf i v"
proof (induction buf i v rule: read_varint_loop.induct)
  case (1 buf i v)
  have get: "get_byte (buf @ ys) j = (case get_byte buf j of None \<Rightarrow> get_byte ys (j - length buf) | r \<Rightarrow> r)"
    for j by (auto simp: get_byte_def nth_append)
  show ?case
    using "1.prems" "1.IH"
    by (subst (1 2) read_varint_loop.simps, subst (asm) (1) read_varint_loop.simps)
      (auto simp: get Let_def split: option.splits if_splits)
qed

lemma read_varint_loop_None_length:
  "i \<le> 8 \<Longrightarrow> read_varint_loop buf i v = Inr None \<Longrightarrow> length buf < 9"
proof (induction buf i v rule: read_varint_loop.induct)
  case (1 buf i v)
  then show ?case
    by (subst (asm) (2) read_varint_loop.simps)
      (auto simp: get_byte_def Let_def split: if_splits)
qed

lemma varint_len_le_9: "varint_len v \<le> 9"
proof (cases "unat v < 2 ^ 56")
  case True
  then show ?thesis using varint_len_bounds(2) [OF True] by simp
qed (simp add: varint_len_eq)

lemma varint_len_pos [simp]: "0 < varint_len v"
  using length_varint_bytes [of v] by (cases "varint_bytes v") (auto simp: varint_bytes_def split: if_splits)

lemma read_varint_Inr_iff: "read_varint buf = Inr r \<longleftrightarrow> read_varint_loop buf 0 0 = Inr (Some r)"
  by (auto simp: read_varint_def split: sum.splits option.splits)

lemma read_varint_Inr_bounds:
  assumes "read_varint buf = Inr (v, n)"
  shows "0 < n" "n \<le> 9" "n \<le> length buf" "varint_len v \<le> n"
proof -
  have l: "0 < n \<and> n \<le> 9 \<and> n \<le> length buf \<and>
      (if n \<le> 8 then unat v < 2 ^ (7 * n) else 2 ^ 56 \<le> unat v)"
    by (rule read_varint_loop_Some [of buf 0 0]) (use assms in \<open>simp_all add: read_varint_Inr_iff\<close>)
  then show "0 < n" "n \<le> 9" "n \<le> length buf" by auto
  from l show "varint_len v \<le> n"
    using varint_len_le_iff [of n v] varint_len_le_9 [of v] by (cases "n \<le> 8") auto
qed

lemma read_varint_append:
  "read_varint buf = Inr r \<Longrightarrow> read_varint (buf @ ys) = Inr r"
  by (simp add: read_varint_Inr_iff read_varint_loop_append)

lemma read_varint_loop_gt: "read_varint_loop buf i v = Inr (Some (w, n)) \<Longrightarrow> i \<le> 8 \<Longrightarrow> i < n"
proof (induction buf i v rule: read_varint_loop.induct)
  case (1 buf i v)
  show ?case
  proof (cases "i < 8")
    case True
    then obtain c where c: "get_byte buf i = Some c"
      using "1.prems"(1) by (subst (asm) read_varint_loop.simps) (auto split: option.splits)
    show ?thesis
    proof (cases "c AND 0x80 = 0")
      case True
      then show ?thesis using "1.prems"(1) \<open>i < 8\<close> c by (subst (asm) read_varint_loop.simps) (auto simp: Let_def)
    next
      case False
      then have "read_varint_loop buf (i + 1) (push_bit 7 v + ucast (c AND 0x7f)) = Inr (Some (w, n))"
        using "1.prems"(1) \<open>i < 8\<close> c by (subst (asm) read_varint_loop.simps) (simp add: Let_def)
      from "1.IH" [OF \<open>i < 8\<close> c refl False this] \<open>i < 8\<close> show ?thesis by simp
    qed
  next
    case False
    then show ?thesis using "1.prems" by (subst (asm) read_varint_loop.simps) (auto split: option.splits if_splits)
  qed
qed

lemma read_varint_loop_take:
  "read_varint_loop buf i v = Inr (Some (w, n)) \<Longrightarrow> i \<le> 8 \<Longrightarrow> read_varint_loop (take n buf) i v = Inr (Some (w, n))"
proof (induction buf i v rule: read_varint_loop.induct)
  case (1 buf i v)
  have "i < n" by (rule read_varint_loop_gt [OF "1.prems"])
  then have get: "get_byte (take n buf) i = get_byte buf i" by (simp add: get_byte_def)
  show ?case
  proof (cases "i < 8")
    case True
    then obtain c where c: "get_byte buf i = Some c"
      using "1.prems"(1) by (subst (asm) read_varint_loop.simps) (auto split: option.splits)
    show ?thesis
    proof (cases "c AND 0x80 = 0")
      case True
      then show ?thesis using "1.prems"(1) \<open>i < 8\<close> c get
        by (subst (asm) read_varint_loop.simps, subst read_varint_loop.simps) (simp add: Let_def)
    next
      case False
      then have "read_varint_loop buf (i + 1) (push_bit 7 v + ucast (c AND 0x7f)) = Inr (Some (w, n))"
        using "1.prems"(1) \<open>i < 8\<close> c by (subst (asm) read_varint_loop.simps) (simp add: Let_def)
      from "1.IH" [OF \<open>i < 8\<close> c refl False this] \<open>i < 8\<close> c get False show ?thesis
        by (subst read_varint_loop.simps) (simp add: Let_def)
    qed
  next
    case False
    then have "i = 8" using "1.prems" by simp
    then show ?thesis using "1.prems"(1) get
      by (subst (asm) read_varint_loop.simps, subst read_varint_loop.simps) simp
  qed
qed

lemma read_varint_take: "read_varint buf = Inr (v, n) \<Longrightarrow> read_varint (take n buf) = Inr (v, n)"
  by (simp add: read_varint_Inr_iff read_varint_loop_take)

lemma read_varint_prefix:
  assumes "read_varint buf = Inr (v, n)" "take n buf' = take n buf"
  shows "read_varint buf' = Inr (v, n)"
  using read_varint_append [OF read_varint_take [OF assms(1)], of "drop n buf'"] assms(2) [symmetric] by simp

interpretation varint: prefix_codec varint_bytes read_varint
  by unfold_locales (simp_all add: read_varint_bytes length_varint_bytes)

section \<open>Properties\<close>

text \<open>C19. Writing a varint and reading it back returns the value and its length, whenever the
  buffer holds \<open>varint_len\<close> bytes; the bytes after the encoding are untouched.\<close>

theorem varint_roundtrip:
  assumes "varint_len v \<le> length buf"
  shows "\<exists>buf'. write_varint buf v = Inr (buf', varint_len v)
    \<and> read_varint buf' = Inr (v, varint_len v)
    \<and> length buf' = length buf \<and> drop (varint_len v) buf' = drop (varint_len v) buf"
  using assms
  by (simp add: write_varint_eq read_varint_bytes length_varint_bytes)

theorem varint_roundtrip_witness:
  "varint_len 300 \<le> length (replicate 9 0 :: bytes) \<and>
   (\<exists>buf'. write_varint (replicate 9 0) 300 = Inr (buf', varint_len 300)
     \<and> read_varint buf' = Inr (300, varint_len 300))"
proof -
  have h: "varint_len 300 \<le> length (replicate 9 0 :: bytes)" by code_simp
  show ?thesis using h varint_roundtrip [OF h] by blast
qed

text \<open>A varint that the reader accepts lies inside the buffer, takes at most nine bytes, and
  is never shorter than what \<open>write_varint\<close> would produce: the written form is the shortest.\<close>

theorem read_varint_shortest:
  assumes "read_varint buf = Inr (v, n)"
  shows "0 < n \<and> n \<le> 9 \<and> n \<le> length buf \<and> varint_len v \<le> n"
  using read_varint_Inr_bounds [OF assms] by simp

theorem read_varint_shortest_witness:
  "read_varint [0x80, 0x05, 0x07] = Inr (5, 2) \<and> varint_len 5 \<le> 2"
proof -
  have h: "read_varint [0x80, 0x05, 0x07] = Inr (5, 2)" by code_simp
  show ?thesis using h read_varint_shortest [OF h] by simp
qed

text \<open>The streaming reader agrees with the strict one: it returns a value exactly when the
  strict reader does, reports missing data only where the strict reader fails on fewer than nine
  bytes, and an answer other than missing data is not changed by more input.\<close>

theorem read_varint_partial_streaming:
  "(read_varint_partial buf = Inr (Some r) \<longleftrightarrow> read_varint buf = Inr r)
   \<and> (read_varint_partial buf = Inr None \<longrightarrow> read_varint buf = Inl Corrupt \<and> length buf < 9)
   \<and> (read_varint_partial buf \<noteq> Inr None \<longrightarrow> read_varint_partial (buf @ ys) = read_varint_partial buf)"
  using read_varint_loop_None_length [of 0 buf 0]
  by (auto simp: read_varint_partial_def read_varint_Inr_iff read_varint_loop_append)
    (simp add: read_varint_def)

theorem read_varint_partial_streaming_witness:
  "read_varint_partial [0x81] = Inr None \<and> read_varint [0x81] = Inl Corrupt"
proof -
  have h: "read_varint_partial [0x81] = Inr None" by code_simp
  show ?thesis using h read_varint_partial_streaming [of "[0x81]"] by blast
qed

end
