(* ===== verification/Float64.thy ===== *)
theory Float64
  imports Varint
begin

unbundle bit_operations_syntax

text \<open>
  Rust's \<^verbatim>\<open>f64\<close> as far as the sources use it on keys and stored values: the bit pattern is a
  64-bit word, and every pattern that is not a NaN denotes an integer multiple of
  \<open>2 ^ (-1074)\<close>, the least positive subnormal. \<open>f64_scaled\<close> is that multiple (infinities are
  one binade above the largest finite number), so the IEEE comparisons are integer
  comparisons, \<^verbatim>\<open>as i64\<close> is a truncating shift and \<^verbatim>\<open>as f64\<close> a rounding to 53 bits,
  ties to even.
\<close>

type_synonym f64 = u64

definition f64_exp :: "f64 \<Rightarrow> nat" where
  "f64_exp b = unat (drop_bit 52 b AND 0x7ff)"

definition f64_man :: "f64 \<Rightarrow> nat" where
  "f64_man b = unat (b AND 0xfffffffffffff)"

definition f64_neg :: "f64 \<Rightarrow> bool" where
  "f64_neg b \<longleftrightarrow> 2 ^ 63 \<le> unat b"

definition is_nan :: "f64 \<Rightarrow> bool" where
  "is_nan b \<longleftrightarrow> f64_exp b = 2047 \<and> f64_man b \<noteq> 0"

definition f64_magnitude :: "f64 \<Rightarrow> nat" where
  "f64_magnitude b =
     (if f64_exp b = 0 then f64_man b else (f64_man b + 2 ^ 52) * 2 ^ (f64_exp b - 1))"

definition f64_scaled :: "f64 \<Rightarrow> int" where
  "f64_scaled b = (if f64_neg b then - int (f64_magnitude b) else int (f64_magnitude b))"

abbreviation f64_unit :: int where
  "f64_unit \<equiv> 2 ^ 1074"

text \<open>\<^verbatim>\<open>PartialOrd for f64\<close>.\<close>

definition f64_partial_cmp :: "f64 \<Rightarrow> f64 \<Rightarrow> ordering option" where
  "f64_partial_cmp a b =
     (if is_nan a \<or> is_nan b then None else Some (ord_cmp (f64_scaled a) (f64_scaled b)))"

definition f64_lt :: "f64 \<Rightarrow> f64 \<Rightarrow> bool" where
  "f64_lt a b \<longleftrightarrow> f64_partial_cmp a b = Some Less"

definition f64_ge :: "f64 \<Rightarrow> f64 \<Rightarrow> bool" where
  "f64_ge a b \<longleftrightarrow> f64_partial_cmp a b = Some Greater \<or> f64_partial_cmp a b = Some Equal"

text \<open>\<^verbatim>\<open>f as i64\<close>: truncation towards zero, saturating, NaN to zero.\<close>

definition f64_trunc :: "f64 \<Rightarrow> int" where
  "f64_trunc b =
     (let m = f64_man b + 2 ^ 52;
          q = (if f64_exp b = 0 then 0
               else if 1075 \<le> f64_exp b then m * 2 ^ (f64_exp b - 1075)
               else m div 2 ^ (1075 - f64_exp b))
      in if f64_neg b then - int q else int q)"

definition f64_as_i64 :: "f64 \<Rightarrow> i64" where
  "f64_as_i64 b =
     (if is_nan b then 0
      else word_of_int (max (- (2 ^ 63)) (min (2 ^ 63 - 1) (f64_trunc b))))"

text \<open>
  \<^verbatim>\<open>i as f64\<close>: an integer of \<open>L\<close> bits is scaled to 53 bits, or rounded to 53 bits with ties
  to even; a carry out of the mantissa enters the exponent field.
\<close>

definition round_half_even :: "nat \<Rightarrow> nat \<Rightarrow> nat" where
  "round_half_even n shift =
     (let q = n div 2 ^ shift; r = n mod 2 ^ shift
      in if 2 * r > 2 ^ shift \<or> (2 * r = 2 ^ shift \<and> odd q) then q + 1 else q)"

definition nat_as_f64 :: "nat \<Rightarrow> nat" where
  "nat_as_f64 n =
     (if n = 0 then 0
      else let l = bit_len n;
               q = (if l \<le> 53 then n * 2 ^ (53 - l) else round_half_even n (l - 53))
           in (l + 1021) * 2 ^ 52 + q)"

definition i64_as_f64 :: "i64 \<Rightarrow> f64" where
  "i64_as_f64 i =
     (let z = sint i; n = nat_as_f64 (nat \<bar>z\<bar>)
      in word_of_nat (if z < 0 then 2 ^ 63 + n else n))"

lemmas f64_defs = f64_exp_def f64_man_def f64_neg_def is_nan_def f64_magnitude_def f64_scaled_def

section \<open>Decoding the fields\<close>

lemma f64_exp_eq: "f64_exp b = unat b div 2 ^ 52 mod 2048"
proof -
  have "drop_bit 52 b AND 0x7ff = take_bit 11 (drop_bit 52 b)"
    by (simp add: take_bit_eq_mask mask_eq_exp_minus_1)
  then show ?thesis
    by (simp add: f64_exp_def unsigned_take_bit_eq take_bit_eq_mod drop_bit_eq_div unat_div_distrib unat_mod_distrib)
qed

lemma f64_man_eq: "f64_man b = unat b mod 2 ^ 52"
proof -
  have "b AND 0xfffffffffffff = take_bit 52 b"
    by (simp add: take_bit_eq_mask mask_eq_exp_minus_1)
  then show ?thesis
    by (simp add: f64_man_def unsigned_take_bit_eq take_bit_eq_mod unat_mod_distrib)
qed

lemma f64_man_less: "f64_man b < 2 ^ 52"
  by (simp add: f64_man_eq)

lemma div_mod_mult_add:
  "(m::nat) < d \<Longrightarrow> (k * d + m) div d = k" "(m::nat) < d \<Longrightarrow> (k * d + m) mod d = m"
  by simp_all

lemma f64_fields:
  assumes "e < 2048" "m < 2 ^ 52" "s \<le> 1"
  defines "b \<equiv> word_of_nat (s * 2 ^ 63 + (e * 2 ^ 52 + m)) :: f64"
  shows "f64_exp b = e" "f64_man b = m" "f64_neg b \<longleftrightarrow> s = 1"
proof -
  have "e * 2 ^ 52 + m < 2048 * 2 ^ 52" using assms by simp
  then have em: "e * 2 ^ 52 + m < 2 ^ 63" by simp
  then have "s * 2 ^ 63 + (e * 2 ^ 52 + m) < 2 ^ 64" using assms(3) by (cases s) auto
  then have u: "unat b = s * 2 ^ 63 + (e * 2 ^ 52 + m)"
    by (simp only: b_def unat_of_nat) simp
  have "s * 2 ^ 63 + (e * 2 ^ 52 + m) = (s * 2048 + e) * 2 ^ 52 + m" by simp
  then have "unat b div 2 ^ 52 = s * 2048 + e" "unat b mod 2 ^ 52 = m"
    using div_mod_mult_add [OF assms(2), of "s * 2048 + e"] u by presburger+
  then show "f64_exp b = e" "f64_man b = m"
    using assms(1) by (simp_all add: f64_exp_eq f64_man_eq)
  show "f64_neg b \<longleftrightarrow> s = 1"
    using em assms(3) unfolding f64_neg_def u by (cases s) auto
qed

lemma f64_trunc_eq:
  "f64_trunc b = (if f64_neg b then - int (f64_magnitude b div 2 ^ 1074)
                  else int (f64_magnitude b div 2 ^ 1074))"
proof -
  let ?e = "f64_exp b" and ?m = "f64_man b + 2 ^ 52"
  have "(if ?e = 0 then 0 else if 1075 \<le> ?e then ?m * 2 ^ (?e - 1075) else ?m div 2 ^ (1075 - ?e))
      = f64_magnitude b div 2 ^ 1074"
  proof -
    consider "?e = 0" | "?e \<noteq> 0" "1075 \<le> ?e" | "?e \<noteq> 0" "\<not> 1075 \<le> ?e" by blast
    then show ?thesis
    proof cases
      case 1
      have "f64_man b < 2 ^ 1074"
        by (rule less_le_trans [OF f64_man_less], rule power_increasing) simp_all
      with 1 show ?thesis unfolding f64_magnitude_def by (simp add: div_less)
    next
      case 2
      then have e: "?e - 1 = (?e - 1075) + 1074" by simp
      have "f64_magnitude b = (?m * 2 ^ (?e - 1075)) * 2 ^ 1074"
        using 2(1) unfolding f64_magnitude_def e power_add by (simp only: if_False mult.assoc)
      then show ?thesis using 2 by (simp only: if_False if_True) simp
    next
      case 3
      then have e: "1074 = (?e - 1) + (1075 - ?e)" by simp
      have "(2::nat) ^ 1074 = 2 ^ (?e - 1) * 2 ^ (1075 - ?e)"
        by (subst e) (simp only: power_add)
      moreover have "?m * 2 ^ (?e - 1) div (2 ^ (?e - 1) * 2 ^ (1075 - ?e)) = ?m div 2 ^ (1075 - ?e)"
        by (simp add: div_mult2_eq)
      ultimately show ?thesis using 3 unfolding f64_magnitude_def by (simp only: if_False)
    qed
  qed
  then show ?thesis by (simp only: f64_trunc_def Let_def)
qed

section \<open>Integers that a float represents exactly\<close>

lemma bit_len_bounds:
  assumes "0 < n"
  shows "0 < bit_len n" "2 ^ (bit_len n - 1) \<le> n" "n < 2 ^ bit_len n"
proof -
  show "n < 2 ^ bit_len n" using bit_len_le_iff [of n "bit_len n"] by simp
  show pos: "0 < bit_len n" using assms bit_len_le_iff [of n 0] by simp
  then have "\<not> bit_len n \<le> bit_len n - 1" by simp
  then show "2 ^ (bit_len n - 1) \<le> n" by (simp add: bit_len_le_iff)
qed

lemma round_half_even_exact: "2 ^ k dvd n \<Longrightarrow> round_half_even n k = n div 2 ^ k"
  by (simp add: round_half_even_def Let_def)

lemma nat_as_f64_mantissa:
  assumes n: "0 < n" "n = m * 2 ^ k" "m < 2 ^ 53"
  obtains q where "nat_as_f64 n = (bit_len n + 1022) * 2 ^ 52 + (q - 2 ^ 52)"
    and "2 ^ 52 \<le> q" "q < 2 ^ 53" "q * 2 ^ (bit_len n + 1021) = n * 2 ^ 1074"
proof -
  let ?l = "bit_len n"
  note l = bit_len_bounds [OF n(1)]
  define q where "q = (if ?l \<le> 53 then n * 2 ^ (53 - ?l) else round_half_even n (?l - 53))"
  have q: "2 ^ 52 \<le> q \<and> q < 2 ^ 53 \<and> q * 2 ^ (?l + 1021) = n * 2 ^ 1074"
  proof (cases "?l \<le> 53")
    case True
    have "2 ^ (?l - 1) * 2 ^ (53 - ?l) \<le> n * 2 ^ (53 - ?l)" "n * 2 ^ (53 - ?l) < 2 ^ ?l * 2 ^ (53 - ?l)"
      using l by simp_all
    moreover have "(?l - 1) + (53 - ?l) = 52" "?l + (53 - ?l) = 53" "(53 - ?l) + (?l + 1021) = 1074"
      using True l(1) by linarith+
    ultimately show ?thesis using True
      by (simp add: q_def mult.assoc del: power_Suc flip: power_add)
  next
    case False
    have "(2::nat) ^ (?l - 1) < 2 ^ (53 + k)"
    proof -
      have "n < 2 ^ 53 * 2 ^ k" using n(2,3) by simp
      then show ?thesis using l(2) by (simp add: power_add)
    qed
    then have "?l - 53 \<le> k" using False by simp
    then have dvd: "2 ^ (?l - 53) dvd n"
      using n(2) by (simp add: le_imp_power_dvd)
    then have nq: "q * 2 ^ (?l - 53) = n" using False
      by (simp add: q_def round_half_even_exact)
    have e: "?l = 53 + (?l - 53)" "?l - 1 = 52 + (?l - 53)" "?l + 1021 = (?l - 53) + 1074"
      using False by simp_all
    have "q * 2 ^ (?l - 53) < 2 ^ 53 * 2 ^ (?l - 53)"
      using l(3) unfolding nq power_add [symmetric] e(1) [symmetric] .
    moreover have "2 ^ 52 * 2 ^ (?l - 53) \<le> q * 2 ^ (?l - 53)"
      using l(2) unfolding nq power_add [symmetric] e(2) [symmetric] .
    moreover have "q * 2 ^ (?l + 1021) = n * 2 ^ 1074"
      by (simp only: e(3) power_add mult.assoc [symmetric] nq)
    ultimately show ?thesis by simp
  qed
  moreover have "nat_as_f64 n = (?l + 1021) * 2 ^ 52 + q"
    using n(1) by (simp add: nat_as_f64_def q_def Let_def)
  ultimately show ?thesis
    by (intro that [of q]) auto
qed

lemma f64_of_exact_nat:
  assumes n: "n = m * 2 ^ k" "m < 2 ^ 53" "n < 2 ^ 64" and s: "s \<le> 1"
  defines "b \<equiv> word_of_nat (s * 2 ^ 63 + nat_as_f64 n) :: f64"
  shows "f64_magnitude b = n * 2 ^ 1074" "f64_neg b \<longleftrightarrow> s = 1" "\<not> is_nan b"
proof -
  have "f64_magnitude b = n * 2 ^ 1074 \<and> (f64_neg b \<longleftrightarrow> s = 1) \<and> \<not> is_nan b"
  proof (cases "n = 0")
    case True
    then have "b = word_of_nat (s * 2 ^ 63 + (0 * 2 ^ 52 + 0))"
      by (simp add: b_def nat_as_f64_def)
    then have "f64_exp b = 0" "f64_man b = 0" "f64_neg b \<longleftrightarrow> s = 1"
      using f64_fields [of 0 0 s] s by simp_all
    then show ?thesis using True by (simp add: f64_magnitude_def is_nan_def)
  next
    case False
    then obtain q where q: "nat_as_f64 n = (bit_len n + 1022) * 2 ^ 52 + (q - 2 ^ 52)"
      "2 ^ 52 \<le> q" "q < 2 ^ 53" "q * 2 ^ (bit_len n + 1021) = n * 2 ^ 1074"
      using nat_as_f64_mantissa [OF _ n(1,2)] by blast
    have "bit_len n \<le> 64" using n(3) by (simp add: bit_len_le_iff)
    then have "f64_exp b = bit_len n + 1022" "f64_man b = q - 2 ^ 52" "f64_neg b \<longleftrightarrow> s = 1"
      using f64_fields [of "bit_len n + 1022" "q - 2 ^ 52" s] s q(1-3)
      unfolding b_def q(1) by simp_all
    then show ?thesis using q \<open>bit_len n \<le> 64\<close>
      by (simp add: f64_magnitude_def is_nan_def add.commute)
  qed
  then show "f64_magnitude b = n * 2 ^ 1074" "f64_neg b \<longleftrightarrow> s = 1" "\<not> is_nan b" by blast+
qed

lemma sint_u64_bounds: "- (2 ^ 63) \<le> sint (i :: i64)" "sint (i :: i64) < 2 ^ 63"
  using sint_ge [of i] sint_lt [of i] by simp_all

lemma i64_as_f64_exact:
  assumes "nat \<bar>sint i\<bar> = m * 2 ^ k" "m < 2 ^ 53"
  shows "f64_scaled (i64_as_f64 i) = sint i * f64_unit" "\<not> is_nan (i64_as_f64 i)"
proof -
  let ?n = "nat \<bar>sint i\<bar>" and ?s = "if sint i < 0 then 1 else 0 :: nat"
  have b: "i64_as_f64 i = word_of_nat (?s * 2 ^ 63 + nat_as_f64 ?n)"
    by (simp add: i64_as_f64_def Let_def)
  have "?n < 2 ^ 64" using sint_u64_bounds [of i] by simp
  moreover have "?s \<le> 1" by simp
  ultimately have f: "f64_magnitude (i64_as_f64 i) = ?n * 2 ^ 1074"
      "f64_neg (i64_as_f64 i) \<longleftrightarrow> ?s = 1" "\<not> is_nan (i64_as_f64 i)"
    unfolding b by (rule f64_of_exact_nat [OF assms])+
  show "\<not> is_nan (i64_as_f64 i)" using f(3) by simp
  have mag: "int (f64_magnitude (i64_as_f64 i)) = \<bar>sint i\<bar> * f64_unit"
    unfolding f(1) by (simp only: of_nat_mult of_nat_power of_nat_numeral) simp
  show "f64_scaled (i64_as_f64 i) = sint i * f64_unit"
    using f(2) unfolding f64_scaled_def mag by (cases "sint i < 0") simp_all
qed

lemma f64_trunc_representable: "\<exists>m k. nat \<bar>f64_trunc b\<bar> = m * 2 ^ k \<and> m < 2 ^ 53"
proof -
  have m: "f64_man b + 2 ^ 52 < 2 ^ 53" using f64_man_less [of b] by simp
  have d: "(f64_man b + 2 ^ 52) div 2 ^ j < 2 ^ 53" for j :: nat
    using m by (rule le_less_trans [OF div_le_dividend])
  consider "f64_exp b = 0" | "f64_exp b \<noteq> 0" "1075 \<le> f64_exp b" | "f64_exp b \<noteq> 0" "\<not> 1075 \<le> f64_exp b"
    by blast
  then show ?thesis
  proof cases
    case 1
    then have "nat \<bar>f64_trunc b\<bar> = 0 * 2 ^ 0" by (simp add: f64_trunc_def)
    then show ?thesis by (metis zero_less_numeral zero_less_power)
  next
    case 2
    then have "nat \<bar>f64_trunc b\<bar> = (f64_man b + 2 ^ 52) * 2 ^ (f64_exp b - 1075)"
      by (simp add: f64_trunc_def Let_def del: of_nat_add of_nat_mult of_nat_numeral of_nat_power)
    with m show ?thesis by blast
  next
    case 3
    then have "nat \<bar>f64_trunc b\<bar> = (f64_man b + 2 ^ 52) div 2 ^ (1075 - f64_exp b) * 2 ^ 0"
      by (simp add: f64_trunc_def Let_def del: of_nat_add of_nat_numeral)
    with d show ?thesis by blast
  qed
qed

text \<open>Truncation brackets the value: \<open>t\<close> is the nearest integer towards zero.\<close>

lemma f64_trunc_bracket:
  fixes b :: f64
  defines "t \<equiv> f64_trunc b"
  shows "0 \<le> f64_scaled b \<Longrightarrow> t * f64_unit \<le> f64_scaled b \<and> f64_scaled b < (t + 1) * f64_unit"
    and "f64_scaled b \<le> 0 \<Longrightarrow> (t - 1) * f64_unit < f64_scaled b \<and> f64_scaled b \<le> t * f64_unit"
proof -
  let ?m = "int (f64_magnitude b)" and ?q = "int (f64_magnitude b div 2 ^ 1074)"
  have q: "?q * f64_unit \<le> ?m" "?m < (?q + 1) * f64_unit"
  proof -
    have e: "?q = ?m div f64_unit" by (simp only: of_nat_div of_nat_power of_nat_numeral)
    have u: "0 < f64_unit" by (rule zero_less_power) simp
    show "?q * f64_unit \<le> ?m" unfolding e using div_mult_mod_eq [of ?m f64_unit] pos_mod_sign [OF u, of ?m] by linarith
    show "?m < (?q + 1) * f64_unit" unfolding e distrib_right
      using div_mult_mod_eq [of ?m f64_unit] pos_mod_bound [OF u, of ?m] by linarith
  qed
  have t: "t = (if f64_neg b then - ?q else ?q)" unfolding t_def by (rule f64_trunc_eq)
  have u: "0 < f64_unit" by (rule zero_less_power) simp
  show "0 \<le> f64_scaled b \<Longrightarrow> t * f64_unit \<le> f64_scaled b \<and> f64_scaled b < (t + 1) * f64_unit"
  proof (cases "f64_neg b")
    case True
    assume "0 \<le> f64_scaled b"
    with True have "f64_magnitude b = 0" by (simp add: f64_scaled_def)
    with True u show ?thesis by (simp add: t f64_scaled_def del: power_numeral)
  next
    case False
    then show ?thesis using q by (simp only: t f64_scaled_def if_False)
  qed
  show "f64_scaled b \<le> 0 \<Longrightarrow> (t - 1) * f64_unit < f64_scaled b \<and> f64_scaled b \<le> t * f64_unit"
  proof (cases "f64_neg b")
    case True
    then show ?thesis using q by (simp only: t f64_scaled_def if_True left_diff_distrib distrib_right minus_mult_left [symmetric]) linarith
  next
    case False
    assume "f64_scaled b \<le> 0"
    with False have "f64_magnitude b = 0" by (simp add: f64_scaled_def)
    with False u show ?thesis by (simp add: t f64_scaled_def del: power_numeral)
  qed
qed

end
