(* ===== verification/Ordering_Spec.thy ===== *)
theory Ordering_Spec
  imports Prelude
begin

text \<open>
  The contract of Rust's \<^verbatim>\<open>Ord\<close>: a comparison function that is a total preorder on the values
  satisfying \<open>ok\<close>. Keys, index columns, collations and whole records are compared through
  functions of this kind; the facts below are proved once, from the contract, and used through
  interpretations. \<open>lex_cmp\<close> combines column comparisons the way every record comparison does.
\<close>

locale cmp_order =
  fixes ok :: "'a \<Rightarrow> bool"
    and cmp :: "'a \<Rightarrow> 'a \<Rightarrow> ordering"
  assumes cmp_refl: "ok a \<Longrightarrow> cmp a a = Equal"
    and cmp_rev: "ok a \<Longrightarrow> ok b \<Longrightarrow> reverse_ordering (cmp a b) = cmp b a"
    and cmp_le_trans: "ok a \<Longrightarrow> ok b \<Longrightarrow> ok c \<Longrightarrow>
      cmp a b \<noteq> Greater \<Longrightarrow> cmp b c \<noteq> Greater \<Longrightarrow> cmp a c \<noteq> Greater"
begin

lemma cmp_Equal_sym: "ok a \<Longrightarrow> ok b \<Longrightarrow> cmp a b = Equal \<longleftrightarrow> cmp b a = Equal"
  by (simp flip: cmp_rev [of a b])

lemma cmp_Less_iff_Greater: "ok a \<Longrightarrow> ok b \<Longrightarrow> cmp a b = Less \<longleftrightarrow> cmp b a = Greater"
  by (simp flip: cmp_rev [of a b])

lemma cmp_Equal_left:
  assumes "ok a" "ok b" "ok c" "cmp a b = Equal"
  shows "cmp a c = cmp b c"
proof -
  have ba: "cmp b a = Equal" using assms cmp_Equal_sym by blast
  have "cmp a c \<noteq> Greater \<longleftrightarrow> cmp b c \<noteq> Greater"
    using cmp_le_trans [of a b c] cmp_le_trans [of b a c] assms ba by auto
  moreover have "cmp c a \<noteq> Greater \<longleftrightarrow> cmp c b \<noteq> Greater"
    using cmp_le_trans [of c a b] cmp_le_trans [of c b a] assms ba by auto
  ultimately show ?thesis
    using cmp_Less_iff_Greater [of a c] cmp_Less_iff_Greater [of b c] assms
    by (cases "cmp a c"; cases "cmp b c") auto
qed

lemma cmp_Less_trans:
  assumes "ok a" "ok b" "ok c" "cmp a b = Less" "cmp b c \<noteq> Greater"
  shows "cmp a c = Less"
proof -
  have "cmp a c \<noteq> Greater" using cmp_le_trans [of a b c] assms by simp
  moreover have "cmp a c \<noteq> Equal"
  proof
    assume "cmp a c = Equal"
    then have "cmp a b = cmp c b" using assms cmp_Equal_left by blast
    then have "cmp b c = Greater" using assms cmp_Less_iff_Greater [of c b] by simp
    with assms show False by simp
  qed
  ultimately show ?thesis by (cases "cmp a c") auto
qed

lemma cmp_Less_trans':
  assumes "ok a" "ok b" "ok c" "cmp a b \<noteq> Greater" "cmp b c = Less"
  shows "cmp a c = Less"
proof (cases "cmp a b")
  case Less
  with assms show ?thesis by (intro cmp_Less_trans [of a b c]) auto
next
  case Equal
  with assms cmp_Equal_left [of a b c] show ?thesis by simp
qed (use assms in simp)

end

text \<open>A comparison through a key into a linear order satisfies the contract.\<close>

lemma cmp_order_by_key:
  fixes key :: "'a \<Rightarrow> 'b::linorder"
  assumes "\<And>a b. ok a \<Longrightarrow> ok b \<Longrightarrow> cmp a b = ord_cmp (key a) (key b)"
  shows "cmp_order ok cmp"
proof
  fix a b c assume ok: "ok a" "ok b" "ok c"
  show "cmp a a = Equal" using assms ok by simp
  show "reverse_ordering (cmp a b) = cmp b a" using assms ok by (simp add: reverse_ord_cmp)
  assume "cmp a b \<noteq> Greater" "cmp b c \<noteq> Greater"
  then show "cmp a c \<noteq> Greater" using assms ok by auto
qed

text \<open>Reversing the result (a descending column) keeps the contract.\<close>

lemma cmp_order_reverse:
  assumes "cmp_order ok cmp"
  shows "cmp_order ok (\<lambda>a b. reverse_ordering (cmp a b))"
proof -
  note c = assms
  show ?thesis
  proof
    fix a b assume ok: "ok a" "ok b"
    show "reverse_ordering (cmp a a) = Equal" using cmp_order.cmp_refl [OF c ok(1)] by simp
    show "reverse_ordering (reverse_ordering (cmp a b)) = reverse_ordering (cmp b a)"
      using cmp_order.cmp_rev [OF c ok] by simp
  next
    fix a b c' assume ok: "ok a" "ok b" "ok c'"
      and le: "reverse_ordering (cmp a b) \<noteq> Greater" "reverse_ordering (cmp b c') \<noteq> Greater"
    have "cmp b a \<noteq> Greater" "cmp c' b \<noteq> Greater"
      using le cmp_order.cmp_rev [OF c] ok by auto
    then have "cmp c' a \<noteq> Greater" using cmp_order.cmp_le_trans [OF c, of c' b a] ok by blast
    then show "reverse_ordering (cmp a c') \<noteq> Greater"
      using cmp_order.cmp_rev [OF c, of a c'] ok by simp
  qed
qed

text \<open>Byte strings under \<^verbatim>\<open>Ord\<close>, a comparison of keys, and a comparison refined by a second one.\<close>

lemma cmp_order_slice_cmp: "cmp_order (\<lambda>_. True) slice_cmp"
proof
  fix as bs cs :: "'a list"
  assume "slice_cmp as bs \<noteq> Greater" "slice_cmp bs cs \<noteq> Greater"
  then show "slice_cmp as cs \<noteq> Greater"
    using slice_cmp_Less_trans [of as bs cs] slice_cmp_Equal [of as bs] slice_cmp_Equal [of bs cs]
    by (cases "slice_cmp as bs"; cases "slice_cmp bs cs") auto
qed (simp_all add: reverse_slice_cmp)

lemma cmp_order_on_key:
  assumes "cmp_order ok c" and "\<And>a. ok' a \<Longrightarrow> ok (f a)"
  shows "cmp_order ok' (\<lambda>a b. c (f a) (f b))"
proof
  fix a b d assume ok': "ok' a" "ok' b" "ok' d"
  then have ok: "ok (f a)" "ok (f b)" "ok (f d)" using assms(2) by auto
  show "c (f a) (f a) = Equal" using ok by (intro cmp_order.cmp_refl [OF assms(1)])
  show "reverse_ordering (c (f a) (f b)) = c (f b) (f a)"
    using ok by (intro cmp_order.cmp_rev [OF assms(1)])
  assume "c (f a) (f b) \<noteq> Greater" "c (f b) (f d) \<noteq> Greater"
  with ok show "c (f a) (f d) \<noteq> Greater" by (rule cmp_order.cmp_le_trans [OF assms(1)])
qed

lemma cmp_order_ranked:
  fixes rank :: "'a \<Rightarrow> nat"
  assumes cmp: "\<And>a b. ok a \<Longrightarrow> ok b \<Longrightarrow>
      cmp a b = (if rank a = rank b then c (rank a) a b else ord_cmp (rank a) (rank b))"
    and c: "\<And>n. cmp_order (\<lambda>a. ok a \<and> rank a = n) (c n)"
  shows "cmp_order ok cmp"
proof
  fix a b d assume ok: "ok a" "ok b" "ok d"
  show "cmp a a = Equal"
    unfolding cmp [OF ok(1) ok(1)] using ok cmp_order.cmp_refl [OF c, of a "rank a"] by simp
  show "reverse_ordering (cmp a b) = cmp b a"
    unfolding cmp [OF ok(1) ok(2)] cmp [OF ok(2) ok(1)]
    using ok cmp_order.cmp_rev [OF c, of a "rank a" b] by (auto simp: reverse_ord_cmp)
  assume le: "cmp a b \<noteq> Greater" "cmp b d \<noteq> Greater"
  note le = le [unfolded cmp [OF ok(1) ok(2)] cmp [OF ok(2) ok(3)]]
  then have "rank a \<le> rank b" "rank b \<le> rank d" by (auto split: if_splits)
  moreover have "c (rank a) a d \<noteq> Greater" if eq: "rank a = rank b" "rank b = rank d"
  proof (rule cmp_order.cmp_le_trans [OF c, of a "rank a" b d])
    show "c (rank a) a b \<noteq> Greater" "c (rank a) b d \<noteq> Greater" using le eq by simp_all
  qed (use ok eq in auto)
  ultimately show "cmp a d \<noteq> Greater" unfolding cmp [OF ok(1) ok(3)] by auto
qed

lemma cmp_order_then:
  assumes c1: "cmp_order ok c1" and c2: "cmp_order ok c2"
  shows "cmp_order ok (\<lambda>a b. if c1 a b = Equal then c2 a b else c1 a b)"
proof
  fix a b d assume ok: "ok a" "ok b" "ok d"
  let ?c = "\<lambda>a b. if c1 a b = Equal then c2 a b else c1 a b"
  show "?c a a = Equal" using cmp_order.cmp_refl [OF c2 ok(1)] cmp_order.cmp_refl [OF c1 ok(1)] by simp
  show "reverse_ordering (?c a b) = ?c b a"
    using cmp_order.cmp_rev [OF c1 ok(1,2)] cmp_order.cmp_rev [OF c2 ok(1,2)]
    by (cases "c1 a b"; cases "c1 b a") simp_all
  assume le: "?c a b \<noteq> Greater" "?c b d \<noteq> Greater"
  show "?c a d \<noteq> Greater"
  proof (cases "c1 a b = Equal")
    case ab: True
    then have "c1 a d = c1 b d" by (rule cmp_order.cmp_Equal_left [OF c1 ok])
    then show ?thesis
      using le ab cmp_order.cmp_le_trans [OF c2 ok] by (simp split: if_splits)
  next
    case ab: False
    then have "c1 a b = Less" using le by (cases "c1 a b") simp_all
    moreover have "c1 b d \<noteq> Greater" using le by (simp split: if_splits)
    ultimately have "c1 a d = Less" by (rule cmp_order.cmp_Less_trans [OF c1 ok])
    then show ?thesis by simp
  qed
qed

section \<open>Lexicographic combination\<close>

text \<open>
  Compare column by column until one of the comparison functions or one of the lists is
  exhausted; the first difference decides, \<open>tie\<close> is returned when there is none.
\<close>

fun lex_cmp :: "('a \<Rightarrow> 'a \<Rightarrow> ordering) list \<Rightarrow> ordering \<Rightarrow> 'a list \<Rightarrow> 'a list \<Rightarrow> ordering" where
  "lex_cmp (c # cs) tie (a # as) (b # bs) =
     (if c a b = Equal then lex_cmp cs tie as bs else c a b)"
| "lex_cmp _ tie _ _ = tie"

lemma lex_cmp_Nil [simp]:
  "lex_cmp [] tie as bs = tie" "lex_cmp cs tie [] bs = tie" "lex_cmp cs tie as [] = tie"
  by (cases cs; cases as; cases bs; simp)+

definition all_ok :: "('a \<Rightarrow> bool) \<Rightarrow> nat \<Rightarrow> 'a list \<Rightarrow> bool" where
  "all_ok ok n as \<longleftrightarrow> length as = n \<and> list_all ok as"

lemma all_ok_SucE:
  assumes "all_ok ok (Suc n) as"
  obtains a as' where "as = a # as'" "ok a" "all_ok ok n as'"
  using assms by (cases as) (auto simp: all_ok_def)

lemma lex_cmp_refl:
  "list_all (cmp_order ok) cs \<Longrightarrow> all_ok ok (length cs) as \<Longrightarrow> lex_cmp cs Equal as as = Equal"
proof (induction cs arbitrary: as)
  case (Cons c cs)
  from Cons.prems(2) obtain a as' where "as = a # as'" "ok a" "all_ok ok (length cs) as'"
    by (auto elim: all_ok_SucE)
  moreover have "cmp_order ok c" using Cons.prems(1) by simp
  ultimately show ?case using Cons by (simp add: cmp_order.cmp_refl [of ok c])
qed simp

lemma lex_cmp_rev:
  "list_all (cmp_order ok) cs \<Longrightarrow> all_ok ok (length cs) as \<Longrightarrow> all_ok ok (length cs) bs \<Longrightarrow>
    reverse_ordering (lex_cmp cs Equal as bs) = lex_cmp cs Equal bs as"
proof (induction cs arbitrary: as bs)
  case (Cons c cs)
  from Cons.prems(2) obtain a as' where a: "as = a # as'" "ok a" "all_ok ok (length cs) as'"
    by (auto elim: all_ok_SucE)
  from Cons.prems(3) obtain b bs' where b: "bs = b # bs'" "ok b" "all_ok ok (length cs) bs'"
    by (auto elim: all_ok_SucE)
  have "cmp_order ok c" using Cons.prems(1) by simp
  then have "reverse_ordering (c a b) = c b a"
    using a(2) b(2) by (rule cmp_order.cmp_rev)
  moreover have "reverse_ordering (lex_cmp cs Equal as' bs') = lex_cmp cs Equal bs' as'"
    using Cons a b by simp
  ultimately show ?case
    unfolding a b by (cases "c a b"; cases "c b a") simp_all
qed simp

lemma lex_cmp_le_trans:
  "list_all (cmp_order ok) cs \<Longrightarrow> all_ok ok (length cs) as \<Longrightarrow> all_ok ok (length cs) bs \<Longrightarrow>
    all_ok ok (length cs) zs \<Longrightarrow> lex_cmp cs Equal as bs \<noteq> Greater \<Longrightarrow>
    lex_cmp cs Equal bs zs \<noteq> Greater \<Longrightarrow> lex_cmp cs Equal as zs \<noteq> Greater"
proof (induction cs arbitrary: as bs zs)
  case (Cons c cs)
  from Cons.prems(2) obtain a as' where a: "as = a # as'" "ok a" "all_ok ok (length cs) as'"
    by (auto elim: all_ok_SucE)
  from Cons.prems(3) obtain b bs' where b: "bs = b # bs'" "ok b" "all_ok ok (length cs) bs'"
    by (auto elim: all_ok_SucE)
  from Cons.prems(4) obtain z zs' where z: "zs = z # zs'" "ok z" "all_ok ok (length cs) zs'"
    by (auto elim: all_ok_SucE)
  have c: "cmp_order ok c" using Cons.prems(1) by simp
  have IH: "lex_cmp cs Equal as' bs' \<noteq> Greater \<Longrightarrow> lex_cmp cs Equal bs' zs' \<noteq> Greater \<Longrightarrow>
      lex_cmp cs Equal as' zs' \<noteq> Greater"
    by (rule Cons.IH [of as' bs' zs']) (use Cons.prems(1) a b z in simp_all)
  have eqs: "lex_cmp (c # cs) Equal as bs = (if c a b = Equal then lex_cmp cs Equal as' bs' else c a b)"
      "lex_cmp (c # cs) Equal bs zs = (if c b z = Equal then lex_cmp cs Equal bs' zs' else c b z)"
      "lex_cmp (c # cs) Equal as zs = (if c a z = Equal then lex_cmp cs Equal as' zs' else c a z)"
    unfolding a(1) b(1) z(1) by (rule lex_cmp.simps(1))+
  note le = Cons.prems(5,6) [unfolded eqs]
  show ?case unfolding eqs
  proof (cases "c a b = Equal")
    case ab: True
    then have az: "c a z = c b z" using cmp_order.cmp_Equal_left [OF c a(2) b(2) z(2)] by simp
    show "(if c a z = Equal then lex_cmp cs Equal as' zs' else c a z) \<noteq> Greater"
      using le IH ab az by (simp split: if_splits)
  next
    case ab: False
    then have "c a b = Less" using le by (cases "c a b") simp_all
    moreover have "c b z \<noteq> Greater" using le by (auto split: if_splits)
    ultimately have "c a z = Less" using cmp_order.cmp_Less_trans [OF c a(2) b(2) z(2)] by simp
    then show "(if c a z = Equal then lex_cmp cs Equal as' zs' else c a z) \<noteq> Greater" by simp
  qed
qed simp

lemma lex_cmp_order:
  assumes "list_all (cmp_order ok) cs"
  shows "cmp_order (all_ok ok (length cs)) (lex_cmp cs Equal)"
proof (rule cmp_order.intro)
  fix as bs zs assume as: "all_ok ok (length cs) as" and bs: "all_ok ok (length cs) bs"
    and zs: "all_ok ok (length cs) zs"
  show "lex_cmp cs Equal as as = Equal" using assms as by (rule lex_cmp_refl)
  show "reverse_ordering (lex_cmp cs Equal as bs) = lex_cmp cs Equal bs as"
    using assms as bs by (rule lex_cmp_rev)
  assume "lex_cmp cs Equal as bs \<noteq> Greater" and "lex_cmp cs Equal bs zs \<noteq> Greater"
  with assms as bs zs show "lex_cmp cs Equal as zs \<noteq> Greater" by (rule lex_cmp_le_trans)
qed

end
