(* ===== verification/Numerics.thy ===== *)
theory Numerics
  imports Float64 Ordering_Spec "HOL-Library.Signed_Division"
begin

unbundle bit_operations_syntax

text \<open>
  \<^verbatim>\<open>core/numeric/mod.rs\<close>: SQL numbers, their ordering across integers and floats, and the
  nullable 64-bit integers with SQLite's shift and remainder rules. A \<^verbatim>\<open>NonNan\<close> is a bit
  pattern, \<open>numeric_ok\<close> is its type invariant.
\<close>

section \<open>Numbers\<close>

datatype numeric = Integer i64 | Float f64

text \<open>\<^verbatim>\<open>NonNan::new\<close>.\<close>

definition nonnan_new :: "f64 \<Rightarrow> f64 option" where
  "nonnan_new value = (if is_nan value then None else Some value)"

definition numeric_ok :: "numeric \<Rightarrow> bool" where
  "numeric_ok n \<longleftrightarrow> (case n of Integer _ \<Rightarrow> True | Float f \<Rightarrow> \<not> is_nan f)"

definition numeric_to_f64 :: "numeric \<Rightarrow> f64" where
  "numeric_to_f64 n = (case n of Integer v \<Rightarrow> i64_as_f64 v | Float v \<Rightarrow> v)"

definition numeric_to_bool :: "numeric \<Rightarrow> bool" where
  "numeric_to_bool n =
     (case n of
        Integer v \<Rightarrow> v \<noteq> 0
      | Float f \<Rightarrow> f64_partial_cmp f 0 \<noteq> Some Equal)"

text \<open>The constants \<open>-2 ^ 63\<close> and \<open>2 ^ 63\<close> as floats.\<close>

definition f64_min_i64 :: f64 where "f64_min_i64 = 0xC3E0000000000000"
definition f64_max_i64 :: f64 where "f64_max_i64 = 0x43E0000000000000"

definition sqlite_int_float_cmp :: "i64 \<Rightarrow> f64 \<Rightarrow> ordering" where
  "sqlite_int_float_cmp int_val float_val =
     (if is_nan float_val then Greater
      else if f64_lt float_val f64_min_i64 then Greater
      else if f64_ge float_val f64_max_i64 then Less
      else
        (let float_as_int = f64_as_i64 float_val
         in case ord_cmp (sint int_val) (sint float_as_int) of
              Equal \<Rightarrow>
                (case f64_partial_cmp (i64_as_f64 int_val) float_val of
                   Some c \<Rightarrow> c
                 | None \<Rightarrow> Equal)
            | c \<Rightarrow> c))"

fun numeric_cmp :: "numeric \<Rightarrow> numeric \<Rightarrow> ordering" where
  "numeric_cmp (Integer a) (Integer b) = ord_cmp (sint a) (sint b)"
| "numeric_cmp (Float a) (Float b) =
     (case f64_partial_cmp a b of Some c \<Rightarrow> c | None \<Rightarrow> Equal)"
| "numeric_cmp (Integer i) (Float f) = sqlite_int_float_cmp i f"
| "numeric_cmp (Float f) (Integer i) = reverse_ordering (sqlite_int_float_cmp i f)"

definition numeric_eq :: "numeric \<Rightarrow> numeric \<Rightarrow> bool" where
  "numeric_eq a b \<longleftrightarrow> numeric_cmp a b = Equal"

text \<open>The number a \<open>numeric\<close> denotes, in units of \<open>2 ^ (-1074)\<close>.\<close>

definition numeric_scaled :: "numeric \<Rightarrow> int" where
  "numeric_scaled n = (case n of Integer i \<Rightarrow> sint i * f64_unit | Float f \<Rightarrow> f64_scaled f)"

section \<open>Nullable integers\<close>

datatype nullable_integer = NullableNull | NullableInt i64

definition nullable_of_numeric :: "numeric \<Rightarrow> nullable_integer" where
  "nullable_of_numeric n = (case n of Integer v \<Rightarrow> NullableInt v | Float f \<Rightarrow> NullableInt (f64_as_i64 f))"

definition saturating_shl :: "i64 \<Rightarrow> u32 \<Rightarrow> i64" where
  "saturating_shl self rhs = (if 64 \<le> rhs then 0 else push_bit (unat rhs) self)"

definition saturating_shr :: "i64 \<Rightarrow> u32 \<Rightarrow> i64" where
  "saturating_shr self rhs =
     (if 64 \<le> rhs then (if 0 \<le> sint self then 0 else -1)
      else signed_drop_bit (unat rhs) self)"

text \<open>\<^verbatim>\<open>x.try_into().unwrap_or(u32::MAX)\<close> and \<^verbatim>\<open>i64::saturating_abs\<close>.\<close>

definition try_into_u32 :: "i64 \<Rightarrow> u32" where
  "try_into_u32 x = (if 0 \<le> sint x \<and> sint x < 2 ^ 32 then ucast x else 0xffffffff)"

definition saturating_abs :: "i64 \<Rightarrow> i64" where
  "saturating_abs x =
     (if sint x = - (2 ^ 63) then 0x7fffffffffffffff
      else if sint x < 0 then - x else x)"

fun nullable_not :: "nullable_integer \<Rightarrow> nullable_integer" where
  "nullable_not NullableNull = NullableNull"
| "nullable_not (NullableInt lhs) = NullableInt (NOT lhs)"

fun nullable_bitand :: "nullable_integer \<Rightarrow> nullable_integer \<Rightarrow> nullable_integer" where
  "nullable_bitand (NullableInt lhs) (NullableInt rhs) = NullableInt (lhs AND rhs)"
| "nullable_bitand _ _ = NullableNull"

fun nullable_bitor :: "nullable_integer \<Rightarrow> nullable_integer \<Rightarrow> nullable_integer" where
  "nullable_bitor (NullableInt lhs) (NullableInt rhs) = NullableInt (lhs OR rhs)"
| "nullable_bitor _ _ = NullableNull"

fun nullable_shl :: "nullable_integer \<Rightarrow> nullable_integer \<Rightarrow> nullable_integer" where
  "nullable_shl (NullableInt lhs) (NullableInt rhs) =
     NullableInt (if 0 < sint rhs then saturating_shl lhs (try_into_u32 rhs)
          else saturating_shr lhs (try_into_u32 (saturating_abs rhs)))"
| "nullable_shl _ _ = NullableNull"

fun nullable_shr :: "nullable_integer \<Rightarrow> nullable_integer \<Rightarrow> nullable_integer" where
  "nullable_shr (NullableInt lhs) (NullableInt rhs) =
     NullableInt (if 0 < sint rhs then saturating_shr lhs (try_into_u32 rhs)
          else saturating_shl lhs (try_into_u32 (saturating_abs rhs)))"
| "nullable_shr _ _ = NullableNull"

text \<open>
  \<^verbatim>\<open>a % b\<close> on \<^verbatim>\<open>i64\<close> truncates towards zero. The arm for \<open>-1\<close>, which keeps
  \<^verbatim>\<open>i64::MIN % -1\<close> from overflowing, restarts with divisor \<open>1\<close>.
\<close>

definition i64_rem :: "i64 \<Rightarrow> i64 \<Rightarrow> i64" where
  "i64_rem a b = word_of_int (sint a smod sint b)"

fun nullable_rem :: "nullable_integer \<Rightarrow> nullable_integer \<Rightarrow> nullable_integer" where
  "nullable_rem (NullableInt lhs) (NullableInt rhs) =
     (if rhs = 0 then NullableNull
      else if rhs = -1 then NullableInt (i64_rem lhs 1)
      else NullableInt (i64_rem lhs rhs))"
| "nullable_rem _ _ = NullableNull"

section \<open>The comparison is exact\<close>

lemma f64_scaled_bounds_consts:
  "f64_scaled f64_min_i64 = - (2 ^ 63) * f64_unit" "\<not> is_nan f64_min_i64"
  "f64_scaled f64_max_i64 = 2 ^ 63 * f64_unit" "\<not> is_nan f64_max_i64"
  by (simp_all add: f64_defs f64_min_i64_def f64_max_i64_def)

lemma sint_f64_as_i64:
  assumes "\<not> is_nan f" "- (2 ^ 63) \<le> f64_trunc f" "f64_trunc f < 2 ^ 63"
  shows "sint (f64_as_i64 f) = f64_trunc f"
proof -
  have "f64_as_i64 f = word_of_int (f64_trunc f)"
    using assms by (simp add: f64_as_i64_def)
  then show ?thesis using assms(2,3)
    by (simp add: signed_take_bit_int_eq_self_iff sint_sbintrunc')
qed

lemma sqlite_int_float_cmp_exact:
  assumes nan: "\<not> is_nan f"
  shows "sqlite_int_float_cmp i f = ord_cmp (sint i * f64_unit) (f64_scaled f)"
proof -
  define u where "u = f64_unit"
  have u: "0 < u" unfolding u_def by (rule zero_less_power) simp
  define s where "s = f64_scaled f"
  define t where "t = f64_trunc f"
  note i = sint_u64_bounds [of i]
  have lt: "f64_lt f f64_min_i64 \<longleftrightarrow> s < - (2 ^ 63) * u"
    using nan by (simp only: f64_lt_def f64_partial_cmp_def f64_scaled_bounds_consts s_def u_def) simp
  have ge: "f64_ge f f64_max_i64 \<longleftrightarrow> 2 ^ 63 * u \<le> s"
    using nan by (simp only: f64_ge_def f64_partial_cmp_def f64_scaled_bounds_consts s_def u_def) auto
  have lo: "- (2 ^ 63) * u \<le> sint i * u" and hi: "sint i * u < 2 ^ 63 * u"
    using i u by (simp_all only: mult_le_cancel_right mult_less_cancel_right) simp_all
  consider "s < - (2 ^ 63) * u" | "2 ^ 63 * u \<le> s" | "- (2 ^ 63) * u \<le> s" "s < 2 ^ 63 * u"
    by linarith
  then have "sqlite_int_float_cmp i f = ord_cmp (sint i * u) s"
  proof cases
    case 1
    then have "s < sint i * u" using lo by linarith
    with 1 nan lt show ?thesis by (simp add: sqlite_int_float_cmp_def ord_cmp_def)
  next
    case 2
    then have "sint i * u < s" "\<not> s < - (2 ^ 63) * u" using hi lo by linarith+
    with 2 nan lt ge show ?thesis by (simp add: sqlite_int_float_cmp_def ord_cmp_def)
  next
    case 3
    have br: "0 \<le> s \<Longrightarrow> t * u \<le> s \<and> s < (t + 1) * u" "s \<le> 0 \<Longrightarrow> (t - 1) * u < s \<and> s \<le> t * u"
      unfolding s_def t_def u_def by (rule f64_trunc_bracket; assumption)+
    have mono: "a * u < b * u \<longleftrightarrow> a < b" for a b using u by simp
    have "- (2 ^ 63) \<le> t \<and> t < 2 ^ 63"
    proof (cases "0 \<le> s")
      case True
      with br 3 have "t * u < 2 ^ 63 * u" "0 * u < (t + 1) * u" by linarith+
      then show ?thesis unfolding mono by simp
    next
      case False
      with br 3 have "- (2 ^ 63) * u \<le> t * u" "(t - 1) * u < 0 * u" by linarith+
      then have "\<not> t * u < - (2 ^ 63) * u" "(t - 1) * u < 0 * u" by simp_all
      then show ?thesis unfolding mono by simp
    qed
    then have t: "sint (f64_as_i64 f) = t"
      using sint_f64_as_i64 [OF nan] by (simp add: t_def)
    have eq: "sqlite_int_float_cmp i f = (case ord_cmp (sint i) t of
        Equal \<Rightarrow> (case f64_partial_cmp (i64_as_f64 i) f of Some c \<Rightarrow> c | None \<Rightarrow> Equal) | c \<Rightarrow> c)"
      using 3 nan lt ge by (simp add: sqlite_int_float_cmp_def t Let_def)
    consider "sint i < t" | "sint i > t" | "sint i = t" by linarith
    then show ?thesis
    proof cases
      case 1
      then have "sint i * u < t * u" "sint i * u \<le> (t - 1) * u" using u by simp_all
      then have "sint i * u < s" using br by (cases "0 \<le> s") linarith+
      with 1 eq show ?thesis by (simp add: ord_cmp_def)
    next
      case 2
      then have "t * u < sint i * u" "(t + 1) * u \<le> sint i * u" using u by simp_all
      then have "s < sint i * u" using br by (cases "0 \<le> s") linarith+
      with 2 eq show ?thesis by (simp add: ord_cmp_def)
    next
      case 3
      obtain m k where "nat \<bar>sint i\<bar> = m * 2 ^ k" "m < 2 ^ 53"
        using f64_trunc_representable [of f] 3 unfolding t_def by metis
      then have "f64_scaled (i64_as_f64 i) = sint i * u" "\<not> is_nan (i64_as_f64 i)"
        unfolding u_def by (rule i64_as_f64_exact)+
      with 3 eq nan show ?thesis by (simp add: f64_partial_cmp_def s_def)
    qed
  qed
  then show ?thesis by (simp only: u_def s_def)
qed

lemma numeric_cmp_scaled:
  "numeric_ok a \<Longrightarrow> numeric_ok b \<Longrightarrow> numeric_cmp a b = ord_cmp (numeric_scaled a) (numeric_scaled b)"
proof (induction a b rule: numeric_cmp.induct)
  case (1 a b)
  have "0 < f64_unit" by (rule zero_less_power) simp
  then have "sint a * f64_unit < sint b * f64_unit \<longleftrightarrow> sint a < sint b"
      "sint a * f64_unit = sint b * f64_unit \<longleftrightarrow> sint a = sint b"
    by (simp_all only: mult_less_cancel_right mult_cancel_right) auto
  then show ?case
    by (simp only: numeric_scaled_def numeric.case numeric_cmp.simps ord_cmp_def)
qed (simp_all add: numeric_ok_def numeric_scaled_def f64_partial_cmp_def sqlite_int_float_cmp_exact
    reverse_ord_cmp del: power_numeral)

interpretation numeric_order: cmp_order numeric_ok numeric_cmp
  by (rule cmp_order_by_key [of _ _ numeric_scaled]) (rule numeric_cmp_scaled)

section \<open>Shifts and remainder\<close>

lemma sint_saturating_shr: "sint (saturating_shr a (r :: u32)) = sint a div 2 ^ unat r"
proof (cases "64 \<le> r")
  case True
  then have "64 \<le> unat r" by (simp add: word_le_nat_alt)
  then have le: "(2::int) ^ 63 < 2 ^ unat r" by (intro power_strict_increasing) auto
  note b = sint_u64_bounds [of a]
  show ?thesis
  proof (cases "0 \<le> sint a")
    case nonneg: True
    then have "sint a div 2 ^ unat r = 0" using b le by (intro div_pos_pos_trivial) linarith+
    then show ?thesis using True nonneg by (simp add: saturating_shr_def)
  next
    case neg: False
    then have "sint a div 2 ^ unat r = -1"
      using b le by (intro int_div_pos_eq [where r = "sint a + 2 ^ unat r"]) auto
    then show ?thesis using True neg by (simp add: saturating_shr_def)
  qed
next
  case False
  then show ?thesis
    by (simp add: saturating_shr_def sint_signed_drop_bit_eq drop_bit_eq_div)
qed

lemma unat_try_into_u32:
  "0 \<le> sint x \<Longrightarrow> unat (try_into_u32 x) = (if sint x < 2 ^ 32 then nat (sint x) else 2 ^ 32 - 1)"
proof -
  assume x: "0 \<le> sint x"
  then have u: "unat x = nat (sint x)"
    using sint_u64_bounds(2) [of x]
    by (simp add: unat_eq_nat_uint uint_sint take_bit_int_eq_self)
  show ?thesis
    using x u by (auto simp: try_into_u32_def unsigned_ucast_eq take_bit_nat_eq_self)
qed

lemma sint_saturating_abs:
  "sint (saturating_abs x) = (if sint x = - (2 ^ 63) then 2 ^ 63 - 1 else \<bar>sint x\<bar>)"
proof -
  have "sint (- x) = - sint x" if "sint x \<noteq> - (2 ^ 63)"
    using that sint_u64_bounds [of x]
    by (simp add: sint_word_minus signed_take_bit_int_eq_self_iff)
  then show ?thesis by (auto simp: saturating_abs_def)
qed

lemma saturating_shr_eq: "saturating_shr a r = word_of_int (sint a div 2 ^ unat r)"
  by (simp flip: sint_saturating_shr)

lemma saturating_shl_eq: "saturating_shl a r = push_bit (unat r) a"
proof (cases "64 \<le> r")
  case True
  then have "64 \<le> unat r" by (simp add: word_le_nat_alt)
  then have "push_bit (unat r) a = 0"
    by (intro bit_word_eqI) (auto simp: bit_simps)
  with True show ?thesis by (simp add: saturating_shl_def)
qed (simp add: saturating_shl_def)

text \<open>Shift distances of 64 and more all act alike, so saturating the distance is harmless.\<close>

lemma push_bit_far: "64 \<le> n \<Longrightarrow> push_bit n (a :: i64) = 0"
  by (intro bit_word_eqI) (auto simp: bit_simps)

lemma div_far:
  assumes "64 \<le> n"
  shows "sint (a :: i64) div 2 ^ n = (if 0 \<le> sint a then 0 else -1)"
proof -
  have le: "(2::int) ^ 63 < 2 ^ n" using assms by (intro power_strict_increasing) auto
  note b = sint_u64_bounds [of a]
  show ?thesis
  proof (cases "0 \<le> sint a")
    case True
    then show ?thesis using b le by (simp add: div_pos_pos_trivial)
  next
    case False
    then have "sint a div 2 ^ n = -1"
      using b le by (intro int_div_pos_eq [where r = "sint a + 2 ^ n"]) auto
    with False show ?thesis by simp
  qed
qed

lemma shift_distance:
  assumes "0 \<le> sint x"
  defines "n \<equiv> unat (try_into_u32 x)"
  shows "push_bit n (a :: i64) = push_bit (nat (sint x)) a"
    and "sint (a :: i64) div 2 ^ n = sint a div 2 ^ nat (sint x)"
proof -
  have "n = nat (sint x) \<or> 64 \<le> n \<and> 64 \<le> nat (sint x)"
    using assms(1) by (auto simp: n_def unat_try_into_u32)
  then show "push_bit n a = push_bit (nat (sint x)) a"
      "sint a div 2 ^ n = sint a div 2 ^ nat (sint x)"
    by (auto simp: push_bit_far div_far)
qed

lemma shift_distance_abs:
  assumes "sint x \<le> 0"
  defines "n \<equiv> unat (try_into_u32 (saturating_abs x))"
  shows "push_bit n (a :: i64) = push_bit (nat (- sint x)) a"
    and "sint (a :: i64) div 2 ^ n = sint a div 2 ^ nat (- sint x)"
proof -
  have "0 \<le> sint (saturating_abs x)" by (simp add: sint_saturating_abs)
  note d = shift_distance [OF this]
  have "nat (sint (saturating_abs x)) = nat (- sint x) \<or>
      64 \<le> nat (sint (saturating_abs x)) \<and> 64 \<le> nat (- sint x)"
    using assms(1) by (auto simp: sint_saturating_abs)
  then show "push_bit n a = push_bit (nat (- sint x)) a"
      "sint a div 2 ^ n = sint a div 2 ^ nat (- sint x)"
    unfolding n_def d by (auto simp: push_bit_far div_far)
qed

section \<open>Properties\<close>

text \<open>C16. Comparing an integer with a float is exact: although the code truncates the float and
  converts the integer with rounding, the outcome is the order of the two real numbers
  (both scaled by \<open>2 ^ 1074\<close>).\<close>

theorem int_float_cmp_exact:
  assumes "\<not> is_nan f"
  shows "sqlite_int_float_cmp i f = ord_cmp (sint i * 2 ^ 1074) (f64_scaled f)"
  using assms by (rule sqlite_int_float_cmp_exact)

theorem int_float_cmp_exact_witness:
  "\<not> is_nan 0x4340000000000000 \<and>
   sqlite_int_float_cmp 9007199254740993 0x4340000000000000 =
     ord_cmp (sint (9007199254740993 :: i64) * 2 ^ 1074) (f64_scaled 0x4340000000000000)"
proof -
  have h: "\<not> is_nan 0x4340000000000000" by (simp add: f64_defs)
  show ?thesis using h int_float_cmp_exact [OF h] by blast
qed

text \<open>C17. The ordering of SQL numbers is a total preorder across integers and floats: it is
  reflexive, reversing the arguments reverses the result, and it is transitive.\<close>

theorem numeric_cmp_total_preorder:
  assumes "numeric_ok a" "numeric_ok b" "numeric_ok c"
  shows "numeric_cmp a a = Equal
    \<and> numeric_cmp b a = reverse_ordering (numeric_cmp a b)
    \<and> (numeric_cmp a b \<noteq> Greater \<longrightarrow> numeric_cmp b c \<noteq> Greater \<longrightarrow> numeric_cmp a c \<noteq> Greater)"
  using assms numeric_order.cmp_refl numeric_order.cmp_rev [of a b] numeric_order.cmp_le_trans [of a b c]
  by auto

theorem numeric_cmp_total_preorder_witness:
  "numeric_ok (Integer 3) \<and> numeric_ok (Float 0x4008000000000000) \<and>
   numeric_cmp (Float 0x4008000000000000) (Integer 3) =
     reverse_ordering (numeric_cmp (Integer 3) (Float 0x4008000000000000))"
proof -
  have h: "numeric_ok (Integer 3)" "numeric_ok (Float 0x4008000000000000)"
    by (simp_all add: numeric_ok_def f64_defs)
  show ?thesis using h numeric_cmp_total_preorder [OF h h(1)] by blast
qed

text \<open>Shifting by \<open>b\<close> multiplies by \<open>2 ^ b\<close> modulo \<open>2 ^ 64\<close> in one direction and is the floor
  of the division by \<open>2 ^ b\<close> in the other, for every 64-bit \<open>b\<close>, a negative \<open>b\<close> shifting the
  other way and large distances saturating.\<close>

theorem nullable_shift_spec:
  "nullable_shl (NullableInt a) (NullableInt b) =
     NullableInt (if 0 \<le> sint b then push_bit (nat (sint b)) a
                  else word_of_int (sint a div 2 ^ nat (- sint b)))
   \<and> nullable_shr (NullableInt a) (NullableInt b) =
     NullableInt (if 0 \<le> sint b then word_of_int (sint a div 2 ^ nat (sint b))
                  else push_bit (nat (- sint b)) a)"
proof -
  consider "0 < sint b" | "sint b = 0" | "sint b < 0" by linarith
  then show ?thesis
    by cases (simp_all add: saturating_shl_eq saturating_shr_eq shift_distance shift_distance_abs)
qed

text \<open>The remainder is NULL exactly for a zero divisor and otherwise the truncated remainder
  of the signed values, without overflow even for the smallest integer and \<open>-1\<close>.\<close>

theorem nullable_rem_spec:
  "nullable_rem (NullableInt a) (NullableInt b) =
     (if b = 0 then NullableNull else NullableInt (word_of_int (sint a smod sint b)))
   \<and> (b \<noteq> 0 \<longrightarrow> sint (word_of_int (sint a smod sint b) :: i64) = sint a smod sint b)"
proof -
  have "sint (word_of_int (sint a smod sint b) :: i64) = sint a smod sint b" if "b \<noteq> 0"
  proof -
    have "\<bar>sint a smod sint b\<bar> < 2 ^ 63"
      using smod_int_range [of "sint b" "sint a"] that sint_u64_bounds [of b]
      by (simp add: signed_eq_0_iff) arith
    then show ?thesis
      by (auto simp: sint_sbintrunc' signed_take_bit_int_eq_self_iff)
  qed
  then show ?thesis by (auto simp: i64_rem_def)
qed

theorem nullable_rem_spec_witness: "(5 :: i64) \<noteq> 0 \<and>
  sint (word_of_int (sint (17 :: i64) smod sint (5 :: i64)) :: i64) = sint (17 :: i64) smod sint (5 :: i64)"
  using nullable_rem_spec [of 17 5] by simp

end
