(* ===== verification/Values.thy ===== *)
theory Values
  imports Numerics
begin

text \<open>
  SQL values and how they are compared: \<^verbatim>\<open>Value\<close>/\<^verbatim>\<open>ValueRef\<close> and their \<^verbatim>\<open>Ord\<close>
  (\<^verbatim>\<open>core/types.rs\<close>), the collating sequences of text (\<^verbatim>\<open>core/translate/collate.rs\<close>), and the
  comparison of rows under a key description (\<^verbatim>\<open>compare_immutable\<close> and
  \<^verbatim>\<open>compare_immutable_iter\<close>).

  Text is the byte string of its UTF-8 encoding (its JSON subtype plays no role in comparisons);
  Rust's \<^verbatim>\<open>str\<close> compares by these bytes. Locale collations are computed by the ICU library:
  their comparison function is the parameter \<open>lc\<close>, indexed by the registered locale id.
\<close>

section \<open>Values\<close>

datatype sql_value = Null | Numeric numeric | Text bytes | Blob bytes

datatype value_type = NullT | IntegerT | FloatT | TextT | BlobT | ErrorT

fun value_type_of :: "sql_value \<Rightarrow> value_type" where
  "value_type_of Null = NullT"
| "value_type_of (Numeric (Integer _)) = IntegerT"
| "value_type_of (Numeric (Float _)) = FloatT"
| "value_type_of (Text _) = TextT"
| "value_type_of (Blob _) = BlobT"

text \<open>\<^verbatim>\<open>Numeric::Float\<close> holds a \<^verbatim>\<open>NonNan\<close>, so no value contains a NaN.\<close>

fun value_ok :: "sql_value \<Rightarrow> bool" where
  "value_ok (Numeric n) = numeric_ok n"
| "value_ok _ = True"

text \<open>\<^verbatim>\<open>ValueRef::from_f64\<close>: a NaN becomes NULL.\<close>

definition value_from_f64 :: "f64 \<Rightarrow> sql_value" where
  "value_from_f64 f = (case nonnan_new f of Some g \<Rightarrow> Numeric (Float g) | None \<Rightarrow> Null)"

fun value_eq :: "sql_value \<Rightarrow> sql_value \<Rightarrow> bool" where
  "value_eq Null Null = True"
| "value_eq (Numeric a) (Numeric b) = numeric_eq a b"
| "value_eq (Text a) (Text b) = (a = b)"
| "value_eq (Blob a) (Blob b) = (a = b)"
| "value_eq _ _ = False"

fun value_cmp :: "sql_value \<Rightarrow> sql_value \<Rightarrow> ordering" where
  "value_cmp Null Null = Equal"
| "value_cmp Null _ = Less"
| "value_cmp _ Null = Greater"
| "value_cmp (Numeric a) (Numeric b) = numeric_cmp a b"
| "value_cmp (Numeric _) _ = Less"
| "value_cmp _ (Numeric _) = Greater"
| "value_cmp (Text a) (Text b) = slice_cmp a b"
| "value_cmp (Text _) (Blob _) = Less"
| "value_cmp (Blob _) (Text _) = Greater"
| "value_cmp (Blob a) (Blob b) = slice_cmp a b"

section \<open>Collations\<close>

datatype collation_seq = Unset | Binary | NoCase | Rtrim | Locale u16 | Custom u32

type_synonym locale_cmp = "u16 \<Rightarrow> bytes \<Rightarrow> bytes \<Rightarrow> ordering"

definition to_ascii_lowercase :: "u8 \<Rightarrow> u8" where
  "to_ascii_lowercase b = (if 0x41 \<le> b \<and> b \<le> 0x5A then b + 32 else b)"

definition trim_end_spaces :: "bytes \<Rightarrow> bytes" where
  "trim_end_spaces s = rev (dropWhile (\<lambda>b. b = 0x20) (rev s))"

definition binary_cmp :: "bytes \<Rightarrow> bytes \<Rightarrow> ordering" where
  "binary_cmp lhs rhs = slice_cmp lhs rhs"

text \<open>The loop of \<^verbatim>\<open>nocase_cmp\<close> over the zipped bytes; \<open>n\<close> and \<open>m\<close> are the full lengths.\<close>

fun nocase_loop :: "nat \<Rightarrow> nat \<Rightarrow> bytes \<Rightarrow> bytes \<Rightarrow> ordering" where
  "nocase_loop n m (a # as) (b # bs) =
     (let left = to_ascii_lowercase a; right = to_ascii_lowercase b in
      if left \<noteq> right then ord_cmp left right
      else if left = 0 then ord_cmp n m
      else nocase_loop n m as bs)"
| "nocase_loop n m _ _ = ord_cmp n m"

definition nocase_cmp :: "bytes \<Rightarrow> bytes \<Rightarrow> ordering" where
  "nocase_cmp lhs rhs = nocase_loop (length lhs) (length rhs) lhs rhs"

definition rtrim_cmp :: "bytes \<Rightarrow> bytes \<Rightarrow> ordering" where
  "rtrim_cmp lhs rhs = slice_cmp (trim_end_spaces lhs) (trim_end_spaces rhs)"

fun compare_strings :: "locale_cmp \<Rightarrow> collation_seq \<Rightarrow> bytes \<Rightarrow> bytes \<Rightarrow> ordering" where
  "compare_strings lc Unset lhs rhs = binary_cmp lhs rhs"
| "compare_strings lc Binary lhs rhs = binary_cmp lhs rhs"
| "compare_strings lc NoCase lhs rhs = nocase_cmp lhs rhs"
| "compare_strings lc Rtrim lhs rhs = rtrim_cmp lhs rhs"
| "compare_strings lc (Locale i) lhs rhs = lc i lhs rhs"
| "compare_strings lc (Custom _) lhs rhs = binary_cmp lhs rhs"

text \<open>The key under which hash joins and hash aggregates file a text; \<open>sk\<close> is ICU's sort key.\<close>

fun hash_key :: "(u16 \<Rightarrow> bytes \<Rightarrow> bytes) \<Rightarrow> collation_seq \<Rightarrow> bytes \<Rightarrow> bytes" where
  "hash_key sk Unset t = t"
| "hash_key sk Binary t = t"
| "hash_key sk NoCase t = map to_ascii_lowercase t"
| "hash_key sk Rtrim t = trim_end_spaces t"
| "hash_key sk (Locale i) t = sk i t"
| "hash_key sk (Custom _) t = t"

section \<open>Comparing rows\<close>

datatype sort_order = Asc | Desc

datatype nulls_order = NullsFirst | NullsLast

record key_info =
  sort_order :: sort_order
  collation :: collation_seq
  nulls_order :: "nulls_order option"

record index_info =
  key_info_of :: "key_info list"
  has_rowid :: bool
  num_cols :: usize
  is_unique :: bool

definition index_info_default :: index_info where
  "index_info_default = \<lparr>key_info_of = [], has_rowid = True, num_cols = 1, is_unique = False\<rparr>"

text \<open>The columns of a schema index as far as key comparison sees them.\<close>

record index_column =
  order :: sort_order
  column_collation :: "collation_seq option"

record schema_index =
  columns :: "index_column list"
  unique :: bool
  index_has_rowid :: bool

definition new_from_index :: "schema_index \<Rightarrow> index_info" where
  "new_from_index ix =
     \<lparr>key_info_of =
        map (\<lambda>c. \<lparr>sort_order = order c,
                  collation = (case column_collation c of Some s \<Rightarrow> s | None \<Rightarrow> Binary),
                  nulls_order = None\<rparr>) (columns ix) @
        (if index_has_rowid ix
         then [\<lparr>sort_order = Asc, collation = Binary, nulls_order = None\<rparr>] else []),
      has_rowid = index_has_rowid ix,
      num_cols = length (columns ix) + (if index_has_rowid ix then 1 else 0),
      is_unique = unique ix\<rparr>"

fun compare_immutable_single :: "locale_cmp \<Rightarrow> sql_value \<Rightarrow> sql_value \<Rightarrow> collation_seq \<Rightarrow> ordering" where
  "compare_immutable_single lc (Text l) (Text r) coll = compare_strings lc coll l r"
| "compare_immutable_single lc l r coll = value_cmp l r"

definition directed :: "sort_order \<Rightarrow> ordering \<Rightarrow> ordering" where
  "directed so c = (case so of Asc \<Rightarrow> c | Desc \<Rightarrow> reverse_ordering c)"

fun compare_immutable_loop ::
  "locale_cmp \<Rightarrow> sql_value list \<Rightarrow> sql_value list \<Rightarrow> key_info list \<Rightarrow> ordering" where
  "compare_immutable_loop lc (l # ls) (r # rs) (k # ks) =
     (let cmp = compare_immutable_single lc l r (collation k) in
      if cmp \<noteq> Equal then directed (sort_order k) cmp
      else compare_immutable_loop lc ls rs ks)"
| "compare_immutable_loop lc _ _ _ = Equal"

definition compare_immutable ::
  "locale_cmp \<Rightarrow> sql_value list \<Rightarrow> sql_value list \<Rightarrow> key_info list \<Rightarrow> ordering res" where
  "compare_immutable lc l r column_info =
     (if length l < length column_info then Inl Panic
      else if length r < length column_info then Inl Panic
      else Inr (compare_immutable_loop lc (take (length column_info) l)
                  (take (length column_info) r) column_info))"

text \<open>
  \<^verbatim>\<open>compare_immutable_iter\<close> draws the values one by one from two fallible iterators (the column
  iterators of two records) and stops without an error when one of them ends.
\<close>

fun compare_immutable_iter ::
  "locale_cmp \<Rightarrow> sql_value res list \<Rightarrow> sql_value res list \<Rightarrow> key_info list \<Rightarrow> ordering res" where
  "compare_immutable_iter lc ls rs [] = Inr Equal"
| "compare_immutable_iter lc [] rs (k # ks) = Inr Equal"
| "compare_immutable_iter lc (l # ls) [] (k # ks) = Inr Equal"
| "compare_immutable_iter lc (l # ls) (r # rs) (k # ks) =
     rbind l (\<lambda>lv. rbind r (\<lambda>rv.
       let cmp = compare_immutable_single lc lv rv (collation k) in
       if cmp \<noteq> Equal then Inr (directed (sort_order k) cmp)
       else compare_immutable_iter lc ls rs ks))"

section \<open>The collations are orders\<close>

text \<open>
  The built-in case-insensitive collation orders by the lower-cased text up to and including its
  first NUL byte, then by the total length.
\<close>

fun nocase_prefix :: "bytes \<Rightarrow> bytes" where
  "nocase_prefix [] = []"
| "nocase_prefix (a # as) =
     to_ascii_lowercase a # (if to_ascii_lowercase a = 0 then [] else nocase_prefix as)"

lemma nocase_loop_eq:
  "length as + k = n \<Longrightarrow> length bs + k = m \<Longrightarrow>
   nocase_loop n m as bs =
     (if slice_cmp (nocase_prefix as) (nocase_prefix bs) = Equal then ord_cmp n m
      else slice_cmp (nocase_prefix as) (nocase_prefix bs))"
proof (induction as arbitrary: bs k)
  case Nil
  then show ?case by (cases bs) (auto simp: ord_cmp_def)
next
  case (Cons a as)
  show ?case
  proof (cases bs)
    case Nil
    then show ?thesis using Cons.prems by (auto simp: ord_cmp_def)
  next
    case b: (Cons b bs')
    let ?a = "to_ascii_lowercase a" and ?b = "to_ascii_lowercase b"
    consider "?a < ?b" | "?b < ?a" | "?a = ?b" "?a = 0" | "?a = ?b" "?a \<noteq> 0"
      using linorder_less_linear by blast
    then show ?thesis
    proof cases
      case 4
      then show ?thesis
        using Cons.IH [of "Suc k" bs'] Cons.prems b by simp
    qed (use Cons.prems b in \<open>auto simp: ord_cmp_def Let_def\<close>)
  qed
qed

lemma nocase_cmp_eq:
  "nocase_cmp as bs =
     (if slice_cmp (nocase_prefix as) (nocase_prefix bs) = Equal then ord_cmp (length as) (length bs)
      else slice_cmp (nocase_prefix as) (nocase_prefix bs))"
  unfolding nocase_cmp_def by (rule nocase_loop_eq [of as 0]) simp_all

lemma nocase_prefix_no_nul: "0 \<notin> set t \<Longrightarrow> nocase_prefix t = map to_ascii_lowercase t"
proof (induction t)
  case (Cons a t)
  have "to_ascii_lowercase a = 0 \<longrightarrow> a = 0"
    by (auto simp: to_ascii_lowercase_def add_eq_0_iff2)
  with Cons show ?case by auto
qed simp

text \<open>What is asked of the locale collations: each is itself a total preorder.\<close>

definition locale_orders :: "locale_cmp \<Rightarrow> bool" where
  "locale_orders lc \<longleftrightarrow> (\<forall>i. cmp_order (\<lambda>_. True) (lc i))"

lemma compare_strings_order:
  assumes "locale_orders lc"
  shows "cmp_order (\<lambda>_. True) (compare_strings lc coll)"
proof -
  have bin: "cmp_order (\<lambda>_. True) binary_cmp"
    unfolding binary_cmp_def [abs_def] by (rule cmp_order_slice_cmp)
  have nocase: "cmp_order (\<lambda>_. True) nocase_cmp"
    unfolding nocase_cmp_eq [abs_def]
  proof (rule cmp_order_then)
    show "cmp_order (\<lambda>_. True) (\<lambda>as bs. slice_cmp (nocase_prefix as) (nocase_prefix bs))"
      by (rule cmp_order_on_key [OF cmp_order_slice_cmp]) simp
    show "cmp_order (\<lambda>_. True) (\<lambda>as bs. ord_cmp (length as) (length bs))"
      by (rule cmp_order_by_key) (rule refl)
  qed
  have rtrim: "cmp_order (\<lambda>_. True) rtrim_cmp"
    unfolding rtrim_cmp_def [abs_def] by (rule cmp_order_on_key [OF cmp_order_slice_cmp]) simp
  have "compare_strings lc coll =
      (case coll of NoCase \<Rightarrow> nocase_cmp | Rtrim \<Rightarrow> rtrim_cmp | Locale i \<Rightarrow> lc i | _ \<Rightarrow> binary_cmp)"
    by (cases coll) (simp_all add: fun_eq_iff)
  then show ?thesis
    using assms bin nocase rtrim by (cases coll) (simp_all add: locale_orders_def)
qed

section \<open>Values and rows are ordered\<close>

fun value_rank :: "sql_value \<Rightarrow> nat" where
  "value_rank Null = 0"
| "value_rank (Numeric _) = 1"
| "value_rank (Text _) = 2"
| "value_rank (Blob _) = 3"

fun num_of :: "sql_value \<Rightarrow> numeric" where
  "num_of (Numeric n) = n"
| "num_of _ = Integer 0"

lemma num_of_ok: "value_ok a \<Longrightarrow> numeric_ok (num_of a)"
  by (cases a) (simp_all add: numeric_ok_def)

fun bytes_of :: "sql_value \<Rightarrow> bytes" where
  "bytes_of (Text t) = t"
| "bytes_of (Blob t) = t"
| "bytes_of _ = []"

definition rank_cmp :: "locale_cmp \<Rightarrow> collation_seq \<Rightarrow> nat \<Rightarrow> sql_value \<Rightarrow> sql_value \<Rightarrow> ordering" where
  "rank_cmp lc coll n a b =
     (if n = 1 then numeric_cmp (num_of a) (num_of b)
      else if n = 2 then compare_strings lc coll (bytes_of a) (bytes_of b)
      else if n = 3 then slice_cmp (bytes_of a) (bytes_of b) else Equal)"

lemma compare_immutable_single_ranked:
  "compare_immutable_single lc a b coll =
     (if value_rank a = value_rank b then rank_cmp lc coll (value_rank a) a b
      else ord_cmp (value_rank a) (value_rank b))"
  by (cases a; cases b) (simp_all add: rank_cmp_def ord_cmp_def)

lemma rank_cmp_order:
  assumes "locale_orders lc"
  shows "cmp_order (\<lambda>a. value_ok a \<and> value_rank a = n) (rank_cmp lc coll n)"
proof -
  consider "n = 1" | "n = 2" | "n = 3" | "n \<noteq> 1" "n \<noteq> 2" "n \<noteq> 3" by blast
  then show ?thesis
  proof cases
    case 1
    then have "rank_cmp lc coll n = (\<lambda>a b. numeric_cmp (num_of a) (num_of b))"
      by (simp add: rank_cmp_def fun_eq_iff)
    then show ?thesis
      using cmp_order_on_key [OF numeric_order.cmp_order_axioms num_of_ok,
        of "\<lambda>a. value_ok a \<and> value_rank a = n" "\<lambda>a. a"] by simp
  next
    case 2
    then have "rank_cmp lc coll n = (\<lambda>a b. compare_strings lc coll (bytes_of a) (bytes_of b))"
      by (simp add: rank_cmp_def fun_eq_iff)
    then show ?thesis
      using cmp_order_on_key [OF compare_strings_order [OF assms]] by simp
  next
    case 3
    then have "rank_cmp lc coll n = (\<lambda>a b. slice_cmp (bytes_of a) (bytes_of b))"
      by (simp add: rank_cmp_def fun_eq_iff)
    then show ?thesis
      using cmp_order_on_key [OF cmp_order_slice_cmp] by simp
  next
    case 4
    then have "rank_cmp lc coll n = (\<lambda>a b. Equal)" by (simp add: rank_cmp_def fun_eq_iff)
    then show ?thesis by unfold_locales simp_all
  qed
qed

lemma compare_immutable_single_order:
  assumes "locale_orders lc"
  shows "cmp_order value_ok (\<lambda>a b. compare_immutable_single lc a b coll)"
  by (rule cmp_order_ranked [where rank = value_rank and c = "rank_cmp lc coll",
        OF compare_immutable_single_ranked rank_cmp_order [OF assms]])

lemma value_cmp_single: "value_cmp a b = compare_immutable_single lc a b Binary"
  by (cases a; cases b) (simp_all add: binary_cmp_def)

lemma locale_orders_slice: "locale_orders (\<lambda>_. slice_cmp)"
  by (simp add: locale_orders_def cmp_order_slice_cmp)

interpretation value_order: cmp_order value_ok value_cmp
  using compare_immutable_single_order [OF locale_orders_slice, of Binary]
  by (simp flip: value_cmp_single)

text \<open>A row comparison is the lexicographic combination of its column comparisons.\<close>

definition column_cmp :: "locale_cmp \<Rightarrow> key_info \<Rightarrow> sql_value \<Rightarrow> sql_value \<Rightarrow> ordering" where
  "column_cmp lc k a b = directed (sort_order k) (compare_immutable_single lc a b (collation k))"

lemma column_cmp_order:
  assumes "locale_orders lc"
  shows "cmp_order value_ok (column_cmp lc k)"
proof (cases "sort_order k")
  case Asc
  then show ?thesis
    unfolding column_cmp_def [abs_def]
    using compare_immutable_single_order [OF assms] by (simp add: directed_def)
next
  case Desc
  then show ?thesis
    unfolding column_cmp_def [abs_def]
    using cmp_order_reverse [OF compare_immutable_single_order [OF assms]] by (simp add: directed_def)
qed

lemma directed_Equal [simp]: "directed so c = Equal \<longleftrightarrow> c = Equal"
  by (simp add: directed_def split: sort_order.split)

lemma compare_immutable_loop_lex:
  "compare_immutable_loop lc ls rs ks = lex_cmp (map (column_cmp lc) ks) Equal ls rs"
  by (induction lc ls rs ks rule: compare_immutable_loop.induct)
    (auto simp: column_cmp_def Let_def)

lemma compare_immutable_iter_values:
  "compare_immutable_iter lc (map Inr ls) (map Inr rs) ks = Inr (compare_immutable_loop lc ls rs ks)"
proof (induction ks arbitrary: ls rs)
  case (Cons k ks)
  then show ?case by (cases ls; cases rs) (simp_all add: Let_def)
qed (cases ls; cases rs; simp)

lemma compare_immutable_loop_take:
  "compare_immutable_loop lc (take (length ks) ls) (take (length ks) rs) ks =
   compare_immutable_loop lc ls rs ks"
  by (induction lc ls rs ks rule: compare_immutable_loop.induct)
    (auto simp: Let_def)

lemma compare_immutable_lex:
  assumes "length ks \<le> length l" "length ks \<le> length r"
  shows "compare_immutable lc l r ks =
    Inr (lex_cmp (map (column_cmp lc) ks) Equal (take (length ks) l) (take (length ks) r))"
  using assms by (simp add: compare_immutable_def compare_immutable_loop_lex)

lemma lex_columns_order:
  assumes "locale_orders lc"
  shows "cmp_order (all_ok value_ok (length ks)) (lex_cmp (map (column_cmp lc) ks) Equal)"
  using lex_cmp_order [of value_ok "map (column_cmp lc) ks"] column_cmp_order [OF assms]
  by (simp add: list_all_iff)

lemma compare_strings_hash_key:
  assumes "0 \<notin> set a" "0 \<notin> set b" "\<And>i. coll \<noteq> Locale i"
  shows "compare_strings lc coll a b = Equal \<longleftrightarrow> hash_key sk coll a = hash_key sk coll b"
proof (cases coll)
  case NoCase
  have "length a = length b" if "map to_ascii_lowercase a = map to_ascii_lowercase b"
    using that by (rule map_eq_imp_length_eq)
  with NoCase assms show ?thesis by (auto simp: nocase_cmp_eq nocase_prefix_no_nul)
qed (use assms in \<open>simp_all add: binary_cmp_def rtrim_cmp_def\<close>)

section \<open>Properties\<close>

text \<open>C18. Comparing rows by a key description is a total preorder on rows that have all the key
  columns, whatever the directions and collations of the columns: it never fails, it is
  reflexive, antisymmetric up to reversal and transitive. The locale collations are assumed to be
  total preorders themselves.\<close>

theorem compare_immutable_total_preorder:
  assumes "locale_orders lc"
    and "\<And>r. r \<in> {a, b, c} \<Longrightarrow> length ks \<le> length r \<and> list_all value_ok r"
  shows "\<exists>ab bc ac. compare_immutable lc a b ks = Inr ab \<and> compare_immutable lc b c ks = Inr bc \<and>
    compare_immutable lc a c ks = Inr ac \<and> compare_immutable lc a a ks = Inr Equal \<and>
    compare_immutable lc b a ks = Inr (reverse_ordering ab) \<and>
    (ab \<noteq> Greater \<longrightarrow> bc \<noteq> Greater \<longrightarrow> ac \<noteq> Greater)"
proof -
  let ?n = "length ks" and ?c = "lex_cmp (map (column_cmp lc) ks) Equal"
  have len: "?n \<le> length a" "?n \<le> length b" "?n \<le> length c" using assms(2) by simp_all
  have ok: "all_ok value_ok ?n (take ?n a)" "all_ok value_ok ?n (take ?n b)" "all_ok value_ok ?n (take ?n c)"
    using assms(2) by (auto simp: all_ok_def list_all_iff dest: in_set_takeD)
  note o = lex_columns_order [OF assms(1), of ks]
  show ?thesis
    using len cmp_order.cmp_refl [OF o ok(1)] cmp_order.cmp_rev [OF o ok(1,2)]
      cmp_order.cmp_le_trans [OF o ok]
    by (simp add: compare_immutable_lex)
qed

theorem compare_immutable_total_preorder_witness:
  "locale_orders (\<lambda>_. slice_cmp) \<and> (\<exists>ab bc ac.
    compare_immutable (\<lambda>_. slice_cmp) [Text [0x41]] [Text [0x61]] [\<lparr>sort_order = Desc, collation = NoCase, nulls_order = None\<rparr>] = Inr ab \<and>
    compare_immutable (\<lambda>_. slice_cmp) [Text [0x61]] [Null] [\<lparr>sort_order = Desc, collation = NoCase, nulls_order = None\<rparr>] = Inr bc \<and>
    compare_immutable (\<lambda>_. slice_cmp) [Text [0x41]] [Null] [\<lparr>sort_order = Desc, collation = NoCase, nulls_order = None\<rparr>] = Inr ac \<and>
    ab = Equal \<and> bc = Less \<and> ac \<noteq> Greater)"
proof -
  let ?ks = "[\<lparr>sort_order = Desc, collation = NoCase, nulls_order = None\<rparr>]"
  have rows: "length ?ks \<le> length r \<and> list_all value_ok r"
    if "r \<in> {[Text [0x41]], [Text [0x61]], [Null]}" for r
    using that by auto
  have ab: "compare_immutable (\<lambda>_. slice_cmp) [Text [0x41]] [Text [0x61]] ?ks = Inr Equal" by code_simp
  have bc: "compare_immutable (\<lambda>_. slice_cmp) [Text [0x61]] [Null] ?ks = Inr Less" by code_simp
  show ?thesis
    using compare_immutable_total_preorder 
        [of "\<lambda>_. slice_cmp" "[Text [0x41]]" "[Text [0x61]]" "[Null]" ?ks, OF locale_orders_slice rows]
      locale_orders_slice ab bc by auto
qed

text \<open>Value equality is exactly comparing as equal, so equality lookups and ordered lookups
  agree; in particular integers and floats are equal exactly when they are the same number.\<close>

theorem value_eq_iff_cmp_Equal:
  "value_eq a b \<longleftrightarrow> value_cmp a b = Equal"
  by (cases a; cases b) (simp_all add: numeric_eq_def)

text \<open>Two texts without NUL bytes have the same hash key exactly when their collation compares
  them as equal, for every collation that does not delegate to a locale.\<close>

theorem hash_key_respects_collation:
  assumes "0 \<notin> set a" "0 \<notin> set b" "\<And>i. coll \<noteq> Locale i"
  shows "compare_strings lc coll a b = Equal \<longleftrightarrow> hash_key sk coll a = hash_key sk coll b"
  using assms by (rule compare_strings_hash_key)

theorem hash_key_respects_collation_witness:
  "compare_strings (\<lambda>_. slice_cmp) NoCase [0x41, 0x62] [0x61, 0x42] = Equal \<longleftrightarrow>
   hash_key (\<lambda>_ t. t) NoCase [0x41, 0x62] = hash_key (\<lambda>_ t. t) NoCase [0x61, 0x42]"
  by (rule hash_key_respects_collation) simp_all

text \<open>With embedded NUL bytes the two notions part: \<^verbatim>\<open>nocase_cmp\<close> stops at the first NUL.\<close>

lemma hash_key_nul_divergence:
  "compare_strings lc NoCase [0x61, 0, 0x62] [0x61, 0, 0x63] = Equal \<and>
   hash_key sk NoCase [0x61, 0, 0x62] \<noteq> hash_key sk NoCase [0x61, 0, 0x63]"
  by (simp add: nocase_cmp_def to_ascii_lowercase_def Let_def)

text \<open>Comparing two rows column by column from iterators gives the comparison of the rows
  whenever both have the key columns.\<close>

theorem compare_immutable_iter_agrees:
  assumes "length ks \<le> length l" "length ks \<le> length r"
  shows "compare_immutable_iter lc (map Inr l) (map Inr r) ks = compare_immutable lc l r ks"
  using assms by (simp add: compare_immutable_iter_values compare_immutable_def compare_immutable_loop_take)

theorem compare_immutable_iter_agrees_witness:
  "compare_immutable_iter (\<lambda>_. slice_cmp) (map Inr [Null, Blob [1]]) (map Inr [Null, Blob [2], Null])
     [\<lparr>sort_order = Asc, collation = Binary, nulls_order = None\<rparr>] =
   compare_immutable (\<lambda>_. slice_cmp) [Null, Blob [1]] [Null, Blob [2], Null]
     [\<lparr>sort_order = Asc, collation = Binary, nulls_order = None\<rparr>]"
  by (rule compare_immutable_iter_agrees) simp_all

end
