(* ===== verification/Serial_Types.thy ===== *)
theory Serial_Types
  imports Values
begin

text \<open>
  Serial types: the numbers in a record header that give the type and size of each column, with
  the encoding of the column contents and its three decoders (\<^verbatim>\<open>core/types.rs\<close>,
  \<^verbatim>\<open>core/storage/sqlite3_ondisk.rs\<close>). A \<^verbatim>\<open>SerialType\<close> is a wrapper of a \<^verbatim>\<open>u64\<close> and is
  modelled by that word. The lemmas show that the decoders agree and that they invert the
  encoding, with the smallest width that holds each integer.
\<close>

section \<open>Serial types\<close>

datatype serial_type_kind =
    KNull | KI8 | KI16 | KI24 | KI32 | KI48 | KI64 | KF64 | KConstInt0 | KConstInt1 | KText | KBlob

definition u64_is_valid_serial_type :: "u64 \<Rightarrow> bool" where
  "u64_is_valid_serial_type n \<longleftrightarrow> n \<noteq> 10 \<and> n \<noteq> 11"

definition validate_serial_type :: "u64 \<Rightarrow> unit res" where
  "validate_serial_type value = (if \<not> u64_is_valid_serial_type value then Inl Corrupt else Inr ())"

definition serial_type_blob :: "u64 \<Rightarrow> u64" where
  "serial_type_blob sz = 12 + sz * 2"

definition serial_type_text :: "u64 \<Rightarrow> u64" where
  "serial_type_text sz = 13 + sz * 2"

text \<open>\<^verbatim>\<open>SerialType::kind\<close>; the two reserved numbers reach its \<^verbatim>\<open>unreachable!()\<close>.\<close>

definition serial_kind :: "u64 \<Rightarrow> serial_type_kind res" where
  "serial_kind n =
     (if n = 0 then Inr KNull else if n = 1 then Inr KI8 else if n = 2 then Inr KI16
      else if n = 3 then Inr KI24 else if n = 4 then Inr KI32 else if n = 5 then Inr KI48
      else if n = 6 then Inr KI64 else if n = 7 then Inr KF64 else if n = 8 then Inr KConstInt0
      else if n = 9 then Inr KConstInt1
      else if n \<ge> 12 then (if n mod 2 = 0 then Inr KBlob else Inr KText)
      else Inl Panic)"

fun kind_size :: "u64 \<Rightarrow> serial_type_kind \<Rightarrow> usize" where
  "kind_size n KNull = 0"
| "kind_size n KI8 = 1"
| "kind_size n KI16 = 2"
| "kind_size n KI24 = 3"
| "kind_size n KI32 = 4"
| "kind_size n KI48 = 6"
| "kind_size n KI64 = 8"
| "kind_size n KF64 = 8"
| "kind_size n KConstInt0 = 0"
| "kind_size n KConstInt1 = 0"
| "kind_size n KText = (unat n - 13) div 2"
| "kind_size n KBlob = (unat n - 12) div 2"

definition serial_size :: "u64 \<Rightarrow> usize res" where
  "serial_size n = rbind (serial_kind n) (\<lambda>k. Inr (kind_size n k))"

definition get_serial_type_size :: "u64 \<Rightarrow> usize res" where
  "get_serial_type_size serial =
     (if serial = 0 \<or> serial = 8 \<or> serial = 9 then Inr 0
      else if serial = 1 then Inr 1 else if serial = 2 then Inr 2 else if serial = 3 then Inr 3
      else if serial = 4 then Inr 4 else if serial = 5 then Inr 6
      else if serial = 6 \<or> serial = 7 then Inr 8
      else if serial \<ge> 12 then
        (if serial mod 2 = 0 then Inr (unat ((serial - 12) div 2)) else Inr (unat ((serial - 13) div 2)))
      else Inl Corrupt)"

definition serial_try_from :: "u64 \<Rightarrow> u64 res" where
  "serial_try_from n = (if n = 10 \<or> n = 11 then Inl Corrupt else Inr n)"

definition serial_of_int :: "i64 \<Rightarrow> u64" where
  "serial_of_int i =
     (if i = 0 then 8 else if i = 1 then 9
      else if - 128 \<le> sint i \<and> sint i \<le> 127 then 1
      else if - 32768 \<le> sint i \<and> sint i \<le> 32767 then 2
      else if - 8388608 \<le> sint i \<and> sint i \<le> 8388607 then 3
      else if - 2147483648 \<le> sint i \<and> sint i \<le> 2147483647 then 4
      else if - 140737488355328 \<le> sint i \<and> sint i \<le> 140737488355327 then 5
      else 6)"

fun serial_from :: "sql_value \<Rightarrow> u64" where
  "serial_from Null = 0"
| "serial_from (Numeric (Integer i)) = serial_of_int i"
| "serial_from (Numeric (Float _)) = 7"
| "serial_from (Text t) = serial_type_text (of_nat (length t))"
| "serial_from (Blob b) = serial_type_blob (of_nat (length b))"

section \<open>Contents\<close>

text \<open>
  The content bytes of an integer of kind \<open>k\<close>: the arms of the writers that \<^verbatim>\<open>ImmutableRecord::build\<close>,
  \<^verbatim>\<open>Record::serialize\<close> and \<^verbatim>\<open>Value::serialize_serial\<close> share, \<^verbatim>\<open>None\<close> elsewhere.
\<close>

fun int_bytes :: "i64 \<Rightarrow> serial_type_kind \<Rightarrow> bytes option" where
  "int_bytes i KI8 = Some (be_bytes 1 (ucast i :: u8))"
| "int_bytes i KI16 = Some (be_bytes 2 (ucast i :: u16))"
| "int_bytes i KI24 = Some (drop 1 (be_bytes 4 (ucast i :: u32)))"
| "int_bytes i KI32 = Some (be_bytes 4 (ucast i :: u32))"
| "int_bytes i KI48 = Some (drop 2 (be_bytes 8 i))"
| "int_bytes i KI64 = Some (be_bytes 8 i)"
| "int_bytes i _ = None"

text \<open>The content arm of \<^verbatim>\<open>build\<close> and \<^verbatim>\<open>serialize\<close>: the constants 0 and 1 take no bytes.\<close>

fun value_content :: "sql_value \<Rightarrow> bytes res" where
  "value_content Null = Inr []"
| "value_content (Numeric (Integer i)) =
     rbind (serial_kind (serial_of_int i)) (\<lambda>k.
       if k = KConstInt0 \<or> k = KConstInt1 then Inr []
       else (case int_bytes i k of Some bs \<Rightarrow> Inr bs | None \<Rightarrow> Inl Panic))"
| "value_content (Numeric (Float f)) = Inr (be_bytes 8 f)"
| "value_content (Text t) = Inr t"
| "value_content (Blob b) = Inr b"

text \<open>\<^verbatim>\<open>Value::serialize_serial\<close>, which has no arm for the constants.\<close>

fun serialize_serial :: "sql_value \<Rightarrow> bytes \<Rightarrow> bytes res" where
  "serialize_serial Null out = Inr out"
| "serialize_serial (Numeric (Integer i)) out =
     rbind (serial_kind (serial_of_int i)) (\<lambda>k.
       case int_bytes i k of Some bs \<Rightarrow> Inr (out @ bs) | None \<Rightarrow> Inl Panic)"
| "serialize_serial (Numeric (Float f)) out = Inr (out @ be_bytes 8 f)"
| "serialize_serial (Text t) out = Inr (out @ t)"
| "serialize_serial (Blob b) out = Inr (out @ b)"

section \<open>Decoders\<close>

definition ok_or_corrupt :: "'a option \<Rightarrow> 'a res" where
  "ok_or_corrupt x = (case x of Some a \<Rightarrow> Inr a | None \<Rightarrow> Inl Corrupt)"

text \<open>\<^verbatim>\<open>(b as i8 >> 7) as u8\<close> and the comparison \<^verbatim>\<open>if b <= 0x7F { 0 } else { 0xFF }\<close>.\<close>

definition sign_shift :: "u8 \<Rightarrow> u8" where
  "sign_shift b = signed_drop_bit 7 b"

definition sign_extension :: "u8 \<Rightarrow> u8" where
  "sign_extension b = (if b \<le> 0x7F then 0 else 0xFF)"

definition int_val :: "i64 \<Rightarrow> sql_value" where
  "int_val i = Numeric (Integer i)"

definition read_value :: "bytes \<Rightarrow> u64 \<Rightarrow> (sql_value \<times> usize) res" where
  "read_value buf serial_type = rbind (serial_kind serial_type) (\<lambda>k. case k of
     KNull \<Rightarrow> Inr (Null, 0)
   | KI8 \<Rightarrow> rbind (ok_or_corrupt (get_byte buf 0)) (\<lambda>val. Inr (int_val (scast val), 1))
   | KI16 \<Rightarrow> rbind (ok_or_corrupt (get_prefix buf 2)) (\<lambda>bs.
       Inr (int_val (scast (from_be bs :: u16)), 2))
   | KI24 \<Rightarrow> rbind (ok_or_corrupt (get_prefix buf 3)) (\<lambda>bs.
       let s = sign_shift (bs ! 0) in Inr (int_val (scast (from_be (s # bs) :: u32)), 3))
   | KI32 \<Rightarrow> rbind (ok_or_corrupt (get_prefix buf 4)) (\<lambda>bs.
       Inr (int_val (scast (from_be bs :: u32)), 4))
   | KI48 \<Rightarrow> rbind (ok_or_corrupt (get_prefix buf 6)) (\<lambda>bs.
       let s = sign_shift (bs ! 0) in Inr (int_val (from_be (s # s # bs)), 6))
   | KI64 \<Rightarrow> rbind (ok_or_corrupt (get_prefix buf 8)) (\<lambda>bs. Inr (int_val (from_be bs), 8))
   | KF64 \<Rightarrow> rbind (ok_or_corrupt (get_prefix buf 8)) (\<lambda>bs. Inr (value_from_f64 (from_be bs), 8))
   | KConstInt0 \<Rightarrow> Inr (int_val 0, 0)
   | KConstInt1 \<Rightarrow> Inr (int_val 1, 0)
   | KBlob \<Rightarrow> rbind (serial_size serial_type) (\<lambda>n.
       rbind (ok_or_corrupt (get_prefix buf n)) (\<lambda>data. Inr (Blob data, n)))
   | KText \<Rightarrow> rbind (serial_size serial_type) (\<lambda>n.
       rbind (ok_or_corrupt (get_prefix buf n)) (\<lambda>data. Inr (Text data, n))))"

text \<open>The integer arms that \<^verbatim>\<open>read_value_serial_type\<close> and \<^verbatim>\<open>read_integer\<close> spell out alike.\<close>

definition read_int_1 :: "bytes \<Rightarrow> i64 res" where
  "read_int_1 buf = (if buf = [] then Inl Corrupt else Inr (scast (buf ! 0)))"

definition read_int_2 :: "bytes \<Rightarrow> i64 res" where
  "read_int_2 buf = (if length buf < 2 then Inl Corrupt
     else Inr (scast (from_be [buf ! 0, buf ! 1] :: u16)))"

definition read_int_3 :: "bytes \<Rightarrow> i64 res" where
  "read_int_3 buf = (if length buf < 3 then Inl Corrupt
     else Inr (scast (from_be [sign_extension (buf ! 0), buf ! 0, buf ! 1, buf ! 2] :: u32)))"

definition read_int_4 :: "bytes \<Rightarrow> i64 res" where
  "read_int_4 buf = (if length buf < 4 then Inl Corrupt
     else Inr (scast (from_be [buf ! 0, buf ! 1, buf ! 2, buf ! 3] :: u32)))"

definition read_int_6 :: "bytes \<Rightarrow> i64 res" where
  "read_int_6 buf = (if length buf < 6 then Inl Corrupt
     else (let s = sign_extension (buf ! 0) in
       Inr (from_be [s, s, buf ! 0, buf ! 1, buf ! 2, buf ! 3, buf ! 4, buf ! 5])))"

definition read_word_8 :: "bytes \<Rightarrow> u64 res" where
  "read_word_8 buf = (if length buf < 8 then Inl Corrupt
     else Inr (from_be [buf ! 0, buf ! 1, buf ! 2, buf ! 3, buf ! 4, buf ! 5, buf ! 6, buf ! 7]))"

definition read_value_serial_type :: "bytes \<Rightarrow> u64 \<Rightarrow> (sql_value \<times> usize) res" where
  "read_value_serial_type buf n =
     (if n = 0 then Inr (Null, 0)
      else if n = 1 then rbind (read_int_1 buf) (\<lambda>i. Inr (int_val i, 1))
      else if n = 2 then rbind (read_int_2 buf) (\<lambda>i. Inr (int_val i, 2))
      else if n = 3 then rbind (read_int_3 buf) (\<lambda>i. Inr (int_val i, 3))
      else if n = 4 then rbind (read_int_4 buf) (\<lambda>i. Inr (int_val i, 4))
      else if n = 5 then rbind (read_int_6 buf) (\<lambda>i. Inr (int_val i, 6))
      else if n = 6 then rbind (read_word_8 buf) (\<lambda>i. Inr (int_val i, 8))
      else if n = 7 then rbind (read_word_8 buf) (\<lambda>f. Inr (value_from_f64 f, 8))
      else if n = 8 then Inr (int_val 0, 0)
      else if n = 9 then Inr (int_val 1, 0)
      else if n \<ge> 12 then
        (if n mod 2 = 0 then
           (let content_size = unat ((n - 12) div 2) in
            rbind (ok_or_corrupt (get_prefix buf content_size)) (\<lambda>data. Inr (Blob data, content_size)))
         else
           (let content_size = unat ((n - 13) div 2) in
            rbind (ok_or_corrupt (get_prefix buf content_size)) (\<lambda>data. Inr (Text data, content_size))))
      else Inl Corrupt)"

definition read_integer :: "bytes \<Rightarrow> u8 \<Rightarrow> i64 res" where
  "read_integer buf n =
     (if n = 1 then read_int_1 buf
      else if n = 2 then read_int_2 buf
      else if n = 3 then read_int_3 buf
      else if n = 4 then read_int_4 buf
      else if n = 5 then read_int_6 buf
      else if n = 6 then read_word_8 buf
      else if n = 8 then Inr 0
      else if n = 9 then Inr 1
      else Inl Corrupt)"

section \<open>The decoders agree\<close>

lemma u8_top_bit: "bit (b :: u8) 7 \<longleftrightarrow> 128 \<le> unat b"
proof -
  have "bit b 7 \<longleftrightarrow> bit (unat b) 7" by (simp add: bit_simps)
  also have "\<dots> \<longleftrightarrow> odd (unat b div 128)" by (simp add: bit_iff_odd)
  also have "\<dots> \<longleftrightarrow> 128 \<le> unat b"
    using unsigned_less [of b, where ?'a = nat] by (auto simp: div_if)
  finally show ?thesis .
qed

lemma bit_sign_shift: "j < 8 \<Longrightarrow> bit (sign_shift b) j \<longleftrightarrow> bit b 7"
  by (cases "j = 0") (auto simp: sign_shift_def bit_simps)

lemma sign_extension_eq_shift: "sign_extension b = sign_shift b"
proof (cases "bit b 7")
  case True
  then have "\<not> b \<le> 0x7F" by (simp add: u8_top_bit word_le_nat_alt)
  moreover have "sign_shift b = - 1"
    using True by (intro bit_word_eqI) (simp add: bit_sign_shift)
  ultimately show ?thesis by (simp add: sign_extension_def)
next
  case False
  then have "b \<le> 0x7F" by (simp add: u8_top_bit word_le_nat_alt)
  moreover have "sign_shift b = 0"
    using False by (intro bit_word_eqI) (simp add: bit_sign_shift)
  ultimately show ?thesis by (simp add: sign_extension_def)
qed

lemma content_size_eq:
  "12 \<le> n \<Longrightarrow> unat ((n - 12) div 2 :: u64) = (unat n - 12) div 2"
  "12 \<le> n \<Longrightarrow> n mod 2 \<noteq> 0 \<Longrightarrow> unat ((n - 13) div 2 :: u64) = (unat n - 13) div 2"
proof -
  assume "12 \<le> n"
  then show "unat ((n - 12) div 2 :: u64) = (unat n - 12) div 2"
    by (simp add: unat_div_distrib unat_sub)
next
  assume n: "12 \<le> n" "n mod 2 \<noteq> 0"
  then have "n \<noteq> 12" by auto
  with n(1) have "13 \<le> n" by (simp add: word_le_nat_alt word_unat_eq_iff)
  then show "unat ((n - 13) div 2 :: u64) = (unat n - 13) div 2"
    by (simp add: unat_div_distrib unat_sub)
qed

lemma reserved_serial: "\<not> 12 \<le> (n :: u64) \<Longrightarrow> n \<notin> {0, 1, 2, 3, 4, 5, 6, 7, 8, 9} \<Longrightarrow> n = 10 \<or> n = 11"
proof -
  assume "\<not> 12 \<le> n" and ne: "n \<notin> {0, 1, 2, 3, 4, 5, 6, 7, 8, 9}"
  then have "unat n < 12" by (simp add: word_le_nat_alt)
  then have "unat n \<in> {0, 1, 2, 3, 4, 5, 6, 7, 8, 9, 10, 11}"
    unfolding insert_iff empty_iff by arith
  with ne show ?thesis by (auto simp: word_unat_eq_iff)
qed

lemma get_serial_type_size_eq:
  "get_serial_type_size n = rbind (serial_try_from n) serial_size"
proof (cases "12 \<le> n")
  case True
  then have "n \<noteq> 10" "n \<noteq> 11" by auto
  with True show ?thesis
    by (auto simp: get_serial_type_size_def serial_try_from_def serial_size_def serial_kind_def content_size_eq)
next
  case False
  then show ?thesis
    using reserved_serial [OF False]
    by (auto simp: get_serial_type_size_def serial_try_from_def serial_size_def serial_kind_def)
qed

lemma get_prefix_map_nth:
  "get_prefix buf n = (if length buf < n then None else Some (map ((!) buf) [0..<n]))"
  by (auto simp: get_prefix_def list_eq_iff_nth_eq)

lemma get_prefix_arms:
  "get_prefix buf 2 = (if length buf < 2 then None else Some [buf ! 0, buf ! 1])"
  "get_prefix buf 3 = (if length buf < 3 then None else Some [buf ! 0, buf ! 1, buf ! 2])"
  "get_prefix buf 4 = (if length buf < 4 then None else Some [buf ! 0, buf ! 1, buf ! 2, buf ! 3])"
  "get_prefix buf 6 = (if length buf < 6 then None
     else Some [buf ! 0, buf ! 1, buf ! 2, buf ! 3, buf ! 4, buf ! 5])"
  "get_prefix buf 8 = (if length buf < 8 then None
     else Some [buf ! 0, buf ! 1, buf ! 2, buf ! 3, buf ! 4, buf ! 5, buf ! 6, buf ! 7])"
  by (simp_all add: get_prefix_map_nth upt_rec eval_nat_numeral)

lemmas read_int_defs = read_int_1_def read_int_2_def read_int_3_def read_int_4_def read_int_6_def
  read_word_8_def

lemma read_value_serial_type_eq:
  "read_value_serial_type buf n = rbind (serial_try_from n) (read_value buf)"
proof (cases "12 \<le> n")
  case True
  then have ne: "n \<notin> {0, 1, 2, 3, 4, 5, 6, 7, 8, 9, 10, 11}"
    by (auto simp: word_le_nat_alt)
  then have "serial_kind n = (if n mod 2 = 0 then Inr KBlob else Inr KText)"
    using True by (simp add: serial_kind_def)
  then show ?thesis
    using True ne
    by (simp add: read_value_serial_type_def serial_try_from_def read_value_def serial_size_def content_size_eq Let_def)
next
  case False
  show ?thesis
  proof (cases "n \<in> {0, 1, 2, 3, 4, 5, 6, 7, 8, 9}")
    case True
    then show ?thesis
      by (elim insertE emptyE)
        (simp_all add: read_value_serial_type_def serial_try_from_def read_value_def serial_kind_def
          read_int_defs get_prefix_arms ok_or_corrupt_def get_byte_def sign_extension_eq_shift Let_def)
  next
    case ne: False
    with reserved_serial [OF False ne] False show ?thesis
      by (auto simp: read_value_serial_type_def serial_try_from_def)
  qed
qed

lemma read_value_serial_type_bounds:
  assumes "read_value_serial_type buf n = Inr (v, k)"
  shows "k \<le> length buf" and "get_serial_type_size n = Inr k" and "value_ok v"
proof -
  have f: "value_ok (value_from_f64 f)" for f
    by (auto simp: value_from_f64_def nonnan_new_def numeric_ok_def)
  have "k \<le> length buf \<and> get_serial_type_size n = Inr k \<and> value_ok v"
    using assms f
    by (auto simp: read_value_serial_type_def get_serial_type_size_def read_int_defs int_val_def
        ok_or_corrupt_def get_prefix_def numeric_ok_def Let_def rbind_eq_Inr_iff Suc_le_eq
        split: if_splits option.splits)
  then show "k \<le> length buf" "get_serial_type_size n = Inr k" "value_ok v" by auto
qed

section \<open>Decoding inverts encoding\<close>

text \<open>The bits of a small integer above its sign position repeat the sign.\<close>

lemma sign_bits:
  assumes "- (2 ^ k) \<le> sint (w :: 'a::len word)" "sint w < 2 ^ k" "k \<le> n" "n < LENGTH('a)"
  shows "bit w n = bit w k"
proof -
  have b: "bit w m = bit (sint w) m" if "m < LENGTH('a)" for m
  proof -
    have "min (LENGTH('a) - Suc 0) m = m" using that by simp
    then show ?thesis by (simp add: bit_signed_iff)
  qed
  have "signed_take_bit k (sint w) = sint w"
    using assms(1,2) by (simp only: signed_take_bit_int_eq_self_iff)
  then have "bit (sint w) n = bit (sint w) k"
    using assms(3) bit_signed_take_bit_iff [of k "sint w" n] bit_signed_take_bit_iff [of k "sint w" k]
    by (simp add: min_def)
  with b assms(3,4) show ?thesis by simp
qed

lemma scast_ucast_small:
  fixes i :: i64
  assumes "- (2 ^ (LENGTH('a) - 1)) \<le> sint i" "sint i < 2 ^ (LENGTH('a) - 1)" "LENGTH('a) \<le> 64"
  shows "scast (ucast i :: 'a::len word) = i"
proof (rule bit_word_eqI)
  fix n assume n: "n < LENGTH(64)"
  show "bit (scast (ucast i :: 'a word) :: i64) n = bit i n"
  proof (cases "n < LENGTH('a)")
    case True
    then have "min (LENGTH('a) - Suc 0) n = n" by simp
    then show ?thesis using n True by (simp add: bit_signed_iff bit_unsigned_iff)
  next
    case False
    then have "bit i n = bit i (LENGTH('a) - 1)" using assms n by (intro sign_bits) auto
    moreover have "min (LENGTH('a) - Suc 0) n = LENGTH('a) - 1" using False by simp
    ultimately show ?thesis using n by (simp add: bit_signed_iff bit_unsigned_iff)
  qed
qed

lemma sint_ucast_u32:
  assumes "- (2 ^ 31) \<le> sint i" "sint i < 2 ^ 31"
  shows "sint (ucast (i :: i64) :: u32) = sint i"
proof -
  let ?w = "ucast i :: u32"
  have "sint (scast ?w :: i64) = sint ?w"
    using sint_ge [of ?w] sint_lt [of ?w]
    by (simp add: signed_scast_eq signed_take_bit_int_eq_self_iff)
  with scast_ucast_small [of i, where ?'a = 32] assms show ?thesis by simp
qed

lemma sign_byte:
  fixes w :: "'a::len word"
  assumes "- (2 ^ (8 * n - 1)) \<le> sint w" "sint w < 2 ^ (8 * n - 1)" "0 < n" "8 * n \<le> m"
    "m + 8 \<le> LENGTH('a)"
  shows "sign_shift (ucast (drop_bit (8 * (n - 1)) w)) = ucast (drop_bit m w)"
proof (rule bit_word_eqI)
  fix j assume j: "j < LENGTH(8)"
  have eq: "8 * (n - Suc 0) + 7 = 8 * n - Suc 0" using assms(3) by simp
  have "bit (sign_shift (ucast (drop_bit (8 * (n - 1)) w))) j = bit w (8 * n - 1)"
    using j assms(3) by (simp add: bit_sign_shift bit_simps eq)
  also have "\<dots> = bit w (m + j)"
    using assms j by (intro sign_bits [symmetric]) auto
  finally show "bit (sign_shift (ucast (drop_bit (8 * (n - 1)) w))) j = bit (ucast (drop_bit m w) :: u8) j"
    using j by (simp add: bit_simps)
qed

lemma be_bytes_arms:
  "be_bytes 1 w = [ucast w]"
  "be_bytes 2 w = [ucast (drop_bit 8 w), ucast w]"
  "be_bytes 3 w = [ucast (drop_bit 16 w), ucast (drop_bit 8 w), ucast w]"
  "be_bytes 4 w = ucast (drop_bit 24 w) # be_bytes 3 w"
  "be_bytes 6 w = [ucast (drop_bit 40 w), ucast (drop_bit 32 w), ucast (drop_bit 24 w),
     ucast (drop_bit 16 w), ucast (drop_bit 8 w), ucast w]"
  "be_bytes 8 w = ucast (drop_bit 56 w) # ucast (drop_bit 48 w) # be_bytes 6 w"
  by (simp_all add: eval_nat_numeral)

lemma drop_be_bytes:
  "drop (Suc 0) (be_bytes 4 w) = be_bytes 3 w" "drop 2 (be_bytes 8 w) = be_bytes 6 w"
  by (simp_all add: be_bytes_arms(4,6))

lemma read_int_bytes:
  fixes i :: i64
  shows "- 128 \<le> sint i \<Longrightarrow> sint i \<le> 127 \<Longrightarrow> read_int_1 (ucast i # rest) = Inr i"
    and "- 32768 \<le> sint i \<Longrightarrow> sint i \<le> 32767 \<Longrightarrow> read_int_2 (be_bytes 2 (ucast i :: u16) @ rest) = Inr i"
    and "- 8388608 \<le> sint i \<Longrightarrow> sint i \<le> 8388607 \<Longrightarrow>
      read_int_3 (be_bytes 3 (ucast i :: u32) @ rest) = Inr i"
    and "- 2147483648 \<le> sint i \<Longrightarrow> sint i \<le> 2147483647 \<Longrightarrow>
      read_int_4 (be_bytes 4 (ucast i :: u32) @ rest) = Inr i"
    and "- 140737488355328 \<le> sint i \<Longrightarrow> sint i \<le> 140737488355327 \<Longrightarrow>
      read_int_6 (be_bytes 6 i @ rest) = Inr i"
    and "read_word_8 (be_bytes 8 i @ rest) = Inr i"
proof -
  have list: "length bs = 4 \<Longrightarrow> [bs ! 0, bs ! 1, bs ! 2, bs ! 3] = bs"
      "length bs = 8 \<Longrightarrow> [bs ! 0, bs ! 1, bs ! 2, bs ! 3, bs ! 4, bs ! 5, bs ! 6, bs ! 7] = bs"
      "length bs = 2 \<Longrightarrow> [bs ! 0, bs ! 1] = bs" for bs :: bytes
    using get_prefix_arms [of bs] by (simp_all add: get_prefix_def)
  show "read_int_1 (ucast i # rest) = Inr i" if "- 128 \<le> sint i" "sint i \<le> 127"
    using that scast_ucast_small [of i, where ?'a = 8] by (simp add: read_int_1_def)
  show "read_int_2 (be_bytes 2 (ucast i :: u16) @ rest) = Inr i" if "- 32768 \<le> sint i" "sint i \<le> 32767"
    using that scast_ucast_small [of i, where ?'a = 16] list(3) [of "be_bytes 2 (ucast i :: u16)"]
    by (simp add: read_int_2_def nth_append)
  show "read_int_4 (be_bytes 4 (ucast i :: u32) @ rest) = Inr i"
    if "- 2147483648 \<le> sint i" "sint i \<le> 2147483647"
    using that scast_ucast_small [of i, where ?'a = 32] list(1) [of "be_bytes 4 (ucast i :: u32)"]
    by (simp add: read_int_4_def nth_append)
  show "read_word_8 (be_bytes 8 i @ rest) = Inr i"
    using list(2) [of "be_bytes 8 i"] by (simp add: read_word_8_def nth_append)
  show "read_int_3 (be_bytes 3 (ucast i :: u32) @ rest) = Inr i"
    if h: "- 8388608 \<le> sint i" "sint i \<le> 8388607"
  proof -
    let ?w = "ucast i :: u32"
    have "sign_shift (ucast (drop_bit 16 ?w)) = ucast (drop_bit 24 ?w)"
      using sign_byte [of 3 ?w 24] h by (simp add: sint_ucast_u32)
    then have "from_be (sign_extension (ucast (drop_bit 16 ?w)) # be_bytes 3 ?w) = ?w"
      using from_be_be_bytes_full [of 4 ?w] by (simp add: sign_extension_eq_shift be_bytes_arms(4))
    then show ?thesis
      using h scast_ucast_small [of i, where ?'a = 32] by (simp add: read_int_3_def be_bytes_arms)
  qed
  show "read_int_6 (be_bytes 6 i @ rest) = Inr i"
    if h: "- 140737488355328 \<le> sint i" "sint i \<le> 140737488355327"
  proof -
    have "sign_shift (ucast (drop_bit 40 i)) = ucast (drop_bit 48 i)"
        "sign_shift (ucast (drop_bit 40 i)) = ucast (drop_bit 56 i)"
      using sign_byte [of 6 i 48] sign_byte [of 6 i 56] h by simp_all
    then have "from_be (sign_extension (ucast (drop_bit 40 i)) # sign_extension (ucast (drop_bit 40 i)) #
        be_bytes 6 i) = i"
      using from_be_be_bytes_full [of 8 i] by (simp add: sign_extension_eq_shift be_bytes_arms(6))
    then show ?thesis
      using h by (simp add: read_int_6_def be_bytes_arms Let_def)
  qed
qed

text \<open>Only contents shorter than half the address space have a serial type.\<close>

definition value_fits :: "sql_value \<Rightarrow> bool" where
  "value_fits v \<longleftrightarrow> value_ok v \<and> length (bytes_of v) < 2 ^ 62"

lemma serial_of_int_cases:
  obtains (zero) "i = 0" "serial_of_int i = 8"
  | (one) "i = 1" "serial_of_int i = 9"
  | (i8) "serial_of_int i = 1" "- 128 \<le> sint i" "sint i \<le> 127"
  | (i16) "serial_of_int i = 2" "- 32768 \<le> sint i" "sint i \<le> 32767"
  | (i24) "serial_of_int i = 3" "- 8388608 \<le> sint i" "sint i \<le> 8388607"
  | (i32) "serial_of_int i = 4" "- 2147483648 \<le> sint i" "sint i \<le> 2147483647"
  | (i48) "serial_of_int i = 5" "- 140737488355328 \<le> sint i" "sint i \<le> 140737488355327"
  | (i64) "serial_of_int i = 6"
  by atomize_elim (simp add: serial_of_int_def)

lemma unat_serial_text_blob:
  assumes "n < 2 ^ 62"
  shows "unat (serial_type_text (of_nat n)) = 13 + n * 2"
    and "unat (serial_type_blob (of_nat n)) = 12 + n * 2"
proof -
  have "serial_type_text (of_nat n) = of_nat (13 + n * 2)" "serial_type_blob (of_nat n) = of_nat (12 + n * 2)"
    by (simp_all add: serial_type_text_def serial_type_blob_def)
  then show "unat (serial_type_text (of_nat n)) = 13 + n * 2" "unat (serial_type_blob (of_nat n)) = 12 + n * 2"
    using assms by (simp_all add: unat_of_nat take_bit_nat_eq_self del: of_nat_add of_nat_mult)
qed

lemma serial_text_blob:
  fixes n :: u64
  assumes "unat n = 12 + b + m * 2" "b \<in> {0, 1}"
  shows "12 \<le> n" "n mod 2 = 0 \<longleftrightarrow> b = 0" "n \<notin> {0, 1, 2, 3, 4, 5, 6, 7, 8, 9}"
proof -
  show "12 \<le> n" using assms by (simp add: word_le_nat_alt)
  have "unat (n mod 2) = b" using assms by (auto simp: unat_mod_distrib)
  then show "n mod 2 = 0 \<longleftrightarrow> b = 0" using assms(2) by (auto simp: word_unat_eq_iff)
  show "n \<notin> {0, 1, 2, 3, 4, 5, 6, 7, 8, 9}" using assms by auto
qed

lemma value_content_roundtrip:
  assumes "value_fits v"
  obtains bs where "value_content v = Inr bs"
    and "get_serial_type_size (serial_from v) = Inr (length bs)"
    and "\<And>rest. read_value_serial_type (bs @ rest) (serial_from v) = Inr (v, length bs)"
proof (cases v)
  case Null
  then show thesis
    by (intro that [of "[]"]) (simp_all add: get_serial_type_size_def read_value_serial_type_def)
next
  case (Numeric n)
  show thesis
  proof (cases n)
    case (Integer i)
    have "\<exists>bs. value_content v = Inr bs \<and> get_serial_type_size (serial_from v) = Inr (length bs) \<and>
        (\<forall>rest. read_value_serial_type (bs @ rest) (serial_from v) = Inr (v, length bs))"
      by (cases i rule: serial_of_int_cases)
        (simp_all add: Numeric Integer serial_kind_def get_serial_type_size_def read_value_serial_type_def
          int_val_def read_int_bytes drop_be_bytes)
    then show thesis using that by blast
  next
    case (Float f)
    then have "\<not> is_nan f" using assms Numeric by (simp add: value_fits_def numeric_ok_def)
    then show thesis
      using Numeric Float read_int_bytes(6) [of f]
      by (intro that [of "be_bytes 8 f"])
        (simp_all add: get_serial_type_size_def read_value_serial_type_def value_from_f64_def nonnan_new_def)
  qed
next
  case (Text t)
  let ?n = "serial_type_text (of_nat (length t))"
  have u: "unat ?n = 13 + length t * 2" using assms Text unat_serial_text_blob by (simp add: value_fits_def)
  note c = serial_text_blob [of ?n 1 "length t"]
  show thesis
    using c u content_size_eq(2) [of ?n] Text
    by (intro that [of t])
      (simp_all add: get_serial_type_size_def read_value_serial_type_def Let_def ok_or_corrupt_def)
next
  case (Blob t)
  let ?n = "serial_type_blob (of_nat (length t))"
  have u: "unat ?n = 12 + length t * 2" using assms Blob unat_serial_text_blob by (simp add: value_fits_def)
  note c = serial_text_blob [of ?n 0 "length t"]
  show thesis
    using c u content_size_eq(1) [of ?n] Blob
    by (intro that [of t])
      (simp_all add: get_serial_type_size_def read_value_serial_type_def Let_def ok_or_corrupt_def)
qed

lemma serial_of_int_const: "serial_of_int 0 = 8" "serial_of_int 1 = 9"
  by (simp_all add: serial_of_int_def)

lemma serialize_serial_eq:
  "serialize_serial v out =
     (if v = Numeric (Integer 0) \<or> v = Numeric (Integer 1) then Inl Panic
      else rbind (value_content v) (\<lambda>bs. Inr (out @ bs)))"
proof (cases v)
  case (Numeric n)
  then show ?thesis
  proof (cases n)
    case (Integer i)
    then show ?thesis
      using Numeric
      by (cases i rule: serial_of_int_cases) (auto simp: serial_kind_def serial_of_int_const)
  qed simp
qed simp_all

section \<open>Properties\<close>

text \<open>C36. The two column decoders agree on every buffer and every serial type number, reserved
  numbers included, and a decoded column consumes exactly the size its serial type announces and
  is never a NaN.\<close>

theorem serial_decoders_agree:
  "read_value_serial_type buf n = rbind (serial_try_from n) (read_value buf) \<and>
   (\<forall>v k. read_value_serial_type buf n = Inr (v, k) \<longrightarrow>
      k \<le> length buf \<and> get_serial_type_size n = Inr k \<and> value_ok v)"
  using read_value_serial_type_eq read_value_serial_type_bounds by blast

theorem serial_decoders_agree_witness:
  "read_value_serial_type [0x41, 0x42] 15 = Inr (Text [0x41], 1) \<and> get_serial_type_size 15 = Inr 1"
proof -
  have r: "read_value_serial_type [0x41, 0x42] 15 = Inr (Text [0x41], 1)" by code_simp
  show ?thesis using serial_decoders_agree [of "[0x41, 0x42]" 15] r by blast
qed

text \<open>The integer decoder used by the fast index comparison returns what the column decoder
  returns for every integer serial type, and rejects every other serial type as corrupt.\<close>

theorem read_integer_agrees:
  "(n \<in> {1, 2, 3, 4, 5, 6, 8, 9} \<longrightarrow>
     rbind (read_value_serial_type buf (ucast n)) (\<lambda>(v, k). Inr v) =
     rbind (read_integer buf n) (\<lambda>i. Inr (Numeric (Integer i)))) \<and>
   (n \<notin> {1, 2, 3, 4, 5, 6, 8, 9} \<longrightarrow> read_integer buf n = Inl Corrupt)"
proof -
  have "rbind (read_value_serial_type buf (ucast n)) (\<lambda>(v, k). Inr v) =
      rbind (read_integer buf n) (\<lambda>i. Inr (Numeric (Integer i)))" if "n \<in> {1, 2, 3, 4, 5, 6, 8, 9}"
    using that
    by (elim insertE emptyE)
      (simp_all add: read_value_serial_type_def read_integer_def int_val_def rbind_def split: sum.split)
  then show ?thesis by (simp add: read_integer_def)
qed

theorem read_integer_agrees_witness:
  "(2 :: u8) \<in> {1, 2, 3, 4, 5, 6, 8, 9} \<and>
   rbind (read_value_serial_type [0xFF, 0x7F] (ucast (2 :: u8))) (\<lambda>(v, k). Inr v) =
   rbind (read_integer [0xFF, 0x7F] 2) (\<lambda>i. Inr (Numeric (Integer i)))"
  using read_integer_agrees [of 2 "[0xFF, 0x7F]"] by blast

text \<open>C37. \<^verbatim>\<open>Value::serialize_serial\<close> appends the record content of a value, except that it
  panics on the integers 0 and 1, whose serial types carry no content.\<close>

theorem serialize_serial_panics_iff:
  "serialize_serial v out =
     (if v = Numeric (Integer 0) \<or> v = Numeric (Integer 1) then Inl Panic
      else rbind (value_content v) (\<lambda>bs. Inr (out @ bs)))"
  by (rule serialize_serial_eq)

end
