(* ===== verification/Records.thy ===== *)
theory Records
  imports Serial_Types
begin

text \<open>
  The record format (\<^verbatim>\<open>core/types.rs\<close>): \<^verbatim>\<open>ImmutableRecord::build\<close> and \<^verbatim>\<open>Record::serialize\<close>, which
  write a row as a record, and \<^verbatim>\<open>ValueIterator\<close> with the accessors built on it, which read it back.

  The writers are modelled with their buffers: \<^verbatim>\<open>build\<close> sizes the record first and then fills a
  zeroed buffer through an \<^verbatim>\<open>AppendWriter\<close>, \<^verbatim>\<open>serialize\<close> grows its buffer and splices the header
  size in front. Buffer allocation is assumed to succeed, and sums of sizes of values in memory do
  not overflow. Where the code slices behind a decoded item (\<^verbatim>\<open>&header[bytes_read..]\<close>) the model
  drops that many bytes: the decoders never report more bytes than they were given
  (\<open>read_varint_Inr_bounds\<close>, \<open>read_value_serial_type_bounds\<close>), so these slices never panic.
\<close>

section \<open>Writing\<close>

text \<open>
  The fixpoint loop of \<^verbatim>\<open>calc_header_size\<close>: the header size counts the varint that holds it.
  \<^verbatim>\<open>usize\<close> is 64 bits wide, the addition panics when it overflows.
\<close>

function calc_header_loop :: "usize \<Rightarrow> bytes \<Rightarrow> usize \<Rightarrow> usize res" where
  "calc_header_loop sizeof_serial_types temp_buf header_size =
     (case write_varint temp_buf (of_nat header_size) of
        Inl e \<Rightarrow> Inl e
      | Inr (temp_buf, n) \<Rightarrow>
          if 2 ^ 64 \<le> sizeof_serial_types + n then Inl Panic
          else if sizeof_serial_types + n = header_size
          then Inr (sizeof_serial_types + n)
          else calc_header_loop sizeof_serial_types temp_buf (sizeof_serial_types + n))"
  by pat_completeness auto

lemma bit_len_mono: "a \<le> b \<Longrightarrow> bit_len a \<le> bit_len b"
  using bit_len_le_iff [of a "bit_len b"] bit_len_le_iff [of b "bit_len b"] by simp

lemma varint_len_mono:
  assumes "unat v \<le> unat w"
  shows "varint_len v \<le> varint_len w"
proof -
  have "(bit_len (unat v) + 6) div 7 \<le> 9" if "unat v < 2 ^ 56"
    using that bit_len_le_iff [of "unat v" 56] by simp
  moreover have "1 \<le> (bit_len (unat w) + 6) div 7" if "128 \<le> unat w"
    using that bit_len_le_iff [of "unat w" 7] by simp
  ultimately show ?thesis
    using assms bit_len_mono [OF assms] by (auto simp: varint_len_eq intro: div_le_mono)
qed

text \<open>The header size moves monotonically from the first step on, within nine of its start.\<close>

definition header_step :: "usize \<Rightarrow> usize \<Rightarrow> usize" where
  "header_step s h = s + varint_len (of_nat h)"

lemma header_step_mono:
  "h \<le> h' \<Longrightarrow> h' < 2 ^ 64 \<Longrightarrow> header_step s h \<le> header_step s h'"
  by (auto simp: header_step_def unat_of_nat take_bit_nat_eq_self intro!: varint_len_mono)

lemma header_step_le: "header_step s h \<le> s + 9"
  by (simp add: header_step_def varint_len_le_9)

definition header_measure :: "usize \<times> bytes \<times> usize \<Rightarrow> nat" where
  "header_measure = (\<lambda>(s, buf, h).
     if 2 ^ 64 \<le> h then s + 2 ^ 64 + 20
     else if h < header_step s h then s + 10 - h
     else if h = header_step s h then 0 else h)"

lemma header_measure_decreases:
  assumes "header_step s h < 2 ^ 64" "header_step s h \<noteq> h"
  shows "header_measure (s, buf', header_step s h) < header_measure (s, buf, h)"
proof (cases "2 ^ 64 \<le> h")
  case True
  then show ?thesis using assms(1) header_step_le [of s h] header_step_le [of s "header_step s h"]
    by (auto simp: header_measure_def)
next
  case False
  let ?h = "header_step s h"
  have le: "h < ?h \<Longrightarrow> ?h \<le> header_step s ?h" "?h < h \<Longrightarrow> header_step s ?h \<le> ?h"
    using header_step_mono [of h ?h s] header_step_mono [of ?h h s] assms(1) False by auto
  then show ?thesis
    using assms False header_step_le [of s h] header_step_le [of s ?h]
    by (auto simp: header_measure_def not_le)
qed

termination calc_header_loop
proof (relation "measure header_measure")
  fix s buf h x buf' n
  assume h: "write_varint buf (of_nat h) = Inr x" "(buf', n) = x" "\<not> 2 ^ 64 \<le> s + n" "s + n \<noteq> h"
  then have "n = varint_len (of_nat h)" by (auto simp: write_varint_eq split: if_splits)
  with h header_measure_decreases [of s h buf' buf]
  show "((s, buf', s + n), s, buf, h) \<in> measure header_measure"
    by (simp add: header_step_def)
qed simp

declare calc_header_loop.simps [simp del]

definition calc_header_size :: "usize \<Rightarrow> usize res" where
  "calc_header_size sizeof_serial_types =
     (if sizeof_serial_types < 127 then Inr (sizeof_serial_types + 1)
      else calc_header_loop sizeof_serial_types (replicate 9 0) sizeof_serial_types)"

text \<open>\<^verbatim>\<open>AppendWriter\<close>: a buffer of fixed length and the write position.\<close>

type_synonym append_writer = "bytes \<times> usize"

definition writer_extend :: "append_writer \<Rightarrow> bytes \<Rightarrow> append_writer res" where
  "writer_extend w s = (case w of (buf, pos) \<Rightarrow>
     if pos + length s \<le> length buf
     then Inr (take pos buf @ s @ drop (pos + length s) buf, pos + length s)
     else Inl Panic)"

fun record_sizes :: "sql_value list \<Rightarrow> usize \<Rightarrow> usize \<Rightarrow> (usize \<times> usize) res" where
  "record_sizes [] size_header size_values = Inr (size_header, size_values)"
| "record_sizes (v # vs) size_header size_values =
     rbind (serial_size (serial_from v)) (\<lambda>n.
       record_sizes vs (size_header + varint_len (serial_from v)) (size_values + n))"

fun write_serial_types :: "sql_value list \<Rightarrow> append_writer \<Rightarrow> bytes \<Rightarrow> append_writer res" where
  "write_serial_types [] w serial_type_buf = Inr w"
| "write_serial_types (v # vs) w serial_type_buf =
     rbind (write_varint serial_type_buf (serial_from v)) (\<lambda>(serial_type_buf, n).
       rbind (index_slice serial_type_buf 0 n) (\<lambda>s.
         rbind (writer_extend w s) (\<lambda>w. write_serial_types vs w serial_type_buf)))"

fun write_contents :: "sql_value list \<Rightarrow> append_writer \<Rightarrow> append_writer res" where
  "write_contents [] w = Inr w"
| "write_contents (v # vs) w =
     rbind (value_content v) (\<lambda>bs. rbind (writer_extend w bs) (\<lambda>w. write_contents vs w))"

definition resize :: "bytes \<Rightarrow> usize \<Rightarrow> bytes" where
  "resize buf n = take n buf @ replicate (n - length buf) 0"

definition record_build :: "sql_value list \<Rightarrow> bytes \<Rightarrow> bytes res" where
  "record_build vals buf =
     rbind (record_sizes vals 0 0) (\<lambda>(size_header, size_values).
     rbind (calc_header_size size_header) (\<lambda>header_size.
       let total_size = header_size + size_values in
       rbind (write_varint (replicate 9 0) (of_nat header_size)) (\<lambda>(serial_type_buf, n).
       rbind (index_slice serial_type_buf 0 n) (\<lambda>s.
       rbind (writer_extend (resize buf total_size, 0) s) (\<lambda>w.
       rbind (write_serial_types vals w serial_type_buf) (\<lambda>w.
       rbind (write_contents vals w) (\<lambda>(buf, pos). Inr buf)))))))"

fun serialize_header :: "sql_value list \<Rightarrow> bytes \<Rightarrow> bytes res" where
  "serialize_header [] buf = Inr buf"
| "serialize_header (v # vs) buf =
     (let buf = resize buf (length buf + 9); len = length buf in
      rbind (index_from buf (len - 9)) (\<lambda>tail.
      rbind (write_varint tail (serial_from v)) (\<lambda>(tail, n).
        serialize_header vs (take (len - 9 + n) (take (len - 9) buf @ tail)))))"

fun serialize_content :: "sql_value list \<Rightarrow> bytes \<Rightarrow> bytes res" where
  "serialize_content [] buf = Inr buf"
| "serialize_content (v # vs) buf = rbind (value_content v) (\<lambda>bs. serialize_content vs (buf @ bs))"

definition record_serialize :: "sql_value list \<Rightarrow> bytes \<Rightarrow> bytes res" where
  "record_serialize vals buf =
     (let initial_i = length buf in
      rbind (serialize_header vals buf) (\<lambda>buf.
      let header_size = length buf - initial_i in
      rbind (serialize_content vals buf) (\<lambda>buf.
      rbind (calc_header_size header_size) (\<lambda>header_size.
      rbind (write_varint (replicate 9 0) (of_nat header_size)) (\<lambda>(header_bytes_buf, n).
        Inr (take initial_i buf @ take n header_bytes_buf @ drop initial_i buf))))))"

section \<open>Reading\<close>

record value_iterator =
  header_section :: bytes
  data_section :: bytes

definition iter_new :: "bytes \<Rightarrow> value_iterator res" where
  "iter_new payload =
     rbind (read_varint payload) (\<lambda>(header_size, header_varint_len).
       let header_size = unat header_size in
       if header_size > length payload \<or> header_varint_len > length payload
          \<or> header_varint_len > header_size
       then Inl Corrupt
       else rbind (index_slice payload header_varint_len header_size) (\<lambda>h.
            rbind (index_from payload header_size) (\<lambda>d.
              Inr \<lparr>header_section = h, data_section = d\<rparr>)))"

definition iter_next :: "value_iterator \<Rightarrow> sql_value res option \<times> value_iterator" where
  "iter_next it =
     (let header = header_section it in
      if header = [] then (None, it)
      else (case read_varint header of
        Inl e \<Rightarrow> (Some (Inl e), it)
      | Inr (serial_type, bytes_read) \<Rightarrow>
          (let it = it\<lparr>header_section := drop bytes_read header\<rparr>; data = data_section it in
           case read_value_serial_type data serial_type of
             Inr (v, n) \<Rightarrow> (Some (Inr v), it\<lparr>data_section := drop n data\<rparr>)
           | Inl e \<Rightarrow> (Some (Inl e), it))))"

text \<open>The header scan of \<^verbatim>\<open>count\<close> and \<^verbatim>\<open>size_hint\<close>.\<close>

function count_loop :: "bytes \<Rightarrow> usize" where
  "count_loop header =
     (if header = [] then 0
      else (case read_varint header of
        Inr (_, bytes_read) \<Rightarrow> Suc (count_loop (drop bytes_read header))
      | Inl _ \<Rightarrow> 0))"
  by pat_completeness auto
termination
  by (relation "measure length") (auto dest: read_varint_Inr_bounds)

declare count_loop.simps [simp del]

definition iter_count :: "value_iterator \<Rightarrow> usize" where
  "iter_count it = count_loop (header_section it)"

text \<open>
  The skipping loop of \<^verbatim>\<open>nth\<close>: \<open>Inl r\<close> is an early return of \<open>r\<close>, \<open>Inr (header, data_sum)\<close> the end of
  the loop.
\<close>

fun nth_loop :: "nat \<Rightarrow> bytes \<Rightarrow> usize \<Rightarrow> sql_value res option + (bytes \<times> usize)" where
  "nth_loop 0 header data_sum = Inr (header, data_sum)"
| "nth_loop (Suc n) header data_sum =
     (if header = [] then Inl None
      else (case read_varint header of
        Inl e \<Rightarrow> Inl (Some (Inl e))
      | Inr (serial_type, bytes_read) \<Rightarrow>
          (case get_serial_type_size serial_type of
             Inl e \<Rightarrow> Inl (Some (Inl e))
           | Inr n' \<Rightarrow>
               if 2 ^ 64 \<le> data_sum + n' then Inl (Some (Inl Panic))
               else nth_loop n (drop bytes_read header) (data_sum + n'))))"

definition iter_nth :: "value_iterator \<Rightarrow> nat \<Rightarrow> sql_value res option \<times> value_iterator" where
  "iter_nth it n =
     (case nth_loop n (header_section it) 0 of
        Inl r \<Rightarrow> (r, it)
      | Inr (header, data_sum) \<Rightarrow>
          if data_sum > length (data_section it) then (Some (Inl Corrupt), it)
          else iter_next \<lparr>header_section = header, data_section = drop data_sum (data_section it)\<rparr>)"

text \<open>\<^verbatim>\<open>try_collect\<close>: the values up to the end, or the first error.\<close>

lemma iter_next_shrinks:
  assumes "iter_next it = (Some (Inr v), it')"
  shows "length (header_section it') < length (header_section it)"
  using assms by (auto simp: iter_next_def Let_def dest: read_varint_Inr_bounds
      split: if_splits sum.splits prod.splits)

function iter_collect :: "value_iterator \<Rightarrow> sql_value list res" where
  "iter_collect it = (case iter_next it of
     (None, _) \<Rightarrow> Inr []
   | (Some (Inl e), _) \<Rightarrow> Inl e
   | (Some (Inr v), it') \<Rightarrow> (case iter_collect it' of Inl e \<Rightarrow> Inl e | Inr vs \<Rightarrow> Inr (v # vs)))"
  by pat_completeness auto
termination
  by (relation "measure (\<lambda>it. length (header_section it))") (auto dest: iter_next_shrinks [OF sym])

declare iter_collect.simps [simp del]

definition record_values :: "bytes \<Rightarrow> sql_value list res" where
  "record_values payload = rbind (iter_new payload) iter_collect"

text \<open>
  The range accessor takes its first value before it looks at the end of the range; \<open>k\<close> counts the
  remaining iterations of its loop. Reversed ranges underflow in the capacity computation.
\<close>

fun take_values :: "nat \<Rightarrow> value_iterator \<Rightarrow> sql_value list res" where
  "take_values 0 it = Inr []"
| "take_values (Suc k) it = (case iter_next it of
     (None, _) \<Rightarrow> Inr []
   | (Some r, it') \<Rightarrow> rbind r (\<lambda>v. rbind (take_values k it') (\<lambda>vs. Inr (v # vs))))"

definition values_range :: "bytes \<Rightarrow> usize \<Rightarrow> usize \<Rightarrow> sql_value list res" where
  "values_range payload a b =
     rbind (iter_new payload) (\<lambda>it.
       if b < a then Inl Panic
       else (case iter_nth it a of
          (None, _) \<Rightarrow> Inr []
        | (Some r, it') \<Rightarrow> rbind r (\<lambda>v. rbind (take_values (b - (a + 1)) it') (\<lambda>vs. Inr (v # vs)))))"

definition two_values :: "bytes \<Rightarrow> usize \<Rightarrow> usize \<Rightarrow> (sql_value \<times> sql_value) res" where
  "two_values payload idx1 idx2 =
     rbind (iter_new payload) (\<lambda>it.
       case iter_nth it idx1 of (val1, it) \<Rightarrow>
         if idx2 < idx1 + 1 then Inl Panic
         else (case iter_nth it (idx2 - idx1 - 1) of (val2, it) \<Rightarrow>
           (case (val1, val2) of
              (Some v1, Some v2) \<Rightarrow> rbind v1 (\<lambda>v1. rbind v2 (\<lambda>v2. Inr (v1, v2)))
            | _ \<Rightarrow> Inl InternalError)))"

definition three_values :: "bytes \<Rightarrow> usize \<Rightarrow> usize \<Rightarrow> usize \<Rightarrow> (sql_value \<times> sql_value \<times> sql_value) res" where
  "three_values payload idx1 idx2 idx3 =
     rbind (iter_new payload) (\<lambda>it.
       case iter_nth it idx1 of (val1, it) \<Rightarrow>
         if idx2 < idx1 + 1 then Inl Panic
         else (case iter_nth it (idx2 - idx1 - 1) of (val2, it) \<Rightarrow>
           if idx3 < idx2 + 1 then Inl Panic
           else (case iter_nth it (idx3 - idx2 - 1) of (val3, it) \<Rightarrow>
             (case (val1, val2, val3) of
                (Some v1, Some v2, Some v3) \<Rightarrow>
                  rbind v1 (\<lambda>v1. rbind v2 (\<lambda>v2. rbind v3 (\<lambda>v3. Inr (v1, v2, v3))))
              | _ \<Rightarrow> Inl InternalError))))"

text \<open>\<^verbatim>\<open>contains_null\<close> scans the serial types only. Its slice of the header is not guarded.\<close>

function null_scan :: "bytes \<Rightarrow> bool res" where
  "null_scan header =
     (if header = [] then Inr False
      else (case read_varint header of
        Inl e \<Rightarrow> Inl e
      | Inr (serial_type, bytes_read) \<Rightarrow>
          if serial_type = 0 then Inr True else null_scan (drop bytes_read header)))"
  by pat_completeness auto
termination
  by (relation "measure length") (auto dest: read_varint_Inr_bounds)

declare null_scan.simps [simp del]

definition contains_null :: "bytes \<Rightarrow> bool res" where
  "contains_null payload =
     rbind (read_varint payload) (\<lambda>(header_size, header_varint_len).
       let header_size = unat header_size in
       if header_size > length payload \<or> header_varint_len > length payload then Inl Corrupt
       else rbind (index_slice payload header_varint_len header_size) null_scan)"

text \<open>
  \<^verbatim>\<open>last_value\<close> folds over the iterator to its end. The fold keeps going after an error item, so it
  need not end: \<^verbatim>\<open>None\<close> stands for a fold that runs forever.
\<close>

partial_function (option) iter_last :: "sql_value res option \<Rightarrow> value_iterator \<Rightarrow> sql_value res option option" where
  "iter_last acc it = (case iter_next it of
     (None, _) \<Rightarrow> Some acc
   | (Some r, it') \<Rightarrow> iter_last (Some r) it')"

definition last_value :: "bytes \<Rightarrow> sql_value res option option" where
  "last_value payload =
     (if payload = [] then Some (Some (Inl InternalError))
      else (case iter_new payload of
        Inl e \<Rightarrow> Some (Some (Inl e))
      | Inr it \<Rightarrow> iter_last None it))"

definition first_value :: "bytes \<Rightarrow> sql_value res" where
  "first_value payload =
     (if payload = [] then Inl InternalError
      else rbind (iter_new payload) (\<lambda>it.
        case fst (iter_next it) of Some v \<Rightarrow> v | None \<Rightarrow> Inl InternalError))"

definition record_value :: "bytes \<Rightarrow> usize \<Rightarrow> sql_value res" where
  "record_value payload idx =
     (if payload = [] then Inl InternalError
      else rbind (iter_new payload) (\<lambda>it.
        case fst (iter_nth it idx) of Some v \<Rightarrow> v | None \<Rightarrow> Inl InternalError))"

definition value_opt :: "bytes \<Rightarrow> usize \<Rightarrow> sql_value option" where
  "value_opt payload idx =
     (case iter_new payload of
        Inl _ \<Rightarrow> None
      | Inr it \<Rightarrow> (case fst (iter_nth it idx) of Some (Inr v) \<Rightarrow> Some v | _ \<Rightarrow> None))"

definition column_count :: "bytes \<Rightarrow> usize" where
  "column_count payload = (case iter_new payload of Inl _ \<Rightarrow> 0 | Inr it \<Rightarrow> iter_count it)"

section \<open>The header size\<close>

lemma calc_header_loop_Inr:
  "calc_header_loop s buf h = Inr h' \<Longrightarrow> h' = s + varint_len (of_nat h') \<and> h' < 2 ^ 64"
proof (induction s buf h rule: calc_header_loop.induct)
  case (1 s buf h)
  note r = "1.prems" [unfolded calc_header_loop.simps [of s buf h]]
  show ?case
  proof (cases "write_varint buf (of_nat h)")
    case (Inr p)
    obtain buf' n where p: "p = (buf', n)" by (cases p)
    have n: "n = varint_len (of_nat h)" using Inr p by (auto simp: write_varint_eq split: if_splits)
    show ?thesis
    proof (cases "s + n = h")
      case True
      then show ?thesis using r Inr p n by (auto split: if_splits)
    next
      case False
      then show ?thesis using r Inr p "1.IH" [OF Inr p [symmetric]] by (auto split: if_splits)
    qed
  qed (use r in simp)
qed

lemma calc_header_loop_ok:
  "s + 9 < 2 ^ 64 \<Longrightarrow> length buf = 9 \<Longrightarrow> \<exists>h'. calc_header_loop s buf h = Inr h'"
proof (induction s buf h rule: calc_header_loop.induct)
  case (1 s buf h)
  have w: "write_varint buf (of_nat h) =
      Inr (varint_bytes (of_nat h) @ drop (varint_len (of_nat h)) buf, varint_len (of_nat h))"
    using "1.prems"(2) varint_len_le_9 by (simp add: write_varint_eq)
  then show ?case
    using "1.prems" "1.IH" [OF w refl] varint_len_le_9 [of "of_nat h"]
    by (subst calc_header_loop.simps) (simp add: length_varint_bytes)
qed

lemma calc_header_size_ok:
  assumes "s + 9 < 2 ^ 64"
  obtains h where "calc_header_size s = Inr h" "h = s + varint_len (of_nat h)" "h < 2 ^ 64"
proof (cases "s < 127")
  case True
  then have "varint_len (of_nat (s + 1)) = 1"
    by (simp add: varint_len_eq unat_of_nat take_bit_nat_eq_self del: of_nat_Suc of_nat_add)
  with True show thesis by (intro that [of "s + 1"]) (simp_all add: calc_header_size_def)
next
  case False
  then show thesis
    using calc_header_loop_ok [OF assms, of "replicate 9 0" s] calc_header_loop_Inr that
    by (auto simp: calc_header_size_def)
qed

section \<open>Both writers produce the record format\<close>

text \<open>
  The abstract format: the header size, the serial types, the contents.
\<close>

definition content_of :: "sql_value \<Rightarrow> bytes" where
  "content_of v = (case value_content v of Inr bs \<Rightarrow> bs | Inl _ \<Rightarrow> [])"

definition serials_of :: "sql_value list \<Rightarrow> bytes" where
  "serials_of vs = concat (map (\<lambda>v. varint_bytes (serial_from v)) vs)"

definition contents_of :: "sql_value list \<Rightarrow> bytes" where
  "contents_of vs = concat (map content_of vs)"

definition header_size_of :: "sql_value list \<Rightarrow> usize" where
  "header_size_of vs = (case calc_header_size (length (serials_of vs)) of Inr h \<Rightarrow> h | Inl _ \<Rightarrow> 0)"

definition record_bytes :: "sql_value list \<Rightarrow> bytes" where
  "record_bytes vs = varint_bytes (of_nat (header_size_of vs)) @ serials_of vs @ contents_of vs"

text \<open>A row that can be written: contents have a serial type, the header fits the address space.\<close>

definition row_fits :: "sql_value list \<Rightarrow> bool" where
  "row_fits vs \<longleftrightarrow> list_all value_fits vs \<and> 9 * length vs + 9 < 2 ^ 64"

lemma content_of:
  assumes "value_fits v"
  shows "value_content v = Inr (content_of v)"
    and "get_serial_type_size (serial_from v) = Inr (length (content_of v))"
    and "read_value_serial_type (content_of v @ rest) (serial_from v) = Inr (v, length (content_of v))"
  by (rule value_content_roundtrip [OF assms], simp add: content_of_def)+

lemma serial_size_from:
  "value_fits v \<Longrightarrow> serial_size (serial_from v) = Inr (length (content_of v))"
  using content_of(2) [of v]
  by (auto simp: get_serial_type_size_eq serial_try_from_def split: if_splits)

lemma row_fits_Cons: "row_fits (v # vs) \<Longrightarrow> value_fits v \<and> row_fits vs"
  by (simp add: row_fits_def)

lemma length_serials_of_le: "length (serials_of vs) \<le> 9 * length vs"
proof (induction vs)
  case (Cons v vs)
  then show ?case using varint_len_le_9 [of "serial_from v"]
    by (simp add: serials_of_def length_varint_bytes)
qed (simp add: serials_of_def)

lemma record_sizes_eq:
  "row_fits vs \<Longrightarrow> record_sizes vs a b =
     Inr (a + length (serials_of vs), b + length (contents_of vs))"
proof (induction vs arbitrary: a b)
  case (Cons v vs)
  then show ?case
    by (auto simp: serial_size_from serials_of_def contents_of_def length_varint_bytes dest: row_fits_Cons)
qed (simp add: serials_of_def contents_of_def)

lemma header_size_of:
  assumes "row_fits vs"
  shows "calc_header_size (length (serials_of vs)) = Inr (header_size_of vs)"
    and "header_size_of vs = length (serials_of vs) + varint_len (of_nat (header_size_of vs))"
    and "header_size_of vs < 2 ^ 64"
proof -
  have "length (serials_of vs) + 9 < 2 ^ 64"
    using assms length_serials_of_le [of vs] by (simp add: row_fits_def)
  then obtain h where "calc_header_size (length (serials_of vs)) = Inr h"
      "h = length (serials_of vs) + varint_len (of_nat h)" "h < 2 ^ 64"
    by (rule calc_header_size_ok)
  moreover from this have "header_size_of vs = h" by (simp add: header_size_of_def)
  ultimately show "calc_header_size (length (serials_of vs)) = Inr (header_size_of vs)"
      "header_size_of vs = length (serials_of vs) + varint_len (of_nat (header_size_of vs))"
      "header_size_of vs < 2 ^ 64" by simp_all
qed

lemma writer_extend_append:
  "n = length w \<Longrightarrow> length s \<le> length rest \<Longrightarrow>
   writer_extend (w @ rest, n) s = Inr ((w @ s) @ drop (length s) rest, length (w @ s))"
  by (simp add: writer_extend_def)

lemma write_varint_9:
  assumes "length buf = 9"
  shows "write_varint buf v = Inr (varint_bytes v @ drop (varint_len v) buf, varint_len v)"
  using assms varint_len_le_9 [of v] by (simp add: write_varint_eq)

lemma write_serial_types_eq:
  "length sbuf = 9 \<Longrightarrow> length (serials_of vs) \<le> length rest \<Longrightarrow>
   write_serial_types vs (w @ rest, length w) sbuf =
     Inr ((w @ serials_of vs) @ drop (length (serials_of vs)) rest, length (w @ serials_of vs))"
proof (induction vs arbitrary: w rest sbuf)
  case (Cons v vs)
  let ?s = "varint_bytes (serial_from v)"
  have sl: "serials_of (v # vs) = ?s @ serials_of vs" by (simp add: serials_of_def)
  have len: "varint_len (serial_from v) = length ?s" by (simp add: length_varint_bytes)
  have le: "length ?s \<le> 9" using varint_len_le_9 [of "serial_from v"] len by simp
  have "length ?s \<le> length rest" using Cons.prems sl by simp
  then have ext: "writer_extend (w @ rest, length w) ?s =
      Inr ((w @ ?s) @ drop (length ?s) rest, length (w @ ?s))"
    by (rule writer_extend_append [OF refl])
  have slice: "index_slice (?s @ drop (length ?s) sbuf) 0 (length ?s) = Inr ?s"
    by (simp add: index_slice_def slice_def)
  have "write_serial_types vs ((w @ ?s) @ drop (length ?s) rest, length (w @ ?s)) (?s @ drop (length ?s) sbuf) =
      Inr (((w @ ?s) @ serials_of vs) @ drop (length (serials_of vs)) (drop (length ?s) rest),
        length ((w @ ?s) @ serials_of vs))"
    using Cons.prems sl le by (intro Cons.IH) simp_all
  then show ?case
    using Cons.prems(1) ext slice by (simp add: write_varint_9 len sl add.commute)
qed (simp add: serials_of_def)

lemma write_contents_eq:
  "row_fits vs \<Longrightarrow> length (contents_of vs) \<le> length rest \<Longrightarrow>
   write_contents vs (w @ rest, length w) =
     Inr ((w @ contents_of vs) @ drop (length (contents_of vs)) rest, length (w @ contents_of vs))"
proof (induction vs arbitrary: w rest)
  case (Cons v vs)
  let ?s = "content_of v"
  have sl: "contents_of (v # vs) = ?s @ contents_of vs" by (simp add: contents_of_def)
  have fits: "value_fits v" "row_fits vs" using Cons.prems(1) row_fits_Cons by auto
  have "writer_extend (w @ rest, length w) ?s = Inr ((w @ ?s) @ drop (length ?s) rest, length (w @ ?s))"
    using Cons.prems sl by (intro writer_extend_append) simp_all
  moreover have "write_contents vs ((w @ ?s) @ drop (length ?s) rest, length (w @ ?s)) =
      Inr (((w @ ?s) @ contents_of vs) @ drop (length (contents_of vs)) (drop (length ?s) rest),
        length ((w @ ?s) @ contents_of vs))"
    using Cons.prems sl fits by (intro Cons.IH) simp_all
  ultimately show ?case using fits by (simp add: content_of(1) sl add.commute)
qed (simp add: contents_of_def)

lemma length_resize [simp]: "length (resize buf n) = n"
  by (simp add: resize_def)

lemma record_build_eq:
  assumes "row_fits vs"
  shows "record_build vs buf = Inr (record_bytes vs)"
proof -
  let ?h = "header_size_of vs" and ?s = "varint_bytes (of_nat (header_size_of vs))"
  let ?total = "?h + length (contents_of vs)"
  note hs = header_size_of [OF assms]
  have len: "length ?s = varint_len (of_nat ?h)" by (simp add: length_varint_bytes)
  let ?rest = "resize buf ?total" and ?sbuf = "?s @ drop (varint_len (of_nat ?h)) (replicate 9 0)"
  have slice: "index_slice ?sbuf 0 (varint_len (of_nat ?h)) = Inr ?s"
    by (simp add: index_slice_def slice_def flip: len)
  have ext: "writer_extend (?rest, 0) ?s = Inr (([] @ ?s) @ drop (length ?s) ?rest, length ([] @ ?s))"
    using writer_extend_append [of 0 "[]" ?s ?rest] hs(2) len by simp
  have ser: "write_serial_types vs (?s @ drop (length ?s) ?rest, length ?s) ?sbuf =
      Inr ((?s @ serials_of vs) @ drop (length (serials_of vs)) (drop (length ?s) ?rest),
        length (?s @ serials_of vs))"
    using hs(2) len varint_len_le_9 [of "of_nat ?h"] by (intro write_serial_types_eq) simp_all
  have con: "write_contents vs ((?s @ serials_of vs) @ drop (length (serials_of vs)) (drop (length ?s) ?rest),
        length (?s @ serials_of vs)) =
      Inr (((?s @ serials_of vs) @ contents_of vs) @
        drop (length (contents_of vs)) (drop (length (serials_of vs)) (drop (length ?s) ?rest)),
        length ((?s @ serials_of vs) @ contents_of vs))"
    using assms hs(2) len by (intro write_contents_eq) simp_all
  have fin: "drop (length (contents_of vs)) (drop (length (serials_of vs)) (drop (length ?s) ?rest)) = []"
    using hs(2) len by simp
  show ?thesis
    unfolding record_build_def
    using slice ext ser con fin
    by (simp add: record_sizes_eq [OF assms] hs(1) write_varint_9 record_bytes_def Let_def)
qed

lemma serialize_header_eq: "serialize_header vs buf = Inr (buf @ serials_of vs)"
proof (induction vs arbitrary: buf)
  case (Cons v vs)
  then show ?case
    by (simp add: resize_def index_from_def write_varint_9 serials_of_def Let_def flip: length_varint_bytes)
qed (simp add: serials_of_def)

lemma serialize_content_eq: "row_fits vs \<Longrightarrow> serialize_content vs buf = Inr (buf @ contents_of vs)"
proof (induction vs arbitrary: buf)
  case (Cons v vs)
  then show ?case using row_fits_Cons [of v vs] by (simp add: content_of(1) contents_of_def)
qed (simp add: contents_of_def)

lemma record_serialize_eq:
  assumes "row_fits vs"
  shows "record_serialize vs buf = Inr (buf @ record_bytes vs)"
  using header_size_of(1) [OF assms]
  by (simp add: record_serialize_def serialize_header_eq serialize_content_eq [OF assms] write_varint_9
      record_bytes_def Let_def flip: length_varint_bytes)

section \<open>Reading back\<close>

text \<open>The steps of the iterator, in the two shapes the proofs use.\<close>

lemma iter_next_Nil [simp]: "header_section it = [] \<Longrightarrow> iter_next it = (None, it)"
  by (simp add: iter_next_def)

lemma iter_next_value:
  assumes "value_fits v"
  shows "iter_next \<lparr>header_section = varint_bytes (serial_from v) @ hs, data_section = content_of v @ ds\<rparr> =
    (Some (Inr v), \<lparr>header_section = hs, data_section = ds\<rparr>)"
proof -
  have "varint_bytes (serial_from v) \<noteq> []"
    using varint_len_pos [of "serial_from v"] by (metis length_varint_bytes length_0_conv less_irrefl)
  then show ?thesis
    using content_of(3) [OF assms, of ds]
    by (simp add: iter_next_def read_varint_bytes Let_def flip: length_varint_bytes)
qed

lemma iter_next_Some_Inr:
  assumes "iter_next it = (Some (Inr v), it')"
  obtains st n k where "header_section it \<noteq> []" "read_varint (header_section it) = Inr (st, n)"
    "read_value_serial_type (data_section it) st = Inr (v, k)"
    "it' = \<lparr>header_section = drop n (header_section it), data_section = drop k (data_section it)\<rparr>"
  using assms
  by (cases it) (auto simp: iter_next_def Let_def split: if_splits sum.splits prod.splits)

lemma iter_collect_cases:
  assumes "iter_collect it = Inr vs"
  obtains (Nil) "header_section it = []" "vs = []"
  | (Cons) v vs' it' where "vs = v # vs'" "iter_next it = (Some (Inr v), it')" "iter_collect it' = Inr vs'"
proof (cases "header_section it = []")
  case True
  then show thesis using assms Nil by (subst (asm) iter_collect.simps) simp
next
  case False
  obtain r it' where r: "iter_next it = (r, it')" by (cases "iter_next it")
  then obtain x where x: "r = Some x" using False
    by (auto simp: iter_next_def Let_def split: if_splits sum.splits prod.splits)
  show thesis
    using assms r x Cons
    by (subst (asm) iter_collect.simps) (auto split: sum.splits)
qed

lemma iter_collect_contents:
  "list_all value_fits vs \<Longrightarrow>
   iter_collect \<lparr>header_section = serials_of vs, data_section = contents_of vs @ ds\<rparr> = Inr vs"
proof (induction vs)
  case Nil
  then show ?case by (subst iter_collect.simps) (simp add: serials_of_def)
next
  case (Cons v vs)
  then have "iter_next \<lparr>header_section = serials_of (v # vs), data_section = contents_of (v # vs) @ ds\<rparr> =
      (Some (Inr v), \<lparr>header_section = serials_of vs, data_section = contents_of vs @ ds\<rparr>)"
    using iter_next_value [of v] by (simp add: serials_of_def contents_of_def)
  with Cons show ?case by (subst iter_collect.simps) simp
qed

lemma iter_new_record_bytes:
  assumes "row_fits vs"
  shows "iter_new (record_bytes vs @ rest) =
    Inr \<lparr>header_section = serials_of vs, data_section = contents_of vs @ rest\<rparr>"
proof -
  let ?h = "header_size_of vs" and ?s = "varint_bytes (of_nat (header_size_of vs) :: u64)"
  note hs = header_size_of [OF assms]
  have u: "unat (of_nat ?h :: u64) = ?h" using hs(3) by (simp add: unat_of_nat take_bit_nat_eq_self)
  have len: "length ?s = varint_len (of_nat ?h)" by (simp add: length_varint_bytes)
  have "?h = length ?s + length (serials_of vs)" using hs(2) len by simp
  then show ?thesis
    using u len
    by (simp add: iter_new_def record_bytes_def read_varint_bytes Let_def index_slice_def slice_def index_from_def)
qed

lemma record_values_bytes:
  assumes "row_fits vs"
  shows "record_values (record_bytes vs @ rest) = Inr vs"
  using assms iter_collect_contents [of vs rest]
  by (simp add: record_values_def iter_new_record_bytes row_fits_def)

section \<open>Positional access\<close>

lemma count_loop_collect:
  "iter_collect it = Inr vs \<Longrightarrow> count_loop (header_section it) = length vs"
proof (induction vs arbitrary: it)
  case Nil
  then show ?case by (cases rule: iter_collect_cases) (simp_all add: count_loop.simps)
next
  case (Cons v vs)
  from Cons.prems show ?case
  proof (cases rule: iter_collect_cases)
    case (Cons v' vs' it')
    then show ?thesis
      using Cons.IH [of it'] by (auto elim!: iter_next_Some_Inr) (subst count_loop.simps; simp)
  qed simp
qed

lemma nth_loop_collect:
  "iter_collect \<lparr>header_section = h, data_section = drop s d\<rparr> = Inr vs \<Longrightarrow> n \<le> length vs \<Longrightarrow>
   s \<le> length d \<Longrightarrow> length d < 2 ^ 64 \<Longrightarrow>
   \<exists>h' s'. nth_loop n h s = Inr (h', s') \<and> s' \<le> length d \<and>
     iter_collect \<lparr>header_section = h', data_section = drop s' d\<rparr> = Inr (drop n vs)"
proof (induction n arbitrary: h s vs)
  case (Suc n)
  from Suc.prems(1) show ?case
  proof (cases rule: iter_collect_cases)
    case (Cons v vs' it')
    from Cons(2) obtain st m k where step: "h \<noteq> []" "read_varint h = Inr (st, m)"
        "read_value_serial_type (drop s d) st = Inr (v, k)"
        "it' = \<lparr>header_section = drop m h, data_section = drop k (drop s d)\<rparr>"
      by (auto elim!: iter_next_Some_Inr)
    note b = read_value_serial_type_bounds [OF step(3)]
    then have le: "s + k \<le> length d" using Suc.prems(3) by simp
    have "iter_collect \<lparr>header_section = drop m h, data_section = drop (s + k) d\<rparr> = Inr vs'"
      using Cons(3) step(4) by (simp add: add.commute)
    then show ?thesis
      using Suc.IH [of "drop m h" "s + k" vs'] Suc.prems step(1,2) b(2) le Cons(1) by simp
  qed (use Suc.prems in simp)
qed auto

lemma nth_loop_beyond:
  "iter_collect \<lparr>header_section = h, data_section = drop s d\<rparr> = Inr vs \<Longrightarrow> length vs < n \<Longrightarrow>
   s \<le> length d \<Longrightarrow> length d < 2 ^ 64 \<Longrightarrow> nth_loop n h s = Inl None"
proof (induction n arbitrary: h s vs)
  case (Suc n)
  from Suc.prems(1) show ?case
  proof (cases rule: iter_collect_cases)
    case (Cons v vs' it')
    from Cons(2) obtain st m k where step: "h \<noteq> []" "read_varint h = Inr (st, m)"
        "read_value_serial_type (drop s d) st = Inr (v, k)"
        "it' = \<lparr>header_section = drop m h, data_section = drop k (drop s d)\<rparr>"
      by (auto elim!: iter_next_Some_Inr)
    note b = read_value_serial_type_bounds [OF step(3)]
    then have le: "s + k \<le> length d" using Suc.prems(3) by simp
    have "iter_collect \<lparr>header_section = drop m h, data_section = drop (s + k) d\<rparr> = Inr vs'"
      using Cons(3) step(4) by (simp add: add.commute)
    then show ?thesis
      using Suc.IH [of "drop m h" "s + k" vs'] Suc.prems step(1,2) b(2) le Cons(1) by simp
  qed simp
qed simp

lemma value_iterator_eta: "\<lparr>header_section = header_section it, data_section = data_section it\<rparr> = it"
  by simp

lemma iter_nth_collect:
  assumes "iter_collect it = Inr vs" "length (data_section it) < 2 ^ 64" "n < length vs"
  obtains it' where "iter_nth it n = (Some (Inr (vs ! n)), it')" "iter_collect it' = Inr (drop (Suc n) vs)"
    "length (data_section it') < 2 ^ 64"
proof -
  let ?d = "data_section it"
  from assms nth_loop_collect [of "header_section it" 0 ?d vs n] obtain h' s'
    where loop: "nth_loop n (header_section it) 0 = Inr (h', s')" "s' \<le> length ?d"
      "iter_collect \<lparr>header_section = h', data_section = drop s' ?d\<rparr> = Inr (drop n vs)" by (auto simp: value_iterator_eta)
  have "drop n vs = vs ! n # drop (Suc n) vs" using assms(3) by (simp add: Cons_nth_drop_Suc)
  with loop(3) obtain it' where it': "iter_next \<lparr>header_section = h', data_section = drop s' ?d\<rparr> =
      (Some (Inr (vs ! n)), it')" "iter_collect it' = Inr (drop (Suc n) vs)"
    by (auto elim: iter_collect_cases)
  from it'(1) have "length (data_section it') < 2 ^ 64"
    using assms(2) by (auto elim!: iter_next_Some_Inr)
  with it' loop(1,2) show thesis by (intro that [of it']) (simp_all add: iter_nth_def)
qed

lemma iter_nth_beyond:
  assumes "iter_collect it = Inr vs" "length (data_section it) < 2 ^ 64" "length vs \<le> n"
  shows "fst (iter_nth it n) = None"
proof (cases "n = length vs")
  case True
  let ?d = "data_section it"
  from assms True nth_loop_collect [of "header_section it" 0 ?d vs n] obtain h' s'
    where loop: "nth_loop n (header_section it) 0 = Inr (h', s')" "s' \<le> length ?d"
      "iter_collect \<lparr>header_section = h', data_section = drop s' ?d\<rparr> = Inr []" by (auto simp: value_iterator_eta)
  from loop(3) have "h' = []" by (auto elim: iter_collect_cases)
  with loop show ?thesis by (simp add: iter_nth_def)
next
  case False
  then show ?thesis
    using assms nth_loop_beyond [of "header_section it" 0 "data_section it" vs n]
    by (simp add: iter_nth_def value_iterator_eta)
qed

lemma fst_iter_nth:
  assumes "iter_collect it = Inr vs" "length (data_section it) < 2 ^ 64"
  shows "fst (iter_nth it n) = (if n < length vs then Some (Inr (vs ! n)) else None)"
proof (cases "n < length vs")
  case True
  then show ?thesis by (auto intro: iter_nth_collect [OF assms True])
qed (use iter_nth_beyond [OF assms, of n] in simp)

lemma take_values_collect: "iter_collect it = Inr vs \<Longrightarrow> take_values k it = Inr (take k vs)"
proof (induction k arbitrary: it vs)
  case (Suc k)
  from Suc.prems show ?case
    by (cases rule: iter_collect_cases) (auto simp: Suc.IH)
qed simp

lemma record_values_iter:
  assumes "record_values payload = Inr vs" "length payload < 2 ^ 64"
  obtains it where "payload \<noteq> []" "iter_new payload = Inr it" "iter_collect it = Inr vs"
    "length (data_section it) < 2 ^ 64"
proof -
  from assms(1) obtain it where it: "iter_new payload = Inr it" "iter_collect it = Inr vs"
    by (auto simp: record_values_def)
  have "read_varint [] = Inl Corrupt" by code_simp
  then have "payload \<noteq> []" using it(1) by (auto simp: iter_new_def)
  moreover have "length (data_section it) \<le> length payload"
    using it(1) by (auto simp: iter_new_def Let_def index_from_def rbind_eq_Inr_iff split: if_splits)
  ultimately show thesis using it assms(2) by (intro that) auto
qed

lemma record_value_collect:
  assumes "record_values payload = Inr vs" "length payload < 2 ^ 64"
  shows "record_value payload i = (if i < length vs then Inr (vs ! i) else Inl InternalError)"
    and "value_opt payload i = (if i < length vs then Some (vs ! i) else None)"
proof -
  obtain it where it: "payload \<noteq> []" "iter_new payload = Inr it" "iter_collect it = Inr vs"
      "length (data_section it) < 2 ^ 64"
    using assms by (rule record_values_iter)
  note n = fst_iter_nth [OF it(3,4), of i]
  show "record_value payload i = (if i < length vs then Inr (vs ! i) else Inl InternalError)"
      "value_opt payload i = (if i < length vs then Some (vs ! i) else None)"
    using it(1,2) n by (simp_all add: record_value_def value_opt_def)
qed

lemma values_range_collect:
  assumes "record_values payload = Inr vs" "length payload < 2 ^ 64" "a \<le> b"
  shows "values_range payload a b = Inr (take (max 1 (b - a)) (drop a vs))"
proof -
  obtain it where it: "iter_new payload = Inr it" "iter_collect it = Inr vs"
      "length (data_section it) < 2 ^ 64"
    using assms(1,2) by (rule record_values_iter)
  show ?thesis
  proof (cases "a < length vs")
    case True
    obtain it' where it': "iter_nth it a = (Some (Inr (vs ! a)), it')"
        "iter_collect it' = Inr (drop (Suc a) vs)"
      by (rule iter_nth_collect [OF it(2,3) True])
    have "take (max 1 (b - a)) (drop a vs) = vs ! a # take (b - (a + 1)) (drop (Suc a) vs)"
    proof -
      have "drop a vs = vs ! a # drop (Suc a) vs" using True by (simp add: Cons_nth_drop_Suc)
      moreover have "max 1 (b - a) = Suc (b - (a + 1))" using assms(3) by simp
      ultimately show ?thesis by simp
    qed
    with it it' assms(3) show ?thesis
      by (simp add: values_range_def take_values_collect)
  next
    case False
    then have "fst (iter_nth it a) = None" using it by (intro iter_nth_beyond) auto
    with False it assms(3) show ?thesis
      by (cases "iter_nth it a") (simp add: values_range_def)
  qed
qed

lemma two_values_collect:
  assumes "record_values payload = Inr vs" "length payload < 2 ^ 64" "i < j"
  shows "two_values payload i j = (if j < length vs then Inr (vs ! i, vs ! j) else Inl InternalError)"
proof -
  obtain it where it: "iter_new payload = Inr it" "iter_collect it = Inr vs"
      "length (data_section it) < 2 ^ 64"
    using assms(1,2) by (rule record_values_iter)
  show ?thesis
  proof (cases "i < length vs")
    case True
    obtain it' where it': "iter_nth it i = (Some (Inr (vs ! i)), it')"
        "iter_collect it' = Inr (drop (Suc i) vs)" "length (data_section it') < 2 ^ 64"
      by (rule iter_nth_collect [OF it(2,3) True])
    have "fst (iter_nth it' (j - i - 1)) = (if j < length vs then Some (Inr (vs ! j)) else None)"
      using assms(3) True by (auto simp: fst_iter_nth [OF it'(2,3)])
    with it it' assms(3) show ?thesis
      by (cases "iter_nth it' (j - i - 1)") (auto simp: two_values_def)
  next
    case False
    then have "fst (iter_nth it i) = None" using it by (intro iter_nth_beyond) auto
    with False it assms(3) show ?thesis
      by (cases "iter_nth it i") (auto simp: two_values_def split: prod.split)
  qed
qed

lemma iter_last_collect:
  "iter_collect it = Inr vs \<Longrightarrow>
   iter_last acc it = Some (if vs = [] then acc else Some (Inr (last vs)))"
proof (induction vs arbitrary: acc it)
  case Nil
  then show ?case by (cases rule: iter_collect_cases) (simp_all add: iter_last.simps)
next
  case (Cons v vs)
  from Cons.prems show ?case
    by (cases rule: iter_collect_cases) (auto simp: iter_last.simps [of acc it] Cons.IH)
qed

text \<open>A header that does not start with a varint stops the iterator from ever ending.\<close>

lemma iter_last_Some_not_stuck:
  assumes "iter_last acc it = Some r"
  shows "iter_next it \<noteq> (Some x, it)"
proof (rule iter_last.raw_induct [OF _ assms], goal_cases)
  case (1 f acc it r)
  show ?case
  proof
    assume stuck: "iter_next it = (Some x, it)"
    with 1(2) have "f (Some x) it = Some r" by simp
    from 1(1) [OF this] stuck show False by simp
  qed
qed

lemma iter_last_stuck:
  assumes "header_section it \<noteq> []" "read_varint (header_section it) = Inl e"
  shows "iter_last acc it = None"
  using assms iter_last_Some_not_stuck [of acc it _ "Inl e"]
  by (cases "iter_last acc it") (auto simp: iter_next_def)

lemma serial_from_0_iff:
  assumes "value_fits v"
  shows "serial_from v = 0 \<longleftrightarrow> v = Null"
proof (cases v)
  case (Numeric n)
  then show ?thesis
  proof (cases n)
    case (Integer i)
    with Numeric show ?thesis by (cases i rule: serial_of_int_cases) auto
  qed simp
next
  case (Text t)
  then have "unat (serial_from v) = 13 + length t * 2"
    using assms unat_serial_text_blob(1) [of "length t"] by (simp add: value_fits_def)
  with Text show ?thesis by auto
next
  case (Blob t)
  then have "unat (serial_from v) = 12 + length t * 2"
    using assms unat_serial_text_blob(2) [of "length t"] by (simp add: value_fits_def)
  with Blob show ?thesis by auto
qed simp

lemma null_scan_serials:
  "list_all value_fits vs \<Longrightarrow> null_scan (serials_of vs) = Inr (Null \<in> set vs)"
proof (induction vs)
  case Nil
  then show ?case by (simp add: serials_of_def null_scan.simps)
next
  case (Cons v vs)
  let ?s = "varint_bytes (serial_from v)"
  have "serials_of (v # vs) = ?s @ serials_of vs" by (simp add: serials_of_def)
  moreover have "?s \<noteq> []"
    using varint_len_pos [of "serial_from v"] by (metis length_varint_bytes length_0_conv less_irrefl)
  ultimately show ?case
    using Cons serial_from_0_iff [of v]
    by (subst null_scan.simps) (auto simp: read_varint_bytes simp flip: length_varint_bytes)
qed

lemma contains_null_record_bytes:
  assumes "row_fits vs"
  shows "contains_null (record_bytes vs) = Inr (Null \<in> set vs)"
proof -
  let ?h = "header_size_of vs" and ?s = "varint_bytes (of_nat (header_size_of vs) :: u64)"
  note hs = header_size_of [OF assms]
  have u: "unat (of_nat ?h :: u64) = ?h" using hs(3) by (simp add: unat_of_nat take_bit_nat_eq_self)
  have len: "length ?s = varint_len (of_nat ?h)" by (simp add: length_varint_bytes)
  have "?h = length ?s + length (serials_of vs)" using hs(2) len by simp
  then show ?thesis
    using u len assms null_scan_serials [of vs]
    by (simp add: contains_null_def record_bytes_def read_varint_bytes Let_def index_slice_def slice_def row_fits_def)
qed

section \<open>Malformed records\<close>

lemma read_varint_loop_Inl: "read_varint_loop buf i v = Inl e \<Longrightarrow> e = Corrupt"
proof (induction buf i v rule: read_varint_loop.induct)
  case (1 buf i v)
  then show ?case
    by (subst (asm) (2) read_varint_loop.simps) (auto simp: Let_def split: if_splits option.splits)
qed

lemma read_varint_Inl: "read_varint buf = Inl e \<Longrightarrow> e = Corrupt"
  by (auto simp: read_varint_def dest: read_varint_loop_Inl split: sum.splits option.splits)

lemma read_value_serial_type_Inl: "read_value_serial_type buf n = Inl e \<Longrightarrow> e = Corrupt"
  by (auto simp: read_value_serial_type_def read_int_defs ok_or_corrupt_def rbind_eq_Inl_iff Let_def
      split: if_splits option.splits)

lemma iter_next_Inl: "iter_next it = (Some (Inl e), it') \<Longrightarrow> e = Corrupt"
  by (auto simp: iter_next_def Let_def dest: read_varint_Inl read_value_serial_type_Inl
      split: if_splits sum.splits prod.splits)

lemma iter_collect_Inl: "iter_collect it = Inl e \<Longrightarrow> e = Corrupt"
proof (induction it rule: iter_collect.induct)
  case (1 it)
  show ?case
  proof (cases "iter_next it")
    case (Pair r it')
    then show ?thesis
      using "1.prems" "1.IH" [OF Pair [symmetric]] iter_next_Inl [of it _ it']
      by (subst (asm) iter_collect.simps) (auto split: option.splits sum.splits)
  qed
qed

lemma iter_new_Inl: "iter_new payload = Inl e \<Longrightarrow> e = Corrupt"
  by (auto simp: iter_new_def rbind_eq_Inl_iff index_slice_def index_from_def Let_def
      dest: read_varint_Inl split: if_splits)

lemma null_scan_Inl: "null_scan header = Inl e \<Longrightarrow> e = Corrupt"
proof (induction header rule: null_scan.induct)
  case (1 header)
  then show ?case
    by (subst (asm) (2) null_scan.simps) (auto dest: read_varint_Inl split: if_splits sum.splits prod.splits)
qed

lemma contains_null_Panic_iff:
  "contains_null payload = Inl Panic \<longleftrightarrow>
   (\<exists>header_size n. read_varint payload = Inr (header_size, n) \<and> unat header_size < n)"
proof (cases "read_varint payload")
  case (Inl e)
  then show ?thesis using read_varint_Inl [OF Inl] by (simp add: contains_null_def)
next
  case (Inr p)
  obtain hs n where p: "p = (hs, n)" by (cases p)
  have "n \<le> length payload" using read_varint_Inr_bounds(3) [of payload hs n] Inr p by simp
  then show ?thesis
    using Inr p
    by (auto simp: contains_null_def index_slice_def rbind_eq_Inl_iff not_less Let_def dest: null_scan_Inl
        split: if_splits)
qed

lemma nth_loop_huge:
  assumes "w = 0xFFFFFFFFFFFFFFFF"
  shows "nth_loop 3 (varint_bytes w @ varint_bytes w @ varint_bytes w) 0 = Inl (Some (Inl Panic))"
proof -
  have size: "get_serial_type_size w = Inr (2 ^ 63 - 7)"
    by (simp add: assms get_serial_type_size_def)
  have ne: "varint_bytes w \<noteq> []"
    using varint_len_pos [of w] by (metis length_varint_bytes length_0_conv less_irrefl)
  show ?thesis
    using ne read_varint_bytes [of w "[]"]
    by (simp add: numeral_3_eq_3 read_varint_bytes size flip: length_varint_bytes)
qed

section \<open>Properties\<close>

text \<open>C12. Writing a row as a record and reading it back gives the row, whatever the buffer held
  before and whatever follows the record; the two writers produce the same bytes; and the NULL test
  on the record is the NULL test on the row.\<close>

theorem record_roundtrip:
  assumes "row_fits vs"
  shows "\<exists>bs. record_build vs buf = Inr bs \<and> record_serialize vs out = Inr (out @ bs) \<and>
    record_values (bs @ rest) = Inr vs \<and> contains_null bs = Inr (Null \<in> set vs)"
  using assms record_build_eq record_serialize_eq record_values_bytes contains_null_record_bytes by blast

theorem record_roundtrip_witness:
  "row_fits [Numeric (Integer 300), Text [0x61], Null] \<and>
   (\<exists>bs. record_build [Numeric (Integer 300), Text [0x61], Null] [] = Inr bs \<and>
     record_serialize [Numeric (Integer 300), Text [0x61], Null] [7] = Inr ([7] @ bs) \<and>
     record_values (bs @ [9]) = Inr [Numeric (Integer 300), Text [0x61], Null] \<and> contains_null bs = Inr True)"
proof -
  have h: "row_fits [Numeric (Integer 300), Text [0x61], Null]"
    by (simp add: row_fits_def value_fits_def numeric_ok_def)
  show ?thesis using h record_roundtrip [OF h, of "[]" "[7]" "[9]"] by simp
qed

text \<open>C34. The header size computation always ends and finds the fixpoint: the serial types
  plus the length of the varint that holds the result itself.\<close>

theorem calc_header_size_fixpoint:
  assumes "s + 9 < 2 ^ 64"
  shows "\<exists>h. calc_header_size s = Inr h \<and> h = s + varint_len (of_nat h)"
  using calc_header_size_ok [OF assms] by metis

theorem calc_header_size_fixpoint_witness:
  "(127 :: nat) + 9 < 2 ^ 64 \<and> (\<exists>h. calc_header_size 127 = Inr h \<and> h = 127 + varint_len (of_nat h))"
  using calc_header_size_fixpoint [of 127] by simp

text \<open>On every record that decodes to a row, the positional accessors return the columns of
  that row: one value, the optional value, two values in ascending order, a non-empty range, the
  first and the last value, and the number of columns.\<close>

theorem record_accessors:
  assumes "record_values payload = Inr vs" "length payload < 2 ^ 64"
  shows "record_value payload i = (if i < length vs then Inr (vs ! i) else Inl InternalError)
    \<and> value_opt payload i = (if i < length vs then Some (vs ! i) else None)
    \<and> column_count payload = length vs
    \<and> first_value payload = (if vs = [] then Inl InternalError else Inr (hd vs))
    \<and> last_value payload = Some (if vs = [] then None else Some (Inr (last vs)))
    \<and> (i < j \<longrightarrow> two_values payload i j = (if j < length vs then Inr (vs ! i, vs ! j) else Inl InternalError))
    \<and> (i < j \<longrightarrow> values_range payload i j = Inr (take (j - i) (drop i vs)))"
proof -
  obtain it where it: "payload \<noteq> []" "iter_new payload = Inr it" "iter_collect it = Inr vs"
    using assms by (rule record_values_iter)
  have "first_value payload = (if vs = [] then Inl InternalError else Inr (hd vs))"
    using it(3) by (cases rule: iter_collect_cases) (use it(1,2) in \<open>auto simp: first_value_def\<close>)
  moreover have "values_range payload i j = Inr (take (j - i) (drop i vs))" if "i < j"
    using that values_range_collect [OF assms, of i j] by (simp add: max_def)
  ultimately show ?thesis
    using it assms record_value_collect two_values_collect iter_last_collect [OF it(3)] count_loop_collect [OF it(3)]
    by (simp add: last_value_def column_count_def iter_count_def)
qed

theorem record_accessors_witness:
  "record_values [3, 1, 1, 5, 6] = Inr [Numeric (Integer 5), Numeric (Integer 6)] \<and>
   length ([3, 1, 1, 5, 6] :: bytes) < 2 ^ 64 \<and>
   record_value [3, 1, 1, 5, 6] 1 = Inr (Numeric (Integer 6))"
proof -
  have h: "record_values [3, 1, 1, 5, 6] = Inr [Numeric (Integer 5), Numeric (Integer 6)]" by code_simp
  show ?thesis using h record_accessors [OF h, of 1] by simp
qed

text \<open>C33. Decoding arbitrary bytes never panics: the result is a row or the error \<open>Corrupt\<close>. The NULL
  test panics on exactly those payloads whose header size is smaller than its own varint, which
  the row decoder rejects.\<close>

theorem record_decoding_total:
  "(record_values payload = Inl Corrupt \<or> (\<exists>vs. record_values payload = Inr vs)) \<and>
   (contains_null payload = Inl Panic \<longleftrightarrow>
     (\<exists>header_size n. read_varint payload = Inr (header_size, n) \<and> unat header_size < n))"
proof -
  have "record_values payload = Inl Corrupt \<or> (\<exists>vs. record_values payload = Inr vs)"
    by (cases "record_values payload")
      (auto simp: record_values_def rbind_eq_Inl_iff dest: iter_new_Inl iter_collect_Inl)
  then show ?thesis using contains_null_Panic_iff by blast
qed

text \<open>C35. When the header of a record goes wrong at its first serial type, fetching the last value
  never returns: the fold over the columns meets the same error item for ever.\<close>

theorem last_value_diverges:
  assumes "iter_new payload = Inr it" "header_section it \<noteq> []" "read_varint (header_section it) = Inl e"
  shows "last_value payload = None"
proof -
  have "payload \<noteq> []"
  proof
    assume "payload = []"
    moreover have "iter_new [] = Inl Corrupt" by code_simp
    ultimately show False using assms(1) by simp
  qed
  then show ?thesis using assms by (simp add: last_value_def iter_last_stuck)
qed

theorem last_value_diverges_witness:
  "iter_new [2, 0x80] = Inr \<lparr>header_section = [0x80], data_section = []\<rparr> \<and>
   read_varint [0x80] = Inl Corrupt \<and> last_value [2, 0x80] = None"
proof -
  have h: "iter_new [2, 0x80] = Inr \<lparr>header_section = [0x80], data_section = []\<rparr>" by code_simp
  have r: "read_varint [0x80] = Inl Corrupt" by code_simp
  show ?thesis using h r last_value_diverges [OF h, of Corrupt] by simp
qed

text \<open>Two more facts on malformed input. An empty range still yields its first value; and the sum of
  the column sizes in \<^verbatim>\<open>nth\<close> is not checked: three columns of the largest size overflow it.\<close>

lemma values_range_empty_range:
  "record_values payload = Inr vs \<Longrightarrow> length payload < 2 ^ 64 \<Longrightarrow> a < length vs \<Longrightarrow>
   values_range payload a a = Inr [vs ! a]"
  using values_range_collect [of payload vs a a] by (simp add: take_Suc hd_drop_conv_nth)

lemma iter_nth_overflow:
  "fst (iter_nth \<lparr>header_section = varint_bytes 0xFFFFFFFFFFFFFFFF @ varint_bytes 0xFFFFFFFFFFFFFFFF @ varint_bytes 0xFFFFFFFFFFFFFFFF,
      data_section = ds\<rparr> 3) = Some (Inl Panic)"
  using nth_loop_huge [OF refl] by (simp add: iter_nth_def)

end
