(* ===== verification/Record_Compare.thy ===== *)
theory Record_Compare
  imports Records
begin

text \<open>
  Comparing a stored record with a search key (\<^verbatim>\<open>core/types.rs\<close>): the generic comparison, which
  decodes columns one by one, the two fast paths for a leading integer or text, the choice between
  them, and the tie breaker a seek uses when the key is a prefix of the record.

  A record is its payload. Debug assertions are modelled as panics.
\<close>

section \<open>Comparison functions\<close>

fun skip_fields :: "bytes \<Rightarrow> usize \<Rightarrow> nat \<Rightarrow> usize \<Rightarrow> usize \<Rightarrow> (usize \<times> usize) res" where
  "skip_fields payload header_end 0 header_pos data_pos = Inr (header_pos, data_pos)"
| "skip_fields payload header_end (Suc n) header_pos data_pos =
     (if header_pos \<ge> header_end then Inr (header_pos, data_pos)
      else rbind (index_from payload header_pos) (\<lambda>s.
        rbind (read_varint s) (\<lambda>(serial_type_raw, bytes_read).
        rbind (serial_try_from serial_type_raw) (\<lambda>serial_type.
        rbind (serial_kind serial_type) (\<lambda>k.
          if k = KConstInt0 \<or> k = KConstInt1 \<or> k = KNull
          then skip_fields payload header_end n (header_pos + bytes_read) data_pos
          else rbind (serial_size serial_type) (\<lambda>m.
            skip_fields payload header_end n (header_pos + bytes_read) (data_pos + m)))))))"

definition read_field :: "bytes \<Rightarrow> usize \<Rightarrow> u64 \<Rightarrow> (sql_value \<times> usize) res" where
  "read_field payload data_pos serial_type =
     rbind (serial_kind serial_type) (\<lambda>k. case k of
       KConstInt0 \<Rightarrow> Inr (int_val 0, data_pos)
     | KConstInt1 \<Rightarrow> Inr (int_val 1, data_pos)
     | KNull \<Rightarrow> Inr (Null, data_pos)
     | _ \<Rightarrow> rbind (index_from payload data_pos) (\<lambda>d.
            rbind (read_value d serial_type) (\<lambda>(v, n). Inr (v, data_pos + n))))"

fun compare_fields ::
  "locale_cmp \<Rightarrow> bytes \<Rightarrow> usize \<Rightarrow> key_info list \<Rightarrow> usize \<Rightarrow> ordering \<Rightarrow> usize \<Rightarrow> usize \<Rightarrow> usize \<Rightarrow>
   sql_value list \<Rightarrow> ordering res" where
  "compare_fields lc payload header_end ks field_limit tie field_idx header_pos data_pos [] = Inr tie"
| "compare_fields lc payload header_end ks field_limit tie field_idx header_pos data_pos (rhs # rhss) =
     (if field_idx \<ge> field_limit \<or> header_pos \<ge> header_end then Inr tie
      else rbind (index_from payload header_pos) (\<lambda>s.
        rbind (read_varint s) (\<lambda>(serial_type_raw, bytes_read).
        rbind (serial_try_from serial_type_raw) (\<lambda>serial_type.
        rbind (read_field payload data_pos serial_type) (\<lambda>(lhs, data_pos).
          let comparison = compare_immutable_single lc lhs rhs (collation (ks ! field_idx));
              final_comparison = directed (sort_order (ks ! field_idx)) comparison
          in if final_comparison \<noteq> Equal then Inr final_comparison
             else compare_fields lc payload header_end ks field_limit tie (field_idx + 1)
                    (header_pos + bytes_read) data_pos rhss)))))"

definition compare_records_generic ::
  "locale_cmp \<Rightarrow> bytes \<Rightarrow> sql_value list \<Rightarrow> index_info \<Rightarrow> usize \<Rightarrow> ordering \<Rightarrow> ordering res" where
  "compare_records_generic lc payload unpacked index_info skip tie_breaker =
     (if payload = [] then Inr Less
      else rbind (read_varint payload) (\<lambda>(header_size, header_pos).
        let header_end = unat header_size in
        if \<not> header_end \<le> length payload then Inl Panic
        else rbind (skip_fields payload header_end skip header_pos header_end) (\<lambda>(header_pos, data_pos).
          compare_fields lc payload header_end (key_info_of index_info)
            (min (length unpacked) (length (key_info_of index_info))) tie_breaker skip
            header_pos data_pos (drop skip unpacked))))"

text \<open>The first element of the key and of the key description; Rust panics when there is none.\<close>

definition peek_unwrap :: "'a list \<Rightarrow> 'a res" where
  "peek_unwrap xs = (case xs of [] \<Rightarrow> Inl Panic | x # _ \<Rightarrow> Inr x)"

definition compare_records_int ::
  "locale_cmp \<Rightarrow> bytes \<Rightarrow> sql_value list \<Rightarrow> index_info \<Rightarrow> ordering \<Rightarrow> ordering res" where
  "compare_records_int lc payload unpacked index_info tie_breaker =
     (if length payload < 2 then compare_records_generic lc payload unpacked index_info 0 tie_breaker
      else rbind (read_varint payload) (\<lambda>(header_size, offset_1st_serialtype).
        let header_size = unat header_size in
        if length payload < header_size then Inl Corrupt
        else rbind (index_from payload offset_1st_serialtype) (\<lambda>s.
        rbind (read_varint s) (\<lambda>(first_serial_type, _).
        if \<not> (1 \<le> first_serial_type \<and> first_serial_type \<le> 6 \<or> first_serial_type = 8 \<or> first_serial_type = 9)
        then compare_records_generic lc payload unpacked index_info 0 tie_breaker
        else rbind (index_from payload header_size) (\<lambda>d.
        rbind (read_integer d (ucast first_serial_type)) (\<lambda>lhs_int.
        rbind (peek_unwrap unpacked) (\<lambda>rhs. case rhs of
          Numeric (Integer rhs_int) \<Rightarrow>
            rbind (peek_unwrap (key_info_of index_info)) (\<lambda>k.
              let comparison = directed (sort_order k) (ord_cmp (sint lhs_int) (sint rhs_int)) in
              if comparison = Equal then
                (if length unpacked > 1
                 then compare_records_generic lc payload unpacked index_info 1 tie_breaker
                 else Inr tie_breaker)
              else Inr comparison)
        | _ \<Rightarrow> compare_records_generic lc payload unpacked index_info 0 tie_breaker))))))) "

definition compare_records_string ::
  "locale_cmp \<Rightarrow> bytes \<Rightarrow> sql_value list \<Rightarrow> index_info \<Rightarrow> ordering \<Rightarrow> ordering res" where
  "compare_records_string lc payload unpacked index_info tie_breaker =
     (if length payload < 2 then compare_records_generic lc payload unpacked index_info 0 tie_breaker
      else rbind (read_varint payload) (\<lambda>(header_size, offset_1st_serialtype).
        let header_size = unat header_size in
        if length payload < header_size then Inl Corrupt
        else rbind (index_from payload offset_1st_serialtype) (\<lambda>s.
        rbind (read_varint s) (\<lambda>(first_serial_type, _).
        if \<not> (first_serial_type \<ge> 13 \<and> first_serial_type AND 1 = 1)
        then compare_records_generic lc payload unpacked index_info 0 tie_breaker
        else rbind (peek_unwrap unpacked) (\<lambda>rhs. case rhs of
          Text rhs_text \<Rightarrow>
            (let string_len = (unat first_serial_type - 13) div 2 in
             if \<not> header_size + string_len \<le> length payload then Inl Panic
             else rbind (serial_try_from first_serial_type) (\<lambda>serial_type.
             rbind (index_from payload header_size) (\<lambda>d.
             rbind (read_value d serial_type) (\<lambda>(lhs_value, _). case lhs_value of
               Text lhs_text \<Rightarrow>
                 rbind (peek_unwrap (key_info_of index_info)) (\<lambda>k.
                   let comparison = compare_strings lc (collation k) lhs_text rhs_text;
                       final_comparison = directed (sort_order k) comparison in
                   if final_comparison = Equal then
                     (let len_cmp = ord_cmp (length lhs_text) (length rhs_text) in
                      if len_cmp \<noteq> Equal then Inr (directed (sort_order k) len_cmp)
                      else if length unpacked > 1
                      then compare_records_generic lc payload unpacked index_info 1 tie_breaker
                      else Inr tie_breaker)
                   else Inr final_comparison)
             | _ \<Rightarrow> compare_records_generic lc payload unpacked index_info 0 tie_breaker))))
        | _ \<Rightarrow> compare_records_generic lc payload unpacked index_info 0 tie_breaker)))))"

datatype record_compare = RInt | RString | RGeneric

fun record_compare_run ::
  "locale_cmp \<Rightarrow> record_compare \<Rightarrow> bytes \<Rightarrow> sql_value list \<Rightarrow> index_info \<Rightarrow> usize \<Rightarrow> ordering \<Rightarrow> ordering res" where
  "record_compare_run lc RInt serialized unpacked index_info skip tie_breaker =
     compare_records_int lc serialized unpacked index_info tie_breaker"
| "record_compare_run lc RString serialized unpacked index_info skip tie_breaker =
     compare_records_string lc serialized unpacked index_info tie_breaker"
| "record_compare_run lc RGeneric serialized unpacked index_info skip tie_breaker =
     compare_records_generic lc serialized unpacked index_info skip tie_breaker"

definition find_compare :: "sql_value list \<Rightarrow> index_info \<Rightarrow> record_compare res" where
  "find_compare unpacked index_info =
     (if length unpacked \<noteq> 0 \<and> num_cols index_info \<le> 13 then
        rbind (peek_unwrap unpacked) (\<lambda>val. case val of
          Numeric (Integer _) \<Rightarrow> Inr RInt
        | Text _ \<Rightarrow> rbind (peek_unwrap (key_info_of index_info)) (\<lambda>k.
            if collation k = Binary then Inr RString else Inr RGeneric)
        | _ \<Rightarrow> Inr RGeneric)
      else Inr RGeneric)"

section \<open>Seeks\<close>

datatype seek_op = GE bool | GT | LE bool | LT

datatype iteration_direction = Forwards | Backwards

fun seek_iteration_direction :: "seek_op \<Rightarrow> iteration_direction" where
  "seek_iteration_direction (GE _) = Forwards"
| "seek_iteration_direction GT = Forwards"
| "seek_iteration_direction (LE _) = Backwards"
| "seek_iteration_direction LT = Backwards"

fun seek_eq_only :: "seek_op \<Rightarrow> bool" where
  "seek_eq_only (GE eq_only) = eq_only"
| "seek_eq_only (LE eq_only) = eq_only"
| "seek_eq_only _ = False"

fun seek_reverse :: "seek_op \<Rightarrow> seek_op" where
  "seek_reverse (GE eq_only) = LE eq_only"
| "seek_reverse GT = LT"
| "seek_reverse (LE eq_only) = GE eq_only"
| "seek_reverse LT = GT"

fun get_tie_breaker_from_seek_op :: "seek_op \<Rightarrow> ordering" where
  "get_tie_breaker_from_seek_op (GE True) = Equal"
| "get_tie_breaker_from_seek_op (LE True) = Equal"
| "get_tie_breaker_from_seek_op (GE False) = Greater"
| "get_tie_breaker_from_seek_op GT = Less"
| "get_tie_breaker_from_seek_op (LE False) = Less"
| "get_tie_breaker_from_seek_op LT = Greater"

section \<open>The generic comparison is lexicographic\<close>

text \<open>The columns still to be read at a header and a data position of a well-formed payload.\<close>

definition columns_at :: "bytes \<Rightarrow> usize \<Rightarrow> usize \<Rightarrow> usize \<Rightarrow> sql_value list \<Rightarrow> bool" where
  "columns_at payload header_end header_pos data_pos vs \<longleftrightarrow>
     header_pos \<le> header_end \<and> header_end \<le> length payload \<and> data_pos \<le> length payload \<and>
     iter_collect \<lparr>header_section = slice payload header_pos header_end,
       data_section = drop data_pos payload\<rparr> = Inr vs"

lemma columns_at_Nil: "columns_at payload he hp dp [] \<Longrightarrow> hp = he"
  by (auto simp: columns_at_def slice_def elim!: iter_collect_cases)

lemma columns_at_Cons:
  assumes "columns_at payload he hp dp (v # vs)"
  obtains st br n where "hp < he" "read_varint (drop hp payload) = Inr (st, br)"
    "serial_try_from st = Inr st" "read_value (drop dp payload) st = Inr (v, n)"
    "serial_size st = Inr n" "columns_at payload he (hp + br) (dp + n) vs"
proof -
  let ?h = "slice payload hp he"
  note a = assms [unfolded columns_at_def]
  have split: "drop hp payload = ?h @ drop he payload"
    using a by (simp add: slice_def) (metis append_take_drop_id drop_drop le_add_diff_inverse2)
  from a obtain it' where it': "iter_next \<lparr>header_section = ?h, data_section = drop dp payload\<rparr> = (Some (Inr v), it')"
      "iter_collect it' = Inr vs" by (auto elim: iter_collect_cases)
  from it'(1) obtain st br n where st: "?h \<noteq> []" "read_varint ?h = Inr (st, br)"
      "read_value_serial_type (drop dp payload) st = Inr (v, n)"
      "it' = \<lparr>header_section = drop br ?h, data_section = drop n (drop dp payload)\<rparr>"
    by (auto elim!: iter_next_Some_Inr)
  note b = read_value_serial_type_bounds [OF st(3)] read_varint_Inr_bounds [OF st(2)]
  have len: "length ?h = he - hp" using a by simp
  have "drop br ?h = slice payload (hp + br) he"
    by (simp add: slice_def drop_take add.commute)
  then have cols: "columns_at payload he (hp + br) (dp + n) vs"
    using a it'(2) st(4) b len by (auto simp: columns_at_def add.commute)
  have "hp < he" using st(1) len by (cases "hp < he") auto
  moreover have "read_varint (drop hp payload) = Inr (st, br)"
    unfolding split using st(2) by (rule read_varint_append)
  moreover from st(3) b(2) have "serial_try_from st = Inr st" "read_value (drop dp payload) st = Inr (v, n)"
      "serial_size st = Inr n"
    by (auto simp: read_value_serial_type_eq get_serial_type_size_eq serial_try_from_def split: if_splits)
  ultimately show thesis using that cols by blast
qed

lemma read_field_eq:
  assumes "read_value (drop dp payload) st = Inr (v, n)" "dp \<le> length payload" "serial_size st = Inr n"
  shows "read_field payload dp st = Inr (v, dp + n)"
  using assms
  by (auto simp: read_field_def read_value_def index_from_def serial_size_def
      split: serial_type_kind.splits)

lemma skip_fields_eq:
  "columns_at payload he hp dp vs \<Longrightarrow>
   \<exists>hp' dp'. skip_fields payload he m hp dp = Inr (hp', dp') \<and> columns_at payload he hp' dp' (drop m vs)"
proof (induction m arbitrary: hp dp vs)
  case (Suc m)
  show ?case
  proof (cases vs)
    case Nil
    then show ?thesis using Suc.prems columns_at_Nil by fastforce
  next
    case (Cons v vs')
    obtain st br n where st: "hp < he" "read_varint (drop hp payload) = Inr (st, br)"
        "serial_try_from st = Inr st" "serial_size st = Inr n" "columns_at payload he (hp + br) (dp + n) vs'"
      using Suc.prems [unfolded Cons] by (rule columns_at_Cons)
    from st(4) obtain k where k: "serial_kind st = Inr k" "n = kind_size st k"
      by (auto simp: serial_size_def)
    have "hp \<le> length payload" using Suc.prems by (simp add: columns_at_def)
    then have "skip_fields payload he (Suc m) hp dp = skip_fields payload he m (hp + br) (dp + n)"
      using st k by (auto simp: index_from_def)
    then show ?thesis using Suc.IH [OF st(5)] Cons by simp
  qed
qed auto

lemma compare_fields_eq:
  "columns_at payload he hp dp vs \<Longrightarrow> fi \<le> lim \<Longrightarrow> lim \<le> length ks \<Longrightarrow>
   compare_fields lc payload he ks lim tie fi hp dp rs =
     Inr (lex_cmp (map (column_cmp lc) (drop fi (take lim ks))) tie vs rs)"
proof (induction rs arbitrary: hp dp vs fi)
  case (Cons r rs)
  consider "fi = lim" | "vs = []" | v vs' where "fi < lim" "vs = v # vs'"
    using Cons.prems(2) by (cases vs) force+
  then show ?case
  proof cases
    case 2
    then show ?thesis using columns_at_Nil [of payload he hp dp] Cons.prems by simp
  next
    case 3
    obtain st br n where st: "hp < he" "read_varint (drop hp payload) = Inr (st, br)"
        "serial_try_from st = Inr st" "read_value (drop dp payload) st = Inr (v, n)"
        "serial_size st = Inr n" "columns_at payload he (hp + br) (dp + n) vs'"
      using Cons.prems(1) [unfolded 3] by (rule columns_at_Cons)
    have pos: "hp \<le> length payload" "dp \<le> length payload" using Cons.prems by (simp_all add: columns_at_def)
    have "drop fi (take lim ks) = ks ! fi # drop (Suc fi) (take lim ks)"
      using 3 Cons.prems by (simp add: Cons_nth_drop_Suc [symmetric])
    then show ?thesis
      using 3 st pos Cons.IH [OF st(6), of "Suc fi"] Cons.prems read_field_eq [OF st(4) pos(2) st(5)]
      by (simp add: index_from_def column_cmp_def Let_def)
  qed (simp add: Cons.prems)
qed simp

lemma columns_at_start:
  assumes "record_values payload = Inr vs"
  obtains hs n where "payload \<noteq> []" "read_varint payload = Inr (hs, n)" "unat hs \<le> length payload"
    "columns_at payload (unat hs) n (unat hs) vs"
proof -
  from assms obtain it where it: "iter_new payload = Inr it" "iter_collect it = Inr vs"
    by (auto simp: record_values_def)
  obtain hs n where r: "read_varint payload = Inr (hs, n)"
    using it(1) by (auto simp: iter_new_def)
  then have ne: "payload \<noteq> []" using read_varint_Inr_bounds [OF r] by auto
  from it(1) r have "unat hs \<le> length payload" "n \<le> unat hs"
      "it = \<lparr>header_section = slice payload n (unat hs), data_section = drop (unat hs) payload\<rparr>"
    by (auto simp: iter_new_def Let_def index_slice_def index_from_def split: if_splits)
  with it(2) r ne show thesis by (intro that [of hs n]) (simp_all add: columns_at_def)
qed

lemma lex_cmp_take_key:
  "lex_cmp (take (length rs) cs) tie vs rs = lex_cmp cs tie vs rs"
  by (induction cs tie vs rs rule: lex_cmp.induct) auto

lemma compare_records_generic_eq:
  assumes "record_values payload = Inr vs" "skip \<le> length unp" "skip \<le> length (key_info_of info)"
  shows "compare_records_generic lc payload unp info skip tie =
    Inr (lex_cmp (map (column_cmp lc) (drop skip (key_info_of info))) tie (drop skip vs) (drop skip unp))"
proof -
  let ?ks = "key_info_of info"
  obtain hs n where hs: "payload \<noteq> []" "read_varint payload = Inr (hs, n)" "unat hs \<le> length payload"
      "columns_at payload (unat hs) n (unat hs) vs"
    using assms(1) by (rule columns_at_start)
  from skip_fields_eq [OF hs(4), of skip] obtain hp dp
    where skip: "skip_fields payload (unat hs) skip n (unat hs) = Inr (hp, dp)"
      "columns_at payload (unat hs) hp dp (drop skip vs)" by blast
  have take: "drop skip (take (min (length unp) (length ?ks)) ?ks) = take (length (drop skip unp)) (drop skip ?ks)"
    using assms(2) by (simp add: drop_take min_def)
  have "compare_records_generic lc payload unp info skip tie =
      Inr (lex_cmp (map (column_cmp lc) (take (length (drop skip unp)) (drop skip ?ks))) tie (drop skip vs) (drop skip unp))"
    using hs(1-3) skip(1) compare_fields_eq [OF skip(2), of skip "min (length unp) (length ?ks)" ?ks lc tie] assms(2,3)
    unfolding take [symmetric] by (simp add: compare_records_generic_def Let_def)
  then show ?thesis
    by (simp only: take_map [symmetric] lex_cmp_take_key)
qed

section \<open>The fast paths\<close>

lemma lex_cmp_first:
  "lex_cmp (c # cs) tie (a # as) (b # bs) = (if c a b = Equal then lex_cmp cs tie as bs else c a b)"
  by simp

lemma column_cmp_ints:
  "column_cmp lc k (Numeric (Integer a)) (Numeric (Integer b)) = directed (sort_order k) (ord_cmp (sint a) (sint b))"
  by (simp add: column_cmp_def ord_cmp_def)

lemma integer_serial_iff:
  "(1 \<le> (st :: u64) \<and> st \<le> 6 \<or> st = 8 \<or> st = 9) \<longleftrightarrow> st \<in> {1, 2, 3, 4, 5, 6, 8, 9}"
proof -
  have "1 \<le> st \<and> st \<le> 6 \<Longrightarrow> unat st \<in> {1, 2, 3, 4, 5, 6}"
    unfolding word_le_nat_alt insert_iff empty_iff by simp arith
  then have "1 \<le> st \<and> st \<le> 6 \<Longrightarrow> st \<in> {1, 2, 3, 4, 5, 6}"
    by (auto simp: word_unat_eq_iff)
  then show ?thesis by (auto simp: word_le_nat_alt)
qed

lemma read_integer_value:
  assumes "st \<in> {1, 2, 3, 4, 5, 6, 8, 9}" "read_value_serial_type d st = Inr (v, n)"
  obtains i where "read_integer d (ucast st) = Inr i" "v = Numeric (Integer i)"
  using assms
  by (elim insertE emptyE)
    (auto simp: read_value_serial_type_def read_integer_def int_val_def rbind_eq_Inr_iff)

lemma compare_records_int_eq:
  assumes "record_values payload = Inr (v # vs)" "key_info_of info \<noteq> []" "unp \<noteq> []"
  shows "compare_records_int lc payload unp info tie = compare_records_generic lc payload unp info 0 tie"
proof (cases "length payload < 2")
  case False
  obtain hs n where hs: "read_varint payload = Inr (hs, n)" "unat hs \<le> length payload"
      "columns_at payload (unat hs) n (unat hs) (v # vs)"
    using assms(1) by (rule columns_at_start)
  from hs(3) obtain st br m where st: "read_varint (drop n payload) = Inr (st, br)"
      "serial_try_from st = Inr st" "read_value (drop (unat hs) payload) st = Inr (v, m)"
    by (rule columns_at_Cons)
  have n: "n \<le> length payload" using read_varint_Inr_bounds [OF hs(1)] by simp
  have rd: "read_value_serial_type (drop (unat hs) payload) st = Inr (v, m)"
    using st(2,3) by (simp add: read_value_serial_type_eq)
  obtain k ks where ks: "key_info_of info = k # ks" using assms(2) by (cases "key_info_of info") auto
  obtain r rs where unp: "unp = r # rs" using assms(3) by (cases unp) auto
  have gen: "compare_records_generic lc payload unp info 0 tie =
      Inr (lex_cmp (map (column_cmp lc) (k # ks)) tie (v # vs) (r # rs))"
      "rs \<noteq> [] \<Longrightarrow> compare_records_generic lc payload unp info 1 tie =
        Inr (lex_cmp (map (column_cmp lc) ks) tie vs rs)"
    using compare_records_generic_eq [OF assms(1), of 0 unp info lc tie]
      compare_records_generic_eq [OF assms(1), of 1 unp info lc tie] ks unp by simp_all
  have run: "compare_records_int lc payload unp info tie =
      (if st \<notin> {1, 2, 3, 4, 5, 6, 8, 9} then compare_records_generic lc payload unp info 0 tie
       else rbind (read_integer (drop (unat hs) payload) (ucast st)) (\<lambda>i. case r of
         Numeric (Integer j) \<Rightarrow>
           (let c = directed (sort_order k) (ord_cmp (sint i) (sint j)) in
            if c = Equal then (if length unp > 1 then compare_records_generic lc payload unp info 1 tie else Inr tie)
            else Inr c)
       | _ \<Rightarrow> compare_records_generic lc payload unp info 0 tie))"
    using False hs(1,2) st(1) n unp ks
    unfolding compare_records_int_def integer_serial_iff
    by (simp add: index_from_def peek_unwrap_def del: insert_iff cong: sql_value.case_cong numeric.case_cong)
  show ?thesis
  proof (cases "st \<in> {1, 2, 3, 4, 5, 6, 8, 9}")
    case True
    obtain i where i: "read_integer (drop (unat hs) payload) (ucast st) = Inr i" "v = Numeric (Integer i)"
      using True rd by (rule read_integer_value)
    have run': "compare_records_int lc payload unp info tie = (case r of
         Numeric (Integer j) \<Rightarrow>
           (let c = directed (sort_order k) (ord_cmp (sint i) (sint j)) in
            if c = Equal then (if length unp > 1 then compare_records_generic lc payload unp info 1 tie else Inr tie)
            else Inr c)
       | _ \<Rightarrow> compare_records_generic lc payload unp info 0 tie)"
      unfolding run i(1) rbind_Inr using True by simp
    show ?thesis
    proof (cases "\<exists>j. r = Numeric (Integer j)")
      case True
      then obtain j where j: "r = Numeric (Integer j)" by blast
      show ?thesis
        unfolding run' j using gen i(2) j unp
        by (cases rs) (simp_all add: column_cmp_ints Let_def)
    next
      case False
      then show ?thesis unfolding run' by (simp split: sql_value.split numeric.split)
    qed
  qed (simp add: run)
qed (simp add: compare_records_int_def)

lemma text_serial:
  assumes "st \<ge> 13 \<and> st AND 1 = (1 :: u64)"
  shows "serial_kind st = Inr KText"
proof -
  have "st mod 2 \<noteq> 0" using assms by (simp add: and_one_eq)
  moreover have "12 \<le> st" "st \<notin> {0, 1, 2, 3, 4, 5, 6, 7, 8, 9}"
    using assms by (auto simp: word_le_nat_alt)
  ultimately show ?thesis by (simp add: serial_kind_def)
qed

lemma compare_records_string_eq:
  assumes "record_values payload = Inr (v # vs)" "key_info_of info = k # ks" "collation k = Binary" "unp \<noteq> []"
  shows "compare_records_string lc payload unp info tie = compare_records_generic lc payload unp info 0 tie"
proof (cases "length payload < 2")
  case False
  obtain hs n where hs: "read_varint payload = Inr (hs, n)" "unat hs \<le> length payload"
      "columns_at payload (unat hs) n (unat hs) (v # vs)"
    using assms(1) by (rule columns_at_start)
  from hs(3) obtain st br m where st: "read_varint (drop n payload) = Inr (st, br)"
      "serial_try_from st = Inr st" "read_value (drop (unat hs) payload) st = Inr (v, m)" "serial_size st = Inr m"
    by (rule columns_at_Cons)
  have n: "n \<le> length payload" using read_varint_Inr_bounds [OF hs(1)] by simp
  have m: "unat hs + m \<le> length payload"
    using read_value_serial_type_bounds(1) [of "drop (unat hs) payload" st v m] st(2,3) hs(2)
    by (simp add: read_value_serial_type_eq)
  obtain r rs where unp: "unp = r # rs" using assms(4) by (cases unp) auto
  have gen: "compare_records_generic lc payload unp info 0 tie =
      Inr (lex_cmp (map (column_cmp lc) (k # ks)) tie (v # vs) (r # rs))"
      "rs \<noteq> [] \<Longrightarrow> compare_records_generic lc payload unp info 1 tie =
        Inr (lex_cmp (map (column_cmp lc) ks) tie vs rs)"
    using compare_records_generic_eq [OF assms(1), of 0 unp info lc tie]
      compare_records_generic_eq [OF assms(1), of 1 unp info lc tie] assms(2) unp by simp_all
  show ?thesis
  proof (cases "st \<ge> 13 \<and> st AND 1 = 1")
    case True
    note kind = text_serial [OF True]
    then have m_eq: "m = (unat st - 13) div 2" using st(4) by (simp add: serial_size_def)
    obtain t where t: "v = Text t" using kind st(3) by (auto simp: read_value_def)
    have run: "compare_records_string lc payload unp info tie = (case r of
        Text u \<Rightarrow>
          (let c = directed (sort_order k) (compare_strings lc (collation k) t u) in
           if c = Equal then
             (let l = ord_cmp (length t) (length u) in
              if l \<noteq> Equal then Inr (directed (sort_order k) l)
              else if length unp > 1 then compare_records_generic lc payload unp info 1 tie else Inr tie)
           else Inr c)
      | _ \<Rightarrow> compare_records_generic lc payload unp info 0 tie)"
      using False hs(1,2) st(1-3) n unp m m_eq t assms(2) True
      by (cases r) (simp_all add: compare_records_string_def index_from_def peek_unwrap_def Let_def)
    show ?thesis
    proof (cases "\<exists>u. r = Text u")
      case True
      then obtain u where u: "r = Text u" by blast
      show ?thesis
        unfolding run u using gen t u unp assms(3)
        by (cases rs) (simp_all add: column_cmp_def binary_cmp_def Let_def)
    next
      case False
      then show ?thesis unfolding run by (simp split: sql_value.split)
    qed
  next
    case no: False
    then show ?thesis
      using False hs(1,2) st(1) n by (simp add: compare_records_string_def index_from_def Let_def)
  qed
qed (simp add: compare_records_string_def)

lemma lex_cmp_tie:
  "lex_cmp cs tie as bs = (if lex_cmp cs Equal as bs = Equal then tie else lex_cmp cs Equal as bs)"
  by (induction cs tie as bs rule: lex_cmp.induct) auto

section \<open>Properties\<close>

text \<open>C13. The generic comparison of a stored record with a key compares the decoded columns
  lexicographically under the directions and collations of the index, starting after the skipped
  columns, and returns the tie breaker when one side is a prefix of the other.\<close>

theorem compare_records_generic_lexicographic:
  assumes "record_values payload = Inr vs" "skip \<le> length unp" "skip \<le> length (key_info_of info)"
  shows "compare_records_generic lc payload unp info skip tie =
    Inr (lex_cmp (map (column_cmp lc) (drop skip (key_info_of info))) tie (drop skip vs) (drop skip unp))"
  using assms by (rule compare_records_generic_eq)

theorem compare_records_generic_lexicographic_witness:
  "record_values [3, 1, 1, 5, 6] = Inr [Numeric (Integer 5), Numeric (Integer 6)] \<and>
   compare_records_generic (\<lambda>_. slice_cmp) [3, 1, 1, 5, 6] [Numeric (Integer 5)]
     \<lparr>key_info_of = [\<lparr>sort_order = Asc, collation = Binary, nulls_order = None\<rparr>], has_rowid = True, num_cols = 2,
       is_unique = False\<rparr> 0 Greater = Inr Greater"
proof -
  let ?ix = "\<lparr>key_info_of = [\<lparr>sort_order = Asc, collation = Binary, nulls_order = None\<rparr>], has_rowid = True,
    num_cols = 2, is_unique = False\<rparr>"
  have h: "record_values [3, 1, 1, 5, 6] = Inr [Numeric (Integer 5), Numeric (Integer 6)]" by code_simp
  show ?thesis
    using h compare_records_generic_lexicographic [OF h, of 0 "[Numeric (Integer 5)]" ?ix "\<lambda>_. slice_cmp" Greater]
    by (simp add: column_cmp_def)
qed

text \<open>C14. Whatever comparison function \<^verbatim>\<open>find_compare\<close> selects, it gives the result of the generic
  comparison on every record that decodes to at least one column.\<close>

theorem find_compare_equivalent:
  assumes "record_values payload = Inr vs" "vs \<noteq> []" "key_info_of info \<noteq> []"
    and "find_compare unp info = Inr rc"
  shows "record_compare_run lc rc payload unp info 0 tie = compare_records_generic lc payload unp info 0 tie"
proof -
  obtain v vs' where vs: "vs = v # vs'" using assms(2) by (cases vs) auto
  obtain k ks where ks: "key_info_of info = k # ks" using assms(3) by (cases "key_info_of info") auto
  have "rc = RString \<longrightarrow> unp \<noteq> [] \<and> collation k = Binary" "rc = RInt \<longrightarrow> unp \<noteq> []"
    using assms(4) ks
    by (auto simp: find_compare_def peek_unwrap_def split: if_splits list.splits sql_value.splits numeric.splits)
  then show ?thesis
    using compare_records_int_eq [OF assms(1) [unfolded vs] assms(3)]
      compare_records_string_eq [OF assms(1) [unfolded vs] ks]
    by (cases rc) simp_all
qed

theorem find_compare_equivalent_witness:
  "record_values [2, 15, 0x61] = Inr [Text [0x61]] \<and>
   find_compare [Text [0x62]] (index_info_default\<lparr>key_info_of := [\<lparr>sort_order = Desc, collation = Binary, nulls_order = None\<rparr>]\<rparr>) = Inr RString \<and>
   record_compare_run (\<lambda>_. slice_cmp) RString [2, 15, 0x61] [Text [0x62]]
     (index_info_default\<lparr>key_info_of := [\<lparr>sort_order = Desc, collation = Binary, nulls_order = None\<rparr>]\<rparr>) 0 Equal =
   compare_records_generic (\<lambda>_. slice_cmp) [2, 15, 0x61] [Text [0x62]]
     (index_info_default\<lparr>key_info_of := [\<lparr>sort_order = Desc, collation = Binary, nulls_order = None\<rparr>]\<rparr>) 0 Equal"
proof -
  let ?ix = "index_info_default\<lparr>key_info_of := [\<lparr>sort_order = Desc, collation = Binary, nulls_order = None\<rparr>]\<rparr>"
  have h: "record_values [2, 15, 0x61] = Inr [Text [0x61]]" by code_simp
  have f: "find_compare [Text [0x62]] ?ix = Inr RString"
    by (simp add: find_compare_def peek_unwrap_def index_info_default_def)
  show ?thesis
    using h f find_compare_equivalent [OF h _ _ f, of "\<lambda>_. slice_cmp" Equal] by simp
qed

text \<open>C15. With the tie breaker of a seek operation, the sign of the comparison with a possibly
  shorter key decides the seek condition: a record satisfies \<open>>=\<close> or \<open>>\<close> exactly when it compares as
  greater, \<open><=\<close> or \<open><\<close> exactly when it compares as less, and an exact match when it compares as equal.\<close>

theorem seek_tie_breaker_decides:
  assumes "record_values payload = Inr vs"
    and "cmp = lex_cmp (map (column_cmp lc) (key_info_of info)) Equal vs unp"
  shows "(compare_records_generic lc payload unp info 0 (get_tie_breaker_from_seek_op (GE False)) = Inr Greater
      \<longleftrightarrow> cmp \<noteq> Less)
    \<and> (compare_records_generic lc payload unp info 0 (get_tie_breaker_from_seek_op GT) = Inr Greater \<longleftrightarrow> cmp = Greater)
    \<and> (compare_records_generic lc payload unp info 0 (get_tie_breaker_from_seek_op (LE False)) = Inr Less
      \<longleftrightarrow> cmp \<noteq> Greater)
    \<and> (compare_records_generic lc payload unp info 0 (get_tie_breaker_from_seek_op LT) = Inr Less \<longleftrightarrow> cmp = Less)
    \<and> (compare_records_generic lc payload unp info 0 (get_tie_breaker_from_seek_op (GE True)) = Inr Equal
      \<longleftrightarrow> cmp = Equal)"
proof -
  have "compare_records_generic lc payload unp info 0 tie = Inr (if cmp = Equal then tie else cmp)" for tie
    using compare_records_generic_eq [OF assms(1), of 0 unp info lc tie] 
      lex_cmp_tie [of "map (column_cmp lc) (key_info_of info)" tie vs unp]
    by (simp add: assms(2))
  then show ?thesis by (cases cmp) simp_all
qed

theorem seek_tie_breaker_decides_witness:
  "record_values [3, 1, 1, 5, 6] = Inr [Numeric (Integer 5), Numeric (Integer 6)] \<and>
   (compare_records_generic (\<lambda>_. slice_cmp) [3, 1, 1, 5, 6] [Numeric (Integer 5)] index_info_default 0
      (get_tie_breaker_from_seek_op GT) = Inr Greater \<longleftrightarrow>
    lex_cmp (map (column_cmp (\<lambda>_. slice_cmp)) (key_info_of index_info_default)) Equal
      [Numeric (Integer 5), Numeric (Integer 6)] [Numeric (Integer 5)] = Greater)"
proof -
  have h: "record_values [3, 1, 1, 5, 6] = Inr [Numeric (Integer 5), Numeric (Integer 6)]" by code_simp
  show ?thesis
    using h seek_tie_breaker_decides [OF h refl, of "\<lambda>_. slice_cmp" "[Numeric (Integer 5)]" index_info_default] by blast
qed

text \<open>The text fast path breaks ties by length, so outside the binary collation it is not the
  generic comparison.\<close>

lemma compare_records_string_rtrim:
  "compare_records_string lc [2, 15, 0x61] [Text [0x61, 0x20]]
     (index_info_default\<lparr>key_info_of := [\<lparr>sort_order = Asc, collation = Rtrim, nulls_order = None\<rparr>]\<rparr>) Equal = Inr Less \<and>
   compare_records_generic lc [2, 15, 0x61] [Text [0x61, 0x20]]
     (index_info_default\<lparr>key_info_of := [\<lparr>sort_order = Asc, collation = Rtrim, nulls_order = None\<rparr>]\<rparr>) 0 Equal = Inr Equal"
  by code_simp

end
