(* ===== verification/Page_Format.thy ===== *)
theory Page_Format
  imports Records
begin

text \<open>
  The fixed parts of the database file (\<^verbatim>\<open>core/storage/sqlite3_ondisk.rs\<close>): the page size and cache
  size fields with their special encodings, the file format version, the 100-byte database header,
  page types, and the pointer map of auto-vacuum databases (\<^verbatim>\<open>core/storage/pager.rs\<close>).
\<close>

section \<open>Header fields\<close>

definition count_ones :: "u32 \<Rightarrow> nat" where
  "count_ones w = length (filter (bit w) [0..<32])"

text \<open>\<^verbatim>\<open>PageSize\<close> is the raw 16-bit field, where 1 stands for 65536.\<close>

definition page_size_new :: "u32 \<Rightarrow> u16 option" where
  "page_size_new sz =
     (if sz < 512 \<or> sz > 65536 then None
      else if count_ones sz \<noteq> 1 then None
      else if sz = 65536 then Some 1
      else Some (ucast sz))"

definition page_size_new_from_header_u16 :: "u16 \<Rightarrow> u16 res" where
  "page_size_new_from_header_u16 v =
     (if v = 1 then Inr 1
      else (case page_size_new (ucast v) of None \<Rightarrow> Inl Corrupt | Some p \<Rightarrow> Inr p))"

definition page_size_get :: "u16 \<Rightarrow> u32" where
  "page_size_get raw = (if raw = 1 then 65536 else ucast raw)"

definition page_size_default :: u16 where
  "page_size_default = 4096"

definition cache_size_new :: "i32 \<Rightarrow> i32" where
  "cache_size_new sz = (if sz = -2000 then 0 else sz)"

definition cache_size_get :: "i32 \<Rightarrow> i32" where
  "cache_size_get raw = (if raw = 0 then -2000 else raw)"

datatype version = Legacy | Wal | Mvcc

definition version_try_from :: "u8 \<Rightarrow> u8 + version" where
  "version_try_from v =
     (if v = 1 then Inr Legacy else if v = 2 then Inr Wal else if v = 255 then Inr Mvcc else Inl v)"

fun version_to_u8 :: "version \<Rightarrow> u8" where
  "version_to_u8 Legacy = 1"
| "version_to_u8 Wal = 2"
| "version_to_u8 Mvcc = 255"

definition text_encoding_is_utf8 :: "u32 \<Rightarrow> bool" where
  "text_encoding_is_utf8 e \<longleftrightarrow> e = 1 \<or> e = 0"

section \<open>The database header\<close>

text \<open>The packed struct, field by field.\<close>

record database_header =
  magic :: bytes
  hdr_page_size :: u16
  write_version :: u8
  read_version :: u8
  reserved_space :: u8
  max_embed_frac :: u8
  min_embed_frac :: u8
  leaf_frac :: u8
  change_counter :: u32
  database_size :: u32
  freelist_trunk_page :: u32
  freelist_pages :: u32
  schema_cookie :: u32
  schema_format :: u32
  default_page_cache_size :: i32
  vacuum_mode_largest_root_page :: u32
  text_encoding :: u32
  user_version :: i32
  incremental_vacuum_enabled :: u32
  application_id :: i32
  padding :: bytes
  version_valid_for :: u32
  version_number :: u32

definition magic_bytes :: bytes where
  "magic_bytes = [0x53, 0x51, 0x4C, 0x69, 0x74, 0x65, 0x20, 0x66, 0x6F, 0x72, 0x6D, 0x61, 0x74, 0x20, 0x33, 0]"

definition database_header_default :: database_header where
  "database_header_default =
     \<lparr>magic = magic_bytes, hdr_page_size = page_size_default, write_version = version_to_u8 Wal,
      read_version = version_to_u8 Wal, reserved_space = 0, max_embed_frac = 64, min_embed_frac = 32,
      leaf_frac = 32, change_counter = 1, database_size = 0, freelist_trunk_page = 0,
      freelist_pages = 0, schema_cookie = 0, schema_format = 4, default_page_cache_size = -2000,
      vacuum_mode_largest_root_page = 0, text_encoding = 1, user_version = 0,
      incremental_vacuum_enabled = 0, application_id = 0, padding = replicate 20 0,
      version_valid_for = 3047000, version_number = 3047000\<rparr>"

definition usable_space :: "database_header \<Rightarrow> usize res" where
  "usable_space h =
     (if unat (reserved_space h) \<le> unat (page_size_get (hdr_page_size h))
      then Inr (unat (page_size_get (hdr_page_size h)) - unat (reserved_space h)) else Inl Panic)"

section \<open>Pages\<close>

datatype page_type = IndexInterior | TableInterior | IndexLeaf | TableLeaf

definition page_type_try_from :: "u8 \<Rightarrow> page_type res" where
  "page_type_try_from v =
     (if v = 2 then Inr IndexInterior else if v = 5 then Inr TableInterior
      else if v = 10 then Inr IndexLeaf else if v = 13 then Inr TableLeaf else Inl Corrupt)"

fun page_type_to_u8 :: "page_type \<Rightarrow> u8" where
  "page_type_to_u8 IndexInterior = 2"
| "page_type_to_u8 TableInterior = 5"
| "page_type_to_u8 IndexLeaf = 10"
| "page_type_to_u8 TableLeaf = 13"

fun page_type_is_table :: "page_type \<Rightarrow> bool" where
  "page_type_is_table IndexInterior = False"
| "page_type_is_table IndexLeaf = False"
| "page_type_is_table TableInterior = True"
| "page_type_is_table TableLeaf = True"

section \<open>Pointer map\<close>

datatype ptrmap_type = RootPage | FreePage | Overflow1 | Overflow2 | BTreeNode

fun ptrmap_type_to_u8 :: "ptrmap_type \<Rightarrow> u8" where
  "ptrmap_type_to_u8 RootPage = 1"
| "ptrmap_type_to_u8 FreePage = 2"
| "ptrmap_type_to_u8 Overflow1 = 3"
| "ptrmap_type_to_u8 Overflow2 = 4"
| "ptrmap_type_to_u8 BTreeNode = 5"

definition ptrmap_type_from_u8 :: "u8 \<Rightarrow> ptrmap_type option" where
  "ptrmap_type_from_u8 v =
     (if v = 1 then Some RootPage else if v = 2 then Some FreePage else if v = 3 then Some Overflow1
      else if v = 4 then Some Overflow2 else if v = 5 then Some BTreeNode else None)"

record ptrmap_entry =
  entry_type :: ptrmap_type
  parent_page_no :: u32

definition ptrmap_serialize :: "ptrmap_entry \<Rightarrow> bytes \<Rightarrow> bytes res" where
  "ptrmap_serialize e buffer =
     (if length buffer < 5 then Inl InternalError
      else Inr (ptrmap_type_to_u8 (entry_type e) # be_bytes 4 (parent_page_no e) @ drop 5 buffer))"

definition ptrmap_deserialize :: "bytes \<Rightarrow> ptrmap_entry option" where
  "ptrmap_deserialize buffer =
     (if length buffer < 5 then None
      else map_option (\<lambda>t. \<lparr>entry_type = t, parent_page_no = from_be (slice buffer 1 5)\<rparr>)
             (ptrmap_type_from_u8 (buffer ! 0)))"

definition entries_per_ptrmap_page :: "usize \<Rightarrow> usize res" where
  "entries_per_ptrmap_page page_size = (if page_size < 512 then Inl Panic else Inr (page_size div 5))"

definition ptrmap_page_cycle_length :: "usize \<Rightarrow> usize res" where
  "ptrmap_page_cycle_length page_size = (if page_size < 512 then Inl Panic else Inr (page_size div 5 + 1))"

definition get_ptrmap_page_no_for_db_page :: "nat \<Rightarrow> usize \<Rightarrow> nat res" where
  "get_ptrmap_page_no_for_db_page db_page_no page_size =
     rbind (ptrmap_page_cycle_length page_size) (\<lambda>group_size.
       if group_size = 0 then Inl Panic
       else if db_page_no < 2 then Inl Panic
       else Inr ((db_page_no - 2) div group_size * group_size + 2))"

definition is_ptrmap_page :: "nat \<Rightarrow> usize \<Rightarrow> bool res" where
  "is_ptrmap_page db_page_no page_size =
     (if db_page_no = 1 then Inr False
      else if db_page_no = 2 then Inr True
      else rbind (get_ptrmap_page_no_for_db_page db_page_no page_size) (\<lambda>p. Inr (p = db_page_no)))"

definition get_ptrmap_offset_in_page :: "nat \<Rightarrow> nat \<Rightarrow> usize \<Rightarrow> usize res" where
  "get_ptrmap_offset_in_page db_page_no ptrmap_page_no page_size =
     rbind (entries_per_ptrmap_page page_size) (\<lambda>n.
       if 2 ^ 32 \<le> ptrmap_page_no + n then Inl Panic
       else if db_page_no < ptrmap_page_no + 1 \<or> db_page_no > ptrmap_page_no + n then Inl InternalError
       else rbind (is_ptrmap_page db_page_no page_size) (\<lambda>b.
         if b then Inl InternalError
         else Inr ((db_page_no - (ptrmap_page_no + 1)) * 5)))"

section \<open>Page sizes\<close>

lemma count_ones_card: "count_ones w = card {i. i < 32 \<and> bit w i}"
proof -
  have "count_ones w = card (set (filter (bit w) [0..<32]))"
    unfolding count_ones_def by (rule distinct_card [symmetric]) simp
  also have "set (filter (bit w) [0..<32]) = {i. i < 32 \<and> bit w i}" by auto
  finally show ?thesis .
qed

lemma count_ones_1_iff: "count_ones w = 1 \<longleftrightarrow> (\<exists>k < 32. w = 2 ^ k)"
proof
  assume "count_ones w = 1"
  then obtain k where k: "{i. i < 32 \<and> bit w i} = {k}"
    unfolding count_ones_card by (rule card_1_singletonE)
  have "w = 2 ^ k"
  proof (rule bit_word_eqI)
    fix n assume n: "n < LENGTH(32)"
    then have "bit w n \<longleftrightarrow> n \<in> {i. i < 32 \<and> bit w i}" by simp
    then show "bit w n = bit (2 ^ k :: u32) n" unfolding k using n by (auto simp: bit_simps)
  qed
  moreover have "k \<in> {i. i < 32 \<and> bit w i}" unfolding k by simp
  ultimately show "\<exists>k < 32. w = 2 ^ k" by blast
next
  assume "\<exists>k < 32. w = 2 ^ k"
  then obtain k where k: "k < 32" "w = 2 ^ k" by blast
  then have "{i. i < 32 \<and> bit w i} = {k}" by (auto simp: bit_simps)
  then show "count_ones w = 1" by (simp add: count_ones_card)
qed

lemma unat_exp: "k < LENGTH('a) \<Longrightarrow> unat (2 ^ k :: 'a::len word) = 2 ^ k"
proof -
  assume "k < LENGTH('a)"
  then have "(2 :: nat) ^ k < 2 ^ LENGTH('a)" by simp
  then have "unat (of_nat (2 ^ k) :: 'a word) = 2 ^ k"
    unfolding unat_of_nat by (rule mod_less)
  then show ?thesis by simp
qed

lemma page_size_new_Some:
  assumes "page_size_new sz = Some p"
  obtains k where "9 \<le> k" "k \<le> 16" "sz = 2 ^ k" "p = (if k = 16 then 1 else 2 ^ k)"
proof -
  from assms have b: "\<not> sz < 512" "\<not> sz > 65536" "count_ones sz = 1"
      "p = (if sz = 65536 then 1 else ucast sz)"
    by (auto simp: page_size_new_def split: if_splits)
  from b(3) obtain k where k: "k < 32" "sz = 2 ^ k" using count_ones_1_iff by blast
  have u: "unat sz = 2 ^ k" using k by (simp add: unat_exp)
  have "2 ^ 9 \<le> unat sz" "unat sz \<le> 2 ^ 16" using b(1,2) by (simp_all add: word_less_nat_alt)
  then have kb: "9 \<le> k" "k \<le> 16"
    unfolding u by (simp_all only: power_increasing_iff one_less_numeral_iff semiring_norm)
  then have "k = 9 \<or> k = 10 \<or> k = 11 \<or> k = 12 \<or> k = 13 \<or> k = 14 \<or> k = 15 \<or> k = 16" by arith
  then have "p = (if k = 16 then 1 else 2 ^ k)" using b(4) k(2) by (elim disjE) simp_all
  with kb k(2) show thesis by (rule that)
qed

lemma page_size_new_power:
  assumes "9 \<le> k" "k \<le> 16"
  shows "page_size_new (2 ^ k) = Some (if k = 16 then 1 else 2 ^ k)"
    and "page_size_get (if k = 16 then 1 else 2 ^ k) = 2 ^ k"
proof -
  have ones: "count_ones (2 ^ k) = 1" using assms by (intro count_ones_1_iff [THEN iffD2] exI [of _ k]) simp
  have "k = 9 \<or> k = 10 \<or> k = 11 \<or> k = 12 \<or> k = 13 \<or> k = 14 \<or> k = 15 \<or> k = 16"
    using assms by arith
  then show "page_size_new (2 ^ k) = Some (if k = 16 then 1 else 2 ^ k)"
      "page_size_get (if k = 16 then 1 else 2 ^ k) = 2 ^ k"
    using ones by (elim disjE; simp add: page_size_new_def page_size_get_def)+
qed

lemma page_size_header_power:
  assumes "9 \<le> k" "k \<le> 16"
  shows "page_size_new_from_header_u16 (if k = 16 then 1 else 2 ^ k) = Inr (if k = 16 then 1 else 2 ^ k)"
proof -
  have "k = 9 \<or> k = 10 \<or> k = 11 \<or> k = 12 \<or> k = 13 \<or> k = 14 \<or> k = 15 \<or> k = 16"
    using assms by arith
  then show ?thesis
    using page_size_new_power(1) [OF assms]
    by (elim disjE) (simp_all add: page_size_new_from_header_u16_def)
qed

lemma page_size_header_Inr:
  assumes "page_size_new_from_header_u16 v = Inr p"
  obtains k where "9 \<le> k" "k \<le> 16" "page_size_get p = 2 ^ k" "p = v"
proof (cases "v = 1")
  case True
  then show thesis using assms that [of 16] by (simp add: page_size_new_from_header_u16_def page_size_get_def)
next
  case False
  with assms have "page_size_new (ucast v) = Some p"
    by (simp add: page_size_new_from_header_u16_def split: option.splits)
  then obtain k where k: "9 \<le> k" "k \<le> 16" "ucast v = (2 ^ k :: u32)" "p = (if k = 16 then 1 else 2 ^ k)"
    by (rule page_size_new_Some)
  have v: "unat v < 2 ^ 16" using unsigned_less [of v, where ?'a = nat] by simp
  then have "unat v = unat (ucast v :: u32)" by (simp add: unsigned_ucast_eq take_bit_nat_eq_self)
  then have "unat v = 2 ^ k" using k(1-3) by (simp add: unat_exp)
  moreover from this v have "k < 16" by (metis nat_power_less_imp_less zero_less_numeral)
  ultimately have "k < 16" "unat v = 2 ^ k" by simp_all
  then have "p = v"
    using k(4) \<open>unat v = 2 ^ k\<close> by (simp add: word_unat_eq_iff unat_exp)
  then show thesis using that [of k] k page_size_new_power(2) [of k] by simp
qed

lemma page_size_new_Some_facts:
  assumes "page_size_new sz = Some p"
  shows "\<exists>k. 9 \<le> k \<and> k \<le> 16 \<and> sz = 2 ^ k \<and> p = (if k = 16 then 1 else 2 ^ k)"
    and "page_size_get p = sz" and "page_size_new_from_header_u16 p = Inr p"
proof -
  obtain k where k: "9 \<le> k" "k \<le> 16" "sz = 2 ^ k" "p = (if k = 16 then 1 else 2 ^ k)"
    using assms by (rule page_size_new_Some)
  then show "\<exists>k. 9 \<le> k \<and> k \<le> 16 \<and> sz = 2 ^ k \<and> p = (if k = 16 then 1 else 2 ^ k)" by blast
  show "page_size_get p = sz" unfolding k(3,4) by (rule page_size_new_power(2) [OF k(1,2)])
  show "page_size_new_from_header_u16 p = Inr p" unfolding k(4) by (rule page_size_header_power [OF k(1,2)])
qed

lemma usable_space_ok:
  assumes "page_size_new_from_header_u16 (hdr_page_size h) = Inr p"
  shows "\<exists>n. usable_space h = Inr n \<and> 257 \<le> n"
proof -
  from assms obtain k where k: "9 \<le> k" "k \<le> 16" "page_size_get (hdr_page_size h) = 2 ^ k"
    by (rule page_size_header_Inr) blast
  then have "unat (page_size_get (hdr_page_size h)) = 2 ^ k" by (simp add: unat_exp)
  moreover have "(2 :: nat) ^ 9 \<le> 2 ^ k" using k(1) by (intro power_increasing) simp_all
  moreover have "unat (reserved_space h) < 256"
    using unsigned_less [of "reserved_space h", where ?'a = nat] by simp
  ultimately show ?thesis by (simp add: usable_space_def)
qed

section \<open>Pointer map arithmetic\<close>

lemma ptrmap_entry_roundtrip:
  "5 \<le> length buffer \<Longrightarrow>
   \<exists>b. ptrmap_serialize e buffer = Inr b \<and> length b = length buffer \<and> ptrmap_deserialize b = Some e"
  by (cases e; cases "entry_type e")
    (auto simp: ptrmap_serialize_def ptrmap_deserialize_def ptrmap_type_from_u8_def slice_def)

lemma ptrmap_page_no:
  assumes "512 \<le> ps" "2 \<le> n"
  obtains q r where "n = 2 + q * (ps div 5 + 1) + r" "r \<le> ps div 5"
    "get_ptrmap_page_no_for_db_page n ps = Inr (2 + q * (ps div 5 + 1))"
    "is_ptrmap_page n ps = Inr (r = 0)"
proof -
  let ?g = "ps div 5 + 1"
  define q r where "q = (n - 2) div ?g" and "r = (n - 2) mod ?g"
  have n: "n = 2 + q * ?g + r" using assms(2) div_mult_mod_eq [of "n - 2" ?g] unfolding q_def r_def by linarith
  have r: "r \<le> ps div 5" unfolding r_def by (simp add: less_Suc_eq_le [symmetric])
  have p: "get_ptrmap_page_no_for_db_page n ps = Inr (2 + q * ?g)"
    using assms by (simp add: get_ptrmap_page_no_for_db_page_def ptrmap_page_cycle_length_def q_def)
  have "is_ptrmap_page n ps = Inr (r = 0)"
    using p n assms(2) by (auto simp: is_ptrmap_page_def)
  with n r p show thesis by (rule that)
qed

section \<open>Properties\<close>

text \<open>C38. The page sizes accepted from a user or from a header are exactly the powers of two from
  512 to 65536; the stored 16-bit form reads back to the size and is accepted again.
  With an accepted size, whatever the reserved space, the usable space does not underflow and is at least 257 bytes.\<close>

theorem page_size_valid:
  "(page_size_new sz = Some p \<longleftrightarrow> (\<exists>k. 9 \<le> k \<and> k \<le> 16 \<and> sz = 2 ^ k \<and> p = (if k = 16 then 1 else 2 ^ k)))
   \<and> (page_size_new sz = Some p \<longrightarrow> page_size_get p = sz \<and> page_size_new_from_header_u16 p = Inr p)
   \<and> (page_size_new_from_header_u16 v = Inr p \<longrightarrow> p = v \<and> page_size_new (page_size_get p) = Some p)
   \<and> (page_size_new_from_header_u16 (hdr_page_size h) = Inr q \<longrightarrow> (\<exists>n. usable_space h = Inr n \<and> 257 \<le> n))"
proof (intro conjI impI)
  show "page_size_new sz = Some p \<longleftrightarrow> (\<exists>k. 9 \<le> k \<and> k \<le> 16 \<and> sz = 2 ^ k \<and> p = (if k = 16 then 1 else 2 ^ k))"
    using page_size_new_Some_facts(1) page_size_new_power(1) by blast
  show "page_size_get p = sz" "page_size_new_from_header_u16 p = Inr p" if "page_size_new sz = Some p"
    using that by (rule page_size_new_Some_facts)+
  show "\<exists>n. usable_space h = Inr n \<and> 257 \<le> n" if "page_size_new_from_header_u16 (hdr_page_size h) = Inr q"
    using that by (rule usable_space_ok)
  show "p = v" if "page_size_new_from_header_u16 v = Inr p"
    using that by (rule page_size_header_Inr)
  show "page_size_new (page_size_get p) = Some p" if h: "page_size_new_from_header_u16 v = Inr p"
  proof (cases "v = 1")
    case True
    with h show ?thesis using page_size_new_power(1) [of 16] by (simp add: page_size_new_from_header_u16_def page_size_get_def)
  next
    case False
    with h have n: "page_size_new (ucast v) = Some p"
      by (simp add: page_size_new_from_header_u16_def split: option.splits)
    then have "page_size_get p = ucast v" by (rule page_size_new_Some_facts(2))
    with n show ?thesis by simp
  qed
qed

theorem page_size_valid_witness:
  "page_size_new 65536 = Some 1 \<and> page_size_get 1 = 65536 \<and> page_size_new_from_header_u16 1 = Inr 1 \<and>
   (\<exists>n. usable_space database_header_default = Inr n \<and> 257 \<le> n)"
proof -
  have h: "page_size_new 65536 = Some 1" using page_size_new_power(1) [of 16] by simp
  have d: "page_size_new_from_header_u16 (hdr_page_size database_header_default) = Inr 4096"
    using page_size_header_power [of 12] by (simp add: database_header_default_def page_size_default_def)
  show ?thesis using h d page_size_valid [of 65536 1 1 database_header_default 4096] by blast
qed

text \<open>C40. Every page that is not itself a pointer map page has its pointer map entry on the
  pointer map page computed for it, inside that page, and no two pages share an entry.\<close>

theorem ptrmap_entries_disjoint:
  assumes "512 \<le> ps" "3 \<le> n" "n + ps div 5 < 2 ^ 32" "is_ptrmap_page n ps = Inr False"
  shows "\<exists>p off. get_ptrmap_page_no_for_db_page n ps = Inr p \<and> is_ptrmap_page p ps = Inr True \<and>
    get_ptrmap_offset_in_page n p ps = Inr off \<and> off + 5 \<le> ps \<and>
    (\<forall>m off'. 3 \<le> m \<longrightarrow> get_ptrmap_page_no_for_db_page m ps = Inr p \<longrightarrow>
       get_ptrmap_offset_in_page m p ps = Inr off' \<longrightarrow> m \<noteq> n \<longrightarrow> off + 5 \<le> off' \<or> off' + 5 \<le> off)"
proof -
  let ?g = "ps div 5 + 1"
  obtain q r where n: "n = 2 + q * ?g + r" "r \<le> ps div 5"
      "get_ptrmap_page_no_for_db_page n ps = Inr (2 + q * ?g)" "is_ptrmap_page n ps = Inr (r = 0)"
    using ptrmap_page_no [of ps n] assms(1,2) by auto
  let ?p = "2 + q * ?g"
  have r: "0 < r" using n(4) assms(4) by simp
  have "(?p - 2) div ?g * ?g + 2 = ?p" by (simp only: diff_add_inverse nonzero_mult_div_cancel_right)
  then have p: "is_ptrmap_page ?p ps = Inr True"
    using assms(1)
    by (simp only: is_ptrmap_page_def get_ptrmap_page_no_for_db_page_def ptrmap_page_cycle_length_def rbind_Inr) simp
  have off: "get_ptrmap_offset_in_page n ?p ps = Inr ((r - 1) * 5)"
    using assms n r by (simp add: get_ptrmap_offset_in_page_def entries_per_ptrmap_page_def)
  have "(r - 1) * 5 + 5 = r * 5" using r by (cases r) simp_all
  also have "\<dots> \<le> ps div 5 * 5" using n(2) by (rule mult_le_mono1)
  also have "\<dots> \<le> ps" by simp
  finally have bound: "(r - 1) * 5 + 5 \<le> ps" .
  have "(r - 1) * 5 + 5 \<le> off' \<or> off' + 5 \<le> (r - 1) * 5"
    if "get_ptrmap_offset_in_page m ?p ps = Inr off'" "m \<noteq> n" for m off'
  proof -
    from that(1) have m: "?p + 1 \<le> m" "off' = (m - (?p + 1)) * 5"
      by (auto simp: get_ptrmap_offset_in_page_def rbind_eq_Inr_iff split: if_splits)
    define k where "k = m - (?p + 1)"
    have "m = ?p + 1 + k" using m(1) unfolding k_def by (rule le_add_diff_inverse [symmetric])
    then have "k \<noteq> r - 1" using that(2) n(1) r by auto
    moreover have "off' = k * 5" using m(2) k_def by simp
    ultimately show ?thesis by arith
  qed
  with n(3) p off bound show ?thesis by blast
qed

theorem ptrmap_entries_disjoint_witness:
  "is_ptrmap_page 4 512 = Inr False \<and>
   (\<exists>p off. get_ptrmap_page_no_for_db_page 4 512 = Inr p \<and> is_ptrmap_page p 512 = Inr True \<and>
     get_ptrmap_offset_in_page 4 p 512 = Inr off \<and> off + 5 \<le> 512)"
proof -
  have h: "is_ptrmap_page 4 512 = Inr False"
    by (simp add: is_ptrmap_page_def get_ptrmap_page_no_for_db_page_def ptrmap_page_cycle_length_def)
  have "(512 :: nat) \<le> 512" "(3 :: nat) \<le> 4" "(4 :: nat) + 512 div 5 < 2 ^ 32" by simp_all
  from ptrmap_entries_disjoint [OF this h] h show ?thesis by blast
qed

end
