(* ===== verification/Freelist.thy ===== *)
theory Freelist
  imports Page_Format
begin

text \<open>
  Page allocation (\<^verbatim>\<open>Pager::free_page\<close> and \<^verbatim>\<open>Pager::allocate_page\<close> of \<^verbatim>\<open>core/storage/pager.rs\<close>): the
  freelist threaded through the unused pages of the file, as trunk pages that hold the numbers of
  leaf pages. The state machines of the two functions suspend only to wait for page reads, so the
  model runs them to completion on a store of pages. Auto-vacuum is off (no pointer map pages are
  created), the page cache always has room, and marking pages dirty succeeds.

  The lemmas show that the chain of trunk pages represents a set of pages disjoint from the pages in
  use, that freeing adds a page to it and allocating takes one from it or extends the file, and that
  neither disturbs a page in use. The contract a client needs is the locale \<open>page_allocator\<close>.
\<close>

section \<open>Words in pages\<close>

text \<open>\<^verbatim>\<open>read_u32_no_offset\<close> and \<^verbatim>\<open>write_u32_no_offset\<close>; page numbers and counts are read as numbers.\<close>

definition read_u32 :: "bytes \<Rightarrow> usize \<Rightarrow> nat" where
  "read_u32 buf pos = unat (from_be (slice buf pos (pos + 4)) :: u32)"

definition write_u32 :: "bytes \<Rightarrow> usize \<Rightarrow> nat \<Rightarrow> bytes" where
  "write_u32 buf pos v = take pos buf @ be_bytes 4 (of_nat v :: u32) @ drop (pos + 4) buf"

text \<open>\<^verbatim>\<open>copy_within(a..b, dst)\<close>.\<close>

definition copy_within :: "bytes \<Rightarrow> usize \<Rightarrow> usize \<Rightarrow> usize \<Rightarrow> bytes" where
  "copy_within buf a b dst = take dst buf @ slice buf a b @ drop (dst + (b - a)) buf"

section \<open>The pager\<close>

datatype allocate_page_state = AllocStart | AllocateNewPage nat

record pager =
  pages :: "nat \<Rightarrow> bytes"
  db_size :: nat
  trunk :: nat
  free_count :: nat
  usable :: usize
  page_size :: usize
  max_page_count :: nat
  auto_vacuum_full :: bool
  alloc_state :: allocate_page_state

definition pending_byte_page_id :: "pager \<Rightarrow> nat option" where
  "pending_byte_page_id p = (if page_size p = 0 then None else Some (0x40000000 div page_size p + 1))"

definition set_max_page_count :: "pager \<Rightarrow> nat \<Rightarrow> nat \<times> pager" where
  "set_max_page_count p new_max =
     (let clamped_max = max new_max (db_size p) in (clamped_max, p\<lparr>max_page_count := clamped_max\<rparr>))"

definition free_page :: "pager \<Rightarrow> nat \<Rightarrow> pager res" where
  "free_page p page_id =
     (if page_id < 2 \<or> page_id > db_size p then Inl Corrupt
      else
        let p = p\<lparr>free_count := free_count p + 1\<rparr>;
            new_trunk = p\<lparr>pages := (pages p)(page_id := write_u32 (write_u32 (pages p page_id) 0 (trunk p)) 4 0),
                          trunk := page_id\<rparr>
        in if trunk p \<noteq> 0 then
             (let buf = pages p (trunk p);
                  number_of_leaf_pages = read_u32 buf 4;
                  max_free_list_entries = usable p div 4 - 2 in
              if number_of_leaf_pages < max_free_list_entries then
                Inr (p\<lparr>pages := (pages p)(trunk p :=
                  write_u32 (write_u32 buf 4 (number_of_leaf_pages + 1)) (8 + number_of_leaf_pages * 4) page_id)\<rparr>)
              else Inr new_trunk)
           else Inr new_trunk)"

text \<open>
  The arms of \<^verbatim>\<open>allocate_page\<close>. A result is returned with the pager, because the error exit of
  \<^verbatim>\<open>AllocateNewPage\<close> leaves the state machine in that state. \<open>fresh\<close> is the content of a newly
  allocated page buffer, and \<open>present\<close> says whether the cache already holds the next pointer map
  page. The header counter is decremented with a panic on underflow, and so does \<^verbatim>\<open>copy_within\<close> for
  a leaf count that does not fit the page.
\<close>

definition allocate_new_page :: "bytes \<Rightarrow> nat \<Rightarrow> pager \<Rightarrow> nat res \<times> pager" where
  "allocate_new_page fresh current_db_size p =
     (let new_db_size = current_db_size + 1;
          p = p\<lparr>alloc_state := AllocateNewPage current_db_size\<rparr>;
          (pgs, new_db_size) =
            (if Some new_db_size = pending_byte_page_id p then ((pages p)(new_db_size := fresh), new_db_size + 1)
             else (pages p, new_db_size));
          p = p\<lparr>pages := pgs\<rparr>
      in if new_db_size > max_page_count p then (Inl DatabaseFull, p)
         else (Inr new_db_size,
               p\<lparr>pages := (pages p)(new_db_size := fresh), db_size := new_db_size, alloc_state := AllocStart\<rparr>))"

definition allocate_ptrmap_page :: "bytes \<Rightarrow> bool \<Rightarrow> pager \<Rightarrow> (nat \<times> pager) res" where
  "allocate_ptrmap_page fresh present p =
     (if auto_vacuum_full p then
        rbind (is_ptrmap_page (db_size p + 1) (page_size p)) (\<lambda>b. Inr
          (if b then
             (db_size p + 1, if present then p else p\<lparr>pages := (pages p)(db_size p + 1 := fresh)\<rparr>)
           else (db_size p, p)))
      else Inr (db_size p, p))"

definition reuse_freelist_leaf :: "pager \<Rightarrow> nat \<Rightarrow> nat \<Rightarrow> nat res \<times> pager" where
  "reuse_freelist_leaf p leaf number_of_freelist_leaves =
     (let t = trunk p;
          p = p\<lparr>pages := (pages p)(leaf := replicate (length (pages p leaf)) 0)\<rparr>;
          remaining = number_of_freelist_leaves - 1 in
      if 12 + remaining * 4 > length (pages p t) then (Inl Panic, p)
      else let p = p\<lparr>pages := (pages p)(t := write_u32 (copy_within (pages p t) 12 (12 + remaining * 4) 8) 4 remaining)\<rparr>
           in if free_count p = 0 then (Inl Panic, p)
              else (Inr leaf, p\<lparr>free_count := free_count p - 1\<rparr>))"

definition reuse_trunk :: "pager \<Rightarrow> nat \<Rightarrow> nat res \<times> pager" where
  "reuse_trunk p next_trunk_page_id =
     (let t = trunk p; p = p\<lparr>trunk := next_trunk_page_id\<rparr> in
      if free_count p = 0 then (Inl Panic, p)
      else (Inr t, p\<lparr>free_count := free_count p - 1, pages := (pages p)(t := replicate (length (pages p t)) 0)\<rparr>))"

definition allocate_page :: "bytes \<Rightarrow> bool \<Rightarrow> pager \<Rightarrow> nat res \<times> pager" where
  "allocate_page fresh present p =
     (case alloc_state p of
        AllocateNewPage current_db_size \<Rightarrow> allocate_new_page fresh current_db_size p
      | AllocStart \<Rightarrow>
         (case allocate_ptrmap_page fresh present p of
            Inl e \<Rightarrow> (Inl e, p)
          | Inr (new_db_size, p) \<Rightarrow>
              if trunk p = 0 then allocate_new_page fresh new_db_size p
              else
                let next_trunk_page_id = read_u32 (pages p (trunk p)) 0;
                    number_of_freelist_leaves = read_u32 (pages p (trunk p)) 4
                in if number_of_freelist_leaves \<noteq> 0
                   then reuse_freelist_leaf p (read_u32 (pages p (trunk p)) 8) number_of_freelist_leaves
                   else reuse_trunk p next_trunk_page_id))"

text \<open>\<^verbatim>\<open>allocate_overflow_page\<close> zeroes the page it obtains.\<close>

definition allocate_overflow_page :: "bytes \<Rightarrow> bool \<Rightarrow> pager \<Rightarrow> nat res \<times> pager" where
  "allocate_overflow_page fresh present p =
     (case allocate_page fresh present p of
        (Inl e, p) \<Rightarrow> (Inl e, p)
      | (Inr n, p) \<Rightarrow> (Inr n, p\<lparr>pages := (pages p)(n := replicate (length (pages p n)) 0)\<rparr>))"

text \<open>A client writes into a page it holds through the page buffer.\<close>

definition put_page :: "pager \<Rightarrow> nat \<Rightarrow> bytes \<Rightarrow> pager" where
  "put_page p n b = p\<lparr>pages := (pages p)(n := b)\<rparr>"

definition reset_internal_states :: "pager \<Rightarrow> pager" where
  "reset_internal_states p = p\<lparr>alloc_state := AllocStart\<rparr>"

section \<open>Word access lemmas\<close>

lemma length_write_u32 [simp]: "pos + 4 \<le> length buf \<Longrightarrow> length (write_u32 buf pos v) = length buf"
  by (simp add: write_u32_def)

lemma read_write_u32_same:
  assumes "pos + 4 \<le> length buf" "v < 2 ^ 32"
  shows "read_u32 (write_u32 buf pos v) pos = v"
proof -
  have "slice (write_u32 buf pos v) pos (pos + 4) = be_bytes 4 (of_nat v :: u32)"
    using assms(1) by (simp add: write_u32_def slice_def)
  then show ?thesis
    using assms(2) by (simp add: read_u32_def unat_of_nat take_bit_nat_eq_self)
qed

lemma read_write_u32_other:
  assumes "pos + 4 \<le> length buf" "q + 4 \<le> pos \<or> pos + 4 \<le> q"
  shows "read_u32 (write_u32 buf pos v) q = read_u32 buf q"
proof -
  have "slice (write_u32 buf pos v) q (q + 4) = slice buf q (q + 4)"
    using assms by (auto simp: write_u32_def slice_def drop_take min_def)
  then show ?thesis by (simp add: read_u32_def)
qed

lemma read_copy_within:
  assumes "a + n \<le> length buf" "dst + 4 \<le> a" "dst + n \<le> length buf"
  shows "q + 4 \<le> dst \<Longrightarrow> read_u32 (copy_within buf a (a + n) dst) q = read_u32 buf q"
    and "i + 4 \<le> n \<Longrightarrow> read_u32 (copy_within buf a (a + n) dst) (dst + i) = read_u32 buf (a + i)"
proof -
  show "read_u32 (copy_within buf a (a + n) dst) q = read_u32 buf q" if "q + 4 \<le> dst"
  proof -
    have "slice (copy_within buf a (a + n) dst) q (q + 4) = slice buf q (q + 4)"
      using assms that by (auto simp: copy_within_def slice_def drop_take min_def)
    then show ?thesis by (simp add: read_u32_def)
  qed
  show "read_u32 (copy_within buf a (a + n) dst) (dst + i) = read_u32 buf (a + i)" if "i + 4 \<le> n"
  proof -
    have "slice (copy_within buf a (a + n) dst) (dst + i) (dst + i + 4) = slice buf (a + i) (a + i + 4)"
      using assms that by (auto simp: copy_within_def slice_def drop_take min_def add.commute)
    then show ?thesis by (simp add: read_u32_def add.assoc)
  qed
qed

lemma length_copy_within:
  "a \<le> b \<Longrightarrow> b \<le> length buf \<Longrightarrow> dst + (b - a) \<le> length buf \<Longrightarrow>
   length (copy_within buf a b dst) = length buf"
  by (simp add: copy_within_def)

section \<open>The freelist as a list of pages\<close>

definition trunk_leaves :: "bytes \<Rightarrow> nat list" where
  "trunk_leaves buf = map (\<lambda>i. read_u32 buf (8 + i * 4)) [0..<read_u32 buf 4]"

text \<open>The trunk pages from \<open>t\<close> on with their leaves, following at most \<open>k\<close> links.\<close>

fun trunk_chain :: "nat \<Rightarrow> (nat \<Rightarrow> bytes) \<Rightarrow> nat \<Rightarrow> (nat \<times> nat list) list option" where
  "trunk_chain k pgs 0 = Some []"
| "trunk_chain 0 pgs t = None"
| "trunk_chain (Suc k) pgs t =
     map_option ((#) (t, trunk_leaves (pgs t))) (trunk_chain k pgs (read_u32 (pgs t) 0))"

definition flat :: "(nat \<times> nat list) list \<Rightarrow> nat list" where
  "flat fl = concat (map (\<lambda>(t, ls). t # ls) fl)"

definition freelist :: "pager \<Rightarrow> nat list" where
  "freelist p = (case trunk_chain (db_size p) (pages p) (trunk p) of Some fl \<Rightarrow> flat fl | None \<Rightarrow> [])"

text \<open>The chain as a relation between the pages and a list.\<close>

fun chain :: "nat \<Rightarrow> (nat \<Rightarrow> bytes) \<Rightarrow> nat \<Rightarrow> (nat \<times> nat list) list \<Rightarrow> bool" where
  "chain u pgs t [] \<longleftrightarrow> t = 0"
| "chain u pgs t ((t', ls) # fl) \<longleftrightarrow>
     t = t' \<and> t \<noteq> 0 \<and> trunk_leaves (pgs t) = ls \<and> length ls \<le> u div 4 - 2 \<and>
     chain u pgs (read_u32 (pgs t) 0) fl"

definition freelist_inv :: "pager \<Rightarrow> (nat \<times> nat list) list \<Rightarrow> bool" where
  "freelist_inv p fl \<longleftrightarrow>
     chain (usable p) (pages p) (trunk p) fl \<and> distinct (flat fl) \<and>
     set (flat fl) \<subseteq> {n. 2 \<le> n \<and> n \<le> db_size p \<and> Some n \<noteq> pending_byte_page_id p} \<and>
     free_count p = length (flat fl)"

definition sizes_ok :: "pager \<Rightarrow> bool" where
  "sizes_ok p \<longleftrightarrow>
     1 \<le> db_size p \<and> db_size p < 2 ^ 32 \<and> max_page_count p < 2 ^ 32 \<and> 12 \<le> usable p \<and> 512 \<le> page_size p \<and>
     (\<forall>n. 1 \<le> n \<and> n \<le> db_size p \<longrightarrow> usable p \<le> length (pages p n))"

definition pager_inv :: "pager \<Rightarrow> bool" where
  "pager_inv p \<longleftrightarrow> sizes_ok p \<and> (\<exists>fl. freelist_inv p fl)"

text \<open>The pages that hold data: inside the file, not free, and not the lock-byte page.\<close>

definition used :: "pager \<Rightarrow> nat set" where
  "used p = {n. 1 \<le> n \<and> n \<le> db_size p \<and> n \<notin> set (freelist p) \<and> Some n \<noteq> pending_byte_page_id p}"

lemma flat_simps [simp]: "flat [] = []" "flat ((t, ls) # fl) = t # ls @ flat fl"
  by (simp_all add: flat_def)

lemma length_flat: "length fl \<le> length (flat fl)"
  by (induction fl) auto

lemma trunk_chain_eq: "chain u pgs t fl \<Longrightarrow> length fl \<le> k \<Longrightarrow> trunk_chain k pgs t = Some fl"
proof (induction fl arbitrary: t k)
  case (Cons a fl)
  then obtain k' where "k = Suc k'" by (cases k) auto
  with Cons show ?case by (cases a; cases t) auto
qed simp

lemma flat_bound:
  assumes "freelist_inv p fl"
  shows "length (flat fl) \<le> db_size p"
proof -
  have "length (flat fl) = card (set (flat fl))"
    using assms by (simp add: freelist_inv_def distinct_card)
  also have "\<dots> \<le> card {2..db_size p}"
    using assms by (intro card_mono) (auto simp: freelist_inv_def)
  finally show ?thesis by simp
qed

lemma freelist_inv_flat: "freelist_inv p fl \<Longrightarrow> freelist p = flat fl"
  using flat_bound [of p fl] length_flat [of fl] trunk_chain_eq [of "usable p" "pages p" "trunk p" fl]
  by (simp add: freelist_def freelist_inv_def)

lemma chain_cong:
  "(\<And>n. n \<in> fst ` set fl \<Longrightarrow> pgs' n = pgs n) \<Longrightarrow> chain u pgs' t fl \<longleftrightarrow> chain u pgs t fl"
proof (induction fl arbitrary: t)
  case (Cons a fl)
  then show ?case by (cases a) auto
qed simp

lemma fst_in_flat: "n \<in> fst ` set fl \<Longrightarrow> n \<in> set (flat fl)"
  by (force simp: flat_def)

lemma chain_upd: "n \<notin> set (flat fl) \<Longrightarrow> chain u (pgs(n := b)) t fl \<longleftrightarrow> chain u pgs t fl"
  by (rule chain_cong) (metis fst_in_flat fun_upd_other)

lemma length_trunk_leaves [simp]: "length (trunk_leaves buf) = read_u32 buf 4"
  by (simp add: trunk_leaves_def)

lemma trunk_leaves_eqI:
  assumes "read_u32 buf 4 = length ls" "\<And>i. i < length ls \<Longrightarrow> read_u32 buf (8 + i * 4) = ls ! i"
  shows "trunk_leaves buf = ls"
  by (rule nth_equalityI) (simp_all add: assms trunk_leaves_def)

lemma trunk_leaves_nth: "i < read_u32 buf 4 \<Longrightarrow> trunk_leaves buf ! i = read_u32 buf (8 + i * 4)"
  by (simp add: trunk_leaves_def)

lemma leaf_slot: "k < u div 4 - 2 \<Longrightarrow> 8 + k * 4 + 4 \<le> (u :: nat)"
  using div_times_less_eq_dividend [of u 4] by linarith

lemma sizes_okD:
  assumes "sizes_ok p" "1 \<le> n" "n \<le> db_size p"
  shows "usable p \<le> length (pages p n)" "n < 2 ^ 32" "12 \<le> usable p"
  using assms by (simp_all add: sizes_ok_def)

lemma sizes_ok_upd:
  "sizes_ok p \<Longrightarrow> usable p \<le> length b \<Longrightarrow> sizes_ok (p\<lparr>pages := (pages p)(n := b)\<rparr>)"
  by (simp add: sizes_ok_def)

lemma usedD:
  assumes "freelist_inv p fl" "n \<in> used p"
  shows "n \<notin> set (flat fl)" "1 \<le> n" "n \<le> db_size p" "Some n \<noteq> pending_byte_page_id p"
  using assms freelist_inv_flat [OF assms(1)] by (auto simp: used_def)

lemma pending_upd [simp]:
  "pending_byte_page_id (p\<lparr>pages := a\<rparr>) = pending_byte_page_id p"
  "pending_byte_page_id (p\<lparr>trunk := t\<rparr>) = pending_byte_page_id p"
  "pending_byte_page_id (p\<lparr>free_count := c\<rparr>) = pending_byte_page_id p"
  "pending_byte_page_id (p\<lparr>db_size := c\<rparr>) = pending_byte_page_id p"
  "pending_byte_page_id (p\<lparr>alloc_state := st\<rparr>) = pending_byte_page_id p"
  by (simp_all add: pending_byte_page_id_def)

section \<open>Freeing a page\<close>

lemma free_page_new_trunk:
  assumes inv: "freelist_inv p fl" and ok: "sizes_ok p" and n: "n \<in> used p" "2 \<le> n"
  shows "freelist_inv (p\<lparr>free_count := free_count p + 1,
      pages := (pages p)(n := write_u32 (write_u32 (pages p n) 0 (trunk p)) 4 0), trunk := n\<rparr>) ((n, []) # fl)"
proof -
  note u = usedD [OF inv n(1)]
  let ?b = "write_u32 (write_u32 (pages p n) 0 (trunk p)) 4 0"
  have len: "12 \<le> length (pages p n)" using sizes_okD [OF ok u(2,3)] by simp
  have "trunk p < 2 ^ 32"
    using inv ok by (cases fl) (auto simp: freelist_inv_def sizes_ok_def)
  then have b: "read_u32 ?b 0 = trunk p" "read_u32 ?b 4 = 0"
    using len by (simp_all add: read_write_u32_same read_write_u32_other)
  have "chain (usable p) ((pages p)(n := ?b)) n ((n, []) # fl)"
    using inv u(1) n(2) b by (simp add: freelist_inv_def chain_upd trunk_leaves_def)
  then show ?thesis
    using inv u n(2) by (simp add: freelist_inv_def)
qed

lemma free_page_add_leaf:
  assumes inv: "freelist_inv p ((t, ls) # fl)" and ok: "sizes_ok p" and n: "n \<in> used p" "2 \<le> n"
    and room: "length ls < usable p div 4 - 2"
  shows "freelist_inv (p\<lparr>free_count := free_count p + 1, pages := (pages p)(t :=
      write_u32 (write_u32 (pages p t) 4 (length ls + 1)) (8 + length ls * 4) n)\<rparr>) ((t, ls @ [n]) # fl)"
proof -
  note u = usedD [OF inv n(1)]
  let ?k = "length ls" and ?b = "write_u32 (write_u32 (pages p t) 4 (length ls + 1)) (8 + length ls * 4) n"
  have t: "trunk_leaves (pages p t) = ls" "read_u32 (pages p t) 4 = ?k" "t \<notin> set (flat fl)" "1 \<le> t" "t \<le> db_size p"
    using inv by (auto simp: freelist_inv_def)
  have len: "8 + ?k * 4 + 4 \<le> length (pages p t)"
    using leaf_slot [OF room] sizes_okD(1) [OF ok t(4,5)] by (rule le_trans)
  have small: "?k + 1 < 2 ^ 32" "n < 2 ^ 32"
    using flat_bound [OF inv] sizes_okD(2) [OF ok u(2,3)] ok by (simp_all add: sizes_ok_def)
  have head: "read_u32 ?b 0 = read_u32 (pages p t) 0" "read_u32 ?b 4 = ?k + 1"
    using len small by (simp_all add: read_write_u32_same read_write_u32_other)
  have "trunk_leaves ?b = ls @ [n]"
  proof (rule trunk_leaves_eqI)
    fix i assume i: "i < length (ls @ [n])"
    show "read_u32 ?b (8 + i * 4) = (ls @ [n]) ! i"
    proof (cases "i = ?k")
      case True
      then show ?thesis using len small by (simp add: read_write_u32_same)
    next
      case False
      then have "i < ?k" using i by simp
      then have "read_u32 ?b (8 + i * 4) = read_u32 (pages p t) (8 + i * 4)"
        using len by (simp add: read_write_u32_other)
      then show ?thesis using \<open>i < ?k\<close> t(1,2) trunk_leaves_nth [of i "pages p t"] by (simp add: nth_append)
    qed
  qed (use head in simp)
  moreover have "chain (usable p) ((pages p)(t := ?b)) (read_u32 (pages p t) 0) fl"
    using inv t(3) by (auto simp: freelist_inv_def chain_upd)
  ultimately show ?thesis
    using inv u n(2) room head by (auto simp: freelist_inv_def)
qed

lemma chain_trunk: "chain u pgs t fl \<Longrightarrow> t = 0 \<longleftrightarrow> fl = []"
  by (cases fl) auto

lemma free_page_ok:
  assumes inv: "freelist_inv p fl" and ok: "sizes_ok p" and n: "n \<in> used p" "2 \<le> n"
  shows "\<exists>p' fl'. free_page p n = Inr p' \<and> freelist_inv p' fl' \<and> sizes_ok p' \<and>
    set (flat fl') = insert n (set (flat fl)) \<and> db_size p' = db_size p \<and> page_size p' = page_size p \<and>
    alloc_state p' = alloc_state p \<and> (\<forall>m. m \<noteq> n \<and> m \<notin> set (flat fl) \<longrightarrow> pages p' m = pages p m)"
proof -
  note u = usedD [OF inv n(1)]
  have len: "12 \<le> length (pages p n)" "usable p \<le> length (pages p n)" using sizes_okD [OF ok u(2,3)] by simp_all
  let ?p = "p\<lparr>free_count := free_count p + 1,
      pages := (pages p)(n := write_u32 (write_u32 (pages p n) 0 (trunk p)) 4 0), trunk := n\<rparr>"
  have new: "free_page p n = Inr ?p \<Longrightarrow> ?thesis"
    using free_page_new_trunk [OF inv ok n] ok len
    by (intro exI [of _ ?p] exI [of _ "(n, []) # fl"]) (simp add: sizes_ok_def)
  show ?thesis
  proof (cases fl)
    case Nil
    then have "trunk p = 0" using inv by (simp add: freelist_inv_def)
    then show ?thesis by (intro new) (use u n in \<open>simp add: free_page_def Let_def\<close>)
  next
    case (Cons tl fl')
    then obtain t ls where fl: "fl = (t, ls) # fl'" by (cases tl) auto
    have t: "trunk p = t" "t \<noteq> 0" "read_u32 (pages p t) 4 = length ls" "1 \<le> t" "t \<le> db_size p"
      using inv fl by (auto simp: freelist_inv_def)
    show ?thesis
    proof (cases "length ls < usable p div 4 - 2")
      case True
      let ?q = "p\<lparr>free_count := free_count p + 1, pages := (pages p)(t :=
        write_u32 (write_u32 (pages p t) 4 (length ls + 1)) (8 + length ls * 4) n)\<rparr>"
      have "8 + length ls * 4 + 4 \<le> length (pages p t)"
        using leaf_slot [OF True] sizes_okD(1) [OF ok t(4,5)] by (rule le_trans)
      then have "sizes_ok ?q" using ok sizes_okD(1) [OF ok t(4,5)] by (simp add: sizes_ok_def)
      moreover have "free_page p n = Inr ?q"
        using u n t True by (simp add: free_page_def Let_def)
      ultimately show ?thesis
        using free_page_add_leaf [OF inv [unfolded fl] ok n True] fl
        by (intro exI [of _ ?q] exI [of _ "(t, ls @ [n]) # fl'"]) auto
    next
      case False
      then show ?thesis by (intro new) (use u n t in \<open>simp add: free_page_def Let_def\<close>)
    qed
  qed
qed

section \<open>Allocating a page\<close>

lemma allocate_leaf_ok:
  assumes inv: "freelist_inv p ((t, l # ls) # fl)" and ok: "sizes_ok p"
  shows "\<exists>p'. reuse_freelist_leaf p l (Suc (length ls)) = (Inr l, p') \<and> freelist_inv p' ((t, ls) # fl) \<and>
    sizes_ok p' \<and> db_size p' = db_size p \<and> page_size p' = page_size p \<and> usable p' = usable p \<and> alloc_state p' = alloc_state p \<and>
    set (pages p' l) \<subseteq> {0} \<and> (\<forall>m. m \<noteq> l \<and> m \<noteq> t \<longrightarrow> pages p' m = pages p m)"
proof -
  have t: "trunk_leaves (pages p t) = l # ls" "read_u32 (pages p t) 4 = Suc (length ls)" "t \<noteq> l" "trunk p = t" "t \<noteq> 0"
     "t \<notin> set (flat fl)" "l \<notin> set (flat fl)" "1 \<le> t" "t \<le> db_size p" "1 \<le> l" "l \<le> db_size p"
     "Suc (length ls) \<le> usable p div 4 - 2" "free_count p \<noteq> 0"
    using inv by (auto simp: freelist_inv_def dest: arg_cong [of _ _ length])
  let ?z = "(pages p)(l := replicate (length (pages p l)) 0)"
  let ?c = "copy_within (pages p t) 12 (12 + length ls * 4) 8"
  let ?b = "write_u32 ?c 4 (length ls)"
  let ?q = "p\<lparr>pages := ?z(t := ?b), free_count := free_count p - 1\<rparr>"
  have len: "12 + length ls * 4 \<le> length (pages p t)"
    using leaf_slot [of "length ls" "usable p"] t(12) sizes_okD(1) [OF ok t(8,9)] by linarith
  have c: "length ?c = length (pages p t)" using len by (simp add: length_copy_within)
  have small: "length ls < 2 ^ 32" using flat_bound [OF inv] ok by (simp add: sizes_ok_def)
  have head: "read_u32 ?b 0 = read_u32 (pages p t) 0" "read_u32 ?b 4 = length ls"
    using len c small read_copy_within(1) [of 12 "length ls * 4" "pages p t" 8 0]
    by (simp_all add: read_write_u32_same read_write_u32_other)
  have "trunk_leaves ?b = ls"
  proof (rule trunk_leaves_eqI)
    fix i assume i: "i < length ls"
    have "read_u32 ?b (8 + i * 4) = read_u32 ?c (8 + i * 4)"
      using len c by (simp add: read_write_u32_other)
    also have "\<dots> = read_u32 (pages p t) (12 + i * 4)"
      by (rule read_copy_within(2)) (use len i in auto)
    also have "\<dots> = trunk_leaves (pages p t) ! Suc i"
      using i t(2) by (simp add: trunk_leaves_nth)
    finally show "read_u32 ?b (8 + i * 4) = ls ! i" using t(1) by simp
  qed (use head in simp)
  then have ch: "chain (usable p) (?z(t := ?b)) t ((t, ls) # fl)"
    using inv t head by (simp add: freelist_inv_def chain_upd)
  have "freelist_inv ?q ((t, ls) # fl)"
    using inv ch t(4) by (auto simp: freelist_inv_def)
  moreover have "sizes_ok ?q"
    using ok c len by (auto simp: sizes_ok_def)
  moreover have "reuse_freelist_leaf p l (Suc (length ls)) = (Inr l, ?q)"
    using t len by (simp add: reuse_freelist_leaf_def Let_def)
  ultimately show ?thesis using t(3) by (intro exI [of _ ?q]) auto
qed

lemma allocate_trunk_ok:
  assumes inv: "freelist_inv p ((t, []) # fl)" and ok: "sizes_ok p"
  shows "\<exists>p'. reuse_trunk p (read_u32 (pages p t) 0) = (Inr t, p') \<and> freelist_inv p' fl \<and>
    sizes_ok p' \<and> db_size p' = db_size p \<and> page_size p' = page_size p \<and> usable p' = usable p \<and> alloc_state p' = alloc_state p \<and>
    set (pages p' t) \<subseteq> {0} \<and> (\<forall>m. m \<noteq> t \<longrightarrow> pages p' m = pages p m)"
proof -
  let ?b = "replicate (length (pages p t)) 0"
  let ?q = "p\<lparr>trunk := read_u32 (pages p t) 0, free_count := free_count p - 1, pages := (pages p)(t := ?b)\<rparr>"
  have t: "trunk p = t" "t \<notin> set (flat fl)" "free_count p \<noteq> 0" "1 \<le> t" "t \<le> db_size p"
    using inv by (auto simp: freelist_inv_def)
  have "freelist_inv ?q fl"
    using inv t(2) by (auto simp: freelist_inv_def chain_upd)
  moreover have "sizes_ok ?q"
    using ok sizes_okD(1) [OF ok t(4,5)] by (simp add: sizes_ok_def)
  moreover have "reuse_trunk p (read_u32 (pages p t) 0) = (Inr t, ?q)"
    using t by (simp add: reuse_trunk_def Let_def)
  ultimately show ?thesis by (intro exI [of _ ?q]) auto
qed

lemma freelist_inv_cong:
  assumes "freelist_inv p fl" "\<And>m. m \<in> set (flat fl) \<Longrightarrow> pages p' m = pages p m" "db_size p \<le> db_size p'"
    "page_size p' = page_size p" "usable p' = usable p" "trunk p' = trunk p" "free_count p' = free_count p"
  shows "freelist_inv p' fl"
proof -
  have "chain (usable p) (pages p') (trunk p) fl"
    using assms(1,2) chain_cong [of fl "pages p'" "pages p"] fst_in_flat [of _ fl] by (auto simp: freelist_inv_def)
  then show ?thesis using assms by (auto simp: freelist_inv_def pending_byte_page_id_def)
qed

lemma allocate_ptrmap_ok:
  assumes inv: "freelist_inv p fl" and ok: "sizes_ok p" and fresh: "usable p \<le> length fresh"
    and pres: "present \<Longrightarrow> usable p \<le> length (pages p (db_size p + 1))"
  shows "\<exists>sz p'. allocate_ptrmap_page fresh present p = Inr (sz, p') \<and> freelist_inv p' fl \<and> sizes_ok p' \<and>
    db_size p' = db_size p \<and> page_size p' = page_size p \<and> usable p' = usable p \<and> trunk p' = trunk p \<and>
    max_page_count p' = max_page_count p \<and> alloc_state p' = alloc_state p \<and>
    (\<forall>m. m \<noteq> db_size p + 1 \<longrightarrow> pages p' m = pages p m) \<and>
    (sz = db_size p \<or> sz = db_size p + 1 \<and> usable p \<le> length (pages p' sz))"
proof -
  have size: "512 \<le> page_size p" "1 \<le> db_size p" using ok by (simp_all add: sizes_ok_def)
  have "2 \<le> db_size p + 1" using size(2) by simp
  then obtain q :: nat and r :: nat where "is_ptrmap_page (db_size p + 1) (page_size p) = Inr (r = 0)"
    by (rule ptrmap_page_no [OF size(1)])
  then obtain b where b: "is_ptrmap_page (db_size p + 1) (page_size p) = Inr b" by blast
  let ?p = "p\<lparr>pages := (pages p)(db_size p + 1 := fresh)\<rparr>"
  have "freelist_inv ?p fl"
    using inv by (rule freelist_inv_cong) (use inv in \<open>auto simp: freelist_inv_def\<close>)
  moreover have "sizes_ok ?p" using ok fresh by (rule sizes_ok_upd)
  ultimately show ?thesis using inv ok b pres fresh
    by (cases b; cases present) (auto simp: allocate_ptrmap_page_def)
qed

lemma allocate_new_page_ok:
  assumes inv: "freelist_inv p []" and ok: "sizes_ok p" and fresh: "usable p \<le> length fresh"
    and cur: "cur = db_size p \<or> cur = db_size p + 1 \<and> usable p \<le> length (pages p cur)"
  shows "\<exists>r p'. allocate_new_page fresh cur p = (r, p') \<and> freelist_inv p' [] \<and> sizes_ok p' \<and>
    (\<forall>m. m \<le> db_size p \<longrightarrow> pages p' m = pages p m) \<and> page_size p' = page_size p \<and> usable p' = usable p \<and>
    (case r of
       Inr n \<Rightarrow> db_size p < n \<and> db_size p' = n \<and> Some n \<noteq> pending_byte_page_id p \<and> alloc_state p' = AllocStart \<and> pages p' n = fresh
     | Inl e \<Rightarrow> e = DatabaseFull \<and> max_page_count p \<le> db_size p + 2 \<and> db_size p' = db_size p \<and> trunk p' = trunk p)"
proof (cases "Some (cur + 1) = pending_byte_page_id p")
  case True
  let ?p = "p\<lparr>alloc_state := AllocateNewPage cur, pages := (pages p)(cur + 1 := fresh)\<rparr>"
  let ?q = "p\<lparr>alloc_state := AllocStart, pages := (pages p)(cur + 1 := fresh, cur + 2 := fresh), db_size := cur + 2\<rparr>"
  have p: "freelist_inv ?p []" "sizes_ok ?p" using inv ok fresh by (simp_all add: freelist_inv_def sizes_ok_def)
  have q: "cur + 2 \<le> max_page_count p \<Longrightarrow> freelist_inv ?q []" "cur + 2 \<le> max_page_count p \<Longrightarrow> sizes_ok ?q"
    using inv ok fresh cur by (auto simp: freelist_inv_def sizes_ok_def le_Suc_eq)
  have "allocate_new_page fresh cur p = (if cur + 2 > max_page_count p then (Inl DatabaseFull, ?p) else (Inr (cur + 2), ?q))"
    using True by (simp add: allocate_new_page_def Let_def)
  then show ?thesis using p q cur True [symmetric] by (auto split: if_splits)
next
  case False
  let ?p = "p\<lparr>alloc_state := AllocateNewPage cur\<rparr>"
  let ?q = "p\<lparr>alloc_state := AllocStart, pages := (pages p)(cur + 1 := fresh), db_size := cur + 1\<rparr>"
  have p: "freelist_inv ?p []" "sizes_ok ?p" using inv ok fresh by (simp_all add: freelist_inv_def sizes_ok_def)
  have q: "cur + 1 \<le> max_page_count p \<Longrightarrow> freelist_inv ?q []" "cur + 1 \<le> max_page_count p \<Longrightarrow> sizes_ok ?q"
    using inv ok fresh cur by (auto simp: freelist_inv_def sizes_ok_def le_Suc_eq)
  have "allocate_new_page fresh cur p = (if cur + 1 > max_page_count p then (Inl DatabaseFull, ?p) else (Inr (cur + 1), ?q))"
    using False by (simp add: allocate_new_page_def Let_def)
  then show ?thesis using p q cur False by (auto split: if_splits)
qed

text \<open>What an allocation returns and leaves behind, given the free list before it.\<close>

definition alloc_outcome :: "pager \<Rightarrow> nat set \<Rightarrow> bytes \<Rightarrow> nat res \<Rightarrow> pager \<Rightarrow> nat set \<Rightarrow> bool" where
  "alloc_outcome p F fresh r p' F' \<longleftrightarrow>
     page_size p' = page_size p \<and> usable p' = usable p \<and>
     (\<forall>m. m \<le> db_size p \<and> m \<notin> F \<longrightarrow> pages p' m = pages p m) \<and>
     (case r of
        Inr n \<Rightarrow> alloc_state p' = AllocStart \<and> F' = F - {n} \<and>
          (if F = {} then db_size p < n \<and> db_size p' = n \<and> Some n \<noteq> pending_byte_page_id p \<and> pages p' n = fresh
           else n \<in> F \<and> db_size p' = db_size p \<and> set (pages p' n) \<subseteq> {0})
      | Inl e \<Rightarrow> e = DatabaseFull \<and> F = {} \<and> F' = {} \<and> max_page_count p \<le> db_size p + 2 \<and> db_size p' = db_size p)"

lemma allocate_new_outcome:
  assumes "freelist_inv p []" "sizes_ok p" "usable p \<le> length fresh"
    "cur = db_size p \<or> cur = db_size p + 1 \<and> usable p \<le> length (pages p cur)"
  shows "\<exists>r p'. allocate_new_page fresh cur p = (r, p') \<and> freelist_inv p' [] \<and> sizes_ok p' \<and>
    alloc_outcome p {} fresh r p' {}"
proof -
  from allocate_new_page_ok [OF assms] obtain r p' where
    "allocate_new_page fresh cur p = (r, p')" "freelist_inv p' []" "sizes_ok p'"
    "\<forall>m. m \<le> db_size p \<longrightarrow> pages p' m = pages p m" "page_size p' = page_size p" "usable p' = usable p"
    "case r of
       Inr n \<Rightarrow> db_size p < n \<and> db_size p' = n \<and> Some n \<noteq> pending_byte_page_id p \<and> alloc_state p' = AllocStart \<and> pages p' n = fresh
     | Inl e \<Rightarrow> e = DatabaseFull \<and> max_page_count p \<le> db_size p + 2 \<and> db_size p' = db_size p \<and> trunk p' = trunk p"
    by blast
  then show ?thesis by (cases r) (auto simp: alloc_outcome_def)
qed

lemma allocate_trunk_outcome:
  assumes inv: "freelist_inv p ((t, []) # fl)" and ok: "sizes_ok p" and st: "alloc_state p = AllocStart"
  shows "\<exists>p'. reuse_trunk p (read_u32 (pages p t) 0) = (Inr t, p') \<and> freelist_inv p' fl \<and> sizes_ok p' \<and>
    alloc_outcome p (set (flat ((t, []) # fl))) fresh (Inr t) p' (set (flat fl))"
proof -
  have "t \<notin> set (flat fl)" using inv by (simp add: freelist_inv_def)
  with allocate_trunk_ok [OF inv ok] st show ?thesis by (auto simp: alloc_outcome_def)
qed

lemma allocate_leaf_outcome:
  assumes inv: "freelist_inv p ((t, l # ls) # fl)" and ok: "sizes_ok p" and st: "alloc_state p = AllocStart"
  shows "\<exists>p'. reuse_freelist_leaf p l (Suc (length ls)) = (Inr l, p') \<and> freelist_inv p' ((t, ls) # fl) \<and> sizes_ok p' \<and>
    alloc_outcome p (set (flat ((t, l # ls) # fl))) fresh (Inr l) p' (set (flat ((t, ls) # fl)))"
proof -
  have "distinct (t # l # ls @ flat fl)" using inv by (simp add: freelist_inv_def)
  with allocate_leaf_ok [OF inv ok] st show ?thesis by (auto simp: alloc_outcome_def)
qed

lemma alloc_outcome_from:
  assumes "alloc_outcome p1 F fresh r p' F'" "db_size p1 = db_size p" "page_size p1 = page_size p" "usable p1 = usable p"
    "max_page_count p1 = max_page_count p" "\<forall>m. m \<noteq> db_size p + 1 \<longrightarrow> pages p1 m = pages p m"
  shows "alloc_outcome p F fresh r p' F'"
  using assms by (cases r) (auto simp: alloc_outcome_def pending_byte_page_id_def)

lemma allocate_page_ok:
  assumes inv: "freelist_inv p fl" and ok: "sizes_ok p" and st: "alloc_state p = AllocStart"
    and fresh: "usable p \<le> length fresh"
    and pres: "present \<Longrightarrow> usable p \<le> length (pages p (db_size p + 1))"
  shows "\<exists>r p' fl'. allocate_page fresh present p = (r, p') \<and> freelist_inv p' fl' \<and> sizes_ok p' \<and>
    alloc_outcome p (set (flat fl)) fresh r p' (set (flat fl'))"
proof -
  from allocate_ptrmap_ok [OF inv ok fresh pres] obtain sz p1 where
    p1: "allocate_ptrmap_page fresh present p = Inr (sz, p1)" "freelist_inv p1 fl" "sizes_ok p1"
    and same: "db_size p1 = db_size p" "page_size p1 = page_size p" "usable p1 = usable p"
      "max_page_count p1 = max_page_count p" "\<forall>m. m \<noteq> db_size p + 1 \<longrightarrow> pages p1 m = pages p m"
    and st1: "alloc_state p1 = alloc_state p"
    and sz: "sz = db_size p \<or> sz = db_size p + 1 \<and> usable p \<le> length (pages p1 sz)"
    by blast
  have "\<exists>r p' fl'. allocate_page fresh present p = (r, p') \<and> freelist_inv p' fl' \<and> sizes_ok p' \<and>
    alloc_outcome p1 (set (flat fl)) fresh r p' (set (flat fl'))"
  proof -
    consider "fl = []" | t rest where "fl = (t, []) # rest" | t l ls rest where "fl = (t, l # ls) # rest"
      by (metis list.exhaust prod.exhaust)
    then show ?thesis
    proof cases
      case 1
      then have "trunk p1 = 0" using p1(2) by (simp add: freelist_inv_def)
      then have run: "allocate_page fresh present p = allocate_new_page fresh sz p1"
        using st p1(1) by (simp add: allocate_page_def)
      have "freelist_inv p1 []" "usable p1 \<le> length fresh"
        "sz = db_size p1 \<or> sz = db_size p1 + 1 \<and> usable p1 \<le> length (pages p1 sz)"
        using p1(2) 1 fresh sz same by simp_all
      from allocate_new_outcome [OF this(1) p1(3) this(2,3)] obtain r p' where
        "allocate_new_page fresh sz p1 = (r, p')" "freelist_inv p' []" "sizes_ok p'" "alloc_outcome p1 {} fresh r p' {}"
        by blast
      then show ?thesis using run 1 by (intro exI [of _ r] exI [of _ p'] exI [of _ "[]"]) simp
    next
      case (2 t rest)
      then have t: "trunk p1 = t" "t \<noteq> 0" "trunk_leaves (pages p1 t) = []"
        using p1(2) by (auto simp: freelist_inv_def)
      then have "read_u32 (pages p1 t) 4 = 0" using length_trunk_leaves [of "pages p1 t"] by simp
      then have run: "allocate_page fresh present p = reuse_trunk p1 (read_u32 (pages p1 t) 0)"
        using st p1(1) t by (simp add: allocate_page_def Let_def)
      show ?thesis
        using allocate_trunk_outcome [OF p1(2) [unfolded 2] p1(3) st1 [unfolded st]] unfolding run 2 by metis
    next
      case (3 t l ls rest)
      then have t: "trunk p1 = t" "t \<noteq> 0" "trunk_leaves (pages p1 t) = l # ls"
        using p1(2) by (auto simp: freelist_inv_def)
      then have n: "read_u32 (pages p1 t) 4 = Suc (length ls)"
        using length_trunk_leaves [of "pages p1 t"] by simp
      then have "read_u32 (pages p1 t) 8 = l"
        using trunk_leaves_nth [of 0 "pages p1 t"] t(3) by simp
      then have run: "allocate_page fresh present p = reuse_freelist_leaf p1 l (Suc (length ls))"
        using st p1(1) t n by (simp add: allocate_page_def Let_def)
      show ?thesis
        using allocate_leaf_outcome [OF p1(2) [unfolded 3] p1(3) st1 [unfolded st]] unfolding run 3 by metis
    qed
  qed
  then show ?thesis using alloc_outcome_from [OF _ same] by blast
qed

lemma used_eq:
  "freelist_inv p fl \<Longrightarrow>
   used p = {n. 1 \<le> n \<and> n \<le> db_size p \<and> n \<notin> set (flat fl) \<and> Some n \<noteq> pending_byte_page_id p}"
  by (simp add: used_def freelist_inv_flat)

lemma pending_cong: "page_size p' = page_size p \<Longrightarrow> pending_byte_page_id p' = pending_byte_page_id p"
  by (simp add: pending_byte_page_id_def)

lemma alloc_outcome_used:
  assumes inv: "freelist_inv p fl" "freelist_inv p' fl'" and out: "alloc_outcome p (set (flat fl)) fresh (Inr n) p' (set (flat fl'))"
  shows "n \<notin> used p" "insert n (used p) \<subseteq> used p'" "2 \<le> n \<or> db_size p = 0" "\<forall>m \<in> used p. pages p' m = pages p m"
proof -
  have pend: "pending_byte_page_id p' = pending_byte_page_id p"
    using out by (intro pending_cong) (simp add: alloc_outcome_def)
  have sub: "set (flat fl) \<subseteq> {n. 2 \<le> n \<and> n \<le> db_size p \<and> Some n \<noteq> pending_byte_page_id p}"
    using inv(1) by (simp add: freelist_inv_def)
  show "n \<notin> used p" "insert n (used p) \<subseteq> used p'" "2 \<le> n \<or> db_size p = 0" "\<forall>m \<in> used p. pages p' m = pages p m"
    using out sub pend unfolding used_eq [OF inv(1)] used_eq [OF inv(2)]
    by (auto simp: alloc_outcome_def split: if_splits)
qed

lemma alloc_outcome_full:
  assumes inv: "freelist_inv p fl" "freelist_inv p' fl'" and out: "alloc_outcome p (set (flat fl)) fresh (Inl e) p' (set (flat fl'))"
  shows "e = DatabaseFull" "flat fl = []" "max_page_count p \<le> db_size p + 2" "used p' = used p"
    "\<forall>m \<in> used p. pages p' m = pages p m"
proof -
  have pend: "pending_byte_page_id p' = pending_byte_page_id p"
    using out by (intro pending_cong) (simp add: alloc_outcome_def)
  show "e = DatabaseFull" "flat fl = []" "max_page_count p \<le> db_size p + 2" "used p' = used p"
    "\<forall>m \<in> used p. pages p' m = pages p m"
    using out pend unfolding used_eq [OF inv(1)] used_eq [OF inv(2)] by (auto simp: alloc_outcome_def)
qed

lemma free_page_contract:
  assumes "pager_inv p" "n \<in> used p" "2 \<le> n"
  shows "\<exists>p'. free_page p n = Inr p' \<and> pager_inv p' \<and> set (freelist p') = insert n (set (freelist p)) \<and>
    used p' = used p - {n} \<and> db_size p' = db_size p \<and> alloc_state p' = alloc_state p \<and> usable p' = usable p \<and>
    (\<forall>m \<in> used p'. pages p' m = pages p m)"
proof -
  from assms(1) obtain fl where fl: "freelist_inv p fl" "sizes_ok p" by (auto simp: pager_inv_def)
  from free_page_ok [OF fl assms(2,3)] obtain p' fl' where
    p': "free_page p n = Inr p'" "freelist_inv p' fl'" "sizes_ok p'" "set (flat fl') = insert n (set (flat fl))"
      "db_size p' = db_size p" "page_size p' = page_size p" "alloc_state p' = alloc_state p"
      "\<forall>m. m \<noteq> n \<and> m \<notin> set (flat fl) \<longrightarrow> pages p' m = pages p m"
    by blast
  have "usable p' = usable p"
    using p'(1) by (auto simp: free_page_def Let_def split: if_splits)
  moreover have "used p' = used p - {n}"
    unfolding used_eq [OF fl(1)] used_eq [OF p'(2)] pending_cong [OF p'(6)] p'(4,5) by blast
  moreover have "\<forall>m \<in> used p'. pages p' m = pages p m"
    unfolding used_eq [OF p'(2)] p'(4) using p'(8) by blast
  moreover have "pager_inv p'" using p'(2,3) by (auto simp: pager_inv_def)
  ultimately show ?thesis
    using p'(1,4,5,7) freelist_inv_flat [OF fl(1)] freelist_inv_flat [OF p'(2)] by (intro exI [of _ p']) simp
qed

lemma allocate_page_contract:
  assumes "pager_inv p" "alloc_state p = AllocStart" "usable p \<le> length fresh"
    "present \<Longrightarrow> usable p \<le> length (pages p (db_size p + 1))"
  shows "case allocate_page fresh present p of
      (Inr n, p') \<Rightarrow> pager_inv p' \<and> alloc_state p' = AllocStart \<and> usable p' = usable p \<and> n \<notin> used p \<and> 2 \<le> n \<and> n \<le> db_size p' \<and>
        insert n (used p) \<subseteq> used p' \<and> set (freelist p') = set (freelist p) - {n} \<and>
        (freelist p \<noteq> [] \<longrightarrow> n \<in> set (freelist p) \<and> db_size p' = db_size p) \<and>
        (\<forall>m \<in> used p. pages p' m = pages p m)
    | (Inl e, p') \<Rightarrow> e = DatabaseFull \<and> freelist p = [] \<and> max_page_count p \<le> db_size p + 2 \<and>
        pager_inv p' \<and> used p' = used p \<and> (\<forall>m \<in> used p. pages p' m = pages p m)"
proof -
  from assms(1) obtain fl where fl: "freelist_inv p fl" "sizes_ok p" by (auto simp: pager_inv_def)
  from allocate_page_ok [OF fl assms(2,3,4)] obtain r p' fl' where
    run: "allocate_page fresh present p = (r, p')" and inv': "freelist_inv p' fl'" and ok': "sizes_ok p'"
    and out: "alloc_outcome p (set (flat fl)) fresh r p' (set (flat fl'))"
    by blast
  note flat = freelist_inv_flat [OF fl(1)] freelist_inv_flat [OF inv']
  have inv: "pager_inv p'" using inv' ok' by (auto simp: pager_inv_def)
  show ?thesis
  proof (cases r)
    case (Inl e)
    from alloc_outcome_full [OF fl(1) inv' out [unfolded Inl]] show ?thesis
      using run inv flat Inl by simp
  next
    case (Inr n)
    note u = alloc_outcome_used [OF fl(1) inv' out [unfolded Inr]]
    have "n \<le> db_size p'" using u(2) by (auto simp: used_def)
    moreover have "2 \<le> n" using u(3) fl(2) by (simp add: sizes_ok_def)
    moreover have "alloc_state p' = AllocStart" "usable p' = usable p" "set (flat fl') = set (flat fl) - {n}"
      "flat fl \<noteq> [] \<longrightarrow> n \<in> set (flat fl) \<and> db_size p' = db_size p"
      using out by (auto simp: alloc_outcome_def Inr)
    ultimately show ?thesis using run inv flat Inr u by simp
  qed
qed

text \<open>The file grows only by the page that is returned, and never past the limit.\<close>

lemma allocate_page_limit:
  assumes "allocate_page fresh present p = (Inr n, p')" "alloc_state p = AllocStart"
  shows "db_size p' = db_size p \<or> db_size p < n \<and> db_size p' = n \<and> n \<le> max_page_count p"
proof -
  have new: "db_size q' = m \<and> cur < m \<and> m \<le> max_page_count q" if "allocate_new_page fresh cur q = (Inr m, q')" for cur q m q'
    using that by (auto simp: allocate_new_page_def Let_def split: if_splits)
  have leaf: "db_size q' = db_size q" if "reuse_freelist_leaf q l k = (Inr m, q')" for q l k m q'
    using that by (auto simp: reuse_freelist_leaf_def Let_def split: if_splits)
  have trunk: "db_size q' = db_size q" if "reuse_trunk q nx = (Inr m, q')" for q nx m q'
    using that by (auto simp: reuse_trunk_def Let_def split: if_splits)
  obtain sz q where q: "allocate_ptrmap_page fresh present p = Inr (sz, q)" using assms by (auto simp: allocate_page_def split: sum.splits)
  then have same: "db_size p \<le> sz" "db_size q = db_size p" "max_page_count q = max_page_count p"
    by (auto simp: allocate_ptrmap_page_def rbind_eq_Inr_iff split: if_splits)
  consider "allocate_new_page fresh sz q = (Inr n, p')" | l k where "reuse_freelist_leaf q l k = (Inr n, p')" | nx where "reuse_trunk q nx = (Inr n, p')"
    using assms q by (auto simp: allocate_page_def Let_def split: if_splits)
  then show ?thesis using new leaf trunk same by cases fastforce+
qed

section \<open>The contract for clients\<close>

text \<open>
  What code that stores data in pages relies on: a state with the set of its live pages and their
  contents, from which pages are allocated, written and freed.
\<close>

locale page_allocator =
  fixes alloc :: "'s \<Rightarrow> nat res \<times> 's"
    and free :: "'s \<Rightarrow> nat \<Rightarrow> 's res"
    and put :: "'s \<Rightarrow> nat \<Rightarrow> bytes \<Rightarrow> 's"
    and live :: "'s \<Rightarrow> nat set"
    and content :: "'s \<Rightarrow> nat \<Rightarrow> bytes"
    and space :: "'s \<Rightarrow> nat"
    and ok :: "'s \<Rightarrow> bool"
  assumes alloc_Inr: "ok s \<Longrightarrow> alloc s = (Inr n, s') \<Longrightarrow>
      ok s' \<and> space s' = space s \<and> n \<notin> live s \<and> 2 \<le> n \<and> insert n (live s) \<subseteq> live s' \<and>
      set (content s' n) \<subseteq> {0} \<and>
      (\<forall>m \<in> live s. content s' m = content s m)"
    and alloc_Inl: "ok s \<Longrightarrow> alloc s = (Inl e, s') \<Longrightarrow>
      e = DatabaseFull \<and> live s' = live s \<and> (\<forall>m \<in> live s. content s' m = content s m)"
    and free_Inr: "ok s \<Longrightarrow> n \<in> live s \<Longrightarrow> 2 \<le> n \<Longrightarrow>
      \<exists>s'. free s n = Inr s' \<and> ok s' \<and> space s' = space s \<and> live s' = live s - {n} \<and>
           (\<forall>m \<in> live s'. content s' m = content s m)"
    and put_ok: "ok s \<Longrightarrow> n \<in> live s \<Longrightarrow> length b = length (content s n) \<Longrightarrow>
      ok (put s n b) \<and> space (put s n b) = space s \<and> live (put s n b) = live s \<and>
      content (put s n b) = (content s)(n := b)"
    and live_page: "ok s \<Longrightarrow> n \<in> live s \<Longrightarrow> 1 \<le> n \<and> n < 2 ^ 32 \<and> space s \<le> length (content s n) \<and> 12 \<le> space s"

definition pager_ready :: "bytes \<Rightarrow> pager \<Rightarrow> bool" where
  "pager_ready fresh p \<longleftrightarrow> pager_inv p \<and> alloc_state p = AllocStart \<and> usable p \<le> length fresh"

lemma put_page_ok:
  assumes "pager_inv p" "n \<in> used p" "length b = length (pages p n)"
  shows "pager_inv (put_page p n b)" "used (put_page p n b) = used p"
proof -
  from assms(1) obtain fl where fl: "freelist_inv p fl" "sizes_ok p" by (auto simp: pager_inv_def)
  have n: "n \<notin> set (flat fl)" using usedD(1) [OF fl(1) assms(2)] .
  have inv': "freelist_inv (put_page p n b) fl"
    using fl(1) by (rule freelist_inv_cong) (use n in \<open>auto simp: put_page_def\<close>)
  moreover have "sizes_ok (put_page p n b)"
    using fl(2) assms(3) by (auto simp: sizes_ok_def put_page_def)
  ultimately show "pager_inv (put_page p n b)" by (auto simp: pager_inv_def)
  show "used (put_page p n b) = used p"
    unfolding used_eq [OF fl(1)] used_eq [OF inv'] by (simp add: put_page_def)
qed

lemma allocate_overflow_page_ready:
  assumes "pager_ready fresh p" "allocate_overflow_page fresh False p = (Inr n, p')"
  shows "pager_ready fresh p' \<and> usable p' = usable p \<and> n \<notin> used p \<and> 2 \<le> n \<and> insert n (used p) \<subseteq> used p' \<and>
    (\<forall>m \<in> used p. pages p' m = pages p m) \<and> set (pages p' n) \<subseteq> {0}"
proof -
  from assms(2) obtain q where q: "allocate_page fresh False p = (Inr n, q)"
    and p': "p' = put_page q n (replicate (length (pages q n)) 0)"
    by (auto simp: allocate_overflow_page_def put_page_def split: prod.splits sum.splits)
  have c: "pager_inv q \<and> alloc_state q = AllocStart \<and> usable q = usable p \<and> n \<notin> used p \<and> 2 \<le> n \<and> n \<le> db_size q \<and>
        insert n (used p) \<subseteq> used q \<and> set (freelist q) = set (freelist p) - {n} \<and>
        (freelist p \<noteq> [] \<longrightarrow> n \<in> set (freelist p) \<and> db_size q = db_size p) \<and>
        (\<forall>m \<in> used p. pages q m = pages p m)"
    using allocate_page_contract [of p fresh False] assms(1) q by (simp add: pager_ready_def)
  then have n: "n \<in> used q" by blast
  have same: "usable p' = usable q" "alloc_state p' = alloc_state q" "pages p' = (pages q)(n := replicate (length (pages q n)) 0)"
    by (simp_all add: p' put_page_def)
  have "pager_inv p'" "used p' = used q"
    using put_page_ok [of q n "replicate (length (pages q n)) 0"] c n by (simp_all add: p')
  then show ?thesis using c same assms(1) by (auto simp: pager_ready_def)
qed

lemma allocate_overflow_page_full:
  assumes "pager_ready fresh p" "allocate_overflow_page fresh False p = (Inl e, p')"
  shows "e = DatabaseFull \<and> used p' = used p \<and> (\<forall>m \<in> used p. pages p' m = pages p m)"
proof -
  from assms(2) have q: "allocate_page fresh False p = (Inl e, p')"
    by (auto simp: allocate_overflow_page_def split: prod.splits sum.splits)
  show ?thesis
    using allocate_page_contract [of p fresh False] assms(1) q by (simp add: pager_ready_def)
qed

interpretation pager_alloc:
  page_allocator "allocate_overflow_page fresh False" free_page put_page used pages usable "pager_ready fresh"
  for fresh
proof (unfold_locales, goal_cases)
  case (1 s n s')
  then show ?case using allocate_overflow_page_ready [of fresh s n s'] by simp
next
  case (2 s e s')
  then show ?case using allocate_overflow_page_full [of fresh s e s'] by simp
next
  case (3 s n)
  then show ?case using free_page_contract [of s n] by (fastforce simp: pager_ready_def)
next
  case (4 s n b)
  then show ?case using put_page_ok [of s n b] by (simp add: pager_ready_def put_page_def)
next
  case (5 s n)
  then have "1 \<le> n" "n \<le> db_size s" by (auto simp: used_def)
  moreover have "sizes_ok s" using 5 by (simp add: pager_ready_def pager_inv_def)
  ultimately show ?case using sizes_okD [of s n] by simp
qed

section \<open>Runs of the pager\<close>

text \<open>
  The steps of a transaction: allocating, failing to allocate and rolling back the state machines,
  freeing and writing a page in use, and changing the limit on the file size.
\<close>

inductive pager_step :: "pager \<Rightarrow> pager \<Rightarrow> bool" where
  step_alloc: "usable p \<le> length fresh \<Longrightarrow> (present \<Longrightarrow> usable p \<le> length (pages p (db_size p + 1))) \<Longrightarrow>
    allocate_page fresh present p = (Inr n, p') \<Longrightarrow> pager_step p p'"
| step_full: "usable p \<le> length fresh \<Longrightarrow> (present \<Longrightarrow> usable p \<le> length (pages p (db_size p + 1))) \<Longrightarrow>
    allocate_page fresh present p = (Inl e, p') \<Longrightarrow> pager_step p (reset_internal_states p')"
| step_free: "n \<in> used p \<Longrightarrow> 2 \<le> n \<Longrightarrow> free_page p n = Inr p' \<Longrightarrow> pager_step p p'"
| step_put: "n \<in> used p \<Longrightarrow> length b = length (pages p n) \<Longrightarrow> pager_step p (put_page p n b)"
| step_max: "m < 2 ^ 32 \<Longrightarrow> set_max_page_count p m = (m', p') \<Longrightarrow> pager_step p p'"

lemma pager_inv_cong:
  assumes "pager_inv p" "pages p' = pages p" "db_size p' = db_size p" "trunk p' = trunk p" "free_count p' = free_count p"
    "usable p' = usable p" "page_size p' = page_size p" "max_page_count p' < 2 ^ 32"
  shows "pager_inv p'"
proof -
  from assms(1) obtain fl where "freelist_inv p fl" "sizes_ok p" by (auto simp: pager_inv_def)
  from this(1) have "freelist_inv p' fl"
    by (rule freelist_inv_cong) (simp_all only: assms(2-7) order_refl)
  moreover have "sizes_ok p'" using \<open>sizes_ok p\<close> assms by (simp add: sizes_ok_def)
  ultimately show ?thesis by (auto simp: pager_inv_def)
qed

lemma pager_step_inv:
  assumes "pager_step p p'" "pager_inv p" "alloc_state p = AllocStart"
  shows "pager_inv p' \<and> alloc_state p' = AllocStart"
  using assms
proof cases
  case (step_alloc fresh present n)
  then show ?thesis using allocate_page_contract [of p fresh present] assms by simp
next
  case (step_full fresh present e q)
  then have "pager_inv q" using allocate_page_contract [of p fresh present] assms by simp
  then have "pager_inv (reset_internal_states q)"
    by (rule pager_inv_cong) (use \<open>pager_inv q\<close> in \<open>auto simp: reset_internal_states_def pager_inv_def sizes_ok_def\<close>)
  then show ?thesis by (simp add: step_full(1) reset_internal_states_def)
next
  case (step_free n)
  then show ?thesis using free_page_contract [of p n] assms by auto
next
  case (step_put n b)
  then show ?thesis using put_page_ok [of p n b] assms by (simp add: put_page_def)
next
  case (step_max m m')
  have "max m (db_size p) < 2 ^ 32" using step_max assms(2) by (simp add: pager_inv_def sizes_ok_def)
  then have "pager_inv p'"
    using assms(2) step_max by (intro pager_inv_cong [OF assms(2)]) (auto simp: set_max_page_count_def Let_def)
  then show ?thesis using step_max assms(3) by (auto simp: set_max_page_count_def Let_def)
qed

lemma pager_inv_partition:
  assumes "pager_inv p"
  shows "free_count p = length (freelist p) \<and> distinct (freelist p) \<and> used p \<inter> set (freelist p) = {} \<and>
    used p \<union> set (freelist p) = {n. 1 \<le> n \<and> n \<le> db_size p \<and> Some n \<noteq> pending_byte_page_id p}"
proof -
  from assms obtain fl where fl: "freelist_inv p fl" by (auto simp: pager_inv_def)
  have sub: "set (flat fl) \<subseteq> {n. 2 \<le> n \<and> n \<le> db_size p \<and> Some n \<noteq> pending_byte_page_id p}"
    "free_count p = length (flat fl)" "distinct (flat fl)"
    using fl by (simp_all add: freelist_inv_def)
  show ?thesis unfolding used_eq [OF fl] freelist_inv_flat [OF fl] using sub by auto
qed

section \<open>Properties\<close>

text \<open>A database of three pages of twelve usable bytes each, with an empty freelist.\<close>

definition small_pager :: pager where
  "small_pager = \<lparr>pages = (\<lambda>_. replicate 12 7), db_size = 3, trunk = 0, free_count = 0, usable = 12,
     page_size = 512, max_page_count = 4, auto_vacuum_full = False, alloc_state = AllocStart\<rparr>"

lemma small_pager_facts:
  "pager_inv small_pager" "alloc_state small_pager = AllocStart" "used small_pager = {1, 2, 3}" "freelist small_pager = []"
proof -
  have inv: "freelist_inv small_pager []" by (simp add: freelist_inv_def small_pager_def)
  have "sizes_ok small_pager" by (simp add: sizes_ok_def small_pager_def)
  then show "pager_inv small_pager" using inv by (auto simp: pager_inv_def)
  show "alloc_state small_pager = AllocStart" by (simp add: small_pager_def)
  have "{n :: nat. 1 \<le> n \<and> n \<le> 3 \<and> n \<noteq> 2097153} = {1, 2, 3}" by auto
  then show "used small_pager = {1, 2, 3}"
    unfolding used_eq [OF inv] by (simp add: small_pager_def pending_byte_page_id_def)
  show "freelist small_pager = []" using freelist_inv_flat [OF inv] by simp
qed

text \<open>C30. Freeing a page in use succeeds, puts exactly that page on the freelist, and changes no
  page that stays in use. (The three header fields of page 1 that freeing updates are fields of the pager here, apart from the bytes of page 1.)\<close>

theorem free_page_correct:
  assumes "pager_inv p" "n \<in> used p" "2 \<le> n"
  shows "\<exists>p'. free_page p n = Inr p' \<and> pager_inv p' \<and> set (freelist p') = insert n (set (freelist p)) \<and>
    used p' = used p - {n} \<and> db_size p' = db_size p \<and> (\<forall>m \<in> used p'. pages p' m = pages p m)"
  using free_page_contract [OF assms] by blast

theorem free_page_correct_witness:
  "\<exists>p'. free_page small_pager 2 = Inr p' \<and> used p' = {1, 3} \<and> set (freelist p') = {2}"
  using free_page_correct [of small_pager 2] small_pager_facts by auto

text \<open>C31. Allocating returns a page that was not in use, taken from the freelist when that is not
  empty and past the end of the file otherwise, and never the lock-byte page; the pages in use stay
  in use with their contents, and the file grows only by allocating its last page, which lies within the limit. It fails only with \<open>DatabaseFull\<close>, only when the freelist is empty and
  the file is within two pages of its limit (a pointer map page and the lock-byte page may have to be skipped), and then the pages in use are unchanged too.\<close>

theorem allocate_page_correct:
  assumes "pager_inv p" "alloc_state p = AllocStart" "usable p \<le> length fresh"
    "present \<longrightarrow> usable p \<le> length (pages p (db_size p + 1))"
  shows "case allocate_page fresh present p of
      (Inr n, p') \<Rightarrow> pager_inv p' \<and> alloc_state p' = AllocStart \<and> n \<notin> used p \<and> 2 \<le> n \<and> n \<le> db_size p' \<and>
        insert n (used p) \<subseteq> used p' \<and> set (freelist p') = set (freelist p) - {n} \<and>
        (freelist p \<noteq> [] \<longrightarrow> n \<in> set (freelist p) \<and> db_size p' = db_size p) \<and>
        (db_size p' = db_size p \<or> db_size p < n \<and> db_size p' = n \<and> n \<le> max_page_count p) \<and>
        (\<forall>m \<in> used p. pages p' m = pages p m)
    | (Inl e, p') \<Rightarrow> e = DatabaseFull \<and> freelist p = [] \<and> max_page_count p \<le> db_size p + 2 \<and>
        pager_inv p' \<and> used p' = used p \<and> (\<forall>m \<in> used p. pages p' m = pages p m)"
proof -
  obtain r p' where run: "allocate_page fresh present p = (r, p')" by (cases "allocate_page fresh present p")
  show ?thesis
    using allocate_page_contract [of p fresh present, OF assms(1-3)] assms(4) allocate_page_limit [OF _ assms(2), of fresh present] unfolding run
    by (cases r) simp_all
qed

theorem allocate_page_correct_witness:
  "case allocate_page (replicate 12 0) False small_pager of
     (Inr n, p') \<Rightarrow> n = 4 \<and> {1, 2, 3, 4} \<subseteq> used p' | (Inl e, p') \<Rightarrow> False"
proof -
  have run: "fst (allocate_page (replicate 12 0) False small_pager) = Inr 4"
    by (simp add: allocate_page_def small_pager_def allocate_ptrmap_page_def allocate_new_page_def
        pending_byte_page_id_def Let_def)
  have "usable small_pager \<le> length (replicate 12 (0 :: u8))" by (simp add: small_pager_def)
  then show ?thesis
    using allocate_page_correct [of small_pager "replicate 12 0" False] run small_pager_facts
    by (auto split: prod.splits sum.splits)
qed

text \<open>C32. Along every run of allocations, failures with rollback, frees and page writes, the
  freelist stays well formed: it has no duplicates, its length is the counter of the header, and the
  file is exactly the disjoint union of the pages in use, the free pages and the lock-byte page.\<close>

theorem pager_run_partition:
  assumes "pager_inv p" "alloc_state p = AllocStart" "pager_step\<^sup>*\<^sup>* p p'"
  shows "free_count p' = length (freelist p') \<and> distinct (freelist p') \<and> used p' \<inter> set (freelist p') = {} \<and>
    used p' \<union> set (freelist p') = {n. 1 \<le> n \<and> n \<le> db_size p' \<and> Some n \<noteq> pending_byte_page_id p'}"
proof -
  have "pager_inv p' \<and> alloc_state p' = AllocStart"
    using assms(3,1,2) by (induction rule: rtranclp_induct) (auto dest: pager_step_inv)
  then show ?thesis by (intro pager_inv_partition) simp
qed

theorem pager_run_partition_witness:
  "\<exists>p'. pager_step\<^sup>*\<^sup>* small_pager p' \<and> set (freelist p') = {2} \<and> free_count p' = length (freelist p')"
proof -
  obtain p' where p': "free_page small_pager 2 = Inr p'" "set (freelist p') = {2}"
    using free_page_contract [of small_pager 2] small_pager_facts by auto
  have "pager_step small_pager p'"
    using p'(1) small_pager_facts(3) by (intro step_free [of 2]) simp_all
  then have "pager_step\<^sup>*\<^sup>* small_pager p'" by (rule r_into_rtranclp)
  then show ?thesis
    using pager_run_partition [OF small_pager_facts(1,2)] p'(2) by blast
qed

end
