(* ===== verification/Btree_Page.thy ===== *)
theory Btree_Page
  imports Freelist
begin

text \<open>
  The layout of a B-tree page: the accessors of \<^verbatim>\<open>PageInner\<close> (\<^verbatim>\<open>core/storage/pager.rs\<close>), the thresholds
  that decide how much of a payload stays on the page (\<^verbatim>\<open>btree.rs\<close>), and the decoding of cells
  (\<^verbatim>\<open>read_btree_cell\<close> of \<^verbatim>\<open>sqlite3_ondisk.rs\<close>) with the fast path for index keys and the computation of
  the bytes a cell occupies. Accesses outside the page buffer panic, as Rust's slice indexing does.
\<close>

section \<open>Page buffers\<close>

record page_inner =
  page_id :: nat
  page_buf :: bytes
  overflow_cells :: "(usize \<times> bytes) list"

definition page_offset :: "page_inner \<Rightarrow> usize" where
  "page_offset p = (if page_id p = 1 then 100 else 0)"

definition read_u8 :: "page_inner \<Rightarrow> usize \<Rightarrow> u8 res" where
  "read_u8 p pos = (let i = page_offset p + pos in
     if i < length (page_buf p) then Inr (page_buf p ! i) else Inl Panic)"

definition read_u16_no_offset :: "page_inner \<Rightarrow> usize \<Rightarrow> nat res" where
  "read_u16_no_offset p pos =
     (if pos + 2 \<le> length (page_buf p) then Inr (unat (from_be (slice (page_buf p) pos (pos + 2)) :: u16))
      else Inl Panic)"

definition read_u32_no_offset :: "page_inner \<Rightarrow> usize \<Rightarrow> nat res" where
  "read_u32_no_offset p pos =
     (if pos + 4 \<le> length (page_buf p) then Inr (read_u32 (page_buf p) pos) else Inl Panic)"

definition page_read_u16 :: "page_inner \<Rightarrow> usize \<Rightarrow> nat res" where
  "page_read_u16 p pos = read_u16_no_offset p (page_offset p + pos)"

definition page_read_u32 :: "page_inner \<Rightarrow> usize \<Rightarrow> nat res" where
  "page_read_u32 p pos = read_u32_no_offset p (page_offset p + pos)"

text \<open>Rust's \<^verbatim>\<open>buf[pos..pos + src.len()].copy_from_slice(src)\<close>.\<close>

definition copy_slice :: "bytes \<Rightarrow> usize \<Rightarrow> bytes \<Rightarrow> bytes res" where
  "copy_slice buf pos src =
     (if pos + length src \<le> length buf then Inr (take pos buf @ src @ drop (pos + length src) buf) else Inl Panic)"

definition write_bytes :: "page_inner \<Rightarrow> usize \<Rightarrow> bytes \<Rightarrow> page_inner res" where
  "write_bytes p pos src = rbind (copy_slice (page_buf p) pos src) (\<lambda>b. Inr (p\<lparr>page_buf := b\<rparr>))"

definition write_u8 :: "page_inner \<Rightarrow> usize \<Rightarrow> u8 \<Rightarrow> page_inner res" where
  "write_u8 p pos value = write_bytes p (page_offset p + pos) [value]"

definition write_u16_no_offset :: "page_inner \<Rightarrow> usize \<Rightarrow> nat \<Rightarrow> page_inner res" where
  "write_u16_no_offset p pos value = write_bytes p pos (be_bytes 2 (of_nat value :: u16))"

definition page_write_u16 :: "page_inner \<Rightarrow> usize \<Rightarrow> nat \<Rightarrow> page_inner res" where
  "page_write_u16 p pos value = write_u16_no_offset p (page_offset p + pos) value"

definition page_write_u32 :: "page_inner \<Rightarrow> usize \<Rightarrow> nat \<Rightarrow> page_inner res" where
  "page_write_u32 p pos value = write_bytes p (page_offset p + pos) (be_bytes 4 (of_nat value :: u32))"

section \<open>The page header\<close>

definition page_type_of :: "page_inner \<Rightarrow> page_type res" where
  "page_type_of p = rbind (read_u8 p 0) page_type_try_from"

definition first_freeblock :: "page_inner \<Rightarrow> nat res" where
  "first_freeblock p = page_read_u16 p 1"

definition cell_count :: "page_inner \<Rightarrow> nat res" where
  "cell_count p = page_read_u16 p 3"

definition cell_content_area :: "page_inner \<Rightarrow> nat res" where
  "cell_content_area p = rbind (page_read_u16 p 5) (\<lambda>offset. Inr (if offset = 0 then 65536 else offset))"

definition num_frag_free_bytes :: "page_inner \<Rightarrow> u8 res" where
  "num_frag_free_bytes p = read_u8 p 7"

definition header_size :: "page_inner \<Rightarrow> usize res" where
  "header_size p = rbind (read_u8 p 0) (\<lambda>b. Inr (if b \<le> page_type_to_u8 TableInterior then 12 else 8))"

definition is_leaf :: "page_inner \<Rightarrow> bool res" where
  "is_leaf p = rbind (read_u8 p 0) (\<lambda>b. Inr (b > page_type_to_u8 TableInterior))"

definition rightmost_pointer :: "page_inner \<Rightarrow> nat option res" where
  "rightmost_pointer p = rbind (page_type_of p) (\<lambda>t. case t of
       IndexInterior \<Rightarrow> rbind (page_read_u32 p 8) (\<lambda>n. Inr (Some n))
     | TableInterior \<Rightarrow> rbind (page_read_u32 p 8) (\<lambda>n. Inr (Some n))
     | _ \<Rightarrow> Inr None)"

definition cell_pointer_array_size :: "page_inner \<Rightarrow> usize res" where
  "cell_pointer_array_size p = rbind (cell_count p) (\<lambda>n. Inr (n * 2))"

definition cell_pointer_array_offset :: "page_inner \<Rightarrow> usize res" where
  "cell_pointer_array_offset p = rbind (header_size p) (\<lambda>h. Inr (page_offset p + h))"

definition unallocated_region_start :: "page_inner \<Rightarrow> usize res" where
  "unallocated_region_start p =
     rbind (cell_pointer_array_offset p) (\<lambda>a. rbind (cell_pointer_array_size p) (\<lambda>n. Inr (a + n)))"

definition unallocated_region_size :: "page_inner \<Rightarrow> usize res" where
  "unallocated_region_size p =
     rbind (cell_content_area p) (\<lambda>c. rbind (unallocated_region_start p) (\<lambda>s.
       if s \<le> c then Inr (c - s) else Inl Panic))"

definition read_freeblock :: "page_inner \<Rightarrow> usize \<Rightarrow> (nat \<times> nat) res" where
  "read_freeblock p offset =
     rbind (read_u16_no_offset p offset) (\<lambda>next_ptr. rbind (read_u16_no_offset p (offset + 2)) (\<lambda>sz.
       Inr (next_ptr, sz)))"

definition write_page_type :: "page_inner \<Rightarrow> u8 \<Rightarrow> page_inner res" where
  "write_page_type p value = write_u8 p 0 value"

definition write_rightmost_ptr :: "page_inner \<Rightarrow> nat \<Rightarrow> page_inner res" where
  "write_rightmost_ptr p value = page_write_u32 p 8 value"

definition write_first_freeblock :: "page_inner \<Rightarrow> nat \<Rightarrow> page_inner res" where
  "write_first_freeblock p value = page_write_u16 p 1 value"

definition write_freeblock_size :: "page_inner \<Rightarrow> usize \<Rightarrow> nat \<Rightarrow> page_inner res" where
  "write_freeblock_size p offset sz = write_u16_no_offset p (offset + 2) sz"

definition write_freeblock_next_ptr :: "page_inner \<Rightarrow> usize \<Rightarrow> nat \<Rightarrow> page_inner res" where
  "write_freeblock_next_ptr p offset next_block = write_u16_no_offset p offset next_block"

definition write_freeblock :: "page_inner \<Rightarrow> usize \<Rightarrow> nat \<Rightarrow> nat option \<Rightarrow> page_inner res" where
  "write_freeblock p offset sz next_block =
     rbind (write_freeblock_next_ptr p offset (case next_block of Some n \<Rightarrow> n | None \<Rightarrow> 0)) (\<lambda>p.
       write_freeblock_size p offset sz)"

definition write_cell_count :: "page_inner \<Rightarrow> nat \<Rightarrow> page_inner res" where
  "write_cell_count p value = page_write_u16 p 3 value"

definition write_cell_content_area :: "page_inner \<Rightarrow> nat \<Rightarrow> page_inner res" where
  "write_cell_content_area p value = (if value \<le> 65536 then page_write_u16 p 5 value else Inl Panic)"

definition write_fragmented_bytes_count :: "page_inner \<Rightarrow> u8 \<Rightarrow> page_inner res" where
  "write_fragmented_bytes_count p value = write_u8 p 7 value"

section \<open>Local payload\<close>

text \<open>The subtractions do not underflow for the usable sizes of a valid database header, at least 257.\<close>

fun payload_overflow_threshold_max :: "page_type \<Rightarrow> usize \<Rightarrow> usize" where
  "payload_overflow_threshold_max IndexInterior usable_size = (usable_size - 12) * 64 div 255 - 23"
| "payload_overflow_threshold_max IndexLeaf usable_size = (usable_size - 12) * 64 div 255 - 23"
| "payload_overflow_threshold_max TableInterior usable_size = usable_size - 35"
| "payload_overflow_threshold_max TableLeaf usable_size = usable_size - 35"

definition payload_overflow_threshold_min :: "page_type \<Rightarrow> usize \<Rightarrow> usize" where
  "payload_overflow_threshold_min page_type usable_size = (usable_size - 12) * 32 div 255 - 23"

definition payload_overflows :: "usize \<Rightarrow> usize \<Rightarrow> usize \<Rightarrow> usize \<Rightarrow> bool \<times> usize" where
  "payload_overflows payload_size max_local min_local usable_size =
     (if payload_size \<le> max_local then (False, 0)
      else
        let space_left = min_local + (payload_size - min_local) mod (usable_size - 4);
            space_left = (if space_left > max_local then min_local else space_left)
        in (True, space_left + 4))"

section \<open>Cells\<close>

datatype btree_cell =
    TableInteriorCell nat i64
  | TableLeafCell i64 bytes u64 "nat option"
  | IndexInteriorCell nat bytes u64 "nat option"
  | IndexLeafCell bytes u64 "nat option"

text \<open>\<^verbatim>\<open>slice_in_bounds_or_corrupt!(page, pos..)\<close>.\<close>

definition slice_or_corrupt :: "bytes \<Rightarrow> usize \<Rightarrow> bytes res" where
  "slice_or_corrupt b pos = (if pos \<le> length b then Inr (drop pos b) else Inl Corrupt)"

definition varint_at :: "bytes \<Rightarrow> usize \<Rightarrow> (u64 \<times> usize) res" where
  "varint_at b pos = rbind (slice_or_corrupt b pos) read_varint"

definition read_payload :: "bytes \<Rightarrow> usize \<Rightarrow> (bytes \<times> nat option) res" where
  "read_payload unread payload_size =
     (let cell_len = length unread in
      if payload_size \<le> cell_len then Inr (take payload_size unread, None)
      else if cell_len < 4 then Inl Corrupt
      else Inr (take (cell_len - 4) unread, Some (read_u32 unread (cell_len - 4))))"

text \<open>The common end of the three arms of \<^verbatim>\<open>read_btree_cell\<close> that have a payload.\<close>

definition payload_at :: "bytes \<Rightarrow> page_type \<Rightarrow> usize \<Rightarrow> usize \<Rightarrow> u64 \<Rightarrow> (bytes \<times> nat option) res" where
  "payload_at page page_type usable_size pos payload_size =
     (let (overflows, to_read) =
            payload_overflows (unat payload_size) (payload_overflow_threshold_max page_type usable_size)
              (payload_overflow_threshold_min page_type usable_size) usable_size;
          to_read = (if overflows then to_read else length page - pos)
      in if pos + to_read \<le> length page then read_payload (slice page pos (pos + to_read)) (unat payload_size)
         else Inl Corrupt)"

definition read_btree_cell :: "bytes \<Rightarrow> page_inner \<Rightarrow> usize \<Rightarrow> usize \<Rightarrow> btree_cell res" where
  "read_btree_cell page page_content pos usable_size =
     rbind (page_type_of page_content) (\<lambda>page_type. case page_type of
       IndexInterior \<Rightarrow>
         if pos + 4 \<le> length page then
           let left_child_page = read_u32 page pos in
           rbind (varint_at page (pos + 4)) (\<lambda>(payload_size, nr).
           rbind (payload_at page page_type usable_size (pos + 4 + nr) payload_size) (\<lambda>(payload, first_overflow_page).
             Inr (IndexInteriorCell left_child_page payload payload_size first_overflow_page)))
         else Inl Corrupt
     | TableInterior \<Rightarrow>
         if pos + 4 \<le> length page then
           let left_child_page = read_u32 page pos in
           rbind (varint_at page (pos + 4)) (\<lambda>(rowid, _). Inr (TableInteriorCell left_child_page rowid))
         else Inl Corrupt
     | IndexLeaf \<Rightarrow>
         rbind (varint_at page pos) (\<lambda>(payload_size, nr).
         rbind (payload_at page page_type usable_size (pos + nr) payload_size) (\<lambda>(payload, first_overflow_page).
           Inr (IndexLeafCell payload payload_size first_overflow_page)))
     | TableLeaf \<Rightarrow>
         rbind (varint_at page pos) (\<lambda>(payload_size, nr).
         rbind (varint_at page (pos + nr)) (\<lambda>(rowid, nr').
         rbind (payload_at page page_type usable_size (pos + nr + nr') payload_size) (\<lambda>(payload, first_overflow_page).
           Inr (TableLeafCell rowid payload payload_size first_overflow_page)))))"

definition cell_pointer :: "page_inner \<Rightarrow> usize \<Rightarrow> usize res" where
  "cell_pointer p idx = rbind (header_size p) (\<lambda>h. page_read_u16 p (h + idx * 2))"

definition cell_get :: "page_inner \<Rightarrow> usize \<Rightarrow> usize \<Rightarrow> btree_cell res" where
  "cell_get p idx usable_size =
     rbind (cell_count p) (\<lambda>ncells.
       if idx < ncells then rbind (cell_pointer p idx) (\<lambda>pos. read_btree_cell (page_buf p) p pos usable_size)
       else Inl Panic)"

definition cell_table_interior_read_rowid :: "page_inner \<Rightarrow> usize \<Rightarrow> i64 res" where
  "cell_table_interior_read_rowid p idx =
     (if page_type_of p \<noteq> Inr TableInterior then Inl Panic
      else rbind (cell_pointer p idx) (\<lambda>c. rbind (varint_at (page_buf p) (c + 4)) (\<lambda>(rowid, _). Inr rowid)))"

definition cell_interior_read_left_child_page :: "page_inner \<Rightarrow> usize \<Rightarrow> nat res" where
  "cell_interior_read_left_child_page p idx =
     (if page_type_of p \<noteq> Inr TableInterior \<and> page_type_of p \<noteq> Inr IndexInterior then Inl Panic
      else rbind (cell_pointer p idx) (\<lambda>c.
        if c + 4 \<le> length (page_buf p) then Inr (read_u32 (page_buf p) c) else Inl Corrupt))"

definition cell_table_leaf_read_rowid :: "page_inner \<Rightarrow> usize \<Rightarrow> i64 res" where
  "cell_table_leaf_read_rowid p idx =
     (if page_type_of p \<noteq> Inr TableLeaf then Inl Panic
      else rbind (cell_pointer p idx) (\<lambda>pos. rbind (varint_at (page_buf p) pos) (\<lambda>(_, nr).
        rbind (varint_at (page_buf p) (pos + nr)) (\<lambda>(rowid, _). Inr rowid))))"

definition cell_index_read_payload_ptr :: "page_inner \<Rightarrow> usize \<Rightarrow> usize \<Rightarrow> (bytes \<times> u64 \<times> nat option) res" where
  "cell_index_read_payload_ptr p idx usable_size =
     rbind (cell_pointer p idx) (\<lambda>cell_offset.
     rbind (page_type_of p) (\<lambda>page_type.
     rbind (case page_type of
              IndexInterior \<Rightarrow> rbind (varint_at (page_buf p) (cell_offset + 4)) (\<lambda>(sz, len). Inr (sz, len, 4))
            | IndexLeaf \<Rightarrow> rbind (varint_at (page_buf p) cell_offset) (\<lambda>(sz, len). Inr (sz, len, 0))
            | _ \<Rightarrow> Inl Panic) (\<lambda>(payload_size, varint_len, header_skip).
       let buf = page_buf p;
           payload_start = cell_offset + header_skip + varint_len;
           (overflows, local_size) =
             payload_overflows (unat payload_size) (payload_overflow_threshold_max page_type usable_size)
               (payload_overflow_threshold_min page_type usable_size) usable_size
       in if overflows then
            let payload_end = payload_start + local_size - 4 in
            if \<not> payload_end + 4 \<le> length buf then Inl Corrupt
            else if \<not> (payload_start < payload_end \<and> payload_end \<le> length buf) then Inl Corrupt
            else Inr (slice buf payload_start payload_end, payload_size, Some (read_u32 buf payload_end))
          else
            let payload_end = payload_start + unat payload_size in
            if payload_end \<le> length buf then Inr (slice buf payload_start payload_end, payload_size, None)
            else Inl Corrupt)))"

definition cell_get_raw_start_offset :: "page_inner \<Rightarrow> usize \<Rightarrow> usize res" where
  "cell_get_raw_start_offset p idx =
     rbind (cell_pointer_array_offset p) (\<lambda>a. read_u16_no_offset p (a + idx * 2))"

definition cell_get_raw_region_faster ::
  "page_inner \<Rightarrow> usize \<Rightarrow> usize \<Rightarrow> usize \<Rightarrow> usize \<Rightarrow> usize \<Rightarrow> page_type \<Rightarrow> (usize \<times> usize) res" where
  "cell_get_raw_region_faster p idx usable_size ncells max_local min_local page_type =
     (let buf = page_buf p;
          local = (\<lambda>len_payload. payload_overflows (unat len_payload) max_local min_local usable_size)
      in if \<not> idx < ncells then Inl Panic
      else rbind (cell_get_raw_start_offset p idx) (\<lambda>start.
        rbind (case page_type of
            IndexInterior \<Rightarrow> rbind (varint_at buf (start + 4)) (\<lambda>(len_payload, n_payload).
              case local len_payload of (overflows, to_read) \<Rightarrow>
                Inr (if overflows then 4 + to_read + n_payload else 4 + unat len_payload + n_payload))
          | TableInterior \<Rightarrow> rbind (varint_at buf (start + 4)) (\<lambda>(_, n_rowid). Inr (4 + n_rowid))
          | IndexLeaf \<Rightarrow> rbind (varint_at buf start) (\<lambda>(len_payload, n_payload).
              case local len_payload of (overflows, to_read) \<Rightarrow>
                Inr (if overflows then to_read + n_payload else max 4 (unat len_payload + n_payload)))
          | TableLeaf \<Rightarrow> rbind (varint_at buf start) (\<lambda>(len_payload, n_payload).
              rbind (varint_at buf (start + n_payload)) (\<lambda>(_, n_rowid).
              case local len_payload of (overflows, to_read) \<Rightarrow>
                Inr (if overflows then to_read + n_payload + n_rowid
                     else max 4 (unat len_payload + n_payload + n_rowid))))) (\<lambda>len.
        if start + len \<le> length buf then Inr (start, len) else Inl Corrupt)))"

definition cell_get_raw_region :: "page_inner \<Rightarrow> usize \<Rightarrow> usize \<Rightarrow> (usize \<times> usize) res" where
  "cell_get_raw_region p idx usable_size =
     rbind (page_type_of p) (\<lambda>page_type. rbind (cell_count p) (\<lambda>n.
       cell_get_raw_region_faster p idx usable_size n (payload_overflow_threshold_max page_type usable_size)
         (payload_overflow_threshold_min page_type usable_size) page_type))"

section \<open>How much payload stays on the page\<close>

lemma thresholds:
  assumes "257 \<le> u"
  shows "7 \<le> payload_overflow_threshold_min t u"
    "payload_overflow_threshold_min t u + 5 \<le> payload_overflow_threshold_max t u"
    "payload_overflow_threshold_max t u + 35 \<le> u"
proof -
  define a where "a = u - 12"
  define q where "q = a * 32 div 255"
  have a: "245 \<le> a" "u = a + 12" using assms by (simp_all add: a_def)
  have "245 * 32 div 255 \<le> q" unfolding q_def using a(1) by (intro div_le_mono) simp
  then have q: "30 \<le> q" by simp
  have "255 * q \<le> a * 32" unfolding q_def by simp
  then have "2 * q * 255 \<le> a * 64" by simp
  then have lo: "2 * q \<le> a * 64 div 255" by (simp add: less_eq_div_iff_mult_less_eq)
  have "a * 64 \<le> a * 255" by simp
  then have hi: "a * 64 div 255 \<le> a" by (metis div_le_mono nonzero_mult_div_cancel_right zero_neq_numeral)
  have mn: "payload_overflow_threshold_min t u = q - 23"
    by (simp add: payload_overflow_threshold_min_def q_def a_def)
  show "7 \<le> payload_overflow_threshold_min t u" using q mn by simp
  show "payload_overflow_threshold_min t u + 5 \<le> payload_overflow_threshold_max t u"
  proof (cases t)
    case IndexInterior
    then show ?thesis using q lo mn by (simp add: a_def [symmetric])
  next
    case IndexLeaf
    then show ?thesis using q lo mn by (simp add: a_def [symmetric])
  next
    case TableInterior
    have "q \<le> a" using hi lo by linarith
    then show ?thesis using q lo hi a mn TableInterior by simp
  next
    case TableLeaf
    then show ?thesis using q lo hi a mn by simp
  qed
  show "payload_overflow_threshold_max t u + 35 \<le> u"
    using hi a lo q by (cases t) (simp_all add: a_def [symmetric])
qed

lemma payload_overflows_cases:
  assumes "257 \<le> u"
    and "payload_overflows n (payload_overflow_threshold_max t u) (payload_overflow_threshold_min t u) u = (ov, l)"
  shows "ov \<longleftrightarrow> payload_overflow_threshold_max t u < n"
    and "\<not> ov \<Longrightarrow> l = 0"
    and "ov \<Longrightarrow> payload_overflow_threshold_min t u + 4 \<le> l"
    and "ov \<Longrightarrow> l \<le> payload_overflow_threshold_max t u + 4"
    and "ov \<Longrightarrow> l < n"
    and "ov \<Longrightarrow> (n - (l - 4)) mod (u - 4) = 0 \<or> l = payload_overflow_threshold_min t u + 4"
proof -
  let ?X = "payload_overflow_threshold_max t u" and ?M = "payload_overflow_threshold_min t u"
  note th = thresholds [OF assms(1), of t]
  let ?k = "?M + (n - ?M) mod (u - 4)"
  show "ov \<longleftrightarrow> ?X < n" and "\<not> ov \<Longrightarrow> l = 0"
    using assms(2) by (auto simp: payload_overflows_def Let_def split: if_splits)
  assume ov: ov
  then have X: "?X < n" using \<open>ov \<longleftrightarrow> ?X < n\<close> by simp
  have l: "l = (if ?k > ?X then ?M else ?k) + 4"
    using assms(2) ov by (auto simp: payload_overflows_def Let_def split: if_splits)
  show "?M + 4 \<le> l" "l \<le> ?X + 4" using l th by (auto split: if_splits)
  have "n - ?M = (n - ?M) div (u - 4) * (u - 4) + (n - ?M) mod (u - 4)"
    by (rule div_mult_mod_eq [symmetric])
  then have n: "n = ?k + (n - ?M) div (u - 4) * (u - 4)" using X th by linarith
  show "l < n"
  proof (cases "?k > ?X")
    case True
    then show ?thesis using l X th by simp
  next
    case False
    then have "(n - ?M) div (u - 4) \<noteq> 0" using n X by (metis add.right_neutral mult_zero_left)
    then have "u - 4 \<le> (n - ?M) div (u - 4) * (u - 4)" by simp
    then have "?k + (u - 4) \<le> n" using n by linarith
    moreover have "l = ?k + 4" using l False by simp
    ultimately show ?thesis using assms(1) by linarith
  qed
  show "(n - (l - 4)) mod (u - 4) = 0 \<or> l = ?M + 4"
  proof (cases "?k > ?X")
    case False
    then have "l - 4 = ?k" using l by simp
    then have "n - (l - 4) = (n - ?M) div (u - 4) * (u - 4)" using n by linarith
    then show ?thesis by simp
  qed (simp add: l)
qed

section \<open>The fast path for index keys\<close>

fun index_cell_payload :: "btree_cell \<Rightarrow> bytes \<times> u64 \<times> nat option" where
  "index_cell_payload (IndexInteriorCell l payload payload_size ov) = (payload, payload_size, ov)"
| "index_cell_payload (IndexLeafCell payload payload_size ov) = (payload, payload_size, ov)"
| "index_cell_payload (TableLeafCell r payload payload_size ov) = (payload, payload_size, ov)"
| "index_cell_payload (TableInteriorCell l r) = ([], 0, None)"

lemma slice_slice:
  "b \<le> length xs \<Longrightarrow> a \<le> b \<Longrightarrow> take k (slice xs a b) = slice xs a (min (a + k) b)"
  by (auto simp: slice_def min_def)

lemma read_u32_slice:
  "a + i + 4 \<le> b \<Longrightarrow> b \<le> length xs \<Longrightarrow> read_u32 (slice xs a b) i = read_u32 xs (a + i)"
  by (auto simp: read_u32_def slice_def drop_take min_def add.commute add.left_commute)

text \<open>What both readers do once the payload size and the position of the payload are known.\<close>

lemma payload_at_eq:
  assumes "257 \<le> u" "pos \<le> length page"
    and "payload_overflows (unat n) (payload_overflow_threshold_max t u) (payload_overflow_threshold_min t u) u = (ov, l)"
  shows "payload_at page t u pos n =
    (if ov then
       if pos + l \<le> length page then Inr (slice page pos (pos + l - 4), Some (read_u32 page (pos + l - 4)))
       else Inl Corrupt
     else if pos + unat n \<le> length page then Inr (slice page pos (pos + unat n), None)
     else if length page < pos + 4 then Inl Corrupt
     else Inr (slice page pos (length page - 4), Some (read_u32 page (length page - 4))))"
proof (cases ov)
  case True
  note c = payload_overflows_cases [OF assms(1,3)]
  have l: "l < unat n" "4 \<le> l" using c(3,5) [OF True] by simp_all
  then show ?thesis
    using True assms(2,3)
    by (auto simp: payload_at_def read_payload_def Let_def slice_slice read_u32_slice min_def)
next
  case False
  have "slice page pos (length page) = drop pos page" by (simp add: slice_def)
  then show ?thesis
    using False assms(2,3)
    by (auto simp: payload_at_def read_payload_def Let_def slice_def read_u32_def drop_take min_def
        le_diff_conv2 diff_le_eq add.commute)
qed

lemma varint_at_Inr:
  "varint_at b pos = Inr (v, n) \<longleftrightarrow> pos \<le> length b \<and> read_varint (drop pos b) = Inr (v, n)"
  by (auto simp: varint_at_def slice_or_corrupt_def)

lemma varint_at_bounds:
  assumes "varint_at b pos = Inr (v, n)"
  shows "0 < n" "pos + n \<le> length b"
  using assms read_varint_Inr_bounds [of "drop pos b" v n] by (auto simp: varint_at_Inr)

lemma varint_at_Inl: "varint_at b pos = Inl e \<Longrightarrow> e = Corrupt"
  by (auto simp: varint_at_def slice_or_corrupt_def rbind_eq_Inl_iff dest: read_varint_Inl split: if_splits)

lemma index_fast_path_eq:
  assumes u: "257 \<le> u" and t: "page_type_of p = Inr t" "t = IndexInterior \<or> t = IndexLeaf"
    and n: "cell_count p = Inr n" "idx < n"
  shows "cell_index_read_payload_ptr p idx u =
    rbind (cell_get p idx u) (\<lambda>c. case index_cell_payload c of (payload, payload_size, ov) \<Rightarrow>
      if ov \<noteq> None \<and> unat payload_size \<le> payload_overflow_threshold_max t u then Inl Corrupt
      else Inr (payload, payload_size, ov))"
proof (cases "cell_pointer p idx")
  case (Inl e)
  then show ?thesis using n by (simp add: cell_index_read_payload_ptr_def cell_get_def)
next
  case (Inr c)
  let ?skip = "if t = IndexInterior then 4 else (0 :: nat)"
  have fast: "cell_index_read_payload_ptr p idx u =
    rbind (varint_at (page_buf p) (c + ?skip)) (\<lambda>(sz, len).
      let buf = page_buf p; s = c + ?skip + len;
          (ov, l) = payload_overflows (unat sz) (payload_overflow_threshold_max t u) (payload_overflow_threshold_min t u) u
      in if ov then
           let e = s + l - 4 in
           if \<not> e + 4 \<le> length buf then Inl Corrupt
           else if \<not> (s < e \<and> e \<le> length buf) then Inl Corrupt
           else Inr (slice buf s e, sz, Some (read_u32 buf e))
         else if s + unat sz \<le> length buf then Inr (slice buf s (s + unat sz), sz, None) else Inl Corrupt)"
    using t Inr
    by (elim disjE) (simp_all add: cell_index_read_payload_ptr_def Let_def rbind_def case_prod_beta
        split: sum.split del: payload_overflow_threshold_max.simps)
  have slow: "rbind (cell_get p idx u) (\<lambda>c. case index_cell_payload c of (payload, payload_size, ov) \<Rightarrow>
      if ov \<noteq> None \<and> unat payload_size \<le> payload_overflow_threshold_max t u then Inl Corrupt
      else Inr (payload, payload_size, ov)) =
    rbind (varint_at (page_buf p) (c + ?skip)) (\<lambda>(sz, len).
      rbind (payload_at (page_buf p) t u (c + ?skip + len) sz) (\<lambda>(payload, ov).
        if ov \<noteq> None \<and> unat sz \<le> payload_overflow_threshold_max t u then Inl Corrupt
        else Inr (payload, sz, ov)))"
  proof -
    have get: "cell_get p idx u = rbind (varint_at (page_buf p) (c + ?skip)) (\<lambda>(sz, len).
        rbind (payload_at (page_buf p) t u (c + ?skip + len) sz) (\<lambda>(payload, ov).
          Inr (if t = IndexInterior then IndexInteriorCell (read_u32 (page_buf p) c) payload sz ov
               else IndexLeafCell payload sz ov)))"
    proof (cases "c + ?skip \<le> length (page_buf p)")
      case True
      then show ?thesis using t Inr n by (auto simp: cell_get_def read_btree_cell_def Let_def)
    next
      case False
      then show ?thesis using t Inr n
        by (auto simp: cell_get_def read_btree_cell_def varint_at_def slice_or_corrupt_def)
    qed
    show ?thesis
    proof (cases "varint_at (page_buf p) (c + ?skip)")
      case v: (Inr r)
      obtain sz len where r: "r = (sz, len)" by (cases r)
      show ?thesis unfolding get v r
        by (cases "payload_at (page_buf p) t u (c + ?skip + len) sz") (simp_all split: prod.split)
    qed (simp add: get)
  qed
  show ?thesis
  proof (cases "varint_at (page_buf p) (c + ?skip)")
    case (Inl e)
    then show ?thesis unfolding fast slow by simp
  next
    case v: (Inr r)
    obtain sz len where r: "r = (sz, len)" by (cases r)
    have pos: "c + ?skip + len \<le> length (page_buf p)" using varint_at_bounds [of "page_buf p" "c + ?skip" sz len] v r by simp
    obtain ov l where ovl: "payload_overflows (unat sz) (payload_overflow_threshold_max t u) (payload_overflow_threshold_min t u) u = (ov, l)"
      by (cases "payload_overflows (unat sz) (payload_overflow_threshold_max t u) (payload_overflow_threshold_min t u) u")
    note pc = payload_overflows_cases [OF u ovl]
    note eq = payload_at_eq [OF u pos ovl]
    show ?thesis
    proof (cases ov)
      case True
      have "11 \<le> l" using pc(3) [OF True] thresholds(1) [OF u, of t] by simp
      then show ?thesis unfolding fast slow using v r eq ovl True pc(1) by (auto simp: Let_def)
    next
      case False
      then show ?thesis unfolding fast slow using v r eq ovl pc(1) by (auto simp: Let_def)
    qed
  qed
qed

section \<open>Errors\<close>

lemma payload_at_Inl: "payload_at page t u pos n = Inl e \<Longrightarrow> e = Corrupt"
  by (auto simp: payload_at_def read_payload_def Let_def split: if_splits prod.splits)

lemma page_type_try_from_Inl: "page_type_try_from b = Inl e \<Longrightarrow> e = Corrupt"
  by (auto simp: page_type_try_from_def split: if_splits)

lemma read_u8_Inl: "read_u8 p i = Inl e \<Longrightarrow> length (page_buf p) \<le> page_offset p + i"
  by (auto simp: read_u8_def Let_def split: if_splits)

lemma read_btree_cell_Inl:
  assumes "read_btree_cell b p pos u = Inl e" "page_offset p < length (page_buf p)"
  shows "e = Corrupt"
proof -
  have "page_type_of p = Inl e \<Longrightarrow> e = Corrupt"
    using assms(2) by (auto simp: page_type_of_def rbind_eq_Inl_iff dest: page_type_try_from_Inl read_u8_Inl)
  then show ?thesis
    using assms(1)
    by (cases "page_type_of p", simp add: read_btree_cell_def)
      (rename_tac t, case_tac t, auto simp: read_btree_cell_def rbind_eq_Inl_iff Let_def
        dest: varint_at_Inl payload_at_Inl split: if_splits)
qed

section \<open>The bytes of a cell\<close>

text \<open>
  The number of bytes a cell takes, computed from the bytes that start with it; on the page it
  takes at least four. Reading the cell depends on these bytes only.
\<close>

definition local_size :: "page_type \<Rightarrow> usize \<Rightarrow> u64 \<Rightarrow> usize" where
  "local_size t u n =
     (case payload_overflows (unat n) (payload_overflow_threshold_max t u) (payload_overflow_threshold_min t u) u of
        (ov, l) \<Rightarrow> if ov then l else unat n)"

definition cell_raw_len :: "page_type \<Rightarrow> usize \<Rightarrow> bytes \<Rightarrow> usize res" where
  "cell_raw_len t u b =
     (case t of
        IndexInterior \<Rightarrow> rbind (varint_at b 4) (\<lambda>(n, k). Inr (4 + local_size t u n + k))
      | TableInterior \<Rightarrow> rbind (varint_at b 4) (\<lambda>(_, k). Inr (4 + k))
      | IndexLeaf \<Rightarrow> rbind (varint_at b 0) (\<lambda>(n, k). Inr (local_size t u n + k))
      | TableLeaf \<Rightarrow> rbind (varint_at b 0) (\<lambda>(n, k). rbind (varint_at b k) (\<lambda>(_, k'). Inr (local_size t u n + k + k'))))"

lemma read_varint_Nil: "read_varint [] = Inl Corrupt"
  by (simp add: read_varint_def read_varint_loop.simps [of "[]" 0])

lemma varint_at_drop: "varint_at b (s + k) = varint_at (drop s b) k"
  by (auto simp: varint_at_def slice_or_corrupt_def read_varint_Nil add.commute)

lemma varint_at_prefix:
  assumes "varint_at b k = Inr (v, n)" "take (k + n) b' = take (k + n) b"
  shows "varint_at b' k = Inr (v, n)"
proof -
  have k: "k + n \<le> length b" using varint_at_bounds(2) [OF assms(1)] .
  have "length (take (k + n) b') = k + n" using assms(2) k by simp
  then have k': "k + n \<le> length b'" by (simp add: min_def split: if_splits)
  have "take n (drop k b') = take n (drop k b)"
    using arg_cong [OF assms(2), of "drop k"] by (simp add: drop_take)
  then show ?thesis
    using assms(1) k k' read_varint_prefix [of "drop k b" v n "drop k b'"] by (simp add: varint_at_Inr)
qed

lemma raw_region_eq:
  assumes t: "page_type_of p = Inr t" and n: "cell_count p = Inr n" "idx < n" and u: "257 \<le> u"
  shows "cell_get_raw_region p idx u =
    rbind (cell_get_raw_start_offset p idx) (\<lambda>s. rbind (cell_raw_len t u (drop s (page_buf p))) (\<lambda>l.
      if s + max 4 l \<le> length (page_buf p) then Inr (s, max 4 l) else Inl Corrupt))"
proof -
  have lo: "payload_overflows (unat v) (payload_overflow_threshold_max t u) (payload_overflow_threshold_min t u) u = (True, l) \<Longrightarrow> 4 \<le> l" for v l
    using payload_overflows_cases(3) [OF u] by fastforce
  note defs = cell_get_raw_region_def cell_get_raw_region_faster_def cell_raw_len_def local_size_def Let_def rbind_def
    varint_at_drop [symmetric] max_def
  show ?thesis
  proof (cases t)
    case IndexInterior
    then show ?thesis using t n
      by (auto simp: defs split: sum.split prod.split simp del: payload_overflow_threshold_max.simps)
  next
    case TableInterior
    then show ?thesis using t n by (auto simp: defs split: sum.split prod.split)
  next
    case IndexLeaf
    then show ?thesis using t n
      by (auto simp: defs dest: lo [unfolded IndexLeaf] split: sum.split prod.split
          simp del: payload_overflow_threshold_max.simps)
  next
    case TableLeaf
    then show ?thesis using t n
      by (auto simp: defs dest: lo [unfolded TableLeaf] split: sum.split prod.split
          simp del: payload_overflow_threshold_max.simps)
  qed
qed

lemma cell_raw_len_prefix:
  assumes "cell_raw_len t u b = Inr l" "take l b' = take l b"
  shows "cell_raw_len t u b' = Inr l"
proof -
  have tk: "take j b' = take j b" if "j \<le> l" for j
    using arg_cong [OF assms(2), of "take j"] that by (simp add: min_def)
  note vp = varint_at_prefix [OF _ tk]
  show ?thesis
  proof (cases t)
    case TableLeaf
    with assms(1) obtain n k v k' where "varint_at b 0 = Inr (n, k)" "varint_at b k = Inr (v, k')"
      "l = local_size TableLeaf u n + k + k'"
      by (auto simp: cell_raw_len_def rbind_eq_Inr_iff)
    then show ?thesis using TableLeaf vp [of 0 n k] vp [of k v k'] by (simp add: cell_raw_len_def)
  next
    case IndexLeaf
    with assms(1) obtain n k where "varint_at b 0 = Inr (n, k)" "l = local_size IndexLeaf u n + k"
      by (auto simp: cell_raw_len_def rbind_eq_Inr_iff)
    then show ?thesis using IndexLeaf vp [of 0 n k] by (simp add: cell_raw_len_def)
  next
    case TableInterior
    with assms(1) obtain n k where "varint_at b 4 = Inr (n, k)" "l = 4 + k"
      by (auto simp: cell_raw_len_def rbind_eq_Inr_iff)
    then show ?thesis using TableInterior vp [of 4 n k] by (simp add: cell_raw_len_def)
  next
    case IndexInterior
    with assms(1) obtain n k where "varint_at b 4 = Inr (n, k)" "l = 4 + local_size IndexInterior u n + k"
      by (auto simp: cell_raw_len_def rbind_eq_Inr_iff)
    then show ?thesis using IndexInterior vp [of 4 n k] by (simp add: cell_raw_len_def)
  qed
qed

lemma cell_raw_len_pos:
  assumes "cell_raw_len t u b = Inr l"
  shows "1 \<le> l"
  using assms by (cases t) (auto simp: cell_raw_len_def rbind_eq_Inr_iff dest: varint_at_bounds(1))

lemma payload_at_prefix:
  assumes u: "257 \<le> u" and pos: "k + local_size t u n \<le> m"
    and m: "s + m \<le> length b"
  shows "payload_at b t u (s + k) n = payload_at (slice b s (s + m)) t u k n"
    "\<exists>r. payload_at b t u (s + k) n = Inr r"
proof -
  obtain ov l where ovl: "payload_overflows (unat n) (payload_overflow_threshold_max t u) (payload_overflow_threshold_min t u) u = (ov, l)"
    by (cases "payload_overflows (unat n) (payload_overflow_threshold_max t u) (payload_overflow_threshold_min t u) u")
  have l: "4 \<le> l" if ov using payload_overflows_cases(3) [OF u ovl that] by simp
  have km: "k + (if ov then l else unat n) \<le> m" using pos ovl by (simp add: local_size_def)
  have sl: "slice (slice b s (s + m)) k j = slice b (s + k) (s + j)" if "j \<le> m" for j
    using that m by (simp add: slice_def take_drop min_def add.commute)
  have rd: "read_u32 (slice b s (s + m)) j = read_u32 b (s + j)" if "j + 4 \<le> m" for j
    using that m by (intro read_u32_slice) simp_all
  have eq: "payload_at b t u (s + k) n =
     (if ov then Inr (slice b (s + k) (s + k + l - 4), Some (read_u32 b (s + k + l - 4)))
      else Inr (slice b (s + k) (s + k + unat n), None))"
    using payload_at_eq [OF u _ ovl, of "s + k" b] km m by (simp split: if_splits)
  have eq': "payload_at (slice b s (s + m)) t u k n =
     (if ov then Inr (slice (slice b s (s + m)) k (k + l - 4), Some (read_u32 (slice b s (s + m)) (k + l - 4)))
      else Inr (slice (slice b s (s + m)) k (k + unat n), None))"
    using payload_at_eq [OF u _ ovl, of k "slice b s (s + m)"] km m by (simp split: if_splits)
  show "payload_at b t u (s + k) n = payload_at (slice b s (s + m)) t u k n"
    unfolding eq eq' using km l by (auto simp: sl rd add.assoc)
  show "\<exists>r. payload_at b t u (s + k) n = Inr r" unfolding eq by auto
qed

lemma read_btree_cell_local:
  assumes u: "257 \<le> u" and t: "page_type_of p = Inr t"
    and l: "cell_raw_len t u (drop s b) = Inr l" "s + l \<le> length b"
  shows "read_btree_cell b p s u = read_btree_cell (slice b s (s + l)) p 0 u" (is ?eq)
    and "\<exists>c. read_btree_cell b p s u = Inr c" (is ?ok)
proof -
  let ?d = "slice b s (s + l)"
  have d: "?d = take l (drop s b)" by (simp add: slice_def)
  have va: "varint_at b (s + k) = Inr (v, n) \<and> varint_at ?d k = Inr (v, n)"
    if "varint_at (drop s b) k = Inr (v, n)" "k + n \<le> l" for k v n
    using that varint_at_prefix [of "drop s b" k v n ?d] by (simp add: varint_at_drop d min_def)
  have pa: "payload_at b t u (s + k) n = payload_at ?d t u k n" "\<exists>pl ov. payload_at b t u (s + k) n = Inr (pl, ov)"
    if "k + local_size t u n \<le> l" for k n
    using payload_at_prefix [OF u that l(2)] by auto
  have rd: "read_u32 ?d 0 = read_u32 b s" if "4 \<le> l" using that l(2) read_u32_slice [of s 0 "s + l" b] by simp
  have len: "length ?d = l" using l(2) by simp
  show ?eq and ?ok
  proof (atomize (full), cases t)
    case TableLeaf
    with l(1) obtain n k v k' where r: "varint_at (drop s b) 0 = Inr (n, k)" "varint_at (drop s b) k = Inr (v, k')"
      "l = local_size TableLeaf u n + k + k'"
      by (auto simp: cell_raw_len_def rbind_eq_Inr_iff)
    then show "?eq \<and> ?ok"
      using t TableLeaf va [of 0 n k] va [of k v k'] pa [of "k + k'" n]
      by (auto simp: read_btree_cell_def add.assoc)
  next
    case IndexLeaf
    with l(1) obtain n k where r: "varint_at (drop s b) 0 = Inr (n, k)" "l = local_size IndexLeaf u n + k"
      by (auto simp: cell_raw_len_def rbind_eq_Inr_iff)
    then show "?eq \<and> ?ok"
      using t IndexLeaf va [of 0 n k] pa [of k n] by (auto simp: read_btree_cell_def)
  next
    case TableInterior
    with l(1) obtain n k where r: "varint_at (drop s b) 4 = Inr (n, k)" "l = 4 + k"
      by (auto simp: cell_raw_len_def rbind_eq_Inr_iff)
    then show "?eq \<and> ?ok"
      using t TableInterior va [of 4 n k] rd len l(2) by (auto simp: read_btree_cell_def)
  next
    case IndexInterior
    with l(1) obtain n k where r: "varint_at (drop s b) 4 = Inr (n, k)" "l = 4 + local_size IndexInterior u n + k"
      by (auto simp: cell_raw_len_def rbind_eq_Inr_iff)
    then show "?eq \<and> ?ok"
      using t IndexInterior va [of 4 n k] pa [of "4 + k" n] rd len l(2) by (auto simp: read_btree_cell_def add.assoc)
  qed
qed

lemma header_size_le: "header_size p = Inr h \<Longrightarrow> h \<le> 12"
  by (auto simp: header_size_def rbind_eq_Inr_iff)

lemma header_ok:
  assumes "page_offset p < length (page_buf p)"
  obtains h where "header_size p = Inr h" "h = 8 \<or> h = 12"
  using assms by (auto simp: header_size_def read_u8_def Let_def)

lemma cell_pointer_ok:
  assumes "page_offset p + 12 + 2 * n \<le> length (page_buf p)" "idx < n"
  obtains c where "cell_pointer p idx = Inr c" "cell_get_raw_start_offset p idx = Inr c"
proof -
  obtain h where h: "header_size p = Inr h" "h = 8 \<or> h = 12"
    by (rule header_ok [of p]) (use assms in auto)
  have "page_offset p + h + idx * 2 + 2 \<le> length (page_buf p)" using h(2) assms by auto
  then show ?thesis
    by (intro that) (simp_all add: h(1) cell_pointer_def cell_get_raw_start_offset_def
        cell_pointer_array_offset_def page_read_u16_def read_u16_no_offset_def add.assoc)
qed

lemma page_type_of_Inl: "page_offset p < length (page_buf p) \<Longrightarrow> page_type_of p = Inl e \<Longrightarrow> e = Corrupt"
  by (auto simp: page_type_of_def rbind_eq_Inl_iff dest: page_type_try_from_Inl read_u8_Inl)

lemma cell_raw_len_Inl: "cell_raw_len t u b = Inl e \<Longrightarrow> e = Corrupt"
  by (cases t) (auto simp: cell_raw_len_def rbind_eq_Inl_iff dest: varint_at_Inl)

section \<open>Properties\<close>

text \<open>C29. Of a payload that does not fit, at least \<open>M\<close> and at most \<open>X\<close> bytes stay on the page besides the
  overflow pointer, some bytes always spill, and the spilled bytes fill their pages exactly unless the
  minimum stays local.\<close>

theorem payload_local_bounds:
  assumes "257 \<le> u"
    and "payload_overflows n (payload_overflow_threshold_max t u) (payload_overflow_threshold_min t u) u = (True, l)"
  shows "payload_overflow_threshold_min t u \<le> l - 4 \<and> l - 4 \<le> payload_overflow_threshold_max t u \<and>
    payload_overflow_threshold_max t u < u \<and> 4 < l \<and> l < n \<and>
    ((n - (l - 4)) mod (u - 4) = 0 \<or> l - 4 = payload_overflow_threshold_min t u)"
  using payload_overflows_cases(3,4,5,6) [OF assms] thresholds [OF assms(1), of t] by auto

theorem payload_local_bounds_witness:
  "payload_overflows 5000 (payload_overflow_threshold_max TableLeaf 4096) (payload_overflow_threshold_min TableLeaf 4096) 4096 = (True, 912)
   \<and> (5000 - 908) mod (4096 - 4) = (0 :: nat)"
  using payload_local_bounds [of 4096 5000 TableLeaf 912]
  by (simp add: payload_overflows_def payload_overflow_threshold_min_def Let_def)

text \<open>C27. The fast path for index keys returns what decoding the whole cell returns, on every page
  content, errors included; the only difference is that it rejects as corrupt a payload that should be
  local but runs past the end of the page, which the full decoder takes for a cell with overflow pages.\<close>

theorem index_cell_fast_path:
  assumes "257 \<le> u" "page_type_of p = Inr t" "t = IndexInterior \<or> t = IndexLeaf" "cell_count p = Inr n" "idx < n"
  shows "cell_index_read_payload_ptr p idx u =
    rbind (cell_get p idx u) (\<lambda>c. case index_cell_payload c of (payload, payload_size, ov) \<Rightarrow>
      if ov \<noteq> None \<and> unat payload_size \<le> payload_overflow_threshold_max t u then Inl Corrupt
      else Inr (payload, payload_size, ov))"
  using assms by (rule index_fast_path_eq)

text \<open>An index leaf page whose only cell announces 20 bytes of payload but has 8 left on the page.\<close>

definition cut_page :: page_inner where
  "cut_page = \<lparr>page_id = 2, page_buf = [10, 0, 0, 0, 1, 0, 0, 0, 0, 12, 0, 0, 20, 1, 2, 3, 4, 0, 0, 0, 9],
     overflow_cells = []\<rparr>"

lemma cut_page_facts:
  "page_type_of cut_page = Inr IndexLeaf" "cell_count cut_page = Inr 1" "cell_pointer cut_page 0 = Inr 12"
  "varint_at (page_buf cut_page) 12 = Inr (20, 1)" "length (page_buf cut_page) = 21"
  "slice (page_buf cut_page) 13 21 = [1, 2, 3, 4, 0, 0, 0, 9]" "read_u32 [1, 2, 3, 4, 0, 0, 0, 9] (Suc (Suc (Suc (Suc 0)))) = 9"
  by code_simp+

lemma read_btree_cell_misreads_cut_cell:
  "cell_get cut_page 0 512 = Inr (IndexLeafCell [1, 2, 3, 4] 20 (Some 9))"
  by (simp add: cell_get_def read_btree_cell_def payload_at_def read_payload_def payload_overflows_def cut_page_facts Let_def)

theorem index_cell_fast_path_witness:
  "cell_index_read_payload_ptr cut_page 0 512 = Inl Corrupt"
  using index_cell_fast_path [of 512 cut_page IndexLeaf 1 0] cut_page_facts(1,2) read_btree_cell_misreads_cut_cell by simp

text \<open>C28. On arbitrary page bytes, reading a cell or computing its extent gives a result or the error
  \<open>Corrupt\<close> and never panics, provided the cell pointer array lies inside the page.\<close>

theorem cell_access_total:
  assumes "cell_count p = Inr n" "idx < n" "page_offset p + 12 + 2 * n \<le> length (page_buf p)" "257 \<le> u"
  shows "(\<forall>e. cell_get p idx u = Inl e \<longrightarrow> e = Corrupt) \<and>
    (\<forall>e. cell_get_raw_region p idx u = Inl e \<longrightarrow> e = Corrupt)"
proof (intro conjI allI impI)
  fix e
  obtain c where c: "cell_pointer p idx = Inr c" "cell_get_raw_start_offset p idx = Inr c"
    by (rule cell_pointer_ok [OF assms(3,2)])
  have buf: "page_offset p < length (page_buf p)" using assms(3) by simp
  show "cell_get p idx u = Inl e \<Longrightarrow> e = Corrupt"
    using assms(1,2) c(1) read_btree_cell_Inl [OF _ buf, of "page_buf p" c u e] by (simp add: cell_get_def)
  show "e = Corrupt" if e: "cell_get_raw_region p idx u = Inl e"
  proof (cases "page_type_of p")
    case (Inl e')
    then show ?thesis using e page_type_of_Inl [OF buf Inl] by (simp add: cell_get_raw_region_def)
  next
    case (Inr t)
    then show ?thesis
      using e c(2) raw_region_eq [OF Inr assms(1,2,4)]
      by (auto simp: rbind_eq_Inl_iff dest: cell_raw_len_Inl split: if_splits)
  qed
qed

theorem cell_access_total_witness:
  "\<not> (\<exists>e. cell_get (cut_page\<lparr>page_buf := page_buf cut_page @ [0]\<rparr>) 0 512 = Inl e \<and> e \<noteq> Corrupt)"
proof -
  let ?p = "cut_page\<lparr>page_buf := page_buf cut_page @ [0]\<rparr>"
  have "cell_count ?p = Inr 1" by code_simp
  moreover have "page_offset ?p + 12 + 2 * 1 \<le> length (page_buf ?p)" by code_simp
  ultimately show ?thesis using cell_access_total [of ?p 1 0 512] by auto
qed

text \<open>A cell is determined by the bytes of its extent: wherever these bytes stand on a page of the
  same type, the cell read there is the same, and so is the size of its extent.\<close>

theorem cell_locality:
  assumes "257 \<le> u" "page_type_of p = Inr t" "page_type_of q = Inr t"
    "cell_count p = Inr n" "i < n" "cell_count q = Inr m" "j < m"
    "cell_get_raw_region p i u = Inr (s, l)" "cell_pointer p i = Inr s"
    "cell_pointer q j = Inr s'" "cell_get_raw_start_offset q j = Inr s'"
    "s' + l \<le> length (page_buf q)" "slice (page_buf q) s' (s' + l) = slice (page_buf p) s (s + l)"
  shows "cell_get q j u = cell_get p i u \<and> (\<exists>c. cell_get p i u = Inr c) \<and> cell_get_raw_region q j u = Inr (s', l)"
proof -
  obtain k where k: "cell_raw_len t u (drop s (page_buf p)) = Inr k" "l = max 4 k" "s + l \<le> length (page_buf p)"
    using assms(8) raw_region_eq [OF assms(2,4,5,1)] by (auto simp: rbind_eq_Inr_iff split: if_splits)
  have kl: "k \<le> l" using k(2) by simp
  have eq: "take l (drop s' (page_buf q)) = take l (drop s (page_buf p))" using assms(13) by (simp add: slice_def)
  have "take k (drop s' (page_buf q)) = take k (drop s (page_buf p))"
    using arg_cong [OF eq, of "take k"] kl by (simp add: min_def)
  note sub = this
  have k': "cell_raw_len t u (drop s' (page_buf q)) = Inr k"
    using k(1) sub by (rule cell_raw_len_prefix)
  have "slice (page_buf q) s' (s' + k) = slice (page_buf p) s (s + k)" using sub by (simp add: slice_def)
  moreover have "read_btree_cell b q 0 u = read_btree_cell b p 0 u" for b
    using assms(2,3) by (simp add: read_btree_cell_def)
  ultimately have "read_btree_cell (page_buf q) q s' u = read_btree_cell (page_buf p) p s u"
    using read_btree_cell_local(1) [OF assms(1,3) k'] read_btree_cell_local(1) [OF assms(1,2) k(1)] k(3) kl assms(12)
    by simp
  moreover have "\<exists>c. read_btree_cell (page_buf p) p s u = Inr c"
    using read_btree_cell_local(2) [OF assms(1,2) k(1)] k(3) kl by simp
  moreover have "cell_get_raw_region q j u = Inr (s', l)"
    using raw_region_eq [OF assms(3,6,7,1)] assms(11,12) k' k(2) by simp
  ultimately show ?thesis using assms by (simp add: cell_get_def)
qed

text \<open>Two pages with the same table leaf cell at different offsets.\<close>

definition leaf_at :: "nat \<Rightarrow> page_inner" where
  "leaf_at pad = \<lparr>page_id = 2, page_buf = [13, 0, 0, 0, 1, 0, 0, 0, 0, of_nat (10 + pad)] @ replicate pad 0 @ [2, 5, 0x61, 0x62, 0],
     overflow_cells = []\<rparr>"

lemma leaf_at_facts:
  "page_type_of (leaf_at 0) = Inr TableLeaf" "page_type_of (leaf_at 3) = Inr TableLeaf" "cell_count (leaf_at 0) = Inr 1"
  "cell_count (leaf_at 3) = Inr 1" "cell_pointer (leaf_at 0) 0 = Inr 10" "cell_get_raw_start_offset (leaf_at 0) 0 = Inr 10"
  "cell_pointer (leaf_at 3) 0 = Inr 13" "cell_get_raw_start_offset (leaf_at 3) 0 = Inr 13"
  "length (page_buf (leaf_at 3)) = 18" "length (page_buf (leaf_at 0)) = 15" "slice (page_buf (leaf_at 3)) 13 17 = slice (page_buf (leaf_at 0)) 10 14"
  "varint_at (page_buf (leaf_at 0)) 10 = Inr (2, 1)" "varint_at (page_buf (leaf_at 0)) 11 = Inr (5, 1)"
  "slice (page_buf (leaf_at 0)) 12 15 = [0x61, 0x62, 0]"
  by code_simp+

theorem cell_locality_witness:
  "cell_get (leaf_at 3) 0 512 = Inr (TableLeafCell 5 [0x61, 0x62] 2 None) \<and> cell_get_raw_region (leaf_at 3) 0 512 = Inr (13, 4)"
proof -
  have "cell_get_raw_region (leaf_at 0) 0 512 = Inr (10, 4)"
    by (simp add: cell_get_raw_region_def cell_get_raw_region_faster_def payload_overflows_def leaf_at_facts
        payload_overflow_threshold_min_def)
  moreover have "cell_get (leaf_at 0) 0 512 = Inr (TableLeafCell 5 [0x61, 0x62] 2 None)"
    by (simp add: cell_get_def read_btree_cell_def payload_at_def read_payload_def payload_overflows_def leaf_at_facts Let_def)
  ultimately show ?thesis
    using cell_locality [of 512 "leaf_at 0" TableLeaf "leaf_at 3" 1 0 1 0 10 4 13] leaf_at_facts by simp
qed

end
