(* ===== verification/Overflow.thy ===== *)
theory Overflow
  imports Btree_Page
begin

text \<open>
  Payloads that do not fit on a page (\<^verbatim>\<open>core/storage/btree.rs\<close>): \<^verbatim>\<open>fill_cell_payload\<close> writes a cell and
  spills the rest of the record into a chain of overflow pages, \<^verbatim>\<open>process_overflow_read\<close> reads it back,
  and \<^verbatim>\<open>clear_overflow_pages\<close> frees the chain. The functions take the operations of the pager as
  arguments; their lemmas are proved in the locale \<open>page_allocator\<close> and hold for the pager of theory
  \<open>Freelist\<close> through its interpretation.

  The loops run with a bound on their rounds; \<open>None\<close> means that the bound was reached. The lemmas
  show that a bound given by the length of the record suffices.
\<close>

section \<open>Writing a cell\<close>

datatype copy_data_state = CopyStep | AllocateOverflowPage

text \<open>Pointing the previous page, or the end of the cell, to a new overflow page.\<close>

definition link_overflow_page ::
  "('s \<Rightarrow> nat \<Rightarrow> bytes) \<Rightarrow> ('s \<Rightarrow> nat \<Rightarrow> bytes \<Rightarrow> 's) \<Rightarrow> nat option \<Rightarrow> nat \<Rightarrow> bytes \<Rightarrow> 's \<Rightarrow> (bytes \<times> 's) res" where
  "link_overflow_page content put cur new_page cell s =
     (case cur of
        Some prev \<Rightarrow> rbind (copy_slice (content s prev) 0 (be_bytes 4 (of_nat new_page :: u32))) (\<lambda>b. Inr (cell, put s prev b))
      | None \<Rightarrow> if length cell < 4 then Inl Panic
          else rbind (copy_slice cell (length cell - 4) (be_bytes 4 (of_nat new_page :: u32))) (\<lambda>c. Inr (c, s)))"

definition copy_chunk ::
  "('s \<Rightarrow> nat \<Rightarrow> bytes) \<Rightarrow> ('s \<Rightarrow> nat \<Rightarrow> bytes \<Rightarrow> 's) \<Rightarrow> nat option \<Rightarrow> usize \<Rightarrow> bytes \<Rightarrow> bytes \<Rightarrow> 's \<Rightarrow> (bytes \<times> 's) res" where
  "copy_chunk content put cur dst chunk cell s =
     (case cur of
        Some n \<Rightarrow> if dst \<noteq> 4 then Inl Panic
          else rbind (copy_slice (content s n) dst chunk) (\<lambda>b. Inr (cell, put s n b))
      | None \<Rightarrow> rbind (copy_slice cell dst chunk) (\<lambda>c. Inr (c, s)))"

primrec fill_copy ::
  "('s \<Rightarrow> nat res \<times> 's) \<Rightarrow> ('s \<Rightarrow> nat \<Rightarrow> bytes) \<Rightarrow> ('s \<Rightarrow> nat \<Rightarrow> bytes \<Rightarrow> 's) \<Rightarrow> usize \<Rightarrow> bytes \<Rightarrow> nat \<Rightarrow>
   copy_data_state \<Rightarrow> usize \<Rightarrow> usize \<Rightarrow> usize \<Rightarrow> nat option \<Rightarrow> bytes \<Rightarrow> 's \<Rightarrow> (bytes res \<times> 's) option" where
  "fill_copy alloc content put u rec 0 st space_left src dst cur cell s = None"
| "fill_copy alloc content put u rec (Suc k) st space_left src dst cur cell s =
     (case st of
        CopyStep \<Rightarrow>
          if \<not> src < length rec then Some (Inl Panic, s)
          else
            (let rest = drop src rec; amount_to_copy = min space_left (length rest) in
             (case copy_chunk content put cur dst (take amount_to_copy rest) cell s of
                Inl e \<Rightarrow> Some (Inl e, s)
              | Inr (cell, s) \<Rightarrow>
                  if length rest - amount_to_copy = 0 then Some (Inr cell, s)
                  else fill_copy alloc content put u rec k AllocateOverflowPage space_left (src + amount_to_copy) dst cur cell s))
      | AllocateOverflowPage \<Rightarrow>
          (case alloc s of
             (Inl e, s) \<Rightarrow> Some (Inl e, s)
           | (Inr new_page, s) \<Rightarrow>
               (case link_overflow_page content put cur new_page cell s of
                  Inl e \<Rightarrow> Some (Inl e, s)
                | Inr (cell, s) \<Rightarrow> fill_copy alloc content put u rec k CopyStep (u - 4) src 4 (Some new_page) cell s)))"

text \<open>The part of the cell before the payload: left child, payload size and key.\<close>

definition cell_header :: "page_inner \<Rightarrow> i64 option \<Rightarrow> bytes \<Rightarrow> usize \<Rightarrow> bytes \<Rightarrow> (page_type \<times> bytes) res" where
  "cell_header page int_key cell cell_idx rec =
     rbind (page_type_of page) (\<lambda>page_type.
     rbind (if page_type = IndexInterior
            then rbind (cell_interior_read_left_child_page page cell_idx) (\<lambda>n. Inr (cell @ be_bytes 4 (of_nat n :: u32)))
            else Inr cell) (\<lambda>cell.
     rbind (write_varint_to_vec (of_nat (length rec)) cell) (\<lambda>cell.
     rbind (if page_type = TableLeaf
            then (case int_key of None \<Rightarrow> Inl Panic | Some key \<Rightarrow> write_varint_to_vec key cell)
            else Inr cell) (\<lambda>cell. Inr (page_type, cell)))))"

definition fill_cell_payload ::
  "('s \<Rightarrow> nat res \<times> 's) \<Rightarrow> ('s \<Rightarrow> nat \<Rightarrow> bytes) \<Rightarrow> ('s \<Rightarrow> nat \<Rightarrow> bytes \<Rightarrow> 's) \<Rightarrow> nat \<Rightarrow>
   page_inner \<Rightarrow> i64 option \<Rightarrow> bytes \<Rightarrow> usize \<Rightarrow> bytes \<Rightarrow> usize \<Rightarrow> 's \<Rightarrow> (bytes res \<times> 's) option" where
  "fill_cell_payload alloc content put k page int_key cell cell_idx rec u s =
     (case cell_header page int_key cell cell_idx rec of
        Inl e \<Rightarrow> Some (Inl e, s)
      | Inr (page_type, cell) \<Rightarrow>
          (case payload_overflows (length rec) (payload_overflow_threshold_max page_type u)
                  (payload_overflow_threshold_min page_type u) u of
             (overflows, local_if_overflow) \<Rightarrow>
               if \<not> overflows then Some (Inr (cell @ rec), s)
               else fill_copy alloc content put u rec k CopyStep (local_if_overflow - 4) 0 (length cell) None
                      (cell @ replicate local_if_overflow 0) s))"

section \<open>Reading and freeing a chain\<close>

primrec overflow_read_loop :: "('s \<Rightarrow> nat \<Rightarrow> bytes res) \<Rightarrow> usize \<Rightarrow> nat \<Rightarrow> bytes \<Rightarrow> usize \<Rightarrow> nat \<Rightarrow> 's \<Rightarrow> bytes res option" where
  "overflow_read_loop read u 0 payload remaining page s = None"
| "overflow_read_loop read u (Suc k) payload remaining page s =
     (case read s page of
        Inl e \<Rightarrow> Some (Inl e)
      | Inr buf \<Rightarrow>
          (let next_page = read_u32 buf 0; to_read = min remaining (u - 4) in
           (case index_slice buf 4 (4 + to_read) of
              Inl e \<Rightarrow> Some (Inl e)
            | Inr chunk \<Rightarrow>
                if remaining > to_read \<and> next_page \<noteq> 0
                then overflow_read_loop read u k (payload @ chunk) (remaining - to_read) next_page s
                else if remaining - to_read \<noteq> 0 \<or> next_page \<noteq> 0 then Some (Inl Corrupt)
                else Some (Inr (payload @ chunk)))))"

definition process_overflow_read ::
  "('s \<Rightarrow> nat \<Rightarrow> bytes res) \<Rightarrow> usize \<Rightarrow> nat \<Rightarrow> bytes \<Rightarrow> nat \<Rightarrow> u64 \<Rightarrow> 's \<Rightarrow> bytes res option" where
  "process_overflow_read read u k payload start_page payload_size s =
     (if unat payload_size < length payload then Some (Inl Corrupt)
      else overflow_read_loop read u k payload (unat payload_size - length payload) start_page s)"

definition valid_overflow_page_id :: "nat \<Rightarrow> nat \<Rightarrow> bool" where
  "valid_overflow_page_id pg db_sz \<longleftrightarrow> pg \<ge> 2 \<and> pg \<le> db_sz"

primrec clear_overflow_loop ::
  "('s \<Rightarrow> nat \<Rightarrow> bytes res) \<Rightarrow> ('s \<Rightarrow> nat \<Rightarrow> 's res) \<Rightarrow> nat \<Rightarrow> nat \<Rightarrow> nat \<Rightarrow> 's \<Rightarrow> 's res option" where
  "clear_overflow_loop read free db_sz 0 page s = None"
| "clear_overflow_loop read free db_sz (Suc k) page s =
     (if \<not> valid_overflow_page_id page db_sz then Some (Inl Corrupt)
      else (case read s page of
        Inl e \<Rightarrow> Some (Inl e)
      | Inr buf \<Rightarrow>
          (let next_page = read_u32 buf 0 in
           (case free s page of
              Inl e \<Rightarrow> Some (Inl e)
            | Inr s \<Rightarrow> if next_page \<noteq> 0 then clear_overflow_loop read free db_sz k next_page s else Some (Inr s)))))"

fun first_overflow_page :: "btree_cell \<Rightarrow> nat option" where
  "first_overflow_page (TableLeafCell _ _ _ p) = p"
| "first_overflow_page (IndexLeafCell _ _ p) = p"
| "first_overflow_page (IndexInteriorCell _ _ _ p) = p"
| "first_overflow_page (TableInteriorCell _ _) = None"

definition clear_overflow_pages ::
  "('s \<Rightarrow> nat \<Rightarrow> bytes res) \<Rightarrow> ('s \<Rightarrow> nat \<Rightarrow> 's res) \<Rightarrow> nat \<Rightarrow> nat \<Rightarrow> btree_cell \<Rightarrow> 's \<Rightarrow> 's res option" where
  "clear_overflow_pages read free db_sz k cell s =
     (case first_overflow_page cell of
        None \<Rightarrow> Some (Inr s)
      | Some page \<Rightarrow> clear_overflow_loop read free db_sz k page s)"

section \<open>Chains of overflow pages\<close>

fun ovf_chain :: "(nat \<Rightarrow> bytes) \<Rightarrow> usize \<Rightarrow> nat list \<Rightarrow> bytes \<Rightarrow> bool" where
  "ovf_chain c u [] d \<longleftrightarrow> False"
| "ovf_chain c u [n] d \<longleftrightarrow> read_u32 (c n) 0 = 0 \<and> d \<noteq> [] \<and> length d \<le> u - 4 \<and> slice (c n) 4 (4 + length d) = d"
| "ovf_chain c u (n # m # ps) d \<longleftrightarrow>
     read_u32 (c n) 0 = m \<and> m \<noteq> 0 \<and> u - 4 < length d \<and> slice (c n) 4 u = take (u - 4) d \<and>
     ovf_chain c u (m # ps) (drop (u - 4) d)"

lemma ovf_chain_cong:
  "(\<And>n. n \<in> set ps \<Longrightarrow> c' n = c n) \<Longrightarrow> ovf_chain c' u ps d \<longleftrightarrow> ovf_chain c u ps d"
  by (induction c u ps d rule: ovf_chain.induct) auto

lemma ovf_chain_length: "ovf_chain c u ps d \<Longrightarrow> 4 < u \<Longrightarrow> length ps \<le> length d"
proof (induction c u ps d rule: ovf_chain.induct)
  case (2 c u n d)
  then show ?case by (cases d) auto
qed auto

lemma overflow_read_chain:
  assumes "ovf_chain c u ps d" "4 < u" "length d < k"
    and "\<And>n. n \<in> set ps \<Longrightarrow> read s n = Inr (c n) \<and> u \<le> length (c n)"
  shows "overflow_read_loop read u k acc (length d) (hd ps) s = Some (Inr (acc @ d))"
  using assms
proof (induction c u ps d arbitrary: k acc rule: ovf_chain.induct)
  case (2 c u n d)
  then obtain k' where k: "k = Suc k'" by (cases k) auto
  have "4 + length d \<le> length (c n)" using 2 by (simp, linarith)
  then show ?case using 2 k by (simp add: index_slice_def Let_def min_def)
next
  case (3 c u n m ps d)
  then obtain k' where k: "k = Suc k'" by (cases k) auto
  have lt: "length (drop (u - 4) d) < k'" using "3.prems"(1,2,3) k by (simp, linarith)
  have "index_slice (c n) 4 u = Inr (take (u - 4) d)" using 3 by (simp add: index_slice_def)
  moreover have "overflow_read_loop read u k' (acc @ take (u - 4) d) (length (drop (u - 4) d)) m s =
      Some (Inr ((acc @ take (u - 4) d) @ drop (u - 4) d))"
    using "3.IH" [OF _ "3.prems"(2) lt] "3.prems"(1,4) by simp
  ultimately show ?case using 3 k by (simp add: Let_def min_def)
qed simp

lemma copy_slice_read:
  assumes "copy_slice b 4 d = Inr b'"
  shows "read_u32 b' 0 = read_u32 b 0" "slice b' 4 (4 + length d) = d" "length b' = length b"
proof -
  have len: "4 + length d \<le> length b" and b': "b' = take 4 b @ d @ drop (4 + length d) b"
    using assms by (auto simp: copy_slice_def split: if_splits)
  show "read_u32 b' 0 = read_u32 b 0" using len by (simp add: b' read_u32_def slice_def)
  show "slice b' 4 (4 + length d) = d" using len by (simp add: b' slice_def)
  show "length b' = length b" using len by (simp add: b')
qed

lemma copy_slice_0: "4 \<le> length b \<Longrightarrow> copy_slice b 0 (be_bytes 4 (of_nat n :: u32)) = Inr (write_u32 b 0 n)"
  by (simp add: copy_slice_def write_u32_def)

lemma slice_write_u32: "4 \<le> length b \<Longrightarrow> slice (write_u32 b 0 n) 4 j = slice b 4 j"
  by (simp add: write_u32_def slice_def)

lemma from_be_zero: "set b \<subseteq> {0} \<Longrightarrow> from_be b = (0 :: 'a::len word)"
  by (induction b) auto

lemma read_u32_zero:
  assumes "set b \<subseteq> {0}"
  shows "read_u32 b pos = 0"
proof -
  have "set (slice b pos (pos + 4)) \<subseteq> {0}"
    using assms by (auto simp: slice_def dest!: in_set_takeD in_set_dropD)
  then have "(from_be (slice b pos (pos + 4)) :: u32) = 0" by (rule from_be_zero)
  then show ?thesis by (simp add: read_u32_def)
qed

section \<open>The client of the page allocator\<close>

text \<open>The bytes of a cell whose record spills into the chain that starts at \<open>n\<close>.\<close>

definition stored_cell :: "page_type \<Rightarrow> usize \<Rightarrow> bytes \<Rightarrow> bytes \<Rightarrow> nat \<Rightarrow> bytes" where
  "stored_cell t u hdr rec n =
     (if length rec \<le> payload_overflow_threshold_max t u then hdr @ rec
      else hdr @ take (local_size t u (of_nat (length rec)) - 4) rec @ be_bytes 4 (of_nat n :: u32))"

text \<open>The place that refers to the chain, the end of the cell or the previous page, now points to \<open>n\<close>.\<close>

definition linked :: "(nat \<Rightarrow> bytes) \<Rightarrow> (nat \<Rightarrow> bytes) \<Rightarrow> nat option \<Rightarrow> bytes \<Rightarrow> nat \<Rightarrow> bytes \<Rightarrow> bool" where
  "linked c c' cur cell n cell' \<longleftrightarrow>
     (case cur of
        None \<Rightarrow> cell' = take (length cell - 4) cell @ be_bytes 4 (of_nat n :: u32)
      | Some m \<Rightarrow> cell' = cell \<and> c' m = write_u32 (c m) 0 n)"

lemma linked_cong:
  "linked c1 c2 cur cell n cell' \<Longrightarrow> (\<And>m. cur = Some m \<Longrightarrow> c m = c1 m \<and> c' m = c2 m) \<Longrightarrow> linked c c' cur cell n cell'"
  by (auto simp: linked_def split: option.splits)

context page_allocator
begin

lemma link_ok:
  assumes "ok s" "cur = None \<Longrightarrow> 4 \<le> length cell" "\<And>m. cur = Some m \<Longrightarrow> m \<in> live s"
  shows "\<exists>cell' s'. link_overflow_page content put cur n cell s = Inr (cell', s') \<and> ok s' \<and> space s' = space s \<and> live s' = live s \<and>
    (\<forall>k. Some k \<noteq> cur \<longrightarrow> content s' k = content s k) \<and> linked (content s) (content s') cur cell n cell'"
proof (cases cur)
  case None
  then show ?thesis using assms by (simp add: link_overflow_page_def copy_slice_def linked_def)
next
  case (Some m)
  have m: "m \<in> live s" using assms(3) Some by simp
  have len: "4 \<le> length (content s m)" using live_page [OF assms(1) m] by linarith
  then have c: "copy_slice (content s m) 0 (be_bytes 4 (of_nat n :: u32)) = Inr (write_u32 (content s m) 0 n)"
    by (rule copy_slice_0)
  have "length (write_u32 (content s m) 0 n) = length (content s m)" using len by simp
  then show ?thesis using put_ok [OF assms(1) m] Some c by (simp add: link_overflow_page_def linked_def)
qed

lemma copy_ok:
  assumes "ok s" "n \<in> live s" "length chunk \<le> space s - 4"
  shows "\<exists>b. copy_chunk content put (Some n) 4 chunk cell s = Inr (cell, put s n b) \<and>
    copy_slice (content s n) 4 chunk = Inr b \<and> ok (put s n b) \<and> space (put s n b) = space s \<and>
    live (put s n b) = live s \<and> content (put s n b) = (content s)(n := b)"
proof -
  have lp: "space s \<le> length (content s n)" "12 \<le> space s" using live_page [OF assms(1,2)] by simp_all
  have "4 + length chunk \<le> length (content s n)" using lp assms(3) by linarith
  then obtain b where b: "copy_slice (content s n) 4 chunk = Inr b" by (auto simp: copy_slice_def)
  then have "length b = length (content s n)" by (rule copy_slice_read)
  then show ?thesis using put_ok [OF assms(1,2)] b by (simp add: copy_chunk_def)
qed

text \<open>One round: allocate a page, link it and fill it.\<close>

lemma fill_round:
  assumes s: "ok s" "u = space s" and src: "src < length rec"
    and cur: "cur = None \<Longrightarrow> 4 \<le> length cell" "\<And>m. cur = Some m \<Longrightarrow> m \<in> live s"
    and a: "alloc s = (Inr n, s1)"
  shows "\<exists>cell' s'. ok s' \<and> space s' = u \<and> n \<notin> live s \<and> 2 \<le> n \<and> insert n (live s) \<subseteq> live s' \<and>
    (\<forall>m \<in> live s. Some m \<noteq> cur \<longrightarrow> content s' m = content s m) \<and> linked (content s) (content s') cur cell n cell' \<and>
    u \<le> length (content s' n) \<and> read_u32 (content s' n) 0 = 0 \<and>
    slice (content s' n) 4 (4 + min (u - 4) (length rec - src)) = take (u - 4) (drop src rec) \<and>
    fill_copy alloc content put u rec (Suc (Suc k)) AllocateOverflowPage sp src dst cur cell s =
      (if length rec - src \<le> u - 4 then Some (Inr cell', s')
       else fill_copy alloc content put u rec k AllocateOverflowPage (u - 4) (src + (u - 4)) 4 (Some n) cell' s')"
proof -
  have a1: "ok s1" "space s1 = u" "n \<notin> live s" "2 \<le> n" "insert n (live s) \<subseteq> live s1" "set (content s1 n) \<subseteq> {0}"
    "\<forall>m \<in> live s. content s1 m = content s m"
    using alloc_Inr [OF s(1) a] s(2) by auto
  have cur1: "\<And>m. cur = Some m \<Longrightarrow> m \<in> live s1" using cur(2) a1(5) by blast
  from link_ok [OF a1(1) cur(1) cur1, where n = n] obtain cell2 s2 where
    l: "link_overflow_page content put cur n cell s1 = Inr (cell2, s2)" "ok s2" "space s2 = space s1" "live s2 = live s1"
      "\<forall>m. Some m \<noteq> cur \<longrightarrow> content s2 m = content s1 m" "linked (content s1) (content s2) cur cell n cell2"
    by blast
  have ncur: "cur \<noteq> Some n" using cur(2) a1(3) by blast
  have zero: "set (content s2 n) \<subseteq> {0}" using ncur l(5) a1(6) by auto
  have n2: "n \<in> live s2" using a1(5) l(4) by blast
  have sp2: "space s2 = u" using l(3) a1(2) by simp
  let ?chunk = "take (min (u - 4) (length rec - src)) (drop src rec)"
  have "length ?chunk \<le> space s2 - 4" using sp2 by simp
  from copy_ok [OF l(2) n2 this] obtain b where
    b: "copy_chunk content put (Some n) 4 ?chunk cell2 s2 = Inr (cell2, put s2 n b)"
      "copy_slice (content s2 n) 4 ?chunk = Inr b" "ok (put s2 n b)" "space (put s2 n b) = u"
      "live (put s2 n b) = live s1" "content (put s2 n b) = (content s2)(n := b)"
    unfolding sp2 l(4) by blast
  note cs = copy_slice_read [OF b(2)]
  have run: "fill_copy alloc content put u rec (Suc (Suc k)) AllocateOverflowPage sp src dst cur cell s =
      (if length rec - src \<le> u - 4 then Some (Inr cell2, put s2 n b)
       else fill_copy alloc content put u rec k AllocateOverflowPage (u - 4) (src + (u - 4)) 4 (Some n) cell2 (put s2 n b))"
    using a l(1) b(1) src by (auto simp: Let_def)
  have "linked (content s) (content (put s2 n b)) cur cell n cell2"
    using l(6) by (rule linked_cong) (use a1(7) cur(2) ncur b(6) in auto)
  moreover have "u \<le> length b" using live_page [OF b(3), of n] b(4,5,6) n2 l(4) by simp
  moreover have "length ?chunk = min (u - 4) (length rec - src)" by simp
  moreover have "?chunk = take (u - 4) (drop src rec)" by (simp add: min_def)
  ultimately show ?thesis
    using b(3,4,5,6) a1(3,4,5,7) l(5) cs read_u32_zero [OF zero, of 0] run
    by (intro exI [of _ cell2] exI [of _ "put s2 n b"]) auto
qed


lemma chain_extend:
  assumes "ok s'" "space s' = u" "ps \<noteq> []" "set ps \<subseteq> live s'" "ovf_chain (content s') u ps (drop (u - 4) d)" "u - 4 < length d"
    and n: "n \<notin> set ps" "u \<le> length b" "content s' n = write_u32 b 0 (hd ps)" "slice b 4 u = take (u - 4) d"
  shows "ovf_chain (content s') u (n # ps) d"
proof -
  obtain m ms where ps: "ps = m # ms" using assms(3) by (cases ps) auto
  have m: "1 \<le> m" "m < 2 ^ 32" "12 \<le> u" using live_page [OF assms(1), of m] assms(2,4) ps by auto
  have "slice (content s' n) 4 u = take (u - 4) d" using n(2,3,4) m(3) by (simp add: slice_write_u32)
  moreover have "read_u32 (content s' n) 0 = m" using n(2,3) m ps by (simp add: read_write_u32_same)
  ultimately show ?thesis using assms(5,6) m(1) ps by simp
qed

text \<open>The outcome of storing \<open>d\<close> in a chain: no other page changes, and on success the chain is there.\<close>

definition filled :: "'s \<Rightarrow> nat option \<Rightarrow> bytes \<Rightarrow> bytes \<Rightarrow> bytes res \<Rightarrow> 's \<Rightarrow> bool" where
  "filled s cur cell d r s' \<longleftrightarrow> (\<forall>e. r = Inl e \<longrightarrow> e = DatabaseFull) \<and> live s \<subseteq> live s' \<and> (\<forall>m \<in> live s. Some m \<noteq> cur \<longrightarrow> content s' m = content s m) \<and>
    (\<forall>cell'. r = Inr cell' \<longrightarrow>
       (\<exists>ps. ok s' \<and> space s' = space s \<and> ps \<noteq> [] \<and> distinct ps \<and> set ps \<inter> live s = {} \<and> set ps \<subseteq> live s' \<and>
         linked (content s) (content s') cur cell (hd ps) cell' \<and> ovf_chain (content s') (space s) ps d))"

lemma filled_step:
  assumes r: "space s2 = space s" "n \<notin> live s" "insert n (live s) \<subseteq> live s2" "cur \<noteq> Some n" "\<And>m. cur = Some m \<Longrightarrow> m \<in> live s"
      "\<forall>m \<in> live s. Some m \<noteq> cur \<longrightarrow> content s2 m = content s m" "linked (content s) (content s2) cur cell n c2"
      "space s \<le> length (content s2 n)" "slice (content s2 n) 4 (space s) = take (space s - 4) d" "space s - 4 < length d"
    and f: "filled s2 (Some n) c2 (drop (space s - 4) d) x s'"
  shows "filled s cur cell d x s'"
proof -
  have same: "\<forall>m \<in> live s2. m \<noteq> n \<longrightarrow> content s' m = content s2 m" and sub: "live s2 \<subseteq> live s'"
    and err: "\<forall>e. x = Inl e \<longrightarrow> e = DatabaseFull"
    using f by (auto simp: filled_def)
  have keep: "live s \<subseteq> live s'" "\<forall>m \<in> live s. Some m \<noteq> cur \<longrightarrow> content s' m = content s m"
    using same sub r(2,3,6) by (blast, metis insert_subset subsetD)
  have "\<exists>ps. ok s' \<and> space s' = space s \<and> ps \<noteq> [] \<and> distinct ps \<and> set ps \<inter> live s = {} \<and> set ps \<subseteq> live s' \<and>
     linked (content s) (content s') cur cell (hd ps) cell' \<and> ovf_chain (content s') (space s) ps d"
    if x: "x = Inr cell'" for cell'
  proof -
    obtain ps where ps: "ok s'" "space s' = space s" "ps \<noteq> []" "distinct ps" "set ps \<inter> live s2 = {}" "set ps \<subseteq> live s'"
      "linked (content s2) (content s') (Some n) c2 (hd ps) cell'" "ovf_chain (content s') (space s) ps (drop (space s - 4) d)"
      using f x r(1) by (auto simp: filled_def)
    have n: "n \<notin> set ps" "cell' = c2" "content s' n = write_u32 (content s2 n) 0 (hd ps)"
      using ps(5,7) r(3) by (auto simp: linked_def)
    have "ovf_chain (content s') (space s) (n # ps) d"
      by (rule chain_extend [OF ps(1,2,3,6,8) r(10) n(1) r(8) n(3) r(9)])
    moreover have "linked (content s) (content s') cur cell n cell'"
      unfolding n(2) using r(7) by (rule linked_cong) (use r(2,3,5) same in auto)
    ultimately show ?thesis using ps n(1) r(2,3) sub by (intro exI [of _ "n # ps"]) auto
  qed
  then show ?thesis using keep err unfolding filled_def by blast
qed

lemma fill_alloc:
  assumes "ok s" "u = space s" "src < length rec" "cur = None \<Longrightarrow> 4 \<le> length cell" "\<And>m. cur = Some m \<Longrightarrow> m \<in> live s"
    "2 * (length rec - src) \<le> k"
  shows "\<exists>r s'. fill_copy alloc content put u rec k AllocateOverflowPage sp src dst cur cell s = Some (r, s') \<and>
    filled s cur cell (drop src rec) r s'"
  using assms
proof (induction "length rec - src" arbitrary: src k sp dst cur cell s rule: less_induct)
  case less
  have "2 \<le> k" using less.prems(3,6) by linarith
  then obtain k1 where k: "k = Suc (Suc k1)" by (metis add_2_eq_Suc le_Suc_ex)
  show ?case
  proof (cases "fst (alloc s)")
    case (Inl e)
    then show ?thesis using alloc_Inl [OF less.prems(1)] k by (cases "alloc s") (auto simp: filled_def)
  next
    case (Inr n)
    then obtain s1 where a: "alloc s = (Inr n, s1)" by (cases "alloc s") auto
    from fill_round [OF less.prems(1,2,3,4,5) a, where k = k1 and sp = sp and dst = dst] obtain c2 s2 where
      r: "ok s2" "space s2 = u" "n \<notin> live s" "2 \<le> n" "insert n (live s) \<subseteq> live s2"
        "\<forall>m \<in> live s. Some m \<noteq> cur \<longrightarrow> content s2 m = content s m" "linked (content s) (content s2) cur cell n c2"
        "u \<le> length (content s2 n)" "read_u32 (content s2 n) 0 = 0"
        "slice (content s2 n) 4 (4 + min (u - 4) (length rec - src)) = take (u - 4) (drop src rec)"
        "fill_copy alloc content put u rec k AllocateOverflowPage sp src dst cur cell s =
          (if length rec - src \<le> u - 4 then Some (Inr c2, s2)
           else fill_copy alloc content put u rec k1 AllocateOverflowPage (u - 4) (src + (u - 4)) 4 (Some n) c2 s2)"
      unfolding k by blast
    have u: "4 < u" using live_page [OF r(1), of n] r(2,5) by auto
    show ?thesis
    proof (cases "length rec - src \<le> u - 4")
      case True
      then have "ovf_chain (content s2) u [n] (drop src rec)" using r(9,10) less.prems(3) by (simp add: min_absorb2)
      then have "filled s cur cell (drop src rec) (Inr c2) s2" unfolding filled_def
        using r less.prems(2) by (auto intro!: exI [of _ "[n]"])
      then show ?thesis using r(11) True by auto
    next
      case False
      have "\<exists>x s'. fill_copy alloc content put u rec k1 AllocateOverflowPage (u - 4) (src + (u - 4)) 4 (Some n) c2 s2 = Some (x, s') \<and>
          filled s2 (Some n) c2 (drop (src + (u - 4)) rec) x s'"
        by (rule less.hyps) (use False u r(1,2,5) less.prems(6) k in auto)
      then obtain x s' where ih: "fill_copy alloc content put u rec k AllocateOverflowPage sp src dst cur cell s = Some (x, s')"
          "filled s2 (Some n) c2 (drop (u - 4) (drop src rec)) x s'"
        using False r(11) by (auto simp: add.commute)
      have sp: "space s = u" "cur \<noteq> Some n" using less.prems(2,5) r(3) by auto
      have len: "u - 4 < length (drop src rec)" "slice (content s2 n) 4 u = take (u - 4) (drop src rec)"
        using False u r(10) by (simp_all add: min_absorb1)
      have "filled s cur cell (drop src rec) x s'"
        using filled_step [of s2 s n, unfolded sp(1), OF r(2,3,5) sp(2) less.prems(5) r(6,7,8) len(2,1) ih(2)] .
      then show ?thesis using ih(1) by blast
    qed
  qed
qed


lemma fill_cell_ok:
  assumes s: "ok s" "u = space s" "257 \<le> u" and len: "length rec < 2 ^ 64" and k: "2 * length rec < k"
    and hdr: "cell_header page int_key cell cell_idx rec = Inr (t, hdr)"
  shows "\<exists>r s'. fill_cell_payload alloc content put k page int_key cell cell_idx rec u s = Some (r, s') \<and>
    (\<forall>e. r = Inl e \<longrightarrow> e = DatabaseFull) \<and> live s \<subseteq> live s' \<and> (\<forall>m \<in> live s. content s' m = content s m) \<and>
    (\<forall>cell'. r = Inr cell' \<longrightarrow>
       (\<exists>ps. ok s' \<and> space s' = space s \<and> distinct ps \<and> set ps \<inter> live s = {} \<and> set ps \<subseteq> live s' \<and>
         cell' = stored_cell t u hdr rec (hd ps) \<and>
         (if length rec \<le> payload_overflow_threshold_max t u then ps = [] \<and> s' = s
          else ovf_chain (content s') u ps (drop (local_size t u (of_nat (length rec)) - 4) rec))))"
proof -
  obtain ov l where ovl: "payload_overflows (length rec) (payload_overflow_threshold_max t u) (payload_overflow_threshold_min t u) u = (ov, l)"
    by (cases "payload_overflows (length rec) (payload_overflow_threshold_max t u) (payload_overflow_threshold_min t u) u")
  note c = payload_overflows_cases [OF s(3) ovl]
  have un: "unat (of_nat (length rec) :: u64) = length rec" using len by (simp add: unat_of_nat take_bit_nat_eq_self)
  show ?thesis
  proof (cases ov)
    case False
    then show ?thesis using s(1) hdr ovl c(1)
      by (intro exI [of _ "Inr (hdr @ rec)"] exI [of _ s]) (auto simp: fill_cell_payload_def stored_cell_def)
  next
    case True
    have l: "4 \<le> l" "l < length rec" "local_size t u (of_nat (length rec)) = l"
      using c(3,5) [OF True] ovl True un by (simp_all add: local_size_def)
    obtain k1 where k1: "k = Suc k1" using k by (cases k) auto
    let ?cell = "hdr @ take (l - 4) rec @ replicate 4 0"
    have cp: "copy_slice (hdr @ replicate l 0) (length hdr) (take (l - 4) rec) = Inr ?cell"
      using l(1,2) by (simp add: copy_slice_def)
    have "rec \<noteq> []" "min (l - 4) (length rec) = l - 4" "length rec - (l - 4) \<noteq> 0" using l(2) by auto
    then have "fill_cell_payload alloc content put k page int_key cell cell_idx rec u s =
        fill_copy alloc content put u rec k1 AllocateOverflowPage (l - 4) (l - 4) (length hdr) None ?cell s"
      using hdr ovl True k1 cp by (simp add: fill_cell_payload_def copy_chunk_def Let_def)
    moreover have "\<exists>r s'. fill_copy alloc content put u rec k1 AllocateOverflowPage (l - 4) (l - 4) (length hdr) None ?cell s = Some (r, s') \<and>
        filled s None ?cell (drop (l - 4) rec) r s'"
      using fill_alloc [OF s(1,2), of "l - 4" rec None ?cell k1] k k1 l by simp
    ultimately obtain r s' where r: "fill_cell_payload alloc content put k page int_key cell cell_idx rec u s = Some (r, s')"
      "filled s None ?cell (drop (l - 4) rec) r s'" by auto
    show ?thesis
      using r(2) c(1) True l s(2)
      by (intro exI [of _ r] exI [of _ s'] conjI r(1)) (auto simp: filled_def linked_def stored_cell_def)
  qed
qed

lemma clear_chain:
  assumes "ok s" "ovf_chain (content s) u ps d" "distinct ps" "set ps \<subseteq> live s" "\<forall>n \<in> set ps. 2 \<le> n \<and> n \<le> db_sz" "length ps \<le> k"
  shows "\<exists>s'. clear_overflow_loop (\<lambda>s n. Inr (content s n)) free db_sz k (hd ps) s = Some (Inr s') \<and> ok s' \<and>
    live s' = live s - set ps \<and> (\<forall>m \<in> live s'. content s' m = content s m)"
  using assms
proof (induction ps arbitrary: s d k)
  case (Cons n ps)
  then obtain k' where k: "k = Suc k'" by (cases k) auto
  have n: "n \<in> live s" "2 \<le> n" "n \<le> db_sz" using Cons.prems by auto
  from free_Inr [OF Cons.prems(1) n(1,2)] obtain s1 where
    f: "free s n = Inr s1" "ok s1" "live s1 = live s - {n}" "\<forall>m \<in> live s1. content s1 m = content s m" by blast
  show ?case
  proof (cases ps)
    case Nil
    then show ?thesis using Cons.prems(2) k n f by (simp add: valid_overflow_page_id_def Let_def)
  next
    case (Cons m ms)
    have sub: "set ps \<subseteq> live s1" using Cons.prems(3,4) f(3) by auto
    have "ovf_chain (content s) u ps (drop (u - 4) d)" using Cons.prems(2) Cons by simp
    moreover have "ovf_chain (content s1) u ps (drop (u - 4) d) \<longleftrightarrow> ovf_chain (content s) u ps (drop (u - 4) d)"
      by (rule ovf_chain_cong) (use f(4) sub in blast)
    ultimately have "ovf_chain (content s1) u ps (drop (u - 4) d)" by simp
    from Cons.IH [OF f(2) this _ sub, of k'] Cons.prems(3,5,6) k obtain s' where
      s': "clear_overflow_loop (\<lambda>s n. Inr (content s n)) free db_sz k' (hd ps) s1 = Some (Inr s')" "ok s'"
        "live s' = live s1 - set ps" "\<forall>m \<in> live s'. content s' m = content s1 m" by auto
    have "read_u32 (content s n) 0 = m" "m \<noteq> 0" using Cons.prems(2) Cons by simp_all
    then have "clear_overflow_loop (\<lambda>s n. Inr (content s n)) free db_sz k n s = Some (Inr s')"
      using k n f(1) s'(1) Cons by (simp add: valid_overflow_page_id_def Let_def)
    then show ?thesis using s'(2,3,4) f(3,4) by auto
  qed
qed simp

end

section \<open>Reading a stored cell\<close>

text \<open>The cell that \<^verbatim>\<open>read_btree_cell\<close> should give for what was stored.\<close>

fun cell_of :: "page_type \<Rightarrow> nat \<Rightarrow> i64 \<Rightarrow> bytes \<Rightarrow> u64 \<Rightarrow> nat option \<Rightarrow> btree_cell" where
  "cell_of IndexInterior left key payload n first = IndexInteriorCell left payload n first"
| "cell_of TableInterior left key payload n first = TableInteriorCell left key"
| "cell_of IndexLeaf left key payload n first = IndexLeafCell payload n first"
| "cell_of TableLeaf left key payload n first = TableLeafCell key payload n first"

lemma varint_at_append: "varint_at (pre @ varint_bytes v @ post) (length pre) = Inr (v, varint_len v)"
  by (simp add: varint_at_Inr read_varint_bytes)

lemma read_u32_append: "n < 2 ^ 32 \<Longrightarrow> read_u32 (pre @ be_bytes 4 (of_nat n :: u32) @ post) (length pre) = n"
  by (simp add: read_u32_def slice_def from_be_be_bytes_full unat_of_nat take_bit_nat_eq_self)

lemma payload_at_stored:
  assumes u: "257 \<le> u" and len: "length rec < 2 ^ 64" and n: "n < 2 ^ 32"
    and c: "stored_cell t u hdr rec n = hdr @ rest"
  shows "payload_at (pre @ rest @ post) t u (length pre) (of_nat (length rec)) =
    Inr (if length rec \<le> payload_overflow_threshold_max t u then (rec, None)
         else (take (local_size t u (of_nat (length rec)) - 4) rec, Some n))"
proof -
  have un: "unat (of_nat (length rec) :: u64) = length rec" using len by (simp add: unat_of_nat take_bit_nat_eq_self)
  obtain ov l where ovl: "payload_overflows (unat (of_nat (length rec) :: u64)) (payload_overflow_threshold_max t u) (payload_overflow_threshold_min t u) u = (ov, l)"
    by (cases "payload_overflows (unat (of_nat (length rec) :: u64)) (payload_overflow_threshold_max t u) (payload_overflow_threshold_min t u) u")
  note c1 = payload_overflows_cases [OF u ovl, unfolded un]
  note eq = payload_at_eq [OF u _ ovl, of "length pre" "pre @ rest @ post"]
  show ?thesis
  proof (cases ov)
    case False
    then have "rest = rec" using c c1(1) by (simp add: stored_cell_def)
    then show ?thesis using eq False c1(1) by (simp add: un slice_def)
  next
    case True
    have l: "4 \<le> l" "l < length rec" "local_size t u (of_nat (length rec)) = l"
      using c1(3,5) [OF True] ovl True by (simp_all add: local_size_def)
    have rest: "rest = take (l - 4) rec @ be_bytes 4 (of_nat n :: u32)" using c c1(1) True l(3) by (simp add: stored_cell_def)
    have "read_u32 (pre @ rest @ post) (length pre + l - 4) = n"
      using read_u32_append [OF n, of "pre @ take (l - 4) rec" post] l(1,2) rest by simp
    moreover have "slice (pre @ rest @ post) (length pre) (length pre + l - 4) = take (l - 4) rec"
      using rest l(1,2) by (simp add: slice_def min_def)
    moreover have "length pre + l \<le> length (pre @ rest @ post)" using rest l(1,2) by simp
    ultimately show ?thesis using eq True c1(1) l(3) by simp
  qed
qed

lemma read_stored_cell:
  assumes u: "257 \<le> u" and len: "length rec < 2 ^ 64" and n: "n < 2 ^ 32" and left: "left < 2 ^ 32" and t: "t \<noteq> TableInterior"
    and page: "page_type_of page = Inr t" "t = IndexInterior \<Longrightarrow> cell_interior_read_left_child_page page idx = Inr left"
    and hdr: "cell_header page (Some key) [] idx rec = Inr (t, hdr)"
  shows "read_btree_cell (pre @ stored_cell t u hdr rec n @ post) page (length pre) u =
    Inr (if length rec \<le> payload_overflow_threshold_max t u then cell_of t left key rec (of_nat (length rec)) None
         else cell_of t left key (take (local_size t u (of_nat (length rec)) - 4) rec) (of_nat (length rec)) (Some n))"
proof -
  obtain rest where rest: "stored_cell t u hdr rec n = hdr @ rest" by (cases "length rec \<le> payload_overflow_threshold_max t u") (simp_all add: stored_cell_def)
  have pl: "payload_at (pre @ hdr @ rest @ post) t u (length pre + length hdr) (of_nat (length rec)) =
    Inr (if length rec \<le> payload_overflow_threshold_max t u then (rec, None)
         else (take (local_size t u (of_nat (length rec)) - 4) rec, Some n))"
    using payload_at_stored [OF u len n rest, of "pre @ hdr" post] by simp
  let ?sz = "varint_bytes (of_nat (length rec))"
  have v: "varint_at (pre @ x @ ?sz @ y) (length pre + length x) = Inr (of_nat (length rec), varint_len (of_nat (length rec)))" for x y
    using varint_at_append [of "pre @ x"] by simp
  have "read_btree_cell (pre @ hdr @ rest @ post) page (length pre) u =
    Inr (if length rec \<le> payload_overflow_threshold_max t u then cell_of t left key rec (of_nat (length rec)) None
         else cell_of t left key (take (local_size t u (of_nat (length rec)) - 4) rec) (of_nat (length rec)) (Some n))"
    (is ?g)
  proof (cases t)
    case IndexInterior
    then have h: "hdr = be_bytes 4 (of_nat left :: u32) @ ?sz"
      using hdr page by (simp add: cell_header_def write_varint_to_vec_eq)
    then show ?g
      using pl [unfolded h IndexInterior] v [of "be_bytes 4 (of_nat left :: u32)" "rest @ post"] read_u32_append [OF left, of pre "?sz @ rest @ post"] IndexInterior page(1)
      by (simp add: h read_btree_cell_def length_varint_bytes add.assoc del: payload_overflow_threshold_max.simps)
  next
    case IndexLeaf
    then have h: "hdr = ?sz" using hdr page by (simp add: cell_header_def write_varint_to_vec_eq)
    then show ?g
      using pl [unfolded h IndexLeaf] v [of "[]" "rest @ post"] IndexLeaf page(1) by (simp add: h read_btree_cell_def length_varint_bytes add.assoc del: payload_overflow_threshold_max.simps)
  next
    case TableLeaf
    then have h: "hdr = ?sz @ varint_bytes key" using hdr page by (simp add: cell_header_def write_varint_to_vec_eq)
    then show ?g
      using pl [unfolded h TableLeaf] v [of "[]" "varint_bytes key @ rest @ post"] varint_at_append [of "pre @ ?sz" key "rest @ post"] TableLeaf page(1)
      by (simp add: h read_btree_cell_def length_varint_bytes add.assoc del: payload_overflow_threshold_max.simps)
  qed (use t in simp)
  then show ?thesis by (simp add: rest)
qed

section \<open>Properties\<close>

lemma cell_header_ok:
  assumes "page_type_of page = Inr t" "t = IndexInterior \<Longrightarrow> cell_interior_read_left_child_page page idx = Inr left"
  shows "\<exists>hdr. cell_header page (Some key) [] idx rec = Inr (t, hdr)"
  using assms by (simp add: cell_header_def write_varint_to_vec_eq)

lemma read_chain_pager:
  assumes "pager_ready fresh p" "usable p = u" "257 \<le> u" "length rec < 2 ^ 64" "ovf_chain (pages p) u ps (drop l rec)"
    "set ps \<subseteq> used p" "length rec < k" "l \<le> length rec"
  shows "process_overflow_read (\<lambda>p n. Inr (pages p n)) u k (take l rec) (hd ps) (of_nat (length rec)) p = Some (Inr rec)"
proof -
  have un: "unat (of_nat (length rec) :: u64) = length rec" using assms(4) by (simp add: unat_of_nat take_bit_nat_eq_self)
  have "overflow_read_loop (\<lambda>p n. Inr (pages p n)) u k (take l rec) (length (drop l rec)) (hd ps) p = Some (Inr (take l rec @ drop l rec))"
    by (rule overflow_read_chain [OF assms(5)]) (use assms pager_alloc.live_page [OF assms(1)] in auto)
  then show ?thesis using assms(8) un by (simp add: process_overflow_read_def)
qed

lemma stored_chain_read:
  assumes ps: "pager_ready fresh p" "usable p = u" "set ps \<subseteq> used p" "cell = stored_cell t u hdr rec (hd ps)"
      "if length rec \<le> payload_overflow_threshold_max t u then ps = []
       else ovf_chain (pages p) u ps (drop (local_size t u (of_nat (length rec)) - 4) rec)"
    and u: "257 \<le> u" and len: "length rec < 2 ^ 64" and left: "left < 2 ^ 32" and t: "t \<noteq> TableInterior"
    and page: "page_type_of page = Inr t" "t = IndexInterior \<Longrightarrow> cell_interior_read_left_child_page page idx = Inr left"
    and hdr: "cell_header page (Some key) [] idx rec = Inr (t, hdr)"
  shows "\<exists>payload first. (\<forall>pre post. read_btree_cell (pre @ cell @ post) page (length pre) u =
           Inr (cell_of t left key payload (of_nat (length rec)) first)) \<and>
        (case first of
           None \<Rightarrow> payload = rec
         | Some n \<Rightarrow> process_overflow_read (\<lambda>p n. Inr (pages p n)) u (length rec + 1) payload n (of_nat (length rec)) p = Some (Inr rec))"
proof (cases "length rec \<le> payload_overflow_threshold_max t u")
  case True
  then have "cell = stored_cell t u hdr rec 0" using ps(4) by (simp add: stored_cell_def)
  then show ?thesis using read_stored_cell [OF u len _ left t page hdr, of 0] True
    by (intro exI [of _ rec] exI [of _ None]) simp
next
  case False
  let ?l = "local_size t u (of_nat (length rec)) - 4"
  have ch: "ovf_chain (pages p) u ps (drop ?l rec)" using ps(5) False by simp
  then have ne: "ps \<noteq> []" by auto
  then have "hd ps \<in> used p" using ps(3) hd_in_set by blast
  then have "hd ps < 2 ^ 32" using pager_alloc.live_page [OF ps(1)] by blast
  moreover have "?l \<le> length rec" using ch ovf_chain_length [OF ch] u ne by (cases ps) auto
  ultimately show ?thesis
    using read_stored_cell [OF u len _ left t page hdr, of "hd ps"] False ps(4) read_chain_pager [OF ps(1,2) u len ch ps(3)]
    by (intro exI [of _ "take ?l rec"] exI [of _ "Some (hd ps)"]) simp
qed

text \<open>C25. A record written by \<^verbatim>\<open>fill_cell_payload\<close> is read back. Whatever the size of the record, the
  writer returns within \<open>2 * length rec + 1\<close> rounds and changes no page in use; it fails only when the database is full; and when it succeeds,
  reading the cell on any page gives its key, left child and payload size, and the payload is the
  whole record, or its rest is what \<^verbatim>\<open>process_overflow_read\<close> collects from the overflow pages.\<close>

theorem payload_roundtrip:
  assumes "pager_ready fresh p" "usable p = u" "257 \<le> u" "length rec < 2 ^ 64" "left < 2 ^ 32"
    "page_type_of page = Inr t" "t \<noteq> TableInterior"
    "t = IndexInterior \<longrightarrow> cell_interior_read_left_child_page page idx = Inr left"
  shows "\<exists>r p'. fill_cell_payload (allocate_overflow_page fresh False) pages put_page (2 * length rec + 1) page (Some key) [] idx rec u p = Some (r, p') \<and>
    (\<forall>e. r = Inl e \<longrightarrow> e = DatabaseFull) \<and> used p \<subseteq> used p' \<and> (\<forall>m \<in> used p. pages p' m = pages p m) \<and>
    (\<forall>cell. r = Inr cell \<longrightarrow>
      (\<exists>payload first.
        (\<forall>pre post. read_btree_cell (pre @ cell @ post) page (length pre) u =
           Inr (cell_of t left key payload (of_nat (length rec)) first)) \<and>
        (case first of
           None \<Rightarrow> payload = rec
         | Some n \<Rightarrow> process_overflow_read (\<lambda>p n. Inr (pages p n)) u (length rec + 1) payload n (of_nat (length rec)) p' = Some (Inr rec))))"
    (is "\<exists>r p'. _ \<and> _ \<and> _ \<and> _ \<and> (\<forall>cell. _ \<longrightarrow> ?R cell p')")
proof -
  have left: "t = IndexInterior \<Longrightarrow> cell_interior_read_left_child_page page idx = Inr left" using assms(8) by blast
  obtain hdr where hdr: "cell_header page (Some key) [] idx rec = Inr (t, hdr)"
    using cell_header_ok [OF assms(6) left] by blast
  have k: "2 * length rec < 2 * length rec + 1" by simp
  from pager_alloc.fill_cell_ok [OF assms(1) assms(2) [symmetric] assms(3,4) k hdr] obtain r p' where
    run: "fill_cell_payload (allocate_overflow_page fresh False) pages put_page (2 * length rec + 1) page (Some key) [] idx rec u p = Some (r, p')"
      "\<forall>e. r = Inl e \<longrightarrow> e = DatabaseFull" "used p \<subseteq> used p'" "\<forall>m \<in> used p. pages p' m = pages p m"
    and chain: "\<And>cell. r = Inr cell \<Longrightarrow> \<exists>ps. pager_ready fresh p' \<and> usable p' = u \<and> set ps \<subseteq> used p' \<and> cell = stored_cell t u hdr rec (hd ps) \<and>
      (if length rec \<le> payload_overflow_threshold_max t u then ps = [] \<and> p' = p
       else ovf_chain (pages p') u ps (drop (local_size t u (of_nat (length rec)) - 4) rec))"
    unfolding assms(2) by blast
  have "?R cell p'" if "r = Inr cell" for cell
  proof -
    from chain [OF that] obtain ps where ps: "pager_ready fresh p'" "usable p' = u" "set ps \<subseteq> used p'" "cell = stored_cell t u hdr rec (hd ps)"
      "if length rec \<le> payload_overflow_threshold_max t u then ps = [] \<and> p' = p
       else ovf_chain (pages p') u ps (drop (local_size t u (of_nat (length rec)) - 4) rec)" by blast
    have "if length rec \<le> payload_overflow_threshold_max t u then ps = []
       else ovf_chain (pages p') u ps (drop (local_size t u (of_nat (length rec)) - 4) rec)" using ps(5) by presburger
    then show ?thesis by (rule stored_chain_read [OF ps(1-4) _ assms(3,4,5,7,6) left hdr])
  qed
  then show ?thesis using run by blast
qed

definition roomy_pager :: pager where
  "roomy_pager = small_pager\<lparr>pages := (\<lambda>_. replicate 512 7), usable := 512\<rparr>"

lemma roomy_pager_facts: "pager_ready (replicate 512 0) roomy_pager" "usable roomy_pager = 512" "used roomy_pager = {1, 2, 3}"
proof -
  have inv: "freelist_inv roomy_pager []" by (simp add: freelist_inv_def roomy_pager_def small_pager_def)
  have "sizes_ok roomy_pager" by (simp add: sizes_ok_def roomy_pager_def small_pager_def)
  then show "pager_ready (replicate 512 0) roomy_pager" using inv
    by (auto simp: pager_inv_def pager_ready_def roomy_pager_def small_pager_def)
  show "usable roomy_pager = 512" by (simp add: roomy_pager_def)
  have "{n :: nat. 1 \<le> n \<and> n \<le> 3 \<and> n \<noteq> 2097153} = {1, 2, 3}" by auto
  then show "used roomy_pager = {1, 2, 3}"
    unfolding used_eq [OF inv] by (simp add: roomy_pager_def small_pager_def pending_byte_page_id_def)
qed

theorem payload_roundtrip_witness:
  "\<exists>r p'. fill_cell_payload (allocate_overflow_page (replicate 512 0) False) pages put_page 1201 (leaf_at 0) (Some 9) [] 0
      (replicate 600 5) 512 roomy_pager = Some (r, p') \<and> {1, 2, 3} \<subseteq> used p'"
  using payload_roundtrip [of "replicate 512 0" roomy_pager 512 "replicate 600 5" 0 "leaf_at 0" TableLeaf 0 9]
    roomy_pager_facts leaf_at_facts(1)
  by auto

text \<open>C26. Clearing the overflow pages of a cell frees exactly its chain: it returns within one round
  for each page, the pages of the chain leave the pages in use, and the others keep their contents.\<close>

theorem clear_overflow_pages_exact:
  assumes "pager_ready fresh p" "ovf_chain (pages p) u ps d" "distinct ps" "set ps \<subseteq> used p - {1}"
    "first_overflow_page cell = Some (hd ps)"
  shows "\<exists>p'. clear_overflow_pages (\<lambda>p n. Inr (pages p n)) free_page (db_size p) (length ps) cell p = Some (Inr p') \<and>
    pager_ready fresh p' \<and> used p' = used p - set ps \<and> (\<forall>m \<in> used p'. pages p' m = pages p m)"
proof -
  have "\<forall>n \<in> set ps. 2 \<le> n \<and> n \<le> db_size p"
    using assms(4) pager_alloc.live_page [OF assms(1)] by (force simp: used_def)
  moreover have "set ps \<subseteq> used p" using assms(4) by auto
  ultimately show ?thesis
    using pager_alloc.clear_chain [OF assms(1,2,3), of "db_size p" "length ps"] assms(5)
    by (simp add: clear_overflow_pages_def)
qed

theorem clear_overflow_pages_exact_witness:
  "\<exists>p'. clear_overflow_pages (\<lambda>p n. Inr (pages p n)) free_page 3 1 (IndexLeafCell [] 1 (Some 2)) (put_page small_pager 2 (replicate 12 0)) = Some (Inr p') \<and>
    used p' = {1, 3}"
proof -
  let ?p = "put_page small_pager 2 (replicate 12 0)" and ?fresh = "replicate 12 0 :: bytes"
  have "pager_ready ?fresh small_pager" using small_pager_facts(1,2) by (simp add: pager_ready_def small_pager_def)
  then have ready: "pager_ready ?fresh ?p" "used ?p = {1, 2, 3}" "pages ?p = (pages small_pager)(2 := replicate 12 0)"
    using pager_alloc.put_ok [of ?fresh small_pager 2 "replicate 12 0"] small_pager_facts(3) by (simp_all add: small_pager_def)
  have z: "read_u32 (replicate 12 0) 0 = 0" "slice (replicate 12 (0 :: u8)) 4 5 = [0]" by code_simp+
  have "ovf_chain (pages ?p) 512 [2] [0]" using z by (simp add: ready(3))
  moreover have "db_size ?p = 3" by (simp add: put_page_def small_pager_def)
  moreover have "{1, 2, 3} - {2} = {1, 3 :: nat}" by auto
  ultimately show ?thesis
    using clear_overflow_pages_exact [OF ready(1), of 512 "[2]" "[0]" "IndexLeafCell [] 1 (Some 2)"] ready(2) by auto
qed

end
