(* ===== verification/Page_Space.thy ===== *)
theory Page_Space
  imports Btree_Page
begin

text \<open>
  The free space of a b-tree page (\<^verbatim>\<open>core/storage/btree.rs\<close>): counting it (\<^verbatim>\<open>compute_free_space\<close>), taking a
  slot from the list of freeblocks (\<^verbatim>\<open>find_free_slot\<close>) and giving back the bytes of a cell
  (\<^verbatim>\<open>free_cell_range\<close>). The functions are modelled on arbitrary page bytes, with every check for
  corruption; a subtraction that underflows and an index out of range are panics.

  The lemmas describe a well-formed page by the list of its cells' extents, the list of its
  freeblocks, the start of its content area and the number of its fragmented bytes, which together
  account for every byte of the content area (predicate \<open>fits\<close>), and show how the three functions act on
  this description.
\<close>

section \<open>Operations\<close>

function compute_free_space_loop :: "page_inner \<Rightarrow> usize \<Rightarrow> usize \<Rightarrow> usize \<Rightarrow> usize res" where
  "compute_free_space_loop page usable_sz cur_freeblock_ptr free_space_bytes =
     (if cur_freeblock_ptr + 4 > usable_sz then Inl Corrupt
      else (case read_freeblock page cur_freeblock_ptr of
        Inl e \<Rightarrow> Inl e
      | Inr (next_ptr, sz) \<Rightarrow>
          if sz < 4 then Inl Corrupt
          else if cur_freeblock_ptr + sz > usable_sz then Inl Corrupt
          else if next_ptr = 0 then Inr (free_space_bytes + sz)
          else if next_ptr \<le> cur_freeblock_ptr + sz + 3 then Inl Corrupt
          else compute_free_space_loop page usable_sz next_ptr (free_space_bytes + sz)))"
  by pat_completeness auto
termination by (relation "measure (\<lambda>(_, u, cur, _). u - cur)") auto

declare compute_free_space_loop.simps [simp del]

definition compute_free_space :: "page_inner \<Rightarrow> usize \<Rightarrow> usize res" where
  "compute_free_space page usable_sz =
     rbind (unallocated_region_start page) (\<lambda>first_cell.
       if first_cell > usable_sz then Inl Corrupt
       else rbind (cell_content_area page) (\<lambda>cell_content_area_start.
         if cell_content_area_start > usable_sz then Inl Corrupt
         else rbind (num_frag_free_bytes page) (\<lambda>frag.
           let free_space_bytes = cell_content_area_start + unat frag in
           rbind (first_freeblock page) (\<lambda>cur_freeblock_ptr.
           rbind (if cur_freeblock_ptr > 0 then
                    if cur_freeblock_ptr < cell_content_area_start then Inl Corrupt
                    else compute_free_space_loop page usable_sz cur_freeblock_ptr free_space_bytes
                  else Inr free_space_bytes) (\<lambda>free_space_bytes.
             if free_space_bytes > usable_sz then Inl Corrupt
             else if free_space_bytes < first_cell then Inl Corrupt
             else Inr (free_space_bytes - first_cell))))))"

text \<open>A conversion to \<^verbatim>\<open>u16\<close> that panics when the number does not fit.\<close>

definition try_into_u16 :: "nat \<Rightarrow> nat res" where
  "try_into_u16 n = (if n < 65536 then Inr n else Inl Panic)"

function find_free_slot_loop ::
  "page_inner \<Rightarrow> usize \<Rightarrow> usize \<Rightarrow> usize option \<Rightarrow> usize \<Rightarrow> (usize option \<times> page_inner) res" where
  "find_free_slot_loop page usable_sz amount prev_block cur =
     (if cur + 4 > usable_sz then Inl Corrupt
      else (case rbind (try_into_u16 cur) (read_freeblock page) of
        Inl e \<Rightarrow> Inl e
      | Inr (next_ptr, sz) \<Rightarrow>
          if amount > sz then
            if next_ptr = 0 then Inr (None, page)
            else if next_ptr \<le> cur then Inl Corrupt
            else find_free_slot_loop page usable_sz amount (Some cur) next_ptr
          else if sz - amount < 4 then
            rbind (num_frag_free_bytes page) (\<lambda>frag.
              if frag > 57 then Inr (None, page)
              else
                rbind (case prev_block of
                    Some prev \<Rightarrow> rbind (try_into_u16 prev) (\<lambda>prev. rbind (try_into_u16 next_ptr) (\<lambda>next_ptr.
                      write_freeblock_next_ptr page prev next_ptr))
                  | None \<Rightarrow> rbind (try_into_u16 next_ptr) (\<lambda>next_ptr. write_first_freeblock page next_ptr)) (\<lambda>page.
                rbind (num_frag_free_bytes page) (\<lambda>frag.
                  if unat frag + (sz - amount) > 255 then Inl Panic
                  else rbind (write_fragmented_bytes_count page (frag + of_nat (sz - amount))) (\<lambda>page.
                    Inr (Some cur, page)))))
          else if sz - amount + cur > usable_sz - amount then Inl Corrupt
          else
            rbind (try_into_u16 (sz - amount)) (\<lambda>new_size.
            rbind (write_freeblock_size page cur new_size) (\<lambda>page.
              Inr (Some (cur + new_size), page)))))"
  by pat_completeness auto
termination by (relation "measure (\<lambda>(_, u, _, _, cur). u - cur)") auto

declare find_free_slot_loop.simps [simp del]

definition find_free_slot :: "page_inner \<Rightarrow> usize \<Rightarrow> usize \<Rightarrow> (usize option \<times> page_inner) res" where
  "find_free_slot page usable_sz amount =
     rbind (first_freeblock page) (\<lambda>first_block.
       if amount > usable_sz then Inl Panic
       else if first_block = 0 then Inr (None, page)
       else find_free_slot_loop page usable_sz amount None first_block)"

text \<open>The walk of \<^verbatim>\<open>free_cell_range\<close> to the neighbours of the freed range.\<close>

definition next_block_of :: "nat \<Rightarrow> usize option" where
  "next_block_of n = (if n = 0 then None else Some n)"

function free_cell_range_search ::
  "page_inner \<Rightarrow> usize \<Rightarrow> usize option \<Rightarrow> usize option \<Rightarrow> (usize option \<times> usize option) res" where
  "free_cell_range_search page offset prev_block next_block =
     (case next_block of
        None \<Rightarrow> Inr (prev_block, None)
      | Some nxt \<Rightarrow>
          if (case prev_block of None \<Rightarrow> False | Some prev \<Rightarrow> nxt \<le> prev) then Inl Corrupt
          else if nxt \<ge> offset then Inr (prev_block, Some nxt)
          else (case read_u16_no_offset page nxt of
            Inl e \<Rightarrow> Inl e
          | Inr n \<Rightarrow> free_cell_range_search page offset (Some nxt) (next_block_of n)))"
  by pat_completeness auto
termination
  by (relation "measure (\<lambda>(_, offset, prev, _). case prev of None \<Rightarrow> offset + 1 | Some p \<Rightarrow> offset - p)")
    (auto split: option.splits)

declare free_cell_range_search.simps [simp del]

text \<open>Merging the freed range with the next freeblock and with the previous one. The results are the
  new end and next block, and the new start, each with the number of fragmented bytes it absorbs.\<close>

definition merge_next ::
  "page_inner \<Rightarrow> usize \<Rightarrow> usize \<Rightarrow> usize option \<Rightarrow> (usize \<times> usize option \<times> nat) res" where
  "merge_next page usable_sz end_off next_block =
     (case next_block of
        None \<Rightarrow> Inr (end_off, next_block, 0)
      | Some nxt \<Rightarrow>
          if end_off + 3 \<ge> nxt then
            if nxt < end_off then Inl Panic
            else rbind (read_u16_no_offset page (nxt + 2)) (\<lambda>next_size.
              if nxt + next_size > usable_sz then Inl Corrupt
              else rbind (read_u16_no_offset page nxt) (\<lambda>n.
                Inr (nxt + next_size, next_block_of n, nxt - end_off)))
          else Inr (end_off, next_block, 0))"

definition merge_prev :: "page_inner \<Rightarrow> usize \<Rightarrow> usize option \<Rightarrow> (usize \<times> nat) res" where
  "merge_prev page offset prev_block =
     (case prev_block of
        None \<Rightarrow> Inr (offset, 0)
      | Some prev \<Rightarrow>
          rbind (read_u16_no_offset page (prev + 2)) (\<lambda>prev_size.
            if prev + prev_size > offset then Inl Corrupt
            else if prev + prev_size + 3 \<ge> offset then Inr (prev, offset - (prev + prev_size))
            else Inr (offset, 0)))"

text \<open>Entering the merged range into the list, or adding it to the unallocated region.\<close>

definition link_freed ::
  "page_inner \<Rightarrow> usize \<Rightarrow> usize \<Rightarrow> usize \<Rightarrow> usize \<Rightarrow> usize option \<Rightarrow> usize option \<Rightarrow> page_inner res" where
  "link_freed page cur_content_area first_block offset end_off prev_block next_block =
     (if offset = cur_content_area then
        if (case prev_block of None \<Rightarrow> False | Some prev \<Rightarrow> prev \<noteq> first_block) then Inl Corrupt
        else rbind (case next_block of
              Some nxt \<Rightarrow> if nxt \<le> end_off then Inl Corrupt
                else rbind (try_into_u16 nxt) (\<lambda>nxt. write_first_freeblock page nxt)
            | None \<Rightarrow> write_first_freeblock page 0) (\<lambda>page.
          write_cell_content_area page end_off)
      else
        rbind (try_into_u16 offset) (\<lambda>offset.
        rbind (case prev_block of
            Some prev \<Rightarrow> write_u16_no_offset page prev offset
          | None \<Rightarrow> write_first_freeblock page offset) (\<lambda>page.
        rbind (try_into_u16 (end_off - offset)) (\<lambda>sz.
        rbind (case next_block of None \<Rightarrow> Inr None | Some nxt \<Rightarrow> rbind (try_into_u16 nxt) (\<lambda>nxt. Inr (Some nxt))) (\<lambda>next_block.
          write_freeblock page offset sz next_block)))))"

definition free_cell_range :: "page_inner \<Rightarrow> usize \<Rightarrow> usize \<Rightarrow> usize \<Rightarrow> page_inner res" where
  "free_cell_range page offset len usable_sz =
     (if len < 4 then Inl Corrupt
      else if offset > usable_sz - 4 then Inl Corrupt
      else if offset + len > usable_sz then Inl Corrupt
      else
        rbind (cell_content_area page) (\<lambda>cur_content_area.
        rbind (first_freeblock page) (\<lambda>first_block.
        if first_block = 0 then
          if offset < cur_content_area then Inl Corrupt
          else if offset = cur_content_area then write_cell_content_area page (offset + len)
          else
            rbind (try_into_u16 offset) (\<lambda>offset.
            rbind (write_first_freeblock page offset) (\<lambda>page.
            rbind (try_into_u16 len) (\<lambda>len. write_freeblock page offset len None)))
        else
          rbind (free_cell_range_search page offset None (Some first_block)) (\<lambda>(prev_block, next_block).
          if (case next_block of None \<Rightarrow> False | Some nxt \<Rightarrow> nxt + 4 > usable_sz) then Inl Corrupt
          else
            rbind (merge_next page usable_sz (offset + len) next_block) (\<lambda>(end_off, next_block, removed1).
            rbind (merge_prev page offset prev_block) (\<lambda>(offset, removed2).
            let removed_fragmentation = removed1 + removed2 in
            rbind (num_frag_free_bytes page) (\<lambda>cur_frag_free_bytes.
              if removed_fragmentation > unat cur_frag_free_bytes then Inl Corrupt
              else
                rbind (write_fragmented_bytes_count page (cur_frag_free_bytes - of_nat removed_fragmentation)) (\<lambda>page.
                if offset < cur_content_area then Inl Corrupt
                else link_freed page cur_content_area first_block offset end_off prev_block next_block))))))))"

section \<open>Bytes of a page\<close>

definition u16_at :: "bytes \<Rightarrow> usize \<Rightarrow> nat" where
  "u16_at b i = unat (from_be (slice b i (i + 2)) :: u16)"

definition put_at :: "bytes \<Rightarrow> usize \<Rightarrow> bytes \<Rightarrow> bytes" where
  "put_at b i xs = take i b @ xs @ drop (i + length xs) b"

abbreviation put16 :: "bytes \<Rightarrow> usize \<Rightarrow> nat \<Rightarrow> bytes" where
  "put16 b i n \<equiv> put_at b i (be_bytes 2 (of_nat n :: u16))"

lemma length_put_at [simp]: "i + length xs \<le> length b \<Longrightarrow> length (put_at b i xs) = length b"
  by (simp add: put_at_def)

lemma nth_put_at:
  "i + length xs \<le> length b \<Longrightarrow> j < length b \<Longrightarrow>
   put_at b i xs ! j = (if i \<le> j \<and> j < i + length xs then xs ! (j - i) else b ! j)"
  by (auto simp: put_at_def nth_append min_def)

lemma slice_put_same: "i + length xs \<le> length b \<Longrightarrow> slice (put_at b i xs) i (i + length xs) = xs"
  by (simp add: put_at_def slice_def)

lemma slice_eqI:
  assumes "j \<le> k" "k \<le> length b" "length b' = length b" "\<And>m. j \<le> m \<Longrightarrow> m < k \<Longrightarrow> b' ! m = b ! m"
  shows "slice b' j k = slice b j k"
  by (rule nth_equalityI) (use assms in \<open>auto simp: slice_def\<close>)

lemma slice_put_other:
  assumes "i + length xs \<le> length b" "k \<le> length b" "k \<le> i \<or> i + length xs \<le> j"
  shows "slice (put_at b i xs) j k = slice b j k"
proof (cases "j \<le> k")
  case True
  then show ?thesis by (rule slice_eqI) (use assms in \<open>auto simp: nth_put_at\<close>)
qed (simp add: slice_def)

lemma u16_at_put_same: "i + 2 \<le> length b \<Longrightarrow> u16_at (put16 b i n) i = n mod 65536"
  using slice_put_same [of i "be_bytes 2 (of_nat n :: u16)" b]
  by (simp add: u16_at_def from_be_be_bytes_full unat_of_nat take_bit_eq_mod)

lemma u16_at_put_other:
  "i + length xs \<le> length b \<Longrightarrow> j + 2 \<le> length b \<Longrightarrow> j + 2 \<le> i \<or> i + length xs \<le> j \<Longrightarrow>
   u16_at (put_at b i xs) j = u16_at b j"
  by (simp add: u16_at_def slice_put_other)

lemma u16_at_less: "u16_at b i < 65536"
  using unsigned_less [of "from_be (slice b i (i + 2)) :: u16"] by (simp add: u16_at_def)

lemma page_writes:
  "pos + length xs \<le> length (page_buf p) \<Longrightarrow> write_bytes p pos xs = Inr (p\<lparr>page_buf := put_at (page_buf p) pos xs\<rparr>)"
  by (simp add: write_bytes_def copy_slice_def put_at_def)

lemma read_u16_at: "pos + 2 \<le> length (page_buf p) \<Longrightarrow> read_u16_no_offset p pos = Inr (u16_at (page_buf p) pos)"
  by (simp add: read_u16_no_offset_def u16_at_def)

section \<open>The header of a well-formed page\<close>

definition header_len :: "page_type \<Rightarrow> nat" where
  "header_len t = (if t = IndexInterior \<or> t = TableInterior then 12 else 8)"

definition header_at :: "bytes \<Rightarrow> usize \<Rightarrow> page_type \<Rightarrow> nat list \<Rightarrow> nat \<Rightarrow> nat \<Rightarrow> nat \<Rightarrow> bool" where
  "header_at b po t ptrs ff cca frag \<longleftrightarrow>
     po + 12 \<le> length b \<and> po + header_len t + 2 * length ptrs \<le> length b \<and> b ! po = page_type_to_u8 t \<and>
     u16_at b (po + 1) = ff \<and> u16_at b (po + 3) = length ptrs \<and> u16_at b (po + 5) = cca mod 65536 \<and> 0 < cca \<and> cca \<le> 65536 \<and>
     b ! (po + 7) = of_nat frag \<and> frag < 256 \<and>
     (\<forall>i < length ptrs. u16_at b (po + header_len t + 2 * i) = ptrs ! i)"

lemma page_type_u8: "page_type_try_from (page_type_to_u8 t) = Inr t"
  by (cases t) (simp_all add: page_type_try_from_def)

lemma header_reads:
  assumes "header_at (page_buf p) (page_offset p) t ptrs ff cca frag"
  shows "page_type_of p = Inr t" "header_size p = Inr (header_len t)" "first_freeblock p = Inr ff"
    "cell_count p = Inr (length ptrs)" "cell_content_area p = Inr cca" "num_frag_free_bytes p = Inr (of_nat frag)"
    "cell_pointer_array_offset p = Inr (page_offset p + header_len t)"
    "unallocated_region_start p = Inr (page_offset p + header_len t + 2 * length ptrs)"
    "i < length ptrs \<Longrightarrow> cell_pointer p i = Inr (ptrs ! i)" "i < length ptrs \<Longrightarrow> cell_get_raw_start_offset p i = Inr (ptrs ! i)"
proof -
  show t: "page_type_of p = Inr t"
    using assms by (simp add: header_at_def page_type_of_def read_u8_def page_type_u8)
  show h: "header_size p = Inr (header_len t)"
    using assms by (cases t) (simp_all add: header_at_def header_size_def read_u8_def header_len_def)
  show "first_freeblock p = Inr ff" and n: "cell_count p = Inr (length ptrs)"
    using assms by (simp_all add: header_at_def first_freeblock_def cell_count_def page_read_u16_def read_u16_at)
  show "cell_content_area p = Inr cca"
    using assms by (cases "cca = 65536") (auto simp: header_at_def cell_content_area_def page_read_u16_def read_u16_at)
  show "num_frag_free_bytes p = Inr (of_nat frag)"
    using assms by (simp add: header_at_def num_frag_free_bytes_def read_u8_def)
  show a: "cell_pointer_array_offset p = Inr (page_offset p + header_len t)"
    using h by (simp add: cell_pointer_array_offset_def)
  then show "unallocated_region_start p = Inr (page_offset p + header_len t + 2 * length ptrs)"
    using n by (simp add: unallocated_region_start_def cell_pointer_array_size_def)
  show "i < length ptrs \<Longrightarrow> cell_pointer p i = Inr (ptrs ! i)" "i < length ptrs \<Longrightarrow> cell_get_raw_start_offset p i = Inr (ptrs ! i)"
    using assms h a by (auto simp: header_at_def cell_pointer_def cell_get_raw_start_offset_def page_read_u16_def read_u16_at algebra_simps)
qed

lemma header_len_bounds: "8 \<le> header_len t" "header_len t \<le> 12"
  by (simp_all add: header_len_def)

text \<open>How the writes of the header fields and writes to the content area act on the header.\<close>

lemma header_put_ff:
  assumes "header_at b po t ptrs ff cca frag" "v < 65536"
  shows "header_at (put16 b (po + 1) v) po t ptrs v cca frag"
  using assms header_len_bounds(1) [of t] by (auto simp: header_at_def nth_put_at u16_at_put_same u16_at_put_other)

lemma header_put_cca:
  assumes "header_at b po t ptrs ff cca frag" "0 < v" "v \<le> 65536"
  shows "header_at (put16 b (po + 5) v) po t ptrs ff v frag"
  using assms header_len_bounds(1) [of t] by (auto simp: header_at_def nth_put_at u16_at_put_same u16_at_put_other)

lemma header_put_frag:
  assumes "header_at b po t ptrs ff cca frag" "v < 256"
  shows "header_at (put_at b (po + 7) [of_nat v]) po t ptrs ff cca v"
  using assms header_len_bounds(1) [of t] by (auto simp: header_at_def nth_put_at u16_at_put_other)

lemma header_put_body:
  assumes "header_at b po t ptrs ff cca frag" "po + header_len t + 2 * length ptrs \<le> i" "i + length xs \<le> length b"
  shows "header_at (put_at b i xs) po t ptrs ff cca frag"
  using assms header_len_bounds(1) [of t] by (auto simp: header_at_def nth_put_at u16_at_put_other)

section \<open>Disjoint extents\<close>

type_synonym extent = "nat \<times> nat"

abbreviation total_len :: "extent list \<Rightarrow> nat" where
  "total_len xs \<equiv> sum_list (map snd xs)"

definition apart :: "extent \<Rightarrow> extent \<Rightarrow> bool" where
  "apart x y \<longleftrightarrow> fst x + snd x \<le> fst y \<or> fst y + snd y \<le> fst x"

definition inside :: "nat \<Rightarrow> nat \<Rightarrow> extent \<Rightarrow> bool" where
  "inside lo hi x \<longleftrightarrow> lo \<le> fst x \<and> fst x + snd x \<le> hi"

lemma apart_sym: "apart x y \<longleftrightarrow> apart y x"
  by (auto simp: apart_def)

lemma apart_span: "apart x y \<Longrightarrow> {fst x..<fst x + snd x} \<inter> {fst y..<fst y + snd y} = {}"
  by (auto simp: apart_def)

lemma card_spans:
  "sorted_wrt apart xs \<Longrightarrow> card (\<Union>x \<in> set xs. {fst x..<fst x + snd x}) = total_len xs"
proof (induction xs)
  case (Cons x xs)
  have "{fst x..<fst x + snd x} \<inter> (\<Union>y \<in> set xs. {fst y..<fst y + snd y}) = {}"
    using Cons.prems apart_span by fastforce
  then show ?case using Cons by (simp add: card_Un_disjoint)
qed simp

text \<open>Extents that do not overlap fit their space.\<close>

lemma total_len_le:
  assumes "sorted_wrt apart xs" "\<forall>x \<in> set xs. inside lo hi x"
  shows "total_len xs \<le> hi - lo"
proof -
  have "(\<Union>x \<in> set xs. {fst x..<fst x + snd x}) \<subseteq> {lo..<hi}" using assms(2) by (fastforce simp: inside_def)
  then have "card (\<Union>x \<in> set xs. {fst x..<fst x + snd x}) \<le> card {lo..<hi}" by (intro card_mono) simp_all
  then show ?thesis using card_spans [OF assms(1)] by simp
qed

text \<open>Freeblocks are in ascending order and more than three bytes apart.\<close>

definition before :: "extent \<Rightarrow> extent \<Rightarrow> bool" where
  "before x y \<longleftrightarrow> fst x + snd x + 3 < fst y"

lemma before_apart: "before x y \<Longrightarrow> apart x y" "before x y \<Longrightarrow> apart y x"
  by (auto simp: before_def apart_def)

text \<open>The content area \<open>[cca, u)\<close> consists of the cells, the freeblocks and \<open>frag\<close> fragmented bytes.\<close>

definition fits :: "nat \<Rightarrow> extent list \<Rightarrow> extent list \<Rightarrow> nat \<Rightarrow> nat \<Rightarrow> bool" where
  "fits u cells fbs cca frag \<longleftrightarrow>
     cca \<le> u \<and> sorted_wrt apart cells \<and> sorted_wrt before fbs \<and>
     (\<forall>x \<in> set cells \<union> set fbs. inside cca u x \<and> 4 \<le> snd x) \<and>
     (\<forall>x \<in> set cells. \<forall>f \<in> set fbs. apart x f) \<and>
     total_len cells + total_len fbs + frag = u - cca"

lemma fits_sorted:
  assumes "fits u cells fbs cca frag"
  shows "sorted_wrt apart (cells @ fbs)" "\<forall>x \<in> set (cells @ fbs). inside cca u x"
  using assms by (auto simp: fits_def sorted_wrt_append intro: sorted_wrt_mono_rel before_apart)

lemma fits_mem:
  "fits u cells fbs cca frag \<Longrightarrow> x \<in> set cells \<union> set fbs \<Longrightarrow> cca \<le> fst x \<and> fst x + snd x \<le> u \<and> 4 \<le> snd x"
  by (auto simp: fits_def inside_def)

lemma fits_head: "fits u (c # cells) fbs cca frag \<Longrightarrow> x \<in> set cells \<union> set fbs \<Longrightarrow> apart x c"
  by (auto simp: fits_def apart_sym)

text \<open>Any further extents between the cells and the freeblocks are fragmented bytes.\<close>

lemma fits_frag:
  assumes "fits u cells fbs cca frag" "sorted_wrt apart gs" "\<forall>g \<in> set gs. inside cca u g"
    "\<forall>g \<in> set gs. \<forall>x \<in> set cells \<union> set fbs. apart x g"
  shows "total_len gs \<le> frag"
proof -
  have "sorted_wrt apart ((cells @ fbs) @ gs)"
    using fits_sorted(1) [OF assms(1)] assms(2,4) unfolding sorted_wrt_append [of _ "cells @ fbs"] by auto
  moreover have "\<forall>x \<in> set ((cells @ fbs) @ gs). inside cca u x" using fits_sorted(2) [OF assms(1)] assms(3) by auto
  ultimately have "total_len ((cells @ fbs) @ gs) \<le> u - cca" by (rule total_len_le)
  then show ?thesis using assms(1) by (simp add: fits_def)
qed

lemma fits_around:
  assumes "fits u (c # cells) (pre @ f # post) cca frag"
  shows "apart c f" "4 \<le> snd c" "4 \<le> snd f" "inside cca u c" "inside cca u f"
    "\<And>x. x \<in> set cells \<union> set pre \<union> set post \<Longrightarrow> apart x c \<and> apart x f \<and> 4 \<le> snd x \<and> inside cca u x"
  using assms by (auto simp: fits_def sorted_wrt_append apart_sym dest: before_apart)

text \<open>Absorbing a freeblock and the gap of at most three bytes between it and an extent.\<close>

lemma fits_merge:
  assumes f: "fits u (c # cells) (pre @ f # post) cca frag"
    and g: "snd g \<le> 3" "inside cca u g" "apart c g" "apart f g"
    and m: "\<And>x. apart x c \<Longrightarrow> apart x g \<Longrightarrow> apart x f \<Longrightarrow> 4 \<le> snd x \<Longrightarrow> apart x m" "inside cca u m"
      "snd m = snd c + snd g + snd f"
    and near: "\<And>x. apart x c \<Longrightarrow> apart x f \<Longrightarrow> 4 \<le> snd x \<Longrightarrow> apart x g"
  shows "snd g \<le> frag" "fits u (m # cells) (pre @ post) cca (frag - snd g)"
proof -
  note a = fits_around [OF f]
  have "total_len [g] \<le> frag"
    by (rule fits_frag [OF f]) (use g near a in \<open>auto simp: apart_sym\<close>)
  then show fr: "snd g \<le> frag" by simp
  have cov: "apart x m \<and> apart m x" if "x \<in> set cells \<union> set (pre @ post)" for x
  proof -
    have "apart x m" using m(1) near a(6) that by auto
    then show ?thesis using apart_sym by blast
  qed
  have "sorted_wrt before (pre @ post)" using f by (auto simp: fits_def sorted_wrt_append)
  then show "fits u (m # cells) (pre @ post) cca (frag - snd g)"
    using f cov fr a(2,3) m(2,3) by (auto simp: fits_def)
qed

lemma fits_merge_next:
  assumes f: "fits u ((off, len) # cells) (pre @ (ns, nz) # post) cca frag" and near: "off \<le> ns" "ns \<le> off + len + 3"
  shows "off + len \<le> ns" "ns - (off + len) \<le> frag"
    "fits u ((off, ns + nz - off) # cells) (pre @ post) cca (frag - (ns - (off + len)))"
proof -
  note a = fits_around [OF f]
  show le: "off + len \<le> ns" using near a(1,2,3) by (auto simp: apart_def)
  note m = fits_merge [OF f, of "(off + len, ns - (off + len))" "(off, ns + nz - off)", unfolded snd_conv]
  show "ns - (off + len) \<le> frag"
    by (rule m(1)) (use a(1-5) near le in \<open>auto simp: apart_def inside_def\<close>)
  show "fits u ((off, ns + nz - off) # cells) (pre @ post) cca (frag - (ns - (off + len)))"
    by (rule m(2)) (use a(1-5) near le in \<open>auto simp: apart_def inside_def\<close>)
qed

lemma fits_merge_prev:
  assumes f: "fits u ((off, len) # cells) (pre @ (ps, pz) # post) cca frag" and near: "ps < off" "off \<le> ps + pz + 3"
  shows "ps + pz \<le> off" "off - (ps + pz) \<le> frag"
    "fits u ((ps, off + len - ps) # cells) (pre @ post) cca (frag - (off - (ps + pz)))"
proof -
  note a = fits_around [OF f]
  show le: "ps + pz \<le> off" using near a(1,2,3) by (auto simp: apart_def)
  note m = fits_merge [OF f, of "(ps + pz, off - (ps + pz))" "(ps, off + len - ps)", unfolded snd_conv]
  show "off - (ps + pz) \<le> frag"
    by (rule m(1)) (use a(1-5) near le in \<open>auto simp: apart_def inside_def\<close>)
  show "fits u ((ps, off + len - ps) # cells) (pre @ post) cca (frag - (off - (ps + pz)))"
    by (rule m(2)) (use a(1-5) near le in \<open>auto simp: apart_def inside_def\<close>)
qed

text \<open>An extent away from its neighbours becomes a freeblock, and one at the start of the content area
  joins the unallocated region.\<close>

lemma fits_new_block:
  assumes "fits u (c # cells) (pre @ post) cca frag" "\<forall>f \<in> set pre. before f c" "\<forall>f \<in> set post. before c f"
  shows "fits u cells (pre @ c # post) cca frag"
  using assms by (auto simp: fits_def sorted_wrt_append apart_sym)

lemma fits_shrink:
  assumes "fits u ((cca, len) # cells) fbs cca frag"
  shows "fits u cells fbs (cca + len) frag"
proof -
  have "inside (cca + len) u x" if "x \<in> set cells \<union> set fbs" for x
  proof -
    have "apart (cca, len) x" "inside cca u x" "4 \<le> snd x" using assms that by (auto simp: fits_def)
    then show ?thesis by (auto simp: apart_def inside_def)
  qed
  then show ?thesis using assms by (auto simp: fits_def inside_def)
qed

section \<open>The list of freeblocks\<close>

definition fb_first :: "extent list \<Rightarrow> nat \<Rightarrow> nat" where
  "fb_first fs n = (case fs of [] \<Rightarrow> n | f # _ \<Rightarrow> fst f)"

primrec fb_seg :: "bytes \<Rightarrow> extent list \<Rightarrow> nat \<Rightarrow> bool" where
  "fb_seg b [] n \<longleftrightarrow> True"
| "fb_seg b (f # fs) n \<longleftrightarrow> u16_at b (fst f) = fb_first fs n \<and> u16_at b (fst f + 2) = snd f \<and> fb_seg b fs n"

lemma fb_first_simps [simp]: "fb_first [] n = n" "fb_first (f # fs) n = fst f"
  by (simp_all add: fb_first_def)

lemma fb_first_append: "fb_first (xs @ ys) n = fb_first xs (fb_first ys n)"
  by (cases xs) simp_all

lemma fb_seg_append: "fb_seg b (xs @ ys) n \<longleftrightarrow> fb_seg b xs (fb_first ys n) \<and> fb_seg b ys n"
  by (induction xs) (auto simp: fb_first_append)

lemma fb_seg_cong:
  "(\<And>f. f \<in> set fs \<Longrightarrow> u16_at b' (fst f) = u16_at b (fst f) \<and> u16_at b' (fst f + 2) = u16_at b (fst f + 2)) \<Longrightarrow>
   fb_seg b' fs n \<longleftrightarrow> fb_seg b fs n"
  by (induction fs) auto

text \<open>A write that touches no freeblock keeps the list.\<close>

lemma fb_seg_put:
  assumes "i + length xs \<le> length b" "\<forall>f \<in> set fs. apart f (i, length xs) \<and> fst f + snd f \<le> length b \<and> 4 \<le> snd f"
  shows "fb_seg (put_at b i xs) fs n \<longleftrightarrow> fb_seg b fs n"
proof (rule fb_seg_cong)
  fix f assume "f \<in> set fs"
  then have "fst f + 4 \<le> i \<or> i + length xs \<le> fst f" "fst f + 4 \<le> length b" using assms(2) by (auto simp: apart_def)
  then show "u16_at (put_at b i xs) (fst f) = u16_at b (fst f) \<and> u16_at (put_at b i xs) (fst f + 2) = u16_at b (fst f + 2)"
    using assms(1) by (auto intro!: u16_at_put_other)
qed

text \<open>A page whose bytes are described by the extents of its cells and by its freeblocks.\<close>

definition page_space :: "bytes \<Rightarrow> usize \<Rightarrow> page_type \<Rightarrow> nat list \<Rightarrow> nat \<Rightarrow> extent list \<Rightarrow> extent list \<Rightarrow> nat \<Rightarrow> nat \<Rightarrow> bool" where
  "page_space b po t ptrs u cells fbs cca frag \<longleftrightarrow>
     header_at b po t ptrs (fb_first fbs 0) cca frag \<and> fb_seg b fbs 0 \<and> fits u cells fbs cca frag \<and>
     po + header_len t + 2 * length ptrs \<le> cca \<and> u \<le> length b \<and> length b \<le> 65536"

lemma page_spaceD:
  assumes "page_space b po t ptrs u cells fbs cca frag"
  shows "header_at b po t ptrs (fb_first fbs 0) cca frag" "fb_seg b fbs 0" "fits u cells fbs cca frag"
    "po + header_len t + 2 * length ptrs \<le> cca" "u \<le> length b" "length b \<le> 65536" "po + 8 \<le> cca" "cca \<le> u" "frag < 256"
    "\<And>f. f \<in> set fbs \<Longrightarrow> cca \<le> fst f \<and> fst f + snd f \<le> u \<and> 4 \<le> snd f \<and> po + 8 \<le> fst f \<and> 0 < fst f \<and> fst f < 65536"
    "\<And>c. c \<in> set cells \<Longrightarrow> cca \<le> fst c \<and> fst c + snd c \<le> u \<and> 4 \<le> snd c \<and> po + 8 \<le> fst c \<and> 0 < fst c \<and> fst c < 65536"
proof -
  show h: "header_at b po t ptrs (fb_first fbs 0) cca frag" "fb_seg b fbs 0" and f: "fits u cells fbs cca frag"
    and l: "po + header_len t + 2 * length ptrs \<le> cca" "u \<le> length b" "length b \<le> 65536"
    using assms by (simp_all add: page_space_def)
  show c: "po + 8 \<le> cca" using l(1) header_len_bounds(1) [of t] by linarith
  show "cca \<le> u" "frag < 256" using f h(1) by (simp_all add: fits_def header_at_def)
  have "cca \<le> fst x \<and> fst x + snd x \<le> u \<and> 4 \<le> snd x \<and> po + 8 \<le> fst x \<and> 0 < fst x \<and> fst x < 65536"
    if "x \<in> set cells \<union> set fbs" for x
  proof -
    have "inside cca u x" "4 \<le> snd x" using f that by (auto simp: fits_def)
    then show ?thesis using c l(2,3) unfolding inside_def by linarith
  qed
  then show "\<And>f. f \<in> set fbs \<Longrightarrow> cca \<le> fst f \<and> fst f + snd f \<le> u \<and> 4 \<le> snd f \<and> po + 8 \<le> fst f \<and> 0 < fst f \<and> fst f < 65536"
    "\<And>c. c \<in> set cells \<Longrightarrow> cca \<le> fst c \<and> fst c + snd c \<le> u \<and> 4 \<le> snd c \<and> po + 8 \<le> fst c \<and> 0 < fst c \<and> fst c < 65536"
    by blast+
qed

section \<open>Counting the free space\<close>

lemma compute_free_space_loop_eq:
  assumes "fb_seg (page_buf p) (f # fs) 0" "sorted_wrt before (f # fs)" "u \<le> length (page_buf p)"
    "\<forall>g \<in> set (f # fs). 0 < fst g \<and> 4 \<le> snd g \<and> fst g + snd g \<le> u"
  shows "compute_free_space_loop p u (fst f) acc = Inr (acc + total_len (f # fs))"
  using assms
proof (induction fs arbitrary: f acc)
  case Nil
  then have "read_freeblock p (fst f) = Inr (0, snd f)" by (simp add: read_freeblock_def read_u16_at)
  then show ?case using Nil by (subst compute_free_space_loop.simps) auto
next
  case (Cons g fs)
  then have "read_freeblock p (fst f) = Inr (fst g, snd f)" by (simp add: read_freeblock_def read_u16_at)
  moreover have "compute_free_space_loop p u (fst g) (acc + snd f) = Inr (acc + snd f + total_len (g # fs))"
    using Cons.IH [of g "acc + snd f"] Cons.prems by simp
  moreover have "fst f + snd f + 3 < fst g" using Cons.prems(2) by (simp add: before_def)
  ultimately show ?case using Cons.prems(4) by (subst compute_free_space_loop.simps) auto
qed

lemma compute_free_space_eq:
  assumes "page_space (page_buf p) (page_offset p) t ptrs u cells fbs cca frag"
  shows "compute_free_space p u = Inr (u - total_len cells - (page_offset p + header_len t + 2 * length ptrs))"
proof -
  note d = page_spaceD [OF assms]
  note r = header_reads [OF d(1)]
  have sum: "cca + frag + total_len fbs = u - total_len cells" "total_len cells \<le> u - cca"
    using d(3,8) unfolding fits_def by linarith+
  have frag: "unat (of_nat frag :: u8) = frag" using d(9) by (simp add: unat_of_nat take_bit_nat_eq_self)
  have loop: "(if fb_first fbs 0 > 0 then
        if fb_first fbs 0 < cca then Inl Corrupt else compute_free_space_loop p u (fb_first fbs 0) (cca + frag)
      else Inr (cca + frag)) = Inr (cca + frag + total_len fbs)"
  proof (cases fbs)
    case (Cons f fs)
    have "compute_free_space_loop p u (fst f) (cca + frag) = Inr (cca + frag + total_len (f # fs))"
      by (rule compute_free_space_loop_eq) (use d Cons in \<open>auto simp: fits_def\<close>)
    then show ?thesis using Cons d(10) [of f] by simp
  qed simp
  show ?thesis
    using d(4,8) sum unfolding compute_free_space_def r rbind_Inr frag Let_def loop by auto
qed

end
