(* ===== verification/Page_Free.thy ===== *)
theory Page_Free
  imports Page_Space
begin

text \<open>
  Correctness of \<^verbatim>\<open>free_cell_range\<close> and \<^verbatim>\<open>find_free_slot\<close> on well-formed pages: giving back the bytes of a
  cell and taking a slot for one keep the account of the page, and touch no other cell.
\<close>

section \<open>Freeing a cell\<close>

definition last_start :: "extent list \<Rightarrow> nat option" where
  "last_start fs = (if fs = [] then None else Some (fst (last fs)))"

lemma free_search:
  assumes "fb_seg (page_buf p) fs 0" "sorted_wrt before (pre @ fs)"
    "\<forall>f \<in> set fs. 0 < fst f \<and> fst f + 4 \<le> length (page_buf p)"
  shows "free_cell_range_search p offset (last_start pre) (next_block_of (fb_first fs 0)) =
    Inr (last_start (pre @ takeWhile (\<lambda>f. fst f < offset) fs), next_block_of (fb_first (dropWhile (\<lambda>f. fst f < offset) fs) 0))"
  using assms
proof (induction fs arbitrary: pre)
  case Nil
  then show ?case by (subst free_cell_range_search.simps) (simp add: next_block_of_def)
next
  case (Cons f fs)
  have f: "0 < fst f" "fst f + 4 \<le> length (page_buf p)" using Cons.prems(3) by auto
  have asc: "\<not> (case last_start pre of None \<Rightarrow> False | Some prev \<Rightarrow> fst f \<le> prev)"
  proof (cases pre rule: rev_cases)
    case (snoc pre' l)
    then show ?thesis using Cons.prems(2) by (auto simp: last_start_def sorted_wrt_append before_def)
  qed (simp add: last_start_def)
  have rd: "read_u16_no_offset p (fst f) = Inr (fb_first fs 0)" using f Cons.prems(1) by (simp add: read_u16_at)
  have "free_cell_range_search p offset (Some (fst f)) (next_block_of (fb_first fs 0)) =
      Inr (last_start ((pre @ [f]) @ takeWhile (\<lambda>f. fst f < offset) fs), next_block_of (fb_first (dropWhile (\<lambda>f. fst f < offset) fs) 0))"
    using Cons.IH [of "pre @ [f]"] Cons.prems by (simp add: last_start_def)
  then show ?case using f asc rd
    by (subst free_cell_range_search.simps) (auto simp: next_block_of_def last_start_def)
qed

lemmas header_writes = write_first_freeblock_def write_cell_content_area_def write_fragmented_bytes_count_def write_freeblock_def
  write_freeblock_next_ptr_def write_freeblock_size_def page_write_u16_def write_u16_no_offset_def write_u8_def page_writes

text \<open>Cells are not touched by writes to the header and by writes to extents apart from them.\<close>

lemma slice_put_header:
  "i + length xs \<le> po + 8 \<Longrightarrow> po + 8 \<le> s \<Longrightarrow> s + z \<le> length b \<Longrightarrow> slice (put_at b i xs) s (s + z) = slice b s (s + z)"
  by (intro slice_put_other) auto

lemma slice_put_apart:
  "i + length xs \<le> length b \<Longrightarrow> apart c (i, length xs) \<Longrightarrow> fst c + snd c \<le> length b \<Longrightarrow>
   slice (put_at b i xs) (fst c) (fst c + snd c) = slice b (fst c) (fst c + snd c)"
  by (intro slice_put_other) (auto simp: apart_def)

definition same_cells :: "extent list \<Rightarrow> bytes \<Rightarrow> bytes \<Rightarrow> bool" where
  "same_cells cells b b' \<longleftrightarrow> length b' = length b \<and> (\<forall>c \<in> set cells. slice b' (fst c) (fst c + snd c) = slice b (fst c) (fst c + snd c))"

lemma same_cells_refl: "same_cells cells b b"
  by (simp add: same_cells_def)

lemma same_cells_trans: "same_cells cells b b' \<Longrightarrow> same_cells cells b' b'' \<Longrightarrow> same_cells cells b b''"
  by (simp add: same_cells_def)

lemma same_cells_put:
  assumes "i + length xs \<le> length b" "\<forall>c \<in> set cells. apart c (i, length xs) \<and> fst c + snd c \<le> length b"
  shows "same_cells cells b (put_at b i xs)"
  using assms by (auto simp: same_cells_def slice_put_apart)

text \<open>Writes to extents apart from the cells and the freeblocks keep them; in particular writes to the
  header.\<close>

definition clear_of :: "extent list \<Rightarrow> nat \<Rightarrow> nat \<Rightarrow> nat \<Rightarrow> bool" where
  "clear_of xs m i n \<longleftrightarrow> i + n \<le> m \<and> (\<forall>x \<in> set xs. apart x (i, n) \<and> fst x + snd x \<le> m \<and> 4 \<le> snd x)"

lemma put_frame:
  assumes "clear_of (cells @ fs) (length b) i (length xs)"
  shows "same_cells cells b (put_at b i xs)" "fb_seg (put_at b i xs) fs n \<longleftrightarrow> fb_seg b fs n"
  using assms by (auto simp: clear_of_def intro!: same_cells_put fb_seg_put)

lemma clear_of_subset: "clear_of xs m i n \<Longrightarrow> set ys \<subseteq> set xs \<Longrightarrow> clear_of ys m i n"
  by (auto simp: clear_of_def)

lemma clear_of_header:
  assumes "\<forall>x \<in> set xs. po + 8 \<le> fst x \<and> fst x + snd x \<le> m \<and> 4 \<le> snd x" "i + n \<le> po + 8" "po + 8 \<le> m"
  shows "clear_of xs m i n"
proof -
  have "apart x (i, n)" if "x \<in> set xs" for x using assms(1,2) that by (force simp: apart_def)
  then show ?thesis using assms by (auto simp: clear_of_def)
qed

lemma clear_of_within:
  assumes "\<forall>x \<in> set xs. apart x (j, k) \<and> fst x + snd x \<le> m \<and> 4 \<le> snd x" "j \<le> i" "i + n \<le> j + k" "j + k \<le> m"
  shows "clear_of xs m i n"
proof -
  have "apart x (i, n)" if "x \<in> set xs" for x using assms(1,2,3) that by (force simp: apart_def)
  then show ?thesis using assms by (auto simp: clear_of_def)
qed

lemma fits_clear:
  assumes "fits u ((off, len) # cells) fbs cca frag" "u \<le> m" "off \<le> i" "i + n \<le> off + len"
  shows "clear_of (cells @ fbs) m i n"
proof (rule clear_of_within [where j = off and k = len])
  have "apart x (off, len) \<and> fst x + snd x \<le> m \<and> 4 \<le> snd x" if "x \<in> set (cells @ fbs)" for x
  proof -
    have "cca \<le> fst x \<and> fst x + snd x \<le> u \<and> 4 \<le> snd x" by (rule fits_mem [OF assms(1)]) (use that in auto)
    then show ?thesis using fits_head [OF assms(1), of x] that assms(2) by auto
  qed
  then show "\<forall>x \<in> set (cells @ fbs). apart x (off, len) \<and> fst x + snd x \<le> m \<and> 4 \<le> snd x" by blast
  show "off + len \<le> m" using fits_mem [OF assms(1), of "(off, len)"] assms(2) by simp
qed (use assms in auto)

lemma fits_clear_header:
  assumes "fits u cells fbs cca frag" "u \<le> m" "po + 8 \<le> cca" "i + n \<le> po + 8"
  shows "clear_of (cells @ fbs) m i n"
proof (rule clear_of_header)
  have "po + 8 \<le> fst x \<and> fst x + snd x \<le> m \<and> 4 \<le> snd x" if "x \<in> set (cells @ fbs)" for x
  proof -
    have "cca \<le> fst x \<and> fst x + snd x \<le> u \<and> 4 \<le> snd x" by (rule fits_mem [OF assms(1)]) (use that in auto)
    then show ?thesis using assms(2,3) by linarith
  qed
  then show "\<forall>x \<in> set (cells @ fbs). po + 8 \<le> fst x \<and> fst x + snd x \<le> m \<and> 4 \<le> snd x" by blast
  show "po + 8 \<le> m" using assms by (simp add: fits_def)
qed (use assms in auto)

text \<open>Pointing the list up to \<open>pre\<close> to \<open>v\<close>.\<close>

lemma relink:
  assumes h: "header_at (page_buf p) (page_offset p) t ptrs ff cca frag"
    and f: "fits u cells (pre @ post) cca frag'"
    and seg: "fb_seg (page_buf p) pre n" "fb_seg (page_buf p) post 0"
    and lo: "page_offset p + header_len t + 2 * length ptrs \<le> cca" "u \<le> length (page_buf p)"
    and ff: "pre \<noteq> [] \<Longrightarrow> ff = fst (hd pre)" and v: "v < 65536"
  shows "\<exists>b'. (case last_start pre of Some prev \<Rightarrow> write_u16_no_offset p prev v | None \<Rightarrow> write_first_freeblock p v) = Inr (p\<lparr>page_buf := b'\<rparr>) \<and>
    header_at b' (page_offset p) t ptrs (fb_first pre v) cca frag \<and> fb_seg b' pre v \<and> fb_seg b' post 0 \<and>
    same_cells cells (page_buf p) b'"
proof -
  let ?b = "page_buf p" and ?po = "page_offset p"
  have po: "?po + 8 \<le> cca" "cca \<le> u" using lo(1) f header_len_bounds(1) [of t] by (simp_all add: fits_def)
  show ?thesis
  proof (cases pre rule: rev_cases)
    case Nil
    have "header_at (put16 ?b (?po + 1) v) ?po t ptrs v cca frag" by (rule header_put_ff [OF h v])
    moreover have c: "clear_of (cells @ post) (length ?b) (?po + 1) (length (be_bytes 2 (of_nat v :: u16)))"
      by (rule clear_of_subset [OF fits_clear_header [OF f lo(2) po(1)]]) auto
    ultimately show ?thesis using Nil seg(2) po lo put_frame [OF c]
      by (intro exI [of _ "put16 ?b (?po + 1) v"]) (simp add: header_writes last_start_def)
  next
    case (snoc pre' l)
    have l: "cca \<le> fst l" "fst l + snd l \<le> u" "4 \<le> snd l" using fits_mem [OF f, of l] snoc by auto
    have "header_at (put16 ?b (fst l) v) ?po t ptrs ff cca frag" by (rule header_put_body [OF h]) (use l lo in auto)
    moreover have c: "clear_of (cells @ pre' @ post) (length ?b) (fst l) (length (be_bytes 2 (of_nat v :: u16)))"
    proof (rule clear_of_within [where j = "fst l" and k = "snd l"])
      have "apart x (fst l, snd l) \<and> fst x + snd x \<le> length ?b \<and> 4 \<le> snd x" if "x \<in> set (cells @ pre' @ post)" for x
        using f that snoc fits_mem [OF f, of x] lo(2) by (auto simp: fits_def sorted_wrt_append dest: before_apart)
      then show "\<forall>x \<in> set (cells @ pre' @ post). apart x (fst l, snd l) \<and> fst x + snd x \<le> length ?b \<and> 4 \<le> snd x" by blast
    qed (use l lo in auto)
    moreover have "u16_at (put16 ?b (fst l) v) (fst l) = v" "u16_at (put16 ?b (fst l) v) (fst l + 2) = u16_at ?b (fst l + 2)"
      using l lo v by (simp_all add: u16_at_put_same u16_at_put_other)
    moreover have "ff = fb_first pre v" using ff snoc by (cases pre') simp_all
    ultimately show ?thesis using snoc seg l lo put_frame(1) [OF clear_of_subset [OF c], of cells "[]"]
        put_frame(2) [OF clear_of_subset [OF c], of "[]" pre'] put_frame(2) [OF clear_of_subset [OF c], of "[]" post]
      by (intro exI [of _ "put16 ?b (fst l) v"]) (auto simp: header_writes fb_seg_append last_start_def)
  qed
qed

text \<open>Pointing the list before a new freeblock at \<open>off\<close> to it, when the block before it was absorbed
  (\<open>prev = Some off\<close>) and when it was not.\<close>

lemma link_prev:
  assumes h: "header_at (page_buf p) (page_offset p) t ptrs ff cca frag"
    and f: "fits u ((off, len) # cells) (pre @ post) cca frag"
    and seg: "fb_seg (page_buf p) pre n" "fb_seg (page_buf p) post 0"
    and lo: "page_offset p + header_len t + 2 * length ptrs \<le> cca" "u \<le> length (page_buf p)" "length (page_buf p) \<le> 65536"
    and prev: "prev = last_start pre \<or> prev = Some off \<and> n = off" "prev \<noteq> None \<Longrightarrow> ff = fb_first pre n"
  shows "\<exists>b'. (case prev of Some prev \<Rightarrow> write_u16_no_offset p prev off | None \<Rightarrow> write_first_freeblock p off) = Inr (p\<lparr>page_buf := b'\<rparr>) \<and>
    header_at b' (page_offset p) t ptrs (fb_first pre off) cca frag \<and> fb_seg b' pre off \<and> fb_seg b' post 0 \<and>
    same_cells cells (page_buf p) b'"
proof (cases "prev = last_start pre")
  case True
  have "off < 65536" using fits_mem [OF f, of "(off, len)"] lo by auto
  moreover have "ff = fst (hd pre)" if "pre \<noteq> []" using that prev(2) True by (cases pre) (auto simp: last_start_def)
  ultimately obtain b' where
    "(case prev of Some prev \<Rightarrow> write_u16_no_offset p prev off | None \<Rightarrow> write_first_freeblock p off) = Inr (p\<lparr>page_buf := b'\<rparr>)"
    "header_at b' (page_offset p) t ptrs (fb_first pre off) cca frag" "fb_seg b' pre off" "fb_seg b' post 0"
    "same_cells ((off, len) # cells) (page_buf p) b'"
    using relink [OF h f seg lo(1,2), of off] unfolding True by blast
  then show ?thesis by (auto simp: same_cells_def)
next
  case False
  let ?b = "page_buf p" and ?po = "page_offset p"
  have off: "cca \<le> off" "off + len \<le> u" "4 \<le> len" using fits_mem [OF f, of "(off, len)"] by auto
  have p: "prev = Some off" "n = off" "ff = fb_first pre off" using prev False by auto
  have "header_at (put16 ?b off off) ?po t ptrs ff cca frag" by (rule header_put_body [OF h]) (use off lo in auto)
  moreover have c: "clear_of (cells @ pre @ post) (length ?b) off (length (be_bytes 2 (of_nat off :: u16)))"
    by (rule fits_clear [OF f lo(2)]) (use off in auto)
  ultimately show ?thesis using p seg off lo put_frame(1) [OF clear_of_subset [OF c], of cells "[]"]
      put_frame(2) [OF clear_of_subset [OF c], of "[]" pre] put_frame(2) [OF clear_of_subset [OF c], of "[]" post]
    by (intro exI [of _ "put16 ?b off off"]) (auto simp: header_writes)
qed

lemma write_block:
  assumes h: "header_at (page_buf p) (page_offset p) t ptrs (fb_first pre off) cca frag"
    and f: "fits u ((off, len) # cells) (pre @ post) cca frag"
    and seg: "fb_seg (page_buf p) pre off" "fb_seg (page_buf p) post 0"
    and lo: "page_offset p + header_len t + 2 * length ptrs \<le> cca" "u \<le> length (page_buf p)" "length (page_buf p) \<le> 65536"
    and near: "\<forall>f \<in> set pre. before f (off, len)" "\<forall>f \<in> set post. before (off, len) f"
  shows "\<exists>b'. write_freeblock p off len (if post = [] then None else Some (fst (hd post))) = Inr (p\<lparr>page_buf := b'\<rparr>) \<and>
    page_space b' (page_offset p) t ptrs u cells (pre @ (off, len) # post) cca frag \<and> same_cells cells (page_buf p) b'"
proof -
  let ?b = "page_buf p"
  let ?n = "fb_first post 0"
  let ?b1 = "put16 ?b off ?n" and ?b2 = "put16 (put16 ?b off ?n) (off + 2) len"
  have off: "cca \<le> off" "off + len \<le> u" "4 \<le> len" using fits_mem [OF f, of "(off, len)"] by auto
  have len: "length ?b1 = length ?b" "len < 65536" using off lo header_len_bounds(1) [of t] by auto
  have n: "?n < 65536"
  proof (cases post)
    case (Cons x xs)
    then show ?thesis using fits_mem [OF f, of x] lo(2,3) by auto
  qed simp
  have c1: "clear_of (cells @ pre @ post) (length ?b) off (length (be_bytes 2 (of_nat ?n :: u16)))"
    by (rule fits_clear [OF f lo(2)]) (use off in auto)
  have c2: "clear_of (cells @ pre @ post) (length ?b1) (off + 2) (length (be_bytes 2 (of_nat len :: u16)))"
    by (rule fits_clear [OF f]) (use off len lo in auto)
  have h2: "header_at ?b2 (page_offset p) t ptrs (fb_first pre off) cca frag"
    by (intro header_put_body h) (use off lo len in auto)
  have same: "same_cells cells ?b ?b2"
    using put_frame(1) [OF c1] put_frame(1) [OF c2] by (rule same_cells_trans)
  have seg2: "fb_seg ?b2 fs m \<longleftrightarrow> fb_seg ?b fs m" if "set fs \<subseteq> set (pre @ post)" for fs m
  proof -
    have "set ([] @ fs) \<subseteq> set (cells @ pre @ post)" using that by auto
    then show ?thesis
      using put_frame(2) [OF clear_of_subset [OF c1], of "[]" fs m] put_frame(2) [OF clear_of_subset [OF c2], of "[]" fs m] by blast
  qed
  have "u16_at ?b2 off = ?n" "u16_at ?b2 (off + 2) = len"
    using off lo len n by (simp_all add: u16_at_put_same u16_at_put_other)
  then have "fb_seg ?b2 (pre @ (off, len) # post) 0" using seg2 seg by (simp add: fb_seg_append)
  moreover have "fits u cells (pre @ (off, len) # post) cca frag" by (rule fits_new_block [OF f near])
  ultimately have "page_space ?b2 (page_offset p) t ptrs u cells (pre @ (off, len) # post) cca frag"
    using h2 lo same by (simp add: page_space_def fb_first_append same_cells_def)
  moreover have "write_freeblock p off len (if post = [] then None else Some (fst (hd post))) = Inr (p\<lparr>page_buf := ?b2\<rparr>)"
    using off lo by (cases post) (simp_all add: header_writes)
  ultimately show ?thesis using same by blast
qed

lemma next_block_first:
  assumes "\<forall>f \<in> set post. 0 < fst f"
  shows "next_block_of (fb_first post 0) = (if post = [] then None else Some (fst (hd post)))"
  using assms by (cases post) (auto simp: next_block_of_def)

lemma page_offset_update [simp]: "page_offset (p\<lparr>page_buf := b\<rparr>) = page_offset p"
  by (simp add: page_offset_def)

lemma header_write_eqs:
  assumes "header_at (page_buf p) (page_offset p) t ptrs ff cca frag"
  shows "write_first_freeblock p v = Inr (p\<lparr>page_buf := put16 (page_buf p) (page_offset p + 1) v\<rparr>)"
    "v \<le> 65536 \<Longrightarrow> write_cell_content_area p v = Inr (p\<lparr>page_buf := put16 (page_buf p) (page_offset p + 5) v\<rparr>)"
    "write_fragmented_bytes_count p w = Inr (p\<lparr>page_buf := put_at (page_buf p) (page_offset p + 7) [w]\<rparr>)"
    "write_cell_count p v = Inr (p\<lparr>page_buf := put16 (page_buf p) (page_offset p + 3) v\<rparr>)"
  using assms by (simp_all add: header_at_def header_writes write_cell_count_def)

text \<open>Adding an extent at the start of the content area to the unallocated region.\<close>

lemma link_unallocated:
  assumes h: "header_at (page_buf p) (page_offset p) t ptrs ff cca frag"
    and f: "fits u ((cca, len) # cells) post cca frag"
    and seg: "fb_seg (page_buf p) post 0"
    and lo: "page_offset p + header_len t + 2 * length ptrs \<le> cca" "u \<le> length (page_buf p)" "length (page_buf p) \<le> 65536"
    and near: "\<forall>f \<in> set post. before (cca, len) f"
    and prev: "prev = None \<or> prev = Some first_block"
    and nxt: "next_block_of (fb_first post 0) = (if post = [] then None else Some (fst (hd post)))"
  shows "\<exists>b'. link_freed p cca first_block cca (cca + len) prev (next_block_of (fb_first post 0)) = Inr (p\<lparr>page_buf := b'\<rparr>) \<and>
    page_space b' (page_offset p) t ptrs u cells post (cca + len) frag \<and> same_cells cells (page_buf p) b'"
proof -
  let ?b = "page_buf p" and ?po = "page_offset p" and ?n = "fb_first post 0"
  define e where "e = cca + len"
  let ?b1 = "put16 ?b (?po + 1) ?n" and ?b2 = "put16 (put16 ?b (?po + 1) ?n) (?po + 5) e"
  have po: "?po + 8 \<le> cca" using lo(1) header_len_bounds(1) [of t] by linarith
  have e: "0 < e" "e \<le> u" "e \<le> 65536" using fits_mem [OF f, of "(cca, len)"] lo by (auto simp: e_def)
  have hd: "fst (hd post) < 65536" "e < fst (hd post)" if "post \<noteq> []"
  proof -
    have "before (cca, len) (hd post)" using near hd_in_set [OF that] by blast
    then show "fst (hd post) < 65536" "e < fst (hd post)"
      using fits_mem [OF f, of "hd post"] that lo(2,3) by (auto simp: before_def e_def)
  qed
  have f2: "fits u cells post e frag" using fits_shrink [OF f] by (simp add: e_def)
  have h1: "header_at ?b1 ?po t ptrs ?n cca frag" by (rule header_put_ff [OF h]) (use hd in \<open>cases post; simp\<close>)
  then have h2: "header_at ?b2 ?po t ptrs ?n e frag" by (rule header_put_cca) (use e in auto)
  have len: "length ?b1 = length ?b" using po lo e by (simp add: e_def)
  have c1: "clear_of (cells @ post) (length ?b) (?po + 1) (length (be_bytes 2 (of_nat ?n :: u16)))"
    by (rule fits_clear_header [OF f2, where po = ?po]) (use po lo in \<open>auto simp: e_def\<close>)
  have c2: "clear_of (cells @ post) (length ?b1) (?po + 5) (length (be_bytes 2 (of_nat e :: u16)))"
    unfolding len by (rule fits_clear_header [OF f2, where po = ?po]) (use po lo in \<open>auto simp: e_def\<close>)
  have same: "same_cells cells ?b ?b2" using put_frame(1) [OF c1] put_frame(1) [OF c2] by (rule same_cells_trans)
  have "page_space ?b2 ?po t ptrs u cells post e frag"
    using seg lo h2 f2 same put_frame(2) [OF c1] put_frame(2) [OF c2] by (auto simp: page_space_def same_cells_def e_def)
  moreover have "link_freed p cca first_block cca e prev (next_block_of ?n) = Inr (p\<lparr>page_buf := ?b2\<rparr>)"
    using prev hd header_write_eqs(1) [OF h] header_write_eqs(2) [of "p\<lparr>page_buf := ?b1\<rparr>", OF _ e(3)] h1
    unfolding nxt by (cases post) (auto simp: link_freed_def try_into_u16_def)
  ultimately show ?thesis using same unfolding e_def by blast
qed

lemma link_freed_ok:
  assumes h: "header_at (page_buf p) (page_offset p) t ptrs ff cca frag"
    and f: "fits u ((off, len) # cells) (pre @ post) cca frag"
    and seg: "fb_seg (page_buf p) pre n" "fb_seg (page_buf p) post 0"
    and lo: "page_offset p + header_len t + 2 * length ptrs \<le> cca" "u \<le> length (page_buf p)" "length (page_buf p) \<le> 65536"
    and near: "\<forall>f \<in> set pre. before f (off, len)" "\<forall>f \<in> set post. before (off, len) f"
    and prev: "prev = last_start pre \<or> prev = Some off \<and> n = off" "prev \<noteq> None \<Longrightarrow> ff = fb_first pre n"
    and first: "first_block = ff"
  shows "\<exists>b' fbs' cca'. link_freed p cca first_block off (off + len) prev (next_block_of (fb_first post 0)) = Inr (p\<lparr>page_buf := b'\<rparr>) \<and>
    page_space b' (page_offset p) t ptrs u cells fbs' cca' frag \<and> same_cells cells (page_buf p) b'"
proof -
  let ?b = "page_buf p" and ?po = "page_offset p"
  have off: "cca \<le> off" "off + len \<le> u" "4 \<le> len" using fits_mem [OF f, of "(off, len)"] by auto
  have po: "?po + 8 \<le> cca" using lo(1) header_len_bounds(1) [of t] by linarith
  have mem: "cca \<le> fst x \<and> fst x + snd x \<le> u \<and> 4 \<le> snd x" if "x \<in> set pre \<union> set post" for x
    using fits_mem [OF f, of x] that by auto
  have post: "next_block_of (fb_first post 0) = (if post = [] then None else Some (fst (hd post)))"
    using mem po by (intro next_block_first) force
  have hd: "fst (hd post) < 65536" if "post \<noteq> []" using mem [of "hd post"] that lo(2,3) by simp
  show ?thesis
  proof (cases "off = cca")
    case True
    have "pre = []" using near(1) mem True by (cases pre) (force simp: before_def)+
    then have "prev = None \<or> prev = Some first_block" using prev first True by (auto simp: last_start_def)
    then show ?thesis
      using link_unallocated [OF h _ seg(2) lo _ _ post, of len cells prev first_block] f near(2) True \<open>pre = []\<close> by auto
  next
    case False
    from link_prev [OF h f seg lo prev] obtain b1 where
      b1: "(case prev of Some prev \<Rightarrow> write_u16_no_offset p prev off | None \<Rightarrow> write_first_freeblock p off) = Inr (p\<lparr>page_buf := b1\<rparr>)"
        "header_at b1 ?po t ptrs (fb_first pre off) cca frag" "fb_seg b1 pre off" "fb_seg b1 post 0" "same_cells cells ?b b1" by auto
    let ?p1 = "p\<lparr>page_buf := b1\<rparr>"
    have l1: "length b1 = length ?b" using b1(5) by (simp add: same_cells_def)
    have o1: "page_offset ?p1 = ?po" by (simp add: page_offset_def)
    from write_block [of ?p1 t ptrs pre off cca frag u len cells post] b1 l1 o1 f lo near obtain b2 where
      b2: "write_freeblock ?p1 off len (if post = [] then None else Some (fst (hd post))) = Inr (?p1\<lparr>page_buf := b2\<rparr>)"
        "page_space b2 ?po t ptrs u cells (pre @ (off, len) # post) cca frag" "same_cells cells b1 b2" by auto
    have "link_freed p cca first_block off (off + len) prev (next_block_of (fb_first post 0)) = Inr (p\<lparr>page_buf := b2\<rparr>)"
      using b1(1) b2(1) False off lo hd by (auto simp: link_freed_def post try_into_u16_def)
    then show ?thesis using b2(2) same_cells_trans [OF b1(5) b2(3)] by blast
  qed
qed

text \<open>The two merges, on a split of the list at the freed range.\<close>

lemma merge_next_ok:
  assumes f: "fits u ((off, len) # cells) (pre @ post) cca frag" and seg: "fb_seg (page_buf p) post 0"
    and post: "\<forall>x \<in> set post. off \<le> fst x \<and> 0 < fst x" "sorted_wrt before post" and u: "u \<le> length (page_buf p)"
  shows "\<exists>len' post' g. merge_next p u (off + len) (next_block_of (fb_first post 0)) =
      Inr (off + len', next_block_of (fb_first post' 0), g) \<and>
    g \<le> frag \<and> fits u ((off, len') # cells) (pre @ post') cca (frag - g) \<and> fb_seg (page_buf p) post' 0 \<and>
    (\<forall>x \<in> set post'. before (off, len') x) \<and> set post' \<subseteq> set post \<and> len \<le> len'"
proof (cases post)
  case Nil
  then show ?thesis using f seg by (intro exI [of _ len] exI [of _ "[]"] exI [of _ 0]) (simp add: merge_next_def next_block_of_def)
next
  case (Cons x post')
  obtain ns nz where x: "x = (ns, nz)" by (cases x)
  have ns: "off \<le> ns" "0 < ns" "ns + nz \<le> u" "4 \<le> nz" using post(1) Cons x fits_mem [OF f, of x] by auto
  have b: "\<forall>y \<in> set post'. before (ns, nz) y" using post(2) Cons x by simp
  have rd: "read_u16_no_offset p ns = Inr (fb_first post' 0)" "read_u16_no_offset p (ns + 2) = Inr nz"
    using seg Cons x ns u by (simp_all add: read_u16_at)
  show ?thesis
  proof (cases "ns \<le> off + len + 3")
    case True
    note m = fits_merge_next [OF f [unfolded Cons x] ns(1) True]
    show ?thesis
      using m True ns rd b seg Cons x
      by (intro exI [of _ "ns + nz - off"] exI [of _ post'] exI [of _ "ns - (off + len)"])
        (auto simp: merge_next_def next_block_of_def before_def)
  next
    case False
    have "\<forall>y \<in> set post. before (off, len) y" using False b Cons x ns by (auto simp: before_def)
    then show ?thesis
      using f seg False ns Cons x
      by (intro exI [of _ len] exI [of _ post] exI [of _ 0]) (auto simp: merge_next_def next_block_of_def)
  qed
qed

lemma merge_prev_ok:
  assumes f: "fits u ((off, len) # cells) (pre @ post) cca frag" and seg: "fb_seg (page_buf p) pre n"
    and pre: "\<forall>x \<in> set pre. fst x < off" and u: "u \<le> length (page_buf p)" and post: "\<forall>x \<in> set post. before (off, len) x"
  shows "\<exists>off' len' pre' n' g. merge_prev p off (last_start pre) = Inr (off', g) \<and> off' + len' = off + len \<and>
    g \<le> frag \<and> fits u ((off', len') # cells) (pre' @ post) cca (frag - g) \<and> fb_seg (page_buf p) pre' n' \<and>
    (\<forall>x \<in> set pre'. before x (off', len')) \<and> (\<forall>x \<in> set post. before (off', len') x) \<and>
    (last_start pre = last_start pre' \<and> n' = n \<and> pre' = pre \<or> last_start pre = Some off' \<and> n' = off' \<and> fb_first pre n = fb_first pre' n')"
proof (cases pre rule: rev_cases)
  case Nil
  then show ?thesis using f seg post
    by (intro exI [of _ off] exI [of _ len] exI [of _ "[]"] exI [of _ n] exI [of _ 0]) (simp add: merge_prev_def last_start_def)
next
  case (snoc pre' x)
  obtain ps pz where x: "x = (ps, pz)" by (cases x)
  have ps: "ps < off" "ps + pz \<le> u" "4 \<le> pz" using pre snoc x fits_mem [OF f, of x] by auto
  have ap: "apart (ps, pz) (off, len)" "4 \<le> len" using fits_head [OF f, of x] fits_mem [OF f, of "(off, len)"] snoc x by auto
  then have le: "ps + pz \<le> off" using ps by (auto simp: apart_def)
  have b: "\<forall>y \<in> set pre'. before y (ps, pz)" using f snoc x by (auto simp: fits_def sorted_wrt_append)
  have rd: "read_u16_no_offset p (ps + 2) = Inr pz" using seg snoc x ps u by (simp add: read_u16_at fb_seg_append)
  show ?thesis
  proof (cases "off \<le> ps + pz + 3")
    case True
    have f': "fits u ((off, len) # cells) (pre' @ (ps, pz) # post) cca frag" using f snoc x by simp
    note m = fits_merge_prev [OF f' ps(1) True]
    show ?thesis
      using m True ps rd b seg le post ap snoc x
      by (intro exI [of _ ps] exI [of _ "off + len - ps"] exI [of _ pre'] exI [of _ ps] exI [of _ "off - (ps + pz)"])
        (auto simp: merge_prev_def last_start_def before_def fb_seg_append fb_first_append)
  next
    case False
    have "\<forall>y \<in> set pre. before y (off, len)" using False b snoc x by (auto simp: before_def)
    then show ?thesis
      using f seg False post le rd snoc x
      by (intro exI [of _ off] exI [of _ len] exI [of _ pre] exI [of _ n] exI [of _ 0]) (auto simp: merge_prev_def last_start_def)
  qed
qed

lemma free_first_block:
  assumes "page_space (page_buf p) (page_offset p) t ptrs u ((off, len) # cells) [] cca frag"
  shows "\<exists>b' fbs' cca'. free_cell_range p off len u = Inr (p\<lparr>page_buf := b'\<rparr>) \<and>
    page_space b' (page_offset p) t ptrs u cells fbs' cca' frag \<and> same_cells cells (page_buf p) b'"
proof -
  let ?b = "page_buf p" and ?po = "page_offset p"
  note d = page_spaceD [OF assms]
  note r = header_reads [OF d(1)]
  have off: "cca \<le> off" "off + len \<le> u" "4 \<le> len" "0 < off" "off < 65536" using d(11) [of "(off, len)"] by auto
  show ?thesis
  proof (cases "off = cca")
    case True
    define e where "e = cca + len"
    let ?b' = "put16 ?b (?po + 5) e"
    have e: "0 < e" "e \<le> 65536" using off d(5,6) True by (auto simp: e_def)
    have f2: "fits u cells [] e frag" using fits_shrink d(3) True by (simp add: e_def)
    have c: "clear_of (cells @ []) (length ?b) (?po + 5) (length (be_bytes 2 (of_nat e :: u16)))"
      by (rule fits_clear_header [OF f2, where po = ?po]) (use d in \<open>auto simp: e_def\<close>)
    have "page_space ?b' ?po t ptrs u cells [] e frag"
      using header_put_cca [OF d(1) e] f2 d(4,5,6) put_frame(1) [OF c] by (auto simp: page_space_def same_cells_def e_def)
    moreover have "free_cell_range p off len u = Inr (p\<lparr>page_buf := ?b'\<rparr>)"
      using True off r header_write_eqs(2) [OF d(1) e(2)] unfolding e_def by (simp add: free_cell_range_def)
    ultimately show ?thesis using put_frame(1) [OF c] by blast
  next
    case False
    let ?b1 = "put16 ?b (?po + 1) off"
    have h1: "header_at ?b1 ?po t ptrs off cca frag" by (rule header_put_ff [OF d(1) off(5)])
    have c: "clear_of (cells @ []) (length ?b) (?po + 1) (length (be_bytes 2 (of_nat off :: u16)))"
      by (rule clear_of_subset [OF fits_clear_header [OF d(3), where po = ?po]]) (use d in auto)
    have len: "length ?b1 = length ?b" "len < 65536" using d off by auto
    from write_block [of "p\<lparr>page_buf := ?b1\<rparr>" t ptrs "[]" off cca frag u len cells "[]"] h1 d(3,4,5,6) len(1)
    obtain b' where b': "write_freeblock (p\<lparr>page_buf := ?b1\<rparr>) off len None = Inr (p\<lparr>page_buf := b'\<rparr>)"
        "page_space b' ?po t ptrs u cells [(off, len)] cca frag" "same_cells cells ?b1 b'" by auto
    have "free_cell_range p off len u = Inr (p\<lparr>page_buf := b'\<rparr>)"
      using False off len r b'(1) header_write_eqs(1) [OF d(1)] by (simp add: free_cell_range_def try_into_u16_def)
    then show ?thesis using b'(2) same_cells_trans [OF put_frame(1) [OF c] b'(3)] by blast
  qed
qed

text \<open>The walk to the freed range and the two merges, together.\<close>

lemma free_merges:
  assumes "page_space (page_buf p) (page_offset p) t ptrs u ((off, len) # cells) fbs cca frag" "fbs \<noteq> []"
  shows "\<exists>prev nxt len1 post1 g1 off2 len2 pre2 n2 g2.
    free_cell_range_search p off None (Some (fb_first fbs 0)) = Inr (prev, nxt) \<and>
    (case nxt of None \<Rightarrow> True | Some nxt \<Rightarrow> nxt + 4 \<le> u) \<and>
    merge_next p u (off + len) nxt = Inr (off + len1, next_block_of (fb_first post1 0), g1) \<and>
    merge_prev p off prev = Inr (off2, g2) \<and> off2 + len2 = off + len1 \<and> g1 + g2 \<le> frag \<and>
    fits u ((off2, len2) # cells) (pre2 @ post1) cca (frag - (g1 + g2)) \<and> fb_seg (page_buf p) pre2 n2 \<and> fb_seg (page_buf p) post1 0 \<and>
    (\<forall>x \<in> set pre2. before x (off2, len2)) \<and> (\<forall>x \<in> set post1. before (off2, len2) x) \<and>
    (prev = last_start pre2 \<or> prev = Some off2 \<and> n2 = off2) \<and> (prev \<noteq> None \<longrightarrow> fb_first fbs 0 = fb_first pre2 n2)"
proof -
  note d = page_spaceD [OF assms(1)]
  define pre post where "pre = takeWhile (\<lambda>f. fst f < off) fbs" and "post = dropWhile (\<lambda>f. fst f < off) fbs"
  have fbs: "fbs = pre @ post" by (simp add: pre_def post_def)
  have srt: "sorted_wrt before fbs" using d(3) by (simp add: fits_def)
  have pre: "\<forall>x \<in> set pre. fst x < off" by (auto simp: pre_def dest: set_takeWhileD)
  have srt2: "sorted_wrt before post" using srt fbs by (simp add: sorted_wrt_append)
  have post: "\<forall>x \<in> set post. off \<le> fst x \<and> 0 < fst x"
  proof (cases post)
    case (Cons y ys)
    then have "off \<le> fst y" using hd_dropWhile [of "\<lambda>f. fst f < off" fbs] by (simp add: post_def)
    then show ?thesis using Cons srt2 d(10) fbs by (force simp: before_def)
  qed simp
  have first: "next_block_of (fb_first fbs 0) = Some (fb_first fbs 0)"
    using assms(2) d(10) by (cases fbs) (force simp: next_block_of_def)+
  have "free_cell_range_search p off (last_start []) (next_block_of (fb_first fbs 0)) = Inr (last_start pre, next_block_of (fb_first post 0))"
    unfolding pre_def post_def using free_search [of p fbs "[]" off] d(2,5,10) srt by fastforce
  then have search: "free_cell_range_search p off None (Some (fb_first fbs 0)) = Inr (last_start pre, next_block_of (fb_first post 0))"
    unfolding first by (simp add: last_start_def)
  have nxt: "case next_block_of (fb_first post 0) of None \<Rightarrow> True | Some nxt \<Rightarrow> nxt + 4 \<le> u"
    using d(10) fbs by (cases post) (force simp: next_block_of_def)+
  have seg: "fb_seg (page_buf p) pre (fb_first post 0)" "fb_seg (page_buf p) post 0" using d(2) fbs by (simp_all add: fb_seg_append)
  from merge_next_ok [OF d(3) [unfolded fbs] seg(2) post srt2 d(5)] obtain len1 post1 g1 where
    m1: "merge_next p u (off + len) (next_block_of (fb_first post 0)) = Inr (off + len1, next_block_of (fb_first post1 0), g1)"
      "g1 \<le> frag" "fits u ((off, len1) # cells) (pre @ post1) cca (frag - g1)" "fb_seg (page_buf p) post1 0"
      "\<forall>x \<in> set post1. before (off, len1) x"
    by blast
  from merge_prev_ok [OF m1(3) seg(1) pre d(5) m1(5)] obtain off2 len2 pre2 n2 g2 where
    m2: "merge_prev p off (last_start pre) = Inr (off2, g2)" "off2 + len2 = off + len1" "g2 \<le> frag - g1"
      "fits u ((off2, len2) # cells) (pre2 @ post1) cca (frag - g1 - g2)" "fb_seg (page_buf p) pre2 n2"
      "\<forall>x \<in> set pre2. before x (off2, len2)" "\<forall>x \<in> set post1. before (off2, len2) x"
      "last_start pre = last_start pre2 \<and> n2 = fb_first post 0 \<and> pre2 = pre \<or>
       last_start pre = Some off2 \<and> n2 = off2 \<and> fb_first pre (fb_first post 0) = fb_first pre2 n2"
    by blast
  have "fb_first fbs 0 = fb_first pre (fb_first post 0)" by (simp add: fbs fb_first_append)
  then have pv: "last_start pre = last_start pre2 \<or> last_start pre = Some off2 \<and> n2 = off2" "fb_first fbs 0 = fb_first pre2 n2"
    using m2(8) by (blast, metis)
  have g: "g1 + g2 \<le> frag" "fits u ((off2, len2) # cells) (pre2 @ post1) cca (frag - (g1 + g2))"
    using m1(2) m2(3,4) by simp_all
  show ?thesis
    by (intro exI conjI impI) (rule search nxt m1(1,4) m2(1,2,5,6,7) g pv)+
qed

lemma free_cell_range_ok:
  assumes "page_space (page_buf p) (page_offset p) t ptrs u ((off, len) # cells) fbs cca frag"
  shows "\<exists>b' fbs' cca' frag'. free_cell_range p off len u = Inr (p\<lparr>page_buf := b'\<rparr>) \<and>
    page_space b' (page_offset p) t ptrs u cells fbs' cca' frag' \<and> same_cells cells (page_buf p) b'"
proof (cases "fbs = []")
  case True
  then show ?thesis using free_first_block assms by blast
next
  case False
  let ?b = "page_buf p" and ?po = "page_offset p"
  note d = page_spaceD [OF assms]
  note r = header_reads [OF d(1)]
  have off: "cca \<le> off" "off + len \<le> u" "4 \<le> len" "\<not> u - 4 < off" using d(11) [of "(off, len)"] by auto
  have ff: "fb_first fbs 0 \<noteq> 0" using False d(10) by (cases fbs) force+
  from free_merges [OF assms False] obtain prev nxt len1 post g1 off2 len2 pre n g2 where
    m: "free_cell_range_search p off None (Some (fb_first fbs 0)) = Inr (prev, nxt)"
      "case nxt of None \<Rightarrow> True | Some nxt \<Rightarrow> nxt + 4 \<le> u"
      "merge_next p u (off + len) nxt = Inr (off + len1, next_block_of (fb_first post 0), g1)"
      "merge_prev p off prev = Inr (off2, g2)" "off2 + len2 = off + len1" "g1 + g2 \<le> frag"
    and f: "fits u ((off2, len2) # cells) (pre @ post) cca (frag - (g1 + g2))"
    and seg: "fb_seg ?b pre n" "fb_seg ?b post 0"
    and near: "\<forall>x \<in> set pre. before x (off2, len2)" "\<forall>x \<in> set post. before (off2, len2) x"
    and prev: "prev = last_start pre \<or> prev = Some off2 \<and> n = off2" "prev \<noteq> None \<Longrightarrow> fb_first fbs 0 = fb_first pre n"
    by blast
  define g where "g = g1 + g2"
  let ?b1 = "put_at ?b (?po + 7) [of_nat (frag - g)]"
  let ?p1 = "p\<lparr>page_buf := ?b1\<rparr>"
  have h1: "header_at ?b1 ?po t ptrs (fb_first fbs 0) cca (frag - g)" by (rule header_put_frag [OF d(1)]) (use d(9) in simp)
  have c: "clear_of (cells @ pre @ post) (length ?b) (?po + 7) (length [of_nat (frag - g) :: u8])"
    by (rule clear_of_subset [OF fits_clear_header [OF f, where po = ?po]]) (use d in auto)
  have same: "same_cells cells ?b ?b1" and seg1: "fb_seg ?b1 pre n" "fb_seg ?b1 post 0"
    using put_frame(1) [OF clear_of_subset [OF c], of cells "[]"] put_frame(2) [OF clear_of_subset [OF c], of "[]" pre n]
      put_frame(2) [OF clear_of_subset [OF c], of "[]" post 0] seg by auto
  have f1: "fits u ((off2, len2) # cells) (pre @ post) cca (frag - g)" using f by (simp add: g_def)
  have l1: "length ?b1 = length ?b" using same by (simp add: same_cells_def)
  have "\<exists>b' fbs' cca'. link_freed ?p1 cca (fb_first fbs 0) off2 (off2 + len2) prev (next_block_of (fb_first post 0)) = Inr (?p1\<lparr>page_buf := b'\<rparr>) \<and>
      page_space b' (page_offset ?p1) t ptrs u cells fbs' cca' (frag - g) \<and> same_cells cells (page_buf ?p1) b'"
    by (rule link_freed_ok [where ff = "fb_first fbs 0" and pre = pre and n = n]) (use h1 f1 seg1 d(4,5,6) near prev l1 in simp_all)
  then obtain b2 fbs2 cca2 where b2: "link_freed ?p1 cca (fb_first fbs 0) off2 (off2 + len2) prev (next_block_of (fb_first post 0)) = Inr (p\<lparr>page_buf := b2\<rparr>)"
      "page_space b2 ?po t ptrs u cells fbs2 cca2 (frag - g)" "same_cells cells ?b1 b2"
    by auto
  have fr: "unat (of_nat frag :: u8) = frag" "(of_nat frag :: u8) - of_nat g = of_nat (frag - g)"
    using d(9) m(6) by (simp_all add: unat_of_nat take_bit_nat_eq_self g_def)
  have "free_cell_range p off len u = link_freed ?p1 cca (fb_first fbs 0) off2 (off2 + len2) prev (next_block_of (fb_first post 0))"
    using ff off r(3,5,6) m fr header_write_eqs(3) [OF d(1)] fits_mem [OF f, of "(off2, len2)"]
    by (simp add: free_cell_range_def g_def Let_def not_less split: option.splits)
  then show ?thesis using b2 same_cells_trans [OF same b2(3)] by auto
qed

section \<open>Taking a slot\<close>

text \<open>An extent taken from the start of a freeblock of at most three more bytes, and from the end of a
  larger one.\<close>

lemma fits_take_block:
  assumes f: "fits u cells (pre @ (cur, sz) # post) cca frag" and a: "4 \<le> amount" "amount \<le> sz"
  shows "fits u ((cur, amount) # cells) (pre @ post) cca (frag + (sz - amount))"
proof -
  have m: "cca \<le> cur" "cur + sz \<le> u" using fits_mem [OF f, of "(cur, sz)"] by auto
  have "apart (cur, amount) x" if "x \<in> set cells \<union> set (pre @ post)" for x
  proof -
    have "apart x (cur, sz)" using f that by (auto simp: fits_def sorted_wrt_append dest: before_apart)
    then show ?thesis using a by (auto simp: apart_def)
  qed
  then show ?thesis using f a m by (auto simp: fits_def sorted_wrt_append inside_def)
qed

lemma fits_take_end:
  assumes f: "fits u cells (pre @ (cur, sz) # post) cca frag" and a: "4 \<le> amount" "amount + 4 \<le> sz"
  shows "fits u ((cur + (sz - amount), amount) # cells) (pre @ (cur, sz - amount) # post) cca frag"
proof -
  have m: "cca \<le> cur" "cur + sz \<le> u" using fits_mem [OF f, of "(cur, sz)"] by auto
  have ap: "apart (cur + (sz - amount), amount) x \<and> apart x (cur, sz - amount)" if "x \<in> set cells \<union> set (pre @ post)" for x
  proof -
    have "apart x (cur, sz)" using f that by (auto simp: fits_def sorted_wrt_append dest: before_apart)
    then show ?thesis using a by (auto simp: apart_def)
  qed
  moreover have "sorted_wrt before (pre @ (cur, sz - amount) # post)"
    using f a by (fastforce simp: fits_def sorted_wrt_append before_def)
  ultimately show ?thesis using f a m by (auto simp: fits_def inside_def apart_def [of "(_, _)" "(_, _)"])
qed

lemma put_frag_space:
  assumes h: "header_at b po t ptrs (fb_first fbs 0) cca frag" and s: "fb_seg b fbs 0" "fits u cells fbs cca frag'" "frag' < 256"
    and lo: "po + header_len t + 2 * length ptrs \<le> cca" "u \<le> length b" "length b \<le> 65536"
  shows "page_space (put_at b (po + 7) [of_nat frag']) po t ptrs u cells fbs cca frag'"
    "same_cells cells b (put_at b (po + 7) [of_nat frag'])"
proof -
  have po: "po + 8 \<le> cca" using lo(1) header_len_bounds(1) [of t] by linarith
  have c: "clear_of (cells @ fbs) (length b) (po + 7) (length [of_nat frag' :: u8])"
    by (rule fits_clear_header [OF s(2) lo(2) po]) simp
  show "same_cells cells b (put_at b (po + 7) [of_nat frag'])" by (rule put_frame(1) [OF c])
  then show "page_space (put_at b (po + 7) [of_nat frag']) po t ptrs u cells fbs cca frag'"
    using header_put_frag [OF h s(3)] put_frame(2) [OF c] s(1,2) lo by (simp add: page_space_def same_cells_def)
qed

lemma take_block_ok:
  assumes ps: "page_space (page_buf p) (page_offset p) t ptrs u cells (pre @ (cur, sz) # post) cca frag"
    and a: "4 \<le> amount" "amount \<le> sz" "sz - amount < 4" and fr: "frag \<le> 57"
  shows "\<exists>b' fbs' frag'. find_free_slot_loop p u amount (last_start pre) cur = Inr (Some cur, p\<lparr>page_buf := b'\<rparr>) \<and>
    page_space b' (page_offset p) t ptrs u ((cur, amount) # cells) fbs' cca frag' \<and> same_cells cells (page_buf p) b'"
proof -
  let ?po = "page_offset p" and ?v = "fb_first post 0" and ?frag = "frag + (sz - amount)"
  note d = page_spaceD [OF ps]
  have cur: "cca \<le> cur" "cur + sz \<le> u" "4 \<le> sz" "cur < 65536" using d(10) [of "(cur, sz)"] by auto
  have f: "fits u ((cur, amount) # cells) (pre @ post) cca ?frag" by (rule fits_take_block [OF d(3) a(1,2)])
  have seg: "fb_seg (page_buf p) pre cur" "fb_seg (page_buf p) post 0" using d(2) by (simp_all add: fb_seg_append)
  have v: "?v < 65536" using d(10) by (cases post) auto
  have lo: "page_offset p + header_len t + 2 * length ptrs \<le> cca" "u \<le> length (page_buf p)" using d(4,5) .
  have ff: "fb_first (pre @ (cur, sz) # post) 0 = fst (hd pre)" if "pre \<noteq> []" using that by (cases pre) auto
  from relink [OF d(1) f seg lo ff v] obtain b1 where
    b1: "(case last_start pre of Some prev \<Rightarrow> write_u16_no_offset p prev ?v | None \<Rightarrow> write_first_freeblock p ?v) = Inr (p\<lparr>page_buf := b1\<rparr>)"
      "header_at b1 ?po t ptrs (fb_first pre ?v) cca frag" "fb_seg b1 pre ?v" "fb_seg b1 post 0"
      "same_cells ((cur, amount) # cells) (page_buf p) b1" by blast
  let ?b2 = "put_at b1 (?po + 7) [of_nat ?frag]"
  have b2: "page_space ?b2 ?po t ptrs u ((cur, amount) # cells) (pre @ post) cca ?frag" "same_cells ((cur, amount) # cells) b1 ?b2"
    by (rule put_frag_space [where frag = frag]; use b1 f fr a d(4,5,6) in \<open>simp add: fb_first_append fb_seg_append same_cells_def\<close>)+
  have prev: "prev < 65536" if "last_start pre = Some prev" for prev
    using that d(10) [of "last pre"] by (auto simp: last_start_def split: if_splits)
  have rd: "read_freeblock p cur = Inr (?v, sz)" using d(2,5) cur by (simp add: read_freeblock_def read_u16_at fb_seg_append)
  have small: "\<not> (of_nat frag :: u8) > 57" "unat (of_nat frag :: u8) = frag"
    using fr by (simp_all add: word_less_nat_alt unat_of_nat take_bit_nat_eq_self)
  have w: "write_fragmented_bytes_count (p\<lparr>page_buf := b1\<rparr>) (of_nat frag + of_nat (sz - amount)) = Inr (p\<lparr>page_buf := ?b2\<rparr>)"
    using header_write_eqs(3) [of "p\<lparr>page_buf := b1\<rparr>"] b1(2) by (simp del: of_nat_diff)
  have "find_free_slot_loop p u amount (last_start pre) cur = Inr (Some cur, p\<lparr>page_buf := ?b2\<rparr>)"
    using cur a rd small fr b1(1) v prev w header_reads(6) [OF d(1)] header_reads(6) [of "p\<lparr>page_buf := b1\<rparr>"] b1(2)
    by (subst find_free_slot_loop.simps)
      (auto simp: try_into_u16_def write_freeblock_next_ptr_def split: option.splits simp del: of_nat_diff)
  then show ?thesis using b2 same_cells_trans [OF b1(5) b2(2)] by (auto simp: same_cells_def)
qed

lemma take_end_ok:
  assumes ps: "page_space (page_buf p) (page_offset p) t ptrs u cells (pre @ (cur, sz) # post) cca frag"
    and a: "4 \<le> amount" "amount + 4 \<le> sz"
  shows "\<exists>b'. find_free_slot_loop p u amount (last_start pre) cur = Inr (Some (cur + (sz - amount)), p\<lparr>page_buf := b'\<rparr>) \<and>
    page_space b' (page_offset p) t ptrs u ((cur + (sz - amount), amount) # cells) (pre @ (cur, sz - amount) # post) cca frag \<and>
    same_cells cells (page_buf p) b'"
proof -
  let ?po = "page_offset p" and ?b = "page_buf p" and ?cells = "(cur + (sz - amount), amount) # cells"
  define new where "new = sz - amount"
  let ?b' = "put16 ?b (cur + 2) new"
  note d = page_spaceD [OF ps]
  have cur: "cca \<le> cur" "cur + sz \<le> u" "4 \<le> sz" "cur < 65536" "new < 65536" "4 \<le> new"
    using d(5,6) d(10) [of "(cur, sz)"] a by (auto simp: new_def)
  have f: "fits u ?cells (pre @ (cur, new) # post) cca frag" using fits_take_end [OF d(3) a] by (simp add: new_def)
  have c: "clear_of (?cells @ pre @ post) (length ?b) (cur + 2) (length (be_bytes 2 (of_nat new :: u16)))"
  proof (rule clear_of_within [where j = cur and k = new])
    have "apart x (cur, new) \<and> fst x + snd x \<le> length ?b \<and> 4 \<le> snd x" if "x \<in> set (?cells @ pre @ post)" for x
      using f that fits_mem [OF f, of x] d(5) by (auto simp: fits_def sorted_wrt_append dest: before_apart)
    then show "\<forall>x \<in> set (?cells @ pre @ post). apart x (cur, new) \<and> fst x + snd x \<le> length ?b \<and> 4 \<le> snd x" by blast
  qed (use cur d(5) in \<open>auto simp: new_def\<close>)
  have same: "same_cells ?cells ?b ?b'" by (rule put_frame(1) [OF clear_of_subset [OF c], of _ "[]"]) auto
  have sg: "fb_seg ?b' pre n = fb_seg ?b pre n" "fb_seg ?b' post n = fb_seg ?b post n" for n
    using put_frame(2) [OF clear_of_subset [OF c], of "[]" pre] put_frame(2) [OF clear_of_subset [OF c], of "[]" post] by auto
  have "u16_at ?b' cur = u16_at ?b cur" "u16_at ?b' (cur + 2) = new"
    using cur d(5) by (simp_all add: u16_at_put_same u16_at_put_other)
  then have "fb_seg ?b' (pre @ (cur, new) # post) 0" using d(2) sg by (simp add: fb_seg_append)
  moreover have "header_at ?b' ?po t ptrs (fb_first (pre @ (cur, sz) # post) 0) cca frag"
    by (rule header_put_body [OF d(1)]) (use cur d(4,5) in auto)
  ultimately have "page_space ?b' ?po t ptrs u ?cells (pre @ (cur, new) # post) cca frag"
    using f d(4,5,6) same by (simp add: page_space_def same_cells_def fb_first_append)
  moreover have rd: "read_freeblock p cur = Inr (fb_first post 0, sz)"
    using d(2,5) cur by (simp add: read_freeblock_def read_u16_at fb_seg_append)
  have "find_free_slot_loop p u amount (last_start pre) cur = Inr (Some (cur + new), p\<lparr>page_buf := ?b'\<rparr>)"
    using cur a rd d(5) unfolding new_def
    by (subst find_free_slot_loop.simps) (simp add: try_into_u16_def header_writes del: of_nat_diff)
  ultimately show ?thesis using same unfolding new_def by (auto simp: same_cells_def)
qed

definition slot_found :: "page_inner \<Rightarrow> page_type \<Rightarrow> nat list \<Rightarrow> nat \<Rightarrow> nat \<Rightarrow> extent list \<Rightarrow> nat \<Rightarrow> (usize option \<times> page_inner) res \<Rightarrow> bool" where
  "slot_found p t ptrs u amount cells cca r \<longleftrightarrow> r = Inr (None, p) \<or>
     (\<exists>pc b' fbs' frag'. r = Inr (Some pc, p\<lparr>page_buf := b'\<rparr>) \<and>
        page_space b' (page_offset p) t ptrs u ((pc, amount) # cells) fbs' cca frag' \<and> same_cells cells (page_buf p) b')"

lemma find_free_slot_loop_step:
  assumes ps: "page_space (page_buf p) (page_offset p) t ptrs u cells (pre @ (cur, sz) # post) cca frag" and a: "4 \<le> amount"
  shows "if amount \<le> sz then slot_found p t ptrs u amount cells cca (find_free_slot_loop p u amount (last_start pre) cur)
    else find_free_slot_loop p u amount (last_start pre) cur =
      (if post = [] then Inr (None, p) else find_free_slot_loop p u amount (Some cur) (fst (hd post)))"
proof -
  note d = page_spaceD [OF ps]
  have cur: "cca \<le> cur" "cur + sz \<le> u" "4 \<le> sz" "cur < 65536" using d(10) [of "(cur, sz)"] by auto
  have rd: "read_freeblock p cur = Inr (fb_first post 0, sz)"
    using d(2,5) cur by (simp add: read_freeblock_def read_u16_at fb_seg_append)
  consider "sz < amount" | "amount \<le> sz" "sz - amount < 4" "frag \<le> 57" | "amount \<le> sz" "sz - amount < 4" "57 < frag" | "amount + 4 \<le> sz"
    by linarith
  then show ?thesis
  proof cases
    case 1
    have "fst (hd post) \<noteq> 0 \<and> cur < fst (hd post)" if "post \<noteq> []"
      using d(3) d(10) [of "hd post"] that by (cases post) (auto simp: fits_def sorted_wrt_append before_def)
    then show ?thesis using 1 cur rd
      by (subst find_free_slot_loop.simps) (cases post; auto simp: try_into_u16_def)
  next
    case 2
    then show ?thesis using take_block_ok [OF ps a] unfolding slot_found_def by auto
  next
    case 3
    then have "(57 :: u8) < of_nat frag" using d(9) by (simp add: word_less_nat_alt unat_of_nat take_bit_nat_eq_self)
    then have "find_free_slot_loop p u amount (last_start pre) cur = Inr (None, p)"
      using 3 cur rd header_reads(6) [OF d(1)] by (subst find_free_slot_loop.simps) (auto simp: try_into_u16_def)
    then show ?thesis using 3 by (simp add: slot_found_def)
  next
    case 4
    then show ?thesis using take_end_ok [OF ps a] unfolding slot_found_def by auto
  qed
qed

lemma find_free_slot_loop_ok:
  assumes "page_space (page_buf p) (page_offset p) t ptrs u cells (pre @ f # post) cca frag" "4 \<le> amount"
  shows "slot_found p t ptrs u amount cells cca (find_free_slot_loop p u amount (last_start pre) (fst f))"
  using assms
proof (induction post arbitrary: pre f)
  case Nil
  then show ?case using find_free_slot_loop_step [of p t ptrs u cells pre "fst f" "snd f" "[]" cca frag amount]
    by (auto simp: slot_found_def split: if_splits)
next
  case (Cons g post)
  have "slot_found p t ptrs u amount cells cca (find_free_slot_loop p u amount (last_start (pre @ [f])) (fst g))"
    using Cons.IH [of "pre @ [f]" g] Cons.prems by simp
  then show ?case using find_free_slot_loop_step [of p t ptrs u cells pre "fst f" "snd f" "g # post" cca frag amount] Cons.prems
    by (auto simp: last_start_def split: if_splits)
qed

lemma find_free_slot_ok:
  assumes ps: "page_space (page_buf p) (page_offset p) t ptrs u cells fbs cca frag" and a: "4 \<le> amount" "amount \<le> u"
  shows "slot_found p t ptrs u amount cells cca (find_free_slot p u amount)"
proof (cases fbs)
  case Nil
  then show ?thesis using header_reads(3) [OF page_spaceD(1) [OF ps]] a by (simp add: find_free_slot_def slot_found_def)
next
  case (Cons f fs)
  have "slot_found p t ptrs u amount cells cca (find_free_slot_loop p u amount (last_start []) (fst f))"
    using find_free_slot_loop_ok [of p t ptrs u cells "[]" f fs] ps Cons a by simp
  then show ?thesis
    using header_reads(3) [OF page_spaceD(1) [OF ps]] a page_spaceD(10) [OF ps, of f] Cons
    by (simp add: find_free_slot_def last_start_def)
qed

end
