(* ===== verification/Page_Defrag.thy ===== *)
theory Page_Defrag
  imports Page_Free "HOL-Library.Multiset"
begin

text \<open>
  Defragmenting a b-tree page (\<^verbatim>\<open>core/storage/btree.rs\<close>): the path for at most two freeblocks, which moves
  blocks of cells (\<^verbatim>\<open>defragment_page_fast\<close>), and the general one, which packs the cells one by one to the
  end of the page (\<^verbatim>\<open>defragment_page\<close> and its \<^verbatim>\<open>process_cells\<close>). On a well-formed page both keep every cell
  and leave no freeblock; the lemmas follow the bytes through the overlapping moves.
\<close>

section \<open>Operations\<close>

definition page_copy_within :: "page_inner \<Rightarrow> usize \<Rightarrow> usize \<Rightarrow> usize \<Rightarrow> page_inner res" where
  "page_copy_within p a e dst =
     (if a \<le> e \<and> e \<le> length (page_buf p) \<and> dst + (e - a) \<le> length (page_buf p)
      then Inr (p\<lparr>page_buf := copy_within (page_buf p) a e dst\<rparr>) else Inl Panic)"

text \<open>The new place of a cell pointer after the blocks have moved.\<close>

primrec defragment_fast_pointers ::
  "usize \<Rightarrow> usize \<Rightarrow> usize \<Rightarrow> usize \<Rightarrow> usize \<Rightarrow> usize \<Rightarrow> nat list \<Rightarrow> page_inner \<Rightarrow> page_inner res" where
  "defragment_fast_pointers usable_sz arr freeblock_1st freeblock_2nd freeblock_2nd_size freeblocks_total_size [] page = Inr page"
| "defragment_fast_pointers usable_sz arr freeblock_1st freeblock_2nd freeblock_2nd_size freeblocks_total_size (i # is) page =
     rbind (read_u16_no_offset page (arr + i * 2)) (\<lambda>cell_ptr.
     rbind (if cell_ptr < freeblock_1st then
              if cell_ptr + freeblocks_total_size > usable_sz then Inl Corrupt
              else write_u16_no_offset page (arr + i * 2) (cell_ptr + freeblocks_total_size)
            else if freeblock_2nd > 0 \<and> cell_ptr < freeblock_2nd then
              if cell_ptr + freeblock_2nd_size > usable_sz then Inl Corrupt
              else write_u16_no_offset page (arr + i * 2) (cell_ptr + freeblock_2nd_size)
            else Inr page)
       (defragment_fast_pointers usable_sz arr freeblock_1st freeblock_2nd freeblock_2nd_size freeblocks_total_size is))"

definition defragment_page_fast :: "page_inner \<Rightarrow> usize \<Rightarrow> usize \<Rightarrow> usize \<Rightarrow> page_inner res" where
  "defragment_page_fast page usable_sz freeblock_1st freeblock_2nd =
     (if freeblock_1st = 0 then Inl Corrupt
      else if freeblock_2nd > 0 \<and> freeblock_1st \<ge> freeblock_2nd then Inl Corrupt
      else if usable_sz < 4 then Inl Panic
      else if freeblock_1st > usable_sz - 4 then Inl Corrupt
      else if freeblock_2nd > usable_sz - 4 then Inl Corrupt
      else
        rbind (read_u16_no_offset page (freeblock_1st + 2)) (\<lambda>freeblock_1st_size.
        rbind (if freeblock_2nd > 0 then read_u16_no_offset page (freeblock_2nd + 2) else Inr 0) (\<lambda>freeblock_2nd_size.
        let freeblocks_total_size = freeblock_1st_size + freeblock_2nd_size in
        rbind (cell_content_area page) (\<lambda>cell_content_area_start.
        rbind (if freeblock_2nd > 0 then
                 if freeblock_1st + freeblock_1st_size > freeblock_2nd then Inl Corrupt
                 else if freeblock_2nd + freeblock_2nd_size > usable_sz then Inl Corrupt
                 else page_copy_within page (freeblock_1st + freeblock_1st_size) freeblock_2nd (freeblock_1st + freeblocks_total_size)
               else if freeblock_1st + freeblock_1st_size > usable_sz then Inl Corrupt
               else Inr page) (\<lambda>page.
        let new_cell_content_area = cell_content_area_start + freeblocks_total_size in
        if freeblock_1st < cell_content_area_start then Inl Panic
        else if new_cell_content_area + (freeblock_1st - cell_content_area_start) > usable_sz then Inl Corrupt
        else
          rbind (page_copy_within page cell_content_area_start freeblock_1st new_cell_content_area) (\<lambda>page.
          rbind (cell_count page) (\<lambda>n.
          rbind (cell_pointer_array_offset page) (\<lambda>arr.
          rbind (defragment_fast_pointers usable_sz arr freeblock_1st freeblock_2nd freeblock_2nd_size freeblocks_total_size [0..<n] page) (\<lambda>page.
          rbind (write_cell_content_area page new_cell_content_area) (\<lambda>page.
            write_first_freeblock page 0))))))))))"

record cell_info =
  old_offset :: nat
  cell_size :: nat
  pointer_index :: usize

text \<open>Gathering the cells; the flag says whether their offsets are in descending order.\<close>

primrec gather_cells ::
  "page_inner \<Rightarrow> usize \<Rightarrow> usize \<Rightarrow> page_type \<Rightarrow> nat list \<Rightarrow> nat \<Rightarrow> bool \<Rightarrow> cell_info list \<Rightarrow> (cell_info list \<times> bool) res" where
  "gather_cells page usable_sz n t [] last_offset is_sorted cells = Inr (cells, is_sorted)"
| "gather_cells page usable_sz n t (i # is) last_offset is_sorted cells =
     rbind (cell_get_raw_start_offset page i) (\<lambda>pc.
     rbind (cell_get_raw_region_faster page i usable_sz n (payload_overflow_threshold_max t usable_sz)
              (payload_overflow_threshold_min t usable_sz) t) (\<lambda>(_, sz).
       gather_cells page usable_sz n t is pc (is_sorted \<and> \<not> pc > last_offset)
         (cells @ [\<lparr>old_offset = pc, cell_size = sz mod 65536, pointer_index = i\<rparr>])))"

primrec move_cells :: "usize \<Rightarrow> usize \<Rightarrow> usize \<Rightarrow> cell_info list \<Rightarrow> usize \<Rightarrow> page_inner \<Rightarrow> (usize \<times> page_inner) res" where
  "move_cells usable_sz arr first_cell_content_byte [] cbrk page = Inr (cbrk, page)"
| "move_cells usable_sz arr first_cell_content_byte (cell # cells) cbrk page =
     (if cell_size cell > cbrk then Inl Panic
      else
        let new_offset = cbrk - cell_size cell in
        if \<not> (new_offset \<ge> first_cell_content_byte \<and> old_offset cell + cell_size cell \<le> usable_sz) then Inl Panic
        else
          rbind (if new_offset \<noteq> old_offset cell
                 then page_copy_within page (old_offset cell) (old_offset cell + cell_size cell) new_offset
                 else Inr page) (\<lambda>page.
          if \<not> new_offset < 65536 then Inl Panic
          else rbind (write_u16_no_offset page (arr + pointer_index cell * 2) new_offset)
            (move_cells usable_sz arr first_cell_content_byte cells new_offset)))"

text \<open>The order of the unstable sort among equal offsets is not specified; well-formed pages have none.\<close>

definition process_cells :: "page_inner \<Rightarrow> usize \<Rightarrow> cell_info list \<Rightarrow> bool \<Rightarrow> page_inner res" where
  "process_cells page usable_sz cells is_physically_sorted =
     (let cells = (if is_physically_sorted then cells else rev (sort_key old_offset cells)) in
      rbind (cell_pointer_array_offset page) (\<lambda>arr.
      rbind (unallocated_region_start page) (\<lambda>first_cell_content_byte.
      rbind (move_cells usable_sz arr first_cell_content_byte cells usable_sz page) (\<lambda>(cbrk, page).
      rbind (write_cell_content_area page cbrk) (\<lambda>page.
      rbind (write_first_freeblock page 0) (\<lambda>page.
        write_fragmented_bytes_count page 0))))))"

text \<open>Whether the fast path applies: \<open>Some None\<close> when there is nothing to do.\<close>

definition fast_path :: "page_inner \<Rightarrow> int \<Rightarrow> (usize \<times> usize) option option res" where
  "fast_path page max_frag_bytes =
     rbind (num_frag_free_bytes page) (\<lambda>frag.
       if int (unat frag) \<le> max_frag_bytes then
         rbind (first_freeblock page) (\<lambda>freeblock_1st.
           if freeblock_1st = 0 then Inr (Some None)
           else rbind (read_u16_no_offset page freeblock_1st) (\<lambda>freeblock_2nd.
             if freeblock_2nd = 0 then Inr (Some (Some (freeblock_1st, 0)))
             else rbind (read_u16_no_offset page freeblock_2nd) (\<lambda>freeblock_3rd.
               if freeblock_3rd = 0 then Inr (Some (Some (freeblock_1st, freeblock_2nd)))
               else Inr None)))
       else Inr None)"

definition defragment_page :: "page_inner \<Rightarrow> usize \<Rightarrow> int \<Rightarrow> page_inner res" where
  "defragment_page page usable_sz max_frag_bytes =
     rbind (cell_count page) (\<lambda>n.
       if n = 0 then
         rbind (write_cell_content_area page usable_sz) (\<lambda>page.
         rbind (write_first_freeblock page 0) (\<lambda>page.
           write_fragmented_bytes_count page 0))
       else
         rbind (fast_path page max_frag_bytes) (\<lambda>choice. case choice of
             Some None \<Rightarrow> Inr page
           | Some (Some (freeblock_1st, freeblock_2nd)) \<Rightarrow> defragment_page_fast page usable_sz freeblock_1st freeblock_2nd
           | None \<Rightarrow>
               rbind (page_type_of page) (\<lambda>t.
               rbind (gather_cells page usable_sz n t [0..<n] 65535 True []) (\<lambda>(cells, is_physically_sorted).
                 process_cells page usable_sz cells is_physically_sorted))))"

definition defragment_page_full :: "page_inner \<Rightarrow> usize \<Rightarrow> page_inner res" where
  "defragment_page_full page usable_sz = defragment_page page usable_sz (-1)"

section \<open>Bytes\<close>

lemma copy_within_put:
  "a \<le> e \<Longrightarrow> e \<le> length b \<Longrightarrow> copy_within b a e d = put_at b d (slice b a e) \<and> length (slice b a e) = e - a"
  by (simp add: copy_within_def put_at_def slice_def)

lemma nth_copy_within:
  assumes "a \<le> e" "e \<le> length b" "d + (e - a) \<le> length b" "j < length b"
  shows "copy_within b a e d ! j = (if d \<le> j \<and> j < d + (e - a) then b ! (a + (j - d)) else b ! j)"
  using assms copy_within_put [OF assms(1,2), of d] by (auto simp: nth_put_at slice_def)

lemma length_copy_within':
  "a \<le> e \<Longrightarrow> e \<le> length b \<Longrightarrow> d + (e - a) \<le> length b \<Longrightarrow> length (copy_within b a e d) = length b"
  by (simp add: copy_within_put)

lemma nth_slice: "s + z \<le> length b \<Longrightarrow> j < z \<Longrightarrow> slice b s (s + z) ! j = b ! (s + j)"
  by (simp add: slice_def)

lemma slice_moved:
  assumes "s + z \<le> length b" "s' + z \<le> length b'" "\<And>j. j < z \<Longrightarrow> b' ! (s' + j) = b ! (s + j)"
  shows "slice b' s' (s' + z) = slice b s (s + z)"
  by (rule nth_equalityI) (use assms in \<open>auto simp: slice_def\<close>)

lemma u16_at_cong: "length b' = length b \<Longrightarrow> i + 2 \<le> length b \<Longrightarrow> b' ! i = b ! i \<Longrightarrow> b' ! (i + 1) = b ! (i + 1) \<Longrightarrow> u16_at b' i = u16_at b i"
  unfolding u16_at_def by (subst slice_eqI [of i "i + 2" b b']) (auto simp: less_Suc_eq_le le_Suc_eq)

lemma header_cong:
  assumes "header_at b po t ptrs ff cca frag" "length b' = length b"
    "\<And>j. j < po + header_len t + 2 * length ptrs \<Longrightarrow> b' ! j = b ! j"
  shows "header_at b' po t ptrs ff cca frag"
proof -
  have l: "po + header_len t + 2 * length ptrs \<le> length b" using assms(1) by (simp add: header_at_def)
  have "u16_at b' j = u16_at b j" if "j + 2 \<le> po + header_len t + 2 * length ptrs" for j
    by (rule u16_at_cong) (use assms(2,3) that l in auto)
  then show ?thesis using assms header_len_bounds(1) [of t] by (simp add: header_at_def)
qed

lemma header_put_ptr:
  assumes "header_at b po t ptrs ff cca frag" "i < length ptrs" "v < 65536"
  shows "header_at (put16 b (po + header_len t + i * 2) v) po t (ptrs[i := v]) ff cca frag"
proof -
  let ?b = "put16 b (po + header_len t + i * 2) v"
  have i: "po + header_len t + i * 2 + 2 \<le> length b" using assms(1,2) by (auto simp: header_at_def)
  have "u16_at ?b (po + header_len t + 2 * j) = ptrs[i := v] ! j" if "j < length ptrs" for j
  proof (cases "j = i")
    case True
    then show ?thesis using assms i by (simp add: u16_at_put_same mult.commute)
  next
    case False
    then have "u16_at ?b (po + header_len t + 2 * j) = u16_at b (po + header_len t + 2 * j)"
      using that assms i by (intro u16_at_put_other) (auto simp: header_at_def)
    then show ?thesis using False assms(1) that by (simp add: header_at_def)
  qed
  then show ?thesis using assms i header_len_bounds(1) [of t]
    by (auto simp: header_at_def nth_put_at u16_at_put_other)
qed

lemma sorted_wrt_mset:
  assumes "\<And>x y. P x y \<Longrightarrow> P y x" "sorted_wrt P xs" "mset xs = mset ys"
  shows "sorted_wrt P ys"
  using assms(2,3)
proof (induction ys arbitrary: xs)
  case (Cons y ys)
  then have "y \<in> set xs" by (metis list.set_intros(1) set_mset_mset)
  then obtain as bs where xs: "xs = as @ y # bs" by (meson split_list)
  then have m: "mset (as @ bs) = mset ys" using Cons.prems(2) by simp
  have "sorted_wrt P (as @ bs)" using Cons.prems(1) xs by (auto simp: sorted_wrt_append)
  moreover have "P y z" if "z \<in> set ys" for z
  proof -
    have "z \<in> set as \<union> set bs" using that m by (metis set_append set_mset_mset)
    then show ?thesis using Cons.prems(1) xs assms(1) by (auto simp: sorted_wrt_append)
  qed
  ultimately show ?case using Cons.IH [OF _ m] by simp
qed simp

lemma page_update:
  "page_buf (p\<lparr>page_buf := b\<rparr>) = b" "p\<lparr>page_buf := b, page_buf := b'\<rparr> = p\<lparr>page_buf := b'\<rparr>"
  "page_offset (p\<lparr>page_buf := b\<rparr>) = page_offset p" "overflow_cells (p\<lparr>page_buf := b\<rparr>) = overflow_cells p"
  by simp_all

section \<open>Packing the cells\<close>

text \<open>One cell is moved to the end of the free space and its pointer is updated.\<close>

lemma move_cell_step:
  fixes p :: page_inner and x :: cell_info
  defines "b \<equiv> page_buf p" and "po \<equiv> page_offset p"
  assumes h: "header_at b po t ptrs ff cca frag" and first: "po + header_len t + 2 * length ptrs \<le> cca"
    and x: "cca \<le> old_offset x" "old_offset x \<le> nw" "0 < cell_size x" "pointer_index x < length ptrs"
    and u: "nw + cell_size x \<le> u" "u \<le> length b" "length b \<le> 65536"
  shows "\<exists>b'. move_cells u (po + header_len t) (po + header_len t + 2 * length ptrs) (x # cells) (nw + cell_size x) p =
      move_cells u (po + header_len t) (po + header_len t + 2 * length ptrs) cells nw (p\<lparr>page_buf := b'\<rparr>) \<and>
    length b' = length b \<and> header_at b' po t (ptrs[pointer_index x := nw]) ff cca frag \<and>
    (\<forall>j. cca \<le> j \<longrightarrow> j < length b \<longrightarrow>
       b' ! j = (if nw \<le> j \<and> j < nw + cell_size x then b ! (old_offset x + (j - nw)) else b ! j))"
proof -
  let ?i = "po + header_len t + pointer_index x * 2"
  have nw: "cca \<le> nw" "nw < 65536" using x u by auto
  define b1 where "b1 = (if nw \<noteq> old_offset x then copy_within b (old_offset x) (old_offset x + cell_size x) nw else b)"
  have l1: "length b1 = length b" using x u by (simp add: b1_def length_copy_within')
  have n1: "b1 ! j = (if nw \<le> j \<and> j < nw + cell_size x then b ! (old_offset x + (j - nw)) else b ! j)" if "j < length b" for j
    using that x u by (auto simp: b1_def nth_copy_within)
  have i: "?i + 2 \<le> cca" "?i + 2 \<le> length b" using first x(1,2,4) u by auto
  have h1: "header_at b1 po t ptrs ff cca frag"
    by (rule header_cong [OF h l1]) (use n1 first nw x u in auto)
  let ?b2 = "put16 b1 ?i nw"
  have h2: "header_at ?b2 po t (ptrs[pointer_index x := nw]) ff cca frag"
    by (rule header_put_ptr [OF h1 x(4) nw(2)])
  have "(if nw \<noteq> old_offset x then page_copy_within p (old_offset x) (old_offset x + cell_size x) nw else Inr p) = Inr (p\<lparr>page_buf := b1\<rparr>)"
    using x u nw by (simp add: page_copy_within_def b1_def b_def)
  moreover have "write_u16_no_offset (p\<lparr>page_buf := b1\<rparr>) ?i nw = Inr (p\<lparr>page_buf := ?b2\<rparr>)"
    using i l1 by (simp add: header_writes)
  ultimately have "move_cells u (po + header_len t) (po + header_len t + 2 * length ptrs) (x # cells) (nw + cell_size x) p =
      move_cells u (po + header_len t) (po + header_len t + 2 * length ptrs) cells nw (p\<lparr>page_buf := ?b2\<rparr>)"
    using x u first nw by (simp add: Let_def)
  moreover have "?b2 ! j = b1 ! j" if "cca \<le> j" "j < length b" for j using that i l1 by (simp add: nth_put_at)
  ultimately show ?thesis using h2 l1 i n1 by (intro exI [of _ ?b2]) simp
qed

lemma move_cells_ok:
  assumes "header_at (page_buf p) (page_offset p) t ptrs ff cca frag" "page_offset p + header_len t + 2 * length ptrs \<le> cca"
    "sorted_wrt (\<lambda>x y. old_offset y + cell_size y \<le> old_offset x) cells" "distinct (map pointer_index cells)"
    "\<forall>x \<in> set cells. cca \<le> old_offset x \<and> old_offset x + cell_size x \<le> cbrk \<and> 0 < cell_size x \<and> pointer_index x < length ptrs"
    "cbrk \<le> u" "u \<le> length (page_buf p)" "length (page_buf p) \<le> 65536" "cca \<le> cbrk"
  shows "\<exists>b' ptrs'. move_cells u (page_offset p + header_len t) (page_offset p + header_len t + 2 * length ptrs) cells cbrk p =
      Inr (cbrk - sum_list (map cell_size cells), p\<lparr>page_buf := b'\<rparr>) \<and>
    sum_list (map cell_size cells) \<le> cbrk - cca \<and> length b' = length (page_buf p) \<and> length ptrs' = length ptrs \<and>
    header_at b' (page_offset p) t ptrs' ff cca frag \<and>
    (\<forall>x \<in> set cells. slice b' (ptrs' ! pointer_index x) (ptrs' ! pointer_index x + cell_size x) =
       slice (page_buf p) (old_offset x) (old_offset x + cell_size x)) \<and>
    sorted_wrt apart (map (\<lambda>x. (ptrs' ! pointer_index x, cell_size x)) cells) \<and>
    (\<forall>x \<in> set cells. inside (cbrk - sum_list (map cell_size cells)) cbrk (ptrs' ! pointer_index x, cell_size x)) \<and>
    (\<forall>i < length ptrs. i \<notin> pointer_index ` set cells \<longrightarrow> ptrs' ! i = ptrs ! i) \<and>
    (\<forall>j. cbrk \<le> j \<longrightarrow> j < length (page_buf p) \<longrightarrow> b' ! j = page_buf p ! j)"
  using assms
proof (induction cells arbitrary: p ptrs cbrk)
  case Nil
  then show ?case by (intro exI [of _ "page_buf p"] exI [of _ ptrs]) simp
next
  case (Cons x cells)
  obtain nw where nw: "cbrk = nw + cell_size x" using Cons.prems(5) by (metis add.commute le_add2 le_trans le_Suc_ex list.set_intros(1))
  let ?p = "page_offset p" and ?b = "page_buf p" and ?arr = "page_offset p + header_len t" and ?sum = "sum_list (map cell_size cells)"
  have x: "cca \<le> old_offset x" "old_offset x \<le> nw" "0 < cell_size x" "pointer_index x < length ptrs" "nw + cell_size x \<le> u"
    using Cons.prems(5,6) nw by auto
  from move_cell_step [OF Cons.prems(1,2) x Cons.prems(7,8), of cells] obtain b1 where
    b1: "move_cells u ?arr (?arr + 2 * length ptrs) (x # cells) (nw + cell_size x) p = move_cells u ?arr (?arr + 2 * length ptrs) cells nw (p\<lparr>page_buf := b1\<rparr>)"
      "length b1 = length ?b" "header_at b1 ?p t (ptrs[pointer_index x := nw]) ff cca frag"
      "\<And>j. cca \<le> j \<Longrightarrow> j < length ?b \<Longrightarrow> b1 ! j = (if nw \<le> j \<and> j < nw + cell_size x then ?b ! (old_offset x + (j - nw)) else ?b ! j)"
    by blast
  have mem: "cca \<le> old_offset y \<and> old_offset y + cell_size y \<le> old_offset x \<and> 0 < cell_size y \<and> pointer_index y < length ptrs"
    if "y \<in> set cells" for y
    using Cons.prems(3,5) that by auto
  let ?ptrs = "ptrs[pointer_index x := nw]"
  have prem: "\<forall>y \<in> set cells. cca \<le> old_offset y \<and> old_offset y + cell_size y \<le> nw \<and> 0 < cell_size y \<and> pointer_index y < length ?ptrs"
    using mem x(2) by fastforce
  note IH = Cons.IH [of "p\<lparr>page_buf := b1\<rparr>" ?ptrs nw, unfolded page_update length_list_update b1(2)]
  have hyps: "?arr + 2 * length ptrs \<le> cca" "sorted_wrt (\<lambda>x y. old_offset y + cell_size y \<le> old_offset x) cells"
    "distinct (map pointer_index cells)" "nw \<le> u" "cca \<le> nw"
    using Cons.prems(2,3,4) x by auto
  from IH [OF b1(3) hyps(1,2,3) prem [unfolded length_list_update] hyps(4) Cons.prems(7,8) hyps(5)] obtain b' ptrs' where
    ih: "move_cells u ?arr (?arr + 2 * length ptrs) cells nw (p\<lparr>page_buf := b1\<rparr>) = Inr (nw - ?sum, p\<lparr>page_buf := b'\<rparr>)"
      "?sum \<le> nw - cca" "length b' = length ?b" "length ptrs' = length ptrs" "header_at b' ?p t ptrs' ff cca frag"
      "\<forall>y \<in> set cells. slice b' (ptrs' ! pointer_index y) (ptrs' ! pointer_index y + cell_size y) = slice b1 (old_offset y) (old_offset y + cell_size y)"
      "sorted_wrt apart (map (\<lambda>x. (ptrs' ! pointer_index x, cell_size x)) cells)"
      "\<forall>y \<in> set cells. inside (nw - ?sum) nw (ptrs' ! pointer_index y, cell_size y)"
      "\<forall>i < length ptrs. i \<notin> pointer_index ` set cells \<longrightarrow> ptrs' ! i = ?ptrs ! i"
      "\<forall>j. nw \<le> j \<longrightarrow> j < length ?b \<longrightarrow> b' ! j = b1 ! j"
    by blast
  have px: "ptrs' ! pointer_index x = nw" using ih(9) x(4) Cons.prems(4) by auto
  have sx: "slice b' nw (nw + cell_size x) = slice ?b (old_offset x) (old_offset x + cell_size x)"
    by (rule slice_moved) (use ih(3,10) b1(4) x Cons.prems(6,7) in auto)
  have sy: "slice b1 (old_offset y) (old_offset y + cell_size y) = slice ?b (old_offset y) (old_offset y + cell_size y)" if "y \<in> set cells" for y
    by (rule slice_eqI) (use mem [OF that] b1(2,4) x Cons.prems(6,7) in auto)
  have "apart (nw, cell_size x) (ptrs' ! pointer_index y, cell_size y)" if "y \<in> set cells" for y
    using ih(8) that by (auto simp: apart_def inside_def)
  moreover have "inside (nw - ?sum) (nw + cell_size x) (ptrs' ! pointer_index y, cell_size y)" if "y \<in> set (x # cells)" for y
    using ih(8) that px by (auto simp: inside_def)
  moreover have "ptrs' ! i = ptrs ! i" if "i < length ptrs" "i \<notin> pointer_index ` set (x # cells)" for i
    using ih(9) that by auto
  moreover have "b' ! j = ?b ! j" if "cbrk \<le> j" "j < length ?b" for j
    using ih(10) b1(4) that x nw by auto
  ultimately show ?case
    using b1(1) ih px sx sy nw x by (intro exI [of _ b'] exI [of _ ptrs']) simp
qed

text \<open>The header of a page without freeblocks.\<close>

lemma no_blocks_header:
  assumes h: "header_at (page_buf p) (page_offset p) t ptrs ff c fr" and f: "fits u cells [] cca frag"
    and lo: "page_offset p + header_len t + 2 * length ptrs \<le> cca" "u \<le> length (page_buf p)" "length (page_buf p) \<le> 65536"
  shows "\<exists>b'. rbind (write_cell_content_area p cca) (\<lambda>p. write_first_freeblock p 0) = Inr (p\<lparr>page_buf := b'\<rparr>) \<and>
    header_at b' (page_offset p) t ptrs 0 cca fr \<and> same_cells cells (page_buf p) b'"
proof -
  let ?b = "page_buf p" and ?po = "page_offset p"
  have po: "?po + 8 \<le> cca" "cca \<le> u" using lo(1) header_len_bounds(1) [of t] f by (simp_all add: fits_def)
  let ?b1 = "put16 ?b (?po + 5) cca" and ?b2 = "put16 (put16 ?b (?po + 5) cca) (?po + 1) 0"
  have h1: "header_at ?b1 ?po t ptrs ff cca fr" by (rule header_put_cca [OF h]) (use po lo in auto)
  then have h2: "header_at ?b2 ?po t ptrs 0 cca fr" by (rule header_put_ff) simp
  have len: "length ?b1 = length ?b" using po lo by simp
  have "same_cells cells ?b ?b1" "same_cells cells ?b1 ?b2"
    by (rule put_frame(1) [of _ "[]"], rule fits_clear_header [OF f _ po(1)]; use len lo in simp)+
  then have "same_cells cells ?b ?b2" by (rule same_cells_trans)
  moreover have "rbind (write_cell_content_area p cca) (\<lambda>p. write_first_freeblock p 0) = Inr (p\<lparr>page_buf := ?b2\<rparr>)"
    using header_write_eqs(2) [OF h, of cca] header_write_eqs(1) [of "p\<lparr>page_buf := ?b1\<rparr>"] h1 po lo by simp
  ultimately show ?thesis using h2 by blast
qed

lemma reset_header_ok:
  assumes h: "header_at (page_buf p) (page_offset p) t ptrs ff c fr" and f: "fits u cells [] cca 0"
    and lo: "page_offset p + header_len t + 2 * length ptrs \<le> cca" "u \<le> length (page_buf p)" "length (page_buf p) \<le> 65536"
  shows "\<exists>b'. rbind (write_cell_content_area p cca) (\<lambda>p. rbind (write_first_freeblock p 0) (\<lambda>p. write_fragmented_bytes_count p 0)) =
      Inr (p\<lparr>page_buf := b'\<rparr>) \<and> page_space b' (page_offset p) t ptrs u cells [] cca 0 \<and> same_cells cells (page_buf p) b'"
proof -
  from no_blocks_header [OF assms] obtain b1 where
    b1: "rbind (write_cell_content_area p cca) (\<lambda>p. write_first_freeblock p 0) = Inr (p\<lparr>page_buf := b1\<rparr>)"
      "header_at b1 (page_offset p) t ptrs 0 cca fr" "same_cells cells (page_buf p) b1" by blast
  let ?b2 = "put_at b1 (page_offset p + 7) [of_nat 0]"
  have b2: "page_space ?b2 (page_offset p) t ptrs u cells [] cca 0" "same_cells cells b1 ?b2"
    by (rule put_frag_space [where frag = fr]; use b1 f lo in \<open>simp add: same_cells_def\<close>)+
  have "rbind (write_cell_content_area p cca) (\<lambda>p. rbind (write_first_freeblock p 0) (\<lambda>p. write_fragmented_bytes_count p 0)) = Inr (p\<lparr>page_buf := ?b2\<rparr>)"
    using b1(1) header_write_eqs(3) [of "p\<lparr>page_buf := b1\<rparr>" t ptrs 0 cca fr 0] b1(2) by (auto simp: rbind_def split: sum.splits)
  then show ?thesis using b2 same_cells_trans [OF b1(3) b2(2)] by blast
qed

text \<open>The facts about the cells of a page that defragmenting relies on and preserves.\<close>

definition regions_ok :: "page_inner \<Rightarrow> nat \<Rightarrow> page_type \<Rightarrow> nat list \<Rightarrow> nat list \<Rightarrow> bool" where
  "regions_ok p u t ptrs lens \<longleftrightarrow> length lens = length ptrs \<and>
     (\<forall>i < length ptrs. cell_get_raw_region_faster p i u (length ptrs) (payload_overflow_threshold_max t u)
        (payload_overflow_threshold_min t u) t = Inr (ptrs ! i, lens ! i))"

definition moved :: "bytes \<Rightarrow> nat list \<Rightarrow> bytes \<Rightarrow> nat list \<Rightarrow> nat list \<Rightarrow> bool" where
  "moved b ptrs b' ptrs' lens \<longleftrightarrow> length b' = length b \<and> length ptrs' = length ptrs \<and>
     (\<forall>i < length ptrs. slice b' (ptrs' ! i) (ptrs' ! i + lens ! i) = slice b (ptrs ! i) (ptrs ! i + lens ! i))"

lemma gather_cells_eq:
  assumes "header_at (page_buf p) (page_offset p) t ptrs ff cca frag" "regions_ok p u t ptrs lens" "\<forall>i \<in> set is. i < length ptrs \<and> lens ! i < 65536"
  shows "gather_cells p u (length ptrs) t is lst flag acc =
    Inr (acc @ map (\<lambda>i. \<lparr>old_offset = ptrs ! i, cell_size = lens ! i, pointer_index = i\<rparr>) is,
         flag \<and> sorted_wrt (\<lambda>x y. y \<le> x) (lst # map (nth ptrs) is))"
  using assms(3)
proof (induction "is" arbitrary: lst flag acc)
  case (Cons i "is")
  then have "cell_get_raw_start_offset p i = Inr (ptrs ! i)" using header_reads(10) [OF assms(1)] by simp
  then show ?case using Cons assms(2) by (auto simp: regions_ok_def)
qed simp

lemma descending_cells:
  fixes cells :: "cell_info list"
  assumes "sorted_wrt (\<lambda>x y. apart (old_offset x, cell_size x) (old_offset y, cell_size y)) cells" "\<forall>x \<in> set cells. 0 < cell_size x"
    "flag \<Longrightarrow> sorted_wrt (\<lambda>x y. old_offset y \<le> old_offset x) cells"
    and cs: "cs = (if flag then cells else rev (sort_key old_offset cells))"
  shows "mset cs = mset cells" "sorted_wrt (\<lambda>x y. old_offset y + cell_size y \<le> old_offset x) cs"
proof -
  show m: "mset cs = mset cells" by (simp add: cs)
  have "sorted_wrt (\<lambda>x y. old_offset y \<le> old_offset x) (rev (sort_key old_offset cells))"
    using sorted_sort_key [of old_offset cells] by (simp add: sorted_wrt_rev sorted_wrt_map)
  then have desc: "sorted_wrt (\<lambda>x y. old_offset y \<le> old_offset x) cs" using assms(3) by (simp add: cs)
  have "sorted_wrt (\<lambda>x y. apart (old_offset x, cell_size x) (old_offset y, cell_size y)) cs"
    by (rule sorted_wrt_mset [OF _ assms(1)]) (auto simp: apart_sym m)
  then have "sorted_wrt (\<lambda>x y. old_offset y \<le> old_offset x \<and> apart (old_offset x, cell_size x) (old_offset y, cell_size y)) cs"
    using desc by (induction cs) auto
  then show "sorted_wrt (\<lambda>x y. old_offset y + cell_size y \<le> old_offset x) cs"
  proof (rule sorted_wrt_mono_rel [rotated])
    fix x y assume "x \<in> set cs" "old_offset y \<le> old_offset x \<and> apart (old_offset x, cell_size x) (old_offset y, cell_size y)"
    moreover have "x \<in> set cells" using \<open>x \<in> set cs\<close> m by (metis set_mset_mset)
    ultimately show "old_offset y + cell_size y \<le> old_offset x" using assms(2) by (fastforce simp: apart_def)
  qed
qed

lemma ordered_cells:
  assumes ps: "page_space (page_buf p) (page_offset p) t ptrs u (zip ptrs lens) fbs cca frag" and r: "regions_ok p u t ptrs lens"
  shows "\<exists>infos flag cs. gather_cells p u (length ptrs) t [0..<length ptrs] 65535 True [] = Inr (infos, flag) \<and>
    cs = (if flag then infos else rev (sort_key old_offset infos)) \<and> mset cs = mset infos \<and>
    infos = map (\<lambda>i. \<lparr>old_offset = ptrs ! i, cell_size = lens ! i, pointer_index = i\<rparr>) [0..<length ptrs] \<and>
    sorted_wrt (\<lambda>x y. old_offset y + cell_size y \<le> old_offset x) cs \<and> distinct (map pointer_index cs) \<and>
    (\<forall>x \<in> set cs. cca \<le> old_offset x \<and> old_offset x + cell_size x \<le> u \<and> 0 < cell_size x \<and> pointer_index x < length ptrs)"
proof -
  note d = page_spaceD [OF ps]
  let ?n = "length ptrs"
  define infos where "infos = map (\<lambda>i. \<lparr>old_offset = ptrs ! i, cell_size = lens ! i, pointer_index = i\<rparr>) [0..<?n]"
  define flag where "flag = sorted_wrt (\<lambda>x y. y \<le> x) (65535 # map (nth ptrs) [0..<?n])"
  define cs where "cs = (if flag then infos else rev (sort_key old_offset infos))"
  have len: "length lens = ?n" using r by (simp add: regions_ok_def)
  have olds: "map (\<lambda>x. (old_offset x, cell_size x)) infos = zip ptrs lens" using len by (intro nth_equalityI) (auto simp: infos_def)
  have mem: "cca \<le> ptrs ! i \<and> ptrs ! i + lens ! i \<le> u \<and> 4 \<le> lens ! i \<and> lens ! i < 65536" if "i < ?n" for i
  proof -
    have "(ptrs ! i, lens ! i) \<in> set (zip ptrs lens)" using that len by (auto simp: set_zip)
    then show ?thesis using d(5,6,11) by fastforce
  qed
  have gather: "gather_cells p u ?n t [0..<?n] 65535 True [] = Inr (infos, flag)"
    using gather_cells_eq [OF d(1) r, of "[0..<?n]" 65535 True "[]"] mem by (simp add: infos_def flag_def)
  have "sorted_wrt apart (map (\<lambda>x. (old_offset x, cell_size x)) infos)" using d(3) unfolding olds fits_def by blast
  then have srt: "sorted_wrt (\<lambda>x y. apart (old_offset x, cell_size x) (old_offset y, cell_size y)) infos" by (simp add: sorted_wrt_map)
  have m: "mset cs = mset infos" and desc: "sorted_wrt (\<lambda>x y. old_offset y + cell_size y \<le> old_offset x) cs"
    by (rule descending_cells [OF srt _ _ cs_def]; use mem in \<open>force simp: infos_def flag_def sorted_wrt_map\<close>)+
  have "map pointer_index infos = [0..<?n]" by (simp add: infos_def o_def)
  moreover have "mset (map pointer_index cs) = mset (map pointer_index infos)" using m by simp
  ultimately have dist: "distinct (map pointer_index cs)" using mset_eq_imp_distinct_iff distinct_upt by metis
  have "set cs = set infos" using m by (metis set_mset_mset)
  then have "\<forall>x \<in> set cs. cca \<le> old_offset x \<and> old_offset x + cell_size x \<le> u \<and> 0 < cell_size x \<and> pointer_index x < ?n"
    using mem by (force simp: infos_def)
  then show ?thesis using gather cs_def m infos_def desc dist by blast
qed

lemma moved_same:
  assumes "moved b ptrs b1 ptrs' lens" "same_cells (zip ptrs' lens) b1 b'" "length lens = length ptrs"
  shows "moved b ptrs b' ptrs' lens"
proof -
  have "slice b' (ptrs' ! i) (ptrs' ! i + lens ! i) = slice b1 (ptrs' ! i) (ptrs' ! i + lens ! i)" if "i < length ptrs" for i
  proof -
    have "(ptrs' ! i, lens ! i) \<in> set (zip ptrs' lens)" using that assms(1,3) by (auto simp: set_zip moved_def)
    then show ?thesis using assms(2) by (force simp: same_cells_def)
  qed
  then show ?thesis using assms(1,2) by (simp add: moved_def same_cells_def)
qed

lemma packed_fits:
  assumes "mset (map (\<lambda>x. (ptrs ! pointer_index x, cell_size x)) cs) = mset (zip ptrs lens)" "length lens = length ptrs"
    "sorted_wrt apart (map (\<lambda>x. (ptrs ! pointer_index x, cell_size x)) cs)" "sum_list (map cell_size cs) \<le> u"
    "\<forall>x \<in> set cs. inside (u - sum_list (map cell_size cs)) u (ptrs ! pointer_index x, cell_size x)" "\<forall>z \<in> set lens. 4 \<le> z"
  shows "fits u (zip ptrs lens) [] (u - sum_list (map cell_size cs)) 0"
proof -
  have "sorted_wrt apart (zip ptrs lens)" by (rule sorted_wrt_mset [OF _ assms(3,1)]) (simp add: apart_sym)
  moreover have "inside (u - sum_list (map cell_size cs)) u x \<and> 4 \<le> snd x" if "x \<in> set (zip ptrs lens)" for x
  proof -
    have "x \<in> set (map (\<lambda>x. (ptrs ! pointer_index x, cell_size x)) cs)" using that assms(1) by (metis set_mset_mset)
    moreover have "snd x \<in> set lens" using that by (metis set_zip_rightD prod.collapse)
    ultimately show ?thesis using assms(5,6) by auto
  qed
  moreover have "total_len (zip ptrs lens) = sum_list (map cell_size cs)"
  proof -
    have "mset (map snd (zip ptrs lens)) = mset (map snd (map (\<lambda>x. (ptrs ! pointer_index x, cell_size x)) cs))"
      using arg_cong [OF assms(1), of "image_mset snd"] by (simp only: mset_map)
    then show ?thesis by (simp add: o_def sum_mset_sum_list [symmetric] del: mset_map)
  qed
  ultimately show ?thesis using assms(4) by (auto simp: fits_def)
qed

lemma full_defrag_ok:
  assumes ps: "page_space (page_buf p) (page_offset p) t ptrs u (zip ptrs lens) fbs cca frag" and r: "regions_ok p u t ptrs lens"
  shows "\<exists>b' ptrs' cca'. rbind (gather_cells p u (length ptrs) t [0..<length ptrs] 65535 True []) (\<lambda>(cells, flag). process_cells p u cells flag) =
      Inr (p\<lparr>page_buf := b'\<rparr>) \<and> page_space b' (page_offset p) t ptrs' u (zip ptrs' lens) [] cca' 0 \<and> moved (page_buf p) ptrs b' ptrs' lens"
proof -
  note d = page_spaceD [OF ps]
  let ?po = "page_offset p" and ?b = "page_buf p" and ?n = "length ptrs"
  have len: "length lens = ?n" using r by (simp add: regions_ok_def)
  from ordered_cells [OF ps r] obtain infos flag cs where
    cs: "gather_cells p u ?n t [0..<?n] 65535 True [] = Inr (infos, flag)"
      "cs = (if flag then infos else rev (sort_key old_offset infos))" "mset cs = mset infos"
      "infos = map (\<lambda>i. \<lparr>old_offset = ptrs ! i, cell_size = lens ! i, pointer_index = i\<rparr>) [0..<?n]"
      "sorted_wrt (\<lambda>x y. old_offset y + cell_size y \<le> old_offset x) cs" "distinct (map pointer_index cs)"
      "\<forall>x \<in> set cs. cca \<le> old_offset x \<and> old_offset x + cell_size x \<le> u \<and> 0 < cell_size x \<and> pointer_index x < ?n" by blast
  have zip: "map (\<lambda>x. (ps ! pointer_index x, cell_size x)) infos = zip ps lens" if "length ps = ?n" for ps :: "nat list"
    using that len by (intro nth_equalityI) (auto simp: cs(4))
  let ?sum = "sum_list (map cell_size cs)"
  from move_cells_ok [OF d(1,4) cs(5,6,7) order_refl d(5,6,8)] obtain b1 ptrs' where
    mv: "move_cells u (?po + header_len t) (?po + header_len t + 2 * ?n) cs u p = Inr (u - ?sum, p\<lparr>page_buf := b1\<rparr>)"
      "?sum \<le> u - cca" "length b1 = length ?b" "length ptrs' = ?n" "header_at b1 ?po t ptrs' (fb_first fbs 0) cca frag"
      "\<forall>x \<in> set cs. slice b1 (ptrs' ! pointer_index x) (ptrs' ! pointer_index x + cell_size x) = slice ?b (old_offset x) (old_offset x + cell_size x)"
      "sorted_wrt apart (map (\<lambda>x. (ptrs' ! pointer_index x, cell_size x)) cs)"
      "\<forall>x \<in> set cs. inside (u - ?sum) u (ptrs' ! pointer_index x, cell_size x)"
    by blast
  have "set cs = set infos" using cs(3) by (metis set_mset_mset)
  then have mvd: "moved ?b ptrs b1 ptrs' lens" using mv(3,4,6) by (auto simp: moved_def cs(4))
  have ext: "mset (map (\<lambda>x. (ptrs' ! pointer_index x, cell_size x)) cs) = mset (zip ptrs' lens)"
    using cs(3) zip [OF mv(4)] by (metis mset_map)
  have "4 \<le> z" if "z \<in> set lens" for z
    using that len d(11) by (metis in_set_conv_nth in_set_zip fst_conv snd_conv)
  then have f: "fits u (zip ptrs' lens) [] (u - ?sum) 0"
    by (intro packed_fits [OF ext _ mv(7) _ mv(8)]) (use mv(2,4) len in auto)
  have "\<exists>b'. rbind (write_cell_content_area (p\<lparr>page_buf := b1\<rparr>) (u - ?sum)) (\<lambda>p. rbind (write_first_freeblock p 0) (\<lambda>p. write_fragmented_bytes_count p 0)) =
      Inr (p\<lparr>page_buf := b1\<rparr>\<lparr>page_buf := b'\<rparr>) \<and> page_space b' (page_offset (p\<lparr>page_buf := b1\<rparr>)) t ptrs' u (zip ptrs' lens) [] (u - ?sum) 0 \<and>
      same_cells (zip ptrs' lens) (page_buf (p\<lparr>page_buf := b1\<rparr>)) b'"
    by (rule reset_header_ok) (use mv f d in \<open>auto simp: page_update\<close>)
  then obtain b' where b': "rbind (write_cell_content_area (p\<lparr>page_buf := b1\<rparr>) (u - ?sum)) (\<lambda>p. rbind (write_first_freeblock p 0) (\<lambda>p. write_fragmented_bytes_count p 0)) = Inr (p\<lparr>page_buf := b'\<rparr>)"
      "page_space b' ?po t ptrs' u (zip ptrs' lens) [] (u - ?sum) 0" "same_cells (zip ptrs' lens) b1 b'" by (auto simp: page_update)
  have "moved ?b ptrs b' ptrs' lens" by (rule moved_same [OF mvd b'(3) len])
  moreover have "rbind (gather_cells p u ?n t [0..<?n] 65535 True []) (\<lambda>(cells, flag). process_cells p u cells flag) = Inr (p\<lparr>page_buf := b'\<rparr>)"
    using cs(1) mv(1) b'(1) header_reads(7,8) [OF d(1)] by (simp add: process_cells_def cs(2) [symmetric] Let_def)
  ultimately show ?thesis using b'(2) by blast
qed

section \<open>Moving blocks of cells\<close>

text \<open>The freeblocks \<open>(a, sa)\<close> and \<open>(c, sc)\<close>, where \<open>c = 0\<close> and \<open>sc = 0\<close> when there is only one, and the place
  to which a cell moves.\<close>

definition two_blocks :: "extent list \<Rightarrow> nat \<Rightarrow> nat \<Rightarrow> nat \<Rightarrow> nat \<Rightarrow> bool" where
  "two_blocks fbs a sa c sc \<longleftrightarrow> fbs = [(a, sa)] \<and> c = 0 \<and> sc = 0 \<or> fbs = [(a, sa), (c, sc)] \<and> 0 < c"

definition shift_to :: "nat \<Rightarrow> nat \<Rightarrow> nat \<Rightarrow> nat \<Rightarrow> nat \<Rightarrow> nat" where
  "shift_to a sa c sc s = (if s < a then s + (sa + sc) else if 0 < c \<and> s < c then s + sc else s)"

lemma fast_pointers_ok:
  assumes "header_at (page_buf p) (page_offset p) t ptrs ff cca frag" "distinct is"
    "\<forall>i \<in> set is. i < length ptrs \<and> shift_to a sa c sc (ptrs ! i) \<le> u \<and> shift_to a sa c sc (ptrs ! i) < 65536"
  shows "\<exists>b' ptrs'. defragment_fast_pointers u (page_offset p + header_len t) a c sc (sa + sc) is p = Inr (p\<lparr>page_buf := b'\<rparr>) \<and>
    header_at b' (page_offset p) t ptrs' ff cca frag \<and> length b' = length (page_buf p) \<and> length ptrs' = length ptrs \<and>
    (\<forall>i < length ptrs. ptrs' ! i = (if i \<in> set is then shift_to a sa c sc (ptrs ! i) else ptrs ! i)) \<and>
    (\<forall>j. page_offset p + header_len t + 2 * length ptrs \<le> j \<longrightarrow> j < length b' \<longrightarrow> b' ! j = page_buf p ! j)"
  using assms
proof (induction "is" arbitrary: p ptrs)
  case Nil
  then show ?case by (intro exI [of _ "page_buf p"] exI [of _ ptrs]) simp
next
  case (Cons i "is")
  let ?arr = "page_offset p + header_len t" and ?v = "shift_to a sa c sc (ptrs ! i)"
  let ?b = "put16 (page_buf p) (?arr + i * 2) ?v"
  have i: "i < length ptrs" "?v \<le> u" "?v < 65536" "i \<notin> set is" using Cons.prems(2,3) by auto
  have in1: "?arr + i * 2 + 2 \<le> ?arr + 2 * length ptrs" "?arr + i * 2 + 2 \<le> length (page_buf p)"
    using i(1) Cons.prems(1) by (auto simp: header_at_def)
  have rd: "read_u16_no_offset p (?arr + i * 2) = Inr (ptrs ! i)"
    using in1 i(1) Cons.prems(1) by (simp add: read_u16_at header_at_def mult.commute)
  have w: "write_u16_no_offset p (?arr + i * 2) v = Inr (p\<lparr>page_buf := put16 (page_buf p) (?arr + i * 2) v\<rparr>)" for v
    using in1 by (simp add: header_writes)
  have h: "header_at ?b (page_offset p) t (ptrs[i := ?v]) ff cca frag" by (rule header_put_ptr [OF Cons.prems(1) i(1,3)])
  define b1 where "b1 = (if ptrs ! i < a \<or> 0 < c \<and> ptrs ! i < c then ?b else page_buf p)"
  have "defragment_fast_pointers u ?arr a c sc (sa + sc) (i # is) p = defragment_fast_pointers u ?arr a c sc (sa + sc) is (p\<lparr>page_buf := b1\<rparr>)"
    using rd w i(2) by (auto simp: b1_def shift_to_def)
  moreover have h1: "header_at b1 (page_offset p) t (ptrs[i := ?v]) ff cca frag"
    using h Cons.prems(1) by (auto simp: b1_def shift_to_def)
  moreover have l1: "length b1 = length (page_buf p)" using in1 by (simp add: b1_def)
  moreover have "b1 ! j = page_buf p ! j" if "?arr + 2 * length ptrs \<le> j" "j < length (page_buf p)" for j
    using that in1 by (simp add: b1_def nth_put_at)
  moreover have "\<forall>k \<in> set is. k < length (ptrs[i := ?v]) \<and> shift_to a sa c sc (ptrs[i := ?v] ! k) \<le> u \<and> shift_to a sa c sc (ptrs[i := ?v] ! k) < 65536"
    using Cons.prems(3) i(4) by (auto simp: nth_list_update)
  moreover note IH = Cons.IH [of "p\<lparr>page_buf := b1\<rparr>" "ptrs[i := ?v]", unfolded page_update length_list_update]
  ultimately obtain b' ptrs' where
    ih: "defragment_fast_pointers u ?arr a c sc (sa + sc) (i # is) p = Inr (p\<lparr>page_buf := b'\<rparr>)"
      "header_at b' (page_offset p) t ptrs' ff cca frag" "length b' = length (page_buf p)" "length ptrs' = length ptrs"
      "\<forall>k < length ptrs. ptrs' ! k = (if k \<in> set is then shift_to a sa c sc (ptrs[i := ?v] ! k) else ptrs[i := ?v] ! k)"
      "\<forall>j. ?arr + 2 * length ptrs \<le> j \<longrightarrow> j < length b' \<longrightarrow> b' ! j = page_buf p ! j"
    using Cons.prems(2) by auto
  then show ?case using i by (intro exI [of _ b'] exI [of _ ptrs']) (auto simp: nth_list_update)
qed

lemma two_blocks_bounds:
  assumes f: "fits u cells fbs cca frag" and two: "two_blocks fbs a sa c sc"
  shows "cca \<le> a" "a + sa \<le> u" "4 \<le> sa" "0 < c \<Longrightarrow> a + sa + 3 < c \<and> c + sc \<le> u" "c = 0 \<Longrightarrow> sc = 0" "cca \<le> u"
    "a + (sa + sc) \<le> u" "total_len fbs = sa + sc" "0 < c \<Longrightarrow> 4 \<le> sc"
proof -
  show ab: "cca \<le> a" "a + sa \<le> u" "4 \<le> sa" "0 < c \<Longrightarrow> a + sa + 3 < c \<and> c + sc \<le> u" "c = 0 \<Longrightarrow> sc = 0" "cca \<le> u"
      "total_len fbs = sa + sc" "0 < c \<Longrightarrow> 4 \<le> sc"
    using f two by (auto simp: two_blocks_def fits_def inside_def before_def)
  show "a + (sa + sc) \<le> u" using ab by (cases "0 < c") auto
qed

text \<open>A cell lies before the first freeblock, between the two, or after them.\<close>

lemma shift_place:
  assumes f: "fits u cells fbs cca frag" and two: "two_blocks fbs a sa c sc" and x: "(s, z) \<in> set cells"
  shows "cca \<le> s \<and> s + z \<le> a \<and> shift_to a sa c sc s = s + (sa + sc) \<or>
      0 < c \<and> a + sa \<le> s \<and> s + z \<le> c \<and> shift_to a sa c sc s = s + sc \<or>
      a + (sa + sc) \<le> s \<and> (0 < c \<longrightarrow> c + sc \<le> s) \<and> s + z \<le> u \<and> shift_to a sa c sc s = s"
proof -
  have "cca \<le> s \<and> s + z \<le> u \<and> 4 \<le> z \<and> apart (s, z) (a, sa) \<and> (0 < c \<longrightarrow> apart (s, z) (c, sc) \<and> 4 \<le> sc)"
    using f two x by (fastforce simp: two_blocks_def fits_def inside_def)
  then show ?thesis using two_blocks_bounds [OF f two] by (cases "0 < c") (auto simp: shift_to_def apart_def)
qed

lemma fast_fits:
  assumes f: "fits u cells fbs cca frag" and two: "two_blocks fbs a sa c sc"
  shows "fits u (map (\<lambda>x. (shift_to a sa c sc (fst x), snd x)) cells) [] (cca + (sa + sc)) frag"
proof -
  note ab = two_blocks_bounds [OF f two] and place = shift_place [OF f two]
  have ins: "inside (cca + (sa + sc)) u (shift_to a sa c sc (fst x), snd x)" if "x \<in> set cells" for x
    using place [of "fst x" "snd x"] that ab by (auto simp: inside_def)
  have "apart (shift_to a sa c sc (fst x), snd x) (shift_to a sa c sc (fst y), snd y)"
    if "x \<in> set cells" "y \<in> set cells" "apart x y" for x y
    using place [of "fst x" "snd x"] place [of "fst y" "snd y"] that ab(4,5) by (cases "0 < c") (auto simp: apart_def)
  then have "sorted_wrt apart (map (\<lambda>x. (shift_to a sa c sc (fst x), snd x)) cells)"
    using f unfolding sorted_wrt_map fits_def by (metis (no_types, lifting) sorted_wrt_mono_rel)
  moreover have "total_len (map (\<lambda>x. (shift_to a sa c sc (fst x), snd x)) cells) = total_len cells" by (simp add: o_def)
  moreover have "total_len cells + frag = u - (cca + (sa + sc))" using f ab(8) unfolding fits_def by linarith
  ultimately show ?thesis using f ins ab by (auto simp: fits_def)
qed

text \<open>The bytes after the two moves.\<close>

lemma fast_moves:
  assumes f: "fits u cells fbs cca frag" and two: "two_blocks fbs a sa c sc" and u: "u \<le> length b"
    and b1: "b1 = (if 0 < c then copy_within b (a + sa) c (a + (sa + sc)) else b)"
    and b2: "b2 = copy_within b1 cca a (cca + (sa + sc))"
  shows "length b2 = length b" "\<And>j. j < cca \<Longrightarrow> b2 ! j = b ! j"
    "\<And>s z. (s, z) \<in> set cells \<Longrightarrow> slice b2 (shift_to a sa c sc s) (shift_to a sa c sc s + z) = slice b s (s + z)"
proof -
  note ab = two_blocks_bounds [OF f two] and place = shift_place [OF f two]
  note tot = ab(7)
  have l1: "length b1 = length b" using ab u by (auto simp: b1 length_copy_within')
  have n1: "b1 ! j = (if 0 < c \<and> a + (sa + sc) \<le> j \<and> j < c + sc then b ! (j - sc) else b ! j)" if "j < length b" for j
    using ab u that by (auto simp: b1 nth_copy_within)
  show l2: "length b2 = length b" using ab u l1 by (cases "0 < c") (auto simp: b2 length_copy_within')
  have n2: "b2 ! j = (if cca + (sa + sc) \<le> j \<and> j < a + (sa + sc) then b1 ! (j - (sa + sc)) else b1 ! j)" if "j < length b" for j
    using ab u that l1 by (cases "0 < c") (auto simp: b2 nth_copy_within)
  show "b2 ! j = b ! j" if "j < cca" for j using that n1 n2 ab u by auto
  show "slice b2 (shift_to a sa c sc s) (shift_to a sa c sc s + z) = slice b s (s + z)" if "(s, z) \<in> set cells" for s z
    using place [OF that]
  proof (elim disjE conjE)
    assume h: "cca \<le> s" "s + z \<le> a" "shift_to a sa c sc s = s + (sa + sc)"
    have "b2 ! (s + (sa + sc) + j) = b ! (s + j)" if "j < z" for j
      using n1 [of "s + j"] n2 [of "s + (sa + sc) + j"] h(1,2) tot u that by simp
    then show ?thesis unfolding h(3) using h(2) tot u l2 by (intro slice_moved) auto
  next
    assume h: "0 < c" "a + sa \<le> s" "s + z \<le> c" "shift_to a sa c sc s = s + sc"
    have "b2 ! (s + sc + j) = b ! (s + j)" if "j < z" for j
      using n1 [of "s + sc + j"] n2 [of "s + sc + j"] h ab(4) u that by simp
    then show ?thesis unfolding h(4) using h(1,3) ab(4) u l2 by (intro slice_moved) auto
  next
    assume h: "a + (sa + sc) \<le> s" "0 < c \<longrightarrow> c + sc \<le> s" "s + z \<le> u" "shift_to a sa c sc s = s"
    have "b2 ! (s + j) = b ! (s + j)" if "j < z" for j
      using n1 [of "s + j"] n2 [of "s + j"] h u that by auto
    then show ?thesis unfolding h(4) using h(3) u l2 by (intro slice_moved) auto
  qed
qed

lemma fast_run:
  assumes ps: "page_space (page_buf p) (page_offset p) t ptrs u cells fbs cca frag" and two: "two_blocks fbs a sa c sc"
    and b1: "b1 = (if 0 < c then copy_within (page_buf p) (a + sa) c (a + (sa + sc)) else page_buf p)"
    and b2: "b2 = copy_within b1 cca a (cca + (sa + sc))" and h2: "header_at b2 (page_offset p) t ptrs ff cca frag"
  shows "defragment_page_fast p u a c =
    rbind (defragment_fast_pointers u (page_offset p + header_len t) a c sc (sa + sc) [0..<length ptrs] (p\<lparr>page_buf := b2\<rparr>))
      (\<lambda>p. rbind (write_cell_content_area p (cca + (sa + sc))) (\<lambda>p. write_first_freeblock p 0))"
proof -
  note d = page_spaceD [OF ps]
  note ab = two_blocks_bounds [OF d(3) two]
  have rd: "read_u16_no_offset p (a + 2) = Inr sa" "0 < c \<Longrightarrow> read_u16_no_offset p (c + 2) = Inr sc"
    using two d(2,5) ab(2,3,4,9) by (auto simp: two_blocks_def read_u16_at)
  have cp1: "(if 0 < c then page_copy_within p (a + sa) c (a + (sa + sc)) else Inr p) = Inr (p\<lparr>page_buf := b1\<rparr>)"
    using ab(1-4,7) d(5) by (cases "0 < c") (auto simp: page_copy_within_def b1)
  have "length b1 = length (page_buf p)" using ab d(5) by (auto simp: b1 length_copy_within')
  then have cp2: "page_copy_within (p\<lparr>page_buf := b1\<rparr>) cca a (cca + (sa + sc)) = Inr (p\<lparr>page_buf := b2\<rparr>)"
    using ab d(5) by (simp add: page_copy_within_def b2)
  have c: "a \<noteq> 0" "0 < c \<longrightarrow> a < c \<and> a + sa \<le> c \<and> c + sc \<le> u" "4 \<le> u" "a \<le> u - 4" "c \<le> u - 4" "a + sa \<le> u"
    using ab d(7) by (cases "0 < c"; auto)+
  note hr = header_reads(4,7) [of "p\<lparr>page_buf := b2\<rparr>", unfolded page_update, OF h2]
  show ?thesis
  proof (cases "0 < c")
    case True
    then show ?thesis using rd cp1 cp2 hr header_reads(5) [OF d(1)] c ab(1,7)
      by (simp add: defragment_page_fast_def Let_def)
  next
    case False
    then show ?thesis using rd cp1 cp2 hr header_reads(5) [OF d(1)] c ab(1,5,7)
      by (simp add: defragment_page_fast_def Let_def)
  qed
qed

lemma fast_defrag_ok:
  assumes ps: "page_space (page_buf p) (page_offset p) t ptrs u (zip ptrs lens) fbs cca frag" and two: "two_blocks fbs a sa c sc"
    and len: "length lens = length ptrs"
  shows "\<exists>b' ptrs' cca'. defragment_page_fast p u a c = Inr (p\<lparr>page_buf := b'\<rparr>) \<and>
    page_space b' (page_offset p) t ptrs' u (zip ptrs' lens) [] cca' frag \<and> moved (page_buf p) ptrs b' ptrs' lens"
proof -
  let ?b = "page_buf p" and ?po = "page_offset p" and ?n = "length ptrs" and ?cca = "cca + (sa + sc)"
  note d = page_spaceD [OF ps]
  note ab = two_blocks_bounds [OF d(3) two]
  define b1 where "b1 = (if 0 < c then copy_within ?b (a + sa) c (a + (sa + sc)) else ?b)"
  define b2 where "b2 = copy_within b1 cca a ?cca"
  note mv = fast_moves [OF d(3) two d(5) b1_def b2_def]
  have h2: "header_at b2 ?po t ptrs (fb_first fbs 0) cca frag"
    by (rule header_cong [OF d(1) mv(1)]) (use mv(2) d(4) in auto)
  let ?p2 = "p\<lparr>page_buf := b2\<rparr>"
  have sh: "shift_to a sa c sc (ptrs ! i) \<le> u \<and> shift_to a sa c sc (ptrs ! i) < 65536" if "i < ?n" for i
  proof -
    have m: "(ptrs ! i, lens ! i) \<in> set (zip ptrs lens)" using that len by (auto simp: set_zip)
    then show ?thesis using shift_place [OF d(3) two m] d(11) [OF m] ab d(5,6) by auto
  qed
  from fast_pointers_ok [of ?p2 t ptrs "fb_first fbs 0" cca frag "[0..<?n]" a sa c sc u, unfolded page_update] h2 sh obtain b3 ptrs' where
    b3: "defragment_fast_pointers u (?po + header_len t) a c sc (sa + sc) [0..<?n] ?p2 = Inr (p\<lparr>page_buf := b3\<rparr>)"
      "header_at b3 ?po t ptrs' (fb_first fbs 0) cca frag" "length b3 = length b2" "length ptrs' = ?n"
      "\<forall>i < ?n. ptrs' ! i = shift_to a sa c sc (ptrs ! i)" "\<forall>j. ?po + header_len t + 2 * ?n \<le> j \<longrightarrow> j < length b3 \<longrightarrow> b3 ! j = b2 ! j"
    by auto
  have zip: "zip ptrs' lens = map (\<lambda>x. (shift_to a sa c sc (fst x), snd x)) (zip ptrs lens)"
    using b3(4,5) len by (intro nth_equalityI) auto
  have f3: "fits u (zip ptrs' lens) [] ?cca frag" unfolding zip by (rule fast_fits [OF d(3) two])
  have "slice b3 (ptrs' ! i) (ptrs' ! i + lens ! i) = slice ?b (ptrs ! i) (ptrs ! i + lens ! i)" if "i < ?n" for i
  proof -
    have m: "(ptrs ! i, lens ! i) \<in> set (zip ptrs lens)" "(ptrs' ! i, lens ! i) \<in> set (zip ptrs' lens)"
      using that len b3(4) by (auto simp: set_zip)
    have "slice b3 (ptrs' ! i) (ptrs' ! i + lens ! i) = slice b2 (ptrs' ! i) (ptrs' ! i + lens ! i)"
      by (rule slice_eqI) (use b3(3,6) d(4,5) mv(1) fits_mem [OF f3, of "(ptrs' ! i, lens ! i)"] m(2) in auto)
    then show ?thesis using mv(3) [OF m(1)] b3(5) that by simp
  qed
  then have mvd: "moved ?b ptrs b3 ptrs' lens" using b3(3,4) mv(1) by (simp add: moved_def)
  from no_blocks_header [of "p\<lparr>page_buf := b3\<rparr>", unfolded page_update, OF b3(2) f3] obtain b4 where
    b4: "rbind (write_cell_content_area (p\<lparr>page_buf := b3\<rparr>) ?cca) (\<lambda>p. write_first_freeblock p 0) = Inr (p\<lparr>page_buf := b4\<rparr>)"
      "header_at b4 ?po t ptrs' 0 ?cca frag" "same_cells (zip ptrs' lens) b3 b4"
    using d(4,5,6) b3(3,4) mv(1) by auto
  have "page_space b4 ?po t ptrs' u (zip ptrs' lens) [] ?cca frag"
    using b4(2,3) f3 d(4,5,6) b3(3,4) mv(1) by (simp add: page_space_def same_cells_def)
  moreover have "defragment_page_fast p u a c = Inr (p\<lparr>page_buf := b4\<rparr>)"
    unfolding fast_run [OF ps two b1_def b2_def h2] b3(1) rbind_Inr by (rule b4(1))
  ultimately show ?thesis using moved_same [OF mvd b4(3) len] by blast
qed

section \<open>Defragmenting\<close>

lemma blocks_cases [case_names none one two more]:
  obtains "xs = []" | x where "xs = [x]" | x y where "xs = [x, y]" | x y z zs where "xs = x # y # z # zs"
  by (metis list.exhaust)

lemma fast_path_eq:
  assumes ps: "page_space (page_buf p) (page_offset p) t ptrs u cells fbs cca frag"
  shows "fast_path p m = Inr (if int frag \<le> m then
      (case fbs of [] \<Rightarrow> Some None | [f] \<Rightarrow> Some (Some (fst f, 0)) | [f, g] \<Rightarrow> Some (Some (fst f, fst g)) | _ \<Rightarrow> None) else None)"
proof -
  note d = page_spaceD [OF ps]
  have frag: "uint (of_nat frag :: u8) = int frag" using d(9) by (simp add: unsigned_of_nat take_bit_nat_eq_self)
  have rd: "read_u16_no_offset p (fst f) = Inr (u16_at (page_buf p) (fst f))" "fst f \<noteq> 0" if "f \<in> set fbs" for f
    using d(5) d(10) [OF that] by (simp_all add: read_u16_at)
  show ?thesis
  proof (cases fbs rule: blocks_cases)
    case (one f)
    then show ?thesis using d(2) rd [of f] frag header_reads(3,6) [OF d(1)] by (simp add: fast_path_def)
  next
    case (two f g)
    then show ?thesis using d(2) rd [of f] rd [of g] frag header_reads(3,6) [OF d(1)] by (simp add: fast_path_def)
  next
    case (more f g h fs)
    then show ?thesis using d(2) rd [of f] rd [of g] rd [of h] frag header_reads(3,6) [OF d(1)] by (simp add: fast_path_def)
  qed (use frag header_reads(3,6) [OF d(1)] in \<open>simp add: fast_path_def\<close>)
qed

lemma defragment_page_ok:
  assumes ps: "page_space (page_buf p) (page_offset p) t ptrs u (zip ptrs lens) fbs cca frag" and r: "regions_ok p u t ptrs lens"
  shows "\<exists>b' ptrs' cca' frag'. defragment_page p u m = Inr (p\<lparr>page_buf := b'\<rparr>) \<and>
    page_space b' (page_offset p) t ptrs' u (zip ptrs' lens) [] cca' frag' \<and> moved (page_buf p) ptrs b' ptrs' lens \<and>
    (frag' = 0 \<or> int frag' \<le> m)"
proof -
  note d = page_spaceD [OF ps]
  note hr = header_reads [OF d(1)]
  have len: "length lens = length ptrs" using r by (simp add: regions_ok_def)
  have mv: "moved (page_buf p) ptrs (page_buf p) ptrs lens" by (simp add: moved_def)
  consider "ptrs = []" | "ptrs \<noteq> []" "fast_path p m = Inr None" | "ptrs \<noteq> []" "fbs = []" "int frag \<le> m" "fast_path p m = Inr (Some None)"
    | a sa c sc where "ptrs \<noteq> []" "two_blocks fbs a sa c sc" "int frag \<le> m" "fast_path p m = Inr (Some (Some (a, c)))"
  proof (cases "ptrs = [] \<or> \<not> int frag \<le> m")
    case False
    then show ?thesis using that fast_path_eq [OF ps, of m] d(10)
      by (cases fbs rule: blocks_cases) (fastforce simp: two_blocks_def)+
  next
    case True
    then show ?thesis using that(1,2) fast_path_eq [OF ps, of m] by (cases "ptrs = []") auto
  qed
  then show ?thesis
  proof cases
    case 1
    have "fits u [] [] u 0" by (simp add: fits_def)
    then obtain b' where b': "rbind (write_cell_content_area p u) (\<lambda>p. rbind (write_first_freeblock p 0) (\<lambda>p. write_fragmented_bytes_count p 0)) = Inr (p\<lparr>page_buf := b'\<rparr>)"
        "page_space b' (page_offset p) t ptrs u [] [] u 0" "same_cells [] (page_buf p) b'"
      using reset_header_ok [OF d(1), of u "[]" u] d(4,5,6,8) by auto
    then show ?thesis using 1 hr(4) by (intro exI [of _ b'] exI [of _ "[]"] exI [of _ u] exI [of _ 0])
        (simp add: defragment_page_def moved_def same_cells_def)
  next
    case 2
    then show ?thesis using full_defrag_ok [OF ps r] hr(1,4) by (fastforce simp: defragment_page_def)
  next
    case 3
    then show ?thesis using ps mv hr(4)
      by (intro exI [of _ "page_buf p"] exI [of _ ptrs] exI [of _ cca] exI [of _ frag]) (simp add: defragment_page_def)
  next
    case 4
    then show ?thesis using fast_defrag_ok [OF ps 4(2) len] hr(4) by (fastforce simp: defragment_page_def)
  qed
qed

end
