(* ===== verification/Refinement.thy ===== *)
theory Refinement
  imports Prelude
begin

text \<open>
  Refinement of an abstract machine by an implementation that may fail. The implementation's steps return a
  result; the abstract step is partial, and where it is defined the implementation must succeed and stay
  related. A component states its contract as the abstract machine, proves one step of each operation and
  obtains the behaviour of every sequence of operations from the locale.
\<close>

primrec res_run :: "('op \<Rightarrow> 's \<Rightarrow> 's res) \<Rightarrow> 'op list \<Rightarrow> 's \<Rightarrow> 's res" where
  "res_run step [] s = Inr s"
| "res_run step (op # ops) s = rbind (step op s) (res_run step ops)"

primrec opt_run :: "('op \<Rightarrow> 'a \<Rightarrow> 'a option) \<Rightarrow> 'op list \<Rightarrow> 'a \<Rightarrow> 'a option" where
  "opt_run spec [] a = Some a"
| "opt_run spec (op # ops) a = Option.bind (spec op a) (opt_run spec ops)"

lemma res_run_append: "res_run step (xs @ ys) s = rbind (res_run step xs s) (res_run step ys)"
  by (induction xs arbitrary: s) (simp_all add: rbind_def split: sum.splits)

locale refinement =
  fixes rep :: "'s \<Rightarrow> 'a \<Rightarrow> bool"
    and step :: "'op \<Rightarrow> 's \<Rightarrow> 's res"
    and spec :: "'op \<Rightarrow> 'a \<Rightarrow> 'a option"
  assumes step_ok: "rep s a \<Longrightarrow> spec op a = Some a' \<Longrightarrow> \<exists>s'. step op s = Inr s' \<and> rep s' a'"
begin

lemma run_ok:
  assumes "rep s a" "opt_run spec ops a = Some a'"
  shows "\<exists>s'. res_run step ops s = Inr s' \<and> rep s' a'"
  using assms
proof (induction ops arbitrary: s a)
  case (Cons op ops)
  then obtain a1 where a1: "spec op a = Some a1" "opt_run spec ops a1 = Some a'" by (auto simp: bind_eq_Some_conv)
  then obtain s1 where "step op s = Inr s1" "rep s1 a1" using step_ok Cons.prems(1) by blast
  then show ?case using Cons.IH a1(2) by simp
qed simp

end

text \<open>With queries that the implementation answers as the abstract machine does.\<close>

locale observed_refinement = refinement rep step spec
  for rep :: "'s \<Rightarrow> 'a \<Rightarrow> bool" and step :: "'op \<Rightarrow> 's \<Rightarrow> 's res" and spec :: "'op \<Rightarrow> 'a \<Rightarrow> 'a option" +
  fixes look :: "'q \<Rightarrow> 's \<Rightarrow> 'v res"
    and peek :: "'q \<Rightarrow> 'a \<Rightarrow> 'v option"
  assumes look_ok: "rep s a \<Longrightarrow> peek q a = Some v \<Longrightarrow> look q s = Inr v"
begin

lemma run_look:
  assumes "rep s a" "opt_run spec ops a = Some a'"
  shows "\<exists>s'. res_run step ops s = Inr s' \<and> rep s' a' \<and> (\<forall>q v. peek q a' = Some v \<longrightarrow> look q s' = Inr v)"
  using run_ok [OF assms] look_ok by blast

end

end
