(* ===== verification/Page_Cells.thy ===== *)
theory Page_Cells
  imports Page_Defrag Refinement
begin

text \<open>
  The cells of a b-tree page (\<^verbatim>\<open>core/storage/btree.rs\<close>): initialising a page, inserting a cell, which may take
  a freeblock or defragment the page first, and dropping one. A page refines a list of cells
  (\<open>page_rep\<close>): every operation acts on the bytes as its counterpart acts on the list, the free space of the
  page is what the list leaves, and a cell read from the page is the cell of the list.

  Checks that are compiled only into debug builds are not part of the model.
\<close>

section \<open>Operations\<close>

definition btree_init_page :: "page_inner \<Rightarrow> page_type \<Rightarrow> usize \<Rightarrow> page_inner res" where
  "btree_init_page page t usable_sz =
     rbind (write_page_type (page\<lparr>overflow_cells := []\<rparr>) (page_type_to_u8 t)) (\<lambda>page.
     rbind (write_first_freeblock page 0) (\<lambda>page.
     rbind (write_cell_count page 0) (\<lambda>page.
     rbind (write_cell_content_area page usable_sz) (\<lambda>page.
     rbind (write_fragmented_bytes_count page 0) (\<lambda>page.
       write_rightmost_ptr page 0)))))"

definition allocate_cell_space :: "page_inner \<Rightarrow> usize \<Rightarrow> usize \<Rightarrow> usize \<Rightarrow> (nat \<times> page_inner) res" where
  "allocate_cell_space page amount usable_sz free_space =
     (let amount = (if amount < 4 then 4 else amount) in
      rbind (unallocated_region_start page) (\<lambda>unallocated_start.
      rbind (cell_content_area page) (\<lambda>cell_content_area_start.
      rbind (first_freeblock page) (\<lambda>first_block.
      rbind (if first_block \<noteq> 0 \<and> unallocated_start + 2 \<le> cell_content_area_start
             then find_free_slot page usable_sz amount else Inr (None, page)) (\<lambda>(slot, page).
      case slot of
        Some pc \<Rightarrow> Inr (pc mod 65536, page)
      | None \<Rightarrow>
          rbind (if unallocated_start + 2 + amount > cell_content_area_start then
                   rbind (defragment_page page usable_sz (min 4 (int free_space - int (2 + amount)))) (\<lambda>page.
                   rbind (cell_content_area page) (\<lambda>cell_content_area_start. Inr (cell_content_area_start, page)))
                 else Inr (cell_content_area_start, page)) (\<lambda>(cell_content_area_start, page).
          if cell_content_area_start < amount then Inl Panic
          else rbind (write_cell_content_area page (cell_content_area_start - amount)) (\<lambda>page.
            if cell_content_area_start - amount + amount \<le> usable_sz
            then Inr ((cell_content_area_start - amount) mod 65536, page) else Inl Panic)))))))"

text \<open>Entering the pointer of a new cell.\<close>

definition insert_pointer :: "page_inner \<Rightarrow> usize \<Rightarrow> nat \<Rightarrow> page_inner res" where
  "insert_pointer page cell_idx pc =
     rbind (cell_pointer_array_offset page) (\<lambda>arr.
     rbind (cell_count page) (\<lambda>n.
     if n < cell_idx then Inl Panic
     else
       rbind (if 2 * (n - cell_idx) > 0
              then page_copy_within page (arr + 2 * cell_idx) (arr + 2 * cell_idx + 2 * (n - cell_idx)) (arr + 2 * cell_idx + 2)
              else Inr page) (\<lambda>page.
       rbind (write_u16_no_offset page (arr + 2 * cell_idx) pc) (\<lambda>page.
       rbind (cell_count page) (\<lambda>n. write_cell_count page (n + 1))))))"

definition insert_into_cell_with :: "page_inner \<Rightarrow> bytes \<Rightarrow> usize \<Rightarrow> usize \<Rightarrow> bool \<Rightarrow> page_inner res" where
  "insert_into_cell_with page payload cell_idx usable_sz allow_regular_insert_despite_overflow =
     rbind (cell_count page) (\<lambda>n.
     if cell_idx > n + length (overflow_cells page) then Inl Panic
     else rbind (compute_free_space page usable_sz) (\<lambda>free.
       let already_has_overflow = overflow_cells page \<noteq> [];
           enough_space = (if already_has_overflow \<and> \<not> allow_regular_insert_despite_overflow then False
                           else length payload + 2 \<le> free)
       in if \<not> enough_space then Inr (page\<lparr>overflow_cells := overflow_cells page @ [(cell_idx, payload)]\<rparr>)
       else if cell_idx > n then Inl Panic
       else rbind (allocate_cell_space page (length payload) usable_sz free) (\<lambda>(pc, page).
         if pc + length payload > usable_sz then Inl Panic
         else rbind (write_bytes page pc payload) (\<lambda>page. insert_pointer page cell_idx pc))))"

definition insert_into_cell :: "page_inner \<Rightarrow> bytes \<Rightarrow> usize \<Rightarrow> usize \<Rightarrow> page_inner res" where
  "insert_into_cell page payload cell_idx usable_sz = insert_into_cell_with page payload cell_idx usable_sz False"

definition shift_pointers_left :: "page_inner \<Rightarrow> usize \<Rightarrow> page_inner res" where
  "shift_pointers_left page cell_idx =
     rbind (cell_count page) (\<lambda>n.
     rbind (cell_pointer_array_offset page) (\<lambda>arr.
       if n < cell_idx + 1 then Inl Panic
       else page_copy_within page (arr + cell_idx * 2 + 2) (arr + cell_idx * 2 + 2 + (n - cell_idx - 1) * 2) (arr + cell_idx * 2)))"

definition drop_cell :: "page_inner \<Rightarrow> usize \<Rightarrow> usize \<Rightarrow> page_inner res" where
  "drop_cell page cell_idx usable_sz =
     rbind (cell_get_raw_region page cell_idx usable_sz) (\<lambda>(cell_start, cell_len).
     rbind (free_cell_range page cell_start cell_len usable_sz) (\<lambda>page.
     rbind (cell_count page) (\<lambda>n.
     rbind (if n > 1 then shift_pointers_left page cell_idx
            else
              rbind (write_cell_content_area page usable_sz) (\<lambda>page.
              rbind (write_first_freeblock page 0) (\<lambda>page.
                write_fragmented_bytes_count page 0))) (\<lambda>page.
     rbind (cell_count page) (\<lambda>n.
       if n = 0 then Inl Panic else write_cell_count page (n - 1))))))"

section \<open>The pointer array\<close>

lemma u16_at_shift:
  assumes "length b' = length b" "i + 2 \<le> length b" "j + 2 \<le> length b" "b' ! i = b ! j" "b' ! (i + 1) = b ! (j + 1)"
  shows "u16_at b' i = u16_at b j"
proof -
  have "slice b' i (i + 2) = slice b j (j + 2)"
    by (rule slice_moved) (use assms in \<open>auto simp: less_2_cases_iff\<close>)
  then show ?thesis by (simp add: u16_at_def)
qed

text \<open>A header whose pointer array changed: enough that its entries and its count are right.\<close>

lemma header_new_ptrs:
  assumes h: "header_at b po t ptrs ff cca frag" and len: "length b' = length b"
    and n: "length ptrs' = m" "po + header_len t + 2 * m \<le> length b" "u16_at b' (po + 3) = m"
    and low: "\<And>j. j < po + 3 \<or> po + 5 \<le> j \<and> j < po + header_len t \<Longrightarrow> b' ! j = b ! j"
    and ptrs: "\<And>i. i < m \<Longrightarrow> u16_at b' (po + header_len t + 2 * i) = ptrs' ! i"
  shows "header_at b' po t ptrs' ff cca frag"
proof -
  have "u16_at b' (po + 1) = u16_at b (po + 1)" "u16_at b' (po + 5) = u16_at b (po + 5)"
    by (rule u16_at_shift; use h len low header_len_bounds(1) [of t] in \<open>simp add: header_at_def\<close>)+
  then show ?thesis using h len n low ptrs header_len_bounds(1) [of t] by (simp add: header_at_def)
qed

lemma insert_pointer_ok:
  assumes h: "header_at (page_buf p) (page_offset p) t ptrs ff cca frag" and idx: "idx \<le> length ptrs" and pc: "pc < 65536"
    and room: "page_offset p + header_len t + 2 * length ptrs + 2 \<le> length (page_buf p)" "length (page_buf p) \<le> 65536"
  shows "\<exists>b'. insert_pointer p idx pc = Inr (p\<lparr>page_buf := b'\<rparr>) \<and> length b' = length (page_buf p) \<and>
    header_at b' (page_offset p) t (take idx ptrs @ pc # drop idx ptrs) ff cca frag \<and>
    (\<forall>j. page_offset p + header_len t + 2 * length ptrs + 2 \<le> j \<longrightarrow> j < length (page_buf p) \<longrightarrow> b' ! j = page_buf p ! j)"
proof -
  let ?b = "page_buf p" and ?po = "page_offset p" and ?n = "length ptrs"
  let ?arr = "?po + header_len t"
  define m where "m = ?n + 1"
  define b1 where "b1 = (if idx < ?n then copy_within ?b (?arr + 2 * idx) (?arr + 2 * ?n) (?arr + 2 * idx + 2) else ?b)"
  let ?b2 = "put16 b1 (?arr + 2 * idx) pc" and ?b3 = "put16 (put16 b1 (?arr + 2 * idx) pc) (?po + 3) m"
  have hl: "8 \<le> header_len t" by (rule header_len_bounds)
  have l1: "length b1 = length ?b" using room idx by (simp add: b1_def length_copy_within')
  have n1: "b1 ! j = (if ?arr + 2 * idx + 2 \<le> j \<and> j < ?arr + 2 * ?n + 2 \<and> idx < ?n then ?b ! (j - 2) else ?b ! j)" if "j < length ?b" for j
    using that room idx by (auto simp: b1_def nth_copy_within)
  have l3: "length ?b3 = length ?b" using l1 room idx hl by simp
  have n3: "?b3 ! j = b1 ! j" if "j < ?po + 3 \<or> ?po + 5 \<le> j \<and> j < ?arr + 2 * idx \<or> ?arr + 2 * idx + 2 \<le> j" "j < length ?b" for j
    using that room idx l1 hl by (auto simp: nth_put_at)
  have n: "m < 65536" "length (take idx ptrs @ pc # drop idx ptrs) = m" using room hl idx by (simp_all add: m_def)
  have cnt: "u16_at ?b3 (?po + 3) = m" using n room l1 idx hl by (simp add: u16_at_put_same)
  have ptr: "u16_at ?b3 (?arr + 2 * i) = (take idx ptrs @ pc # drop idx ptrs) ! i" if i: "i < m" for i
  proof -
    consider "i < idx" | "i = idx" | "idx < i" by linarith
    then show ?thesis
    proof cases
      case 1
      have "u16_at ?b3 (?arr + 2 * i) = u16_at ?b (?arr + 2 * i)"
        by (rule u16_at_shift) (use 1 idx room l3 n3 n1 hl in auto)
      then show ?thesis using 1 idx h by (simp add: header_at_def nth_append)
    next
      case 2
      have "u16_at ?b3 (?arr + 2 * idx) = u16_at ?b2 (?arr + 2 * idx)" using room l1 idx hl by (intro u16_at_put_other) auto
      then show ?thesis using 2 pc room l1 idx by (simp add: u16_at_put_same nth_append)
    next
      case 3
      then obtain k where k: "i = Suc k" "idx \<le> k" "k < ?n" using i by (cases i) (auto simp: m_def)
      have "u16_at ?b3 (?arr + 2 * i) = u16_at ?b (?arr + 2 * k)"
        by (rule u16_at_shift) (use k idx room l3 n3 n1 hl in auto)
      then show ?thesis using k idx h by (simp add: header_at_def nth_append)
    qed
  qed
  have h3: "header_at ?b3 ?po t (take idx ptrs @ pc # drop idx ptrs) ff cca frag"
    by (rule header_new_ptrs [OF h l3 n(2)]) (use room idx cnt n1 n3 ptr hl in \<open>auto simp: m_def\<close>)
  have e: "?arr + 2 * idx + 2 * (?n - idx) = ?arr + 2 * ?n" using idx by simp
  have "(if 2 * (?n - idx) > 0 then page_copy_within p (?arr + 2 * idx) (?arr + 2 * idx + 2 * (?n - idx)) (?arr + 2 * idx + 2) else Inr p) =
      Inr (p\<lparr>page_buf := b1\<rparr>)"
    unfolding e using room idx by (auto simp: page_copy_within_def b1_def)
  moreover have "write_u16_no_offset (p\<lparr>page_buf := b1\<rparr>) (?arr + 2 * idx) pc = Inr (p\<lparr>page_buf := ?b2\<rparr>)"
    using room idx l1 by (simp add: header_writes)
  moreover have "cell_count (p\<lparr>page_buf := ?b2\<rparr>) = Inr ?n"
  proof -
    have "u16_at ?b2 (?po + 3) = u16_at b1 (?po + 3)" using room l1 idx hl by (intro u16_at_put_other) auto
    also have "\<dots> = u16_at ?b (?po + 3)" by (rule u16_at_shift) (use l1 n1 room idx hl in auto)
    finally show ?thesis using h l1 room idx hl by (simp add: header_at_def cell_count_def page_read_u16_def read_u16_at)
  qed
  ultimately have "insert_pointer p idx pc = Inr (p\<lparr>page_buf := ?b3\<rparr>)"
    using header_reads(4,7) [OF h] idx room l1 hl by (simp add: insert_pointer_def m_def write_cell_count_def header_writes)
  moreover have "?b3 ! j = ?b ! j" if "?arr + 2 * ?n + 2 \<le> j" "j < length ?b" for j using n1 n3 that idx by simp
  ultimately show ?thesis using l3 h3 by blast
qed

lemma remove_pointer_ok:
  assumes h: "header_at (page_buf p) (page_offset p) t ptrs ff cca frag" and idx: "idx < length ptrs" and n: "length ptrs < 65536"
  shows "\<exists>b'. rbind (shift_pointers_left p idx) (\<lambda>p. rbind (cell_count p) (\<lambda>n. if n = 0 then Inl Panic else write_cell_count p (n - 1))) =
      Inr (p\<lparr>page_buf := b'\<rparr>) \<and> length b' = length (page_buf p) \<and>
    header_at b' (page_offset p) t (take idx ptrs @ drop (Suc idx) ptrs) ff cca frag \<and>
    (\<forall>j. page_offset p + header_len t + 2 * length ptrs \<le> j \<longrightarrow> j < length (page_buf p) \<longrightarrow> b' ! j = page_buf p ! j)"
proof -
  let ?b = "page_buf p" and ?po = "page_offset p" and ?n = "length ptrs"
  let ?arr = "?po + header_len t"
  define m where "m = ?n - 1"
  define b1 where "b1 = copy_within ?b (?arr + 2 * idx + 2) (?arr + 2 * ?n) (?arr + 2 * idx)"
  let ?b2 = "put16 b1 (?po + 3) m"
  have hl: "8 \<le> header_len t" by (rule header_len_bounds)
  have room: "?arr + 2 * ?n \<le> length ?b" using h by (simp add: header_at_def)
  have l1: "length b1 = length ?b" using room idx by (simp add: b1_def length_copy_within')
  have n1: "b1 ! j = (if ?arr + 2 * idx \<le> j \<and> j < ?arr + 2 * m then ?b ! (j + 2) else ?b ! j)" if "j < length ?b" for j
    using that room idx by (auto simp: b1_def nth_copy_within m_def)
  have l2: "length ?b2 = length ?b" using l1 room idx hl by simp
  have n2: "?b2 ! j = b1 ! j" if "j < ?po + 3 \<or> ?po + 5 \<le> j" "j < length ?b" for j
    using that room idx l1 hl by (auto simp: nth_put_at)
  have pk: "u16_at ?b (?arr + 2 * k) = ptrs ! k" if "k < ?n" for k using h that by (simp add: header_at_def)
  have m: "m < 65536" "length (take idx ptrs @ drop (Suc idx) ptrs) = m" "Suc m = ?n" using n idx by (simp_all add: m_def)
  have cnt: "u16_at ?b2 (?po + 3) = m" using m room l1 idx hl by (simp add: u16_at_put_same)
  have ptr: "u16_at ?b2 (?arr + 2 * i) = (take idx ptrs @ drop (Suc idx) ptrs) ! i" if i: "i < m" for i
  proof (cases "i < idx")
    case True
    have "u16_at ?b2 (?arr + 2 * i) = u16_at ?b (?arr + 2 * i)"
      by (rule u16_at_shift) (use True idx room l2 n2 n1 hl in auto)
    then show ?thesis using True idx h by (simp add: header_at_def nth_append)
  next
    case False
    have "u16_at ?b2 (?arr + 2 * i) = u16_at ?b (?arr + 2 * Suc i)"
      by (rule u16_at_shift) (use False i idx room l2 n2 n1 hl m(3) in auto)
    moreover have "u16_at ?b (?arr + 2 * Suc i) = ptrs ! Suc i" by (rule pk) (use i m(3) in simp)
    ultimately show ?thesis using False i idx m(3) by (simp add: nth_append)
  qed
  have h2: "header_at ?b2 ?po t (take idx ptrs @ drop (Suc idx) ptrs) ff cca frag"
    by (rule header_new_ptrs [OF h l2 m(2)]) (use room idx cnt n1 n2 ptr hl m(3) in auto)
  have e: "?arr + 2 * idx + 2 + (?n - idx - 1) * 2 = ?arr + 2 * ?n" "?arr + idx * 2 = ?arr + 2 * idx" using idx by simp_all
  have "shift_pointers_left p idx = Inr (p\<lparr>page_buf := b1\<rparr>)"
    using room idx
    by (simp only: shift_pointers_left_def header_reads(4,7) [OF h] rbind_Inr e) (simp add: page_copy_within_def b1_def)
  moreover have "cell_count (p\<lparr>page_buf := b1\<rparr>) = Inr ?n"
  proof -
    have "u16_at b1 (?po + 3) = u16_at ?b (?po + 3)" by (rule u16_at_shift) (use l1 n1 room idx hl in auto)
    then show ?thesis using h l1 room idx hl by (simp add: header_at_def cell_count_def page_read_u16_def read_u16_at)
  qed
  ultimately have "rbind (shift_pointers_left p idx) (\<lambda>p. rbind (cell_count p) (\<lambda>n. if n = 0 then Inl Panic else write_cell_count p (n - 1))) =
      Inr (p\<lparr>page_buf := ?b2\<rparr>)"
    using idx room l1 hl by (auto simp: m_def write_cell_count_def header_writes)
  moreover have "?b2 ! j = ?b ! j" if "?arr + 2 * ?n \<le> j" "j < length ?b" for j using n1 n2 that idx m(3) hl by simp
  ultimately show ?thesis using l2 h2 by blast
qed

section \<open>Allocating space for a cell\<close>

text \<open>Growing the content area downwards.\<close>

lemma fits_extend:
  assumes "fits u cells fbs cca frag" "4 \<le> amount" "amount \<le> cca"
  shows "fits u ((cca - amount, amount) # cells) fbs (cca - amount) frag"
proof -
  have "apart (cca - amount, amount) x \<and> inside (cca - amount) u x \<and> 4 \<le> snd x" if "x \<in> set cells \<union> set fbs" for x
    using fits_mem [OF assms(1) that] assms(3) by (auto simp: apart_def inside_def)
  then show ?thesis using assms by (auto simp: fits_def inside_def)
qed

lemma moved_refl: "same_cells (zip ptrs lens) b b' \<Longrightarrow> length lens = length ptrs \<Longrightarrow> moved b ptrs b' ptrs lens"
  by (rule moved_same [where b = b and ptrs = ptrs]) (auto simp: moved_def)

lemma extend_content_area:
  assumes ps: "page_space (page_buf p) (page_offset p) t ptrs u cells fbs cca frag"
    and a: "4 \<le> amount" "page_offset p + header_len t + 2 * length ptrs + 2 + amount \<le> cca"
  shows "\<exists>b'. write_cell_content_area p (cca - amount) = Inr (p\<lparr>page_buf := b'\<rparr>) \<and>
    page_space b' (page_offset p) t ptrs u ((cca - amount, amount) # cells) fbs (cca - amount) frag \<and> same_cells cells (page_buf p) b'"
proof -
  let ?b = "page_buf p" and ?po = "page_offset p"
  define c where "c = cca - amount"
  note d = page_spaceD [OF ps]
  have c: "0 < c" "c \<le> 65536" "?po + header_len t + 2 * length ptrs + 2 \<le> c" "?po + 8 \<le> c"
    using a d(5,6,8) header_len_bounds(1) [of t] by (auto simp: c_def)
  have f: "fits u ((c, amount) # cells) fbs c frag" unfolding c_def by (rule fits_extend [OF d(3)]) (use a in auto)
  let ?b' = "put16 ?b (?po + 5) c"
  have cl: "clear_of (cells @ fbs) (length ?b) (?po + 5) (length (be_bytes 2 (of_nat c :: u16)))"
    by (rule fits_clear_header [OF d(3,5,7)]) simp
  have "page_space ?b' ?po t ptrs u ((c, amount) # cells) fbs c frag"
    using header_put_cca [OF d(1) c(1,2)] put_frame [OF cl] d(2,5,6) f c(3) by (simp add: page_space_def same_cells_def)
  then show ?thesis using put_frame(1) [OF cl] header_write_eqs(2) [OF d(1) c(2)] unfolding c_def by blast
qed

lemma defrag_room:
  assumes ps: "page_space (page_buf p) (page_offset p) t ptrs u (zip ptrs lens) fbs cca frag" and r: "regions_ok p u t ptrs lens"
    and a: "amount + 2 \<le> free" "free = u - total_len (zip ptrs lens) - (page_offset p + header_len t + 2 * length ptrs)"
  shows "\<exists>b' ptrs' cca' frag'. defragment_page p u (min 4 (int free - int (2 + amount))) = Inr (p\<lparr>page_buf := b'\<rparr>) \<and>
    page_space b' (page_offset p) t ptrs' u (zip ptrs' lens) [] cca' frag' \<and> moved (page_buf p) ptrs b' ptrs' lens \<and>
    page_offset p + header_len t + 2 * length ptrs + 2 + amount \<le> cca'"
proof -
  from defragment_page_ok [OF ps r] obtain b' ptrs' cca' frag' where
    d: "defragment_page p u (min 4 (int free - int (2 + amount))) = Inr (p\<lparr>page_buf := b'\<rparr>)"
      "page_space b' (page_offset p) t ptrs' u (zip ptrs' lens) [] cca' frag'" "moved (page_buf p) ptrs b' ptrs' lens"
      "frag' = 0 \<or> int frag' \<le> min 4 (int free - int (2 + amount))" by blast
  have "length lens = length ptrs" "length ptrs' = length ptrs" using r d(3) by (simp_all add: regions_ok_def moved_def)
  then have "total_len (zip ptrs' lens) = total_len (zip ptrs lens)" by simp
  moreover have "total_len (zip ptrs' lens) + frag' = u - cca'" "cca' \<le> u" using page_spaceD(3) [OF d(2)] by (simp_all add: fits_def)
  moreover have "frag' + amount + 2 \<le> free" using d(4) a(1) by auto
  ultimately have "page_offset p + header_len t + 2 * length ptrs + 2 + amount \<le> cca'" using a by linarith
  then show ?thesis using d by blast
qed

text \<open>A page with room for the cell and its pointer, possibly in several pieces, gives the cell a place
  and keeps the others.\<close>

lemma allocate_cell_space_ok:
  assumes ps: "page_space (page_buf p) (page_offset p) t ptrs u (zip ptrs lens) fbs cca frag" and r: "regions_ok p u t ptrs lens"
    and a: "4 \<le> amount" "amount + 2 \<le> free" "free = u - total_len (zip ptrs lens) - (page_offset p + header_len t + 2 * length ptrs)"
  shows "\<exists>pc b' ptrs' fbs' cca' frag'. allocate_cell_space p amount u free = Inr (pc, p\<lparr>page_buf := b'\<rparr>) \<and>
    page_space b' (page_offset p) t ptrs' u ((pc, amount) # zip ptrs' lens) fbs' cca' frag' \<and> moved (page_buf p) ptrs b' ptrs' lens \<and>
    page_offset p + header_len t + 2 * length ptrs + 2 \<le> cca' \<and> pc < 65536"
proof -
  let ?lo = "page_offset p + header_len t + 2 * length ptrs"
  note d = page_spaceD [OF ps]
  note hr = header_reads(3,5,8) [OF d(1)]
  have len: "length lens = length ptrs" using r by (simp add: regions_ok_def)
  have au: "amount \<le> u" using a(2,3) by simp
  define slot where "slot = (if fb_first fbs 0 \<noteq> 0 \<and> ?lo + 2 \<le> cca then find_free_slot p u amount else Inr (None, p))"
  have "slot = Inr (None, p) \<or> ?lo + 2 \<le> cca \<and> slot_found p t ptrs u amount (zip ptrs lens) cca slot"
    using find_free_slot_ok [OF ps a(1) au] by (simp add: slot_def)
  then consider pc b' fbs' frag' where "slot = Inr (Some pc, p\<lparr>page_buf := b'\<rparr>)" "?lo + 2 \<le> cca"
      "page_space b' (page_offset p) t ptrs u ((pc, amount) # zip ptrs lens) fbs' cca frag'" "same_cells (zip ptrs lens) (page_buf p) b'"
    | "slot = Inr (None, p)" "?lo + 2 + amount \<le> cca" | "slot = Inr (None, p)" "\<not> ?lo + 2 + amount \<le> cca"
    unfolding slot_found_def by blast
  then show ?thesis
  proof cases
    case 1
    have "pc < 65536" using page_spaceD(11) [OF 1(3), of "(pc, amount)"] by simp
    then have "allocate_cell_space p amount u free = Inr (pc, p\<lparr>page_buf := b'\<rparr>)"
      using 1(1) a(1) hr unfolding slot_def by (simp add: allocate_cell_space_def Let_def)
    then show ?thesis using 1(2,3) \<open>pc < 65536\<close> moved_refl [OF 1(4) len] by blast
  next
    case 2
    from extend_content_area [OF ps a(1) 2(2)] obtain b' where
      b': "write_cell_content_area p (cca - amount) = Inr (p\<lparr>page_buf := b'\<rparr>)"
        "page_space b' (page_offset p) t ptrs u ((cca - amount, amount) # zip ptrs lens) fbs (cca - amount) frag"
        "same_cells (zip ptrs lens) (page_buf p) b'" by blast
    have c: "cca - amount < 65536" "cca \<le> u" using d(5,6,8) a(1) by auto
    have "allocate_cell_space p amount u free = Inr (cca - amount, p\<lparr>page_buf := b'\<rparr>)"
      using 2 a(1) hr b'(1) c unfolding slot_def by (auto simp: allocate_cell_space_def Let_def)
    then show ?thesis using b'(2) c 2(2) moved_refl [OF b'(3) len] by fastforce
  next
    case 3
    from defrag_room [OF ps r a(2,3)] obtain b1 ptrs1 cca1 frag1 where
      df: "defragment_page p u (min 4 (int free - int (2 + amount))) = Inr (p\<lparr>page_buf := b1\<rparr>)"
        "page_space b1 (page_offset p) t ptrs1 u (zip ptrs1 lens) [] cca1 frag1" "moved (page_buf p) ptrs b1 ptrs1 lens"
        "?lo + 2 + amount \<le> cca1" by blast
    have l1: "length ptrs1 = length ptrs" using df(3) by (simp add: moved_def)
    from extend_content_area [of "p\<lparr>page_buf := b1\<rparr>", unfolded page_update, OF df(2) a(1)] df(4) obtain b' where
      b': "write_cell_content_area (p\<lparr>page_buf := b1\<rparr>) (cca1 - amount) = Inr (p\<lparr>page_buf := b'\<rparr>)"
        "page_space b' (page_offset p) t ptrs1 u ((cca1 - amount, amount) # zip ptrs1 lens) [] (cca1 - amount) frag1"
        "same_cells (zip ptrs1 lens) b1 b'" unfolding l1 by blast
    have d1: "cell_content_area (p\<lparr>page_buf := b1\<rparr>) = Inr cca1" "cca1 \<le> u" "u \<le> 65536"
      using header_reads(5) [of "p\<lparr>page_buf := b1\<rparr>", unfolded page_update, OF page_spaceD(1) [OF df(2)]]
        page_spaceD(5,6,8) [OF df(2)] by auto
    have c: "cca1 - amount < 65536" using d1(2,3) a(1) by auto
    have "allocate_cell_space p amount u free = Inr (cca1 - amount, p\<lparr>page_buf := b'\<rparr>)"
      using 3 a(1) hr df(1,4) b'(1) c d1 unfolding slot_def by (auto simp: allocate_cell_space_def Let_def)
    then show ?thesis using b'(2) c df(4) moved_same [OF df(3) b'(3) len] by fastforce
  qed
qed

section \<open>Pages as lists of cells\<close>

text \<open>
  The bytes of one cell, as \<^verbatim>\<open>fill_cell_payload\<close> writes them or, when it is shorter than the minimal size of four, with some
  of the bytes that follow it on a page. On a page a cell takes at least four bytes.
\<close>

definition cell_bytes :: "page_type \<Rightarrow> usize \<Rightarrow> bytes \<Rightarrow> bool" where
  "cell_bytes t u c \<longleftrightarrow> (case cell_raw_len t u c of Inl _ \<Rightarrow> False | Inr l \<Rightarrow> l \<le> length c \<and> length c \<le> max 4 l)"

definition slot_len :: "bytes \<Rightarrow> usize" where
  "slot_len c = max 4 (length c)"

lemma slot_len_bounds [simp]: "4 \<le> slot_len c" "length c \<le> slot_len c"
  by (simp_all add: slot_len_def)

lemma slice_shorter:
  assumes "slice b' s' (s' + n) = slice b s (s + n)" "m \<le> n"
  shows "slice b' s' (s' + m) = slice b s (s + m)"
  using arg_cong [OF assms(1), of "take m"] assms(2) by (simp add: slice_def min_def)

definition cells_at :: "page_inner \<Rightarrow> usize \<Rightarrow> page_type \<Rightarrow> nat list \<Rightarrow> bytes list \<Rightarrow> extent list \<Rightarrow> nat \<Rightarrow> nat \<Rightarrow> bool" where
  "cells_at p u t ptrs cs fbs cca frag \<longleftrightarrow>
     page_space (page_buf p) (page_offset p) t ptrs u (zip ptrs (map slot_len cs)) fbs cca frag \<and> length ptrs = length cs \<and>
     (\<forall>i < length cs. slice (page_buf p) (ptrs ! i) (ptrs ! i + length (cs ! i)) = cs ! i)"

definition page_rep :: "usize \<Rightarrow> page_type \<Rightarrow> page_inner \<Rightarrow> bytes list \<Rightarrow> bool" where
  "page_rep u t p cs \<longleftrightarrow> 257 \<le> u \<and> (\<forall>c \<in> set cs. cell_bytes t u c) \<and> (\<exists>ptrs fbs cca frag. cells_at p u t ptrs cs fbs cca frag)"

definition free_of :: "usize \<Rightarrow> page_type \<Rightarrow> page_inner \<Rightarrow> bytes list \<Rightarrow> usize" where
  "free_of u t p cs = u - sum_list (map slot_len cs) - (page_offset p + header_len t + 2 * length cs)"

lemma cell_at:
  assumes c: "cells_at p u t ptrs cs fbs cca frag" "257 \<le> u" "cell_bytes t u (cs ! i)" and i: "i < length cs"
  shows "cell_get_raw_region p i u = Inr (ptrs ! i, slot_len (cs ! i))"
    "\<exists>l. cell_raw_len t u (drop (ptrs ! i) (page_buf p)) = Inr l \<and> l \<le> length (cs ! i) \<and> ptrs ! i + length (cs ! i) \<le> length (page_buf p)"
proof -
  have ps: "page_space (page_buf p) (page_offset p) t ptrs u (zip ptrs (map slot_len cs)) fbs cca frag" "length ptrs = length cs"
    and sl: "slice (page_buf p) (ptrs ! i) (ptrs ! i + length (cs ! i)) = cs ! i"
    using c(1) i by (simp_all add: cells_at_def)
  note d = page_spaceD [OF ps(1)]
  note hr = header_reads [OF d(1)]
  have "(ptrs ! i, slot_len (cs ! i)) \<in> set (zip ptrs (map slot_len cs))" using i ps(2) by (auto simp: set_zip)
  then have len: "ptrs ! i + slot_len (cs ! i) \<le> length (page_buf p)" using d(5) d(11) by fastforce
  from c(3) obtain l where l: "cell_raw_len t u (cs ! i) = Inr l" "l \<le> length (cs ! i)" "length (cs ! i) \<le> max 4 l"
    by (auto simp: cell_bytes_def split: sum.splits)
  have e: "take (length (cs ! i)) (drop (ptrs ! i) (page_buf p)) = cs ! i" using sl by (simp add: slice_def)
  have "take l (drop (ptrs ! i) (page_buf p)) = take l (take (length (cs ! i)) (drop (ptrs ! i) (page_buf p)))" using l(2) by (simp add: min_def)
  then have "take l (drop (ptrs ! i) (page_buf p)) = take l (cs ! i)" unfolding e .
  then have rl: "cell_raw_len t u (drop (ptrs ! i) (page_buf p)) = Inr l" by (rule cell_raw_len_prefix [OF l(1)])
  then show "\<exists>l. cell_raw_len t u (drop (ptrs ! i) (page_buf p)) = Inr l \<and> l \<le> length (cs ! i) \<and> ptrs ! i + length (cs ! i) \<le> length (page_buf p)"
    using l(2) len le_trans [OF add_left_mono [OF slot_len_bounds(2) [of "cs ! i"]]] by auto
  have "max 4 l = slot_len (cs ! i)" using l(2,3) by (simp add: slot_len_def)
  then show "cell_get_raw_region p i u = Inr (ptrs ! i, slot_len (cs ! i))"
    using raw_region_eq [OF hr(1,4) _ c(2), of i] hr(10) [of i] rl len i ps(2) by simp
qed

lemma regions_ok_cells:
  assumes "cells_at p u t ptrs cs fbs cca frag" "257 \<le> u" "\<forall>c \<in> set cs. cell_bytes t u c"
  shows "regions_ok p u t ptrs (map slot_len cs)"
proof -
  have ps: "page_space (page_buf p) (page_offset p) t ptrs u (zip ptrs (map slot_len cs)) fbs cca frag" "length ptrs = length cs"
    using assms(1) by (simp_all add: cells_at_def)
  note hr = header_reads [OF page_spaceD(1) [OF ps(1)]]
  have "cell_get_raw_region p i u = Inr (ptrs ! i, slot_len (cs ! i))" if "i < length cs" for i
    by (rule cell_at(1) [OF assms(1,2) _ that]) (use assms(3) that in simp)
  then show ?thesis using hr(1,4) ps(2) by (simp add: regions_ok_def cell_get_raw_region_def)
qed

lemma fits_perm:
  assumes "mset cells' = mset cells" "fits u cells fbs cca frag"
  shows "fits u cells' fbs cca frag"
proof -
  have "sorted_wrt apart cells'" by (rule sorted_wrt_mset [where xs = cells]) (use assms in \<open>auto simp: fits_def apart_sym\<close>)
  moreover have "set cells' = set cells" using assms(1) by (metis set_mset_mset)
  moreover have "total_len cells' = total_len cells" using assms(1) by (metis mset_map sum_mset_sum_list)
  ultimately show ?thesis using assms(2) by (simp add: fits_def)
qed

text \<open>A new pointer array in front of an unchanged content area.\<close>

lemma page_space_new_header:
  assumes ps: "page_space b po t ptrs u cells fbs cca frag"
    and h: "header_at b' po t ptrs' (fb_first fbs 0) cca frag" "length b' = length b" "po + header_len t + 2 * length ptrs' \<le> cca"
    and same: "\<And>j. cca \<le> j \<Longrightarrow> j < length b \<Longrightarrow> b' ! j = b ! j" and m: "mset cells' = mset cells"
  shows "page_space b' po t ptrs' u cells' fbs cca frag" "same_cells cells b b'"
proof -
  note d = page_spaceD [OF ps]
  have "fb_seg b' fbs 0 \<longleftrightarrow> fb_seg b fbs 0"
  proof (rule fb_seg_cong)
    fix f assume "f \<in> set fbs"
    then have "cca \<le> fst f" "fst f + 4 \<le> length b" using d(5) d(10) [of f] by auto
    then show "u16_at b' (fst f) = u16_at b (fst f) \<and> u16_at b' (fst f + 2) = u16_at b (fst f + 2)"
      using same h(2) by (auto intro!: u16_at_cong)
  qed
  then show "page_space b' po t ptrs' u cells' fbs cca frag"
    using h d(2,5,6) fits_perm [OF m d(3)] by (simp add: page_space_def)
  have "slice b' (fst c) (fst c + snd c) = slice b (fst c) (fst c + snd c)" if "c \<in> set cells" for c
    by (rule slice_eqI) (use d(5) d(11) [OF that] same h(2) in auto)
  then show "same_cells cells b b'" using h(2) by (simp add: same_cells_def)
qed

text \<open>Writing into an extent keeps the others.\<close>

lemma clear_of_shorter: "clear_of xs n pc k \<Longrightarrow> m \<le> k \<Longrightarrow> clear_of xs n pc m"
  by (fastforce simp: clear_of_def apart_def)

lemma write_extent_ok:
  assumes ps: "page_space b po t ptrs u ((pc, n) # cells) fbs cca frag" and n: "length c \<le> n"
  shows "page_space (put_at b pc c) po t ptrs u ((pc, n) # cells) fbs cca frag" "same_cells cells b (put_at b pc c)"
    "slice (put_at b pc c) pc (pc + length c) = c" "pc + length c \<le> u"
proof -
  note d = page_spaceD [OF ps]
  have pc: "cca \<le> pc" "pc + length c \<le> u" using d(11) [of "(pc, n)"] n by auto
  then show "pc + length c \<le> u" "slice (put_at b pc c) pc (pc + length c) = c" using d(5) by (auto intro: slice_put_same)
  have "clear_of (cells @ fbs) (length b) pc n" by (rule fits_clear [OF d(3,5)]) auto
  then have cl: "clear_of (cells @ fbs) (length b) pc (length c)" using n by (rule clear_of_shorter)
  show "same_cells cells b (put_at b pc c)" by (rule put_frame(1) [OF cl])
  then show "page_space (put_at b pc c) po t ptrs u ((pc, n) # cells) fbs cca frag"
    using header_put_body [OF d(1), of pc c] put_frame(2) [OF cl] d(2,3,4,5,6) pc by (simp add: page_space_def same_cells_def)
qed

lemma compute_free_space_cells:
  assumes "cells_at p u t ptrs cs fbs cca frag"
  shows "compute_free_space p u = Inr (free_of u t p cs)" "free_of u t p cs = u - total_len (zip ptrs (map slot_len cs)) - (page_offset p + header_len t + 2 * length ptrs)"
  using compute_free_space_eq [of p t ptrs u "zip ptrs (map slot_len cs)" fbs cca frag] assms by (simp_all add: cells_at_def free_of_def)

lemma cells_at_all2:
  "cells_at p u t ptrs cs fbs cca frag \<longleftrightarrow>
     page_space (page_buf p) (page_offset p) t ptrs u (zip ptrs (map slot_len cs)) fbs cca frag \<and>
     list_all2 (\<lambda>s c. slice (page_buf p) s (s + length c) = c) ptrs cs"
  by (auto simp: cells_at_def list_all2_conv_all_nth)

lemma all2_same:
  assumes "list_all2 (\<lambda>s c. slice b s (s + length c) = c) ptrs cs" "same_cells (zip ptrs (map slot_len cs)) b b'"
  shows "list_all2 (\<lambda>s c. slice b' s (s + length c) = c) ptrs cs"
proof (rule list_all2_all_nthI)
  show l: "length ptrs = length cs" using assms(1) by (rule list_all2_lengthD)
  fix i assume i: "i < length ptrs"
  then have "(ptrs ! i, slot_len (cs ! i)) \<in> set (zip ptrs (map slot_len cs))" using l by (auto simp: set_zip)
  then have "slice b' (ptrs ! i) (ptrs ! i + slot_len (cs ! i)) = slice b (ptrs ! i) (ptrs ! i + slot_len (cs ! i))"
    using assms(2) by (force simp: same_cells_def)
  then have "slice b' (ptrs ! i) (ptrs ! i + length (cs ! i)) = slice b (ptrs ! i) (ptrs ! i + length (cs ! i))"
    by (rule slice_shorter) simp
  then show "slice b' (ptrs ! i) (ptrs ! i + length (cs ! i)) = cs ! i" using assms(1) i l by (simp add: list_all2_conv_all_nth)
qed

lemma all2_moved:
  "list_all2 (\<lambda>s c. slice b s (s + length c) = c) ptrs cs \<Longrightarrow> moved b ptrs b' ptrs' (map slot_len cs) \<Longrightarrow>
   list_all2 (\<lambda>s c. slice b' s (s + length c) = c) ptrs' cs"
  unfolding list_all2_conv_all_nth moved_def using slice_shorter [where b' = b' and b = b] slot_len_bounds(2) by (metis nth_map)

text \<open>Entering the pointer of a cell whose bytes are in place.\<close>

lemma insert_pointer_cells:
  assumes ps: "page_space (page_buf p) (page_offset p) t ptrs u ((pc, slot_len c) # zip ptrs (map slot_len cs)) fbs cca frag"
    and cs: "list_all2 (\<lambda>s c. slice (page_buf p) s (s + length c) = c) ptrs cs" "slice (page_buf p) pc (pc + length c) = c"
    and idx: "idx \<le> length ptrs" and room: "page_offset p + header_len t + 2 * length ptrs + 2 \<le> cca"
  shows "\<exists>b' ptrs'. insert_pointer p idx pc = Inr (p\<lparr>page_buf := b'\<rparr>) \<and>
    cells_at (p\<lparr>page_buf := b'\<rparr>) u t ptrs' (take idx cs @ c # drop idx cs) fbs cca frag"
proof -
  let ?po = "page_offset p" and ?Z = "zip ptrs (map slot_len cs)"
  let ?ptrs = "take idx ptrs @ pc # drop idx ptrs" and ?cs = "take idx cs @ c # drop idx cs"
  note d = page_spaceD [OF ps]
  have l: "length ptrs = length cs" using cs(1) by (rule list_all2_lengthD)
  have pc: "pc < 65536" using d(11) [of "(pc, slot_len c)"] by simp
  from insert_pointer_ok [OF d(1) idx pc] room d(5,6,8) obtain b' where
    b': "insert_pointer p idx pc = Inr (p\<lparr>page_buf := b'\<rparr>)" "length b' = length (page_buf p)"
      "header_at b' ?po t ?ptrs (fb_first fbs 0) cca frag"
      "\<forall>j. ?po + header_len t + 2 * length ptrs + 2 \<le> j \<longrightarrow> j < length (page_buf p) \<longrightarrow> b' ! j = page_buf p ! j"
    by auto
  have z: "zip ?ptrs (map slot_len ?cs) = take idx ?Z @ (pc, slot_len c) # drop idx ?Z"
    using idx l by (simp add: zip_append take_zip drop_zip take_map drop_map)
  have "mset (take idx ?Z) + mset (drop idx ?Z) = mset ?Z" by (metis append_take_drop_id mset_append)
  then have ms: "mset (zip ?ptrs (map slot_len ?cs)) = mset ((pc, slot_len c) # ?Z)" unfolding z by simp
  have n: "length ?ptrs = length ptrs + 1" using idx by simp
  have ps': "page_space b' ?po t ?ptrs u (zip ?ptrs (map slot_len ?cs)) fbs cca frag" "same_cells ((pc, slot_len c) # ?Z) (page_buf p) b'"
    by (rule page_space_new_header [OF ps b'(3,2) _ _ ms]; use b'(4) room n in simp)+
  have "list_all2 (\<lambda>s c. slice b' s (s + length c) = c) ptrs cs"
    by (rule all2_same [OF cs(1)]) (use ps'(2) in \<open>simp add: same_cells_def\<close>)
  moreover have "slice b' pc (pc + slot_len c) = slice (page_buf p) pc (pc + slot_len c)" using ps'(2) by (simp add: same_cells_def)
  then have "slice b' pc (pc + length c) = c" using slice_shorter [of b' pc "slot_len c" "page_buf p" pc "length c"] cs(2) by simp
  ultimately have "list_all2 (\<lambda>s c. slice b' s (s + length c) = c) ?ptrs ?cs"
    by (simp add: list_all2_appendI list_all2_takeI list_all2_dropI)
  then show ?thesis using b'(1) ps'(1) by (auto simp: cells_at_all2)
qed

lemma allocate_slot_len: "allocate_cell_space p (length c) u free = allocate_cell_space p (slot_len c) u free"
  by (simp add: allocate_cell_space_def slot_len_def max_def)

lemma insert_ok:
  assumes rep: "page_rep u t p cs" and c: "cell_bytes t u c" and idx: "idx \<le> length cs" and room: "slot_len c + 2 \<le> free_of u t p cs"
    and ov: "overflow_cells p = [] \<or> allow"
  shows "\<exists>b'. insert_into_cell_with p c idx u allow = Inr (p\<lparr>page_buf := b'\<rparr>) \<and>
    page_rep u t (p\<lparr>page_buf := b'\<rparr>) (take idx cs @ c # drop idx cs)"
proof -
  let ?po = "page_offset p" and ?lens = "map slot_len cs"
  obtain ptrs fbs cca frag where ca: "cells_at p u t ptrs cs fbs cca frag" using rep by (auto simp: page_rep_def)
  have u: "257 \<le> u" "\<forall>c \<in> set cs. cell_bytes t u c" using rep by (auto simp: page_rep_def)
  have ps: "page_space (page_buf p) ?po t ptrs u (zip ptrs ?lens) fbs cca frag" "length ptrs = length cs"
    "list_all2 (\<lambda>s c. slice (page_buf p) s (s + length c) = c) ptrs cs"
    using ca by (auto simp: cells_at_all2 dest: list_all2_lengthD)
  note fr = compute_free_space_cells [OF ca]
  from allocate_cell_space_ok [OF ps(1) regions_ok_cells [OF ca u] slot_len_bounds(1) room fr(2)] obtain pc b1 ptrs1 fbs1 cca1 frag1 where
    al: "allocate_cell_space p (slot_len c) u (free_of u t p cs) = Inr (pc, p\<lparr>page_buf := b1\<rparr>)"
      "page_space b1 ?po t ptrs1 u ((pc, slot_len c) # zip ptrs1 ?lens) fbs1 cca1 frag1" "moved (page_buf p) ptrs b1 ptrs1 ?lens"
      "?po + header_len t + 2 * length ptrs + 2 \<le> cca1" "pc < 65536" by blast
  have l1: "length ptrs1 = length ptrs" using al(3) by (simp add: moved_def)
  note wr = write_extent_ok [OF al(2) slot_len_bounds(2)]
  let ?p2 = "p\<lparr>page_buf := put_at b1 pc c\<rparr>"
  have "list_all2 (\<lambda>s x. slice (put_at b1 pc c) s (s + length x) = x) ptrs1 cs"
    by (rule all2_same [OF all2_moved [OF ps(3) al(3)] wr(2)])
  from insert_pointer_cells [of ?p2, unfolded page_update, OF wr(1) this wr(3), of idx] obtain b' ptrs' where
    b': "insert_pointer ?p2 idx pc = Inr (p\<lparr>page_buf := b'\<rparr>)" "cells_at (p\<lparr>page_buf := b'\<rparr>) u t ptrs' (take idx cs @ c # drop idx cs) fbs1 cca1 frag1"
    using idx l1 ps(2) al(4) by auto
  have slot_len_room: "length c + 2 \<le> free_of u t p cs" using room slot_len_bounds(2) [of c] by linarith
  have "pc + length c \<le> length b1" using wr(4) page_spaceD(5) [OF al(2)] by simp
  then have "insert_into_cell_with p c idx u allow = Inr (p\<lparr>page_buf := b'\<rparr>)"
    using header_reads(4) [OF page_spaceD(1) [OF ps(1)]] fr(1) idx ps(2) room ov al(1) wr(4) b'(1) allocate_slot_len [of p c] slot_len_room
    by (auto simp: insert_into_cell_with_def page_writes)
  moreover have "\<forall>x \<in> set (take idx cs @ c # drop idx cs). cell_bytes t u x" using u(2) c by (auto dest: in_set_takeD in_set_dropD)
  ultimately show ?thesis using b'(2) u(1) by (intro exI [of _ b']) (auto simp: page_rep_def)
qed

text \<open>Dropping a cell: freeing its bytes, then removing its pointer.\<close>

lemma remove_pointer_cells:
  assumes ps: "page_space (page_buf p) (page_offset p) t ptrs u (zip (take idx ptrs @ drop (Suc idx) ptrs) (map slot_len cs)) fbs cca frag"
    and cs: "list_all2 (\<lambda>s c. slice (page_buf p) s (s + length c) = c) (take idx ptrs @ drop (Suc idx) ptrs) cs" and idx: "idx < length ptrs"
  shows "\<exists>b'. rbind (shift_pointers_left p idx) (\<lambda>p. rbind (cell_count p) (\<lambda>n. if n = 0 then Inl Panic else write_cell_count p (n - 1))) =
      Inr (p\<lparr>page_buf := b'\<rparr>) \<and> cells_at (p\<lparr>page_buf := b'\<rparr>) u t (take idx ptrs @ drop (Suc idx) ptrs) cs fbs cca frag"
proof -
  let ?ptrs = "take idx ptrs @ drop (Suc idx) ptrs"
  note d = page_spaceD [OF ps]
  have "length ptrs < 65536" using d(4,5,6,8) by linarith
  from remove_pointer_ok [OF d(1) idx this] obtain b' where
    b': "rbind (shift_pointers_left p idx) (\<lambda>p. rbind (cell_count p) (\<lambda>n. if n = 0 then Inl Panic else write_cell_count p (n - 1))) = Inr (p\<lparr>page_buf := b'\<rparr>)"
      "length b' = length (page_buf p)" "header_at b' (page_offset p) t ?ptrs (fb_first fbs 0) cca frag"
      "\<forall>j. page_offset p + header_len t + 2 * length ptrs \<le> j \<longrightarrow> j < length (page_buf p) \<longrightarrow> b' ! j = page_buf p ! j" by blast
  have n: "length ?ptrs \<le> length ptrs" using idx by simp
  have ps': "page_space b' (page_offset p) t ?ptrs u (zip ?ptrs (map slot_len cs)) fbs cca frag" "same_cells (zip ?ptrs (map slot_len cs)) (page_buf p) b'"
    by (rule page_space_new_header [OF ps b'(3,2) _ _ refl]; use b'(4) d(4) n in simp)+
  then show ?thesis using b'(1) all2_same [OF cs ps'(2)] by (auto simp: cells_at_all2)
qed

lemma clear_page_cells:
  assumes ps: "page_space (page_buf p) (page_offset p) t [s] u [] fbs cca frag"
  shows "\<exists>b'. rbind (rbind (write_cell_content_area p u) (\<lambda>p. rbind (write_first_freeblock p 0) (\<lambda>p. write_fragmented_bytes_count p 0)))
      (\<lambda>p. rbind (cell_count p) (\<lambda>n. if n = 0 then Inl Panic else write_cell_count p (n - 1))) =
      Inr (p\<lparr>page_buf := b'\<rparr>) \<and> cells_at (p\<lparr>page_buf := b'\<rparr>) u t [] [] [] u 0"
proof -
  let ?po = "page_offset p"
  note d = page_spaceD [OF ps]
  have f: "fits u [] [] u 0" by (simp add: fits_def)
  from reset_header_ok [OF d(1) f _ d(5,6)] d(4,8) obtain b1 where
    b1: "rbind (write_cell_content_area p u) (\<lambda>p. rbind (write_first_freeblock p 0) (\<lambda>p. write_fragmented_bytes_count p 0)) = Inr (p\<lparr>page_buf := b1\<rparr>)"
      "page_space b1 ?po t [s] u [] [] u 0" by auto
  note d1 = page_spaceD [OF b1(2)]
  let ?b = "put16 b1 (?po + 3) 0"
  have hl: "8 \<le> header_len t" "?po + 8 \<le> length b1" using header_len_bounds(1) [of t] d1(5,7) by auto
  have low: "?b ! j = b1 ! j" if "j < ?po + 3 \<or> ?po + 5 \<le> j \<and> j < ?po + header_len t" for j
    using that hl d1(4,5) by (auto simp: nth_put_at)
  have zero: "u16_at ?b (?po + 3) = 0" using u16_at_put_same [of "?po + 3" b1 0] hl by simp
  have "header_at ?b ?po t [] (fb_first [] 0) u 0"
    by (rule header_new_ptrs [OF d1(1), where m = 0]) (use hl d1(4,5) low zero in simp_all)
  then have "page_space ?b ?po t [] u [] [] u 0" using d1(4,5,6) f hl by (simp add: page_space_def)
  moreover have "cell_count (p\<lparr>page_buf := b1\<rparr>) = Inr 1" using header_reads(4) [of "p\<lparr>page_buf := b1\<rparr>", unfolded page_update, OF d1(1)] by simp
  moreover have "write_cell_count (p\<lparr>page_buf := b1\<rparr>) 0 = Inr (p\<lparr>page_buf := ?b\<rparr>)"
    using header_write_eqs(4) [of "p\<lparr>page_buf := b1\<rparr>", unfolded page_update, OF d1(1)] .
  ultimately show ?thesis using b1(1) by (intro exI [of _ ?b]) (simp add: cells_at_def)
qed

lemma drop_ok:
  assumes rep: "page_rep u t p cs" and idx: "idx < length cs"
  shows "\<exists>b'. drop_cell p idx u = Inr (p\<lparr>page_buf := b'\<rparr>) \<and> page_rep u t (p\<lparr>page_buf := b'\<rparr>) (take idx cs @ drop (Suc idx) cs)"
proof -
  obtain ptrs fbs cca frag where ca: "cells_at p u t ptrs cs fbs cca frag" using rep by (auto simp: page_rep_def)
  have u: "257 \<le> u" "\<forall>c \<in> set cs. cell_bytes t u c" using rep by (auto simp: page_rep_def)
  let ?po = "page_offset p" and ?ptrs = "take idx ptrs @ drop (Suc idx) ptrs" and ?cs = "take idx cs @ drop (Suc idx) cs"
  have ps: "page_space (page_buf p) ?po t ptrs u (zip ptrs (map slot_len cs)) fbs cca frag" "length ptrs = length cs"
    "list_all2 (\<lambda>s c. slice (page_buf p) s (s + length c) = c) ptrs cs"
    using ca by (auto simp: cells_at_all2 dest: list_all2_lengthD)
  have reg: "cell_get_raw_region p idx u = Inr (ptrs ! idx, slot_len (cs ! idx))"
    by (rule cell_at(1) [OF ca u(1) _ idx]) (use u(2) idx in simp)
  let ?Z = "zip ?ptrs (map slot_len ?cs)"
  have z: "zip ptrs (map slot_len cs) = take idx (zip ptrs (map slot_len cs)) @ (ptrs ! idx, slot_len (cs ! idx)) # drop (Suc idx) (zip ptrs (map slot_len cs))"
    using id_take_nth_drop [of idx "zip ptrs (map slot_len cs)"] idx ps(2) by simp
  have "?Z = take idx (zip ptrs (map slot_len cs)) @ drop (Suc idx) (zip ptrs (map slot_len cs))"
    using idx ps(2) by (simp add: zip_append take_zip drop_zip take_map drop_map)
  then have ms: "mset ((ptrs ! idx, slot_len (cs ! idx)) # ?Z) = mset (zip ptrs (map slot_len cs))" by (subst z) simp
  have "page_space (page_buf p) ?po t ptrs u ((ptrs ! idx, slot_len (cs ! idx)) # ?Z) fbs cca frag"
    using ps(1) fits_perm [OF ms] by (simp add: page_space_def)
  from free_cell_range_ok [OF this] obtain b1 fbs1 cca1 frag1 where
    b1: "free_cell_range p (ptrs ! idx) (slot_len (cs ! idx)) u = Inr (p\<lparr>page_buf := b1\<rparr>)"
      "page_space b1 ?po t ptrs u ?Z fbs1 cca1 frag1" "same_cells ?Z (page_buf p) b1" by blast
  let ?p1 = "p\<lparr>page_buf := b1\<rparr>"
  have n: "cell_count ?p1 = Inr (length cs)"
    using header_reads(4) [of ?p1, unfolded page_update, OF page_spaceD(1) [OF b1(2)]] ps(2) by simp
  have all2: "list_all2 (\<lambda>s c. slice b1 s (s + length c) = c) ?ptrs ?cs"
    by (rule all2_same [OF _ b1(3)]) (use ps(3) in \<open>simp add: list_all2_appendI list_all2_takeI list_all2_dropI\<close>)
  have cb: "\<forall>x \<in> set ?cs. cell_bytes t u x" using u(2) by (auto dest: in_set_takeD in_set_dropD)
  have "\<exists>b' ptrs' fbs' cca' frag'. drop_cell p idx u = Inr (p\<lparr>page_buf := b'\<rparr>) \<and> cells_at (p\<lparr>page_buf := b'\<rparr>) u t ptrs' ?cs fbs' cca' frag'"
  proof (cases "1 < length cs")
    case True
    from remove_pointer_cells [of ?p1, unfolded page_update, OF b1(2) all2] idx ps(2) obtain b' where
      "rbind (shift_pointers_left ?p1 idx) (\<lambda>p. rbind (cell_count p) (\<lambda>n. if n = 0 then Inl Panic else write_cell_count p (n - 1))) = Inr (p\<lparr>page_buf := b'\<rparr>)"
      "cells_at (p\<lparr>page_buf := b'\<rparr>) u t ?ptrs ?cs fbs1 cca1 frag1" by auto
    then show ?thesis using True reg b1(1) n unfolding drop_cell_def by (intro exI [of _ b']) auto
  next
    case False
    then obtain c where c: "cs = [c]" "idx = 0" using idx by (cases cs) auto
    then obtain s where s: "ptrs = [s]" using ps(2) by (cases ptrs) auto
    have "page_space b1 ?po t [s] u [] fbs1 cca1 frag1" using b1(2) c s by simp
    from clear_page_cells [of ?p1, unfolded page_update, OF this] obtain b' where
      "rbind (rbind (write_cell_content_area ?p1 u) (\<lambda>p. rbind (write_first_freeblock p 0) (\<lambda>p. write_fragmented_bytes_count p 0)))
        (\<lambda>p. rbind (cell_count p) (\<lambda>n. if n = 0 then Inl Panic else write_cell_count p (n - 1))) = Inr (p\<lparr>page_buf := b'\<rparr>)"
      "cells_at (p\<lparr>page_buf := b'\<rparr>) u t [] [] [] u 0" by auto
    then show ?thesis using False reg b1(1) n c unfolding drop_cell_def by (intro exI [of _ b']) auto
  qed
  then show ?thesis using cb u(1) by (auto simp: page_rep_def)
qed

text \<open>A cell without room is queued, and the bytes of the page stay.\<close>

lemma insert_overflow_ok:
  assumes rep: "page_rep u t p cs" and idx: "idx \<le> length cs + length (overflow_cells p)"
    and full: "free_of u t p cs < length c + 2 \<or> overflow_cells p \<noteq> []"
  shows "insert_into_cell p c idx u = Inr (p\<lparr>overflow_cells := overflow_cells p @ [(idx, c)]\<rparr>)"
proof -
  obtain ptrs fbs cca frag where ca: "cells_at p u t ptrs cs fbs cca frag" using rep by (auto simp: page_rep_def)
  have "cell_count p = Inr (length cs)" using ca header_reads(4) [OF page_spaceD(1)] by (fastforce simp: cells_at_def)
  then show ?thesis using compute_free_space_cells(1) [OF ca] idx full
    by (auto simp: insert_into_cell_def insert_into_cell_with_def Let_def)
qed

text \<open>
  The room test of an insertion counts the bytes of the cell, the allocation at least four. Between the two a short cell is
  accepted on a page that has no room for it: the content area then begins inside the pointer array.
\<close>

lemma header_put_pointers:
  assumes h: "header_at b po t ptrs ff cca frag" and i: "po + header_len t \<le> i" "i + length xs \<le> length b"
  shows "\<exists>ptrs'. length ptrs' = length ptrs \<and> header_at (put_at b i xs) po t ptrs' ff cca frag"
proof -
  let ?b = "put_at b i xs" and ?ptrs = "map (\<lambda>j. u16_at (put_at b i xs) (po + header_len t + 2 * j)) [0..<length ptrs]"
  have "header_at ?b po t ?ptrs ff cca frag"
    using h i header_len_bounds(1) [of t] by (auto simp: header_at_def nth_put_at u16_at_put_other)
  then show ?thesis by (intro exI [of _ ?ptrs]) simp
qed

lemma allocate_cell_space_gap:
  assumes ca: "cells_at p u t ptrs cs fbs cca frag" and u: "257 \<le> u" "\<forall>c \<in> set cs. cell_bytes t u c" and free: "free_of u t p cs < 6"
  shows "\<exists>b1 ptrs1 cca1. allocate_cell_space p 4 u (free_of u t p cs) = Inr (cca1 - 4, p\<lparr>page_buf := put16 b1 (page_offset p + 5) (cca1 - 4)\<rparr>) \<and>
    page_space b1 (page_offset p) t ptrs1 u (zip ptrs1 (map slot_len cs)) [] cca1 0 \<and> length ptrs1 = length cs \<and>
    cca1 = page_offset p + header_len t + 2 * length cs + free_of u t p cs"
proof -
  let ?lens = "map slot_len cs" and ?lo = "page_offset p + header_len t + 2 * length cs" and ?free = "free_of u t p cs"
  have ps: "page_space (page_buf p) (page_offset p) t ptrs u (zip ptrs ?lens) fbs cca frag" "length ptrs = length cs"
    using ca by (simp_all add: cells_at_def)
  note d = page_spaceD [OF ps(1)]
  note hr = header_reads(3,5,8) [OF d(1)]
  note fr = compute_free_space_cells(2) [OF ca]
  have tot: "total_len (zip ptrs ?lens) + total_len fbs + frag = u - cca" "cca \<le> u" using d(3) by (simp_all add: fits_def)
  have none: "fb_first fbs 0 = 0 \<or> \<not> ?lo + 2 \<le> cca"
  proof (cases fbs)
    case (Cons f fs)
    then have "4 \<le> total_len fbs" using d(10) [of f] by simp
    then show ?thesis using tot fr free d(4) ps(2) by auto
  qed simp
  have full: "?lo + 2 + 4 > cca" using tot fr free d(4) ps(2) by auto
  from defragment_page_ok [OF ps(1) regions_ok_cells [OF ca u], of "min 4 (int ?free - int (2 + 4))"] obtain b1 ptrs1 cca1 frag1 where
    df: "defragment_page p u (min 4 (int ?free - int (2 + 4))) = Inr (p\<lparr>page_buf := b1\<rparr>)"
      "page_space b1 (page_offset p) t ptrs1 u (zip ptrs1 ?lens) [] cca1 frag1" "moved (page_buf p) ptrs b1 ptrs1 ?lens"
      "frag1 = 0 \<or> int frag1 \<le> min 4 (int ?free - int (2 + 4))" by blast
  have z: "frag1 = 0" and l1: "length ptrs1 = length cs" using df(3,4) free ps(2) by (auto simp: moved_def)
  note d1 = page_spaceD [OF df(2)]
  have "total_len (zip ptrs1 ?lens) = total_len (zip ptrs ?lens)" using l1 ps(2) by simp
  then have c1: "cca1 = ?lo + ?free" using d1(3,4,8) fr l1 ps(2) z by (auto simp: fits_def)
  have c: "4 \<le> cca1" "cca1 - 4 < 65536" "cca1 \<le> u" using d1(5,6,7,8) by auto
  note w = header_write_eqs(2) [of "p\<lparr>page_buf := b1\<rparr>", unfolded page_update, OF d1(1), of "cca1 - 4"]
    header_reads(5) [of "p\<lparr>page_buf := b1\<rparr>", unfolded page_update, OF d1(1)]
  have "allocate_cell_space p 4 u ?free = Inr (cca1 - 4, p\<lparr>page_buf := put16 b1 (page_offset p + 5) (cca1 - 4)\<rparr>)"
    using none full hr ps(2) df(1) w c by (auto simp: allocate_cell_space_def Let_def)
  then show ?thesis using df(2) z l1 c1 by blast
qed

lemma insert_gap:
  assumes rep: "page_rep u t p cs" and idx: "idx \<le> length cs" and ov: "overflow_cells p = []"
    and gap: "length c + 2 \<le> free_of u t p cs" "free_of u t p cs < slot_len c + 2"
  shows "\<exists>b'. insert_into_cell p c idx u = Inr (p\<lparr>page_buf := b'\<rparr>) \<and> compute_free_space (p\<lparr>page_buf := b'\<rparr>) u = Inl Corrupt"
proof -
  let ?po = "page_offset p" and ?free = "free_of u t p cs" and ?lo = "page_offset p + header_len t + 2 * length cs"
  have c4: "slot_len c = 4" "length c < 4" "?free < 6" using gap by (auto simp: slot_len_def max_def split: if_splits)
  have u: "257 \<le> u" "\<forall>c \<in> set cs. cell_bytes t u c" using rep by (auto simp: page_rep_def)
  obtain ptrs fbs cca frag where ca: "cells_at p u t ptrs cs fbs cca frag" using rep by (auto simp: page_rep_def)
  have n: "cell_count p = Inr (length cs)" using ca header_reads(4) [OF page_spaceD(1)] by (fastforce simp: cells_at_def)
  from allocate_cell_space_gap [OF ca u c4(3)] obtain b1 ptrs1 cca1 where
    al: "allocate_cell_space p 4 u ?free = Inr (cca1 - 4, p\<lparr>page_buf := put16 b1 (?po + 5) (cca1 - 4)\<rparr>)"
      "page_space b1 ?po t ptrs1 u (zip ptrs1 (map slot_len cs)) [] cca1 0" "length ptrs1 = length cs" "cca1 = ?lo + ?free" by blast
  note d = page_spaceD [OF al(2)]
  have ne: "2 \<le> 2 * length cs"
    using c4(3) u(1) header_len_bounds [of t] by (cases cs) (auto simp: free_of_def page_offset_def split: if_splits)
  have pc: "?po + header_len t \<le> cca1 - 4" "cca1 - 4 + length c \<le> u" "0 < cca1 - 4" "cca1 - 4 < 65536" "cca1 - 4 < ?lo + 2"
    using ne al(4) gap(1) c4(2,3) d(5,6,7,8) header_len_bounds(1) [of t] by linarith+
  let ?b2 = "put16 b1 (?po + 5) (cca1 - 4)"
  have h2: "header_at ?b2 ?po t ptrs1 0 (cca1 - 4) 0" using header_put_cca [OF d(1) pc(3)] pc(4) by simp
  have len: "length ?b2 = length b1" using d(1) by (simp add: header_at_def)
  then have "cca1 - 4 + length c \<le> length ?b2" using pc(2) d(5) by simp
  from header_put_pointers [OF h2 pc(1) this] obtain ptrs3 where
    h3: "length ptrs3 = length cs" "header_at (put_at ?b2 (cca1 - 4) c) ?po t ptrs3 0 (cca1 - 4) 0" using al(3) by auto
  let ?p3 = "p\<lparr>page_buf := put_at ?b2 (cca1 - 4) c\<rparr>"
  have l3: "length (put_at ?b2 (cca1 - 4) c) = length b1" using len pc(2) d(5) by simp
  from insert_pointer_ok [of ?p3, unfolded page_update, OF h3(2) _ pc(4), of idx] obtain b' where
    b': "insert_pointer ?p3 idx (cca1 - 4) = Inr (p\<lparr>page_buf := b'\<rparr>)"
      "header_at b' ?po t (take idx ptrs3 @ (cca1 - 4) # drop idx ptrs3) 0 (cca1 - 4) 0"
    using idx h3(1) l3 d(4,5,6,8) al(3,4) gap(1) by auto
  have "insert_into_cell p c idx u = Inr (p\<lparr>page_buf := b'\<rparr>)"
    using n compute_free_space_cells(1) [OF ca] idx ov gap(1) al(1) pc(2) b'(1) allocate_slot_len [of p c] c4(1) len d(5)
    by (simp add: insert_into_cell_def insert_into_cell_with_def page_writes)
  moreover note hr = header_reads(3,5,6,8) [of "p\<lparr>page_buf := b'\<rparr>", unfolded page_update, OF b'(2)]
  have "compute_free_space (p\<lparr>page_buf := b'\<rparr>) u = Inl Corrupt"
    using hr h3(1) idx pc(5) by (simp add: compute_free_space_def Let_def)
  ultimately show ?thesis by blast
qed

lemma defragment_ok:
  assumes rep: "page_rep u t p cs"
  shows "\<exists>b' frag. defragment_page p u m = Inr (p\<lparr>page_buf := b'\<rparr>) \<and> page_rep u t (p\<lparr>page_buf := b'\<rparr>) cs \<and>
    first_freeblock (p\<lparr>page_buf := b'\<rparr>) = Inr 0 \<and> num_frag_free_bytes (p\<lparr>page_buf := b'\<rparr>) = Inr (of_nat frag) \<and> frag < 256 \<and> (frag = 0 \<or> int frag \<le> m)"
proof -
  obtain ptrs fbs cca frag where ca: "cells_at p u t ptrs cs fbs cca frag" using rep by (auto simp: page_rep_def)
  have u: "257 \<le> u" "\<forall>c \<in> set cs. cell_bytes t u c" using rep by (auto simp: page_rep_def)
  note ca2 = ca [unfolded cells_at_all2]
  from defragment_page_ok [OF conjunct1 [OF ca2] regions_ok_cells [OF ca u]] obtain b' ptrs' cca' frag' where
    b': "defragment_page p u m = Inr (p\<lparr>page_buf := b'\<rparr>)" "page_space b' (page_offset p) t ptrs' u (zip ptrs' (map slot_len cs)) [] cca' frag'"
      "moved (page_buf p) ptrs b' ptrs' (map slot_len cs)" "frag' = 0 \<or> int frag' \<le> m" by blast
  note hr = header_reads(3,6) [of "p\<lparr>page_buf := b'\<rparr>", unfolded page_update, OF page_spaceD(1) [OF b'(2)]]
  have "cells_at (p\<lparr>page_buf := b'\<rparr>) u t ptrs' cs [] cca' frag'"
    using b'(2) all2_moved [OF conjunct2 [OF ca2] b'(3)] by (simp add: cells_at_all2)
  then have "page_rep u t (p\<lparr>page_buf := b'\<rparr>) cs" using u by (auto simp: page_rep_def)
  then show ?thesis using b'(1,4) hr page_spaceD(9) [OF b'(2)] by (intro exI [of _ b'] exI [of _ frag']) simp
qed

definition cell_view :: "page_type \<Rightarrow> usize \<Rightarrow> bytes \<Rightarrow> btree_cell res" where
  "cell_view t u c = read_btree_cell c \<lparr>page_id = 0, page_buf = [page_type_to_u8 t], overflow_cells = []\<rparr> 0 u"

lemma read_btree_cell_type: "page_type_of p = Inr t \<Longrightarrow> read_btree_cell c p s u = read_btree_cell c \<lparr>page_id = 0, page_buf = [page_type_to_u8 t], overflow_cells = []\<rparr> s u"
  by (simp add: read_btree_cell_def page_type_of_def [of "\<lparr>page_id = 0, page_buf = _, overflow_cells = _\<rparr>"] read_u8_def page_offset_def page_type_u8)

lemma cell_get_ok:
  assumes rep: "page_rep u t p cs" and i: "i < length cs"
  shows "cell_get p i u = cell_view t u (cs ! i)" "\<exists>c. cell_view t u (cs ! i) = Inr c"
proof -
  obtain ptrs fbs cca frag where ca: "cells_at p u t ptrs cs fbs cca frag" using rep by (auto simp: page_rep_def)
  have u: "257 \<le> u" "cell_bytes t u (cs ! i)" using rep i by (auto simp: page_rep_def)
  have "page_space (page_buf p) (page_offset p) t ptrs u (zip ptrs (map slot_len cs)) fbs cca frag" "length ptrs = length cs"
    and sl: "slice (page_buf p) (ptrs ! i) (ptrs ! i + length (cs ! i)) = cs ! i"
    using ca i by (simp_all add: cells_at_def)
  note hr = header_reads [OF page_spaceD(1) [OF this(1)]]
  from cell_at(2) [OF ca u i] obtain l where
    l: "cell_raw_len t u (drop (ptrs ! i) (page_buf p)) = Inr l" "l \<le> length (cs ! i)" "ptrs ! i + length (cs ! i) \<le> length (page_buf p)" by blast
  have "take l (slice (page_buf p) (ptrs ! i) (ptrs ! i + length (cs ! i))) = slice (page_buf p) (ptrs ! i) (ptrs ! i + l)"
    using l(2) by (simp add: slice_def min_def)
  then have e: "slice (cs ! i) 0 l = slice (page_buf p) (ptrs ! i) (ptrs ! i + l)" unfolding sl by (simp add: slice_def)
  then have "cell_raw_len t u (drop 0 (cs ! i)) = Inr l" using cell_raw_len_prefix [OF l(1), of "cs ! i"] by (simp add: slice_def)
  note rd = read_btree_cell_local [OF u(1) hr(1) this] and on = read_btree_cell_local [OF u(1) hr(1) l(1)]
  have "read_btree_cell (page_buf p) p (ptrs ! i) u = cell_view t u (cs ! i)"
    using rd(1) on(1) l(2,3) e read_btree_cell_type [OF hr(1)] by (simp add: cell_view_def)
  then show "cell_get p i u = cell_view t u (cs ! i)" using hr(4) hr(9) [of i] i \<open>length ptrs = length cs\<close> by (simp add: cell_get_def)
  show "\<exists>c. cell_view t u (cs ! i) = Inr c"
    using rd(2) l(2) read_btree_cell_type [OF hr(1)] by (simp add: cell_view_def)
qed

lemma u16_at_put_zero: "i + 2 \<le> length b \<Longrightarrow> u16_at (put_at b i (be_bytes 2 (0 :: u16))) i = 0"
  using u16_at_put_same [of i b 0] by simp

definition init_bytes :: "bytes \<Rightarrow> usize \<Rightarrow> page_type \<Rightarrow> usize \<Rightarrow> bytes" where
  "init_bytes b po t u = put_at (put_at (put16 (put16 (put16 (put_at b po [page_type_to_u8 t]) (po + 1) 0) (po + 3) 0) (po + 5) u) (po + 7) [0])
     (po + 8) (be_bytes 4 (of_nat 0 :: u32))"

lemma init_bytes_fields:
  assumes "po + 12 \<le> length b"
  shows "length (init_bytes b po t u) = length b" "init_bytes b po t u ! po = page_type_to_u8 t" "init_bytes b po t u ! (po + 7) = 0"
    "u16_at (init_bytes b po t u) (po + 1) = 0" "u16_at (init_bytes b po t u) (po + 3) = 0" "u16_at (init_bytes b po t u) (po + 5) = u mod 65536"
  using assms by (simp_all add: init_bytes_def nth_put_at u16_at_put_same u16_at_put_zero u16_at_put_other)

lemma init_ok:
  assumes "257 \<le> u" "u \<le> length (page_buf p)" "length (page_buf p) \<le> 65536"
  shows "\<exists>b'. btree_init_page p t u = Inr (p\<lparr>page_buf := b', overflow_cells := []\<rparr>) \<and> page_rep u t (p\<lparr>page_buf := b', overflow_cells := []\<rparr>) []"
proof -
  let ?po = "page_offset p" and ?b = "page_buf p" and ?b' = "init_bytes (page_buf p) (page_offset p) t u"
  have po: "?po + 12 \<le> length ?b" "?po + 12 \<le> u" using assms by (auto simp: page_offset_def)
  have eq: "btree_init_page p t u = Inr (p\<lparr>page_buf := ?b', overflow_cells := []\<rparr>)"
    using po assms by (simp add: btree_init_page_def init_bytes_def write_page_type_def write_first_freeblock_def write_cell_count_def write_cell_content_area_def
      write_fragmented_bytes_count_def write_rightmost_ptr_def write_u8_def page_write_u16_def write_u16_no_offset_def page_write_u32_def page_writes page_offset_def)
  have "page_space ?b' ?po t [] u [] [] u 0"
    using po assms header_len_bounds [of t] init_bytes_fields [OF po(1)] by (simp add: page_space_def header_at_def fits_def)
  then have "cells_at (p\<lparr>page_buf := ?b', overflow_cells := []\<rparr>) u t [] [] [] u 0" by (simp add: cells_at_def page_offset_def)
  then have "page_rep u t (p\<lparr>page_buf := ?b', overflow_cells := []\<rparr>) []"
    unfolding page_rep_def using assms(1) by (intro conjI exI) simp_all
  with eq show ?thesis by (intro exI [of _ ?b'] conjI)
qed

section \<open>A page as a list of cells\<close>

text \<open>
  The abstract page is the list of its cells in pointer order. An insertion is defined when the cell and
  its pointer fit into the room the other cells leave, a drop when the cell exists.
\<close>

datatype slot_op = InsertSlot usize bytes | DropSlot usize | DefragmentSlots

fun page_step :: "usize \<Rightarrow> slot_op \<Rightarrow> page_inner \<Rightarrow> page_inner res" where
  "page_step u (InsertSlot i c) p = insert_into_cell p c i u"
| "page_step u (DropSlot i) p = drop_cell p i u"
| "page_step u DefragmentSlots p = defragment_page_full p u"

definition slot_capacity :: "usize \<Rightarrow> page_type \<Rightarrow> usize \<Rightarrow> usize" where
  "slot_capacity u t pid = u - ((if pid = 1 then 100 else 0) + header_len t)"

definition slots_size :: "bytes list \<Rightarrow> nat" where
  "slots_size cs = sum_list (map slot_len cs) + 2 * length cs"

fun list_step :: "usize \<Rightarrow> page_type \<Rightarrow> usize \<Rightarrow> slot_op \<Rightarrow> bytes list \<Rightarrow> bytes list option" where
  "list_step u t pid (InsertSlot i c) cs =
     (if i \<le> length cs \<and> cell_bytes t u c \<and> slots_size cs + slot_len c + 2 \<le> slot_capacity u t pid
      then Some (take i cs @ c # drop i cs) else None)"
| "list_step u t pid (DropSlot i) cs = (if i < length cs then Some (take i cs @ drop (Suc i) cs) else None)"
| "list_step u t pid DefragmentSlots cs = Some cs"

definition slots :: "usize \<Rightarrow> page_type \<Rightarrow> usize \<Rightarrow> page_inner \<Rightarrow> bytes list \<Rightarrow> bool" where
  "slots u t pid p cs \<longleftrightarrow> page_rep u t p cs \<and> page_id p = pid \<and> overflow_cells p = []"

fun cell_peek :: "usize \<Rightarrow> page_type \<Rightarrow> usize \<Rightarrow> bytes list \<Rightarrow> btree_cell option" where
  "cell_peek u t i cs = (if i < length cs then (case cell_view t u (cs ! i) of Inr c \<Rightarrow> Some c | Inl _ \<Rightarrow> None) else None)"

lemma free_of_capacity: "page_id p = pid \<Longrightarrow> free_of u t p cs = slot_capacity u t pid - slots_size cs"
  by (simp add: free_of_def slot_capacity_def slots_size_def page_offset_def)

lemma slots_fit:
  assumes "slots u t pid p cs"
  shows "slots_size cs \<le> slot_capacity u t pid"
proof -
  obtain ptrs fbs cca frag where "cells_at p u t ptrs cs fbs cca frag" using assms by (auto simp: page_rep_def slots_def)
  then have ps: "page_space (page_buf p) (page_offset p) t ptrs u (zip ptrs (map slot_len cs)) fbs cca frag" "length ptrs = length cs"
    by (simp_all add: cells_at_def)
  have "total_len (zip ptrs (map slot_len cs)) \<le> u - cca" using page_spaceD(3) [OF ps(1)] by (simp add: fits_def)
  then show ?thesis using page_spaceD(4,8) [OF ps(1)] ps(2) assms by (simp add: slots_size_def slot_capacity_def slots_def page_offset_def split: if_splits)
qed

lemma page_step_ok:
  assumes "slots u t pid p cs" "list_step u t pid op cs = Some cs'"
  shows "\<exists>p'. page_step u op p = Inr p' \<and> slots u t pid p' cs'"
proof (cases op)
  case (InsertSlot i c)
  then have i: "i \<le> length cs" "cell_bytes t u c" "slots_size cs + slot_len c + 2 \<le> slot_capacity u t pid" and cs': "cs' = take i cs @ c # drop i cs"
    using assms(2) by (auto split: if_splits)
  have "slot_len c + 2 \<le> free_of u t p cs" using assms(1) i(3) free_of_capacity [of p pid] by (simp add: slots_def)
  from insert_ok [OF _ i(2,1) this, of False] assms(1) cs' InsertSlot show ?thesis by (auto simp: slots_def insert_into_cell_def)
next
  case (DropSlot i)
  then show ?thesis using assms drop_ok [of u t p cs i] by (auto simp: slots_def split: if_splits)
next
  case DefragmentSlots
  then show ?thesis using assms defragment_ok [of u t p cs "-1"] by (auto simp: slots_def defragment_page_full_def)
qed

interpretation page_slots:
  observed_refinement "slots u t pid" "page_step u" "list_step u t pid" "\<lambda>i p. cell_get p i u" "cell_peek u t" for u t pid
proof (unfold_locales, goal_cases)
  case (1 p cs op cs')
  then show ?case by (rule page_step_ok)
next
  case (2 p cs i v)
  then show ?case using cell_get_ok(1) [of u t p cs i] by (auto simp: slots_def split: if_splits sum.splits)
qed

lemma slots_observe:
  assumes "slots u t pid p cs"
  shows "compute_free_space p u = Inr (slot_capacity u t pid - slots_size cs)" "cell_count p = Inr (length cs)"
    "i < length cs \<Longrightarrow> cell_peek u t i cs = Some c \<longleftrightarrow> cell_get p i u = Inr c"
proof -
  obtain ptrs fbs cca frag where ca: "cells_at p u t ptrs cs fbs cca frag" using assms by (auto simp: page_rep_def slots_def)
  show "cell_count p = Inr (length cs)" using ca header_reads(4) [OF page_spaceD(1)] by (fastforce simp: cells_at_def)
  show "compute_free_space p u = Inr (slot_capacity u t pid - slots_size cs)"
    using compute_free_space_cells(1) [OF ca] assms free_of_capacity [of p pid] by (simp add: slots_def)
  show "cell_peek u t i cs = Some c \<longleftrightarrow> cell_get p i u = Inr c" if "i < length cs"
    using cell_get_ok [of u t p cs i] assms that by (auto simp: slots_def split: sum.splits)
qed

text \<open>The three outcomes of an insertion.\<close>

lemma insert_outcome:
  assumes "slots u t pid p cs" "cell_bytes t u c" "idx \<le> length cs"
  shows "if slot_len c + 2 \<le> slot_capacity u t pid - slots_size cs
    then \<exists>p'. insert_into_cell p c idx u = Inr p' \<and> slots u t pid p' (take idx cs @ c # drop idx cs)
    else if length c + 2 \<le> slot_capacity u t pid - slots_size cs
    then \<exists>p'. insert_into_cell p c idx u = Inr p' \<and> overflow_cells p' = [] \<and> compute_free_space p' u = Inl Corrupt
    else insert_into_cell p c idx u = Inr (p\<lparr>overflow_cells := [(idx, c)]\<rparr>)"
proof -
  have rep: "page_rep u t p cs" "overflow_cells p = []" "page_id p = pid" using assms(1) by (simp_all add: slots_def)
  note free = free_of_capacity [OF rep(3), of u t cs, symmetric]
  consider "slot_len c + 2 \<le> free_of u t p cs" | "length c + 2 \<le> free_of u t p cs" "\<not> slot_len c + 2 \<le> free_of u t p cs"
    | "\<not> length c + 2 \<le> free_of u t p cs" "\<not> slot_len c + 2 \<le> free_of u t p cs" by linarith
  then show ?thesis
  proof cases
    case 1
    then have "slots_size cs + slot_len c + 2 \<le> slot_capacity u t pid" using free by simp
    then show ?thesis using 1 page_step_ok [OF assms(1), of "InsertSlot idx c"] assms(2,3) unfolding free by simp
  next
    case 2
    then show ?thesis using insert_gap [OF rep(1) assms(3) rep(2), of c] rep(2) unfolding free by auto
  next
    case 3
    then show ?thesis using insert_overflow_ok [OF rep(1), of idx c] assms(3) rep(2) unfolding free by simp
  qed
qed

section \<open>Properties\<close>

text \<open>C21. A freshly initialised page under any sequence of insertions, drops and defragmentations of well-formed cells, padded to four bytes or not, that stays
  within the capacity (a cell counts with at least four bytes, and two for its pointer) behaves as the list of its cells: no operation fails, the page counts the cells of
  the list, its free space is what they leave, and reading a cell returns the cell of the list,
  wherever defragmentation has moved its bytes.\<close>

theorem page_operations_refine:
  assumes "257 \<le> u" "u \<le> length (page_buf p)" "length (page_buf p) \<le> 65536"
    and run: "opt_run (list_step u t (page_id p)) ops [] = Some cs"
  shows "\<exists>p0 p'. btree_init_page p t u = Inr p0 \<and> res_run (page_step u) ops p0 = Inr p' \<and>
    cell_count p' = Inr (length cs) \<and> compute_free_space p' u = Inr (slot_capacity u t (page_id p) - slots_size cs) \<and>
    (\<forall>i < length cs. cell_get p' i u = cell_view t u (cs ! i))"
proof -
  from init_ok [OF assms(1-3), of t] obtain p0 where p0: "btree_init_page p t u = Inr p0" "slots u t (page_id p) p0 []"
    by (auto simp: slots_def)
  from page_slots.run_ok [OF p0(2) run] obtain p' where p': "res_run (page_step u) ops p0 = Inr p'" "slots u t (page_id p) p' cs"
    by blast
  then have "\<forall>i < length cs. cell_get p' i u = cell_view t u (cs ! i)" using cell_get_ok(1) by (simp add: slots_def)
  then show ?thesis using p0(1) p' slots_observe(1,2) [OF p'(2)] by blast
qed

definition blank_page :: page_inner where
  "blank_page = \<lparr>page_id = 2, page_buf = replicate 512 0, overflow_cells = []\<rparr>"

definition cell_ops :: "slot_op list" where
  "cell_ops = [InsertSlot 0 [2, 5, 0x61, 0x62], InsertSlot 0 [3, 1, 0x61, 0x62, 0x63], DropSlot 1, InsertSlot 1 [2, 9, 0x63, 0x64], DefragmentSlots]"

lemma varint_examples:
  "varint_at [2, 5, 0x61, 0x62] 0 = Inr (2, 1)" "varint_at [2, 5, 0x61, 0x62] (Suc 0) = Inr (5, 1)" "varint_at [3, 1, 0x61, 0x62, 0x63] 0 = Inr (3, 1)"
  "varint_at [3, 1, 0x61, 0x62, 0x63] (Suc 0) = Inr (1, 1)" "varint_at [2, 9, 0x63, 0x64] 0 = Inr (2, 1)" "varint_at [2, 9, 0x63, 0x64] (Suc 0) = Inr (9, 1)"
  by code_simp+

lemma cell_bytes_examples:
  "cell_bytes TableLeaf 512 [2, 5, 0x61, 0x62]" "cell_bytes TableLeaf 512 [3, 1, 0x61, 0x62, 0x63]" "cell_bytes TableLeaf 512 [2, 9, 0x63, 0x64]"
  by (simp_all add: cell_bytes_def cell_raw_len_def varint_examples local_size_def payload_overflows_def)

lemma cell_ops_run: "opt_run (list_step 512 TableLeaf 2) cell_ops [] = Some [[3, 1, 0x61, 0x62, 0x63], [2, 9, 0x63, 0x64]]"
  by (simp add: cell_ops_def cell_bytes_examples slots_size_def slot_len_def slot_capacity_def header_len_def)

lemma cell_view_example: "cell_view TableLeaf 512 [2, 9, 0x63, 0x64] = Inr (TableLeafCell 9 [0x63, 0x64] 2 None)"
  by (simp add: cell_view_def read_btree_cell_def page_type_of_def read_u8_def page_offset_def page_type_try_from_def varint_examples
    payload_at_def read_payload_def payload_overflows_def slice_or_corrupt_def slice_def Let_def)

theorem page_operations_refine_witness:
  "\<exists>p0 p'. btree_init_page blank_page TableLeaf 512 = Inr p0 \<and> res_run (page_step 512) cell_ops p0 = Inr p' \<and>
    cell_count p' = Inr 2 \<and> compute_free_space p' 512 = Inr 491 \<and>
    cell_get p' 1 512 = Inr (TableLeafCell 9 [0x63, 0x64] 2 None)"
proof -
  define cs :: "bytes list" where "cs = [[3, 1, 0x61, 0x62, 0x63], [2, 9, 0x63, 0x64]]"
  have c: "slot_capacity 512 TableLeaf (page_id blank_page) - slots_size cs = 491" "length cs = 2" "cs ! 1 = [2, 9, 0x63, 0x64]"
    by (simp_all add: slot_capacity_def slots_size_def slot_len_def header_len_def cs_def blank_page_def)
  have "257 \<le> (512 :: nat)" "512 \<le> length (page_buf blank_page)" "length (page_buf blank_page) \<le> 65536"
    and "opt_run (list_step 512 TableLeaf (page_id blank_page)) cell_ops [] = Some cs"
    using cell_ops_run by (simp_all add: blank_page_def cs_def)
  from page_operations_refine [OF this] obtain p0 p' where
    p': "btree_init_page blank_page TableLeaf 512 = Inr p0" "res_run (page_step 512) cell_ops p0 = Inr p'" "cell_count p' = Inr 2"
      "compute_free_space p' 512 = Inr 491" "\<forall>i < 2. cell_get p' i 512 = cell_view TableLeaf 512 (cs ! i)"
    unfolding c by blast
  then show ?thesis using c(3) cell_view_example by (intro exI [of _ p0] exI [of _ p']) simp
qed

text \<open>C22. Inserting a cell in front of an existing index, on a page without queued cells, for every well-formed cell. When the free space holds the cell, counted
  with at least four bytes, and its pointer, the page holds the new list of cells, wherever the room was found. When it does not hold the
  bytes of the cell and its pointer, no byte of the page changes and the cell is queued for balancing. There is a gap
  between the two, for cells shorter than four bytes: the cell is accepted, not queued, and the page is corrupt afterwards.\<close>

theorem insert_into_cell_correct:
  assumes "slots u t pid p cs" "cell_bytes t u c" "idx \<le> length cs"
  shows "if slot_len c + 2 \<le> slot_capacity u t pid - slots_size cs
    then \<exists>p'. insert_into_cell p c idx u = Inr p' \<and> slots u t pid p' (take idx cs @ c # drop idx cs)
    else if length c + 2 \<le> slot_capacity u t pid - slots_size cs
    then \<exists>p'. insert_into_cell p c idx u = Inr p' \<and> overflow_cells p' = [] \<and> compute_free_space p' u = Inl Corrupt
    else insert_into_cell p c idx u = Inr (p\<lparr>overflow_cells := [(idx, c)]\<rparr>)"
  using assms by (rule insert_outcome)

lemma blank_slots: "\<exists>p. slots 512 t 2 p []"
  using init_ok [of 512 blank_page t] by (auto simp: slots_def blank_page_def)

text \<open>An index leaf of 512 bytes with five bytes left, and a cell of three bytes: an index record with one column.\<close>

definition tight_cells :: "bytes list" where
  "tight_cells = (let c = 97 # replicate 97 1 in [c, c, c, c, 96 # replicate 96 1])"

lemma tight_cell_bytes: "cell_bytes IndexLeaf 512 (97 # replicate 97 1)" "cell_bytes IndexLeaf 512 (96 # replicate 96 1)" "cell_bytes IndexLeaf 512 [2, 2, 9]"
proof -
  have "varint_at (97 # replicate 97 1) 0 = Inr (97, 1)" "varint_at (96 # replicate 96 1) 0 = Inr (96, 1)" "varint_at [2, 2, 9] 0 = Inr (2, 1)"
    by code_simp+
  then show "cell_bytes IndexLeaf 512 (97 # replicate 97 1)" "cell_bytes IndexLeaf 512 (96 # replicate 96 1)" "cell_bytes IndexLeaf 512 [2, 2, 9]"
    by (simp_all add: cell_bytes_def cell_raw_len_def local_size_def payload_overflows_def)
qed

lemma tight_slots: "\<exists>p. slots 512 IndexLeaf 2 p tight_cells"
proof -
  obtain p where p: "slots 512 IndexLeaf 2 p []" using blank_slots by blast
  let ?c = "InsertSlot 0 (97 # replicate 97 1)"
  have "opt_run (list_step 512 IndexLeaf 2) [InsertSlot 0 (96 # replicate 96 1), ?c, ?c, ?c, ?c] [] = Some tight_cells"
    by (simp add: tight_cells_def tight_cell_bytes slots_size_def slot_len_def slot_capacity_def header_len_def Let_def)
  from page_slots.run_ok [OF p this] show ?thesis by blast
qed

theorem insert_into_cell_correct_witness:
  "(\<exists>p p'. slots 512 TableLeaf 2 p [] \<and> insert_into_cell p [2, 5, 0x61, 0x62] 0 512 = Inr p' \<and> slots 512 TableLeaf 2 p' [[2, 5, 0x61, 0x62]]) \<and>
   (\<exists>p p'. slots 512 IndexLeaf 2 p tight_cells \<and> insert_into_cell p [2, 2, 9] 0 512 = Inr p' \<and> overflow_cells p' = [] \<and> compute_free_space p' 512 = Inl Corrupt)"
proof
  obtain p where "slots 512 TableLeaf 2 p []" using blank_slots by blast
  then show "\<exists>p p'. slots 512 TableLeaf 2 p [] \<and> insert_into_cell p [2, 5, 0x61, 0x62] 0 512 = Inr p' \<and> slots 512 TableLeaf 2 p' [[2, 5, 0x61, 0x62]]"
    using insert_into_cell_correct [of 512 TableLeaf 2 p "[]" "[2, 5, 0x61, 0x62]" 0] cell_bytes_examples(1)
    by (auto simp: slots_size_def slot_len_def slot_capacity_def header_len_def)
  obtain q where "slots 512 IndexLeaf 2 q tight_cells" using tight_slots by blast
  moreover have "slot_capacity 512 IndexLeaf 2 - slots_size tight_cells = 5" "slot_len [2, 2, 9] = 4"
    by (simp_all add: tight_cells_def slots_size_def slot_len_def slot_capacity_def header_len_def Let_def)
  ultimately show "\<exists>p p'. slots 512 IndexLeaf 2 p tight_cells \<and> insert_into_cell p [2, 2, 9] 0 512 = Inr p' \<and> overflow_cells p' = [] \<and> compute_free_space p' 512 = Inl Corrupt"
    using insert_into_cell_correct [of 512 IndexLeaf 2 q tight_cells "[2, 2, 9]" 0] tight_cell_bytes(3) by auto
qed

text \<open>C23. Dropping a cell frees its bytes and removes its pointer: the other cells keep their contents and order,
  and the free space of the page grows by the cell and its pointer.\<close>

theorem drop_cell_correct:
  assumes "slots u t pid p cs" "idx < length cs" "compute_free_space p u = Inr free"
  shows "\<exists>p'. drop_cell p idx u = Inr p' \<and> slots u t pid p' (take idx cs @ drop (Suc idx) cs) \<and>
    compute_free_space p' u = Inr (free + slot_len (cs ! idx) + 2)"
proof -
  let ?cs = "take idx cs @ drop (Suc idx) cs"
  from page_step_ok [OF assms(1), of "DropSlot idx"] assms(2) obtain p' where
    p': "drop_cell p idx u = Inr p'" "slots u t pid p' ?cs" by auto
  have "slots_size cs = slots_size (take idx cs @ cs ! idx # drop (Suc idx) cs)" using assms(2) by (simp flip: id_take_nth_drop)
  also have "\<dots> = slots_size ?cs + slot_len (cs ! idx) + 2" by (simp add: slots_size_def)
  finally have "slots_size cs = slots_size ?cs + slot_len (cs ! idx) + 2" .
  moreover have "slots_size cs \<le> slot_capacity u t pid" using assms(1) by (rule slots_fit)
  ultimately show ?thesis using p' slots_observe(1) [OF assms(1)] slots_observe(1) [OF p'(2)] assms(3) by auto
qed

theorem drop_cell_correct_witness:
  "\<exists>p p'. slots 512 TableLeaf 2 p [[2, 5, 0x61, 0x62]] \<and> drop_cell p 0 512 = Inr p' \<and> slots 512 TableLeaf 2 p' [] \<and> compute_free_space p' 512 = Inr 504"
proof -
  obtain p where p: "slots 512 TableLeaf 2 p [[2, 5, 0x61, 0x62]]"
    using blank_slots page_step_ok [of 512 TableLeaf 2 _ "[]" "InsertSlot 0 [2, 5, 0x61, 0x62]"] cell_bytes_examples(1)
    by (force simp: slots_size_def slot_len_def slot_capacity_def header_len_def)
  then show ?thesis using drop_cell_correct [of 512 TableLeaf 2 p "[[2, 5, 0x61, 0x62]]" 0 498] slots_observe(1) [OF p]
    by (auto simp: slots_size_def slot_len_def slot_capacity_def header_len_def)
qed

text \<open>C24. Defragmentation, on its fast path for one or two freeblocks as on the general path, keeps every cell and
  the free space of the page, and leaves no freeblock and no more fragmented bytes than allowed.\<close>

theorem defragment_page_correct:
  assumes "slots u t pid p cs"
  shows "\<exists>p' frag. defragment_page p u m = Inr p' \<and> slots u t pid p' cs \<and> first_freeblock p' = Inr 0 \<and>
    num_frag_free_bytes p' = Inr (of_nat frag) \<and> frag < 256 \<and> (frag = 0 \<or> int frag \<le> m) \<and> (\<forall>i < length cs. cell_get p' i u = cell_get p i u)"
proof -
  have rep: "page_rep u t p cs" using assms by (simp add: slots_def)
  from defragment_ok [OF rep] obtain b' frag where
    b': "defragment_page p u m = Inr (p\<lparr>page_buf := b'\<rparr>)" "page_rep u t (p\<lparr>page_buf := b'\<rparr>) cs"
      "first_freeblock (p\<lparr>page_buf := b'\<rparr>) = Inr 0" "num_frag_free_bytes (p\<lparr>page_buf := b'\<rparr>) = Inr (of_nat frag)" "frag < 256" "frag = 0 \<or> int frag \<le> m"
    by blast
  moreover have "\<forall>i < length cs. cell_get (p\<lparr>page_buf := b'\<rparr>) i u = cell_get p i u" using cell_get_ok(1) [OF rep] cell_get_ok(1) [OF b'(2)] by simp
  ultimately show ?thesis using assms by (intro exI [of _ "p\<lparr>page_buf := b'\<rparr>"] exI [of _ frag]) (simp add: slots_def)
qed

theorem defragment_page_correct_witness:
  "\<exists>p q p'. slots 512 IndexLeaf 2 p tight_cells \<and> drop_cell p 2 512 = Inr q \<and> defragment_page q 512 4 = Inr p' \<and>
    slots 512 IndexLeaf 2 p' (take 2 tight_cells @ drop 3 tight_cells) \<and> first_freeblock p' = Inr 0"
proof -
  obtain p where p: "slots 512 IndexLeaf 2 p tight_cells" using tight_slots by blast
  moreover have "list_step 512 IndexLeaf 2 (DropSlot 2) tight_cells = Some (take 2 tight_cells @ drop 3 tight_cells)"
    by (simp add: tight_cells_def Let_def)
  ultimately obtain q where "drop_cell p 2 512 = Inr q" "slots 512 IndexLeaf 2 q (take 2 tight_cells @ drop 3 tight_cells)"
    using page_step_ok [of 512 IndexLeaf 2 p tight_cells "DropSlot 2"] by auto
  then show ?thesis using p defragment_page_correct [of 512 IndexLeaf 2 q _ 4] by blast
qed

end
