(* ===== verification/Cell_Insert.thy ===== *)
theory Cell_Insert
  imports Overflow Page_Cells
begin

text \<open>
  Inserting a record into a leaf page, the state \<^verbatim>\<open>WriteState::Insert\<close> of \<^verbatim>\<open>insert_into_page\<close> in
  \<^verbatim>\<open>core/storage/btree.rs\<close>: the cell is built by \<^verbatim>\<open>fill_cell_payload\<close>, with overflow pages from the pager, and entered into the
  page by \<^verbatim>\<open>insert_into_cell\<close>. It joins the payloads of \<open>Overflow\<close> with the pages of \<open>Page_Cells\<close>: the cells that are written are cells
  in the sense of the page invariant, and a record that was inserted is read back from the page. The page the cursor stands on is a value
  of its own beside the pager, as the page that the stack holds.
\<close>

section \<open>The operation\<close>

text \<open>The state that follows: the page has to be balanced, or the insertion is done.\<close>

datatype write_next = WriteBalancing | WriteFinish

definition write_insert ::
  "('s \<Rightarrow> nat res \<times> 's) \<Rightarrow> ('s \<Rightarrow> nat \<Rightarrow> bytes) \<Rightarrow> ('s \<Rightarrow> nat \<Rightarrow> bytes \<Rightarrow> 's) \<Rightarrow> nat \<Rightarrow>
   page_inner \<Rightarrow> i64 option \<Rightarrow> usize \<Rightarrow> bytes \<Rightarrow> usize \<Rightarrow> 's \<Rightarrow> ((page_inner \<times> write_next) res \<times> 's) option" where
  "write_insert alloc content put k page rowid cell_idx rec u s =
     (case fill_cell_payload alloc content put k page rowid [] cell_idx rec u s of
        None \<Rightarrow> None
      | Some (Inl e, s) \<Rightarrow> Some (Inl e, s)
      | Some (Inr new_payload, s) \<Rightarrow>
          Some (rbind (insert_into_cell page new_payload cell_idx u) (\<lambda>page.
                  Inr (page, if overflow_cells page \<noteq> [] then WriteBalancing else WriteFinish)), s))"

section \<open>The cells that are written\<close>

definition stored_len :: "page_type \<Rightarrow> usize \<Rightarrow> i64 \<Rightarrow> nat \<Rightarrow> nat" where
  "stored_len t u key n = varint_len (of_nat n) + (if t = TableLeaf then varint_len key else 0) + local_size t u (of_nat n)"

lemma cell_header_leaf:
  assumes "page_type_of page = Inr t" "t = TableLeaf \<or> t = IndexLeaf" "t = TableLeaf \<longrightarrow> rowid = Some key"
  shows "cell_header page rowid [] idx rec =
    Inr (t, varint_bytes (of_nat (length rec)) @ (if t = TableLeaf then varint_bytes key else []))"
  using assms by (auto simp: cell_header_def write_varint_to_vec_eq)

lemma fill_cell_rowid:
  assumes "page_type_of page = Inr t" "t = TableLeaf \<or> t = IndexLeaf" "t = TableLeaf \<longrightarrow> rowid = Some key"
  shows "fill_cell_payload alloc content put k page rowid [] idx rec u s = fill_cell_payload alloc content put k page (Some key) [] idx rec u s"
  using cell_header_leaf [OF assms] cell_header_leaf [OF assms(1,2), of "Some key" key] by (simp add: fill_cell_payload_def)

lemma stored_cell_bytes:
  assumes u: "257 \<le> u" and len: "length rec < 2 ^ 64" and t: "t = TableLeaf \<or> t = IndexLeaf"
    and hdr: "hdr = varint_bytes (of_nat (length rec)) @ (if t = TableLeaf then varint_bytes key else [])"
  shows "length (stored_cell t u hdr rec n) = stored_len t u key (length rec)" "cell_bytes t u (stored_cell t u hdr rec n)"
proof -
  have un: "unat (of_nat (length rec) :: u64) = length rec" using len by (simp add: unat_of_nat take_bit_nat_eq_self)
  obtain ov l where ovl: "payload_overflows (length rec) (payload_overflow_threshold_max t u) (payload_overflow_threshold_min t u) u = (ov, l)"
    by (cases "payload_overflows (length rec) (payload_overflow_threshold_max t u) (payload_overflow_threshold_min t u) u")
  note c = payload_overflows_cases [OF u ovl]
  obtain rest where rest: "stored_cell t u hdr rec n = hdr @ rest" "length rest = local_size t u (of_nat (length rec))"
  proof (cases ov)
    case True
    then have "4 \<le> l" "l < length rec" "local_size t u (of_nat (length rec)) = l"
      using c(3,5) ovl un by (simp_all add: local_size_def)
    then show ?thesis using True c(1) by (intro that [of "take (l - 4) rec @ be_bytes 4 (of_nat n :: u32)"]) (simp_all add: stored_cell_def)
  qed (use c(1) ovl un in \<open>auto simp: stored_cell_def local_size_def intro: that [of rec]\<close>)
  show len: "length (stored_cell t u hdr rec n) = stored_len t u key (length rec)"
    using rest hdr by (simp add: stored_len_def length_varint_bytes)
  have "varint_at (hdr @ rest) 0 = Inr (of_nat (length rec), varint_len (of_nat (length rec)))"
    using varint_at_append [of "[]"] hdr by simp
  moreover have "varint_at (hdr @ rest) (varint_len (of_nat (length rec))) = Inr (key, varint_len key)" if "t = TableLeaf"
    using varint_at_append [of "varint_bytes (of_nat (length rec))" key rest] hdr that by (simp add: length_varint_bytes)
  ultimately have "cell_raw_len t u (hdr @ rest) = Inr (stored_len t u key (length rec))"
    using t by (auto simp: cell_raw_len_def stored_len_def)
  then show "cell_bytes t u (stored_cell t u hdr rec n)" using len rest(1) by (simp add: cell_bytes_def)
qed

lemma fill_cell_local:
  assumes "257 \<le> u" "length rec \<le> payload_overflow_threshold_max t u" "cell_header page rowid [] idx rec = Inr (t, hdr)"
  shows "fill_cell_payload alloc content put k page rowid [] idx rec u s = Some (Inr (hdr @ rec), s)"
proof -
  obtain ov l where ovl: "payload_overflows (length rec) (payload_overflow_threshold_max t u) (payload_overflow_threshold_min t u) u = (ov, l)"
    by (cases "payload_overflows (length rec) (payload_overflow_threshold_max t u) (payload_overflow_threshold_min t u) u")
  then show ?thesis using payload_overflows_cases(1) [OF assms(1) ovl] assms(2,3) by (simp add: fill_cell_payload_def)
qed

section \<open>Properties\<close>

text \<open>The other cells of a list, around the place where one was inserted.\<close>

lemma nth_inserted:
  assumes "idx \<le> length cs" "i < length cs"
  shows "(take idx cs @ c # drop idx cs) ! (if i < idx then i else i + 1) = cs ! i"
  using assms by (auto simp: nth_append min_def)

text \<open>What the insertion of a cell leaves on the page, as its readers see it.\<close>

definition inserted :: "usize \<Rightarrow> page_type \<Rightarrow> usize \<Rightarrow> page_inner \<Rightarrow> bytes list \<Rightarrow> bytes \<Rightarrow> usize \<Rightarrow> page_inner \<Rightarrow> bool" where
  "inserted u t pid page cs c idx page' \<longleftrightarrow> (let free = slot_capacity u t pid - slots_size cs in
     if slot_len c + 2 \<le> free then
       overflow_cells page' = [] \<and> cell_count page' = Inr (length cs + 1) \<and> compute_free_space page' u = Inr (free - (slot_len c + 2)) \<and>
       cell_get page' idx u = cell_view t u c \<and> (\<forall>i < length cs. cell_get page' (if i < idx then i else i + 1) u = cell_get page i u)
     else if length c + 2 \<le> free then overflow_cells page' = [] \<and> compute_free_space page' u = Inl Corrupt
     else page' = page\<lparr>overflow_cells := [(idx, c)]\<rparr>)"

lemma insert_observed:
  assumes "slots u t pid page cs" "cell_bytes t u c" "idx \<le> length cs"
  shows "\<exists>page'. insert_into_cell page c idx u = Inr page' \<and> inserted u t pid page cs c idx page'"
proof (cases "slot_len c + 2 \<le> slot_capacity u t pid - slots_size cs")
  case True
  let ?cs = "take idx cs @ c # drop idx cs"
  obtain page' where page': "insert_into_cell page c idx u = Inr page'" "slots u t pid page' ?cs" using insert_outcome [OF assms] True by auto
  have get: "cell_get page' i u = cell_view t u (?cs ! i)" if "i < length ?cs" for i
    using cell_get_ok(1) [of u t page' ?cs i] page'(2) that by (simp add: slots_def)
  have sum: "sum_list (map slot_len (take idx cs)) + sum_list (map slot_len (drop idx cs)) = sum_list (map slot_len cs)"
    by (metis append_take_drop_id map_append sum_list_append)
  have n: "length ?cs = length cs + 1" "slots_size ?cs = slots_size cs + (slot_len c + 2)"
    using assms(3) sum by (simp_all add: slots_size_def)
  have "cell_get page' (if i < idx then i else i + 1) u = cell_get page i u" if "i < length cs" for i
    using get [of "if i < idx then i else i + 1"] nth_inserted [OF assms(3) that, of c] n(1) that cell_get_ok(1) [of u t page cs i] assms(1)
    by (simp add: slots_def)
  moreover have "cell_get page' idx u = cell_view t u c" using get [of idx] assms(3) by (simp add: nth_append)
  ultimately show ?thesis using slots_observe(1,2) [OF page'(2)] page' True n unfolding inserted_def Let_def by (auto simp: slots_def)
next
  case False
  then show ?thesis using insert_outcome [OF assms] by (auto simp: inserted_def split: if_splits)
qed

text \<open>The cell that is read is the record, or begins it and its overflow pages hold the rest.\<close>

definition holds_record :: "page_type \<Rightarrow> usize \<Rightarrow> i64 \<Rightarrow> bytes \<Rightarrow> pager \<Rightarrow> btree_cell \<Rightarrow> bool" where
  "holds_record t u key rec p cell \<longleftrightarrow> (\<exists>payload first. cell = cell_of t 0 key payload (of_nat (length rec)) first \<and>
     (case first of
        None \<Rightarrow> payload = rec
      | Some n \<Rightarrow> process_overflow_read (\<lambda>p n. Inr (pages p n)) u (length rec + 1) payload n (of_nat (length rec)) p = Some (Inr rec)))"

lemma fill_cell_leaf:
  assumes p: "pager_ready fresh p" "usable p = u" and u: "257 \<le> u" and len: "length rec < 2 ^ 64"
    and t: "page_type_of page = Inr t" "t = TableLeaf \<or> t = IndexLeaf" "t = TableLeaf \<longrightarrow> rowid = Some key"
  shows "\<exists>r p'. fill_cell_payload (allocate_overflow_page fresh False) pages put_page (2 * length rec + 1) page rowid [] idx rec u p = Some (r, p') \<and>
    used p \<subseteq> used p' \<and> (\<forall>m \<in> used p. pages p' m = pages p m) \<and>
    (case r of
       Inl e \<Rightarrow> e = DatabaseFull \<and> payload_overflow_threshold_max t u < length rec
     | Inr cell \<Rightarrow> cell_bytes t u cell \<and> length cell = stored_len t u key (length rec) \<and>
         (\<exists>bc. cell_view t u cell = Inr bc \<and> holds_record t u key rec p' bc))"
proof -
  let ?hdr = "varint_bytes (of_nat (length rec)) @ (if t = TableLeaf then varint_bytes key else [])"
  have hdr: "cell_header page (Some key) [] idx rec = Inr (t, ?hdr)" by (rule cell_header_leaf [OF t(1,2)]) simp
  have k: "2 * length rec < 2 * length rec + 1" by simp
  note fill = pager_alloc.fill_cell_ok [OF p(1) p(2) [symmetric] u len k hdr, folded fill_cell_rowid [OF t]]
  then obtain r p' where run: "fill_cell_payload (allocate_overflow_page fresh False) pages put_page (2 * length rec + 1) page rowid [] idx rec u p = Some (r, p')"
      "used p \<subseteq> used p'" "\<forall>m \<in> used p. pages p' m = pages p m" "\<forall>e. r = Inl e \<longrightarrow> e = DatabaseFull"
    and chain: "\<And>cell. r = Inr cell \<Longrightarrow> \<exists>ps. pager_ready fresh p' \<and> usable p' = u \<and> set ps \<subseteq> used p' \<and> cell = stored_cell t u ?hdr rec (hd ps) \<and>
      (if length rec \<le> payload_overflow_threshold_max t u then ps = [] \<and> p' = p
       else ovf_chain (pages p') u ps (drop (local_size t u (of_nat (length rec)) - 4) rec))"
    unfolding p(2) by blast
  have ok: "cell_bytes t u cell \<and> length cell = stored_len t u key (length rec) \<and> (\<exists>bc. cell_view t u cell = Inr bc \<and> holds_record t u key rec p' bc)"
    if "r = Inr cell" for cell
  proof -
    from chain [OF that] obtain ps where ps: "pager_ready fresh p'" "usable p' = u" "set ps \<subseteq> used p'" "cell = stored_cell t u ?hdr rec (hd ps)"
      "if length rec \<le> payload_overflow_threshold_max t u then ps = [] \<and> p' = p
       else ovf_chain (pages p') u ps (drop (local_size t u (of_nat (length rec)) - 4) rec)" by blast
    have ps5: "if length rec \<le> payload_overflow_threshold_max t u then ps = []
       else ovf_chain (pages p') u ps (drop (local_size t u (of_nat (length rec)) - 4) rec)" using ps(5) by presburger
    have t': "t \<noteq> TableInterior" "t = IndexInterior \<Longrightarrow> cell_interior_read_left_child_page page idx = Inr 0" using t(2) by auto
    obtain payload first where rd: "\<forall>pre post. read_btree_cell (pre @ cell @ post) page (length pre) u = Inr (cell_of t 0 key payload (of_nat (length rec)) first)"
      "case first of None \<Rightarrow> payload = rec
       | Some n \<Rightarrow> process_overflow_read (\<lambda>p n. Inr (pages p n)) u (length rec + 1) payload n (of_nat (length rec)) p' = Some (Inr rec)"
      using stored_chain_read [OF ps(1-4) ps5 u len _ t'(1) t(1) t'(2) hdr] by auto
    have "cell_view t u cell = Inr (cell_of t 0 key payload (of_nat (length rec)) first)"
      using spec [OF spec [OF rd(1), of "[]"], of "[]"] read_btree_cell_type [OF t(1), of cell 0 u] by (simp add: cell_view_def)
    then show ?thesis using stored_cell_bytes [OF u len t(2) refl] ps(4) rd(2) by (auto simp: holds_record_def)
  qed
  have "payload_overflow_threshold_max t u < length rec" if "r = Inl e" for e
    using fill_cell_local [OF u _ cell_header_leaf [OF t, of idx rec], of "allocate_overflow_page fresh False" pages put_page "2 * length rec + 1" p] run(1) that
    by (cases "length rec \<le> payload_overflow_threshold_max t u") (simp_all del: payload_overflow_threshold_max.simps)
  then have "case r of Inl e \<Rightarrow> e = DatabaseFull \<and> payload_overflow_threshold_max t u < length rec
     | Inr cell \<Rightarrow> cell_bytes t u cell \<and> length cell = stored_len t u key (length rec) \<and>
         (\<exists>bc. cell_view t u cell = Inr bc \<and> holds_record t u key rec p' bc)"
    using run(4) ok by (cases r) (simp_all del: payload_overflow_threshold_max.simps)
  then show ?thesis by (intro exI [of _ r] exI [of _ p'] conjI run(1-3))
qed

text \<open>C39. Inserting a record of any size into a leaf page. The operation returns and changes no page in use of the pager; it fails only when the
  database is full, and then only for a record that needs overflow pages. Otherwise, with \<open>n\<close> the bytes the cell takes, at least four: if \<open>n + 2\<close> bytes are free, the insertion is finished,
  the cell is at its index, reading it gives the record, from the cell or from its overflow pages, and
  every other cell reads as before; if its bytes and its pointer do not fit, the page keeps its bytes, the cell is queued and balancing follows. Between the
  two a cell shorter than four bytes leaves a corrupt page.\<close>

theorem write_insert_correct:
  assumes "pager_ready fresh p" "usable p = u" "slots u t pid page cs" "t = TableLeaf \<or> t = IndexLeaf" "t = TableLeaf \<longrightarrow> rowid = Some key"
    "idx \<le> length cs" "length rec < 2 ^ 64"
  shows "\<exists>r p'. write_insert (allocate_overflow_page fresh False) pages put_page (2 * length rec + 1) page rowid idx rec u p = Some (r, p') \<and>
    used p \<subseteq> used p' \<and> (\<forall>m \<in> used p. pages p' m = pages p m) \<and>
    (case r of
       Inl e \<Rightarrow> e = DatabaseFull \<and> payload_overflow_threshold_max t u < length rec
     | Inr (page', next) \<Rightarrow>
         (let n = stored_len t u key (length rec); free = slot_capacity u t pid - slots_size cs in
          if max 4 n + 2 \<le> free then
            next = WriteFinish \<and> cell_count page' = Inr (length cs + 1) \<and> compute_free_space page' u = Inr (free - (max 4 n + 2)) \<and>
            (\<exists>bc. cell_get page' idx u = Inr bc \<and> holds_record t u key rec p' bc) \<and>
            (\<forall>i < length cs. cell_get page' (if i < idx then i else i + 1) u = cell_get page i u)
          else if n + 2 \<le> free then next = WriteFinish \<and> compute_free_space page' u = Inl Corrupt
          else next = WriteBalancing \<and> (\<exists>c bc. page' = page\<lparr>overflow_cells := [(idx, c)]\<rparr> \<and>
            length c = n \<and> cell_view t u c = Inr bc \<and> holds_record t u key rec p' bc)))"
proof -
  have rep: "page_rep u t page cs" "overflow_cells page = []" "page_id page = pid" using assms(3) by (simp_all add: slots_def)
  obtain ptrs fbs cca frag where ca: "cells_at page u t ptrs cs fbs cca frag" and u: "257 \<le> u" using rep(1) by (auto simp: page_rep_def)
  have t: "page_type_of page = Inr t" using ca header_reads(1) [OF page_spaceD(1)] by (fastforce simp: cells_at_def)
  from fill_cell_leaf [OF assms(1,2) u assms(7) t assms(4,5), of idx] obtain r p' where
    fill: "fill_cell_payload (allocate_overflow_page fresh False) pages put_page (2 * length rec + 1) page rowid [] idx rec u p = Some (r, p')"
      "used p \<subseteq> used p'" "\<forall>m \<in> used p. pages p' m = pages p m"
      "case r of Inl e \<Rightarrow> e = DatabaseFull \<and> payload_overflow_threshold_max t u < length rec
       | Inr cell \<Rightarrow> cell_bytes t u cell \<and> length cell = stored_len t u key (length rec) \<and>
           (\<exists>bc. cell_view t u cell = Inr bc \<and> holds_record t u key rec p' bc)" by blast
  show ?thesis
  proof (cases r)
    case (Inl e)
    then show ?thesis using fill by (simp add: write_insert_def)
  next
    case (Inr c)
    have c: "cell_bytes t u c" "length c = stored_len t u key (length rec)" "\<exists>bc. cell_view t u c = Inr bc \<and> holds_record t u key rec p' bc"
      using fill(4) Inr by simp_all
    from insert_observed [OF assms(3) c(1) assms(6)] obtain page' where
      ins: "insert_into_cell page c idx u = Inr page'" "inserted u t pid page cs c idx page'" by blast
    then have "write_insert (allocate_overflow_page fresh False) pages put_page (2 * length rec + 1) page rowid idx rec u p =
      Some (Inr (page', if overflow_cells page' \<noteq> [] then WriteBalancing else WriteFinish), p')"
      using fill(1) Inr by (simp add: write_insert_def)
    moreover have "slot_len c = max 4 (stored_len t u key (length rec))" using c(2) by (simp add: slot_len_def)
    ultimately show ?thesis using ins(2) fill(2,3) c(2,3) unfolding inserted_def Let_def
      by (intro exI [of _ "Inr (page', if overflow_cells page' \<noteq> [] then WriteBalancing else WriteFinish)"] exI [of _ p'])
        (simp split: if_splits; fastforce)
  qed
qed

text \<open>A record of two bytes, which stays in its cell, and one of 600 bytes, which needs an overflow page.\<close>

lemma stored_len_examples: "stored_len TableLeaf 512 9 2 = 4" "stored_len TableLeaf 512 9 600 = 99"
proof -
  have "varint_len 2 = 1" "varint_len 9 = 1" "varint_len 600 = 2" by code_simp+
  then show "stored_len TableLeaf 512 9 2 = 4" "stored_len TableLeaf 512 9 600 = 99"
    by (simp_all add: stored_len_def local_size_def payload_overflows_def payload_overflow_threshold_min_def)
qed

theorem write_insert_correct_witness:
  "\<exists>page. slots 512 TableLeaf 2 page [] \<and>
    (\<exists>page' p' bc. write_insert (allocate_overflow_page (replicate 512 0) False) pages put_page 5 page (Some 9) 0 [1, 8] 512 roomy_pager = Some (Inr (page', WriteFinish), p') \<and>
      cell_get page' 0 512 = Inr bc \<and> holds_record TableLeaf 512 9 [1, 8] p' bc) \<and>
    (\<exists>r p'. write_insert (allocate_overflow_page (replicate 512 0) False) pages put_page 1201 page (Some 9) 0 (replicate 600 5) 512 roomy_pager = Some (r, p') \<and>
      (case r of Inl e \<Rightarrow> e = DatabaseFull
       | Inr (page', _) \<Rightarrow> \<exists>bc. cell_get page' 0 512 = Inr bc \<and> holds_record TableLeaf 512 9 (replicate 600 5) p' bc))"
proof -
  obtain page where page: "slots 512 TableLeaf 2 page []" using blank_slots by blast
  have free: "slot_capacity 512 TableLeaf 2 - slots_size [] = 504" by (simp add: slot_capacity_def slots_size_def header_len_def)
  note ins = write_insert_correct [OF roomy_pager_facts(1,2) page, where rowid = "Some 9" and key = 9 and idx = 0, unfolded free Let_def]
  have l: "length [1, 8 :: u8] = 2" "length (replicate 600 (5 :: u8)) = 600" by simp_all
  obtain r p' where "write_insert (allocate_overflow_page (replicate 512 0) False) pages put_page 5 page (Some 9) 0 [1, 8] 512 roomy_pager = Some (r, p')"
    "case r of Inl e \<Rightarrow> False | Inr (page', next) \<Rightarrow> next = WriteFinish \<and> (\<exists>bc. cell_get page' 0 512 = Inr bc \<and> holds_record TableLeaf 512 9 [1, 8] p' bc)"
    using ins [of "[1, 8]", unfolded l] stored_len_examples by (simp, elim exE conjE) (auto split: sum.split_asm prod.split_asm)
  moreover obtain r' q' where "write_insert (allocate_overflow_page (replicate 512 0) False) pages put_page 1201 page (Some 9) 0 (replicate 600 5) 512 roomy_pager = Some (r', q')"
    "case r' of Inl e \<Rightarrow> e = DatabaseFull | Inr (page', next) \<Rightarrow> \<exists>bc. cell_get page' 0 512 = Inr bc \<and> holds_record TableLeaf 512 9 (replicate 600 5) q' bc"
    using ins [of "replicate 600 5", unfolded l] stored_len_examples by (simp, elim exE conjE) (auto split: sum.split_asm prod.split_asm)
  ultimately show ?thesis using page by (cases r) auto
qed

end
