(* ===== verification/Wal_Format.thy ===== *)
theory Wal_Format
  imports Page_Format
begin

text \<open>
  The file format of the write-ahead log and its recovery (\<^verbatim>\<open>core/storage/sqlite3_ondisk.rs\<close>): the 32-byte log
  header, frames with their cumulative checksums, and the scan that rebuilds the frame index when a
  database is opened.

  The byte order of the target (\<^verbatim>\<open>cfg!(target_endian = "big")\<close>) is the parameter \<open>big\<close>. Read errors of the file
  are not modelled: a read returns the bytes of the file.
\<close>

section \<open>Header and frames\<close>

definition WAL_HEADER_SIZE :: nat where
  "WAL_HEADER_SIZE = 32"

definition WAL_FRAME_HEADER_SIZE :: nat where
  "WAL_FRAME_HEADER_SIZE = 24"

definition WAL_MAGIC_LE :: u32 where
  "WAL_MAGIC_LE = 0x377f0682"

definition WAL_MAGIC_BE :: u32 where
  "WAL_MAGIC_BE = 0x377f0683"

record wal_header =
  magic :: u32
  file_format :: u32
  wal_page_size :: u32
  checkpoint_seq :: u32
  salt_1 :: u32
  salt_2 :: u32
  checksum_1 :: u32
  checksum_2 :: u32

definition wal_header_new :: "bool \<Rightarrow> wal_header" where
  "wal_header_new big = \<lparr>magic = (if big then WAL_MAGIC_BE else WAL_MAGIC_LE), file_format = 3007000, wal_page_size = 0,
     checkpoint_seq = 0, salt_1 = 0, salt_2 = 0, checksum_1 = 0, checksum_2 = 0\<rparr>"

text \<open>\<^verbatim>\<open>u32::from_ne_bytes\<close> and \<^verbatim>\<open>u32::swap_bytes\<close>.\<close>

definition from_ne :: "bool \<Rightarrow> bytes \<Rightarrow> u32" where
  "from_ne big bs = (if big then from_be bs else from_be (rev bs))"

definition swap_bytes :: "u32 \<Rightarrow> u32" where
  "swap_bytes w = from_be (rev (be_bytes 4 w))"

fun checksum_loop :: "(bytes \<Rightarrow> u32) \<Rightarrow> bytes \<Rightarrow> u32 \<times> u32 \<Rightarrow> u32 \<times> u32" where
  "checksum_loop rd (b0 # b1 # b2 # b3 # b4 # b5 # b6 # b7 # buf) (s0, s1) =
     (let v0 = rd [b0, b1, b2, b3];
          v1 = rd [b4, b5, b6, b7];
          s0 = s0 + (v0 + s1);
          s1 = s1 + (v1 + s0)
      in checksum_loop rd buf (s0, s1))"
| "checksum_loop rd _ s = s"

definition checksum_wal :: "bool \<Rightarrow> bytes \<Rightarrow> u32 \<times> u32 \<Rightarrow> bool \<Rightarrow> (u32 \<times> u32) res" where
  "checksum_wal big buf input native_endian =
     (if length buf mod 8 \<noteq> 0 then Inl Panic
      else Inr (checksum_loop (\<lambda>bs. if native_endian then from_ne big bs else swap_bytes (from_ne big bs)) buf input))"

definition use_native :: "bool \<Rightarrow> wal_header \<Rightarrow> bool" where
  "use_native big h = (big = (magic h AND 1 \<noteq> 0))"

definition prepare_wal_frame :: "bool \<Rightarrow> wal_header \<Rightarrow> u32 \<times> u32 \<Rightarrow> usize \<Rightarrow> u32 \<Rightarrow> u32 \<Rightarrow> bytes \<Rightarrow> ((u32 \<times> u32) \<times> bytes) res" where
  "prepare_wal_frame big h prev_checksums page_size page_number db_size page =
     (if length page \<noteq> page_size then Inl Panic
      else
        let fh = be_bytes 4 page_number @ be_bytes 4 db_size in
        rbind (checksum_wal big fh prev_checksums (use_native big h)) (\<lambda>header_checksum.
        rbind (checksum_wal big page header_checksum (use_native big h)) (\<lambda>final_checksum.
          Inr (final_checksum, fh @ be_bytes 4 (salt_1 h) @ be_bytes 4 (salt_2 h) @
            be_bytes 4 (fst final_checksum) @ be_bytes 4 (snd final_checksum) @ page))))"

record wal_frame_header =
  page_number :: u32
  fh_db_size :: u32
  fh_salt_1 :: u32
  fh_salt_2 :: u32
  fh_checksum_1 :: u32
  fh_checksum_2 :: u32

definition is_commit_frame :: "wal_frame_header \<Rightarrow> bool" where
  "is_commit_frame fh \<longleftrightarrow> 0 < fh_db_size fh"

definition u32_at :: "bytes \<Rightarrow> nat \<Rightarrow> u32" where
  "u32_at b i = from_be (slice b i (i + 4))"

definition parse_wal_frame_header :: "bytes \<Rightarrow> (wal_frame_header \<times> bytes) res" where
  "parse_wal_frame_header frame =
     (if length frame < WAL_FRAME_HEADER_SIZE then Inl Panic
      else Inr (\<lparr>page_number = u32_at frame 0, fh_db_size = u32_at frame 4, fh_salt_1 = u32_at frame 8, fh_salt_2 = u32_at frame 12,
        fh_checksum_1 = u32_at frame 16, fh_checksum_2 = u32_at frame 20\<rparr>, drop WAL_FRAME_HEADER_SIZE frame))"

text \<open>The bytes that \<^verbatim>\<open>begin_write_wal_header\<close> writes at the start of the file.\<close>

definition wal_header_bytes :: "wal_header \<Rightarrow> bytes" where
  "wal_header_bytes h = be_bytes 4 (magic h) @ be_bytes 4 (file_format h) @ be_bytes 4 (wal_page_size h) @ be_bytes 4 (checkpoint_seq h) @
     be_bytes 4 (salt_1 h) @ be_bytes 4 (salt_2 h) @ be_bytes 4 (checksum_1 h) @ be_bytes 4 (checksum_2 h)"

text \<open>The header in memory (\<^verbatim>\<open>as_bytes\<close>), in the byte order of the target.\<close>

definition ne_bytes :: "bool \<Rightarrow> u32 \<Rightarrow> bytes" where
  "ne_bytes big w = (if big then be_bytes 4 w else rev (be_bytes 4 w))"

definition wal_header_as_bytes :: "bool \<Rightarrow> wal_header \<Rightarrow> bytes" where
  "wal_header_as_bytes big h = ne_bytes big (magic h) @ ne_bytes big (file_format h) @ ne_bytes big (wal_page_size h) @ ne_bytes big (checkpoint_seq h) @
     ne_bytes big (salt_1 h) @ ne_bytes big (salt_2 h) @ ne_bytes big (checksum_1 h) @ ne_bytes big (checksum_2 h)"

text \<open>The part of \<^verbatim>\<open>prepare_wal_header\<close> that fills in the header of a new generation; \<open>r1\<close> and \<open>r2\<close> are the random numbers.\<close>

definition seal_wal_header :: "bool \<Rightarrow> usize \<Rightarrow> u32 \<Rightarrow> u32 \<Rightarrow> wal_header \<Rightarrow> wal_header res" where
  "seal_wal_header big page_size r1 r2 h =
     (let h = h\<lparr>magic := (if big then WAL_MAGIC_BE else WAL_MAGIC_LE)\<rparr>;
          h = (if wal_page_size h = 0 then h\<lparr>wal_page_size := of_nat page_size\<rparr> else h);
          h = (if salt_1 h = 0 \<and> salt_2 h = 0 then h\<lparr>salt_1 := r1, salt_2 := r2\<rparr> else h)
      in rbind (checksum_wal big (take (WAL_HEADER_SIZE - 8) (wal_header_as_bytes big h)) (0, 0) (magic h AND 1 \<noteq> 0)) (\<lambda>(c1, c2).
        Inr (h\<lparr>checksum_1 := c1, checksum_2 := c2\<rparr>)))"

section \<open>Recovery\<close>

text \<open>
  The metadata and the frame index that connections share. \<^verbatim>\<open>frame_cache\<close> maps a page to its frames in ascending order; a page
  without an entry has the empty list. The frames of the scan that no commit frame
  covers yet are pairs of page and frame.
\<close>

record wal_index =
  header :: wal_header
  max_frame :: nat
  nbackfills :: nat
  transaction_count :: nat
  last_checksum :: "u32 \<times> u32"
  initialized :: bool
  frame_cache :: "nat \<Rightarrow> nat list"
  frame_cache_high_water :: nat

record streaming_state =
  frame_idx :: nat
  cumulative_checksum :: "u32 \<times> u32"
  last_valid_checksum :: "u32 \<times> u32"
  last_valid_frame :: nat
  pending_frames :: "(nat \<times> nat) list"
  st_page_size :: nat
  use_native_endian :: bool
  header_valid :: bool

definition streaming_new :: streaming_state where
  "streaming_new = \<lparr>frame_idx = 1, cumulative_checksum = (0, 0), last_valid_checksum = (0, 0), last_valid_frame = 0,
     pending_frames = [], st_page_size = 0, use_native_endian = False, header_valid = False\<rparr>"

definition wal_index_new :: "bool \<Rightarrow> wal_index" where
  "wal_index_new big = \<lparr>header = wal_header_new big, max_frame = 0, nbackfills = 0, transaction_count = 0, last_checksum = (0, 0),
     initialized = False, frame_cache = (\<lambda>_. []), frame_cache_high_water = 0\<rparr>"

definition flush_pending_frames :: "streaming_state \<Rightarrow> wal_index \<Rightarrow> streaming_state \<times> wal_index" where
  "flush_pending_frames st wfs =
     (if pending_frames st = [] then (st, wfs)
      else (st\<lparr>pending_frames := []\<rparr>,
        wfs\<lparr>frame_cache := (\<lambda>page. frame_cache wfs page @
            filter (\<lambda>f. f \<le> last_valid_frame st) (map snd (filter (\<lambda>x. fst x = page) (pending_frames st)))),
          max_frame := last_valid_frame st,
          frame_cache_high_water := max (frame_cache_high_water wfs) (last_valid_frame st)\<rparr>))"

definition finalize_loading :: "streaming_state \<Rightarrow> wal_index \<Rightarrow> wal_index" where
  "finalize_loading st wfs =
     (let max_frame = last_valid_frame st;
          wfs = (if max_frame > 0 then wfs\<lparr>frame_cache := (\<lambda>page. filter (\<lambda>f. f \<le> max_frame) (frame_cache wfs page))\<rparr> else wfs);
          wfs = wfs\<lparr>max_frame := max_frame, last_checksum := last_valid_checksum st\<rparr>;
          wfs = (if header_valid st then wfs\<lparr>initialized := True\<rparr> else wfs)
      in wfs\<lparr>nbackfills := 0\<rparr>)"

text \<open>One frame of the scan: the new state, or \<open>None\<close> where the scan stops.\<close>

definition process_frame :: "bool \<Rightarrow> wal_header \<Rightarrow> bytes \<Rightarrow> bytes \<Rightarrow> streaming_state \<Rightarrow> wal_index \<Rightarrow> (streaming_state \<times> wal_index) option res" where
  "process_frame big h fh page st wfs =
     (let page_no = u32_at fh 0;
          db_size = u32_at fh 4;
          s1 = u32_at fh 8;
          s2 = u32_at fh 12;
          c1 = u32_at fh 16;
          c2 = u32_at fh 20
      in if page_no = 0 then Inr None
      else if s1 \<noteq> salt_1 h \<or> s2 \<noteq> salt_2 h then Inr None
      else
        rbind (checksum_wal big (take 8 fh) (cumulative_checksum st) (use_native_endian st)) (\<lambda>seed.
        rbind (checksum_wal big page seed (use_native_endian st)) (\<lambda>calc.
          if calc \<noteq> (c1, c2) then Inr None
          else
            let st = st\<lparr>cumulative_checksum := calc, pending_frames := pending_frames st @ [(unat page_no, frame_idx st)]\<rparr>;
                (st, wfs) = (if db_size > 0
                             then flush_pending_frames (st\<lparr>last_valid_frame := frame_idx st, last_valid_checksum := calc\<rparr>) wfs
                             else (st, wfs))
            in Inr (Some (st\<lparr>frame_idx := frame_idx st + 1\<rparr>, wfs)))))"

function process_frames ::
  "bool \<Rightarrow> wal_header \<Rightarrow> bytes \<Rightarrow> nat \<Rightarrow> streaming_state \<Rightarrow> wal_index \<Rightarrow> (nat \<times> streaming_state \<times> wal_index) res" where
  "process_frames big h buf pos st wfs =
     (let frame_size = WAL_FRAME_HEADER_SIZE + st_page_size st in
      if pos + frame_size \<le> length buf then
        (case process_frame big h (slice buf pos (pos + WAL_FRAME_HEADER_SIZE)) (slice buf (pos + WAL_FRAME_HEADER_SIZE) (pos + frame_size)) st wfs of
           Inl e \<Rightarrow> Inl e
         | Inr None \<Rightarrow> Inr (pos, st, wfs)
         | Inr (Some (st', wfs')) \<Rightarrow> process_frames big h buf (pos + frame_size) st' wfs')
      else Inr (pos, st, wfs))"
  by pat_completeness auto
termination
  by (relation "measure (\<lambda>(_, _, buf, pos, _). length buf - pos)") (auto simp: WAL_FRAME_HEADER_SIZE_def)

declare process_frames.simps [simp del]

definition handle_header_read :: "bool \<Rightarrow> bytes \<Rightarrow> streaming_state \<Rightarrow> wal_index \<Rightarrow> (streaming_state \<times> wal_index \<times> bool) res" where
  "handle_header_read big s st wfs =
     (let h = \<lparr>magic = u32_at s 0, file_format = u32_at s 4, wal_page_size = u32_at s 8, checkpoint_seq = u32_at s 12,
               salt_1 = u32_at s 16, salt_2 = u32_at s 20, checksum_1 = u32_at s 24, checksum_2 = u32_at s 28\<rparr>;
          wfs = wfs\<lparr>header := h\<rparr>;
          native = (big = (magic h AND 1 \<noteq> 0))
      in rbind (checksum_wal big (take 24 s) (0, 0) native) (\<lambda>calc.
        if page_size_new (wal_page_size h) = None \<or> calc \<noteq> (checksum_1 h, checksum_2 h)
        then Inr (st, finalize_loading st wfs, True)
        else Inr (st\<lparr>st_page_size := unat (wal_page_size h), use_native_endian := native, cumulative_checksum := (checksum_1 h, checksum_2 h),
          last_valid_checksum := (checksum_1 h, checksum_2 h), header_valid := True\<rparr>, wfs, False)))"

text \<open>Chunks of \<open>base\<close> bytes rounded down to whole frames (\<^verbatim>\<open>16 * 1024 * 1024\<close> in the source); the result is the chunk read.\<close>

definition submit_one_chunk :: "nat \<Rightarrow> bytes \<Rightarrow> streaming_state \<Rightarrow> nat \<Rightarrow> bytes res" where
  "submit_one_chunk base file st offset =
     (if st_page_size st = 0 then Inl InternalError
      else
        let frame_size = WAL_FRAME_HEADER_SIZE + st_page_size st;
            aligned = base div frame_size * frame_size;
            read_size = min (max aligned frame_size) (length file - offset)
        in Inr (slice file offset (offset + read_size)))"

definition handle_chunk_read ::
  "bool \<Rightarrow> bytes \<Rightarrow> bytes \<Rightarrow> nat \<Rightarrow> streaming_state \<Rightarrow> wal_index \<Rightarrow> (nat \<times> bool \<times> streaming_state \<times> wal_index) res" where
  "handle_chunk_read big file buf off st wfs =
     rbind (process_frames big (header wfs) buf 0 st wfs) (\<lambda>(consumed, st, wfs).
       if consumed < length buf \<or> off + consumed \<ge> length file
       then Inr (off + consumed, True, st, finalize_loading st wfs)
       else Inr (off + consumed, False, st, wfs))"

text \<open>The chunk loop of \<^verbatim>\<open>poll\<close>. A chunk that makes no progress or is not consumed ends the scan.\<close>

function chunk_loop :: "nat \<Rightarrow> bool \<Rightarrow> bytes \<Rightarrow> nat \<Rightarrow> streaming_state \<Rightarrow> wal_index \<Rightarrow> wal_index res" where
  "chunk_loop base big file off st wfs =
     (if off \<ge> length file then Inr (finalize_loading st wfs)
      else (case submit_one_chunk base file st off of
          Inl e \<Rightarrow> Inl e
        | Inr buf \<Rightarrow>
            (case handle_chunk_read big file buf off st wfs of
               Inl e \<Rightarrow> Inl e
             | Inr (new_off, done, st', wfs') \<Rightarrow>
                 if new_off \<le> off then Inr (finalize_loading st' wfs')
                 else if done then Inr wfs'
                 else chunk_loop base big file new_off st' wfs')))"
  by pat_completeness auto
termination
  by (relation "measure (\<lambda>(_, _, file, off, _). length file - off)") auto

declare chunk_loop.simps [simp del]

definition build_shared_wal :: "nat \<Rightarrow> bool \<Rightarrow> bytes \<Rightarrow> wal_index res" where
  "build_shared_wal base big file =
     (if length file < WAL_HEADER_SIZE then Inr (wal_index_new big)
      else rbind (handle_header_read big (take WAL_HEADER_SIZE file) streaming_new (wal_index_new big)) (\<lambda>(st, wfs, done).
        if done then Inr wfs else chunk_loop base big file WAL_HEADER_SIZE st wfs))"

end
