(* ===== verification/Rw_Lock.thy ===== *)
theory Rw_Lock
  imports Prelude
begin

text \<open>
  The read-write lock of the write-ahead log (\<^verbatim>\<open>core/storage/wal.rs\<close>, \<^verbatim>\<open>TursoRwLock\<close>): one 64-bit word holding a 32-bit
  value, a 31-bit count of readers and a writer bit. Every operation is one update of the word: the source
  loads it and installs the new word by compare-and-exchange, so an attempt that takes effect is atomic and one
  that loses a race changes nothing. The word operations are shown to act on the triple of value, readers and writer.
\<close>

unbundle bit_operations_syntax

section \<open>Operations\<close>

type_synonym rwlock = u64

definition WRITER :: u64 where
  "WRITER = 1"

definition READER_INC :: u64 where
  "READER_INC = 2"

definition READER_COUNT_MASK :: u64 where
  "READER_COUNT_MASK = push_bit 1 0x7fffffff"

definition VALUE_MASK :: u64 where
  "VALUE_MASK = push_bit 32 0xffffffff"

definition has_writer :: "u64 \<Rightarrow> bool" where
  "has_writer val \<longleftrightarrow> val AND WRITER \<noteq> 0"

definition has_readers :: "u64 \<Rightarrow> bool" where
  "has_readers val \<longleftrightarrow> val AND READER_COUNT_MASK \<noteq> 0"

definition rw_read :: "rwlock \<Rightarrow> bool \<times> rwlock" where
  "rw_read cur = (if has_writer cur then (False, cur) else (True, cur + READER_INC))"

definition rw_write :: "rwlock \<Rightarrow> bool \<times> rwlock" where
  "rw_write cur = (if has_writer cur \<or> has_readers cur then (False, cur) else (True, cur OR WRITER))"

definition rw_upgrade :: "rwlock \<Rightarrow> bool \<times> rwlock" where
  "rw_upgrade cur =
     (if cur AND NOT VALUE_MASK \<noteq> READER_INC then (False, cur) else (True, (cur AND VALUE_MASK) OR WRITER))"

definition rw_downgrade :: "rwlock \<Rightarrow> rwlock" where
  "rw_downgrade cur = (cur AND VALUE_MASK) OR READER_INC"

definition rw_unlock :: "rwlock \<Rightarrow> rwlock res" where
  "rw_unlock cur =
     (if cur AND WRITER \<noteq> 0 then
        if has_readers cur then Inl Panic else Inr (cur AND NOT WRITER)
      else if \<not> has_readers cur then Inl Panic
      else Inr (cur - READER_INC))"

definition rw_get_value :: "rwlock \<Rightarrow> u32" where
  "rw_get_value cur = ucast (drop_bit 32 cur)"

definition rw_held_value :: "rwlock \<Rightarrow> u32 option" where
  "rw_held_value cur = (if has_readers cur then Some (ucast (drop_bit 32 cur)) else None)"

definition rw_set_value_exclusive :: "rwlock \<Rightarrow> u32 \<Rightarrow> rwlock res" where
  "rw_set_value_exclusive cur v =
     (if \<not> has_writer cur then Inl Panic else Inr ((cur AND NOT VALUE_MASK) OR push_bit 32 (ucast v)))"

section \<open>The word as value, readers and writer\<close>

definition rw_word :: "u32 \<Rightarrow> nat \<Rightarrow> bool \<Rightarrow> rwlock" where
  "rw_word v n w = push_bit 32 (ucast v) + (push_bit 1 (of_nat n) + of_bool w)"

lemma bit_small: "n < 2 ^ k \<Longrightarrow> k \<le> i \<Longrightarrow> \<not> bit (n :: nat) i"
  by (metis bit_take_bit_iff linorder_not_less take_bit_nat_eq_self)

lemma bit_count: "bit (of_nat n * 2 :: u64) i \<longleftrightarrow> 0 < i \<and> i < 64 \<and> bit n (i - 1)"
  using bit_double_iff [of "of_nat n :: u64" i] by (auto simp: bit_simps mult.commute)

lemma rw_word_or:
  assumes "n < 2 ^ 31"
  shows "rw_word v n w = push_bit 32 (ucast v) OR (push_bit 1 (of_nat n) OR of_bool w)"
proof -
  have "push_bit 1 (of_nat n :: u64) + of_bool w = push_bit 1 (of_nat n) OR of_bool w"
    by (rule disjunctive_add_eq_or, rule bit_eqI) (auto simp: bit_simps bit_count)
  moreover have "push_bit 32 (ucast v :: u64) + (push_bit 1 (of_nat n) OR of_bool w) = push_bit 32 (ucast v) OR (push_bit 1 (of_nat n) OR of_bool w)"
    by (rule disjunctive_add_eq_or, rule bit_eqI) (use bit_small [OF assms] in \<open>auto simp: bit_simps bit_count\<close>)
  ultimately show ?thesis by (simp add: rw_word_def)
qed

lemma bit_rw_word:
  assumes "n < 2 ^ 31"
  shows "bit (rw_word v n w) i \<longleftrightarrow> (if i = 0 then w else if i < 32 then bit n (i - 1) else bit v (i - 32))"
  using bit_small [OF assms] by (auto simp: rw_word_or [OF assms] bit_simps bit_count dest: bit_imp_le_length)


lemma masks:
  "READER_COUNT_MASK = push_bit 1 (mask 31)" "VALUE_MASK = push_bit 32 (mask 32)" "WRITER = push_bit 0 1" "READER_INC = push_bit 1 1"
  by (simp_all add: READER_COUNT_MASK_def VALUE_MASK_def WRITER_def READER_INC_def mask_eq_exp_minus_1)

lemma bit_masks:
  "bit WRITER i \<longleftrightarrow> i = 0" "bit READER_INC i \<longleftrightarrow> i = 1" "bit READER_COUNT_MASK i \<longleftrightarrow> 1 \<le> i \<and> i < 32" "bit VALUE_MASK i \<longleftrightarrow> 32 \<le> i \<and> i < 64"
  unfolding masks bit_push_bit_iff by (auto simp: bit_simps)

lemma nonzero_bit: "(w :: u64) \<noteq> 0 \<longleftrightarrow> (\<exists>i. bit w i)"
  using bit_eq_iff [of w 0] by (auto dest: bit_imp_le_length)

lemma rw_flags:
  assumes "n < 2 ^ 31"
  shows "has_writer (rw_word v n w) \<longleftrightarrow> w" "has_readers (rw_word v n w) \<longleftrightarrow> n \<noteq> 0"
    "rw_word v n w AND NOT VALUE_MASK = rw_word 0 n w" "rw_word v n w AND VALUE_MASK = rw_word v 0 False"
    "rw_word v n w OR WRITER = rw_word v n True" "rw_word v n w AND NOT WRITER = rw_word v n False" "rw_get_value (rw_word v n w) = v"
proof -
  note b = bit_rw_word [OF assms] bit_rw_word [of 0] bit_masks
  show "rw_word v n w AND NOT VALUE_MASK = rw_word 0 n w" "rw_word v n w AND VALUE_MASK = rw_word v 0 False"
    "rw_word v n w OR WRITER = rw_word v n True" "rw_word v n w AND NOT WRITER = rw_word v n False" "rw_get_value (rw_word v n w) = v"
    by (rule bit_word_eqI, auto simp: b bit_simps rw_get_value_def)+
  show "has_writer (rw_word v n w) \<longleftrightarrow> w" unfolding has_writer_def nonzero_bit by (auto simp: b bit_simps)
  have "n = 0" if "\<And>i. i < 31 \<Longrightarrow> \<not> bit n i" 
    using bit_eq_iff [of n 0] that bit_small [OF assms] by (metis bit_0_eq bot_apply bot_bool_def linorder_not_less)
  moreover have "has_readers (rw_word v n w) \<longleftrightarrow> (\<exists>i. i < 31 \<and> bit n i)"
  proof
    assume "has_readers (rw_word v n w)"
    then obtain i where "1 \<le> i" "i < 32" "bit n (i - 1)" unfolding has_readers_def nonzero_bit by (auto simp: b bit_simps)
    then show "\<exists>i. i < 31 \<and> bit n i" by (intro exI [of _ "i - 1"]) simp
  next
    assume "\<exists>i. i < 31 \<and> bit n i"
    then obtain i where "i < 31" "bit n i" by blast
    then show "has_readers (rw_word v n w)" unfolding has_readers_def nonzero_bit by (intro exI [of _ "Suc i"]) (simp add: b bit_simps)
  qed
  ultimately show "has_readers (rw_word v n w) \<longleftrightarrow> n \<noteq> 0" by (metis bit_0_eq bot_apply bot_bool_def)
qed

lemma rw_word_inject:
  assumes "n < 2 ^ 31" "n' < 2 ^ 31"
  shows "rw_word v n w = rw_word v' n' w' \<longleftrightarrow> v = v' \<and> n = n' \<and> w = w'"
proof
  assume eq: "rw_word v n w = rw_word v' n' w'"
  have v: "v = v'" "w = w'" using rw_flags(1,7) [OF assms(1), of v w] rw_flags(1,7) [OF assms(2), of v' w'] eq by simp_all
  have "bit n i \<longleftrightarrow> bit n' i" for i
  proof (cases "i < 31")
    case True
    then show ?thesis using eq bit_rw_word [OF assms(1), of v w "Suc i"] bit_rw_word [OF assms(2), of v' w' "Suc i"] by simp
  next
    case False
    then show ?thesis using bit_small [OF assms(1), of i] bit_small [OF assms(2), of i] by simp
  qed
  then show "v = v' \<and> n = n' \<and> w = w'" using v by (simp add: bit_eq_iff)
qed simp

text \<open>What each operation does to value, readers and writer.\<close>

lemma rw_count: "rw_word v n w + READER_INC = rw_word v (n + 1) w" "0 < n \<Longrightarrow> rw_word v n w - READER_INC = rw_word v (n - 1) w"
proof -
  show *: "rw_word v n w + READER_INC = rw_word v (n + 1) w" for n by (simp add: rw_word_def READER_INC_def)
  assume "0 < n"
  then show "rw_word v n w - READER_INC = rw_word v (n - 1) w" using * [of "n - 1"] by (metis Suc_eq_plus1 Suc_diff_1 add_diff_cancel_right')
qed

lemma rw_ops:
  assumes n: "n < 2 ^ 31"
  shows "rw_read (rw_word v n w) = (if w then (False, rw_word v n w) else (True, rw_word v (n + 1) w))"
    "rw_write (rw_word v n w) = (if w \<or> n \<noteq> 0 then (False, rw_word v n w) else (True, rw_word v n True))"
    "rw_upgrade (rw_word v n w) = (if n = 1 \<and> \<not> w then (True, rw_word v 0 True) else (False, rw_word v n w))"
    "rw_downgrade (rw_word v n w) = rw_word v 1 False"
    "rw_unlock (rw_word v n False) = (if n = 0 then Inl Panic else Inr (rw_word v (n - 1) False))"
    "rw_unlock (rw_word v n True) = (if n = 0 then Inr (rw_word v 0 False) else Inl Panic)"
    "rw_held_value (rw_word v n w) = (if n = 0 then None else Some v)"
    "rw_set_value_exclusive (rw_word v n w) x = (if w then Inr (rw_word x n True) else Inl Panic)"
proof -
  note f = rw_flags [OF n] rw_flags [of 0]
  show "rw_read (rw_word v n w) = (if w then (False, rw_word v n w) else (True, rw_word v (n + 1) w))"
    "rw_write (rw_word v n w) = (if w \<or> n \<noteq> 0 then (False, rw_word v n w) else (True, rw_word v n True))"
    by (simp_all add: rw_read_def rw_write_def f rw_count)
  show "rw_unlock (rw_word v n False) = (if n = 0 then Inl Panic else Inr (rw_word v (n - 1) False))"
    "rw_unlock (rw_word v n True) = (if n = 0 then Inr (rw_word v 0 False) else Inl Panic)"
    using rw_flags(1) [OF n, of v] by (simp_all add: rw_unlock_def f rw_count flip: has_writer_def)
  have i: "READER_INC = rw_word 0 1 False" by (simp add: READER_INC_def rw_word_def)
  then show "rw_upgrade (rw_word v n w) = (if n = 1 \<and> \<not> w then (True, rw_word v 0 True) else (False, rw_word v n w))"
    using rw_word_inject [OF n, of 1 0 w 0 False] rw_flags [of 1] by (auto simp: rw_upgrade_def f)
  show "rw_downgrade (rw_word v n w) = rw_word v 1 False"
    unfolding rw_downgrade_def f by (rule bit_word_eqI) (auto simp: bit_rw_word bit_masks bit_simps)
  show "rw_held_value (rw_word v n w) = (if n = 0 then None else Some v)" by (simp add: rw_held_value_def f flip: rw_get_value_def)
  have "rw_word 0 n True OR push_bit 32 (ucast x) = rw_word x n True"
    by (rule bit_word_eqI) (auto simp: bit_rw_word [OF n] bit_simps)
  then show "rw_set_value_exclusive (rw_word v n w) x = (if w then Inr (rw_word x n True) else Inl Panic)"
    by (auto simp: rw_set_value_exclusive_def f)
qed

end
