(* ===== verification/Wal_Coordination.thy ===== *)
theory Wal_Coordination
  imports Wal_Format Rw_Lock
begin

text \<open>
  The coordination of connections around the write-ahead log (\<^verbatim>\<open>core/storage/wal.rs\<close>,
  \<^verbatim>\<open>InProcessWalCoordination\<close> and \<^verbatim>\<open>WalFileShared\<close>): read marks, the writer and checkpointer locks, the frame index, and the
  restart of the log. Every operation takes the shared state and returns the new one with its result: a failed assertion is
  an outer error, an \<^verbatim>\<open>Err\<close> of the source, which leaves a state behind, an inner one.

  Frame numbers and counters (\<^verbatim>\<open>u64\<close>) are natural numbers; read marks are 32-bit words as in the source.
\<close>

section \<open>Shared state\<close>

record wal_shared = wal_index +
  read_locks :: "rwlock list"
  vacuum_lock :: rwlock
  write_lock :: rwlock
  checkpoint_lock :: rwlock
  epoch :: u32

record wal_snapshot =
  s_max_frame :: nat
  s_nbackfills :: nat
  s_last_checksum :: "u32 \<times> u32"
  s_checkpoint_seq :: u32
  s_transaction_count :: nat

definition snapshot_min_frame :: "wal_snapshot \<Rightarrow> nat" where
  "snapshot_min_frame s = s_nbackfills s + 1"

datatype read_guard_kind = NoGuard | DbFile | ReadMark nat

datatype checkpoint_mode = Passive "nat option" | Full | Restart | Truncate "nat option"

fun should_restart_log :: "checkpoint_mode \<Rightarrow> bool" where
  "should_restart_log (Truncate _) = True"
| "should_restart_log Restart = True"
| "should_restart_log _ = False"

fun require_all_backfilled :: "checkpoint_mode \<Rightarrow> bool" where
  "require_all_backfilled (Passive _) = False"
| "require_all_backfilled _ = True"

datatype checkpoint_guard_kind = Writer | Read0

definition READMARK_NOT_USED :: u32 where
  "READMARK_NOT_USED = 0xffffffff"

section \<open>Locks\<close>

definition try_read_mark_shared :: "wal_shared \<Rightarrow> nat \<Rightarrow> bool \<times> wal_shared" where
  "try_read_mark_shared s slot = (case rw_read (read_locks s ! slot) of (ok, w) \<Rightarrow> (ok, s\<lparr>read_locks := (read_locks s)[slot := w]\<rparr>))"

definition try_read_mark_exclusive :: "wal_shared \<Rightarrow> nat \<Rightarrow> bool \<times> wal_shared" where
  "try_read_mark_exclusive s slot = (case rw_write (read_locks s ! slot) of (ok, w) \<Rightarrow> (ok, s\<lparr>read_locks := (read_locks s)[slot := w]\<rparr>))"

definition unlock_read_mark :: "wal_shared \<Rightarrow> nat \<Rightarrow> wal_shared res" where
  "unlock_read_mark s slot = rbind (rw_unlock (read_locks s ! slot)) (\<lambda>w. Inr (s\<lparr>read_locks := (read_locks s)[slot := w]\<rparr>))"

definition read_mark_value :: "wal_shared \<Rightarrow> nat \<Rightarrow> u32" where
  "read_mark_value s slot = rw_get_value (read_locks s ! slot)"

definition set_read_mark_value_exclusive :: "wal_shared \<Rightarrow> nat \<Rightarrow> u32 \<Rightarrow> wal_shared res" where
  "set_read_mark_value_exclusive s slot v =
     rbind (rw_set_value_exclusive (read_locks s ! slot) v) (\<lambda>w. Inr (s\<lparr>read_locks := (read_locks s)[slot := w]\<rparr>))"

definition try_upgrade_read_mark :: "wal_shared \<Rightarrow> nat \<Rightarrow> bool \<times> wal_shared" where
  "try_upgrade_read_mark s slot = (case rw_upgrade (read_locks s ! slot) of (ok, w) \<Rightarrow> (ok, s\<lparr>read_locks := (read_locks s)[slot := w]\<rparr>))"

definition downgrade_read_mark :: "wal_shared \<Rightarrow> nat \<Rightarrow> wal_shared" where
  "downgrade_read_mark s slot = s\<lparr>read_locks := (read_locks s)[slot := rw_downgrade (read_locks s ! slot)]\<rparr>"

definition try_write_lock :: "wal_shared \<Rightarrow> bool \<times> wal_shared" where
  "try_write_lock s = (case rw_write (write_lock s) of (ok, w) \<Rightarrow> (ok, s\<lparr>write_lock := w\<rparr>))"

definition unlock_write_lock :: "wal_shared \<Rightarrow> wal_shared res" where
  "unlock_write_lock s = rbind (rw_unlock (write_lock s)) (\<lambda>w. Inr (s\<lparr>write_lock := w\<rparr>))"

definition try_checkpoint_lock :: "wal_shared \<Rightarrow> bool \<times> wal_shared" where
  "try_checkpoint_lock s = (case rw_write (checkpoint_lock s) of (ok, w) \<Rightarrow> (ok, s\<lparr>checkpoint_lock := w\<rparr>))"

definition unlock_checkpoint_lock :: "wal_shared \<Rightarrow> wal_shared res" where
  "unlock_checkpoint_lock s = rbind (rw_unlock (checkpoint_lock s)) (\<lambda>w. Inr (s\<lparr>checkpoint_lock := w\<rparr>))"

fun min_pinned_loop :: "rwlock list \<Rightarrow> nat option \<Rightarrow> nat option" where
  "min_pinned_loop [] m = m"
| "min_pinned_loop (l # ls) m =
     min_pinned_loop ls
       (case rw_held_value l of
          None \<Rightarrow> m
        | Some v \<Rightarrow> if v = READMARK_NOT_USED then m else Some (case m of None \<Rightarrow> unat v | Some k \<Rightarrow> min k (unat v)))"

definition min_pinned_read_frame :: "wal_shared \<Rightarrow> nat option" where
  "min_pinned_read_frame s = min_pinned_loop (map ((!) (read_locks s)) [1..<5]) None"

section \<open>Snapshots and transactions\<close>

definition load_snapshot :: "wal_shared \<Rightarrow> wal_snapshot" where
  "load_snapshot s = \<lparr>s_max_frame = max_frame s, s_nbackfills = nbackfills s, s_last_checksum = last_checksum s,
     s_checkpoint_seq = checkpoint_seq (header s), s_transaction_count = transaction_count s\<rparr>"

definition publish_commit :: "wal_shared \<Rightarrow> nat \<Rightarrow> u32 \<times> u32 \<Rightarrow> nat \<Rightarrow> wal_shared" where
  "publish_commit s mf ck tc = s\<lparr>max_frame := mf, last_checksum := ck, transaction_count := tc\<rparr>"

definition publish_backfill :: "wal_shared \<Rightarrow> nat \<Rightarrow> wal_shared" where
  "publish_backfill s mf = s\<lparr>nbackfills := mf\<rparr>"

fun best_read_mark :: "wal_shared \<Rightarrow> u32 \<Rightarrow> nat list \<Rightarrow> nat option \<times> u32 \<Rightarrow> nat option \<times> u32" where
  "best_read_mark s mf [] best = best"
| "best_read_mark s mf (idx # idxs) (best_idx, best_mark) =
     (let mark = read_mark_value s idx in
      best_read_mark s mf idxs
        (if mark \<noteq> READMARK_NOT_USED \<and> mark \<le> mf \<and> mark > best_mark then (Some idx, mark) else (best_idx, best_mark)))"

fun claim_read_mark :: "wal_shared \<Rightarrow> u32 \<Rightarrow> nat list \<Rightarrow> (nat option \<times> wal_shared) res" where
  "claim_read_mark s mf [] = Inr (None, s)"
| "claim_read_mark s mf (idx # idxs) =
     (case try_read_mark_exclusive s idx of (ok, s) \<Rightarrow>
       if \<not> ok then claim_read_mark s mf idxs
       else rbind (set_read_mark_value_exclusive s idx mf) (\<lambda>s.
         rbind (unlock_read_mark s idx) (\<lambda>s. Inr (Some idx, s))))"

text \<open>
  \<^verbatim>\<open>try_begin_read_tx\<close> in the parts between which other connections may act, each operation on the shared state taking its lock anew:
  finding the slot to use, with the mark expected there (slot 0, the database file, has no mark); locking it; and the check of the snapshot and the mark under the lock.
\<close>

definition try_begin_read_claim :: "wal_shared \<Rightarrow> wal_snapshot \<Rightarrow> ((nat \<times> u32) option \<times> wal_shared) res" where
  "try_begin_read_claim s snapshot =
     (if s_max_frame snapshot > 2 ^ 32 - 1 then Inl Panic
      else if s_max_frame snapshot = s_nbackfills snapshot then Inr (Some (0, 0), s)
      else
        (case best_read_mark s (of_nat (s_max_frame snapshot)) [1..<5] (None, 0) of (best_idx, best_mark) \<Rightarrow>
           let best = map_option (\<lambda>idx. (idx, best_mark)) best_idx in
           if best_idx = None \<or> unat best_mark < s_max_frame snapshot
           then rbind (claim_read_mark s (of_nat (s_max_frame snapshot)) [1..<5]) (\<lambda>(claimed, s).
             Inr (case claimed of Some idx \<Rightarrow> Some (idx, of_nat (s_max_frame snapshot)) | None \<Rightarrow> best, s))
           else Inr (best, s)))"

definition try_begin_read_lock :: "wal_shared \<Rightarrow> nat \<times> u32 \<Rightarrow> bool \<times> wal_shared" where
  "try_begin_read_lock s best = try_read_mark_shared s (fst best)"

definition try_begin_read_check :: "wal_shared \<Rightarrow> wal_snapshot \<Rightarrow> nat \<times> u32 \<Rightarrow> (read_guard_kind option \<times> wal_shared) res" where
  "try_begin_read_check s snapshot best =
     (case best of (idx, best_mark) \<Rightarrow>
        if idx \<noteq> 0 \<and> read_mark_value s idx \<noteq> best_mark \<or> load_snapshot s \<noteq> snapshot
        then rbind (unlock_read_mark s idx) (\<lambda>s. Inr (None, s))
        else Inr (Some (if idx = 0 then DbFile else ReadMark idx), s))"

fun coordination_end_read_tx :: "wal_shared \<Rightarrow> read_guard_kind \<Rightarrow> wal_shared res" where
  "coordination_end_read_tx s NoGuard = Inr s"
| "coordination_end_read_tx s DbFile = unlock_read_mark s 0"
| "coordination_end_read_tx s (ReadMark slot) = unlock_read_mark s slot"

section \<open>Checkpoints\<close>

definition acquire_checkpoint_guard :: "wal_shared \<Rightarrow> checkpoint_mode \<Rightarrow> (checkpoint_guard_kind res \<times> wal_shared) res" where
  "acquire_checkpoint_guard s mode =
     (case try_checkpoint_lock s of (ok, s) \<Rightarrow>
       if \<not> ok then Inr (Inl Busy, s)
       else (case mode of
         Passive _ \<Rightarrow>
           (case try_read_mark_exclusive s 0 of (ok, s) \<Rightarrow>
             if \<not> ok then rbind (unlock_checkpoint_lock s) (\<lambda>s. Inr (Inl Busy, s))
             else Inr (Inr Read0, s))
       | Full \<Rightarrow>
           (case try_read_mark_exclusive s 0 of (ok, s) \<Rightarrow>
             if \<not> ok then rbind (unlock_checkpoint_lock s) (\<lambda>s. Inr (Inl Busy, s))
             else (case try_write_lock s of (ok, s) \<Rightarrow>
               if \<not> ok then rbind (unlock_read_mark s 0) (\<lambda>s. rbind (unlock_checkpoint_lock s) (\<lambda>s. Inr (Inl Busy, s)))
               else Inr (Inr Writer, s)))
       | _ \<Rightarrow>
           (case try_read_mark_exclusive s 0 of (ok, s) \<Rightarrow>
             if \<not> ok then rbind (unlock_checkpoint_lock s) (\<lambda>s. Inr (Inl Busy, s))
             else (case try_write_lock s of (ok, s) \<Rightarrow>
               if \<not> ok then rbind (unlock_checkpoint_lock s) (\<lambda>s. rbind (unlock_read_mark s 0) (\<lambda>s. Inr (Inl Busy, s)))
               else Inr (Inr Writer, s)))))"

fun release_checkpoint_guard :: "wal_shared \<Rightarrow> checkpoint_guard_kind \<Rightarrow> wal_shared res" where
  "release_checkpoint_guard s Writer =
     rbind (unlock_write_lock s) (\<lambda>s. rbind (unlock_read_mark s 0) (\<lambda>s. unlock_checkpoint_lock s))"
| "release_checkpoint_guard s Read0 = rbind (unlock_read_mark s 0) (\<lambda>s. unlock_checkpoint_lock s)"

fun max_safe_loop :: "wal_shared \<Rightarrow> nat \<Rightarrow> nat list \<Rightarrow> (nat \<times> wal_shared) res" where
  "max_safe_loop s max_safe_frame [] = Inr (max_safe_frame, s)"
| "max_safe_loop s max_safe_frame (idx # idxs) =
     (let this_mark = read_mark_value s idx in
      if this_mark < of_nat max_safe_frame then
        (case try_read_mark_exclusive s idx of (ok, s) \<Rightarrow>
          if ok then
            rbind (set_read_mark_value_exclusive s idx (if idx = 1 then of_nat max_safe_frame else READMARK_NOT_USED)) (\<lambda>s.
            rbind (unlock_read_mark s idx) (\<lambda>s. max_safe_loop s max_safe_frame idxs))
          else max_safe_loop s (unat this_mark) idxs)
      else max_safe_loop s max_safe_frame idxs)"

definition determine_max_safe_checkpoint_frame :: "wal_shared \<Rightarrow> nat \<Rightarrow> (nat \<times> wal_shared) res" where
  "determine_max_safe_checkpoint_frame s mf = (if mf > 2 ^ 32 - 1 then Inl Panic else max_safe_loop s mf [1..<5])"

section \<open>Restarting the log\<close>

fun set_values :: "wal_shared \<Rightarrow> (nat \<times> u32) list \<Rightarrow> wal_shared res" where
  "set_values s [] = Inr s"
| "set_values s ((idx, v) # xs) = rbind (set_read_mark_value_exclusive s idx v) (\<lambda>s. set_values s xs)"

definition restart_wal_header :: "wal_shared \<Rightarrow> u32 \<Rightarrow> wal_shared res" where
  "restart_wal_header s rnd =
     (let h = header s;
          h = h\<lparr>checkpoint_seq := checkpoint_seq h + 1, salt_1 := salt_1 h + 1, salt_2 := rnd\<rparr>;
          s = s\<lparr>header := h, max_frame := 0, nbackfills := 0, last_checksum := (checksum_1 h, checksum_2 h), initialized := False,
                frame_cache := (\<lambda>_. []), frame_cache_high_water := 0\<rparr>
      in set_values s [(0, 0), (1, 0), (2, READMARK_NOT_USED), (3, READMARK_NOT_USED), (4, READMARK_NOT_USED)])"

fun unlock_read_marks :: "wal_shared \<Rightarrow> nat list \<Rightarrow> wal_shared res" where
  "unlock_read_marks s [] = Inr s"
| "unlock_read_marks s (idx # idxs) = rbind (unlock_read_mark s idx) (\<lambda>s. unlock_read_marks s idxs)"

fun lock_read_marks :: "wal_shared \<Rightarrow> nat list \<Rightarrow> (bool \<times> wal_shared) res" where
  "lock_read_marks s [] = Inr (True, s)"
| "lock_read_marks s (idx # idxs) =
     (case try_read_mark_exclusive s idx of (ok, s) \<Rightarrow>
       if \<not> ok then rbind (unlock_read_marks s [1..<idx]) (\<lambda>s. Inr (False, s))
       else rbind (set_read_mark_value_exclusive s idx READMARK_NOT_USED) (\<lambda>s. lock_read_marks s idxs))"

definition begin_restart :: "wal_shared \<Rightarrow> u32 \<Rightarrow> (wal_snapshot res \<times> wal_shared) res" where
  "begin_restart s rnd =
     rbind (lock_read_marks s [1..<5]) (\<lambda>(ok, s).
       if \<not> ok then Inr (Inl Busy, s)
       else rbind (restart_wal_header s rnd) (\<lambda>s. Inr (Inr (load_snapshot s), s)))"

definition end_restart :: "wal_shared \<Rightarrow> wal_shared res" where
  "end_restart s = unlock_read_marks s [1..<5]"

definition try_restart_log_for_write :: "wal_shared \<Rightarrow> u32 \<Rightarrow> (wal_snapshot option res \<times> wal_shared) res" where
  "try_restart_log_for_write s rnd =
     (case try_upgrade_read_mark s 0 of (ok, s) \<Rightarrow>
       if \<not> ok then Inr (Inr None, s)
       else rbind (begin_restart s rnd) (\<lambda>(result, s).
         let s = downgrade_read_mark s 0 in
         case result of
           Inr snapshot \<Rightarrow> rbind (end_restart s) (\<lambda>s. Inr (Inr (Some snapshot), s))
         | Inl err \<Rightarrow> Inr (Inl err, s)))"

definition prepare_truncate :: "wal_shared \<Rightarrow> wal_shared" where
  "prepare_truncate s = s\<lparr>initialized := False\<rparr>"

definition prepare_wal_header :: "bool \<Rightarrow> usize \<Rightarrow> u32 \<Rightarrow> u32 \<Rightarrow> wal_shared \<Rightarrow> (wal_header option \<times> wal_shared) res" where
  "prepare_wal_header big page_size r1 r2 s =
     (if initialized s then Inr (None, s)
      else rbind (seal_wal_header big page_size r1 r2 (header s)) (\<lambda>hdr.
        Inr (Some hdr, s\<lparr>header := hdr, last_checksum := (checksum_1 hdr, checksum_2 hdr)\<rparr>)))"

definition mark_initialized :: "wal_shared \<Rightarrow> wal_shared" where
  "mark_initialized s = s\<lparr>initialized := True\<rparr>"

definition bump_checkpoint_epoch :: "wal_shared \<Rightarrow> wal_shared" where
  "bump_checkpoint_epoch s = s\<lparr>epoch := epoch s + 1\<rparr>"

section \<open>The frame index\<close>

definition pop_frames :: "(nat \<Rightarrow> bool) \<Rightarrow> nat list \<Rightarrow> nat list" where
  "pop_frames P frames = rev (dropWhile P (rev frames))"

definition cache_frame :: "wal_shared \<Rightarrow> nat \<Rightarrow> nat \<Rightarrow> wal_shared" where
  "cache_frame s page_id frame_id =
     (let fc = frame_cache s;
          fc = (if frame_id \<le> frame_cache_high_water s then (\<lambda>p. pop_frames (\<lambda>f. f \<ge> frame_id) (fc p)) else fc)
      in s\<lparr>frame_cache := fc(page_id := fc page_id @ [frame_id]), frame_cache_high_water := frame_id\<rparr>)"

definition rollback_cache :: "wal_shared \<Rightarrow> nat \<Rightarrow> wal_shared" where
  "rollback_cache s mf =
     s\<lparr>frame_cache := (\<lambda>p. pop_frames (\<lambda>f. f > mf) (frame_cache s p)),
       frame_cache_high_water := (if frame_cache_high_water s > mf then mf else frame_cache_high_water s)\<rparr>"

definition rfind :: "('a \<Rightarrow> bool) \<Rightarrow> 'a list \<Rightarrow> 'a option" where
  "rfind P xs = find P (rev xs)"

definition coordination_find_frame :: "wal_shared \<Rightarrow> nat \<Rightarrow> nat \<Rightarrow> nat \<Rightarrow> nat option \<Rightarrow> nat option" where
  "coordination_find_frame s page_id mn mx frame_watermark =
     rfind (\<lambda>f. case frame_watermark of Some x \<Rightarrow> f \<le> x | None \<Rightarrow> mn \<le> f \<and> f \<le> mx) (frame_cache s page_id)"

text \<open>\<open>keys\<close> is the iteration order of the frame index, a hash map.\<close>

definition iter_latest_frames :: "wal_shared \<Rightarrow> nat list \<Rightarrow> nat \<Rightarrow> nat \<Rightarrow> (nat \<times> nat) list" where
  "iter_latest_frames s keys mn mx =
     sort_key fst (List.map_filter (\<lambda>p. map_option (Pair p) (rfind (\<lambda>f. mn \<le> f \<and> f \<le> mx) (frame_cache s p))) keys)"

end
