(* ===== verification/Wal_File.thy ===== *)
theory Wal_File
  imports Wal_Coordination
begin

text \<open>
  A connection's side of the write-ahead log (\<^verbatim>\<open>core/storage/wal.rs\<close>, \<^verbatim>\<open>WalFile\<close>): read and write transactions, appending and
  committing frames, rollback, and the phases of a checkpoint. An operation that the source runs in several
  atomic parts, with other connections in between, is one definition per part.

  Not modelled: the blocking transaction of VACUUM (its lock is), I/O errors, encryption and page checksums,
  and the cache that lets a checkpoint take a page from memory instead of reading its frame.
\<close>

section \<open>Connections\<close>

record wal_file =
  c_max_frame :: nat
  c_min_frame :: nat
  c_last_checksum :: "u32 \<times> u32"
  c_checkpoint_seq :: u32
  c_transaction_count :: nat
  c_read_guard :: read_guard_kind
  c_write_lock_held :: bool
  c_vacuum_read :: bool
  c_checkpoint_guard :: "checkpoint_guard_kind option"
  oc_min_frame :: nat
  oc_max_frame :: nat
  pages_to_checkpoint :: "(nat \<times> nat) list"

definition wal_file_new :: "wal_shared \<Rightarrow> wal_file" where
  "wal_file_new s = \<lparr>c_max_frame = max_frame s, c_min_frame = 0, c_last_checksum = last_checksum s, c_checkpoint_seq = 0,
     c_transaction_count = 0, c_read_guard = NoGuard, c_write_lock_held = False, c_vacuum_read = False, c_checkpoint_guard = None,
     oc_min_frame = 0, oc_max_frame = 0, pages_to_checkpoint = []\<rparr>"

definition connection_snapshot :: "'a wal_file_scheme \<Rightarrow> wal_snapshot" where
  "connection_snapshot c = \<lparr>s_max_frame = c_max_frame c, s_nbackfills = c_min_frame c - 1, s_last_checksum = c_last_checksum c,
     s_checkpoint_seq = c_checkpoint_seq c, s_transaction_count = c_transaction_count c\<rparr>"

definition install_snapshot :: "wal_snapshot \<Rightarrow> 'a wal_file_scheme \<Rightarrow> 'a wal_file_scheme" where
  "install_snapshot snapshot c = c\<lparr>c_max_frame := s_max_frame snapshot, c_min_frame := snapshot_min_frame snapshot,
     c_last_checksum := s_last_checksum snapshot, c_checkpoint_seq := s_checkpoint_seq snapshot, c_transaction_count := s_transaction_count snapshot\<rparr>"

definition db_changed_against :: "wal_snapshot \<Rightarrow> 'a wal_file_scheme \<Rightarrow> bool" where
  "db_changed_against snapshot c \<longleftrightarrow> snapshot \<noteq> connection_snapshot c"

definition wal_reset_internal_states :: "'a wal_file_scheme \<Rightarrow> 'a wal_file_scheme" where
  "wal_reset_internal_states c = c\<lparr>oc_min_frame := 0, oc_max_frame := 0, pages_to_checkpoint := []\<rparr>"

section \<open>Read transactions\<close>

text \<open>\<^verbatim>\<open>try_begin_read_tx\<close> up to the call of the coordination: the vacuum lock and the snapshot.\<close>

definition begin_read_load :: "wal_shared \<Rightarrow> 'a wal_file_scheme \<Rightarrow> (wal_snapshot res \<times> wal_shared) res" where
  "begin_read_load s c =
     (if c_read_guard c \<noteq> NoGuard \<or> c_vacuum_read c then Inl Panic
      else (case rw_read (vacuum_lock s) of (ok, w) \<Rightarrow>
        if \<not> ok then Inr (Inl Busy, s)
        else
          let s = s\<lparr>vacuum_lock := w\<rparr>;
              shared_snapshot = load_snapshot s
          in if s_nbackfills shared_snapshot > s_max_frame shared_snapshot then Inl Panic
          else Inr (Inr shared_snapshot, s)))"

text \<open>The rest of it, around the parts of the coordination: \<open>None\<close> (\<open>False\<close> for the lock) asks the caller to retry, otherwise the result says whether the database changed.\<close>

definition begin_read_retry :: "wal_shared \<Rightarrow> wal_shared res" where
  "begin_read_retry s = rbind (rw_unlock (vacuum_lock s)) (\<lambda>w. Inr (s\<lparr>vacuum_lock := w\<rparr>))"

definition begin_read_claim :: "wal_shared \<Rightarrow> wal_snapshot \<Rightarrow> ((nat \<times> u32) option \<times> wal_shared) res" where
  "begin_read_claim s shared_snapshot =
     rbind (try_begin_read_claim s shared_snapshot) (\<lambda>(best, s).
       case best of
         None \<Rightarrow> rbind (begin_read_retry s) (\<lambda>s. Inr (None, s))
       | Some b \<Rightarrow> Inr (Some b, s))"

definition begin_read_lock :: "wal_shared \<Rightarrow> nat \<times> u32 \<Rightarrow> (bool \<times> wal_shared) res" where
  "begin_read_lock s best =
     (case try_begin_read_lock s best of (ok, s) \<Rightarrow>
       if \<not> ok then rbind (begin_read_retry s) (\<lambda>s. Inr (False, s)) else Inr (True, s))"

definition begin_read_check :: "wal_shared \<Rightarrow> 'a wal_file_scheme \<Rightarrow> wal_snapshot \<Rightarrow> nat \<times> u32 \<Rightarrow> (bool option \<times> wal_shared \<times> 'a wal_file_scheme) res" where
  "begin_read_check s c shared_snapshot best =
     (let db_changed = db_changed_against shared_snapshot c in
      rbind (try_begin_read_check s shared_snapshot best) (\<lambda>(read_guard, s).
        case read_guard of
          None \<Rightarrow> rbind (begin_read_retry s) (\<lambda>s. Inr (None, s, c))
        | Some g \<Rightarrow> Inr (Some db_changed, s, (install_snapshot shared_snapshot c)\<lparr>c_read_guard := g, c_vacuum_read := True\<rparr>)))"

definition end_read_tx :: "wal_shared \<Rightarrow> 'a wal_file_scheme \<Rightarrow> (wal_shared \<times> 'a wal_file_scheme) res" where
  "end_read_tx s c =
     (if c_read_guard c \<noteq> NoGuard then
        rbind (coordination_end_read_tx s (c_read_guard c)) (\<lambda>s.
          if \<not> c_vacuum_read c then Inl Panic
          else rbind (rw_unlock (vacuum_lock s)) (\<lambda>w. Inr (s\<lparr>vacuum_lock := w\<rparr>, c\<lparr>c_read_guard := NoGuard, c_vacuum_read := False\<rparr>)))
      else if c_vacuum_read c then Inl Panic
      else Inr (s, c))"

definition find_frame :: "wal_shared \<Rightarrow> 'a wal_file_scheme \<Rightarrow> nat \<Rightarrow> nat option \<Rightarrow> nat option res" where
  "find_frame s c page_id frame_watermark =
     (if (case frame_watermark of None \<Rightarrow> 0 | Some w \<Rightarrow> w) > c_max_frame c then Inl Panic
      else if frame_watermark \<noteq> None \<and> the frame_watermark < nbackfills s then Inl Panic
      else if c_read_guard c = DbFile \<and> c_max_frame c < c_min_frame c then Inr None
      else Inr (coordination_find_frame s page_id (c_min_frame c) (c_max_frame c) frame_watermark))"

section \<open>Write transactions\<close>

definition begin_write_lock :: "wal_shared \<Rightarrow> 'a wal_file_scheme \<Rightarrow> (unit res \<times> wal_shared \<times> 'a wal_file_scheme) res" where
  "begin_write_lock s c =
     (if c_read_guard c = NoGuard \<or> c_write_lock_held c then Inl Panic
      else (case try_write_lock s of (ok, s) \<Rightarrow>
        if \<not> ok then Inr (Inl Busy, s, c)
        else if db_changed_against (load_snapshot s) c
        then rbind (unlock_write_lock s) (\<lambda>s. Inr (Inl BusySnapshot, s, c))
        else Inr (Inr (), s, c\<lparr>c_write_lock_held := True\<rparr>)))"

definition apply_restart_snapshot :: "wal_snapshot \<Rightarrow> 'a wal_file_scheme \<Rightarrow> 'a wal_file_scheme" where
  "apply_restart_snapshot snapshot c = c\<lparr>c_last_checksum := s_last_checksum snapshot, c_max_frame := s_max_frame snapshot,
     c_min_frame := 0, c_checkpoint_seq := s_checkpoint_seq snapshot\<rparr>"

definition try_restart_log_before_write ::
  "wal_shared \<Rightarrow> 'a wal_file_scheme \<Rightarrow> u32 \<Rightarrow> (unit res \<times> wal_shared \<times> 'a wal_file_scheme) res" where
  "try_restart_log_before_write s c rnd =
     (if c_read_guard c \<noteq> DbFile then Inr (Inr (), s, c)
      else if nbackfills s = 0 then Inr (Inr (), s, c)
      else if max_frame s < nbackfills s then Inl Panic
      else if max_frame s \<noteq> nbackfills s then Inr (Inr (), s, c)
      else rbind (try_restart_log_for_write s rnd) (\<lambda>(result, s).
        case result of
          Inl e \<Rightarrow> Inr (Inl e, s, c)
        | Inr None \<Rightarrow> Inr (Inr (), s, c)
        | Inr (Some snapshot) \<Rightarrow> Inr (Inr (), bump_checkpoint_epoch s, apply_restart_snapshot snapshot c)))"

text \<open>\<^verbatim>\<open>begin_write_tx\<close> after the lock is taken; \<open>allow\<close> says whether the log may be restarted.\<close>

definition begin_write_restart ::
  "bool \<Rightarrow> wal_shared \<Rightarrow> 'a wal_file_scheme \<Rightarrow> u32 \<Rightarrow> (unit res \<times> wal_shared \<times> 'a wal_file_scheme) res" where
  "begin_write_restart allow s c rnd =
     (if \<not> allow then Inr (Inr (), s, c)
      else rbind (try_restart_log_before_write s c rnd) (\<lambda>(result, s, c).
        if result = Inl Busy \<or> result = Inr () then Inr (Inr (), s, c)
        else rbind (unlock_write_lock s) (\<lambda>s. if c_write_lock_held c then Inr (result, s, c\<lparr>c_write_lock_held := False\<rparr>) else Inl Panic)))"

definition end_write_tx :: "wal_shared \<Rightarrow> 'a wal_file_scheme \<Rightarrow> (wal_shared \<times> 'a wal_file_scheme) res" where
  "end_write_tx s c =
     (if \<not> c_write_lock_held c then Inl Panic
      else rbind (unlock_write_lock s) (\<lambda>s. Inr (s, c\<lparr>c_write_lock_held := False\<rparr>)))"

definition prepare_wal_start ::
  "bool \<Rightarrow> usize \<Rightarrow> u32 \<Rightarrow> u32 \<Rightarrow> wal_shared \<Rightarrow> 'a wal_file_scheme \<Rightarrow> (wal_header option \<times> wal_shared \<times> 'a wal_file_scheme) res" where
  "prepare_wal_start big page_size r1 r2 s c =
     (if initialized s then Inr (None, s, c)
      else rbind (prepare_wal_header big page_size r1 r2 s) (\<lambda>(hdr, s).
        case hdr of
          None \<Rightarrow> Inr (None, s, c)
        | Some h \<Rightarrow> Inr (Some h, s, c\<lparr>c_last_checksum := (checksum_1 h, checksum_2 h), c_max_frame := 0\<rparr>)))"

definition IOV_MAX :: nat where
  "IOV_MAX = 1024"

record prepared_frames =
  pf_offset :: nat
  pf_frames :: "(nat \<times> nat \<times> (u32 \<times> u32) \<times> bytes) list"
  final_checksum :: "u32 \<times> u32"
  final_max_frame :: nat
  pf_epoch :: u32

definition frame_offset :: "wal_shared \<Rightarrow> nat \<Rightarrow> nat res" where
  "frame_offset s frame_id =
     (if frame_id = 0 then Inl Panic
      else Inr (WAL_HEADER_SIZE + (frame_id - 1) * (unat (wal_page_size (header s)) + WAL_FRAME_HEADER_SIZE)))"

fun prepare_frames_loop ::
  "bool \<Rightarrow> wal_header \<Rightarrow> u32 option \<Rightarrow> (nat \<times> bytes) list \<Rightarrow> u32 \<times> u32 \<Rightarrow> nat \<Rightarrow> ((nat \<times> nat \<times> (u32 \<times> u32) \<times> bytes) list \<times> (u32 \<times> u32) \<times> nat) res" where
  "prepare_frames_loop big h db_size_on_commit [] rolling_checksum next_frame_id = Inr ([], rolling_checksum, next_frame_id)"
| "prepare_frames_loop big h db_size_on_commit ((page_id, data) # pages) rolling_checksum next_frame_id =
     (let frame_db_size = (if pages = [] then (case db_size_on_commit of None \<Rightarrow> 0 | Some n \<Rightarrow> n) else 0) in
      rbind (prepare_wal_frame big h rolling_checksum (unat (wal_page_size h)) (of_nat page_id) frame_db_size data) (\<lambda>(checksum, frame_buf).
      rbind (prepare_frames_loop big h db_size_on_commit pages checksum (next_frame_id + 1)) (\<lambda>(frames, cks, nxt).
        Inr ((page_id, next_frame_id, checksum, frame_buf) # frames, cks, nxt))))"

definition prepare_frames ::
  "bool \<Rightarrow> wal_shared \<Rightarrow> 'a wal_file_scheme \<Rightarrow> (nat \<times> bytes) list \<Rightarrow> usize \<Rightarrow> u32 option \<Rightarrow> prepared_frames option \<Rightarrow>
     (prepared_frames \<times> 'a wal_file_scheme) res" where
  "prepare_frames big s c pages page_sz db_size_on_commit prev =
     (if pages = [] \<or> length pages > IOV_MAX \<or> \<not> initialized s \<or> unat (wal_page_size (header s)) \<noteq> page_sz then Inl Panic
      else
        rbind (case prev of
            Some p \<Rightarrow> Inr (final_checksum p, final_max_frame p + 1, c)
          | None \<Rightarrow>
              let snapshot = load_snapshot s; local_state = connection_snapshot c in
              if s_max_frame local_state > s_max_frame snapshot then Inr (s_last_checksum local_state, s_max_frame local_state + 1, c)
              else if s_max_frame local_state \<noteq> s_max_frame snapshot then Inl Panic
              else Inr (s_last_checksum snapshot, s_max_frame snapshot + 1, if snapshot \<noteq> local_state then install_snapshot snapshot c else c))
          (\<lambda>(rolling_checksum, next_frame_id, c).
        let rolling_checksum = (if next_frame_id = 1 then (checksum_1 (header s), checksum_2 (header s)) else rolling_checksum) in
        rbind (prepare_frames_loop big (header s) db_size_on_commit pages rolling_checksum next_frame_id) (\<lambda>(frames, cks, nxt).
        rbind (frame_offset s next_frame_id) (\<lambda>off.
          Inr (\<lparr>pf_offset = off, pf_frames = frames, final_checksum = cks, final_max_frame = nxt - 1, pf_epoch = epoch s\<rparr>, c)))))"

definition complete_append_frame :: "nat \<times> nat \<times> (u32 \<times> u32) \<times> bytes \<Rightarrow> wal_shared \<times> 'a wal_file_scheme \<Rightarrow> wal_shared \<times> 'a wal_file_scheme" where
  "complete_append_frame = (\<lambda>(page_id, frame_id, checksums, _) (s, c).
     (cache_frame s page_id frame_id, c\<lparr>c_last_checksum := checksums, c_max_frame := frame_id\<rparr>))"

fun commit_prepared_frames :: "prepared_frames list \<Rightarrow> wal_shared \<times> 'a wal_file_scheme \<Rightarrow> wal_shared \<times> 'a wal_file_scheme" where
  "commit_prepared_frames [] sc = sc"
| "commit_prepared_frames (batch # batches) sc =
     (case fold complete_append_frame (pf_frames batch) sc of (s, c) \<Rightarrow>
       commit_prepared_frames batches (s, c\<lparr>c_last_checksum := final_checksum batch, c_max_frame := final_max_frame batch\<rparr>))"

definition finish_append_frames_commit :: "wal_shared \<Rightarrow> 'a wal_file_scheme \<Rightarrow> wal_shared \<times> 'a wal_file_scheme" where
  "finish_append_frames_commit s c =
     (let tc = c_transaction_count c + 1 in
      (publish_commit s (c_max_frame c) (c_last_checksum c) tc, c\<lparr>c_transaction_count := tc\<rparr>))"

record rollback_to =
  rb_frame :: nat
  rb_checksum :: "u32 \<times> u32"
  rb_checkpoint_seq :: u32

definition rollback :: "wal_shared \<Rightarrow> 'a wal_file_scheme \<Rightarrow> rollback_to option \<Rightarrow> (wal_shared \<times> 'a wal_file_scheme) res" where
  "rollback s c rollback_to =
     (let snapshot = load_snapshot s in
      if (case rollback_to of None \<Rightarrow> False | Some r \<Rightarrow> rb_checkpoint_seq r \<noteq> s_checkpoint_seq snapshot \<or> rb_frame r < s_max_frame snapshot)
      then Inl Panic
      else
        let mf = (case rollback_to of None \<Rightarrow> s_max_frame snapshot | Some r \<Rightarrow> rb_frame r);
            ck = (case rollback_to of None \<Rightarrow> s_last_checksum snapshot | Some r \<Rightarrow> rb_checksum r);
            c = c\<lparr>c_last_checksum := ck, c_max_frame := mf\<rparr>
        in Inr (rollback_cache s mf, if rollback_to = None then wal_reset_internal_states c else c))"

section \<open>Checkpoints\<close>

record checkpoint_result =
  wal_max_frame :: nat
  wal_total_backfilled :: nat
  wal_checkpoint_backfilled :: nat
  maybe_guard :: "checkpoint_guard_kind option"

definition checkpoint_result_new :: "nat \<Rightarrow> nat \<Rightarrow> nat \<Rightarrow> checkpoint_result" where
  "checkpoint_result_new a b d = \<lparr>wal_max_frame = a, wal_total_backfilled = b, wal_checkpoint_backfilled = d, maybe_guard = None\<rparr>"

definition everything_backfilled :: "checkpoint_result \<Rightarrow> bool" where
  "everything_backfilled r \<longleftrightarrow> wal_max_frame r = wal_total_backfilled r"

definition release_guard :: "wal_shared \<Rightarrow> checkpoint_guard_kind option \<Rightarrow> wal_shared res" where
  "release_guard s g = (case g of None \<Rightarrow> Inr s | Some g \<Rightarrow> release_checkpoint_guard s g)"

text \<open>The state \<^verbatim>\<open>Start\<close> until the locks are taken: a result without work, or the number of backfilled frames to go on with.\<close>

definition checkpoint_load :: "wal_shared \<Rightarrow> checkpoint_mode \<Rightarrow> checkpoint_result + nat" where
  "checkpoint_load s mode =
     (let snapshot = load_snapshot s;
          needs_backfill = s_max_frame snapshot > s_nbackfills snapshot
      in if \<not> needs_backfill \<and> \<not> should_restart_log mode
         then Inl (checkpoint_result_new (s_max_frame snapshot) (s_nbackfills snapshot) 0)
         else Inr (s_nbackfills snapshot))"

definition acquire_proper_checkpoint_guard ::
  "wal_shared \<Rightarrow> 'a wal_file_scheme \<Rightarrow> checkpoint_mode \<Rightarrow> (unit res \<times> wal_shared \<times> 'a wal_file_scheme) res" where
  "acquire_proper_checkpoint_guard s c mode =
     (let needs_new_guard =
        (case (c_checkpoint_guard c, mode) of
           (Some Read0, Passive _) \<Rightarrow> False
         | (Some Writer, Restart) \<Rightarrow> False
         | (Some Writer, Truncate _) \<Rightarrow> False
         | _ \<Rightarrow> True)
      in if \<not> needs_new_guard then Inr (Inr (), s, c)
      else rbind (release_guard s (c_checkpoint_guard c)) (\<lambda>s.
        rbind (acquire_checkpoint_guard s mode) (\<lambda>(guard, s).
          case guard of
            Inl e \<Rightarrow> Inr (Inl e, s, c\<lparr>c_checkpoint_guard := None\<rparr>)
          | Inr g \<Rightarrow> Inr (Inr (), s, c\<lparr>c_checkpoint_guard := Some g\<rparr>))))"

text \<open>What an error does to a checkpoint: the guard is dropped.\<close>

definition checkpoint_failed :: "wal_shared \<Rightarrow> 'a wal_file_scheme \<Rightarrow> (wal_shared \<times> 'a wal_file_scheme) res" where
  "checkpoint_failed s c = rbind (release_guard s (c_checkpoint_guard c)) (\<lambda>s. Inr (s, c\<lparr>c_checkpoint_guard := None\<rparr>))"

text \<open>
  The rest of \<^verbatim>\<open>Start\<close>: the frames to copy, one per page. The list comes sorted by page and the stable sort by
  frame gives the order of the pairs of frame and page.
\<close>

definition checkpoint_range ::
  "wal_shared \<Rightarrow> 'a wal_file_scheme \<Rightarrow> checkpoint_mode \<Rightarrow> nat \<Rightarrow> nat list \<Rightarrow> (unit res \<times> wal_shared \<times> 'a wal_file_scheme) res" where
  "checkpoint_range s c mode n0 keys =
     rbind (determine_max_safe_checkpoint_frame s (s_max_frame (load_snapshot s))) (\<lambda>(mf, s).
       if (case mode of Truncate (Some upper_bound) \<Rightarrow> mf > upper_bound | _ \<Rightarrow> False) then Inr (Inl Busy, s, c)
       else
         let mf = (case mode of Passive (Some upper_bound) \<Rightarrow> min mf upper_bound | _ \<Rightarrow> mf);
             c = c\<lparr>oc_max_frame := mf, oc_min_frame := n0 + 1\<rparr>
         in Inr (Inr (), s, c\<lparr>pages_to_checkpoint := sort_key snd (iter_latest_frames s keys (oc_min_frame c) (oc_max_frame c))\<rparr>))"

text \<open>\<^verbatim>\<open>DetermineResult\<close>, with the restart of the log.\<close>

definition restart_log :: "wal_shared \<Rightarrow> 'a wal_file_scheme \<Rightarrow> u32 \<Rightarrow> (unit res \<times> wal_shared \<times> 'a wal_file_scheme) res" where
  "restart_log s c rnd =
     rbind (begin_restart s rnd) (\<lambda>(result, s).
       case result of
         Inl e \<Rightarrow> Inr (Inl e, s, c)
       | Inr snapshot \<Rightarrow> Inr (Inr (), s, apply_restart_snapshot snapshot c))"

definition determine_result ::
  "wal_shared \<Rightarrow> 'a wal_file_scheme \<Rightarrow> checkpoint_mode \<Rightarrow> u32 \<Rightarrow> (checkpoint_result res \<times> wal_shared \<times> 'a wal_file_scheme) res" where
  "determine_result s c mode rnd =
     (let total = oc_max_frame c;
          result = checkpoint_result_new (s_max_frame (load_snapshot s)) total (total - (oc_min_frame c - 1))
      in if require_all_backfilled mode \<and> \<not> everything_backfilled result then Inr (Inl Busy, s, c)
      else if should_restart_log mode then
        if c_checkpoint_guard c \<noteq> Some Writer then Inl Panic
        else rbind (restart_log s c rnd) (\<lambda>(r, s, c).
          case r of Inl e \<Rightarrow> Inr (Inl e, s, c) | Inr _ \<Rightarrow> Inr (Inr result, s, c))
      else Inr (Inr result, s, c))"

definition checkpoint_finalize ::
  "wal_shared \<Rightarrow> 'a wal_file_scheme \<Rightarrow> checkpoint_mode \<Rightarrow> checkpoint_result \<Rightarrow> (checkpoint_result \<times> wal_shared \<times> 'a wal_file_scheme) res" where
  "checkpoint_finalize s c mode result =
     rbind (if should_restart_log mode then end_restart s else Inr s) (\<lambda>s.
       let s = bump_checkpoint_epoch s in
       if everything_backfilled result \<or> wal_checkpoint_backfilled result > 0
       then Inr (result\<lparr>maybe_guard := c_checkpoint_guard c\<rparr>, s, c\<lparr>c_checkpoint_guard := None, pages_to_checkpoint := []\<rparr>)
       else rbind (checkpoint_failed s c) (\<lambda>(s, c). Inr (result, s, c\<lparr>pages_to_checkpoint := []\<rparr>)))"

definition wal_publish_backfill :: "wal_shared \<Rightarrow> nat \<Rightarrow> wal_shared res" where
  "wal_publish_backfill s mf =
     (let snapshot = load_snapshot s in
      if \<not> (s_nbackfills snapshot \<le> mf \<and> mf \<le> s_max_frame snapshot) then Inl Panic else Inr (publish_backfill s mf))"

end
