(* ===== verification/Wal_System.thy ===== *)
theory Wal_System
  imports Wal_File
begin

text \<open>
  Several connections over one log and one database file. An event is one call of a connection into the log, or one
  part of a call where the source lets other connections in between: the load of a snapshot, the claim of a read mark, its lock and
  the check that follows; the phases of a checkpoint; the copy of one page. Events of different
  connections interleave freely; those of one connection follow the phases of its calls, which
  its program counter records. A step is \<open>None\<close> where the event is not the next phase. What a caller has to observe is not built into the
  steps: a call out of place runs as the code does, into its assertion if it has one.

  The scan for a read mark with the claim of one, the locks of a checkpoint or of a restart of the log, which the code takes one after the other and gives back when one of them is taken,
  and the loop over the read marks that finds the last frame to backfill are one event each. The rollback to a savepoint is an operation of \<open>Wal_File\<close> and not an event.
\<close>

section \<open>State\<close>

datatype conn_pc =
    Idle
  | BeginRead wal_snapshot
  | ClaimedRead wal_snapshot "nat \<times> u32"
  | LockedRead wal_snapshot "nat \<times> u32"
  | BeginWrite
  | Prepared "prepared_frames list"
  | CkLoaded checkpoint_mode nat
  | CkLocked checkpoint_mode nat
  | CkCopying checkpoint_mode
  | CkFinalize checkpoint_mode checkpoint_result
  | CkDone checkpoint_mode checkpoint_result
  | CkPublished checkpoint_mode checkpoint_result

record wal_conn = wal_file +
  pc :: conn_pc

record wal_sys =
  shared :: wal_shared
  conns :: "wal_conn list"
  log :: "nat \<Rightarrow> bytes"
  db :: "nat \<Rightarrow> bytes"

datatype wal_event =
    EvBeginRead nat
  | EvClaimRead nat
  | EvLockRead nat
  | EvCheckRead nat
  | EvEndRead nat
  | EvBeginWrite nat
  | EvRestart nat bool u32
  | EvPrepareWal nat usize u32 u32
  | EvPrepare nat "(nat \<times> bytes) list" usize "u32 option"
  | EvAppend nat
  | EvCommit nat
  | EvRollback nat
  | EvEndWrite nat
  | EvCkLoad nat checkpoint_mode
  | EvCkLock nat
  | EvCkRange nat "nat list"
  | EvCkCopy nat nat
  | EvCkResult nat u32
  | EvCkFinalize nat
  | EvCkPublish nat
  | EvCkTruncate nat
  | EvCkFinish nat
  | EvCkAbort nat

fun event_conn :: "wal_event \<Rightarrow> nat" where
  "event_conn (EvBeginRead i) = i"
| "event_conn (EvClaimRead i) = i"
| "event_conn (EvLockRead i) = i"
| "event_conn (EvCheckRead i) = i"
| "event_conn (EvEndRead i) = i"
| "event_conn (EvBeginWrite i) = i"
| "event_conn (EvRestart i _ _) = i"
| "event_conn (EvPrepareWal i _ _ _) = i"
| "event_conn (EvPrepare i _ _ _) = i"
| "event_conn (EvAppend i) = i"
| "event_conn (EvCommit i) = i"
| "event_conn (EvRollback i) = i"
| "event_conn (EvEndWrite i) = i"
| "event_conn (EvCkLoad i _) = i"
| "event_conn (EvCkLock i) = i"
| "event_conn (EvCkRange i _) = i"
| "event_conn (EvCkCopy i _) = i"
| "event_conn (EvCkResult i _) = i"
| "event_conn (EvCkFinalize i) = i"
| "event_conn (EvCkPublish i) = i"
| "event_conn (EvCkTruncate i) = i"
| "event_conn (EvCkFinish i) = i"
| "event_conn (EvCkAbort i) = i"

section \<open>Steps\<close>

definition frame_page :: "bytes \<Rightarrow> bytes" where
  "frame_page b = drop WAL_FRAME_HEADER_SIZE b"

definition write_log :: "prepared_frames \<Rightarrow> (nat \<Rightarrow> bytes) \<Rightarrow> nat \<Rightarrow> bytes" where
  "write_log b l = fold (\<lambda>(_, f, _, bs) l. l(f := bs)) (pf_frames b) l"

fun prepared_batches :: "conn_pc \<Rightarrow> prepared_frames list" where
  "prepared_batches (Prepared bs) = bs"
| "prepared_batches _ = []"

definition step_read :: "wal_event \<Rightarrow> wal_sys \<Rightarrow> wal_conn \<Rightarrow> (wal_sys \<times> wal_conn) res option" where
  "step_read ev \<sigma> c = (let s = shared \<sigma> in
     case (ev, pc c) of
       (EvBeginRead _, Idle) \<Rightarrow>
         Some (rbind (begin_read_load s c) (\<lambda>(r, s).
           Inr (\<sigma>\<lparr>shared := s\<rparr>, case r of Inl _ \<Rightarrow> c | Inr snap \<Rightarrow> c\<lparr>pc := BeginRead snap\<rparr>)))
     | (EvClaimRead _, BeginRead snap) \<Rightarrow>
         Some (rbind (begin_read_claim s snap) (\<lambda>(r, s).
           Inr (\<sigma>\<lparr>shared := s\<rparr>, c\<lparr>pc := case r of None \<Rightarrow> Idle | Some b \<Rightarrow> ClaimedRead snap b\<rparr>)))
     | (EvLockRead _, ClaimedRead snap b) \<Rightarrow>
         Some (rbind (begin_read_lock s b) (\<lambda>(ok, s). Inr (\<sigma>\<lparr>shared := s\<rparr>, c\<lparr>pc := if ok then LockedRead snap b else Idle\<rparr>)))
     | (EvCheckRead _, LockedRead snap b) \<Rightarrow>
         Some (rbind (begin_read_check s c snap b) (\<lambda>(_, s, c). Inr (\<sigma>\<lparr>shared := s\<rparr>, c\<lparr>pc := Idle\<rparr>)))
     | (EvEndRead _, Idle) \<Rightarrow>
         Some (rbind (end_read_tx s c) (\<lambda>(s, c). Inr (\<sigma>\<lparr>shared := s\<rparr>, c)))
     | _ \<Rightarrow> None)"

definition step_write :: "bool \<Rightarrow> wal_event \<Rightarrow> wal_sys \<Rightarrow> wal_conn \<Rightarrow> (wal_sys \<times> wal_conn) res option" where
  "step_write big ev \<sigma> c = (let s = shared \<sigma> in
     case (ev, pc c) of
       (EvBeginWrite _, Idle) \<Rightarrow>
         Some (rbind (begin_write_lock s c) (\<lambda>(r, s, c).
           Inr (\<sigma>\<lparr>shared := s\<rparr>, case r of Inl _ \<Rightarrow> c | Inr _ \<Rightarrow> c\<lparr>pc := BeginWrite\<rparr>)))
     | (EvRestart _ allow rnd, BeginWrite) \<Rightarrow>
         Some (rbind (begin_write_restart allow s c rnd) (\<lambda>(_, s, c). Inr (\<sigma>\<lparr>shared := s\<rparr>, c\<lparr>pc := Idle\<rparr>)))
     | (EvPrepareWal _ ps r1 r2, Idle) \<Rightarrow>
         Some (rbind (prepare_wal_start big ps r1 r2 s c) (\<lambda>(_, s, c). Inr (\<sigma>\<lparr>shared := mark_initialized s\<rparr>, c)))
     | (EvPrepare _ pages ps db_size, p) \<Rightarrow>
         if \<not> (p = Idle \<or> prepared_batches p \<noteq> []) then None
         else
           let bs = prepared_batches p in
           Some (rbind (prepare_frames big s c pages ps db_size (if bs = [] then None else Some (last bs))) (\<lambda>(b, c).
             Inr (\<sigma>\<lparr>log := write_log b (log \<sigma>)\<rparr>, c\<lparr>pc := Prepared (bs @ [b])\<rparr>)))
     | (EvAppend _, Prepared bs) \<Rightarrow>
         (case commit_prepared_frames bs (s, c) of (s, c) \<Rightarrow> Some (Inr (\<sigma>\<lparr>shared := s\<rparr>, c\<lparr>pc := Idle\<rparr>)))
     | (EvCommit _, Idle) \<Rightarrow>
         (case finish_append_frames_commit s c of (s, c) \<Rightarrow> Some (Inr (\<sigma>\<lparr>shared := s\<rparr>, c)))
     | (EvRollback _, p) \<Rightarrow>
         if \<not> (p = Idle \<or> prepared_batches p \<noteq> []) then None
         else Some (rbind (rollback s c None) (\<lambda>(s, c). Inr (\<sigma>\<lparr>shared := s\<rparr>, c\<lparr>pc := Idle\<rparr>)))
     | (EvEndWrite _, Idle) \<Rightarrow>
         Some (rbind (end_write_tx s c) (\<lambda>(s, c). Inr (\<sigma>\<lparr>shared := s\<rparr>, c)))
     | _ \<Rightarrow> None)"

text \<open>The guard of a finished checkpoint travels in its result, which the pager holds until it is done.\<close>

fun result_guard :: "conn_pc \<Rightarrow> checkpoint_guard_kind option" where
  "result_guard (CkDone _ r) = maybe_guard r"
| "result_guard (CkPublished _ r) = maybe_guard r"
| "result_guard _ = None"

definition to_idle :: "wal_sys \<Rightarrow> (wal_shared \<times> wal_conn) res \<Rightarrow> (wal_sys \<times> wal_conn) res" where
  "to_idle \<sigma> r = rbind r (\<lambda>(s, c). Inr (\<sigma>\<lparr>shared := s\<rparr>, c\<lparr>pc := Idle\<rparr>))"

text \<open>The phases of a checkpoint in the log.\<close>

definition step_checkpoint_wal :: "wal_event \<Rightarrow> wal_sys \<Rightarrow> wal_conn \<Rightarrow> (wal_sys \<times> wal_conn) res option" where
  "step_checkpoint_wal ev \<sigma> c = (let s = shared \<sigma> in
     case (ev, pc c) of
       (EvCkLoad _ mode, Idle) \<Rightarrow>
         Some (Inr (\<sigma>, case checkpoint_load s mode of Inl _ \<Rightarrow> c | Inr n \<Rightarrow> c\<lparr>pc := CkLoaded mode n\<rparr>))
     | (EvCkLock _, CkLoaded mode n) \<Rightarrow>
         Some (rbind (acquire_proper_checkpoint_guard s c mode) (\<lambda>(r, s, c).
           case r of
             Inl _ \<Rightarrow> to_idle \<sigma> (checkpoint_failed s c)
           | Inr _ \<Rightarrow> Inr (\<sigma>\<lparr>shared := s\<rparr>, c\<lparr>pc := CkLocked mode n\<rparr>)))
     | (EvCkRange _ keys, CkLocked mode n) \<Rightarrow>
         Some (rbind (checkpoint_range s c mode n keys) (\<lambda>(r, s, c).
           case r of
             Inl _ \<Rightarrow> to_idle \<sigma> (checkpoint_failed s c)
           | Inr _ \<Rightarrow> Inr (\<sigma>\<lparr>shared := s\<rparr>, c\<lparr>pc := CkCopying mode\<rparr>)))
     | (EvCkCopy _ k, CkCopying mode) \<Rightarrow>
         if k \<ge> length (pages_to_checkpoint c) then None
         else (case pages_to_checkpoint c ! k of (p, f) \<Rightarrow>
           Some (Inr (\<sigma>\<lparr>db := (db \<sigma>)(p := frame_page (log \<sigma> f))\<rparr>,
             c\<lparr>pages_to_checkpoint := take k (pages_to_checkpoint c) @ drop (Suc k) (pages_to_checkpoint c)\<rparr>)))
     | (EvCkResult _ rnd, CkCopying mode) \<Rightarrow>
         if pages_to_checkpoint c \<noteq> [] then None
         else Some (rbind (determine_result s c mode rnd) (\<lambda>(r, s, c).
           case r of
             Inl _ \<Rightarrow> to_idle \<sigma> (checkpoint_failed s c)
           | Inr result \<Rightarrow> Inr (\<sigma>\<lparr>shared := s\<rparr>, c\<lparr>pc := CkFinalize mode result\<rparr>)))
     | (EvCkFinalize _, CkFinalize mode result) \<Rightarrow>
         Some (rbind (checkpoint_finalize s c mode result) (\<lambda>(result, s, c). Inr (\<sigma>\<lparr>shared := s\<rparr>, c\<lparr>pc := CkDone mode result\<rparr>)))
     | _ \<Rightarrow> None)"

text \<open>And those of the pager, which holds the result: publishing what was backfilled, truncating the log file, and the end, with the guard given back.\<close>

definition step_checkpoint_pager :: "wal_event \<Rightarrow> wal_sys \<Rightarrow> wal_conn \<Rightarrow> (wal_sys \<times> wal_conn) res option" where
  "step_checkpoint_pager ev \<sigma> c = (let s = shared \<sigma> in
     case (ev, pc c) of
       (EvCkPublish _, CkDone mode result) \<Rightarrow>
         if wal_checkpoint_backfilled result = 0 \<or> should_restart_log mode then None
         else Some (rbind (wal_publish_backfill s (wal_total_backfilled result)) (\<lambda>s.
           Inr (\<sigma>\<lparr>shared := s\<rparr>, c\<lparr>pc := CkPublished mode result\<rparr>)))
     | (EvCkTruncate _, CkDone (Truncate b) result) \<Rightarrow>
         Some (Inr (\<sigma>\<lparr>shared := prepare_truncate s\<rparr>, c))
     | (EvCkFinish _, p) \<Rightarrow>
         if \<not> (case p of CkDone _ _ \<Rightarrow> True | CkPublished _ _ \<Rightarrow> True | _ \<Rightarrow> False) then None
         else Some (to_idle \<sigma> (rbind (release_guard s (result_guard p)) (\<lambda>s. Inr (s, c))))
     | (EvCkAbort _, p) \<Rightarrow>
         if \<not> (case p of CkLoaded _ _ \<Rightarrow> True | CkLocked _ _ \<Rightarrow> True | CkCopying _ \<Rightarrow> True | CkDone _ _ \<Rightarrow> True | CkPublished _ _ \<Rightarrow> True | _ \<Rightarrow> False) then None
         else Some (to_idle \<sigma> (rbind (release_guard s (result_guard p)) (\<lambda>s.
           rbind (checkpoint_failed s c) (\<lambda>(s, c). Inr (s, wal_reset_internal_states c)))))
     | _ \<Rightarrow> None)"

definition conn_step :: "bool \<Rightarrow> wal_event \<Rightarrow> wal_sys \<Rightarrow> wal_conn \<Rightarrow> (wal_sys \<times> wal_conn) res option" where
  "conn_step big ev \<sigma> c =
     (case step_read ev \<sigma> c of Some r \<Rightarrow> Some r
      | None \<Rightarrow> (case step_write big ev \<sigma> c of Some r \<Rightarrow> Some r
      | None \<Rightarrow> (case step_checkpoint_wal ev \<sigma> c of Some r \<Rightarrow> Some r | None \<Rightarrow> step_checkpoint_pager ev \<sigma> c)))"

definition wal_step :: "bool \<Rightarrow> wal_event \<Rightarrow> wal_sys \<Rightarrow> wal_sys res option" where
  "wal_step big ev \<sigma> =
     (let i = event_conn ev in
      if i \<ge> length (conns \<sigma>) then None
      else map_option (\<lambda>r. rbind r (\<lambda>(\<sigma>', c). Inr (\<sigma>'\<lparr>conns := (conns \<sigma>)[i := c]\<rparr>))) (conn_step big ev \<sigma> (conns \<sigma> ! i)))"

text \<open>What a connection reads for a page: the frame that \<^verbatim>\<open>find_frame\<close> gives, or the database file.\<close>

definition read_page :: "wal_sys \<Rightarrow> nat \<Rightarrow> nat \<Rightarrow> bytes res" where
  "read_page \<sigma> i p =
     rbind (find_frame (shared \<sigma>) (conns \<sigma> ! i) p None) (\<lambda>r.
       Inr (case r of Some f \<Rightarrow> frame_page (log \<sigma> f) | None \<Rightarrow> db \<sigma> p))"

end
