(* ===== verification/Wal_Locks.thy ===== *)
theory Wal_Locks
  imports Wal_Coordination
begin

text \<open>
  The locks of the log seen as counts of holders. \<open>locks s V W C R X\<close> says how many hold the vacuum lock shared (\<open>V\<close>), the
  write and checkpoint locks (\<open>W\<close>, \<open>C\<close>), and each read mark shared (\<open>R\<close>) and exclusively (\<open>X\<close>). Each operation of the
  coordination is described by what it does to these counts, to the read marks and to the metadata of the log.
\<close>

section \<open>One lock\<close>

definition lock_ok :: "rwlock \<Rightarrow> nat \<Rightarrow> nat \<Rightarrow> bool" where
  "lock_ok l n m \<longleftrightarrow> l = rw_word (rw_get_value l) n (m = 1) \<and> m \<le> 1 \<and> (m = 1 \<longrightarrow> n = 0) \<and> n < 2 ^ 31"

lemma lock_ok_word: "n < 2 ^ 31 \<Longrightarrow> m \<le> 1 \<Longrightarrow> (m = 1 \<longrightarrow> n = 0) \<Longrightarrow> lock_ok (rw_word v n (m = 1)) n m"
  by (simp add: lock_ok_def rw_flags)

lemma lock_okE:
  assumes "lock_ok l n m"
  obtains v where "l = rw_word v n (m = 1)" "m \<le> 1" "m = 1 \<longrightarrow> n = 0" "n < 2 ^ 31" "rw_get_value l = v"
  using assms unfolding lock_ok_def by blast

lemma lock_read:
  assumes "lock_ok l n m" "n + 1 < 2 ^ 31"
  shows "\<exists>l'. rw_read l = (m = 0, l') \<and> lock_ok l' (if m = 0 then n + 1 else n) m \<and> rw_get_value l' = rw_get_value l"
  using assms(1)
proof (rule lock_okE)
  fix v
  assume l: "l = rw_word v n (m = 1)" "m \<le> 1" "m = 1 \<longrightarrow> n = 0" "n < 2 ^ 31" "rw_get_value l = v"
  show ?thesis
    using lock_ok_word [of "n + 1" 0 v] lock_ok_word [of n m v] l assms(2)
    by (cases "m = 0") (simp_all add: rw_ops rw_flags)
qed

lemma lock_write:
  assumes "lock_ok l n m"
  shows "\<exists>l'. rw_write l = (n = 0 \<and> m = 0, l') \<and> lock_ok l' n (if n = 0 \<and> m = 0 then 1 else m) \<and> rw_get_value l' = rw_get_value l"
  using assms
proof (rule lock_okE)
  fix v
  assume l: "l = rw_word v n (m = 1)" "m \<le> 1" "m = 1 \<longrightarrow> n = 0" "n < 2 ^ 31" "rw_get_value l = v"
  show ?thesis
    using lock_ok_word [of 0 1 v] lock_ok_word [of n m v] l
    by (cases "m = 0"; cases "n = 0") (simp_all add: rw_ops rw_flags)
qed

lemma lock_unlock_read:
  assumes "lock_ok l n m" "0 < n"
  shows "\<exists>l'. rw_unlock l = Inr l' \<and> lock_ok l' (n - 1) m \<and> rw_get_value l' = rw_get_value l"
  using assms(1)
proof (rule lock_okE)
  fix v
  assume l: "l = rw_word v n (m = 1)" "m \<le> 1" "m = 1 \<longrightarrow> n = 0" "n < 2 ^ 31" "rw_get_value l = v"
  show ?thesis
    using lock_ok_word [of "n - 1" 0 v] l assms(2) by (cases "m = 0") (simp_all add: rw_ops rw_flags)
qed

lemma lock_unlock_write:
  assumes "lock_ok l n 1"
  shows "\<exists>l'. rw_unlock l = Inr l' \<and> lock_ok l' 0 0 \<and> rw_get_value l' = rw_get_value l"
  using assms
proof (rule lock_okE)
  fix v
  assume "l = rw_word v n ((1 :: nat) = 1)" "(1 :: nat) = 1 \<longrightarrow> n = 0" "rw_get_value l = v"
  then show ?thesis using lock_ok_word [of 0 0 v] by (simp add: rw_ops rw_flags)
qed

lemma lock_set_value:
  assumes "lock_ok l n 1"
  shows "\<exists>l'. rw_set_value_exclusive l x = Inr l' \<and> lock_ok l' n 1 \<and> rw_get_value l' = x"
  using assms
proof (rule lock_okE)
  fix v
  assume "l = rw_word v n ((1 :: nat) = 1)" "(1 :: nat) = 1 \<longrightarrow> n = 0" "rw_get_value l = v"
  then show ?thesis using lock_ok_word [of 0 1 x] by (simp add: rw_ops rw_flags)
qed

lemma lock_upgrade:
  assumes "lock_ok l n m"
  shows "\<exists>l'. rw_upgrade l = (n = 1, l') \<and> lock_ok l' (if n = 1 then 0 else n) (if n = 1 then 1 else m) \<and> rw_get_value l' = rw_get_value l"
  using assms
proof (rule lock_okE)
  fix v
  assume l: "l = rw_word v n (m = 1)" "m \<le> 1" "m = 1 \<longrightarrow> n = 0" "n < 2 ^ 31" "rw_get_value l = v"
  show ?thesis
    using lock_ok_word [of 0 1 v] lock_ok_word [of n m v] l by (cases "n = 1") (auto simp: rw_ops rw_flags)
qed

lemma lock_downgrade:
  assumes "lock_ok l n 1"
  shows "lock_ok (rw_downgrade l) 1 0 \<and> rw_get_value (rw_downgrade l) = rw_get_value l"
  using assms
proof (rule lock_okE)
  fix v
  assume "l = rw_word v n ((1 :: nat) = 1)" "(1 :: nat) = 1 \<longrightarrow> n = 0" "rw_get_value l = v"
  then show ?thesis using lock_ok_word [of 1 0 v] by (simp add: rw_ops rw_flags)
qed

section \<open>All locks\<close>

definition locks :: "wal_shared \<Rightarrow> nat \<Rightarrow> nat \<Rightarrow> nat \<Rightarrow> (nat \<Rightarrow> nat) \<Rightarrow> (nat \<Rightarrow> nat) \<Rightarrow> bool" where
  "locks s V W C R X \<longleftrightarrow> length (read_locks s) = 5 \<and> lock_ok (vacuum_lock s) V 0 \<and> lock_ok (write_lock s) 0 W \<and>
     lock_ok (checkpoint_lock s) 0 C \<and> (\<forall>i < 5. lock_ok (read_locks s ! i) (R i) (X i))"

text \<open>The metadata: everything but the locks and the epoch.\<close>

abbreviation wal_meta :: "wal_shared \<Rightarrow> wal_index" where
  "wal_meta s \<equiv> wal_index.truncate s"

lemma wal_meta_fields:
  assumes "wal_meta s' = wal_meta s"
  shows "header s' = header s" "max_frame s' = max_frame s" "nbackfills s' = nbackfills s" "transaction_count s' = transaction_count s"
    "last_checksum s' = last_checksum s" "initialized s' = initialized s" "frame_cache s' = frame_cache s" "frame_cache_high_water s' = frame_cache_high_water s"
    "load_snapshot s' = load_snapshot s"
  using assms by (simp_all add: wal_index.truncate_def load_snapshot_def)

lemma wal_meta_locks [simp]:
  "wal_meta (s\<lparr>read_locks := x\<rparr>) = wal_meta s" "wal_meta (s\<lparr>vacuum_lock := y\<rparr>) = wal_meta s" "wal_meta (s\<lparr>write_lock := y\<rparr>) = wal_meta s"
  "wal_meta (s\<lparr>checkpoint_lock := y\<rparr>) = wal_meta s" "wal_meta (s\<lparr>epoch := z\<rparr>) = wal_meta s"
  by (simp_all add: wal_index.truncate_def)

text \<open>The marks of the slots that readers of the log hold do not change.\<close>

definition held_marks :: "(nat \<Rightarrow> nat) \<Rightarrow> wal_shared \<Rightarrow> wal_shared \<Rightarrow> bool" where
  "held_marks R s s' \<longleftrightarrow> (\<forall>i < 5. 1 \<le> i \<longrightarrow> R i \<noteq> 0 \<longrightarrow> read_mark_value s' i = read_mark_value s i)"

lemma held_marks_refl [simp]: "held_marks R s s"
  by (simp add: held_marks_def)

lemma held_marks_trans: "held_marks R s s' \<Longrightarrow> held_marks R s' s'' \<Longrightarrow> held_marks R s s''"
  by (simp add: held_marks_def)

lemma locks_update:
  assumes "locks s V W C R X" "i < 5" "lock_ok l n m"
  shows "locks (s\<lparr>read_locks := (read_locks s)[i := l]\<rparr>) V W C (R(i := n)) (X(i := m))"
  using assms by (auto simp: locks_def nth_list_update)

lemma locks_nth: "locks s V W C R X \<Longrightarrow> i < 5 \<Longrightarrow> lock_ok (read_locks s ! i) (R i) (X i)"
  by (simp add: locks_def)

lemma locks_XR: "locks s V W C R X \<Longrightarrow> i < 5 \<Longrightarrow> X i \<le> 1 \<and> (X i = 1 \<longrightarrow> R i = 0)"
  by (auto simp: locks_def lock_ok_def)

lemma read_mark_update:
  assumes "locks s V W C R X" "i < 5"
  shows "read_mark_value (s\<lparr>read_locks := (read_locks s)[i := l]\<rparr>) j = (if j = i then rw_get_value l else read_mark_value s j)"
  using assms by (auto simp: read_mark_value_def locks_def)

text \<open>A change of one slot, given what it does to the word.\<close>

lemma slot_step:
  assumes "locks s V W C R X" "i < 5" "s' = s\<lparr>read_locks := (read_locks s)[i := l]\<rparr>" "lock_ok l n m" "rw_get_value l = v"
  shows "locks s' V W C (R(i := n)) (X(i := m)) \<and> wal_meta s' = wal_meta s \<and>
    (\<forall>j < 5. read_mark_value s' j = (if j = i then v else read_mark_value s j))"
  using assms locks_update read_mark_update by (simp add: assms(3))

definition same_marks :: "wal_shared \<Rightarrow> wal_shared \<Rightarrow> bool" where
  "same_marks s s' \<longleftrightarrow> (\<forall>j < 5. read_mark_value s' j = read_mark_value s j)"

lemma same_marks_held: "same_marks s s' \<Longrightarrow> held_marks R s s'"
  by (simp add: same_marks_def held_marks_def)

lemma mark_shared:
  assumes "locks s V W C R X" "i < 5" "R i + 1 < 2 ^ 31"
  shows "\<exists>s'. try_read_mark_shared s i = (X i = 0, s') \<and> locks s' V W C (if X i = 0 then R(i := R i + 1) else R) X \<and> wal_meta s' = wal_meta s \<and> same_marks s s'"
proof -
  obtain l where l: "rw_read (read_locks s ! i) = (X i = 0, l)" "lock_ok l (if X i = 0 then R i + 1 else R i) (X i)" "rw_get_value l = read_mark_value s i"
    using lock_read [OF locks_nth [OF assms(1,2)] assms(3)] by (auto simp: read_mark_value_def)
  show ?thesis using slot_step [OF assms(1,2) refl l(2,3)] l(1)
    by (auto simp: try_read_mark_shared_def same_marks_def split: if_splits)
qed

lemma mark_exclusive:
  assumes "locks s V W C R X" "i < 5"
  shows "\<exists>s'. try_read_mark_exclusive s i = (R i = 0 \<and> X i = 0, s') \<and> locks s' V W C R (if R i = 0 \<and> X i = 0 then X(i := 1) else X) \<and> wal_meta s' = wal_meta s \<and> same_marks s s'"
proof -
  obtain l where l: "rw_write (read_locks s ! i) = (R i = 0 \<and> X i = 0, l)" "lock_ok l (R i) (if R i = 0 \<and> X i = 0 then 1 else X i)" "rw_get_value l = read_mark_value s i"
    using lock_write [OF locks_nth [OF assms(1,2)]] by (auto simp: read_mark_value_def)
  show ?thesis using slot_step [OF assms(1,2) refl l(2,3)] l(1)
    by (auto simp: try_read_mark_exclusive_def same_marks_def split: if_splits)
qed

lemma mark_unlock_shared:
  assumes "locks s V W C R X" "i < 5" "0 < R i"
  shows "\<exists>s'. unlock_read_mark s i = Inr s' \<and> locks s' V W C (R(i := R i - 1)) X \<and> wal_meta s' = wal_meta s \<and> same_marks s s'"
proof -
  obtain l where l: "rw_unlock (read_locks s ! i) = Inr l" "lock_ok l (R i - 1) (X i)" "rw_get_value l = read_mark_value s i"
    using lock_unlock_read [OF locks_nth [OF assms(1,2)] assms(3)] by (auto simp: read_mark_value_def)
  show ?thesis using slot_step [OF assms(1,2) refl l(2,3)] l(1) by (auto simp: unlock_read_mark_def same_marks_def)
qed

lemma mark_unlock_exclusive:
  assumes "locks s V W C R X" "i < 5" "X i = 1"
  shows "\<exists>s'. unlock_read_mark s i = Inr s' \<and> locks s' V W C R (X(i := 0)) \<and> wal_meta s' = wal_meta s \<and> same_marks s s'"
proof -
  have R: "R i = 0" using locks_XR [OF assms(1,2)] assms(3) by simp
  obtain l where l: "rw_unlock (read_locks s ! i) = Inr l" "lock_ok l 0 0" "rw_get_value l = read_mark_value s i"
    using lock_unlock_write locks_nth [OF assms(1,2)] assms(3) by (metis read_mark_value_def)
  show ?thesis using slot_step [OF assms(1,2) refl l(2,3)] l(1) fun_upd_idem [of R i 0, OF R] by (auto simp: unlock_read_mark_def same_marks_def)
qed

lemma mark_set:
  assumes "locks s V W C R X" "i < 5" "X i = 1"
  shows "\<exists>s'. set_read_mark_value_exclusive s i v = Inr s' \<and> locks s' V W C R X \<and> wal_meta s' = wal_meta s \<and>
    (\<forall>j < 5. read_mark_value s' j = (if j = i then v else read_mark_value s j))"
proof -
  obtain l where l: "rw_set_value_exclusive (read_locks s ! i) v = Inr l" "lock_ok l (R i) (X i)" "rw_get_value l = v"
    using lock_set_value [of "read_locks s ! i" "R i" v] locks_nth [OF assms(1,2)] assms(3) by auto
  show ?thesis using slot_step [OF assms(1,2) refl l(2,3)] l(1) by (auto simp: set_read_mark_value_exclusive_def)
qed

lemma write_locked:
  assumes "locks s V W C R X"
  shows "\<exists>s'. try_write_lock s = (W = 0, s') \<and> locks s' V 1 C R X \<and> wal_meta s' = wal_meta s \<and> same_marks s s'"
  using assms lock_write [of "write_lock s" 0 W]
  by (auto simp: locks_def try_write_lock_def same_marks_def read_mark_value_def lock_ok_def split: if_splits)

lemma write_unlocked:
  assumes "locks s V 1 C R X"
  shows "\<exists>s'. unlock_write_lock s = Inr s' \<and> locks s' V 0 C R X \<and> wal_meta s' = wal_meta s \<and> same_marks s s'"
  using assms lock_unlock_write [of "write_lock s" 0] by (auto simp: locks_def unlock_write_lock_def same_marks_def read_mark_value_def)

lemma checkpoint_locked:
  assumes "locks s V W C R X"
  shows "\<exists>s'. try_checkpoint_lock s = (C = 0, s') \<and> locks s' V W 1 R X \<and> wal_meta s' = wal_meta s \<and> same_marks s s'"
  using assms lock_write [of "checkpoint_lock s" 0 C]
  by (auto simp: locks_def try_checkpoint_lock_def same_marks_def read_mark_value_def lock_ok_def split: if_splits)

lemma checkpoint_unlocked:
  assumes "locks s V W 1 R X"
  shows "\<exists>s'. unlock_checkpoint_lock s = Inr s' \<and> locks s' V W 0 R X \<and> wal_meta s' = wal_meta s \<and> same_marks s s'"
  using assms lock_unlock_write [of "checkpoint_lock s" 0] by (auto simp: locks_def unlock_checkpoint_lock_def same_marks_def read_mark_value_def)

lemma vacuum_locked:
  assumes "locks s V W C R X" "V + 1 < 2 ^ 31"
  shows "\<exists>w. rw_read (vacuum_lock s) = (True, w) \<and> locks (s\<lparr>vacuum_lock := w\<rparr>) (V + 1) W C R X \<and> same_marks s (s\<lparr>vacuum_lock := w\<rparr>)"
  using assms lock_read [of "vacuum_lock s" V 0] by (auto simp: locks_def same_marks_def read_mark_value_def)

lemma vacuum_unlocked:
  assumes "locks s V W C R X" "0 < V"
  shows "\<exists>w. rw_unlock (vacuum_lock s) = Inr w \<and> locks (s\<lparr>vacuum_lock := w\<rparr>) (V - 1) W C R X \<and> same_marks s (s\<lparr>vacuum_lock := w\<rparr>)"
  using assms lock_unlock_read [of "vacuum_lock s" V 0] by (auto simp: locks_def same_marks_def read_mark_value_def)

section \<open>Read transactions\<close>

lemma same_marks_refl [simp]: "same_marks s s"
  by (simp add: same_marks_def)

lemma same_marks_trans: "same_marks s s' \<Longrightarrow> same_marks s' s'' \<Longrightarrow> same_marks s s''"
  by (simp add: same_marks_def)

lemma best_read_mark_spec:
  assumes "best_read_mark s mf idxs (bi, bm) = (Some i, m)" "bi \<noteq> None \<longrightarrow> the bi \<in> I \<and> bm \<le> mf" "set idxs \<subseteq> I"
  shows "i \<in> I \<and> m \<le> mf"
  using assms
proof (induction idxs arbitrary: bi bm)
  case (Cons j idxs)
  show ?case
  proof (cases "read_mark_value s j \<noteq> READMARK_NOT_USED \<and> read_mark_value s j \<le> mf \<and> read_mark_value s j > bm")
    case True
    then show ?thesis using Cons.IH [of "Some j" "read_mark_value s j"] Cons.prems by (simp add: Let_def)
  next
    case False
    then have "best_read_mark s mf idxs (bi, bm) = (Some i, m)" using Cons.prems(1) by (simp add: Let_def split: if_splits)
    then show ?thesis using Cons.IH Cons.prems(2,3) by simp
  qed
qed simp

lemma claim_read_mark_ok:
  assumes "locks s V W C R X" "\<forall>i \<in> set idxs. i < 5"
  shows "\<exists>r s'. claim_read_mark s mf idxs = Inr (r, s') \<and> locks s' V W C R X \<and> wal_meta s' = wal_meta s \<and> held_marks R s s' \<and>
    (\<forall>i. r = Some i \<longrightarrow> i \<in> set idxs)"
  using assms
proof (induction idxs arbitrary: s)
  case (Cons i idxs)
  then have i: "i < 5" by simp
  obtain s1 where s1: "try_read_mark_exclusive s i = (R i = 0 \<and> X i = 0, s1)" "locks s1 V W C R (if R i = 0 \<and> X i = 0 then X(i := 1) else X)"
      "wal_meta s1 = wal_meta s" "same_marks s s1" using mark_exclusive [OF Cons.prems(1) i] by blast
  show ?case
  proof (cases "R i = 0 \<and> X i = 0")
    case False
    then have "locks s1 V W C R X" using s1(2) by auto
    then obtain r s' where "claim_read_mark s1 mf idxs = Inr (r, s')" "locks s' V W C R X" "wal_meta s' = wal_meta s1" "held_marks R s1 s'" "\<forall>i. r = Some i \<longrightarrow> i \<in> set idxs"
      using Cons.IH [of s1] Cons.prems(2) by auto
    then show ?thesis using False s1 held_marks_trans [OF same_marks_held [OF s1(4)]] by auto
  next
    case True
    then have l1: "locks s1 V W C R (X(i := 1))" using s1(2) by simp
    obtain s2 where s2: "set_read_mark_value_exclusive s1 i mf = Inr s2" "locks s2 V W C R (X(i := 1))" "wal_meta s2 = wal_meta s1"
        "\<forall>j < 5. read_mark_value s2 j = (if j = i then mf else read_mark_value s1 j)" using mark_set [OF l1 i, of mf] by auto
    obtain s3 where s3: "unlock_read_mark s2 i = Inr s3" "locks s3 V W C R ((X(i := 1))(i := 0))" "wal_meta s3 = wal_meta s2" "same_marks s2 s3"
      using mark_unlock_exclusive [OF s2(2) i] by auto
    have X: "(X(i := 1))(i := 0) = X" using True by (simp add: fun_upd_idem)
    have "held_marks R s s3" using True s1(4) s2(4) s3(4) by (auto simp: held_marks_def same_marks_def)
    then show ?thesis using True s1 s2 s3 unfolding X by auto
  qed
qed auto

text \<open>The claimed slot has a mark that is not behind the snapshot, and no mark that is held changes.\<close>

lemma try_begin_read_claim_ok:
  assumes l: "locks s V W C R X" and mx: "s_max_frame snap < 2 ^ 32"
  shows "\<exists>b s'. try_begin_read_claim s snap = Inr (b, s') \<and> locks s' V W C R X \<and> wal_meta s' = wal_meta s \<and> held_marks R s s' \<and>
    (\<forall>k m. b = Some (k, m) \<longrightarrow> k < 5 \<and> unat m \<le> s_max_frame snap)"
proof (cases "s_max_frame snap = s_nbackfills snap")
  case True
  then show ?thesis using l mx by (simp add: try_begin_read_claim_def)
next
  case False
  let ?mf = "of_nat (s_max_frame snap) :: u32"
  have mf: "unat ?mf = s_max_frame snap" using mx by (simp add: unat_of_nat take_bit_nat_eq_self)
  obtain bi bm where b: "best_read_mark s ?mf [1..<5] (None, 0) = (bi, bm)" by fastforce
  have "bi \<noteq> None \<longrightarrow> the bi \<in> {1..<5} \<and> bm \<le> ?mf"
    using best_read_mark_spec [of s ?mf "[1..<5]" None 0 "the bi" bm "{1..<5}"] b by auto
  then have bi: "bi = Some k \<Longrightarrow> k < 5 \<and> unat bm \<le> s_max_frame snap" for k using mf word_le_nat_alt [of bm ?mf] by auto
  have claim: "\<forall>i \<in> set [1..<5]. i < (5 :: nat)" by simp
  obtain r s1 where r: "claim_read_mark s ?mf [1..<5] = Inr (r, s1)" "locks s1 V W C R X" "wal_meta s1 = wal_meta s" "held_marks R s s1" "\<forall>i. r = Some i \<longrightarrow> i \<in> {1..<5}"
    using claim_read_mark_ok [OF l claim, of ?mf] by auto
  show ?thesis
  proof (cases "bi = None \<or> unat bm < s_max_frame snap")
    case True
    then show ?thesis using False mx b r bi mf by (cases r) (auto simp: try_begin_read_claim_def)
  next
    case unclaimed: False
    then show ?thesis using False mx b l bi by (auto simp: try_begin_read_claim_def)
  qed
qed

text \<open>The check gives the lock back, or finds the snapshot current and the mark as expected.\<close>

lemma try_begin_read_check_ok:
  assumes "locks s V W C R X" "k < 5" "0 < R k"
  shows "\<exists>g s'. try_begin_read_check s snap (k, m) = Inr (g, s') \<and> wal_meta s' = wal_meta s \<and> same_marks s s' \<and>
    (g = None \<and> locks s' V W C (R(k := R k - 1)) X \<or>
     g = Some (if k = 0 then DbFile else ReadMark k) \<and> s' = s \<and> snap = load_snapshot s \<and> (k \<noteq> 0 \<longrightarrow> read_mark_value s k = m))"
proof -
  obtain s1 where "unlock_read_mark s k = Inr s1" "locks s1 V W C (R(k := R k - 1)) X" "wal_meta s1 = wal_meta s" "same_marks s s1"
    using mark_unlock_shared [OF assms(1,2)] assms(3) by auto
  then show ?thesis by (auto simp: try_begin_read_check_def)
qed

section \<open>Checkpoints\<close>

lemma max_safe_loop_ok:
  assumes "locks s V W C R X" "mf < 2 ^ 32" "\<forall>i \<in> set idxs. 1 \<le> i \<and> i < 5"
  shows "\<exists>ms s'. max_safe_loop s mf idxs = Inr (ms, s') \<and> locks s' V W C R X \<and> wal_meta s' = wal_meta s \<and> held_marks R s s' \<and> ms \<le> mf \<and>
    (\<forall>i \<in> set idxs. R i \<noteq> 0 \<longrightarrow> ms \<le> unat (read_mark_value s i))"
  using assms
proof (induction idxs arbitrary: s mf)
  case (Cons i idxs)
  let ?m = "read_mark_value s i"
  have i: "i < 5" using Cons.prems by simp
  have lt: "?m < of_nat mf \<longleftrightarrow> unat ?m < mf" using Cons.prems(2) by (simp add: word_less_nat_alt unat_of_nat take_bit_nat_eq_self)
  have rest: "\<exists>ms s'. max_safe_loop s1 mf' idxs = Inr (ms, s') \<and> locks s' V W C R X \<and> wal_meta s' = wal_meta s \<and> held_marks R s s' \<and> ms \<le> mf' \<and>
    (\<forall>i \<in> set idxs. R i \<noteq> 0 \<longrightarrow> ms \<le> unat (read_mark_value s i))"
    if h: "locks s1 V W C R X" "wal_meta s1 = wal_meta s" "held_marks R s s1" "mf' < 2 ^ 32" for s1 mf'
  proof -
    have eq: "read_mark_value s1 i = read_mark_value s i" if "i \<in> set idxs" "R i \<noteq> 0" for i
      using that Cons.prems(3) \<open>held_marks R s s1\<close> by (simp add: held_marks_def)
    obtain ms s' where "max_safe_loop s1 mf' idxs = Inr (ms, s')" "locks s' V W C R X" "wal_meta s' = wal_meta s1" "held_marks R s1 s'" "ms \<le> mf'"
        "\<forall>i \<in> set idxs. R i \<noteq> 0 \<longrightarrow> ms \<le> unat (read_mark_value s1 i)" using Cons.IH [OF h(1,4)] Cons.prems(3) by auto
    then show ?thesis using h(2) held_marks_trans [OF h(3)] eq by auto
  qed
  show ?case
  proof (cases "unat ?m < mf")
    case False
    then show ?thesis using rest [OF Cons.prems(1) refl held_marks_refl Cons.prems(2)] lt by (auto simp: Let_def)
  next
    case True
    obtain s1 where s1: "try_read_mark_exclusive s i = (R i = 0 \<and> X i = 0, s1)" "locks s1 V W C R (if R i = 0 \<and> X i = 0 then X(i := 1) else X)"
      "wal_meta s1 = wal_meta s" "same_marks s s1" using mark_exclusive [OF Cons.prems(1) i] by blast
    show ?thesis
    proof (cases "R i = 0 \<and> X i = 0")
      case free: True
      let ?v = "if i = 1 then of_nat mf else READMARK_NOT_USED"
      have l1: "locks s1 V W C R (X(i := 1))" using s1(2) free by simp
      obtain s2 where s2: "set_read_mark_value_exclusive s1 i ?v = Inr s2" "locks s2 V W C R (X(i := 1))" "wal_meta s2 = wal_meta s1"
        "\<forall>j < 5. read_mark_value s2 j = (if j = i then ?v else read_mark_value s1 j)" using mark_set [OF l1 i, of ?v] by auto
      obtain s3 where s3: "unlock_read_mark s2 i = Inr s3" "locks s3 V W C R ((X(i := 1))(i := 0))" "wal_meta s3 = wal_meta s2" "same_marks s2 s3"
        using mark_unlock_exclusive [OF s2(2) i] by auto
      have X: "(X(i := 1))(i := 0) = X" using free by (simp add: fun_upd_idem)
      have "held_marks R s s3" using free s1(4) s2(4) s3(4) by (auto simp: held_marks_def same_marks_def)
      then show ?thesis using rest [of s3 mf] True lt free s1 s2 s3 Cons.prems(2) unfolding X by (auto simp: Let_def)
    next
      case busy: False
      then have "locks s1 V W C R X" using s1(2) by auto
      then show ?thesis using rest [of s1 "unat ?m"] True lt busy s1 same_marks_held [OF s1(4)] Cons.prems(2) by (auto simp: Let_def)
    qed
  qed
qed auto

text \<open>What taking the checkpoint guard leaves behind.\<close>

definition guard_taken :: "wal_shared \<Rightarrow> nat \<Rightarrow> nat \<Rightarrow> nat \<Rightarrow> (nat \<Rightarrow> nat) \<Rightarrow> (nat \<Rightarrow> nat) \<Rightarrow> checkpoint_mode \<Rightarrow> checkpoint_guard_kind res \<Rightarrow> wal_shared \<Rightarrow> bool" where
  "guard_taken s V W C R X mode g s' \<longleftrightarrow> wal_meta s' = wal_meta s \<and> same_marks s s' \<and>
     (case g of
        Inl e \<Rightarrow> e = Busy \<and> locks s' V W C R X
      | Inr Read0 \<Rightarrow> \<not> require_all_backfilled mode \<and> C = 0 \<and> R 0 = 0 \<and> locks s' V W 1 R (X(0 := 1))
      | Inr Writer \<Rightarrow> require_all_backfilled mode \<and> C = 0 \<and> W = 0 \<and> R 0 = 0 \<and> locks s' V 1 1 R (X(0 := 1)))"

lemma acquire_checkpoint_guard_ok:
  assumes l: "locks s V W C R X" and X: "X 0 = C"
  shows "\<exists>g s'. acquire_checkpoint_guard s mode = Inr (g, s') \<and> guard_taken s V W C R X mode g s'"
proof -
  have CW: "C \<le> 1" "W \<le> 1" using l by (auto simp: locks_def lock_ok_def)
  obtain s1 where s1: "try_checkpoint_lock s = (C = 0, s1)" "locks s1 V W 1 R X" "wal_meta s1 = wal_meta s" "same_marks s s1"
    using checkpoint_locked [OF l] by blast
  show ?thesis
  proof (cases "C = 0")
    case False
    then have "C = 1" using CW(1) by simp
    then show ?thesis using s1 by (simp add: acquire_checkpoint_guard_def guard_taken_def)
  next
    case C: True
    obtain s2 where s2: "try_read_mark_exclusive s1 0 = (R 0 = 0, s2)" "locks s2 V W 1 R (if R 0 = 0 then X(0 := 1) else X)" "wal_meta s2 = wal_meta s" "same_marks s s2"
      using mark_exclusive [OF s1(2), of 0] X C s1(3) same_marks_trans [OF s1(4)] by auto
    show ?thesis
    proof (cases "R 0 = 0")
      case False
      then have "locks s2 V W 1 R X" using s2(2) by simp
      then obtain s3 where "unlock_checkpoint_lock s2 = Inr s3" "locks s3 V W 0 R X" "wal_meta s3 = wal_meta s" "same_marks s s3"
        using checkpoint_unlocked s2(3) same_marks_trans [OF s2(4)] by metis
      then show ?thesis using s1(1) s2(1) C False by (cases mode) (simp_all add: acquire_checkpoint_guard_def guard_taken_def)
    next
      case R: True
      have l2: "locks s2 V W 1 R (X(0 := 1))" using s2(2) R by simp
      obtain s3 where s3: "try_write_lock s2 = (W = 0, s3)" "locks s3 V 1 1 R (X(0 := 1))" "wal_meta s3 = wal_meta s" "same_marks s s3"
        using write_locked [OF l2] s2(3) same_marks_trans [OF s2(4)] by metis
      have X0: "(X(0 := 1))(0 := 0) = X" using X C by (simp add: fun_upd_idem)
      show ?thesis
      proof (cases "W = 0")
        case True
        then show ?thesis using s1(1) s2 s3 C R l2 by (cases mode) (simp_all add: acquire_checkpoint_guard_def guard_taken_def)
      next
        case False
        then have W: "W = 1" using CW(2) by simp
        obtain s4 where s4: "unlock_read_mark s3 0 = Inr s4" "locks s4 V 1 1 R X" "wal_meta s4 = wal_meta s" "same_marks s s4"
          using mark_unlock_exclusive [OF s3(2), of 0] s3(3) same_marks_trans [OF s3(4)] X0 by auto
        obtain s5 where s5: "unlock_checkpoint_lock s4 = Inr s5" "locks s5 V 1 0 R X" "wal_meta s5 = wal_meta s" "same_marks s s5"
          using checkpoint_unlocked [OF s4(2)] s4(3) same_marks_trans [OF s4(4)] by metis
        obtain s6 where s6: "unlock_checkpoint_lock s3 = Inr s6" "locks s6 V 1 0 R (X(0 := 1))" "wal_meta s6 = wal_meta s" "same_marks s s6"
          using checkpoint_unlocked [OF s3(2)] s3(3) same_marks_trans [OF s3(4)] by metis
        obtain s7 where s7: "unlock_read_mark s6 0 = Inr s7" "locks s7 V 1 0 R X" "wal_meta s7 = wal_meta s" "same_marks s s7"
          using mark_unlock_exclusive [OF s6(2), of 0] s6(3) same_marks_trans [OF s6(4)] X0 by auto
        show ?thesis using s1(1) s2 s3 s4(1) s5 s6(1) s7 C R l2 W by (cases mode) (simp_all add: acquire_checkpoint_guard_def guard_taken_def)
      qed
    qed
  qed
qed

lemma release_checkpoint_guard_ok:
  assumes "locks s V W 1 R X" "X 0 = 1" "g = Writer \<longrightarrow> W = 1"
  shows "\<exists>s'. release_checkpoint_guard s g = Inr s' \<and> locks s' V (if g = Writer then 0 else W) 0 R (X(0 := 0)) \<and> wal_meta s' = wal_meta s \<and> same_marks s s'"
proof -
  have read0: "\<exists>s'. rbind (unlock_read_mark s1 0) (\<lambda>s. unlock_checkpoint_lock s) = Inr s' \<and> locks s' V W' 0 R (X(0 := 0)) \<and> wal_meta s' = wal_meta s \<and> same_marks s s'"
    if h: "locks s1 V W' 1 R X" "wal_meta s1 = wal_meta s" "same_marks s s1" for s1 W'
  proof -
    obtain s2 where s2: "unlock_read_mark s1 0 = Inr s2" "locks s2 V W' 1 R (X(0 := 0))" "wal_meta s2 = wal_meta s" "same_marks s s2"
      using mark_unlock_exclusive [OF h(1), of 0] assms(2) h(2) same_marks_trans [OF h(3)] by auto
    show ?thesis using checkpoint_unlocked [OF s2(2)] s2 same_marks_trans [OF s2(4)] by auto
  qed
  show ?thesis
  proof (cases g)
    case Writer
    then obtain s1 where "unlock_write_lock s = Inr s1" "locks s1 V 0 1 R X" "wal_meta s1 = wal_meta s" "same_marks s s1"
      using write_unlocked assms(1,3) by blast
    then show ?thesis using read0 [of s1 0] Writer by simp
  next
    case Read0
    then show ?thesis using read0 [OF assms(1)] by simp
  qed
qed

section \<open>Restarting the log\<close>

lemma unlock_read_marks_ok:
  assumes "locks s V W C R X" "distinct idxs" "\<forall>i \<in> set idxs. i < 5 \<and> X i = 1"
  shows "\<exists>s'. unlock_read_marks s idxs = Inr s' \<and> locks s' V W C R (\<lambda>i. if i \<in> set idxs then 0 else X i) \<and> wal_meta s' = wal_meta s \<and> same_marks s s'"
  using assms
proof (induction idxs arbitrary: s X)
  case (Cons i idxs)
  obtain s1 where s1: "unlock_read_mark s i = Inr s1" "locks s1 V W C R (X(i := 0))" "wal_meta s1 = wal_meta s" "same_marks s s1"
    using mark_unlock_exclusive [OF Cons.prems(1), of i] Cons.prems(3) by auto
  obtain s' where s': "unlock_read_marks s1 idxs = Inr s'" "locks s' V W C R (\<lambda>j. if j \<in> set idxs then 0 else (X(i := 0)) j)" "wal_meta s' = wal_meta s1" "same_marks s1 s'"
    using Cons.IH [OF s1(2)] Cons.prems(2,3) by fastforce
  have "(\<lambda>j. if j \<in> set idxs then 0 else (X(i := 0)) j) = (\<lambda>j. if j \<in> set (i # idxs) then 0 else X j)" by auto
  then show ?case using s' s1 same_marks_trans [OF s1(4)] by auto
qed auto

lemma set_values_ok:
  assumes "locks s V W C R X" "\<forall>(i, v) \<in> set xs. i < 5 \<and> X i = 1"
  shows "\<exists>s'. set_values s xs = Inr s' \<and> locks s' V W C R X \<and> wal_meta s' = wal_meta s"
  using assms
proof (induction xs arbitrary: s)
  case (Cons x xs)
  obtain i v where x: "x = (i, v)" by force
  obtain s1 where s1: "set_read_mark_value_exclusive s i v = Inr s1" "locks s1 V W C R X" "wal_meta s1 = wal_meta s"
    using mark_set [OF Cons.prems(1), of i v] Cons.prems(2) x by auto
  then show ?case using Cons.IH [OF s1(2)] Cons.prems(2) x by auto
qed simp

lemma lock_read_marks_ok:
  assumes "locks s V W C R X" "1 \<le> k" "k \<le> 5" "\<forall>i \<in> {k..<5}. X i = 0" "\<forall>i \<in> {1..<k}. X i = 1"
  shows "\<exists>ok s'. lock_read_marks s [k..<5] = Inr (ok, s') \<and> wal_meta s' = wal_meta s \<and> held_marks R s s' \<and>
    ok = (\<forall>i \<in> {k..<5}. R i = 0) \<and> locks s' V W C R (\<lambda>i. if i \<in> {1..<5} then (if ok then 1 else 0) else X i)"
  using assms
proof (induction "5 - k" arbitrary: k s X)
  case 0
  then have k: "k = 5" by simp
  have "(\<lambda>i. if i \<in> {1..<5} then (if True then 1 else 0) else X i) = X" using 0(6) k by auto
  then show ?case using 0(2) k by (intro exI [of _ True] exI [of _ s]) auto
next
  case (Suc n)
  then have k: "k < 5" "[k..<5] = k # [Suc k..<5]" by (simp_all add: upt_conv_Cons)
  have Xk: "X k = 0" using Suc.prems(4) k(1) by simp
  obtain s1 where s1: "try_read_mark_exclusive s k = (R k = 0, s1)" "locks s1 V W C R (if R k = 0 then X(k := 1) else X)" "wal_meta s1 = wal_meta s" "same_marks s s1"
    using mark_exclusive [OF Suc.prems(1) k(1)] Xk by auto
  show ?case
  proof (cases "R k = 0")
    case False
    then have l1: "locks s1 V W C R X" using s1(2) by simp
    obtain s2 where s2: "unlock_read_marks s1 [1..<k] = Inr s2" "locks s2 V W C R (\<lambda>i. if i \<in> set [1..<k] then 0 else X i)" "wal_meta s2 = wal_meta s1" "same_marks s1 s2"
      using unlock_read_marks_ok [OF l1, of "[1..<k]"] Suc.prems(5) k(1) by auto
    have e: "(\<lambda>i. if i \<in> set [1..<k] then 0 else X i) = (\<lambda>i. if i \<in> {1..<5} then (if False then 1 else 0) else X i)" using Suc.prems(2,4) k(1) by (auto simp: fun_eq_iff)
    show ?thesis
      using s1 s2 False same_marks_held [OF same_marks_trans [OF s1(4) s2(4)]] k unfolding e
      by (intro exI [of _ False] exI [of _ s2]) auto
  next
    case True
    then have l1: "locks s1 V W C R (X(k := 1))" using s1(2) by simp
    obtain s2 where s2: "set_read_mark_value_exclusive s1 k READMARK_NOT_USED = Inr s2" "locks s2 V W C R (X(k := 1))" "wal_meta s2 = wal_meta s1"
      "\<forall>j < 5. read_mark_value s2 j = (if j = k then READMARK_NOT_USED else read_mark_value s1 j)" using mark_set [OF l1 k(1), of READMARK_NOT_USED] by auto
    have h: "held_marks R s s2" using True s1(4) s2(4) by (auto simp: held_marks_def same_marks_def)
    have "n = 5 - Suc k" "\<forall>i \<in> {Suc k..<5}. (X(k := 1)) i = 0" "\<forall>i \<in> {1..<Suc k}. (X(k := 1)) i = 1" using Suc(2) Suc.prems(4,5) by auto
    then obtain ok s' where s': "lock_read_marks s2 [Suc k..<5] = Inr (ok, s')" "wal_meta s' = wal_meta s2" "held_marks R s2 s'" "ok = (\<forall>i \<in> {Suc k..<5}. R i = 0)"
      "locks s' V W C R (\<lambda>i. if i \<in> {1..<5} then (if ok then 1 else 0) else (X(k := 1)) i)"
      using Suc(1) [OF _ s2(2), of "Suc k"] k(1) by force
    have e: "(\<lambda>i. if i \<in> {1..<5} then (if ok then 1 else 0) else (X(k := 1)) i) = (\<lambda>i. if i \<in> {1..<5} then (if ok then 1 else 0) else X i)"
      using Suc.prems(2) k(1) by auto
    have ok: "ok = (\<forall>i \<in> {k..<5}. R i = 0)" using s'(4) True k(1) by (auto simp: le_eq_less_or_eq Suc_le_eq)
    show ?thesis using s1 s2 s' True ok k(2) held_marks_trans [OF h s'(3)] unfolding e by (intro exI [of _ ok] exI [of _ s']) auto
  qed
qed

definition restarted :: "wal_shared \<Rightarrow> wal_shared \<Rightarrow> bool" where
  "restarted s s' \<longleftrightarrow> max_frame s' = 0 \<and> nbackfills s' = 0 \<and> \<not> initialized s' \<and> frame_cache s' = (\<lambda>_. []) \<and> frame_cache_high_water s' = 0 \<and>
     transaction_count s' = transaction_count s"

lemma restarted_meta: "wal_meta s'' = wal_meta s' \<Longrightarrow> restarted s s' \<Longrightarrow> restarted s s''"
  using wal_meta_fields [of s'' s'] by (simp add: restarted_def)

lemma restart_wal_header_ok:
  assumes "locks s V W C R X" "\<forall>i < 5. X i = 1"
  shows "\<exists>s'. restart_wal_header s rnd = Inr s' \<and> locks s' V W C R X \<and> restarted s s'"
proof -
  define h where "h = (header s)\<lparr>checkpoint_seq := checkpoint_seq (header s) + 1, salt_1 := salt_1 (header s) + 1, salt_2 := rnd\<rparr>"
  define s1 where "s1 = s\<lparr>header := h, max_frame := 0, nbackfills := 0, last_checksum := (checksum_1 h, checksum_2 h), initialized := False,
                frame_cache := (\<lambda>_. []), frame_cache_high_water := 0\<rparr>"
  have l: "locks s1 V W C R X" using assms(1) by (simp add: locks_def s1_def)
  have r: "restarted s s1" by (simp add: restarted_def s1_def)
  obtain s' where "set_values s1 [(0, 0), (1, 0), (2, READMARK_NOT_USED), (3, READMARK_NOT_USED), (4, READMARK_NOT_USED)] = Inr s'" "locks s' V W C R X" "wal_meta s' = wal_meta s1"
    using set_values_ok [OF l, of "[(0, 0), (1, 0), (2, READMARK_NOT_USED), (3, READMARK_NOT_USED), (4, READMARK_NOT_USED)]"] assms(2) by auto
  then show ?thesis using restarted_meta [OF _ r] unfolding restart_wal_header_def Let_def h_def [symmetric] s1_def [symmetric] by auto
qed

lemma begin_restart_ok:
  assumes l: "locks s V W C R X" and X: "X 0 = 1" "\<forall>i \<in> {1..<5}. X i = 0"
  shows "\<exists>r s'. begin_restart s rnd = Inr (r, s') \<and>
    (if \<forall>i \<in> {1..<5}. R i = 0 then r = Inr (load_snapshot s') \<and> locks s' V W C R (\<lambda>i. if i \<in> {1..<5} then 1 else X i) \<and> restarted s s'
     else r = Inl Busy \<and> locks s' V W C R X \<and> wal_meta s' = wal_meta s \<and> held_marks R s s')"
proof -
  have e: "\<forall>i \<in> {1..<1}. X i = 1" by simp
  obtain ok s1 where s1: "lock_read_marks s [1..<5] = Inr (ok, s1)" "wal_meta s1 = wal_meta s" "held_marks R s s1" "ok = (\<forall>i \<in> {1..<5}. R i = 0)"
    "locks s1 V W C R (\<lambda>i. if i \<in> {1..<5} then (if ok then 1 else 0) else X i)" using lock_read_marks_ok [OF l le_refl _ X(2) e] by auto
  have l1: "locks s1 V W C R (\<lambda>i. if i \<in> {1..<5} then (if b then 1 else 0) else X i)" if "ok = b" for b using s1(5) unfolding that .
  show ?thesis
  proof (cases ok)
    case True
    have "\<forall>i < 5. (\<lambda>i. if i \<in> {1..<5} then 1 else X i) i = 1" using X(1) by (auto simp: less_Suc_eq numeral_eq_Suc)
    then obtain s' where "restart_wal_header s1 rnd = Inr s'" "locks s' V W C R (\<lambda>i. if i \<in> {1..<5} then 1 else X i)" "restarted s1 s'"
      using restart_wal_header_ok [of s1 V W C R "\<lambda>i. if i \<in> {1..<5} then 1 else X i" rnd] l1 [of True, unfolded if_True] True by auto
    then show ?thesis using s1 True wal_meta_fields [OF s1(2)] by (auto simp: begin_restart_def restarted_def)
  next
    case False
    have "(\<lambda>i. if i \<in> {1..<5} then 0 else X i) = X" using X(2) by auto
    then have "locks s1 V W C R X" using l1 [of False, unfolded if_False] False by simp
    then show ?thesis using s1 False by (auto simp: begin_restart_def)
  qed
qed

lemma end_restart_ok:
  assumes "locks s V W C R X" "\<forall>i \<in> {1..<5}. X i = 1"
  shows "\<exists>s'. end_restart s = Inr s' \<and> locks s' V W C R (\<lambda>i. if i \<in> {1..<5} then 0 else X i) \<and> wal_meta s' = wal_meta s \<and> same_marks s s'"
  using unlock_read_marks_ok [OF assms(1), of "[1..<5]"] assms(2) by (simp add: end_restart_def)

lemma try_restart_log_for_write_ok:
  assumes l: "locks s V W C R X" and X: "\<forall>i < 5. X i = 0"
  shows "\<exists>r s'. try_restart_log_for_write s rnd = Inr (r, s') \<and> locks s' V W C R X \<and>
    (r = Inl Busy \<and> wal_meta s' = wal_meta s \<and> held_marks R s s' \<or> r = Inr None \<and> wal_meta s' = wal_meta s \<and> held_marks R s s' \<or>
     r = Inr (Some (load_snapshot s')) \<and> R 0 = 1 \<and> (\<forall>i \<in> {1..<5}. R i = 0) \<and> restarted s s')"
proof -
  obtain l1 where l1: "rw_upgrade (read_locks s ! 0) = (R 0 = 1, l1)" "lock_ok l1 (if R 0 = 1 then 0 else R 0) (if R 0 = 1 then 1 else X 0)" "rw_get_value l1 = read_mark_value s 0"
    using lock_upgrade [OF locks_nth [OF l, of 0]] by (auto simp: read_mark_value_def)
  define s1 where "s1 = s\<lparr>read_locks := (read_locks s)[0 := l1]\<rparr>"
  have s1: "try_upgrade_read_mark s 0 = (R 0 = 1, s1)" "wal_meta s1 = wal_meta s" "same_marks s s1"
    "locks s1 V W C (R(0 := if R 0 = 1 then 0 else R 0)) (X(0 := if R 0 = 1 then 1 else X 0))"
    using slot_step [OF l _ s1_def l1(2,3)] l1(1) by (auto simp: try_upgrade_read_mark_def s1_def same_marks_def)
  show ?thesis
  proof (cases "R 0 = 1")
    case False
    then show ?thesis using s1 same_marks_held by (simp add: try_restart_log_for_write_def)
  next
    case True
    define R' where "R' = R(0 := 0)"
    define X' where "X' = X(0 := 1)"
    have l1': "locks s1 V W C R' X'" using s1(4) True by (simp add: R'_def X'_def)
    obtain r s2 where s2: "begin_restart s1 rnd = Inr (r, s2)"
      "if \<forall>i \<in> {1..<5}. R' i = 0 then r = Inr (load_snapshot s2) \<and> locks s2 V W C R' (\<lambda>i. if i \<in> {1..<5} then 1 else X' i) \<and> restarted s1 s2
       else r = Inl Busy \<and> locks s2 V W C R' X' \<and> wal_meta s2 = wal_meta s1 \<and> held_marks R' s1 s2"
      using begin_restart_ok [OF l1', of rnd] X by (auto simp: X'_def)
    have down: "locks (downgrade_read_mark s2 0) V W C (R'(0 := 1)) (Y(0 := 0)) \<and> wal_meta (downgrade_read_mark s2 0) = wal_meta s2 \<and> same_marks s2 (downgrade_read_mark s2 0)"
      if "locks s2 V W C R' Y" "Y 0 = 1" for Y
    proof -
      have "lock_ok (read_locks s2 ! 0) (R' 0) 1" using locks_nth [OF that(1), of 0] that(2) by simp
      then show ?thesis using slot_step [OF that(1) _ downgrade_read_mark_def [of s2 0], of 1 0 "read_mark_value s2 0"] lock_downgrade
        by (auto simp: read_mark_value_def same_marks_def)
    qed
    have R: "R'(0 := 1) = R" using True by (auto simp: R'_def)
    show ?thesis
    proof (cases "\<forall>i \<in> {1..<5}. R' i = 0")
      case free: True
      let ?Y = "\<lambda>i. if i \<in> {1..<5} then 1 else X' i"
      have s2': "r = Inr (load_snapshot s2)" "locks s2 V W C R' ?Y" "restarted s1 s2" using s2(2) free by auto
      have d: "locks (downgrade_read_mark s2 0) V W C R (?Y(0 := 0))" "wal_meta (downgrade_read_mark s2 0) = wal_meta s2"
        using down [OF s2'(2)] R by (auto simp: X'_def)
      obtain s3 where s3: "end_restart (downgrade_read_mark s2 0) = Inr s3" "locks s3 V W C R (\<lambda>i. if i \<in> {1..<5} then 0 else (?Y(0 := 0)) i)" "wal_meta s3 = wal_meta s2"
        using end_restart_ok [OF d(1)] d(2) by auto
      have "(\<lambda>i. if i \<in> {1..<5} then 0 else (?Y(0 := 0)) i) = X" using X by (auto simp: X'_def fun_eq_iff)
      then show ?thesis using s1(1) s2(1) s2' s3 True free wal_meta_fields [OF s3(3)] wal_meta_fields [OF s1(2)] unfolding try_restart_log_for_write_def
        by (auto simp: R'_def restarted_def Let_def)
    next
      case False
      have s2': "r = Inl Busy" "locks s2 V W C R' X'" "wal_meta s2 = wal_meta s1" "held_marks R' s1 s2" using s2(2) False by auto
      have "X'(0 := 0) = X" using X by (auto simp: X'_def)
      then have d: "locks (downgrade_read_mark s2 0) V W C R X" "wal_meta (downgrade_read_mark s2 0) = wal_meta s2" "same_marks s2 (downgrade_read_mark s2 0)"
        using down [OF s2'(2)] R by (auto simp: X'_def)
      have "held_marks R' s (downgrade_read_mark s2 0)" using held_marks_trans [OF same_marks_held [OF s1(3)] held_marks_trans [OF s2'(4) same_marks_held [OF d(3)]]] .
      then show ?thesis using s1 s2(1) s2' d True by (auto simp: try_restart_log_for_write_def Let_def R'_def held_marks_def)
    qed
  qed
qed

end
