(* ===== verification/Wal_Invariant.thy ===== *)
theory Wal_Invariant
  imports Wal_System Wal_Locks
begin

text \<open>
  The invariant of connections over one log. The locks count their holders; the frame index of each page ascends;
  the database file holds, for every page with backfilled frames, a version that every reader may see; a reader's snapshot
  lies within the committed frames; and a checkpoint in progress has copied what it has not left to do.
\<close>

section \<open>Counting connections\<close>

definition cnt :: "('c \<Rightarrow> bool) \<Rightarrow> 'c list \<Rightarrow> nat" where
  "cnt P cs = length (filter P cs)"

lemma cnt_update:
  assumes "i < length cs"
  shows "cnt P (cs[i := c]) + of_bool (P (cs ! i)) = cnt P cs + of_bool (P c)"
proof -
  have "cnt P (take i cs @ cs ! i # drop (Suc i) cs) = cnt P (take i cs) + of_bool (P (cs ! i)) + cnt P (drop (Suc i) cs)"
    by (simp add: cnt_def)
  then have "cnt P cs = cnt P (take i cs) + of_bool (P (cs ! i)) + cnt P (drop (Suc i) cs)"
    using id_take_nth_drop [OF assms] by simp
  moreover have "cnt P (cs[i := c]) = cnt P (take i cs) + of_bool (P c) + cnt P (drop (Suc i) cs)"
    using assms by (simp add: upd_conv_take_nth_drop cnt_def)
  ultimately show ?thesis by simp
qed

lemma cnt_same: "i < length cs \<Longrightarrow> P c = P (cs ! i) \<Longrightarrow> cnt P (cs[i := c]) = cnt P cs"
  using cnt_update [of i cs P c] by simp

lemma cnt_add: "i < length cs \<Longrightarrow> \<not> P (cs ! i) \<Longrightarrow> P c \<Longrightarrow> cnt P (cs[i := c]) = cnt P cs + 1"
  using cnt_update [of i cs P c] by simp

lemma cnt_sub: "i < length cs \<Longrightarrow> P (cs ! i) \<Longrightarrow> \<not> P c \<Longrightarrow> cnt P (cs[i := c]) = cnt P cs - 1"
  using cnt_update [of i cs P c] by simp

lemma cnt_pos: "i < length cs \<Longrightarrow> P (cs ! i) \<Longrightarrow> 0 < cnt P cs"
  by (auto simp: cnt_def filter_empty_conv)

lemma cnt_le: "cnt P cs \<le> length cs"
  by (simp add: cnt_def)

lemma cnt_0: "cnt P cs = 0 \<longleftrightarrow> (\<forall>c \<in> set cs. \<not> P c)"
  by (auto simp: cnt_def filter_empty_conv)

lemma cnt_unique:
  assumes "cnt P cs \<le> 1" "i < length cs" "P (cs ! i)" "j < length cs" "P (cs ! j)"
  shows "i = j"
proof (rule ccontr)
  assume "i \<noteq> j"
  then have "card {i, j} \<le> card {k. k < length cs \<and> P (cs ! k)}" using assms by (intro card_mono) auto
  then show False using assms(1) \<open>i \<noteq> j\<close> by (simp add: cnt_def length_filter_conv_card)
qed

section \<open>Frames\<close>

lemma rfind_filter: "rfind P xs = (if filter P xs = [] then None else Some (last (filter P xs)))"
proof -
  have "find P ys = (case filter P ys of [] \<Rightarrow> None | y # _ \<Rightarrow> Some y)" for ys by (induction ys) auto
  then show ?thesis by (cases "filter P xs" rule: rev_cases) (simp_all add: rfind_def flip: rev_filter)
qed

lemma rfind_Some: "rfind P xs = Some f \<Longrightarrow> f \<in> set xs \<and> P f"
  using last_in_set [of "filter P xs"] by (auto simp: rfind_filter split: if_splits)

lemma rfind_None: "rfind P xs = None \<longleftrightarrow> (\<forall>f \<in> set xs. \<not> P f)"
  by (auto simp: rfind_filter filter_empty_conv)

lemma rfind_sorted:
  assumes "sorted_wrt (<) xs"
  shows "rfind P xs = Some f \<longleftrightarrow> f \<in> set xs \<and> P f \<and> (\<forall>g \<in> set xs. P g \<longrightarrow> g \<le> (f :: nat))"
proof -
  have "sorted_wrt (<) (filter P xs)" using assms by (rule sorted_wrt_filter)
  then have l: "g \<le> last (filter P xs)" if "g \<in> set (filter P xs)" for g
    using that by (cases "filter P xs" rule: rev_cases) (auto simp: sorted_wrt_append)
  show ?thesis
  proof
    assume "rfind P xs = Some f"
    then have "filter P xs \<noteq> []" "f = last (filter P xs)" by (auto simp: rfind_filter split: if_splits)
    then show "f \<in> set xs \<and> P f \<and> (\<forall>g \<in> set xs. P g \<longrightarrow> g \<le> f)" using l last_in_set [of "filter P xs"] by auto
  next
    assume f: "f \<in> set xs \<and> P f \<and> (\<forall>g \<in> set xs. P g \<longrightarrow> g \<le> f)"
    then have ne: "filter P xs \<noteq> []" by (auto simp: filter_empty_conv)
    then have "last (filter P xs) \<in> set xs" "P (last (filter P xs))" using last_in_set [OF ne] by auto
    then have "last (filter P xs) = f" using f l [of f] by force
    then show "rfind P xs = Some f" using ne by (simp add: rfind_filter)
  qed
qed

lemma rfind_cong: "filter P xs = filter P ys \<Longrightarrow> rfind P xs = rfind P ys"
  by (simp add: rfind_filter)

lemma filter_narrow: "filter Q xs = filter Q ys \<Longrightarrow> (\<And>x. P x \<Longrightarrow> Q x) \<Longrightarrow> filter P xs = filter P ys"
  by (metis (mono_tags, lifting) filter_cong filter_filter)

text \<open>The database as of frame \<open>n\<close>: the latest frame up to \<open>n\<close> of each page, or the database file.\<close>

definition image :: "('a wal_index_scheme) \<Rightarrow> (nat \<Rightarrow> bytes) \<Rightarrow> (nat \<Rightarrow> bytes) \<Rightarrow> nat \<Rightarrow> nat \<Rightarrow> bytes" where
  "image s l d n p = (case rfind (\<lambda>f. f \<le> n) (frame_cache s p) of Some f \<Rightarrow> frame_page (l f) | None \<Rightarrow> d p)"

section \<open>The invariant\<close>

abbreviation reading :: "wal_conn \<Rightarrow> bool" where
  "reading c \<equiv> c_read_guard c \<noteq> NoGuard"

definition in_vacuum :: "wal_conn \<Rightarrow> bool" where
  "in_vacuum c \<longleftrightarrow> c_vacuum_read c \<or> (case pc c of BeginRead _ \<Rightarrow> True | ClaimedRead _ _ \<Rightarrow> True | LockedRead _ _ \<Rightarrow> True | _ \<Rightarrow> False)"

definition ckpt_guard :: "wal_conn \<Rightarrow> checkpoint_guard_kind option" where
  "ckpt_guard c = (case c_checkpoint_guard c of None \<Rightarrow> result_guard (pc c) | g \<Rightarrow> g)"

definition writes :: "wal_conn \<Rightarrow> bool" where
  "writes c \<longleftrightarrow> c_write_lock_held c \<or> ckpt_guard c = Some Writer"

definition checkpoints :: "wal_conn \<Rightarrow> bool" where
  "checkpoints c \<longleftrightarrow> ckpt_guard c \<noteq> None"

definition restarting :: "wal_conn \<Rightarrow> bool" where
  "restarting c \<longleftrightarrow> (case pc c of CkFinalize m _ \<Rightarrow> should_restart_log m | _ \<Rightarrow> False)"

definition slot_guard :: "nat \<Rightarrow> read_guard_kind" where
  "slot_guard i = (if i = 0 then DbFile else ReadMark i)"

text \<open>The read mark that a connection holds, for its transaction or to begin one.\<close>

fun begin_slot :: "conn_pc \<Rightarrow> nat option" where
  "begin_slot (LockedRead _ b) = Some (fst b)"
| "begin_slot _ = None"

fun guard_slot :: "nat option \<Rightarrow> read_guard_kind \<Rightarrow> nat option" where
  "guard_slot b NoGuard = b"
| "guard_slot b DbFile = Some 0"
| "guard_slot b (ReadMark k) = Some k"

definition slot_of :: "wal_conn \<Rightarrow> nat option" where
  "slot_of c = guard_slot (begin_slot (pc c)) (c_read_guard c)"

definition slot_readers :: "wal_conn list \<Rightarrow> nat \<Rightarrow> nat" where
  "slot_readers cs = (\<lambda>i. cnt (\<lambda>c. slot_of c = Some i) cs)"

lemma slot_of_guard: "c_read_guard c = slot_guard k \<Longrightarrow> slot_of c = Some k"
  by (auto simp: slot_of_def slot_guard_def split: if_splits)

definition slot_writers :: "wal_conn list \<Rightarrow> nat \<Rightarrow> nat" where
  "slot_writers cs = (\<lambda>i. if i = 0 then cnt checkpoints cs else cnt restarting cs)"

definition locks_inv :: "wal_shared \<Rightarrow> wal_conn list \<Rightarrow> bool" where
  "locks_inv s cs \<longleftrightarrow> locks s (cnt in_vacuum cs) (cnt writes cs) (cnt checkpoints cs) (slot_readers cs) (slot_writers cs)"

definition index_inv :: "('a wal_index_scheme) \<Rightarrow> bool" where
  "index_inv s \<longleftrightarrow> nbackfills s \<le> max_frame s \<and> max_frame s < 2 ^ 32 \<and> (\<not> initialized s \<longrightarrow> max_frame s = 0) \<and>
     (\<forall>p. sorted_wrt (<) (frame_cache s p) \<and> (\<forall>f \<in> set (frame_cache s p). f \<le> frame_cache_high_water s))"

text \<open>No reader, and no later one, is behind frame \<open>n\<close>.\<close>

definition visible :: "('a wal_index_scheme) \<Rightarrow> wal_conn list \<Rightarrow> nat \<Rightarrow> bool" where
  "visible s cs n \<longleftrightarrow> n \<le> max_frame s \<and> (\<forall>c \<in> set cs. reading c \<longrightarrow> n \<le> c_max_frame c)"

definition db_inv :: "('a wal_index_scheme) \<Rightarrow> wal_conn list \<Rightarrow> (nat \<Rightarrow> bytes) \<Rightarrow> (nat \<Rightarrow> bytes) \<Rightarrow> bool" where
  "db_inv s cs l d \<longleftrightarrow> (\<forall>p. (\<exists>f \<in> set (frame_cache s p). f \<le> nbackfills s) \<longrightarrow>
     (\<exists>f \<in> set (frame_cache s p). d p = frame_page (l f) \<and> visible s cs f \<and> (\<forall>g \<in> set (frame_cache s p). g \<le> nbackfills s \<longrightarrow> g \<le> f)))"

text \<open>The frames a checkpoint copies, and those it has left.\<close>

definition range_frame :: "('a wal_index_scheme) \<Rightarrow> nat \<Rightarrow> nat \<Rightarrow> nat \<Rightarrow> nat option" where
  "range_frame s lo hi p = rfind (\<lambda>f. lo \<le> f \<and> f \<le> hi) (frame_cache s p)"

definition ck_range :: "('a wal_index_scheme) \<Rightarrow> wal_conn list \<Rightarrow> (nat \<Rightarrow> bytes) \<Rightarrow> (nat \<Rightarrow> bytes) \<Rightarrow> nat \<times> nat \<times> (nat \<times> nat) list \<Rightarrow> bool" where
  "ck_range s cs l d = (\<lambda>(lo, hi, rem). lo = nbackfills s + 1 \<and> visible s cs hi \<and>
     (\<forall>p f. range_frame s lo hi p = Some f \<longrightarrow> (p, f) \<in> set rem \<or> d p = frame_page (l f)) \<and>
     (\<forall>(p, f) \<in> set rem. range_frame s lo hi p = Some f))"

definition ck_active :: "wal_conn \<Rightarrow> (nat \<times> nat \<times> (nat \<times> nat) list) option" where
  "ck_active c = (case pc c of
       CkCopying _ \<Rightarrow> Some (oc_min_frame c, oc_max_frame c, pages_to_checkpoint c)
     | CkFinalize m r \<Rightarrow> if should_restart_log m then None else Some (oc_min_frame c, oc_max_frame c, [])
     | CkDone m r \<Rightarrow> if should_restart_log m \<or> wal_checkpoint_backfilled r = 0 then None
         else Some (wal_total_backfilled r - wal_checkpoint_backfilled r + 1, wal_total_backfilled r, [])
     | _ \<Rightarrow> None)"

definition batch_frames :: "prepared_frames list \<Rightarrow> (nat \<times> nat \<times> (u32 \<times> u32) \<times> bytes) list" where
  "batch_frames bs = concat (map pf_frames bs)"

definition prepared_ok :: "(nat \<Rightarrow> bytes) \<Rightarrow> nat \<Rightarrow> prepared_frames list \<Rightarrow> bool" where
  "prepared_ok l n bs \<longleftrightarrow> map (fst \<circ> snd) (batch_frames bs) = [n + 1..<n + 1 + length (batch_frames bs)] \<and>
     (\<forall>(p, f, ck, b) \<in> set (batch_frames bs). l f = b) \<and>
     (\<forall>b \<in> set bs. pf_frames b \<noteq> [] \<and> final_max_frame b = fst (snd (last (pf_frames b))))"

definition guard_for :: "checkpoint_mode \<Rightarrow> checkpoint_guard_kind" where
  "guard_for m = (if require_all_backfilled m then Writer else Read0)"

definition pc_ok :: "('a wal_index_scheme) \<Rightarrow> (nat \<Rightarrow> bytes) \<Rightarrow> wal_conn \<Rightarrow> bool" where
  "pc_ok s l c \<longleftrightarrow> (case pc c of
       BeginRead snap \<Rightarrow> \<not> reading c \<and> s_max_frame snap < 2 ^ 32
     | ClaimedRead snap b \<Rightarrow> \<not> reading c \<and> fst b < 5 \<and> unat (snd b) \<le> s_max_frame snap
     | LockedRead snap b \<Rightarrow> \<not> reading c \<and> fst b < 5 \<and> unat (snd b) \<le> s_max_frame snap
     | BeginWrite \<Rightarrow> c_write_lock_held c \<and> c_max_frame c = max_frame s
     | Prepared bs \<Rightarrow> c_write_lock_held c \<and> initialized s \<and> bs \<noteq> [] \<and> prepared_ok l (c_max_frame c) bs
     | CkLocked m n \<Rightarrow> n = nbackfills s
     | CkFinalize m r \<Rightarrow> maybe_guard r = None \<and> (if should_restart_log m then max_frame s = 0 \<and> everything_backfilled r
         else wal_total_backfilled r = oc_max_frame c \<and> wal_checkpoint_backfilled r = oc_max_frame c - (oc_min_frame c - 1))
     | CkDone m r \<Rightarrow> maybe_guard r \<in> {None, Some (guard_for m)} \<and> (should_restart_log m \<longrightarrow> max_frame s = 0 \<and> maybe_guard r \<noteq> None) \<and>
         (wal_checkpoint_backfilled r \<noteq> 0 \<longrightarrow> maybe_guard r \<noteq> None)
     | CkPublished m r \<Rightarrow> maybe_guard r \<in> {None, Some (guard_for m)}
     | _ \<Rightarrow> True) \<and>
     (c_write_lock_held c \<longrightarrow> c_checkpoint_guard c \<noteq> Some Writer \<and> result_guard (pc c) \<noteq> Some Writer) \<and>
     c_checkpoint_guard c = (case pc c of CkLocked m _ \<Rightarrow> Some (guard_for m) | CkCopying m \<Rightarrow> Some (guard_for m) | CkFinalize m _ \<Rightarrow> Some (guard_for m) | _ \<Rightarrow> None)"

definition conn_ok :: "wal_shared \<Rightarrow> wal_conn \<Rightarrow> bool" where
  "conn_ok s c \<longleftrightarrow> (c_vacuum_read c \<longleftrightarrow> reading c) \<and> (c_write_lock_held c \<longrightarrow> reading c) \<and>
     (reading c \<longrightarrow> c_min_frame c \<le> nbackfills s + 1 \<and> (if c_write_lock_held c then max_frame s \<le> c_max_frame c \<and> (\<not> initialized s \<longrightarrow> c_max_frame c = 0) else c_max_frame c \<le> max_frame s)) \<and>
     (\<forall>i. c_read_guard c = ReadMark i \<longrightarrow> 1 \<le> i \<and> i < 5 \<and> unat (read_mark_value s i) \<le> c_max_frame c \<and> unat (read_mark_value s i) \<le> max_frame s)"

definition conns_inv :: "wal_shared \<Rightarrow> wal_conn list \<Rightarrow> (nat \<Rightarrow> bytes) \<Rightarrow> (nat \<Rightarrow> bytes) \<Rightarrow> bool" where
  "conns_inv s cs l d \<longleftrightarrow> (\<forall>c \<in> set cs. conn_ok s c \<and> pc_ok s l c \<and> (\<forall>r. ck_active c = Some r \<longrightarrow> ck_range s cs l d r))"

definition wal_inv :: "wal_sys \<Rightarrow> bool" where
  "wal_inv \<sigma> \<longleftrightarrow> length (conns \<sigma>) + 1 < 2 ^ 31 \<and> locks_inv (shared \<sigma>) (conns \<sigma>) \<and> index_inv (shared \<sigma>) \<and>
     db_inv (shared \<sigma>) (conns \<sigma>) (log \<sigma>) (db \<sigma>) \<and> conns_inv (shared \<sigma>) (conns \<sigma>) (log \<sigma>) (db \<sigma>)"

text \<open>
  What the theorems ask of an event. First the contract of the caller, which \<^verbatim>\<open>core/storage/pager.rs\<close> observes: transactions are begun and ended in order,
  a writer prepares at least one page and not too many, of the page size of an initialised log, and it ends its transaction with everything committed or rolled back.
  Then that frame numbers stay within the range of read marks, and that the page list of a checkpoint, which the code takes from the keys of the index, covers the index.
  And last what the code does not ensure: a checkpoint that takes its locks still has the number of backfilled frames it loaded before.
\<close>

definition admissible :: "wal_event \<Rightarrow> wal_sys \<Rightarrow> bool" where
  "admissible ev \<sigma> = (let c = conns \<sigma> ! event_conn ev in
     case ev of
       EvBeginRead _ \<Rightarrow> \<not> reading c
     | EvEndRead _ \<Rightarrow> \<not> c_write_lock_held c
     | EvBeginWrite _ \<Rightarrow> reading c \<and> \<not> c_write_lock_held c
     | EvPrepareWal _ _ _ _ \<Rightarrow> c_write_lock_held c
     | EvPrepare _ pages ps _ \<Rightarrow> c_write_lock_held c \<and> pages \<noteq> [] \<and> length pages \<le> IOV_MAX \<and> initialized (shared \<sigma>) \<and>
         unat (wal_page_size (header (shared \<sigma>))) = ps \<and> (\<forall>x \<in> set pages. length (snd x) = ps \<and> ps mod 8 = 0)
     | EvCommit _ \<Rightarrow> c_write_lock_held c \<and> c_max_frame c < 2 ^ 32
     | EvRollback _ \<Rightarrow> c_write_lock_held c
     | EvEndWrite _ \<Rightarrow> c_write_lock_held c \<and> c_max_frame c = max_frame (shared \<sigma>)
     | EvCkRange _ keys \<Rightarrow> distinct keys \<and> (\<forall>p. frame_cache (shared \<sigma>) p \<noteq> [] \<longrightarrow> p \<in> set keys)
     | EvCkLock _ \<Rightarrow> (case pc c of CkLoaded _ n \<Rightarrow> n = nbackfills (shared \<sigma>) | _ \<Rightarrow> True)
     | _ \<Rightarrow> True)"

section \<open>What a step leaves alone\<close>

text \<open>The committed frames stay, in the index and in the log.\<close>

definition keeps :: "('a wal_index_scheme) \<Rightarrow> (nat \<Rightarrow> bytes) \<Rightarrow> ('a wal_index_scheme) \<Rightarrow> (nat \<Rightarrow> bytes) \<Rightarrow> bool" where
  "keeps s l s' l' \<longleftrightarrow> nbackfills s' = nbackfills s \<and> max_frame s \<le> max_frame s' \<and>
     (\<forall>p. filter (\<lambda>f. f \<le> max_frame s) (frame_cache s' p) = filter (\<lambda>f. f \<le> max_frame s) (frame_cache s p)) \<and>
     (\<forall>f \<le> max_frame s. l' f = l f)"

lemma keeps_meta: "wal_meta s' = wal_meta s \<Longrightarrow> keeps s l s' l"
  using wal_meta_fields [of s' s] by (simp add: keeps_def)

lemma keeps_mem:
  assumes "keeps s l s' l'" "f \<le> max_frame s"
  shows "f \<in> set (frame_cache s' p) \<longleftrightarrow> f \<in> set (frame_cache s p)"
proof -
  have "f \<in> set (filter (\<lambda>f. f \<le> max_frame s) (frame_cache s' p)) \<longleftrightarrow> f \<in> set (filter (\<lambda>f. f \<le> max_frame s) (frame_cache s p))"
    using assms(1) by (simp add: keeps_def)
  then show ?thesis using assms(2) by simp
qed

lemma keeps_rfind:
  assumes "keeps s l s' l'" "\<And>f. P f \<Longrightarrow> f \<le> max_frame s"
  shows "rfind P (frame_cache s' p) = rfind P (frame_cache s p)"
proof (rule rfind_cong, rule filter_narrow)
  show "filter (\<lambda>f. f \<le> max_frame s) (frame_cache s' p) = filter (\<lambda>f. f \<le> max_frame s) (frame_cache s p)" using assms(1) by (simp add: keeps_def)
qed (rule assms(2))

lemma image_keeps:
  assumes k: "keeps s l s' l'" and n: "n \<le> max_frame s"
  shows "image s' l' d n = image s l d n"
proof
  fix p
  have e: "rfind (\<lambda>f. f \<le> n) (frame_cache s' p) = rfind (\<lambda>f. f \<le> n) (frame_cache s p)" using n by (intro keeps_rfind [OF k]) simp
  have "l' f = l f" if "rfind (\<lambda>f. f \<le> n) (frame_cache s p) = Some f" for f
    using rfind_Some [OF that] n k by (simp add: keeps_def)
  then show "image s' l' d n p = image s l d n p" by (simp add: image_def e split: option.split)
qed

text \<open>A connection begins to read only at the last commit, or goes on from where it was.\<close>

definition reads_on :: "('a wal_index_scheme) \<Rightarrow> wal_conn \<Rightarrow> wal_conn \<Rightarrow> bool" where
  "reads_on s c c' \<longleftrightarrow> (reading c' \<longrightarrow> max_frame s \<le> c_max_frame c' \<or> reading c \<and> c_max_frame c \<le> c_max_frame c')"

lemma visible_update:
  assumes "visible s cs n" "max_frame s \<le> max_frame s'" "i < length cs" "reads_on s (cs ! i) c'"
  shows "visible s' (cs[i := c']) n"
proof -
  have "n \<le> c_max_frame c'" if "reading c'"
    using assms(1,3,4) that nth_mem [OF assms(3)] by (fastforce simp: visible_def reads_on_def)
  then show ?thesis using assms(1,2) set_update_subset_insert [of cs i c'] by (fastforce simp: visible_def)
qed

lemma db_inv_keeps:
  assumes inv: "db_inv s cs l d" "nbackfills s \<le> max_frame s" and k: "keeps s l s' l'" and i: "i < length cs" "reads_on s (cs ! i) c'"
  shows "db_inv s' (cs[i := c']) l' d"
  unfolding db_inv_def
proof (intro allI impI)
  fix p
  have nb: "nbackfills s' = nbackfills s" "max_frame s \<le> max_frame s'" using k by (simp_all add: keeps_def)
  assume "\<exists>f \<in> set (frame_cache s' p). f \<le> nbackfills s'"
  then have "\<exists>f \<in> set (frame_cache s p). f \<le> nbackfills s" using keeps_mem [OF k, of _ p] nb(1) inv(2) by force
  then obtain f where f: "f \<in> set (frame_cache s p)" "d p = frame_page (l f)" "visible s cs f" "\<forall>g \<in> set (frame_cache s p). g \<le> nbackfills s \<longrightarrow> g \<le> f"
    using inv(1) unfolding db_inv_def by blast
  have fm: "f \<le> max_frame s" using f(3) by (simp add: visible_def)
  have "f \<in> set (frame_cache s' p)" "d p = frame_page (l' f)" using f(1,2) fm keeps_mem [OF k fm] k by (simp_all add: keeps_def)
  moreover have "g \<le> f" if "g \<in> set (frame_cache s' p)" "g \<le> nbackfills s'" for g using that keeps_mem [OF k, of g p] nb(1) inv(2) f(4) by auto
  ultimately show "\<exists>f \<in> set (frame_cache s' p). d p = frame_page (l' f) \<and> visible s' (cs[i := c']) f \<and> (\<forall>g \<in> set (frame_cache s' p). g \<le> nbackfills s' \<longrightarrow> g \<le> f)"
    using visible_update [OF f(3) nb(2) i] by blast
qed

lemma ck_range_keeps:
  assumes r: "ck_range s cs l d r" and k: "keeps s l s' l'" and i: "i < length cs" "reads_on s (cs ! i) c'"
  shows "ck_range s' (cs[i := c']) l' d r"
proof -
  obtain lo hi rem where rr: "r = (lo, hi, rem)" by (cases r)
  have v: "visible s cs hi" "lo = nbackfills s + 1" using r by (simp_all add: ck_range_def rr)
  then have hi: "hi \<le> max_frame s" by (simp add: visible_def)
  then have e: "range_frame s' lo hi p = range_frame s lo hi p" for p using keeps_rfind [OF k, of "\<lambda>f. lo \<le> f \<and> f \<le> hi"] by (auto simp: range_frame_def)
  have "l' f = l f" if "range_frame s lo hi p = Some f" for p f
    using that rfind_Some [of _ "frame_cache s p" f] hi k by (fastforce simp: range_frame_def keeps_def)
  moreover have "nbackfills s' = nbackfills s" "visible s' (cs[i := c']) hi" using k visible_update [OF v(1) _ i, of s'] by (simp_all add: keeps_def)
  ultimately show ?thesis using r unfolding rr ck_range_def prod.case e by metis
qed

text \<open>What the step may do to other connections: nothing they see, or they do not write.\<close>

definition quiet :: "wal_shared \<Rightarrow> (nat \<Rightarrow> bytes) \<Rightarrow> wal_shared \<Rightarrow> (nat \<Rightarrow> bytes) \<Rightarrow> nat \<Rightarrow> wal_conn list \<Rightarrow> bool" where
  "quiet s l s' l' i cs \<longleftrightarrow> max_frame s' = max_frame s \<and> initialized s' = initialized s \<and> frame_cache s' = frame_cache s \<and> l' = l \<or>
     (\<forall>j < length cs. j \<noteq> i \<longrightarrow> \<not> writes (cs ! j))"

lemma quiet_meta: "wal_meta s' = wal_meta s \<Longrightarrow> quiet s l s' l i cs"
  using wal_meta_fields [of s' s] by (simp add: quiet_def)

lemma restart_writes: "pc_ok s l c \<Longrightarrow> pc c = CkFinalize m r \<or> pc c = CkDone m r \<Longrightarrow> should_restart_log m \<Longrightarrow> writes c"
  by (cases m) (auto simp: pc_ok_def writes_def ckpt_guard_def guard_for_def)

lemma other_ok:
  assumes "conn_ok s c" "pc_ok s l c" "c \<in> set cs" "keeps s l s' l'" "held_marks (slot_readers cs) s s'"
    and q: "max_frame s' = max_frame s \<and> initialized s' = initialized s \<and> l' = l \<or> \<not> writes c"
  shows "conn_ok s' c \<and> pc_ok s' l' c"
proof -
  have w: "\<not> c_write_lock_held c" if "\<not> writes c" using that by (simp add: writes_def)
  have nb: "nbackfills s' = nbackfills s" "max_frame s \<le> max_frame s'" using assms(4) by (simp_all add: keeps_def)
  have mark: "read_mark_value s' i = read_mark_value s i" if "c_read_guard c = ReadMark i" "1 \<le> i" "i < 5" for i
  proof -
    obtain j where "j < length cs" "cs ! j = c" using assms(3) by (auto simp: in_set_conv_nth)
    then have "slot_readers cs i \<noteq> 0" using cnt_pos [of j cs "\<lambda>c. slot_of c = Some i"] that by (simp add: slot_readers_def slot_of_def)
    then show ?thesis using assms(5) that by (simp add: held_marks_def)
  qed
  have "conn_ok s' c" using assms(1) q w nb mark by (auto simp: conn_ok_def)
  moreover have "pc_ok s' l' c"
    using assms(2) q w nb(1) restart_writes [OF assms(2)] by (cases "pc c") (auto simp: pc_ok_def)
  ultimately show ?thesis ..
qed

lemma conns_inv_update:
  assumes inv: "conns_inv s cs l d" and i: "i < length cs" "reads_on s (cs ! i) c'" and k: "keeps s l s' l'" "held_marks (slot_readers cs) s s'" "quiet s l s' l' i cs"
    and c': "conn_ok s' c'" "pc_ok s' l' c'" "\<And>r. ck_active c' = Some r \<Longrightarrow> ck_range s' (cs[i := c']) l' d r"
  shows "conns_inv s' (cs[i := c']) l' d"
  unfolding conns_inv_def
proof
  fix c
  assume "c \<in> set (cs[i := c'])"
  then obtain j where j: "j < length cs" "cs[i := c'] ! j = c" by (auto simp: in_set_conv_nth)
  show "conn_ok s' c \<and> pc_ok s' l' c \<and> (\<forall>r. ck_active c = Some r \<longrightarrow> ck_range s' (cs[i := c']) l' d r)"
  proof (cases "j = i")
    case True
    then show ?thesis using c' j i(1) by simp
  next
    case False
    then have c: "c = cs ! j" "c \<in> set cs" using j by auto
    then have h: "conn_ok s c" "pc_ok s l c" "\<And>r. ck_active c = Some r \<Longrightarrow> ck_range s cs l d r" using inv by (auto simp: conns_inv_def)
    have "max_frame s' = max_frame s \<and> initialized s' = initialized s \<and> l' = l \<or> \<not> writes c" using k(3) False c(1) j(1) by (auto simp: quiet_def)
    then show ?thesis using other_ok [OF h(1,2) c(2) k(1,2)] ck_range_keeps [OF h(3) k(1) i] by blast
  qed
qed

text \<open>One connection changes and the committed frames stay.\<close>

lemma wal_inv_update:
  assumes inv: "wal_inv \<sigma>" and i: "i < length (conns \<sigma>)" "reads_on (shared \<sigma>) (conns \<sigma> ! i) c'"
    and k: "keeps (shared \<sigma>) (log \<sigma>) s' l'" "held_marks (slot_readers (conns \<sigma>)) (shared \<sigma>) s'" "quiet (shared \<sigma>) (log \<sigma>) s' l' i (conns \<sigma>)"
    and s': "locks_inv s' ((conns \<sigma>)[i := c'])" "index_inv s'"
    and c': "conn_ok s' c'" "pc_ok s' l' c'" "\<And>r. ck_active c' = Some r \<Longrightarrow> ck_range s' ((conns \<sigma>)[i := c']) l' (db \<sigma>) r"
  shows "wal_inv \<lparr>shared = s', conns = (conns \<sigma>)[i := c'], log = l', db = db \<sigma>\<rparr>"
  using conns_inv_update [OF _ i k c'] db_inv_keeps [OF _ _ k(1) i] inv s' by (simp add: wal_inv_def index_inv_def)

end
