(* ===== verification/Wal_Isolation.thy ===== *)
theory Wal_Isolation
  imports Wal_Invariant
begin

text \<open>
  Snapshot isolation as an abstract machine: one committed image of the database, and for every connection in a
  transaction the image it reads, with the pages it has prepared to write. Each step of the log refines one step of
  this machine.
\<close>

section \<open>The abstract machine\<close>

record iso =
  committed :: "nat \<Rightarrow> bytes"
  sessions :: "((nat \<Rightarrow> bytes) option \<times> (nat \<times> bytes) list) list"

definition write_pages :: "(nat \<times> bytes) list \<Rightarrow> (nat \<Rightarrow> bytes) \<Rightarrow> nat \<Rightarrow> bytes" where
  "write_pages = fold (\<lambda>(p, b) m. m(p := b))"

fun iso_session :: "wal_event \<Rightarrow> (nat \<Rightarrow> bytes) \<Rightarrow> (nat \<Rightarrow> bytes) option \<times> (nat \<times> bytes) list \<Rightarrow> ((nat \<Rightarrow> bytes) option \<times> (nat \<times> bytes) list) set" where
  "iso_session (EvCheckRead _) m x = {x, (Some m, [])}"
| "iso_session (EvEndRead _) m x = {(None, [])}"
| "iso_session (EvPrepare _ pages _ _) m (v, ws) = {(v, ws @ pages)}"
| "iso_session (EvAppend _) m (v, ws) = {(map_option (write_pages ws) v, [])}"
| "iso_session (EvRollback _) m x = {(Some m, [])}"
| "iso_session _ m x = {x}"

definition iso_step :: "wal_event \<Rightarrow> iso \<Rightarrow> iso \<Rightarrow> bool" where
  "iso_step ev a a' \<longleftrightarrow> (let i = event_conn ev in
     (\<exists>x \<in> iso_session ev (committed a) (sessions a ! i). sessions a' = (sessions a)[i := x]) \<and>
     (case ev of EvCommit _ \<Rightarrow> fst (sessions a ! i) = Some (committed a') | _ \<Rightarrow> committed a' = committed a))"

section \<open>Abstraction\<close>

definition pending_pages :: "prepared_frames list \<Rightarrow> (nat \<times> bytes) list" where
  "pending_pages bs = map (\<lambda>(p, f, ck, b). (p, frame_page b)) (batch_frames bs)"

definition session :: "('a wal_index_scheme) \<Rightarrow> (nat \<Rightarrow> bytes) \<Rightarrow> (nat \<Rightarrow> bytes) \<Rightarrow> wal_conn \<Rightarrow> (nat \<Rightarrow> bytes) option \<times> (nat \<times> bytes) list" where
  "session s l d c = (if reading c then Some (image s l d (c_max_frame c)) else None, pending_pages (prepared_batches (pc c)))"

definition iso_of :: "wal_sys \<Rightarrow> iso" where
  "iso_of \<sigma> = \<lparr>committed = image (shared \<sigma>) (log \<sigma>) (db \<sigma>) (max_frame (shared \<sigma>)),
     sessions = map (session (shared \<sigma>) (log \<sigma>) (db \<sigma>)) (conns \<sigma>)\<rparr>"

lemma image_cong: "frame_cache s' = frame_cache s \<Longrightarrow> image s' l d n = image s l d n"
  by (intro ext) (simp add: image_def)

lemma wal_inv_conn:
  assumes "wal_inv \<sigma>" "i < length (conns \<sigma>)"
  shows "conn_ok (shared \<sigma>) (conns \<sigma> ! i)" "pc_ok (shared \<sigma>) (log \<sigma>) (conns \<sigma> ! i)"
    "ck_active (conns \<sigma> ! i) = Some r \<Longrightarrow> ck_range (shared \<sigma>) (conns \<sigma>) (log \<sigma>) (db \<sigma>) r"
  using assms nth_mem [OF assms(2)] unfolding wal_inv_def conns_inv_def by blast+

lemma sessions_update:
  assumes inv: "wal_inv \<sigma>" and i: "i < length (conns \<sigma>)" and k: "keeps (shared \<sigma>) (log \<sigma>) s' l'" "quiet (shared \<sigma>) (log \<sigma>) s' l' i (conns \<sigma>)"
  shows "map (session s' l' (db \<sigma>)) ((conns \<sigma>)[i := c']) = (sessions (iso_of \<sigma>))[i := session s' l' (db \<sigma>) c']"
proof (rule nth_equalityI)
  fix j
  assume "j < length (map (session s' l' (db \<sigma>)) ((conns \<sigma>)[i := c']))"
  then have j: "j < length (conns \<sigma>)" by simp
  let ?c = "conns \<sigma> ! j"
  have "image s' l' (db \<sigma>) (c_max_frame ?c) = image (shared \<sigma>) (log \<sigma>) (db \<sigma>) (c_max_frame ?c)" if "reading ?c" "j \<noteq> i"
  proof (cases "c_write_lock_held ?c")
    case True
    then have "frame_cache s' = frame_cache (shared \<sigma>)" "l' = log \<sigma>" using k(2) that(2) j by (auto simp: quiet_def writes_def)
    then show ?thesis using image_cong [of s' "shared \<sigma>"] by simp
  next
    case False
    then show ?thesis using wal_inv_conn(1) [OF inv j] that(1) image_keeps [OF k(1)] by (simp add: conn_ok_def)
  qed
  then show "map (session s' l' (db \<sigma>)) ((conns \<sigma>)[i := c']) ! j = (sessions (iso_of \<sigma>))[i := session s' l' (db \<sigma>) c'] ! j"
    using i j by (cases "j = i") (simp_all add: iso_of_def session_def)
qed (simp add: iso_of_def)

text \<open>A step that keeps the committed frames and publishes none.\<close>

lemma step_keeps:
  assumes "wal_inv \<sigma>" "i < length (conns \<sigma>)" "reads_on (shared \<sigma>) (conns \<sigma> ! i) c'"
    "keeps (shared \<sigma>) (log \<sigma>) s' l'" "held_marks (slot_readers (conns \<sigma>)) (shared \<sigma>) s'" "quiet (shared \<sigma>) (log \<sigma>) s' l' i (conns \<sigma>)"
    "locks_inv s' ((conns \<sigma>)[i := c'])" "index_inv s'" "max_frame s' = max_frame (shared \<sigma>)"
    "conn_ok s' c'" "pc_ok s' l' c'" "\<And>r. ck_active c' = Some r \<Longrightarrow> ck_range s' ((conns \<sigma>)[i := c']) l' (db \<sigma>) r"
    "event_conn ev = i" "\<not> (\<exists>j. ev = EvCommit j)"
    "session s' l' (db \<sigma>) c' \<in> iso_session ev (image (shared \<sigma>) (log \<sigma>) (db \<sigma>) (max_frame (shared \<sigma>))) (session (shared \<sigma>) (log \<sigma>) (db \<sigma>) (conns \<sigma> ! i))"
  shows "wal_inv \<lparr>shared = s', conns = (conns \<sigma>)[i := c'], log = l', db = db \<sigma>\<rparr> \<and>
    iso_step ev (iso_of \<sigma>) (iso_of \<lparr>shared = s', conns = (conns \<sigma>)[i := c'], log = l', db = db \<sigma>\<rparr>)"
proof
  show "wal_inv \<lparr>shared = s', conns = (conns \<sigma>)[i := c'], log = l', db = db \<sigma>\<rparr>" by (rule wal_inv_update) (fact assms)+
  have "image s' l' (db \<sigma>) (max_frame s') = image (shared \<sigma>) (log \<sigma>) (db \<sigma>) (max_frame (shared \<sigma>))" using image_keeps [OF assms(4)] assms(9) by simp
  moreover have "sessions (iso_of \<sigma>) ! i = session (shared \<sigma>) (log \<sigma>) (db \<sigma>) (conns \<sigma> ! i)" using assms(2) by (simp add: iso_of_def)
  ultimately show "iso_step ev (iso_of \<sigma>) (iso_of \<lparr>shared = s', conns = (conns \<sigma>)[i := c'], log = l', db = db \<sigma>\<rparr>)"
    using assms(13-15) sessions_update [OF assms(1,2,4,6), of c'] unfolding iso_step_def Let_def assms(13)
    by (cases ev) (auto simp: iso_of_def)
qed

section \<open>Locks of one connection\<close>

lemma slot_readers_same: "i < length cs \<Longrightarrow> slot_of c' = slot_of (cs ! i) \<Longrightarrow> slot_readers (cs[i := c']) = slot_readers cs"
  by (simp add: slot_readers_def cnt_same)

lemma slot_guard_eq: "slot_guard k = slot_guard j \<longleftrightarrow> k = j" "slot_guard k \<noteq> NoGuard"
  by (auto simp: slot_guard_def)

lemma slot_readers_begin:
  assumes "i < length cs" "slot_of (cs ! i) = None" "slot_of c' = Some k"
  shows "slot_readers (cs[i := c']) = (slot_readers cs)(k := slot_readers cs k + 1)"
proof
  fix j
  show "slot_readers (cs[i := c']) j = ((slot_readers cs)(k := slot_readers cs k + 1)) j"
    using cnt_update [OF assms(1), of "\<lambda>c. slot_of c = Some j" c'] assms(2,3)
    by (cases "j = k") (simp_all add: slot_readers_def)
qed

lemma slot_readers_end:
  assumes "i < length cs" "slot_of c' = None" "slot_of (cs ! i) = Some k"
  shows "slot_readers (cs[i := c']) = (slot_readers cs)(k := slot_readers cs k - 1)" "0 < slot_readers cs k"
proof -
  show "slot_readers (cs[i := c']) = (slot_readers cs)(k := slot_readers cs k - 1)"
  proof
    fix j
    show "slot_readers (cs[i := c']) j = ((slot_readers cs)(k := slot_readers cs k - 1)) j"
      using cnt_update [OF assms(1), of "\<lambda>c. slot_of c = Some j" c'] assms(2,3)
      by (cases "j = k") (simp_all add: slot_readers_def)
  qed
  show "0 < slot_readers cs k" using cnt_pos [OF assms(1), of "\<lambda>c. slot_of c = Some k"] assms(3) by (simp add: slot_readers_def)
qed

lemma slot_writers_same:
  assumes "i < length cs" "checkpoints c' = checkpoints (cs ! i)" "restarting c' = restarting (cs ! i)"
  shows "slot_writers (cs[i := c']) = slot_writers cs"
  using cnt_same [of i cs checkpoints c'] cnt_same [of i cs restarting c'] assms by (intro ext) (simp add: slot_writers_def)

lemma locks_inv_same:
  assumes "locks_inv s cs" "i < length cs" "in_vacuum c' = in_vacuum (cs ! i)" "writes c' = writes (cs ! i)" "checkpoints c' = checkpoints (cs ! i)"
    "restarting c' = restarting (cs ! i)" "slot_of c' = slot_of (cs ! i)"
  shows "locks_inv s (cs[i := c'])"
  using assms by (simp add: locks_inv_def cnt_same slot_readers_same slot_writers_same)

lemmas roles = slot_of_def in_vacuum_def writes_def checkpoints_def restarting_def ckpt_guard_def

end
