(* ===== verification/Wal_Steps.thy ===== *)
theory Wal_Steps
  imports Wal_Isolation
begin

text \<open>
  Every event of the log keeps the invariant, does not panic and refines the machine of snapshot isolation:
  one lemma per event.
\<close>

section \<open>Read transactions\<close>

definition good :: "wal_event \<Rightarrow> wal_sys \<Rightarrow> wal_shared \<Rightarrow> wal_conn \<Rightarrow> (nat \<Rightarrow> bytes) \<Rightarrow> (nat \<Rightarrow> bytes) \<Rightarrow> bool" where
  "good ev \<sigma> s' c' l' d' \<longleftrightarrow> (let \<sigma>' = \<lparr>shared = s', conns = (conns \<sigma>)[event_conn ev := c'], log = l', db = d'\<rparr> in
     wal_inv \<sigma>' \<and> iso_step ev (iso_of \<sigma>) (iso_of \<sigma>'))"

lemma index_inv_meta: "wal_meta s' = wal_meta s \<Longrightarrow> index_inv s' = index_inv s"
  by (simp add: index_inv_def wal_meta_fields [of s' s])

lemma conn_ok_meta:
  assumes "wal_meta s' = wal_meta s" "\<And>i. c_read_guard c = ReadMark i \<Longrightarrow> read_mark_value s' i = read_mark_value s i"
  shows "conn_ok s' c = conn_ok s c"
  using assms(2) by (auto simp: conn_ok_def wal_meta_fields [OF assms(1)])

lemma pc_ok_meta: "wal_meta s' = wal_meta s \<Longrightarrow> pc_ok s' l c = pc_ok s l c"
  by (simp add: pc_ok_def wal_meta_fields [of s' s] cong: conn_pc.case_cong)

lemma ck_range_meta: "wal_meta s' = wal_meta s \<Longrightarrow> ck_range s' cs l d r = ck_range s cs l d r"
  by (simp add: ck_range_def range_frame_def visible_def wal_meta_fields [of s' s])

lemma session_meta: "wal_meta s' = wal_meta s \<Longrightarrow> session s' l d c = session s l d c"
  using image_cong [OF wal_meta_fields(7), of s' s] by (simp add: session_def)

text \<open>A step of one connection that leaves the metadata alone.\<close>

lemma step_meta:
  assumes inv: "wal_inv \<sigma>" and i: "i < length (conns \<sigma>)" and m: "wal_meta s' = wal_meta (shared \<sigma>)" "held_marks (slot_readers (conns \<sigma>)) (shared \<sigma>) s'"
    and l: "locks_inv s' ((conns \<sigma>)[i := c'])" and r: "reads_on (shared \<sigma>) (conns \<sigma> ! i) c'"
    and c': "conn_ok s' c'" "pc_ok (shared \<sigma>) (log \<sigma>) c'" "\<And>r. ck_active c' = Some r \<Longrightarrow> ck_range (shared \<sigma>) ((conns \<sigma>)[i := c']) (log \<sigma>) (db \<sigma>) r"
    and ev: "event_conn ev = i" "\<not> (\<exists>j. ev = EvCommit j)"
      "session (shared \<sigma>) (log \<sigma>) (db \<sigma>) c' \<in> iso_session ev (image (shared \<sigma>) (log \<sigma>) (db \<sigma>) (max_frame (shared \<sigma>))) (session (shared \<sigma>) (log \<sigma>) (db \<sigma>) (conns \<sigma> ! i))"
  shows "good ev \<sigma> s' c' (log \<sigma>) (db \<sigma>)"
proof -
  have x: "index_inv s'" "pc_ok s' (log \<sigma>) c'" using inv index_inv_meta [OF m(1)] c'(2) pc_ok_meta [OF m(1)] by (simp_all add: wal_inv_def)
  show ?thesis unfolding good_def Let_def ev(1)
    by (rule step_keeps [OF inv i r keeps_meta [OF m(1)] m(2) quiet_meta [OF m(1)] l x(1) wal_meta_fields(2) [OF m(1)] c'(1) x(2) _ ev(1,2)])
      (simp_all add: c'(3) ck_range_meta [OF m(1)] session_meta [OF m(1)] ev(3))
qed

lemma locksI:
  "locks s V W C R X \<Longrightarrow> cnt in_vacuum cs = V \<Longrightarrow> cnt writes cs = W \<Longrightarrow> cnt checkpoints cs = C \<Longrightarrow> slot_readers cs = R \<Longrightarrow> slot_writers cs = X \<Longrightarrow> locks_inv s cs"
  by (simp add: locks_inv_def)

lemma slot_guard_simps: "DbFile = slot_guard 0" "1 \<le> k \<Longrightarrow> ReadMark k = slot_guard k"
  by (simp_all add: slot_guard_def)

lemmas cnt_cases = cnt_same cnt_add cnt_sub
lemmas slot_cases = slot_readers_same slot_writers_same

lemma wal_inv_parts:
  assumes "wal_inv \<sigma>"
  shows "locks_inv (shared \<sigma>) (conns \<sigma>)" "index_inv (shared \<sigma>)" "db_inv (shared \<sigma>) (conns \<sigma>) (log \<sigma>) (db \<sigma>)" "cnt P (conns \<sigma>) + 1 < 2 ^ 31"
  using assms cnt_le [of P "conns \<sigma>"] unfolding wal_inv_def by simp_all

lemma step_begin_read:
  assumes inv: "wal_inv \<sigma>" and i: "i < length (conns \<sigma>)" "conns \<sigma> ! i = c" and pc: "pc c = Idle" "c_read_guard c = NoGuard"
  shows "\<exists>s'. begin_read_load (shared \<sigma>) c = Inr (Inr (load_snapshot (shared \<sigma>)), s') \<and> good (EvBeginRead i) \<sigma> s' (c\<lparr>pc := BeginRead (load_snapshot (shared \<sigma>))\<rparr>) (log \<sigma>) (db \<sigma>)"
proof -
  let ?s = "shared \<sigma>" and ?c = "c\<lparr>pc := BeginRead (load_snapshot (shared \<sigma>))\<rparr>"
  note p = wal_inv_parts [OF inv]
  note c = wal_inv_conn [OF inv i(1), unfolded i(2)]
  obtain w where w: "rw_read (vacuum_lock ?s) = (True, w)" "locks (?s\<lparr>vacuum_lock := w\<rparr>) (cnt in_vacuum (conns \<sigma>) + 1) (cnt writes (conns \<sigma>)) (cnt checkpoints (conns \<sigma>)) (slot_readers (conns \<sigma>)) (slot_writers (conns \<sigma>))"
      "same_marks ?s (?s\<lparr>vacuum_lock := w\<rparr>)"
    using vacuum_locked p(1) p(4) unfolding locks_inv_def by blast
  have v: "\<not> c_vacuum_read c" using c(1) pc(2) by (simp add: conn_ok_def)
  have "begin_read_load ?s c = Inr (Inr (load_snapshot ?s), ?s\<lparr>vacuum_lock := w\<rparr>)"
    using pc(2) v w(1) p(2) by (simp add: begin_read_load_def load_snapshot_def Let_def index_inv_def)
  moreover have "good (EvBeginRead i) \<sigma> (?s\<lparr>vacuum_lock := w\<rparr>) ?c (log \<sigma>) (db \<sigma>)"
  proof (rule step_meta [OF inv i(1)])
    show "locks_inv (?s\<lparr>vacuum_lock := w\<rparr>) ((conns \<sigma>)[i := ?c])"
      by (rule locksI [OF w(2)]) (use i pc v c(2) in \<open>simp_all add: cnt_cases slot_cases roles pc_ok_def\<close>)
  qed (use i c pc v p(2) same_marks_held [OF w(3)] in \<open>simp_all add: reads_on_def conn_ok_def pc_ok_def ck_active_def session_def index_inv_def load_snapshot_def\<close>)
  ultimately show ?thesis by blast
qed

text \<open>
  The parts of a read that follow. Each may ask for a retry, with the read mark, if one was held, given back; the last begins the transaction when
  the snapshot is still that of the last commit.
\<close>

definition starting_read :: "wal_conn \<Rightarrow> bool" where
  "starting_read c \<longleftrightarrow> (case pc c of BeginRead _ \<Rightarrow> True | ClaimedRead _ _ \<Rightarrow> True | LockedRead _ _ \<Rightarrow> True | _ \<Rightarrow> False)"

lemma starting_read_facts:
  assumes "conn_ok s c" "pc_ok s l c" "starting_read c"
  shows "c_read_guard c = NoGuard" "\<not> c_vacuum_read c" "\<not> c_write_lock_held c" "c_checkpoint_guard c = None" "in_vacuum c" "result_guard (pc c) = None" "\<not> restarting c"
    "ck_active c = None" "prepared_batches (pc c) = []"
  using assms by (cases "pc c"; simp add: starting_read_def conn_ok_def pc_ok_def in_vacuum_def restarting_def ck_active_def)+

lemma step_retry_read:
  assumes inv: "wal_inv \<sigma>" and i: "i < length (conns \<sigma>)" "conns \<sigma> ! i = c" and st: "starting_read c"
    and b: "wal_meta s1 = wal_meta (shared \<sigma>)" "held_marks (slot_readers (conns \<sigma>)) (shared \<sigma>) s1"
      "locks s1 (cnt in_vacuum (conns \<sigma>)) (cnt writes (conns \<sigma>)) (cnt checkpoints (conns \<sigma>)) (slot_readers ((conns \<sigma>)[i := c\<lparr>pc := Idle\<rparr>])) (slot_writers (conns \<sigma>))"
    and ev: "event_conn ev = i" "\<not> (\<exists>j. ev = EvCommit j)" "\<And>m x. x \<in> iso_session ev m x"
  shows "\<exists>s'. begin_read_retry s1 = Inr s' \<and> good ev \<sigma> s' (c\<lparr>pc := Idle\<rparr>) (log \<sigma>) (db \<sigma>)"
proof -
  note c = wal_inv_conn [OF inv i(1), unfolded i(2)]
  note r = starting_read_facts [OF c(1,2) st]
  have "0 < cnt in_vacuum (conns \<sigma>)" using i r(5) by (intro cnt_pos [OF i(1)]) simp
  then obtain w where w: "rw_unlock (vacuum_lock s1) = Inr w" "same_marks s1 (s1\<lparr>vacuum_lock := w\<rparr>)"
    "locks (s1\<lparr>vacuum_lock := w\<rparr>) (cnt in_vacuum (conns \<sigma>) - 1) (cnt writes (conns \<sigma>)) (cnt checkpoints (conns \<sigma>)) (slot_readers ((conns \<sigma>)[i := c\<lparr>pc := Idle\<rparr>])) (slot_writers (conns \<sigma>))"
    using vacuum_unlocked [OF b(3)] by blast
  have "\<not> in_vacuum (c\<lparr>pc := Idle\<rparr>)" using r(2) by (simp add: in_vacuum_def)
  then have v: "cnt in_vacuum ((conns \<sigma>)[i := c\<lparr>pc := Idle\<rparr>]) = cnt in_vacuum (conns \<sigma>) - 1" using i r(5) by (intro cnt_sub) simp_all
  have "good ev \<sigma> (s1\<lparr>vacuum_lock := w\<rparr>) (c\<lparr>pc := Idle\<rparr>) (log \<sigma>) (db \<sigma>)"
  proof (rule step_meta [OF inv i(1)])
    show "locks_inv (s1\<lparr>vacuum_lock := w\<rparr>) ((conns \<sigma>)[i := c\<lparr>pc := Idle\<rparr>])"
      by (rule locksI [OF w(3) v]) (use i r in \<open>simp_all add: cnt_cases slot_writers_same writes_def checkpoints_def ckpt_guard_def restarting_def\<close>)
    show "held_marks (slot_readers (conns \<sigma>)) (shared \<sigma>) (s1\<lparr>vacuum_lock := w\<rparr>)" by (rule held_marks_trans [OF b(2) same_marks_held [OF w(2)]])
    show "session (shared \<sigma>) (log \<sigma>) (db \<sigma>) (c\<lparr>pc := Idle\<rparr>) \<in> iso_session ev (image (shared \<sigma>) (log \<sigma>) (db \<sigma>) (max_frame (shared \<sigma>))) (session (shared \<sigma>) (log \<sigma>) (db \<sigma>) (conns \<sigma> ! i))"
      using i(2) r(1,9) ev(3) by (simp add: session_def)
  qed (use c r b(1) ev in \<open>simp_all add: reads_on_def conn_ok_def pc_ok_def ck_active_def\<close>)
  then show ?thesis using w(1) by (simp add: begin_read_retry_def)
qed

text \<open>A part that goes on: only the program counter and the read mark it holds change.\<close>

lemma step_go_on_read:
  assumes inv: "wal_inv \<sigma>" and i: "i < length (conns \<sigma>)" "conns \<sigma> ! i = c" and st: "starting_read c" "starting_read (c\<lparr>pc := p\<rparr>)" "pc_ok (shared \<sigma>) (log \<sigma>) (c\<lparr>pc := p\<rparr>)"
    and b: "wal_meta s1 = wal_meta (shared \<sigma>)" "held_marks (slot_readers (conns \<sigma>)) (shared \<sigma>) s1"
      "locks s1 (cnt in_vacuum (conns \<sigma>)) (cnt writes (conns \<sigma>)) (cnt checkpoints (conns \<sigma>)) (slot_readers ((conns \<sigma>)[i := c\<lparr>pc := p\<rparr>])) (slot_writers (conns \<sigma>))"
    and ev: "event_conn ev = i" "\<not> (\<exists>j. ev = EvCommit j)" "\<And>m x. x \<in> iso_session ev m x"
  shows "good ev \<sigma> s1 (c\<lparr>pc := p\<rparr>) (log \<sigma>) (db \<sigma>)"
proof (rule step_meta [OF inv i(1) b(1,2)])
  note c = wal_inv_conn [OF inv i(1), unfolded i(2)]
  note r = starting_read_facts [OF c(1,2) st(1)]
  have ok: "conn_ok s1 (c\<lparr>pc := p\<rparr>)" using c(1) r by (simp add: conn_ok_def)
  have "pc_ok s1 (log \<sigma>) (c\<lparr>pc := p\<rparr>)" using st(3) pc_ok_meta [OF b(1)] by simp
  note r' = starting_read_facts [OF ok this st(2)]
  show "conn_ok s1 (c\<lparr>pc := p\<rparr>)" by (fact ok)
  show "locks_inv s1 ((conns \<sigma>)[i := c\<lparr>pc := p\<rparr>])"
    by (rule locksI [OF b(3)]) (use i r r' in \<open>simp_all add: cnt_cases slot_writers_same writes_def checkpoints_def ckpt_guard_def\<close>)
  show "session (shared \<sigma>) (log \<sigma>) (db \<sigma>) (c\<lparr>pc := p\<rparr>) \<in> iso_session ev (image (shared \<sigma>) (log \<sigma>) (db \<sigma>) (max_frame (shared \<sigma>))) (session (shared \<sigma>) (log \<sigma>) (db \<sigma>) (conns \<sigma> ! i))"
    using i(2) r(1,9) r'(9) ev(3) by (simp add: session_def)
  show "reads_on (shared \<sigma>) (conns \<sigma> ! i) (c\<lparr>pc := p\<rparr>)" using r(1) by (simp add: reads_on_def)
  show "ck_range (shared \<sigma>) ((conns \<sigma>)[i := c\<lparr>pc := p\<rparr>]) (log \<sigma>) (db \<sigma>) x" if "ck_active (c\<lparr>pc := p\<rparr>) = Some x" for x using that r'(8) by simp
qed (use st(3) ev in simp_all)

lemma wal_inv_locks:
  assumes "wal_inv \<sigma>"
  shows "locks (shared \<sigma>) (cnt in_vacuum (conns \<sigma>)) (cnt writes (conns \<sigma>)) (cnt checkpoints (conns \<sigma>)) (slot_readers (conns \<sigma>)) (slot_writers (conns \<sigma>))"
    "slot_readers (conns \<sigma>) k + 1 < 2 ^ 31"
  using wal_inv_parts(1,4) [OF assms] by (simp_all add: locks_inv_def slot_readers_def)

lemma step_claim_read:
  assumes inv: "wal_inv \<sigma>" and i: "i < length (conns \<sigma>)" "conns \<sigma> ! i = c" and pc: "pc c = BeginRead snap"
  shows "\<exists>r s'. begin_read_claim (shared \<sigma>) snap = Inr (r, s') \<and>
    good (EvClaimRead i) \<sigma> s' (c\<lparr>pc := case r of None \<Rightarrow> Idle | Some b \<Rightarrow> ClaimedRead snap b\<rparr>) (log \<sigma>) (db \<sigma>)"
proof -
  note c = wal_inv_conn [OF inv i(1), unfolded i(2)]
  have st: "starting_read c" using pc by (simp add: starting_read_def)
  have mx: "s_max_frame snap < 2 ^ 32" "\<not> reading c" "slot_of c = None" using c(2) pc by (simp_all add: pc_ok_def slot_of_def)
  obtain b s1 where b: "try_begin_read_claim (shared \<sigma>) snap = Inr (b, s1)" "wal_meta s1 = wal_meta (shared \<sigma>)" "held_marks (slot_readers (conns \<sigma>)) (shared \<sigma>) s1"
      "locks s1 (cnt in_vacuum (conns \<sigma>)) (cnt writes (conns \<sigma>)) (cnt checkpoints (conns \<sigma>)) (slot_readers (conns \<sigma>)) (slot_writers (conns \<sigma>))"
      "\<And>k m. b = Some (k, m) \<Longrightarrow> k < 5 \<and> unat m \<le> s_max_frame snap"
    using try_begin_read_claim_ok [OF wal_inv_locks(1) [OF inv] mx(1)] by blast
  show ?thesis
  proof (cases b)
    case None
    have "slot_readers ((conns \<sigma>)[i := c\<lparr>pc := Idle\<rparr>]) = slot_readers (conns \<sigma>)" using i mx by (intro slot_readers_same) (simp_all add: slot_of_def)
    then show ?thesis using step_retry_read [OF inv i st b(2,3), of "EvClaimRead i"] b(1,4) None by (auto simp: begin_read_claim_def)
  next
    case (Some x)
    let ?c = "c\<lparr>pc := ClaimedRead snap x\<rparr>"
    have "slot_readers ((conns \<sigma>)[i := ?c]) = slot_readers (conns \<sigma>)" using i mx by (intro slot_readers_same) (simp_all add: slot_of_def)
    moreover have "pc_ok (shared \<sigma>) (log \<sigma>) ?c" using c(2) pc b(5) [of "fst x" "snd x"] Some by (simp add: pc_ok_def)
    ultimately have "good (EvClaimRead i) \<sigma> s1 ?c (log \<sigma>) (db \<sigma>)"
      using b(4) by (intro step_go_on_read [OF inv i st _ _ b(2,3)]) (simp_all add: starting_read_def)
    then show ?thesis using b(1) Some by (simp add: begin_read_claim_def)
  qed
qed

lemma step_lock_read:
  assumes inv: "wal_inv \<sigma>" and i: "i < length (conns \<sigma>)" "conns \<sigma> ! i = c" and pc: "pc c = ClaimedRead snap b"
  shows "\<exists>ok s'. begin_read_lock (shared \<sigma>) b = Inr (ok, s') \<and> good (EvLockRead i) \<sigma> s' (c\<lparr>pc := if ok then LockedRead snap b else Idle\<rparr>) (log \<sigma>) (db \<sigma>)"
proof -
  let ?R = "slot_readers (conns \<sigma>)" and ?X = "slot_writers (conns \<sigma>)"
  note c = wal_inv_conn [OF inv i(1), unfolded i(2)]
  have st: "starting_read c" using pc by (simp add: starting_read_def)
  have k: "fst b < 5" "\<not> reading c" "slot_of c = None" using c(2) pc by (simp_all add: pc_ok_def slot_of_def)
  obtain s1 where s1: "try_read_mark_shared (shared \<sigma>) (fst b) = (?X (fst b) = 0, s1)" "wal_meta s1 = wal_meta (shared \<sigma>)" "same_marks (shared \<sigma>) s1"
      "locks s1 (cnt in_vacuum (conns \<sigma>)) (cnt writes (conns \<sigma>)) (cnt checkpoints (conns \<sigma>)) (if ?X (fst b) = 0 then ?R(fst b := ?R (fst b) + 1) else ?R) ?X"
    using mark_shared [OF wal_inv_locks(1) [OF inv] k(1) wal_inv_locks(2) [OF inv]] by blast
  show ?thesis
  proof (cases "?X (fst b) = 0")
    case False
    have "slot_readers ((conns \<sigma>)[i := c\<lparr>pc := Idle\<rparr>]) = ?R" using i k by (intro slot_readers_same) (simp_all add: slot_of_def)
    then show ?thesis using step_retry_read [OF inv i st s1(2) same_marks_held [OF s1(3)], of "EvLockRead i"] s1(1,4) False
      by (auto simp: begin_read_lock_def try_begin_read_lock_def)
  next
    case True
    let ?c = "c\<lparr>pc := LockedRead snap b\<rparr>"
    have "slot_readers ((conns \<sigma>)[i := ?c]) = ?R(fst b := ?R (fst b) + 1)" using i k by (intro slot_readers_begin) (simp_all add: slot_of_def)
    moreover have "pc_ok (shared \<sigma>) (log \<sigma>) ?c" using c(2) pc by (simp add: pc_ok_def)
    ultimately have "good (EvLockRead i) \<sigma> s1 ?c (log \<sigma>) (db \<sigma>)"
      using s1(4) True by (intro step_go_on_read [OF inv i st _ _ s1(2) same_marks_held [OF s1(3)]]) (simp_all add: starting_read_def)
    then show ?thesis using s1(1) True by (intro exI [of _ True] exI [of _ s1]) (simp add: begin_read_lock_def try_begin_read_lock_def)
  qed
qed

lemma step_check_read_ok:
  assumes inv: "wal_inv \<sigma>" and i: "i < length (conns \<sigma>)" "conns \<sigma> ! i = c" and pc: "pc c = LockedRead (load_snapshot (shared \<sigma>)) (k, m)"
    and k: "k \<noteq> 0 \<longrightarrow> unat (read_mark_value (shared \<sigma>) k) \<le> max_frame (shared \<sigma>)"
    and c': "c' = (install_snapshot (load_snapshot (shared \<sigma>)) c)\<lparr>c_read_guard := slot_guard k, c_vacuum_read := True, pc := Idle\<rparr>"
  shows "good (EvCheckRead i) \<sigma> (shared \<sigma>) c' (log \<sigma>) (db \<sigma>)"
proof -
  note c = wal_inv_conn [OF inv i(1), unfolded i(2)]
  have "starting_read c" using pc by (simp add: starting_read_def)
  note r = starting_read_facts [OF c(1,2) this]
  have k5: "k < 5" "slot_of c = Some k" using c(2) pc by (simp_all add: pc_ok_def slot_of_def)
  have g: "slot_of c' = Some k" by (rule slot_of_guard) (simp add: c')
  show ?thesis
  proof (rule step_meta [OF inv i(1) refl held_marks_refl])
    show "locks_inv (shared \<sigma>) ((conns \<sigma>)[i := c'])"
      by (rule locks_inv_same [OF wal_inv_parts(1) [OF inv] i(1)]) (use i r g k5 in \<open>simp_all add: in_vacuum_def writes_def checkpoints_def ckpt_guard_def restarting_def, simp_all add: c' install_snapshot_def\<close>)
    show "conn_ok (shared \<sigma>) c'" using r k k5 slot_guard_eq(2) by (auto simp: conn_ok_def c' install_snapshot_def load_snapshot_def snapshot_min_frame_def slot_guard_def)
    have "session (shared \<sigma>) (log \<sigma>) (db \<sigma>) c' = (Some (image (shared \<sigma>) (log \<sigma>) (db \<sigma>) (max_frame (shared \<sigma>))), [])"
      using slot_guard_eq(2) by (simp add: session_def c' install_snapshot_def load_snapshot_def pending_pages_def batch_frames_def)
    then show "session (shared \<sigma>) (log \<sigma>) (db \<sigma>) c' \<in> iso_session (EvCheckRead i) (image (shared \<sigma>) (log \<sigma>) (db \<sigma>) (max_frame (shared \<sigma>))) (session (shared \<sigma>) (log \<sigma>) (db \<sigma>) (conns \<sigma> ! i))"
      by simp
  qed (use r in \<open>simp_all add: reads_on_def pc_ok_def ck_active_def c' install_snapshot_def load_snapshot_def\<close>)
qed

lemma step_check_read:
  assumes inv: "wal_inv \<sigma>" and i: "i < length (conns \<sigma>)" "conns \<sigma> ! i = c" and pc: "pc c = LockedRead snap b"
  shows "\<exists>r s' c'. begin_read_check (shared \<sigma>) c snap b = Inr (r, s', c') \<and> good (EvCheckRead i) \<sigma> s' (c'\<lparr>pc := Idle\<rparr>) (log \<sigma>) (db \<sigma>)"
proof -
  let ?s = "shared \<sigma>" and ?R = "slot_readers (conns \<sigma>)"
  obtain k m where b: "b = (k, m)" by (cases b)
  note c = wal_inv_conn [OF inv i(1), unfolded i(2)]
  have st: "starting_read c" using pc by (simp add: starting_read_def)
  have k: "k < 5" "unat m \<le> s_max_frame snap" "\<not> reading c" "slot_of c = Some k" using c(2) pc by (simp_all add: pc_ok_def slot_of_def b)
  have idle: "slot_of (c\<lparr>pc := Idle\<rparr>) = None" using k(3) by (simp add: slot_of_def)
  note e = slot_readers_end [OF i(1) idle, unfolded i(2), OF k(4)]
  obtain g s1 where g: "try_begin_read_check ?s snap b = Inr (g, s1)" "wal_meta s1 = wal_meta ?s" "same_marks ?s s1"
      "g = None \<and> locks s1 (cnt in_vacuum (conns \<sigma>)) (cnt writes (conns \<sigma>)) (cnt checkpoints (conns \<sigma>)) (?R(k := ?R k - 1)) (slot_writers (conns \<sigma>)) \<or>
       g = Some (if k = 0 then DbFile else ReadMark k) \<and> s1 = ?s \<and> snap = load_snapshot ?s \<and> (k \<noteq> 0 \<longrightarrow> read_mark_value ?s k = m)"
    using try_begin_read_check_ok [OF wal_inv_locks(1) [OF inv] k(1) e(2), of snap m] unfolding b by blast
  from g(4) show ?thesis
  proof
    assume n: "g = None \<and> locks s1 (cnt in_vacuum (conns \<sigma>)) (cnt writes (conns \<sigma>)) (cnt checkpoints (conns \<sigma>)) (?R(k := ?R k - 1)) (slot_writers (conns \<sigma>))"
    then obtain s' where "begin_read_retry s1 = Inr s'" "good (EvCheckRead i) \<sigma> s' (c\<lparr>pc := Idle\<rparr>) (log \<sigma>) (db \<sigma>)"
      using step_retry_read [OF inv i st g(2) same_marks_held [OF g(3)], of "EvCheckRead i"] e(1) by auto
    then show ?thesis using n g(1) by (auto simp: begin_read_check_def)
  next
    assume y: "g = Some (if k = 0 then DbFile else ReadMark k) \<and> s1 = ?s \<and> snap = load_snapshot ?s \<and> (k \<noteq> 0 \<longrightarrow> read_mark_value ?s k = m)"
    let ?c' = "(install_snapshot snap c)\<lparr>c_read_guard := slot_guard k, c_vacuum_read := True\<rparr>"
    have "good (EvCheckRead i) \<sigma> ?s (?c'\<lparr>pc := Idle\<rparr>) (log \<sigma>) (db \<sigma>)"
      by (rule step_check_read_ok [OF inv i]) (use pc y k(2) b in \<open>auto simp: load_snapshot_def\<close>)
    then show ?thesis using y g(1) by (auto simp: begin_read_check_def slot_guard_def)
  qed
qed

lemma step_end_read:
  assumes inv: "wal_inv \<sigma>" and i: "i < length (conns \<sigma>)" "conns \<sigma> ! i = c" and pc: "pc c = Idle" "\<not> c_write_lock_held c"
  shows "\<exists>s' c'. end_read_tx (shared \<sigma>) c = Inr (s', c') \<and> good (EvEndRead i) \<sigma> s' c' (log \<sigma>) (db \<sigma>)"
proof -
  let ?s = "shared \<sigma>" and ?R = "slot_readers (conns \<sigma>)"
  note c = wal_inv_conn [OF inv i(1), unfolded i(2)]
  have l: "locks ?s (cnt in_vacuum (conns \<sigma>)) (cnt writes (conns \<sigma>)) (cnt checkpoints (conns \<sigma>)) ?R (slot_writers (conns \<sigma>))"
    using wal_inv_parts(1) [OF inv] by (simp add: locks_inv_def)
  show ?thesis
  proof (cases "reading c")
    case False
    then have v: "\<not> c_vacuum_read c" using c(1) by (simp add: conn_ok_def)
    have "good (EvEndRead i) \<sigma> ?s c (log \<sigma>) (db \<sigma>)"
    proof (rule step_meta [OF inv i(1)])
      show "locks_inv ?s ((conns \<sigma>)[i := c])" using wal_inv_parts(1) [OF inv] i by auto
    qed (use i c pc False in \<open>simp_all add: reads_on_def ck_active_def session_def pending_pages_def batch_frames_def\<close>)
    then show ?thesis using False v by (auto simp: end_read_tx_def)
  next
    case True
    then obtain k where k: "c_read_guard c = slot_guard k" "k < 5" using c(1) slot_guard_simps by (cases "c_read_guard c") (fastforce simp: conn_ok_def)+
    let ?c = "c\<lparr>c_read_guard := NoGuard, c_vacuum_read := False\<rparr>"
    have v: "c_vacuum_read c" "0 < cnt in_vacuum (conns \<sigma>)" using True c(1) i cnt_pos [OF i(1), of in_vacuum] by (simp_all add: conn_ok_def in_vacuum_def)
    have sl: "slot_of ?c = None" "slot_of c = Some k" using pc slot_of_guard [OF k(1)] by (simp_all add: slot_of_def)
    note e = slot_readers_end [OF i(1), of ?c k, unfolded i(2), OF sl]
    obtain s1 where s1: "unlock_read_mark ?s k = Inr s1" "locks s1 (cnt in_vacuum (conns \<sigma>)) (cnt writes (conns \<sigma>)) (cnt checkpoints (conns \<sigma>)) (?R(k := ?R k - 1)) (slot_writers (conns \<sigma>))"
        "wal_meta s1 = wal_meta ?s" "same_marks ?s s1" using mark_unlock_shared [OF l k(2)] e k(1) by auto
    obtain w where w: "rw_unlock (vacuum_lock s1) = Inr w" "same_marks s1 (s1\<lparr>vacuum_lock := w\<rparr>)"
        "locks (s1\<lparr>vacuum_lock := w\<rparr>) (cnt in_vacuum (conns \<sigma>) - 1) (cnt writes (conns \<sigma>)) (cnt checkpoints (conns \<sigma>)) (?R(k := ?R k - 1)) (slot_writers (conns \<sigma>))"
      using vacuum_unlocked [OF s1(2) v(2)] by blast
    have "good (EvEndRead i) \<sigma> (s1\<lparr>vacuum_lock := w\<rparr>) ?c (log \<sigma>) (db \<sigma>)"
    proof (rule step_meta [OF inv i(1)])
      show "locks_inv (s1\<lparr>vacuum_lock := w\<rparr>) ((conns \<sigma>)[i := ?c])"
        by (rule locksI [OF w(3)]) (use i pc v c(2) e k(1) in \<open>simp_all add: cnt_cases slot_cases roles pc_ok_def\<close>)
      show "held_marks ?R ?s (s1\<lparr>vacuum_lock := w\<rparr>)" by (rule held_marks_trans [OF same_marks_held [OF s1(4)] same_marks_held [OF w(2)]])
    qed (use i c pc s1(3) in \<open>simp_all add: reads_on_def conn_ok_def pc_ok_def ck_active_def session_def pending_pages_def batch_frames_def\<close>)
    moreover have "coordination_end_read_tx ?s (c_read_guard c) = Inr s1" using s1(1) k(1) by (cases "k = 0") (simp_all add: slot_guard_def)
    ultimately show ?thesis using True v(1) w(1) by (auto simp: end_read_tx_def)
  qed
qed

end
