(* ===== verification/Wal_Write.thy ===== *)
theory Wal_Write
  imports Wal_Steps
begin

text \<open>
  The events of write transactions: the write lock, the restart of a fully backfilled log, preparing and
  appending frames, commit and rollback.
\<close>

section \<open>Taking and leaving the write lock\<close>

lemma step_none:
  assumes inv: "wal_inv \<sigma>" and i: "i < length (conns \<sigma>)" "conns \<sigma> ! i = c" and m: "wal_meta s' = wal_meta (shared \<sigma>)" "held_marks (slot_readers (conns \<sigma>)) (shared \<sigma>) s'"
    and l: "locks_inv s' (conns \<sigma>)" and ev: "event_conn ev = i" "\<not> (\<exists>j. ev = EvCommit j)" "\<And>m x. x \<in> iso_session ev m x"
  shows "good ev \<sigma> s' c (log \<sigma>) (db \<sigma>)"
proof (rule step_meta [OF inv i(1) m])
  note c = wal_inv_conn [OF inv i(1), unfolded i(2)]
  have upd: "(conns \<sigma>)[i := c] = conns \<sigma>" using i by auto
  show "ck_range (shared \<sigma>) ((conns \<sigma>)[i := c]) (log \<sigma>) (db \<sigma>) r" if "ck_active c = Some r" for r using c(3) [OF that] upd by simp
  show "locks_inv s' ((conns \<sigma>)[i := c])" using l upd by simp
  show "conn_ok s' c" using other_ok [OF c(1,2) _ keeps_meta [OF m(1)] m(2)] i wal_meta_fields [OF m(1)] by auto
qed (use i wal_inv_conn [OF inv i(1)] ev in \<open>simp_all add: reads_on_def\<close>)

lemma only_writer:
  assumes inv: "wal_inv \<sigma>" and i: "i < length (conns \<sigma>)" "writes (conns \<sigma> ! i)"
  shows "\<forall>j < length (conns \<sigma>). j \<noteq> i \<longrightarrow> \<not> writes (conns \<sigma> ! j)"
proof -
  have "cnt writes (conns \<sigma>) \<le> 1" using wal_inv_parts(1) [OF inv] by (auto simp: locks_inv_def locks_def lock_ok_def)
  then show ?thesis using cnt_unique [of writes "conns \<sigma>" i] i by blast
qed

lemma only_checkpointer:
  assumes inv: "wal_inv \<sigma>" and i: "i < length (conns \<sigma>)" "checkpoints (conns \<sigma> ! i)"
  shows "\<forall>j < length (conns \<sigma>). j \<noteq> i \<longrightarrow> \<not> checkpoints (conns \<sigma> ! j)"
proof -
  have "cnt checkpoints (conns \<sigma>) \<le> 1" using wal_inv_parts(1) [OF inv] by (auto simp: locks_inv_def locks_def lock_ok_def)
  then show ?thesis using cnt_unique [of checkpoints "conns \<sigma>" i] i by blast
qed

lemma quiet_writer:
  "wal_inv \<sigma> \<Longrightarrow> i < length (conns \<sigma>) \<Longrightarrow> c_write_lock_held (conns \<sigma> ! i) \<Longrightarrow> quiet (shared \<sigma>) (log \<sigma>) s' l' i (conns \<sigma>)"
  using only_writer [of \<sigma> i] by (simp add: quiet_def writes_def)

lemma step_begin_write:
  assumes inv: "wal_inv \<sigma>" and i: "i < length (conns \<sigma>)" "conns \<sigma> ! i = c" and pc: "pc c = Idle" "reading c" "\<not> c_write_lock_held c"
  shows "\<exists>r s' c'. begin_write_lock (shared \<sigma>) c = Inr (r, s', c') \<and>
    good (EvBeginWrite i) \<sigma> s' (case r of Inl _ \<Rightarrow> c' | Inr _ \<Rightarrow> c'\<lparr>pc := BeginWrite\<rparr>) (log \<sigma>) (db \<sigma>)"
proof -
  let ?s = "shared \<sigma>" and ?W = "cnt writes (conns \<sigma>)" and ?R = "slot_readers (conns \<sigma>)"
  note c = wal_inv_conn [OF inv i(1), unfolded i(2)]
  have l: "locks ?s (cnt in_vacuum (conns \<sigma>)) ?W (cnt checkpoints (conns \<sigma>)) ?R (slot_writers (conns \<sigma>))"
    using wal_inv_parts(1) [OF inv] by (simp add: locks_inv_def)
  obtain s1 where s1: "try_write_lock ?s = (?W = 0, s1)" "locks s1 (cnt in_vacuum (conns \<sigma>)) 1 (cnt checkpoints (conns \<sigma>)) ?R (slot_writers (conns \<sigma>))"
      "wal_meta s1 = wal_meta ?s" "same_marks ?s s1" using write_locked [OF l] by blast
  obtain s2 where s2: "unlock_write_lock s1 = Inr s2" "locks s2 (cnt in_vacuum (conns \<sigma>)) 0 (cnt checkpoints (conns \<sigma>)) ?R (slot_writers (conns \<sigma>))"
      "wal_meta s2 = wal_meta ?s" "same_marks ?s s2" using write_unlocked [OF s1(2)] s1(3) same_marks_trans [OF s1(4)] by auto
  have none: "good (EvBeginWrite i) \<sigma> s' c (log \<sigma>) (db \<sigma>)" if "wal_meta s' = wal_meta ?s" "same_marks ?s s'" "locks_inv s' (conns \<sigma>)" for s'
    by (rule step_none [OF inv i that(1) same_marks_held [OF that(2)] that(3)]) simp_all
  show ?thesis
  proof (cases "?W = 0")
    case False
    then have "locks_inv s1 (conns \<sigma>)" using l s1(2) by (auto simp: locks_inv_def locks_def lock_ok_def)
    then show ?thesis using none [OF s1(3,4)] False s1(1) pc by (simp add: begin_write_lock_def)
  next
    case W: True
    show ?thesis
    proof (cases "db_changed_against (load_snapshot s1) c")
      case True
      have "locks_inv s2 (conns \<sigma>)" using s2(2) W by (simp add: locks_inv_def)
      then show ?thesis using none [OF s2(3,4)] True W s1(1) s2(1) pc by (simp add: begin_write_lock_def)
    next
      case False
      then have "load_snapshot ?s = connection_snapshot c" using wal_meta_fields(9) [OF s1(3)] by (simp add: db_changed_against_def)
      then have cm: "c_max_frame c = max_frame ?s" by (simp add: load_snapshot_def connection_snapshot_def)
      let ?c = "c\<lparr>c_write_lock_held := True, pc := BeginWrite\<rparr>"
      have nw: "\<not> writes c" using W i cnt_0 [of writes "conns \<sigma>"] by auto
      have "good (EvBeginWrite i) \<sigma> s1 ?c (log \<sigma>) (db \<sigma>)"
      proof (rule step_meta [OF inv i(1) s1(3) same_marks_held [OF s1(4)]])
        show "locks_inv s1 ((conns \<sigma>)[i := ?c])"
          by (rule locksI [OF s1(2)]) (use i pc W nw c(2) in \<open>simp_all add: cnt_cases slot_cases roles pc_ok_def\<close>)
        show "conn_ok s1 ?c" using c(1) pc cm wal_inv_parts(2) [OF inv] s1(4) by (auto simp: conn_ok_def wal_meta_fields [OF s1(3)] index_inv_def same_marks_def)
      qed (use i c pc cm in \<open>simp_all add: reads_on_def pc_ok_def ck_active_def session_def\<close>)
      then show ?thesis using False W s1(1) pc by (simp add: begin_write_lock_def)
    qed
  qed
qed

lemma step_end_write:
  assumes inv: "wal_inv \<sigma>" and i: "i < length (conns \<sigma>)" "conns \<sigma> ! i = c" and pc: "pc c = Idle" "c_write_lock_held c" "c_max_frame c = max_frame (shared \<sigma>)"
  shows "\<exists>s' c'. end_write_tx (shared \<sigma>) c = Inr (s', c') \<and> good (EvEndWrite i) \<sigma> s' c' (log \<sigma>) (db \<sigma>)"
proof -
  let ?s = "shared \<sigma>" and ?c = "c\<lparr>c_write_lock_held := False\<rparr>"
  note c = wal_inv_conn [OF inv i(1), unfolded i(2)]
  have w: "writes c" using pc(2) by (simp add: writes_def)
  have "cnt writes (conns \<sigma>) = 1" using cnt_pos [OF i(1), of writes] w i(2) wal_inv_parts(1) [OF inv] by (auto simp: locks_inv_def locks_def lock_ok_def)
  then have l: "locks ?s (cnt in_vacuum (conns \<sigma>)) 1 (cnt checkpoints (conns \<sigma>)) (slot_readers (conns \<sigma>)) (slot_writers (conns \<sigma>))"
    using wal_inv_parts(1) [OF inv] by (simp add: locks_inv_def)
  obtain s1 where s1: "unlock_write_lock ?s = Inr s1" "locks s1 (cnt in_vacuum (conns \<sigma>)) 0 (cnt checkpoints (conns \<sigma>)) (slot_readers (conns \<sigma>)) (slot_writers (conns \<sigma>))"
      "wal_meta s1 = wal_meta ?s" "same_marks ?s s1" using write_unlocked [OF l] by auto
  have "good (EvEndWrite i) \<sigma> s1 ?c (log \<sigma>) (db \<sigma>)"
  proof (rule step_meta [OF inv i(1) s1(3) same_marks_held [OF s1(4)]])
    show "locks_inv s1 ((conns \<sigma>)[i := ?c])"
      by (rule locksI [OF s1(2)]) (use i pc w \<open>cnt writes (conns \<sigma>) = 1\<close> c(2) in \<open>simp_all add: cnt_cases slot_cases roles pc_ok_def\<close>)
    show "conn_ok s1 ?c" using c(1) pc s1(4) by (auto simp: conn_ok_def wal_meta_fields [OF s1(3)] same_marks_def)
  qed (use i c pc in \<open>simp_all add: reads_on_def pc_ok_def ck_active_def session_def\<close>)
  then show ?thesis using s1(1) pc(2) by (auto simp: end_write_tx_def)
qed

section \<open>Restarting the log\<close>

text \<open>When every committed frame is backfilled, the database file is the committed image.\<close>

lemma backfilled_image:
  assumes inv: "db_inv s cs l d" "index_inv s" and r: "\<And>p f. range_frame s (nbackfills s + 1) (max_frame s) p = Some f \<Longrightarrow> d p = frame_page (l f)"
  shows "image s l d (max_frame s) = d"
proof
  fix p
  have srt: "sorted_wrt (<) (frame_cache s p)" using inv(2) by (simp add: index_inv_def)
  show "image s l d (max_frame s) p = d p"
  proof (cases "rfind (\<lambda>f. f \<le> max_frame s) (frame_cache s p)")
    case (Some f)
    then have f: "f \<in> set (frame_cache s p)" "f \<le> max_frame s" "\<forall>g \<in> set (frame_cache s p). g \<le> max_frame s \<longrightarrow> g \<le> f" using rfind_sorted [OF srt] by auto
    have "d p = frame_page (l f)"
    proof (cases "f \<le> nbackfills s")
      case True
      then obtain g where "g \<in> set (frame_cache s p)" "d p = frame_page (l g)" "visible s cs g" "f \<le> g" using inv(1) f(1) unfolding db_inv_def by blast
      moreover from this have "g \<le> f" using f(3) by (simp add: visible_def)
      ultimately show ?thesis by simp
    next
      case False
      then show ?thesis using r f rfind_sorted [OF srt] by (auto simp: range_frame_def)
    qed
    then show ?thesis using Some by (simp add: image_def)
  qed (simp add: image_def)
qed

lemma idle_restart:
  assumes "conn_ok s c" "pc_ok s l c" "\<not> reading c" "\<not> writes c" "\<not> checkpoints c"
  shows "conn_ok s' c \<and> pc_ok s' l c \<and> ck_active c = None"
proof -
  have "\<not> (should_restart_log m \<and> (pc c = CkFinalize m r \<or> pc c = CkDone m r))" for m r using restart_writes [OF assms(2)] assms(4) by blast
  moreover have "c_checkpoint_guard c = None" "result_guard (pc c) = None" "\<not> c_write_lock_held c" using assms(4,5) by (auto simp: roles split: option.splits)
  ultimately show ?thesis using assms(1-3) by (cases "pc c") (auto simp: conn_ok_def pc_ok_def ck_active_def)
qed

lemma iso_step_stutter:
  assumes "sessions a' = sessions a" "committed a' = committed a" "\<not> (\<exists>j. ev = EvCommit j)" "\<And>m x. x \<in> iso_session ev m x"
  shows "iso_step ev a a'"
proof -
  have "\<exists>x \<in> iso_session ev (committed a) (sessions a ! event_conn ev). sessions a' = (sessions a)[event_conn ev := x]"
    using assms(1,4) by (metis list_update_id)
  moreover have "case ev of EvCommit _ \<Rightarrow> fst (sessions a ! event_conn ev) = Some (committed a') | _ \<Rightarrow> committed a' = committed a"
    using assms(2,3) by (cases ev) auto
  ultimately show ?thesis by (simp add: iso_step_def Let_def)
qed

lemma step_restart:
  assumes inv: "wal_inv \<sigma>" and i: "i < length (conns \<sigma>)" "conns \<sigma> ! i = c" and r: "restarted (shared \<sigma>) s'"
    and others: "\<forall>j < length (conns \<sigma>). j \<noteq> i \<longrightarrow> \<not> reading (conns \<sigma> ! j) \<and> \<not> writes (conns \<sigma> ! j) \<and> \<not> checkpoints (conns \<sigma> ! j)"
    and img: "image (shared \<sigma>) (log \<sigma>) (db \<sigma>) (max_frame (shared \<sigma>)) = db \<sigma>" and l: "locks_inv s' ((conns \<sigma>)[i := c'])"
    and c': "conn_ok s' c'" "pc_ok s' (log \<sigma>) c'" "ck_active c' = None" "reading c' = reading c" "reading c \<Longrightarrow> c_max_frame c = max_frame (shared \<sigma>)"
      "prepared_batches (pc c') = prepared_batches (pc c)"
    and ev: "event_conn ev = i" "\<not> (\<exists>j. ev = EvCommit j)" "\<And>m x. x \<in> iso_session ev m x"
  shows "good ev \<sigma> s' c' (log \<sigma>) (db \<sigma>)"
proof -
  have f: "max_frame s' = 0" "nbackfills s' = 0" "frame_cache s' = (\<lambda>_. [])" "\<not> initialized s'" using r by (simp_all add: restarted_def)
  have im: "image s' (log \<sigma>) (db \<sigma>) n = db \<sigma>" for n by (intro ext) (simp add: image_def f rfind_def)
  have "conns_inv s' ((conns \<sigma>)[i := c']) (log \<sigma>) (db \<sigma>)"
    unfolding conns_inv_def
  proof
    fix x
    assume "x \<in> set ((conns \<sigma>)[i := c'])"
    then obtain j where j: "j < length (conns \<sigma>)" "(conns \<sigma>)[i := c'] ! j = x" by (auto simp: in_set_conv_nth)
    show "conn_ok s' x \<and> pc_ok s' (log \<sigma>) x \<and> (\<forall>r. ck_active x = Some r \<longrightarrow> ck_range s' ((conns \<sigma>)[i := c']) (log \<sigma>) (db \<sigma>) r)"
      using idle_restart [OF wal_inv_conn(1,2) [OF inv j(1)], of s'] others j i(1) c'(1-3) by (cases "j = i") auto
  qed
  then have w: "wal_inv \<lparr>shared = s', conns = (conns \<sigma>)[i := c'], log = log \<sigma>, db = db \<sigma>\<rparr>"
    using inv l f by (simp add: wal_inv_def index_inv_def db_inv_def)
  have "session s' (log \<sigma>) (db \<sigma>) ((conns \<sigma>)[i := c'] ! j) = session (shared \<sigma>) (log \<sigma>) (db \<sigma>) (conns \<sigma> ! j)" if "j < length (conns \<sigma>)" for j
    using others that i c'(4-6) img by (cases "j = i") (auto simp: session_def im)
  then have "sessions (iso_of \<lparr>shared = s', conns = (conns \<sigma>)[i := c'], log = log \<sigma>, db = db \<sigma>\<rparr>) = sessions (iso_of \<sigma>)"
    by (auto simp: iso_of_def intro!: nth_equalityI)
  then have "iso_step ev (iso_of \<sigma>) (iso_of \<lparr>shared = s', conns = (conns \<sigma>)[i := c'], log = log \<sigma>, db = db \<sigma>\<rparr>)"
    by (rule iso_step_stutter) (use im img f(1) ev(2,3) in \<open>simp_all add: iso_of_def\<close>)
  then show ?thesis using w by (simp add: good_def ev(1))
qed

lemma step_idle:
  assumes inv: "wal_inv \<sigma>" and i: "i < length (conns \<sigma>)" "conns \<sigma> ! i = c" and pc: "pc c = BeginWrite" and m: "wal_meta s' = wal_meta (shared \<sigma>)" "held_marks (slot_readers (conns \<sigma>)) (shared \<sigma>) s'"
    and l: "locks_inv s' (conns \<sigma>)"
  shows "good (EvRestart i a rnd) \<sigma> s' (c\<lparr>pc := Idle\<rparr>) (log \<sigma>) (db \<sigma>)"
proof (rule step_meta [OF inv i(1) m])
  note c = wal_inv_conn [OF inv i(1), unfolded i(2)]
  show "locks_inv s' ((conns \<sigma>)[i := c\<lparr>pc := Idle\<rparr>])" by (rule locks_inv_same [OF l i(1)]) (use i pc c(2) in \<open>simp_all add: roles pc_ok_def\<close>)
  have "conn_ok s' c" using other_ok [OF c(1,2) _ keeps_meta [OF m(1)] m(2)] i wal_meta_fields [OF m(1)] by auto
  then show "conn_ok s' (c\<lparr>pc := Idle\<rparr>)" by (simp add: conn_ok_def)
qed (use i wal_inv_conn [OF inv i(1)] pc in \<open>simp_all add: reads_on_def pc_ok_def ck_active_def session_def\<close>)

lemma slot_readers_0: "slot_readers cs k = 0 \<longleftrightarrow> (\<forall>c \<in> set cs. slot_of c \<noteq> Some k)"
  by (simp add: slot_readers_def cnt_0)

lemma reading_slot: "conn_ok s c \<Longrightarrow> reading c \<Longrightarrow> \<exists>k < 5. slot_of c = Some k"
  by (cases "c_read_guard c") (auto simp: conn_ok_def slot_of_def)

lemma step_restart_write:
  assumes inv: "wal_inv \<sigma>" and i: "i < length (conns \<sigma>)" "conns \<sigma> ! i = c" and pc: "pc c = BeginWrite"
  shows "\<exists>r s' c'. begin_write_restart a (shared \<sigma>) c rnd = Inr (r, s', c') \<and> good (EvRestart i a rnd) \<sigma> s' (c'\<lparr>pc := Idle\<rparr>) (log \<sigma>) (db \<sigma>)"
proof -
  let ?s = "shared \<sigma>" and ?R = "slot_readers (conns \<sigma>)" and ?X = "slot_writers (conns \<sigma>)"
  note c = wal_inv_conn [OF inv i(1), unfolded i(2)]
  have h: "c_write_lock_held c" "c_max_frame c = max_frame ?s" "reading c" "c_checkpoint_guard c = None" using c(1,2) pc by (simp_all add: pc_ok_def conn_ok_def)
  have idx: "nbackfills ?s \<le> max_frame ?s" using wal_inv_parts(2) [OF inv] by (simp add: index_inv_def)
  have idle: "good (EvRestart i a rnd) \<sigma> ?s (c\<lparr>pc := Idle\<rparr>) (log \<sigma>) (db \<sigma>)"
    by (rule step_idle [OF inv i pc]) (simp_all add: wal_inv_parts(1) [OF inv])
  show ?thesis
  proof (cases "a \<and> c_read_guard c = DbFile \<and> nbackfills ?s \<noteq> 0 \<and> max_frame ?s = nbackfills ?s")
    case False
    then have "begin_write_restart a ?s c rnd = Inr (Inr (), ?s, c)" using idx by (auto simp: begin_write_restart_def try_restart_log_before_write_def)
    then show ?thesis using idle by blast
  next
    case True
    have l: "locks ?s (cnt in_vacuum (conns \<sigma>)) (cnt writes (conns \<sigma>)) (cnt checkpoints (conns \<sigma>)) ?R ?X" using wal_inv_parts(1) [OF inv] by (simp add: locks_inv_def)
    have R0: "?R 0 \<noteq> 0" using cnt_pos [OF i(1), of "\<lambda>c. slot_of c = Some 0"] True i(2) by (simp add: slot_readers_def slot_of_def)
    then have C: "cnt checkpoints (conns \<sigma>) = 0" using locks_XR [OF l, of 0] by (simp add: slot_writers_def)
    have "restarting x \<longrightarrow> checkpoints x" if "x \<in> set (conns \<sigma>)" for x
      using that inv by (auto simp: wal_inv_def conns_inv_def pc_ok_def roles split: conn_pc.splits)
    then have "cnt restarting (conns \<sigma>) = 0" using C by (auto simp: cnt_0)
    then have X: "\<forall>k < 5. ?X k = 0" using C by (simp add: slot_writers_def)
    obtain r s1 where r: "try_restart_log_for_write ?s rnd = Inr (r, s1)" "locks s1 (cnt in_vacuum (conns \<sigma>)) (cnt writes (conns \<sigma>)) (cnt checkpoints (conns \<sigma>)) ?R ?X"
      "r = Inl Busy \<and> wal_meta s1 = wal_meta ?s \<and> held_marks ?R ?s s1 \<or> r = Inr None \<and> wal_meta s1 = wal_meta ?s \<and> held_marks ?R ?s s1 \<or>
       r = Inr (Some (load_snapshot s1)) \<and> ?R 0 = 1 \<and> (\<forall>i \<in> {1..<5}. ?R i = 0) \<and> restarted ?s s1" using try_restart_log_for_write_ok [OF l X] by blast
    have li: "locks_inv s1 (conns \<sigma>)" using r(2) by (simp add: locks_inv_def)
    show ?thesis
    proof (cases "r = Inr (Some (load_snapshot s1))")
      case False
      then have "wal_meta s1 = wal_meta ?s" "held_marks ?R ?s s1" "r = Inl Busy \<or> r = Inr None" using r(3) by auto
      then show ?thesis using step_idle [OF inv i pc _ _ li] True r(1) by (auto simp: begin_write_restart_def try_restart_log_before_write_def)
    next
      case restart: True
      let ?s' = "bump_checkpoint_epoch s1" and ?c = "(apply_restart_snapshot (load_snapshot s1) c)\<lparr>pc := Idle\<rparr>"
      have free: "?R 0 = 1" "\<forall>i \<in> {1..<5}. ?R i = 0" "restarted ?s s1" using r(3) restart by auto
      have m: "wal_meta ?s' = wal_meta s1" by (simp add: bump_checkpoint_epoch_def)
      have rs: "restarted ?s ?s'" by (rule restarted_meta [OF m free(3)])
      have "good (EvRestart i a rnd) \<sigma> ?s' ?c (log \<sigma>) (db \<sigma>)"
      proof (rule step_restart [OF inv i rs])
        have "locks_inv ?s' (conns \<sigma>)" using li by (simp add: locks_inv_def locks_def bump_checkpoint_epoch_def)
        then show "locks_inv ?s' ((conns \<sigma>)[i := ?c])" using i(1) by (rule locks_inv_same) (use i pc h in \<open>simp_all add: roles apply_restart_snapshot_def\<close>)
        show "\<forall>j < length (conns \<sigma>). j \<noteq> i \<longrightarrow> \<not> reading (conns \<sigma> ! j) \<and> \<not> writes (conns \<sigma> ! j) \<and> \<not> checkpoints (conns \<sigma> ! j)"
        proof (intro allI impI conjI)
          fix j
          assume j: "j < length (conns \<sigma>)" "j \<noteq> i"
          show "\<not> writes (conns \<sigma> ! j)" using only_writer [OF inv i(1)] i(2) h(1) j by (simp add: writes_def)
          show "\<not> checkpoints (conns \<sigma> ! j)" using C j(1) by (simp add: cnt_0)
          show "\<not> reading (conns \<sigma> ! j)"
          proof
            assume "reading (conns \<sigma> ! j)"
            then obtain k where k: "k < 5" "slot_of (conns \<sigma> ! j) = Some k" using reading_slot [OF wal_inv_conn(1) [OF inv j(1)]] by blast
            then have "?R k \<noteq> 0" using j(1) slot_readers_0 [of "conns \<sigma>" k] nth_mem by blast
            then have "k = 0" using free(2) k(1) by (metis Suc_leI One_nat_def atLeastLessThan_iff bot_nat_0.not_eq_extremum)
            then show False using cnt_unique [of "\<lambda>c. slot_of c = Some 0" "conns \<sigma>" i j] free(1) True i j k(2) by (simp add: slot_readers_def slot_of_def)
          qed
        qed
        show "image ?s (log \<sigma>) (db \<sigma>) (max_frame ?s) = db \<sigma>"
          by (rule backfilled_image [OF wal_inv_parts(3,2) [OF inv]]) (use True rfind_Some in \<open>fastforce simp: range_frame_def\<close>)
        show "conn_ok ?s' ?c" using c(1) h True rs by (simp add: conn_ok_def apply_restart_snapshot_def restarted_def bump_checkpoint_epoch_def load_snapshot_def)
      qed (use h pc in \<open>simp_all add: pc_ok_def ck_active_def apply_restart_snapshot_def\<close>)
      then show ?thesis using True r(1) restart by (auto simp: begin_write_restart_def try_restart_log_before_write_def)
    qed
  qed
qed

end
