(* ===== verification/Wal_Append.thy ===== *)
theory Wal_Append
  imports Wal_Write
begin

text \<open>
  The events that change the log under the write lock: its header, prepared and appended frames, commit and
  rollback.
\<close>

section \<open>The header\<close>

lemma seal_wal_header_ok: "\<exists>h'. seal_wal_header big ps r1 r2 h = Inr h'"
proof -
  have "length (take (WAL_HEADER_SIZE - 8) (wal_header_as_bytes big x)) mod 8 = 0" for x
    by (simp add: wal_header_as_bytes_def ne_bytes_def WAL_HEADER_SIZE_def)
  then show ?thesis by (auto simp: seal_wal_header_def checksum_wal_def Let_def split: prod.splits)
qed

lemma writer_pc:
  assumes "pc c = Idle \<or> prepared_batches (pc c) \<noteq> []"
  shows "result_guard (pc c) = None" "in_vacuum c = c_vacuum_read c" "\<not> restarting c" "ck_active c = None" "slot_of c = guard_slot None (c_read_guard c)"
  using assms by (cases "pc c"; simp add: in_vacuum_def restarting_def ck_active_def slot_of_def)+

text \<open>A step under the write lock that keeps the committed frames.\<close>

lemma step_writer:
  assumes inv: "wal_inv \<sigma>" and i: "i < length (conns \<sigma>)" "conns \<sigma> ! i = c" and w: "c_write_lock_held c"
    and c': "c_read_guard c' = c_read_guard c" "c_vacuum_read c' = c_vacuum_read c" "c_write_lock_held c'" "c_checkpoint_guard c' = None" "pc c' = Idle \<or> prepared_batches (pc c') \<noteq> []"
      "pc c = Idle \<or> prepared_batches (pc c) \<noteq> []" "c_min_frame c' \<le> nbackfills (shared \<sigma>) + 1" "max_frame s' \<le> c_max_frame c'" "\<not> initialized s' \<Longrightarrow> c_max_frame c' = 0" "max_frame (shared \<sigma>) \<le> c_max_frame c'"
      "pc_ok s' l' c'"
    and s': "keeps (shared \<sigma>) (log \<sigma>) s' l'" "index_inv s'" "read_locks s' = read_locks (shared \<sigma>)" "vacuum_lock s' = vacuum_lock (shared \<sigma>)" "write_lock s' = write_lock (shared \<sigma>)" "checkpoint_lock s' = checkpoint_lock (shared \<sigma>)"
  shows "wal_inv \<lparr>shared = s', conns = (conns \<sigma>)[i := c'], log = l', db = db \<sigma>\<rparr>"
proof -
  note c = wal_inv_conn [OF inv i(1), unfolded i(2)]
  have "c_checkpoint_guard c = None" using c(2) c'(6) by (cases "pc c") (simp_all add: pc_ok_def)
  note g = this writer_pc [OF c'(5)] writer_pc [OF c'(6)]
  have marks: "read_mark_value s' k = read_mark_value (shared \<sigma>) k" for k using s'(3) by (simp add: read_mark_value_def)
  have rd: "reading c" using c(1) w by (simp add: conn_ok_def)
  have "locks_inv s' (conns \<sigma>)" using wal_inv_parts(1) [OF inv] s'(3-6) by (simp add: locks_inv_def locks_def)
  then have l: "locks_inv s' ((conns \<sigma>)[i := c'])" using i(1) by (rule locks_inv_same) (use i w c' g in \<open>auto simp: writes_def checkpoints_def ckpt_guard_def\<close>)
  show ?thesis
  proof (rule wal_inv_update [OF inv i(1) _ s'(1) _ _ l s'(2) _ c'(11)])
    show "quiet (shared \<sigma>) (log \<sigma>) s' l' i (conns \<sigma>)" using quiet_writer [OF inv i(1)] w i(2) by simp
    have "unat (read_mark_value (shared \<sigma>) k) \<le> max_frame (shared \<sigma>)" if "c_read_guard c = ReadMark k" for k using c(1) that by (simp add: conn_ok_def)
    moreover have "max_frame (shared \<sigma>) \<le> max_frame s'" using s'(1) by (simp add: keeps_def)
    ultimately show "conn_ok s' c'" using c(1) c' w rd s'(1) marks by (auto simp: conn_ok_def keeps_def intro: order.trans)
  qed (use c' g marks in \<open>simp_all add: reads_on_def held_marks_def\<close>)
qed

lemma step_writer_good:
  assumes w: "wal_inv \<lparr>shared = s', conns = (conns \<sigma>)[i := c'], log = l', db = db \<sigma>\<rparr>" and inv: "wal_inv \<sigma>" and i: "i < length (conns \<sigma>)" "conns \<sigma> ! i = c" "c_write_lock_held c"
    and s': "keeps (shared \<sigma>) (log \<sigma>) s' l'" "max_frame s' = max_frame (shared \<sigma>)" and ev: "event_conn ev = i" "\<not> (\<exists>j. ev = EvCommit j)"
      "session s' l' (db \<sigma>) c' \<in> iso_session ev (image (shared \<sigma>) (log \<sigma>) (db \<sigma>) (max_frame (shared \<sigma>))) (session (shared \<sigma>) (log \<sigma>) (db \<sigma>) c)"
  shows "good ev \<sigma> s' c' l' (db \<sigma>)"
proof -
  have "image s' l' (db \<sigma>) (max_frame s') = image (shared \<sigma>) (log \<sigma>) (db \<sigma>) (max_frame (shared \<sigma>))" using image_keeps [OF s'(1)] s'(2) by simp
  moreover have "sessions (iso_of \<sigma>) ! i = session (shared \<sigma>) (log \<sigma>) (db \<sigma>) c" using i by (simp add: iso_of_def)
  moreover have "quiet (shared \<sigma>) (log \<sigma>) s' l' i (conns \<sigma>)" using quiet_writer [OF inv i(1)] i(2,3) by simp
  ultimately have "iso_step ev (iso_of \<sigma>) (iso_of \<lparr>shared = s', conns = (conns \<sigma>)[i := c'], log = l', db = db \<sigma>\<rparr>)"
    using ev sessions_update [OF inv i(1) s'(1), of c'] unfolding iso_step_def Let_def ev(1) by (cases ev) (auto simp: iso_of_def)
  then show ?thesis using w by (simp add: good_def ev(1))
qed

lemma step_prepare_wal:
  assumes inv: "wal_inv \<sigma>" and i: "i < length (conns \<sigma>)" "conns \<sigma> ! i = c" and pc: "pc c = Idle" "c_write_lock_held c"
  shows "\<exists>h s' c'. prepare_wal_start big ps r1 r2 (shared \<sigma>) c = Inr (h, s', c') \<and> good (EvPrepareWal i ps r1 r2) \<sigma> (mark_initialized s') c' (log \<sigma>) (db \<sigma>)"
proof -
  let ?s = "shared \<sigma>"
  note c = wal_inv_conn [OF inv i(1), unfolded i(2)]
  have rd: "reading c" "max_frame ?s \<le> c_max_frame c" "c_min_frame c \<le> nbackfills ?s + 1" "c_checkpoint_guard c = None" using c(1,2) pc by (simp_all add: conn_ok_def pc_ok_def)
  show ?thesis
  proof (cases "initialized ?s")
    case True
    have "good (EvPrepareWal i ps r1 r2) \<sigma> ?s c (log \<sigma>) (db \<sigma>)"
      by (rule step_none [OF inv i]) (simp_all add: wal_inv_parts(1) [OF inv])
    moreover have "mark_initialized ?s = ?s" using True by (simp add: mark_initialized_def)
    ultimately show ?thesis using True by (auto simp: prepare_wal_start_def)
  next
    case False
    obtain h where h: "seal_wal_header big ps r1 r2 (header ?s) = Inr h" using seal_wal_header_ok by blast
    let ?s1 = "?s\<lparr>header := h, last_checksum := (checksum_1 h, checksum_2 h)\<rparr>" and ?c = "c\<lparr>c_last_checksum := (checksum_1 h, checksum_2 h), c_max_frame := 0\<rparr>"
    have z: "max_frame ?s = 0" "c_max_frame c = 0" using False wal_inv_parts(2) [OF inv] c(1) pc(2) rd(1) by (simp_all add: index_inv_def conn_ok_def)
    have k: "keeps ?s (log \<sigma>) (mark_initialized ?s1) (log \<sigma>)" by (simp add: keeps_def mark_initialized_def)
    have "wal_inv \<lparr>shared = mark_initialized ?s1, conns = (conns \<sigma>)[i := ?c], log = log \<sigma>, db = db \<sigma>\<rparr>"
      by (rule step_writer [OF inv i pc(2) _ _ _ _ _ _ _ _ _ _ _ k])
        (use pc z rd wal_inv_parts(2) [OF inv] in \<open>simp_all add: mark_initialized_def index_inv_def pc_ok_def\<close>)
    then have "good (EvPrepareWal i ps r1 r2) \<sigma> (mark_initialized ?s1) ?c (log \<sigma>) (db \<sigma>)"
      by (rule step_writer_good [OF _ inv i pc(2) k]) (use z image_keeps [OF k] in \<open>simp_all add: mark_initialized_def session_def\<close>)
    then show ?thesis using False h by (auto simp: prepare_wal_start_def prepare_wal_header_def)
  qed
qed

section \<open>Commit and rollback\<close>

lemma step_commit:
  assumes inv: "wal_inv \<sigma>" and i: "i < length (conns \<sigma>)" "conns \<sigma> ! i = c" and pc: "pc c = Idle" "c_write_lock_held c" "c_max_frame c < 2 ^ 32"
    and f: "finish_append_frames_commit (shared \<sigma>) c = (s', c')"
  shows "good (EvCommit i) \<sigma> s' c' (log \<sigma>) (db \<sigma>)"
proof -
  let ?s = "shared \<sigma>"
  note c = wal_inv_conn [OF inv i(1), unfolded i(2)]
  have rd: "reading c" "max_frame ?s \<le> c_max_frame c" "\<not> initialized ?s \<longrightarrow> c_max_frame c = 0" "c_min_frame c \<le> nbackfills ?s + 1" "c_checkpoint_guard c = None" using c(1,2) pc by (simp_all add: conn_ok_def pc_ok_def)
  have s': "s' = publish_commit ?s (c_max_frame c) (c_last_checksum c) (c_transaction_count c + 1)" "c' = c\<lparr>c_transaction_count := c_transaction_count c + 1\<rparr>"
    using f by (simp_all add: finish_append_frames_commit_def Let_def)
  have k: "keeps ?s (log \<sigma>) s' (log \<sigma>)" using rd by (simp add: keeps_def s' publish_commit_def)
  have w: "wal_inv \<lparr>shared = s', conns = (conns \<sigma>)[i := c'], log = log \<sigma>, db = db \<sigma>\<rparr>"
    by (rule step_writer [OF inv i pc(2) _ _ _ _ _ _ _ _ _ _ _ k])
      (use pc rd wal_inv_parts(2) [OF inv] in \<open>auto simp: s' publish_commit_def index_inv_def pc_ok_def\<close>)
  have im: "image s' (log \<sigma>) (db \<sigma>) n = image ?s (log \<sigma>) (db \<sigma>) n" for n using image_cong [of s' ?s] by (simp add: s' publish_commit_def)
  have "quiet ?s (log \<sigma>) s' (log \<sigma>) i (conns \<sigma>)" using quiet_writer [OF inv i(1)] i(2) pc(2) by simp
  then have "sessions (iso_of \<lparr>shared = s', conns = (conns \<sigma>)[i := c'], log = log \<sigma>, db = db \<sigma>\<rparr>) = (sessions (iso_of \<sigma>))[i := session s' (log \<sigma>) (db \<sigma>) c']"
    using sessions_update [OF inv i(1) k, of c'] by (simp add: iso_of_def)
  moreover have "session s' (log \<sigma>) (db \<sigma>) c' = sessions (iso_of \<sigma>) ! i" using i by (simp add: iso_of_def session_def im s'(2))
  moreover have "fst (sessions (iso_of \<sigma>) ! i) = Some (image s' (log \<sigma>) (db \<sigma>) (max_frame s'))" using i rd(1) by (simp add: iso_of_def session_def im) (simp add: s' publish_commit_def)
  ultimately have "iso_step (EvCommit i) (iso_of \<sigma>) (iso_of \<lparr>shared = s', conns = (conns \<sigma>)[i := c'], log = log \<sigma>, db = db \<sigma>\<rparr>)"
    by (simp add: iso_step_def) (simp add: iso_of_def)
  then show ?thesis using w by (simp add: good_def)
qed

lemma pop_frames_sorted:
  assumes "sorted_wrt (<) (xs :: nat list)" "\<And>x y. x < y \<Longrightarrow> P x \<Longrightarrow> P y"
  shows "pop_frames P xs = filter (\<lambda>f. \<not> P f) xs"
  using assms(1)
proof (induction xs rule: rev_induct)
  case (snoc x xs)
  have s: "sorted_wrt (<) xs" "\<forall>y \<in> set xs. y < x" using snoc.prems by (auto simp: sorted_wrt_append)
  show ?case
  proof (cases "P x")
    case True
    then show ?thesis using snoc.IH [OF s(1)] by (simp add: pop_frames_def)
  next
    case False
    then have "filter (\<lambda>f. \<not> P f) xs = xs" using s(2) assms(2) by (auto simp: filter_id_conv)
    then show ?thesis using False by (simp add: pop_frames_def)
  qed
qed (simp add: pop_frames_def)

lemma step_rollback:
  assumes inv: "wal_inv \<sigma>" and i: "i < length (conns \<sigma>)" "conns \<sigma> ! i = c" and pc: "pc c = Idle \<or> prepared_batches (pc c) \<noteq> []" "c_write_lock_held c"
  shows "\<exists>s' c'. rollback (shared \<sigma>) c None = Inr (s', c') \<and> good (EvRollback i) \<sigma> s' (c'\<lparr>pc := Idle\<rparr>) (log \<sigma>) (db \<sigma>)"
proof -
  let ?s = "shared \<sigma>" and ?s' = "rollback_cache (shared \<sigma>) (max_frame (shared \<sigma>))"
  let ?c = "wal_reset_internal_states (c\<lparr>c_last_checksum := last_checksum ?s, c_max_frame := max_frame ?s\<rparr>)"
  note c = wal_inv_conn [OF inv i(1), unfolded i(2)]
  have rd: "reading c" "max_frame ?s \<le> c_max_frame c" "\<not> initialized ?s \<longrightarrow> max_frame ?s = 0" "c_min_frame c \<le> nbackfills ?s + 1" "c_checkpoint_guard c = None"
    using c(1,2) pc wal_inv_parts(2) [OF inv] by (cases "pc c"; simp add: conn_ok_def pc_ok_def index_inv_def)+
  have srt: "sorted_wrt (<) (frame_cache ?s p)" for p using wal_inv_parts(2) [OF inv] by (simp add: index_inv_def)
  have fc: "frame_cache ?s' p = filter (\<lambda>f. f \<le> max_frame ?s) (frame_cache ?s p)" for p
    using pop_frames_sorted [OF srt, of "\<lambda>f. f > max_frame ?s" p] by (simp add: rollback_cache_def not_less)
  have k: "keeps ?s (log \<sigma>) ?s' (log \<sigma>)" by (simp add: keeps_def fc) (simp add: rollback_cache_def)
  have hw: "f \<le> frame_cache_high_water ?s" if "f \<in> set (frame_cache ?s p)" for f p using that wal_inv_parts(2) [OF inv] by (auto simp: index_inv_def)
  have ii: "index_inv ?s'" unfolding index_inv_def fc using wal_inv_parts(2) [OF inv] srt hw by (auto simp: index_inv_def rollback_cache_def sorted_wrt_filter)
  have "wal_inv \<lparr>shared = ?s', conns = (conns \<sigma>)[i := ?c\<lparr>pc := Idle\<rparr>], log = log \<sigma>, db = db \<sigma>\<rparr>"
    by (rule step_writer [OF inv i pc(2) _ _ _ _ _ _ _ _ _ _ _ k ii])
      (use pc rd in \<open>simp_all add: rollback_cache_def wal_reset_internal_states_def pc_ok_def\<close>)
  then have "good (EvRollback i) \<sigma> ?s' (?c\<lparr>pc := Idle\<rparr>) (log \<sigma>) (db \<sigma>)"
    by (rule step_writer_good [OF _ inv i pc(2) k])
      (use rd image_keeps [OF k] in \<open>simp_all add: session_def wal_reset_internal_states_def pending_pages_def batch_frames_def\<close>, simp add: rollback_cache_def)
  then show ?thesis by (simp add: rollback_def load_snapshot_def Let_def)
qed

section \<open>Preparing frames\<close>

declare upt_Suc [simp del]

lemma prepare_wal_frame_ok:
  assumes "length page = ps" "ps mod 8 = 0"
  shows "\<exists>ck buf. prepare_wal_frame big h prev ps pn dbs page = Inr (ck, buf) \<and> frame_page buf = page"
  using assms by (simp add: prepare_wal_frame_def checksum_wal_def Let_def frame_page_def WAL_FRAME_HEADER_SIZE_def)

lemma prepare_frames_loop_ok:
  assumes "\<forall>x \<in> set pages. length (snd x) = ps" "ps mod 8 = 0" "unat (wal_page_size h) = ps"
  shows "\<exists>fs cks. prepare_frames_loop big h dbs pages ck n = Inr (fs, cks, n + length pages) \<and> map (fst \<circ> snd) fs = [n..<n + length pages] \<and>
    map (\<lambda>(p, f, ck, b). (p, frame_page b)) fs = pages"
  using assms(1)
proof (induction pages arbitrary: ck n)
  case (Cons x pages)
  obtain p d where x: "x = (p, d)" by force
  define db' where "db' = (if pages = [] then (case dbs of None \<Rightarrow> 0 | Some n \<Rightarrow> n) else 0)"
  obtain ck' buf where f: "prepare_wal_frame big h ck ps (of_nat p) db' d = Inr (ck', buf)" "frame_page buf = d"
    using prepare_wal_frame_ok [of d ps big h ck "of_nat p" db'] Cons.prems assms(2) x by (metis list.set_intros(1) snd_conv)
  obtain fs cks where fs: "prepare_frames_loop big h dbs pages ck' (n + 1) = Inr (fs, cks, n + 1 + length pages)" "map (fst \<circ> snd) fs = [n + 1..<n + 1 + length pages]"
      "map (\<lambda>(p, f, ck, b). (p, frame_page b)) fs = pages" using Cons.IH [of ck' "n + 1"] Cons.prems by (auto simp: comp_def)
  show ?case using f fs x assms(3) by (simp add: db'_def [symmetric] Let_def upt_conv_Cons comp_def)
qed simp

lemma write_log_other: "f \<notin> set (map (fst \<circ> snd) (pf_frames b)) \<Longrightarrow> write_log b l f = l f"
proof -
  have "f \<notin> set (map (fst \<circ> snd) fs) \<Longrightarrow> fold (\<lambda>(_, f, _, bs) l. l(f := bs)) fs l f = l f" for fs by (induction fs arbitrary: l) auto
  then show "f \<notin> set (map (fst \<circ> snd) (pf_frames b)) \<Longrightarrow> write_log b l f = l f" by (simp add: write_log_def)
qed

lemma write_log_same:
  assumes "distinct (map (fst \<circ> snd) (pf_frames b))" "(p, f, ck, bs) \<in> set (pf_frames b)"
  shows "write_log b l f = bs"
proof -
  let ?w = "fold (\<lambda>(_, f, _, bs) l. l(f := bs))"
  have other: "f \<notin> set (map (fst \<circ> snd) fs) \<Longrightarrow> ?w fs l f = l f" for fs :: "(nat \<times> nat \<times> (u32 \<times> u32) \<times> bytes) list" and l by (induction fs arbitrary: l) auto
  have "distinct (map (fst \<circ> snd) fs) \<Longrightarrow> (p, f, ck, bs) \<in> set fs \<Longrightarrow> ?w fs l f = bs" for fs
  proof (induction fs arbitrary: l)
    case (Cons x fs)
    show ?case
    proof (cases "x = (p, f, ck, bs)")
      case True
      then show ?thesis using other [of fs "l(f := bs)"] Cons.prems(1) by (simp add: fun_upd_def)
    next
      case False
      then show ?thesis using Cons by (cases x) auto
    qed
  qed simp
  then show ?thesis using assms by (simp add: write_log_def)
qed

lemma batch_frames_snoc: "batch_frames (bs @ [b]) = batch_frames bs @ pf_frames b"
  by (simp add: batch_frames_def)

text \<open>Where the next frame goes.\<close>

lemma last_prepared:
  assumes "prepared_ok l n bs" "bs \<noteq> []"
  shows "final_max_frame (last bs) = n + length (batch_frames bs)"
proof -
  have b: "last bs \<in> set bs" using assms(2) by simp
  then have f: "pf_frames (last bs) \<noteq> []" "final_max_frame (last bs) = fst (snd (last (pf_frames (last bs))))" using assms(1) by (simp_all add: prepared_ok_def)
  have e: "batch_frames bs = batch_frames (butlast bs) @ pf_frames (last bs)" using batch_frames_snoc [of "butlast bs" "last bs"] assms(2) by simp
  then have "last (map (fst \<circ> snd) (batch_frames bs)) = final_max_frame (last bs)" "batch_frames bs \<noteq> []" using f by (simp_all add: last_map)
  moreover have "map (fst \<circ> snd) (batch_frames bs) = [n + 1..<n + 1 + length (batch_frames bs)]" using assms(1) by (simp add: prepared_ok_def)
  ultimately have "final_max_frame (last bs) = last [n + 1..<n + 1 + length (batch_frames bs)]" "batch_frames bs \<noteq> []" by metis+
  then show ?thesis by simp
qed

lemma prepared_snoc:
  assumes p: "prepared_ok l n bs" and b: "map (fst \<circ> snd) (pf_frames b) = [m..<m + length (pf_frames b)]" "m = n + length (batch_frames bs) + 1" "pf_frames b \<noteq> []" "final_max_frame b = m + length (pf_frames b) - 1"
  shows "prepared_ok (write_log b l) n (bs @ [b])"
proof -
  have d: "distinct (map (fst \<circ> snd) (pf_frames b))" unfolding b(1) by simp
  have old: "write_log b l f = l f" if "(p, f, ck, x) \<in> set (batch_frames bs)" for p f ck x
  proof (rule write_log_other)
    have "f \<in> set (map (fst \<circ> snd) (batch_frames bs))" using that by force
    then have "f \<in> set [n + 1..<n + 1 + length (batch_frames bs)]" using p unfolding prepared_ok_def by metis
    then have "f < m" using b(2) by simp
    then show "f \<notin> set (map (fst \<circ> snd) (pf_frames b))" unfolding b(1) by simp
  qed
  have ids: "map (fst \<circ> snd) (batch_frames (bs @ [b])) = [n + 1..<n + 1 + length (batch_frames (bs @ [b]))]"
    using p b(1,2) upt_add_eq_append [of "n + 1" m "length (pf_frames b)"] by (simp add: prepared_ok_def batch_frames_snoc add.commute add.left_commute)
  have "last (map (fst \<circ> snd) (pf_frames b)) = m + length (pf_frames b) - 1" unfolding b(1) using b(3) by simp
  then have "final_max_frame b = fst (snd (last (pf_frames b)))" using b(3,4) by (simp add: last_map)
  then show ?thesis using p ids old write_log_same [OF d] b(3) unfolding prepared_ok_def by (auto simp: batch_frames_snoc)
qed

lemma prepare_frames_ok:
  assumes c: "max_frame s \<le> c_max_frame c" "bs \<noteq> [] \<longrightarrow> prepared_ok l (c_max_frame c) bs"
    and pg: "pages \<noteq> []" "length pages \<le> IOV_MAX" "initialized s" "unat (wal_page_size (header s)) = ps" "\<forall>x \<in> set pages. length (snd x) = ps \<and> ps mod 8 = 0"
    and m: "m = c_max_frame c + length (batch_frames bs) + 1"
  shows "\<exists>b c'. prepare_frames big s c pages ps dbs (if bs = [] then None else Some (last bs)) = Inr (b, c') \<and> map (fst \<circ> snd) (pf_frames b) = [m..<m + length (pf_frames b)] \<and>
    map (\<lambda>(p, f, ck, b). (p, frame_page b)) (pf_frames b) = pages \<and> final_max_frame b = m + length (pf_frames b) - 1 \<and> (c' = c \<or> c' = install_snapshot (load_snapshot s) c \<and> c_max_frame c = max_frame s)"
proof -
  have "\<exists>ck c'. (case if bs = [] then None else Some (last bs) of
            Some p \<Rightarrow> Inr (final_checksum p, final_max_frame p + 1, c)
          | None \<Rightarrow>
              let snapshot = load_snapshot s; local_state = connection_snapshot c in
              if s_max_frame local_state > s_max_frame snapshot then Inr (s_last_checksum local_state, s_max_frame local_state + 1, c)
              else if s_max_frame local_state \<noteq> s_max_frame snapshot then Inl Panic
              else Inr (s_last_checksum snapshot, s_max_frame snapshot + 1, if snapshot \<noteq> local_state then install_snapshot snapshot c else c)) =
      (Inr (ck, m, c') :: ((u32 \<times> u32) \<times> nat \<times> _) res) \<and> (c' = c \<or> c' = install_snapshot (load_snapshot s) c \<and> c_max_frame c = max_frame s)"
  proof (cases "bs = []")
    case True
    then show ?thesis using c(1) m by (auto simp: Let_def load_snapshot_def connection_snapshot_def batch_frames_def)
  next
    case False
    then show ?thesis using c(2) m last_prepared [of l "c_max_frame c" bs] by simp
  qed
  then obtain ck c' where st: "(case if bs = [] then None else Some (last bs) of
            Some p \<Rightarrow> Inr (final_checksum p, final_max_frame p + 1, c)
          | None \<Rightarrow>
              let snapshot = load_snapshot s; local_state = connection_snapshot c in
              if s_max_frame local_state > s_max_frame snapshot then Inr (s_last_checksum local_state, s_max_frame local_state + 1, c)
              else if s_max_frame local_state \<noteq> s_max_frame snapshot then Inl Panic
              else Inr (s_last_checksum snapshot, s_max_frame snapshot + 1, if snapshot \<noteq> local_state then install_snapshot snapshot c else c)) =
      (Inr (ck, m, c') :: ((u32 \<times> u32) \<times> nat \<times> _) res)" "c' = c \<or> c' = install_snapshot (load_snapshot s) c \<and> c_max_frame c = max_frame s" by blast
  define ck' where "ck' = (if m = 1 then (checksum_1 (header s), checksum_2 (header s)) else ck)"
  have ps: "\<forall>x \<in> set pages. length (snd x) = ps" "ps mod 8 = 0" using pg(1,5) by (auto simp: neq_Nil_conv)
  obtain fs cks where fs: "prepare_frames_loop big (header s) dbs pages ck' m = Inr (fs, cks, m + length pages)" "map (fst \<circ> snd) fs = [m..<m + length pages]"
    "map (\<lambda>(p, f, ck, b). (p, frame_page b)) fs = pages" using prepare_frames_loop_ok [OF ps pg(4), of big dbs ck' m] by blast
  have len: "length fs = length pages" using arg_cong [OF fs(3), of length] by simp
  obtain off where off: "frame_offset s m = Inr off" using m by (simp add: frame_offset_def)
  let ?b = "\<lparr>pf_offset = off, pf_frames = fs, final_checksum = cks, final_max_frame = m + length pages - 1, pf_epoch = epoch s\<rparr>"
  have "prepare_frames big s c pages ps dbs (if bs = [] then None else Some (last bs)) = Inr (?b, c')"
    unfolding prepare_frames_def st(1) using pg(1-4) fs(1) off by (cases "m = 1") (simp_all add: ck'_def)
  then show ?thesis using fs(2,3) len st(2) by (intro exI [of _ ?b] exI [of _ c']) simp
qed

lemma step_prepare:
  assumes inv: "wal_inv \<sigma>" and i: "i < length (conns \<sigma>)" "conns \<sigma> ! i = c" and pc: "pc c = Idle \<or> prepared_batches (pc c) \<noteq> []" "c_write_lock_held c"
    and pg: "pages \<noteq> []" "length pages \<le> IOV_MAX" "initialized (shared \<sigma>)" "unat (wal_page_size (header (shared \<sigma>))) = ps" "\<forall>x \<in> set pages. length (snd x) = ps \<and> ps mod 8 = 0"
    and bs: "bs = prepared_batches (pc c)"
  shows "\<exists>b c'. prepare_frames big (shared \<sigma>) c pages ps dbs (if bs = [] then None else Some (last bs)) = Inr (b, c') \<and>
    good (EvPrepare i pages ps dbs) \<sigma> (shared \<sigma>) (c'\<lparr>pc := Prepared (bs @ [b])\<rparr>) (write_log b (log \<sigma>)) (db \<sigma>)"
proof -
  let ?s = "shared \<sigma>" and ?m = "c_max_frame c + length (batch_frames bs) + 1"
  note c = wal_inv_conn [OF inv i(1), unfolded i(2)]
  have rd: "reading c" "max_frame ?s \<le> c_max_frame c" "c_min_frame c \<le> nbackfills ?s + 1" "c_checkpoint_guard c = None" "bs \<noteq> [] \<longrightarrow> prepared_ok (log \<sigma>) (c_max_frame c) bs"
    using c(1) pc(2) apply (simp_all add: conn_ok_def) [3]
    using c(2) pc(1) bs by (cases "pc c"; simp add: pc_ok_def)+
  then have pr: "prepared_ok (log \<sigma>) (c_max_frame c) bs" by (cases "bs = []") (simp_all add: prepared_ok_def batch_frames_def)
  obtain b c' where b: "prepare_frames big ?s c pages ps dbs (if bs = [] then None else Some (last bs)) = Inr (b, c')" "map (fst \<circ> snd) (pf_frames b) = [?m..<?m + length (pf_frames b)]"
    "map (\<lambda>(p, f, ck, b). (p, frame_page b)) (pf_frames b) = pages" "final_max_frame b = ?m + length (pf_frames b) - 1" "c' = c \<or> c' = install_snapshot (load_snapshot ?s) c \<and> c_max_frame c = max_frame ?s"
    using prepare_frames_ok [OF rd(2,5) pg refl, of big dbs] by blast
  let ?l = "write_log b (log \<sigma>)" and ?c = "c'\<lparr>pc := Prepared (bs @ [b])\<rparr>"
  have ne: "pf_frames b \<noteq> []" using b(3) pg(1) by auto
  have l: "?l f = log \<sigma> f" if "f \<le> c_max_frame c" for f using that by (intro write_log_other) (simp add: b(2) del: set_map)
  have p': "prepared_ok ?l (c_max_frame c) (bs @ [b])" by (rule prepared_snoc [OF pr b(2) refl ne b(4)])
  have k: "keeps ?s (log \<sigma>) ?s ?l" using l rd(2) by (simp add: keeps_def)
  have same: "c_read_guard c' = c_read_guard c" "c_vacuum_read c' = c_vacuum_read c" "c_write_lock_held c'" "c_checkpoint_guard c' = None" "c_min_frame c' \<le> nbackfills ?s + 1" "c_max_frame c' = c_max_frame c"
    using b(5) pc(2) rd by (auto simp: install_snapshot_def load_snapshot_def snapshot_min_frame_def)
  have w: "wal_inv \<lparr>shared = ?s, conns = (conns \<sigma>)[i := ?c], log = ?l, db = db \<sigma>\<rparr>"
    by (rule step_writer [OF inv i pc(2) _ _ _ _ _ _ _ _ _ _ _ k wal_inv_parts(2) [OF inv]]) (use same pc pg(3) rd p' in \<open>simp_all add: pc_ok_def\<close>)
  have im: "image ?s ?l (db \<sigma>) (c_max_frame c) = image ?s (log \<sigma>) (db \<sigma>) (c_max_frame c)"
    using rfind_Some [of "\<lambda>f. f \<le> c_max_frame c"] by (intro ext) (simp add: image_def l split: option.split)
  have "good (EvPrepare i pages ps dbs) \<sigma> ?s ?c ?l (db \<sigma>)"
    by (rule step_writer_good [OF w inv i pc(2) k]) (use same rd bs im b(3) in \<open>simp_all add: session_def pending_pages_def batch_frames_snoc\<close>)
  then show ?thesis using b(1) by blast
qed

section \<open>Appending frames to the index\<close>

definition idx_ok :: "('a wal_index_scheme) \<Rightarrow> bool" where
  "idx_ok s \<longleftrightarrow> (\<forall>p. sorted_wrt (<) (frame_cache s p) \<and> (\<forall>f \<in> set (frame_cache s p). f \<le> frame_cache_high_water s))"

definition unindexed :: "wal_shared \<Rightarrow> wal_shared" where
  "unindexed s = s\<lparr>frame_cache := (\<lambda>_. []), frame_cache_high_water := 0\<rparr>"

lemma unindexed_fields:
  assumes "unindexed s' = unindexed s"
  shows "max_frame s' = max_frame s" "nbackfills s' = nbackfills s" "initialized s' = initialized s"
    "read_locks s' = read_locks s" "vacuum_lock s' = vacuum_lock s" "write_lock s' = write_lock s" "checkpoint_lock s' = checkpoint_lock s"
  using arg_cong [OF assms, of max_frame] arg_cong [OF assms, of nbackfills] arg_cong [OF assms, of initialized] arg_cong [OF assms, of read_locks]
    arg_cong [OF assms, of vacuum_lock] arg_cong [OF assms, of write_lock] arg_cong [OF assms, of checkpoint_lock] by (simp_all add: unindexed_def)

definition reindexed :: "wal_shared \<Rightarrow> nat \<Rightarrow> wal_shared \<Rightarrow> bool" where
  "reindexed s n s' \<longleftrightarrow> unindexed s' = unindexed s \<and> idx_ok s' \<and>
     (\<forall>p. filter (\<lambda>f. f \<le> n) (frame_cache s' p) = filter (\<lambda>f. f \<le> n) (frame_cache s p))"

lemma reindexed_trans:
  assumes "reindexed s n s1" "reindexed s1 (n + 1) s2"
  shows "reindexed s n s2"
proof -
  have "filter (\<lambda>f. f \<le> n) (frame_cache s2 p) = filter (\<lambda>f. f \<le> n) (frame_cache s1 p)" for p
    using assms(2) filter_narrow [of "\<lambda>f. f \<le> n + 1" "frame_cache s2 p" "frame_cache s1 p" "\<lambda>f. f \<le> n"] by (simp add: reindexed_def)
  then show ?thesis using assms by (simp add: reindexed_def)
qed

text \<open>A frame after \<open>n\<close> replaces whatever the index had beyond \<open>n\<close> and becomes the version of its page.\<close>

lemma cache_frame_next:
  assumes "idx_ok s"
  shows "reindexed s n (cache_frame s q (n + 1))" "image (cache_frame s q (n + 1)) l d (n + 1) = (image s l d n)(q := frame_page (l (n + 1)))"
proof -
  let ?s = "cache_frame s q (n + 1)"
  have srt: "sorted_wrt (<) (frame_cache s p)" "f \<in> set (frame_cache s p) \<Longrightarrow> f \<le> frame_cache_high_water s" for p f using assms by (simp_all add: idx_ok_def)
  have fc: "frame_cache ?s p = filter (\<lambda>f. f \<le> n) (frame_cache s p) @ (if p = q then [n + 1] else [])" for p
  proof (cases "n + 1 \<le> frame_cache_high_water s")
    case True
    then show ?thesis using pop_frames_sorted [OF srt(1), of "\<lambda>f. f \<ge> n + 1"] by (simp add: cache_frame_def Let_def not_le less_Suc_eq_le)
  next
    case False
    then have "filter (\<lambda>f. f \<le> n) (frame_cache s p) = frame_cache s p" for p using srt(2) by (fastforce simp: filter_id_conv)
    then show ?thesis using False by (simp add: cache_frame_def Let_def)
  qed
  have "idx_ok ?s" unfolding idx_ok_def fc using sorted_wrt_filter [OF srt(1)] by (auto simp: sorted_wrt_append) (auto simp: cache_frame_def Let_def)
  moreover have "unindexed ?s = unindexed s" by (simp add: unindexed_def cache_frame_def Let_def)
  ultimately show "reindexed s n ?s" using fc by (simp add: reindexed_def)
  have "filter (\<lambda>f. f \<le> n + 1) (filter (\<lambda>f. f \<le> n) xs) = filter (\<lambda>f. f \<le> n) xs" for xs :: "nat list" by (auto intro: filter_cong)
  then have "rfind (\<lambda>f. f \<le> n + 1) (frame_cache ?s p) = (if p = q then Some (n + 1) else rfind (\<lambda>f. f \<le> n) (frame_cache s p))" for p
    unfolding fc by (simp add: rfind_filter)
  then show "image ?s l d (n + 1) = (image s l d n)(q := frame_page (l (n + 1)))" by (intro ext) (simp add: image_def)
qed

definition cached :: "(nat \<times> nat \<times> (u32 \<times> u32) \<times> bytes) list \<Rightarrow> wal_shared \<Rightarrow> wal_shared" where
  "cached fs s = fold (\<lambda>(p, f, _) s. cache_frame s p f) fs s"

lemma cached_ok:
  assumes "idx_ok s" "map (fst \<circ> snd) fs = [n + 1..<n + 1 + length fs]"
  shows "reindexed s n (cached fs s)" "image (cached fs s) l d (n + length fs) = write_pages (map (\<lambda>(p, f, _). (p, frame_page (l f))) fs) (image s l d n)"
proof -
  have "reindexed s n (cached fs s) \<and> image (cached fs s) l d (n + length fs) = write_pages (map (\<lambda>(p, f, _). (p, frame_page (l f))) fs) (image s l d n)"
    using assms
  proof (induction fs arbitrary: s n)
    case Nil
    then show ?case using Nil by (simp add: cached_def reindexed_def write_pages_def)
  next
    case (Cons x fs)
    obtain p f ck b where xf: "x = (p, f, ck, b)" by (cases x) auto
    then have x: "x = (p, n + 1, ck, b)" "map (fst \<circ> snd) fs = [n + 1 + 1..<n + 1 + 1 + length fs]" using Cons.prems(2) by (simp_all add: upt_conv_Cons comp_def)
    let ?s = "cache_frame s p (n + 1)"
    note s1 = cache_frame_next(1) [OF Cons.prems(1), of n p] cache_frame_next(2) [OF Cons.prems(1), of p n l d]
    have "idx_ok ?s" using s1(1) by (simp add: reindexed_def)
    then have "reindexed ?s (n + 1) (cached fs ?s)" "image (cached fs ?s) l d (n + 1 + length fs) = write_pages (map (\<lambda>(p, f, _). (p, frame_page (l f))) fs) (image ?s l d (n + 1))"
      using Cons.IH [of ?s "n + 1"] x(2) by blast+
    then show ?case using reindexed_trans [OF s1(1)] s1(2) x(1) by (simp add: cached_def write_pages_def)
  qed
  then show "reindexed s n (cached fs s)" "image (cached fs s) l d (n + length fs) = write_pages (map (\<lambda>(p, f, _). (p, frame_page (l f))) fs) (image s l d n)" by simp_all
qed

lemma commit_prepared_ok:
  "bs \<noteq> [] \<Longrightarrow> commit_prepared_frames bs (s, c) = (cached (batch_frames bs) s, c\<lparr>c_last_checksum := final_checksum (last bs), c_max_frame := final_max_frame (last bs)\<rparr>)"
proof (induction bs arbitrary: s c)
  case (Cons b bs)
  have "\<exists>ck m. fold complete_append_frame fs (s, c) = (cached fs s, c\<lparr>c_last_checksum := ck, c_max_frame := m\<rparr>)" for fs
  proof (induction fs arbitrary: s c)
    case Nil
    have "c = c\<lparr>c_last_checksum := c_last_checksum c, c_max_frame := c_max_frame c\<rparr>" by simp
    then show ?case by (metis cached_def fold_simps(1))
  next
    case (Cons x fs)
    obtain p f ck b where x: "x = (p, f, ck, b)" by (cases x) auto
    show ?case using Cons [of "cache_frame s p f" "c\<lparr>c_last_checksum := ck, c_max_frame := f\<rparr>"] x by (auto simp: complete_append_frame_def cached_def)
  qed
  then obtain ck m where f: "fold complete_append_frame (pf_frames b) (s, c) = (cached (pf_frames b) s, c\<lparr>c_last_checksum := ck, c_max_frame := m\<rparr>)" by blast
  have "cached (batch_frames (b # bs)) s = cached (batch_frames bs) (cached (pf_frames b) s)" by (simp add: cached_def batch_frames_def)
  then show ?case using Cons.IH f by (cases "bs = []") (simp_all add: batch_frames_def cached_def)
qed simp

lemma step_append:
  assumes inv: "wal_inv \<sigma>" and i: "i < length (conns \<sigma>)" "conns \<sigma> ! i = c" and pc: "pc c = Prepared bs"
    and f: "commit_prepared_frames bs (shared \<sigma>, c) = (s', c')"
  shows "good (EvAppend i) \<sigma> s' (c'\<lparr>pc := Idle\<rparr>) (log \<sigma>) (db \<sigma>)"
proof -
  let ?s = "shared \<sigma>" and ?n = "c_max_frame c" and ?fs = "batch_frames bs"
  note c = wal_inv_conn [OF inv i(1), unfolded i(2)]
  have w: "c_write_lock_held c" "initialized ?s" "bs \<noteq> []" "prepared_ok (log \<sigma>) ?n bs" "c_checkpoint_guard c = None" using c(2) pc by (simp_all add: pc_ok_def)
  have rd: "reading c" "max_frame ?s \<le> ?n" "c_min_frame c \<le> nbackfills ?s + 1" using c(1) w(1) by (simp_all add: conn_ok_def)
  have s': "s' = cached ?fs ?s" "c' = c\<lparr>c_last_checksum := final_checksum (last bs), c_max_frame := ?n + length ?fs\<rparr>"
    using f commit_prepared_ok [OF w(3), of ?s c] last_prepared [OF w(4,3)] by simp_all
  have ids: "map (fst \<circ> snd) ?fs = [?n + 1..<?n + 1 + length ?fs]" and l: "\<forall>(p, f, ck, b) \<in> set ?fs. log \<sigma> f = b" using w(4) by (auto simp: prepared_ok_def)
  have "idx_ok ?s" using wal_inv_parts(2) [OF inv] by (simp add: index_inv_def idx_ok_def)
  note ca = cached_ok [OF this ids]
  have r: "reindexed ?s ?n s'" using ca(1) s'(1) by simp
  then have fl: "max_frame s' = max_frame ?s" "nbackfills s' = nbackfills ?s" "initialized s' = initialized ?s"
    "read_locks s' = read_locks ?s" "vacuum_lock s' = vacuum_lock ?s" "write_lock s' = write_lock ?s" "checkpoint_lock s' = checkpoint_lock ?s"
    using unindexed_fields [of s' ?s] by (simp_all add: reindexed_def)
  have "filter (\<lambda>f. f \<le> max_frame ?s) (frame_cache s' p) = filter (\<lambda>f. f \<le> max_frame ?s) (frame_cache ?s p)" for p
    using r rd(2) filter_narrow [of "\<lambda>f. f \<le> ?n" "frame_cache s' p" "frame_cache ?s p" "\<lambda>f. f \<le> max_frame ?s"] by (simp add: reindexed_def)
  then have k: "keeps ?s (log \<sigma>) s' (log \<sigma>)" by (simp add: keeps_def) (simp add: fl)
  have "index_inv s'" using r wal_inv_parts(2) [OF inv] by (simp add: reindexed_def idx_ok_def index_inv_def) (simp add: fl)
  then have wi: "wal_inv \<lparr>shared = s', conns = (conns \<sigma>)[i := c'\<lparr>pc := Idle\<rparr>], log = log \<sigma>, db = db \<sigma>\<rparr>"
    by (intro step_writer [OF inv i w(1) _ _ _ _ _ _ _ _ _ _ _ k]) (use w rd pc in \<open>simp_all add: s'(2) pc_ok_def fl\<close>)
  have "map (\<lambda>(p, f, _). (p, frame_page (log \<sigma> f))) ?fs = pending_pages bs" using l by (auto simp: pending_pages_def)
  then have "image s' (log \<sigma>) (db \<sigma>) (?n + length ?fs) = write_pages (pending_pages bs) (image ?s (log \<sigma>) (db \<sigma>) ?n)" using ca(2) [of "log \<sigma>" "db \<sigma>"] s'(1) by simp
  then have ss: "session s' (log \<sigma>) (db \<sigma>) (c'\<lparr>pc := Idle\<rparr>) \<in> iso_session (EvAppend i) m (session ?s (log \<sigma>) (db \<sigma>) c)" for m
    using rd(1) pc by (simp add: session_def s'(2) pending_pages_def [of "[]"] batch_frames_def [of "[]"])
  show ?thesis by (rule step_writer_good [OF wi inv i w(1) k _ _ _ ss]) (simp_all add: fl)
qed

end
