(* ===== verification/Wal_Checkpoint.thy ===== *)
theory Wal_Checkpoint
  imports Wal_Append
begin

text \<open>
  The events of a checkpoint: taking the guard, choosing the frames, copying one page, restarting the log, publishing what
  was backfilled, and giving the guard back on every path.
\<close>

section \<open>The guard\<close>

lemma locks_cong: "locks s V W C R X \<Longrightarrow> (\<And>i. i < 5 \<Longrightarrow> X i = Y i) \<Longrightarrow> locks s V W C R Y"
  by (simp add: locks_def)

lemma active_checkpoints: "pc_ok s l c \<Longrightarrow> ck_active c \<noteq> None \<Longrightarrow> checkpoints c"
  by (cases "pc c") (auto simp: pc_ok_def ck_active_def checkpoints_def ckpt_guard_def split: if_splits)

lemma locked_checkpoints: "pc_ok s l c \<Longrightarrow> pc c = CkLocked m n \<Longrightarrow> checkpoints c"
  by (simp add: pc_ok_def checkpoints_def ckpt_guard_def)

lemma restarting_checkpoints: "pc_ok s l c \<Longrightarrow> restarting c \<Longrightarrow> checkpoints c"
  by (auto simp: pc_ok_def roles split: conn_pc.splits)

lemma checkpointer_counts:
  assumes inv: "wal_inv \<sigma>" and i: "i < length (conns \<sigma>)" "conns \<sigma> ! i = c" and c: "checkpoints c"
  shows "cnt checkpoints (conns \<sigma>) = 1" "slot_readers (conns \<sigma>) 0 = 0" "\<not> restarting c \<Longrightarrow> cnt restarting (conns \<sigma>) = 0" "restarting c \<Longrightarrow> cnt restarting (conns \<sigma>) = 1"
    "writes c \<Longrightarrow> cnt writes (conns \<sigma>) = 1"
proof -
  let ?cs = "conns \<sigma>"
  have l: "locks (shared \<sigma>) (cnt in_vacuum ?cs) (cnt writes ?cs) (cnt checkpoints ?cs) (slot_readers ?cs) (slot_writers ?cs)" using wal_inv_parts(1) [OF inv] by (simp add: locks_inv_def)
  have "0 < cnt checkpoints ?cs" using cnt_pos [OF i(1), of checkpoints] i(2) c by simp
  then show C: "cnt checkpoints ?cs = 1" using l by (auto simp: locks_def lock_ok_def)
  then show "slot_readers ?cs 0 = 0" using locks_XR [OF l, of 0] by (simp add: slot_writers_def)
  have other: "\<not> restarting (?cs ! j)" if "j < length ?cs" "j \<noteq> i" for j
    using that only_checkpointer [OF inv i(1)] i(2) c restarting_checkpoints [OF wal_inv_conn(2) [OF inv that(1)]] by blast
  show "cnt restarting ?cs = 0" if "\<not> restarting c" unfolding cnt_0 using other i(2) that by (metis in_set_conv_nth)
  show "cnt restarting ?cs = 1" if "restarting c"
  proof -
    have "0 < cnt restarting ?cs" using cnt_pos [OF i(1), of restarting] i(2) that by simp
    moreover have "cnt restarting ?cs \<le> 1" using locks_XR [OF l, of 1] by (simp add: slot_writers_def)
    ultimately show ?thesis by simp
  qed
  show "cnt writes ?cs = 1" if "writes c"
  proof -
    have "0 < cnt writes ?cs" using cnt_pos [OF i(1), of writes] i(2) that by simp
    then show ?thesis using l by (auto simp: locks_def lock_ok_def)
  qed
qed

lemma slot_writers_update:
  assumes "i < length cs" "restarting c' = restarting (cs ! i)"
  shows "slot_writers (cs[i := c']) = (slot_writers cs)(0 := cnt checkpoints (cs[i := c']))"
  using assms cnt_same [of i cs restarting c'] by (intro ext) (simp add: slot_writers_def)

text \<open>Giving back the guard, if there is one, on the way to a state without it.\<close>

lemma step_release:
  assumes inv: "wal_inv \<sigma>" and i: "i < length (conns \<sigma>)" "conns \<sigma> ! i = c" and s: "wal_meta s = wal_meta (shared \<sigma>)" "held_marks (slot_readers (conns \<sigma>)) (shared \<sigma>) s" "locks_inv s (conns \<sigma>)"
    and c: "\<not> restarting c" "prepared_batches (pc c') = prepared_batches (pc c)"
    and c': "c_read_guard c' = c_read_guard c" "c_vacuum_read c' = c_vacuum_read c" "c_write_lock_held c' = c_write_lock_held c" "c_max_frame c' = c_max_frame c" "c_min_frame c' = c_min_frame c"
      "c_checkpoint_guard c' = None" "result_guard (pc c') = None" "in_vacuum c' = in_vacuum c" "slot_of c' = slot_of c" "\<not> restarting c'" "ck_active c' = None" "pc_ok (shared \<sigma>) (log \<sigma>) c'"
    and ev: "event_conn ev = i" "\<not> (\<exists>j. ev = EvCommit j)" "\<And>m x. x \<in> iso_session ev m x"
  shows "\<exists>s'. release_guard s (ckpt_guard c) = Inr s' \<and> good ev \<sigma> s' c' (log \<sigma>) (db \<sigma>)"
proof -
  let ?cs = "conns \<sigma>"
  note co = wal_inv_conn [OF inv i(1), unfolded i(2)]
  have ss: "session (shared \<sigma>) (log \<sigma>) (db \<sigma>) c' = session (shared \<sigma>) (log \<sigma>) (db \<sigma>) c" using c c' by (simp add: session_def)
  have nc: "\<not> checkpoints c'" "writes c' = c_write_lock_held c" using c' by (simp_all add: roles)
  have fin: "good ev \<sigma> s' c' (log \<sigma>) (db \<sigma>)" if h: "wal_meta s' = wal_meta (shared \<sigma>)" "held_marks (slot_readers ?cs) (shared \<sigma>) s'" "locks_inv s' (?cs[i := c'])" for s'
  proof (rule step_meta [OF inv i(1) h])
    have "conn_ok s' c" using other_ok [OF co(1,2) _ keeps_meta [OF h(1)] h(2)] i wal_meta_fields [OF h(1)] by auto
    then show "conn_ok s' c'" using c' by (simp add: conn_ok_def)
    show "session (shared \<sigma>) (log \<sigma>) (db \<sigma>) c' \<in> iso_session ev (image (shared \<sigma>) (log \<sigma>) (db \<sigma>) (max_frame (shared \<sigma>))) (session (shared \<sigma>) (log \<sigma>) (db \<sigma>) (?cs ! i))"
      using ss ev(3) i(2) by simp
  qed (use c' i ev in \<open>simp_all add: reads_on_def\<close>)
  show ?thesis
  proof (cases "ckpt_guard c")
    case None
    then have "locks_inv s (?cs[i := c'])" using c c' i by (intro locks_inv_same [OF s(3) i(1)]) (simp_all add: nc writes_def [of c] checkpoints_def [of c])
    then show ?thesis using fin [OF s(1,2)] None by (simp add: release_guard_def)
  next
    case (Some g)
    then have ck: "checkpoints c" by (simp add: checkpoints_def)
    note n = checkpointer_counts [OF inv i ck]
    have l: "locks s (cnt in_vacuum ?cs) (cnt writes ?cs) 1 (slot_readers ?cs) (slot_writers ?cs)" using s(3) n(1) by (simp add: locks_inv_def)
    have X: "slot_writers ?cs 0 = 1" using n(1) by (simp add: slot_writers_def)
    have gw: "g = Writer \<longrightarrow> cnt writes ?cs = 1" using Some n(5) by (simp add: writes_def)
    obtain s' where s': "release_checkpoint_guard s g = Inr s'" "locks s' (cnt in_vacuum ?cs) (if g = Writer then 0 else cnt writes ?cs) 0 (slot_readers ?cs) ((slot_writers ?cs)(0 := 0))"
      "wal_meta s' = wal_meta s" "same_marks s s'" using release_checkpoint_guard_ok [OF l X gw] by blast
    have nw: "g = Writer \<Longrightarrow> \<not> c_write_lock_held c" using Some co(2) by (auto simp: pc_ok_def ckpt_guard_def split: option.splits)
    have W: "cnt writes (?cs[i := c']) = (if g = Writer then 0 else cnt writes ?cs)"
    proof (cases "g = Writer")
      case True
      then show ?thesis using cnt_sub [of i ?cs writes c'] i Some gw nw nc(2) by (simp add: writes_def [of c])
    next
      case False
      then show ?thesis using cnt_same [of i ?cs writes c'] i Some nc(2) by (simp add: writes_def [of c])
    qed
    have "cnt checkpoints (?cs[i := c']) = 0" using cnt_sub [of i ?cs checkpoints c'] i ck nc(1) n(1) by simp
    then have "locks_inv s' (?cs[i := c'])"
      using s'(2) W slot_writers_update [of i ?cs c'] i c(1) c'(8-10) by (simp add: locks_inv_def cnt_same slot_readers_same)
    then show ?thesis using fin [of s'] s'(1,3) s(1) held_marks_trans [OF s(2) same_marks_held [OF s'(4)]] Some by (simp add: release_guard_def)
  qed
qed

lemma step_ck_load:
  assumes inv: "wal_inv \<sigma>" and i: "i < length (conns \<sigma>)" "conns \<sigma> ! i = c" and pc: "pc c = Idle"
  shows "good (EvCkLoad i mode) \<sigma> (shared \<sigma>) (case checkpoint_load (shared \<sigma>) mode of Inl _ \<Rightarrow> c | Inr n \<Rightarrow> c\<lparr>pc := CkLoaded mode n\<rparr>) (log \<sigma>) (db \<sigma>)"
proof (cases "checkpoint_load (shared \<sigma>) mode")
  case (Inl r)
  then show ?thesis using step_none [OF inv i refl held_marks_refl wal_inv_parts(1) [OF inv], of "EvCkLoad i mode"] by simp
next
  case (Inr n)
  note c = wal_inv_conn [OF inv i(1), unfolded i(2)]
  have "good (EvCkLoad i mode) \<sigma> (shared \<sigma>) (c\<lparr>pc := CkLoaded mode n\<rparr>) (log \<sigma>) (db \<sigma>)"
  proof (rule step_meta [OF inv i(1) refl held_marks_refl])
    show "locks_inv (shared \<sigma>) ((conns \<sigma>)[i := c\<lparr>pc := CkLoaded mode n\<rparr>])"
      by (rule locks_inv_same [OF wal_inv_parts(1) [OF inv] i(1)]) (use i pc c(2) in \<open>simp_all add: roles pc_ok_def\<close>)
  qed (use i pc c in \<open>simp_all add: reads_on_def conn_ok_def pc_ok_def ck_active_def session_def\<close>)
  then show ?thesis using Inr by simp
qed

lemma step_ck_lock:
  assumes inv: "wal_inv \<sigma>" and i: "i < length (conns \<sigma>)" "conns \<sigma> ! i = c" and pc: "pc c = CkLoaded mode n" "n = nbackfills (shared \<sigma>)"
  shows "\<exists>r s' c'. acquire_proper_checkpoint_guard (shared \<sigma>) c mode = Inr (r, s', c') \<and>
    (case r of Inl _ \<Rightarrow> \<exists>s'' c''. checkpoint_failed s' c' = Inr (s'', c'') \<and> good (EvCkLock i) \<sigma> s'' (c''\<lparr>pc := Idle\<rparr>) (log \<sigma>) (db \<sigma>)
     | Inr _ \<Rightarrow> good (EvCkLock i) \<sigma> s' (c'\<lparr>pc := CkLocked mode n\<rparr>) (log \<sigma>) (db \<sigma>))"
proof -
  let ?s = "shared \<sigma>" and ?cs = "conns \<sigma>"
  note c = wal_inv_conn [OF inv i(1), unfolded i(2)]
  have g0: "c_checkpoint_guard c = None" using c(2) pc by (simp add: pc_ok_def)
  have l: "locks ?s (cnt in_vacuum ?cs) (cnt writes ?cs) (cnt checkpoints ?cs) (slot_readers ?cs) (slot_writers ?cs)" using wal_inv_parts(1) [OF inv] by (simp add: locks_inv_def)
  obtain g s1 where g: "acquire_checkpoint_guard ?s mode = Inr (g, s1)" "guard_taken ?s (cnt in_vacuum ?cs) (cnt writes ?cs) (cnt checkpoints ?cs) (slot_readers ?cs) (slot_writers ?cs) mode g s1"
    using acquire_checkpoint_guard_ok [OF l, of mode] by (auto simp: slot_writers_def)
  have m: "wal_meta s1 = wal_meta ?s" "same_marks ?s s1" using g(2) by (simp_all add: guard_taken_def)
  show ?thesis
  proof (cases g)
    case (Inl e)
    then have l1: "locks_inv s1 ?cs" using g(2) by (simp add: guard_taken_def locks_inv_def)
    let ?c = "c\<lparr>c_checkpoint_guard := None, pc := Idle\<rparr>"
    have "good (EvCkLock i) \<sigma> s1 ?c (log \<sigma>) (db \<sigma>)"
    proof (rule step_meta [OF inv i(1) m(1) same_marks_held [OF m(2)]])
      show "locks_inv s1 (?cs[i := ?c])" by (rule locks_inv_same [OF l1 i(1)]) (use i pc g0 in \<open>simp_all add: roles\<close>)
      have "conn_ok s1 c" using conn_ok_meta [OF m(1), of c] c(1) m(2) by (simp add: same_marks_def conn_ok_def)
      then show "conn_ok s1 ?c" by (simp add: conn_ok_def)
    qed (use i pc c g0 in \<open>simp_all add: reads_on_def pc_ok_def ck_active_def session_def\<close>)
    then show ?thesis using Inl g(1) g0 by (simp add: acquire_proper_checkpoint_guard_def release_guard_def checkpoint_failed_def)
  next
    case (Inr k)
    let ?c = "c\<lparr>c_checkpoint_guard := Some k, pc := CkLocked mode n\<rparr>"
    have k: "k = guard_for mode" "cnt checkpoints ?cs = 0" "k = Writer \<Longrightarrow> cnt writes ?cs = 0"
      "locks s1 (cnt in_vacuum ?cs) (if k = Writer then 1 else cnt writes ?cs) 1 (slot_readers ?cs) ((slot_writers ?cs)(0 := 1))"
      using g(2) Inr by (cases k; simp add: guard_taken_def guard_for_def)+
    have nw: "k = Writer \<Longrightarrow> \<not> c_write_lock_held c" "\<not> checkpoints c" using k(2,3) i cnt_0 [of writes ?cs] cnt_0 [of checkpoints ?cs] nth_mem [OF i(1)] by (auto simp: writes_def)
    have "good (EvCkLock i) \<sigma> s1 ?c (log \<sigma>) (db \<sigma>)"
    proof (rule step_meta [OF inv i(1) m(1) same_marks_held [OF m(2)]])
      have W: "cnt writes (?cs[i := ?c]) = (if k = Writer then 1 else cnt writes ?cs)"
        using i g0 nw k(3) pc by (cases "k = Writer") (simp_all add: cnt_cases writes_def ckpt_guard_def)
      have C: "cnt checkpoints (?cs[i := ?c]) = 1" using cnt_add [of i ?cs checkpoints ?c] i nw(2) k(2) by (simp add: checkpoints_def [of ?c] ckpt_guard_def)
      show "locks_inv s1 (?cs[i := ?c])" using k(4) W C slot_writers_update [of i ?cs ?c] i pc
        by (simp add: locks_inv_def cnt_same slot_readers_same slot_of_def in_vacuum_def restarting_def)
      have "conn_ok s1 c" using conn_ok_meta [OF m(1), of c] c(1) m(2) by (simp add: same_marks_def conn_ok_def)
      then show "conn_ok s1 ?c" by (simp add: conn_ok_def)
    qed (use i pc c g0 nw k(1) in \<open>auto simp: reads_on_def pc_ok_def ck_active_def session_def\<close>)
    then show ?thesis using Inr g(1) g0 by (simp add: acquire_proper_checkpoint_guard_def release_guard_def)
  qed
qed

section \<open>The frames to copy\<close>

lemma latest_frames_mem:
  "(p, f) \<in> set (sort_key snd (iter_latest_frames s keys lo hi)) \<longleftrightarrow> p \<in> set keys \<and> range_frame s lo hi p = Some f"
  by (auto simp: iter_latest_frames_def range_frame_def List.map_filter_def intro!: rev_image_eqI [of p])

text \<open>No reader is behind the frame that the read marks allow.\<close>

lemma safe_visible:
  assumes inv: "wal_inv \<sigma>" and i: "i < length (conns \<sigma>)" "conns \<sigma> ! i = c" and ck: "checkpoints c"
    and h: "h \<le> max_frame (shared \<sigma>)" "\<forall>k \<in> {1..<5}. slot_readers (conns \<sigma>) k \<noteq> 0 \<longrightarrow> h \<le> unat (read_mark_value (shared \<sigma>) k)"
  shows "visible (shared \<sigma>) (conns \<sigma>) h"
proof -
  have "h \<le> c_max_frame x" if x: "x \<in> set (conns \<sigma>)" "reading x" for x
  proof -
    have ok: "conn_ok (shared \<sigma>) x" using inv x(1) by (simp add: wal_inv_def conns_inv_def)
    have rd: "slot_readers (conns \<sigma>) k \<noteq> 0" if "slot_of x = Some k" for k using that x(1) slot_readers_0 [of "conns \<sigma>" k] by blast
    show ?thesis
    proof (cases "c_read_guard x")
      case DbFile
      then show ?thesis using rd [of 0] checkpointer_counts(2) [OF inv i ck] by (simp add: slot_of_def)
    next
      case (ReadMark k)
      then have "1 \<le> k" "k < 5" "unat (read_mark_value (shared \<sigma>) k) \<le> c_max_frame x" using ok by (simp_all add: conn_ok_def)
      moreover have "slot_readers (conns \<sigma>) k \<noteq> 0" using rd [of k] ReadMark by (simp add: slot_of_def)
      ultimately show ?thesis using h(2) by fastforce
    qed (use x(2) in simp)
  qed
  then show ?thesis using h(1) by (simp add: visible_def)
qed

lemma step_ck_range:
  assumes inv: "wal_inv \<sigma>" and i: "i < length (conns \<sigma>)" "conns \<sigma> ! i = c" and pc: "pc c = CkLocked mode n"
    and keys: "\<forall>p. frame_cache (shared \<sigma>) p \<noteq> [] \<longrightarrow> p \<in> set keys"
  shows "\<exists>r s' c'. checkpoint_range (shared \<sigma>) c mode n keys = Inr (r, s', c') \<and>
    (case r of Inl _ \<Rightarrow> \<exists>s'' c''. checkpoint_failed s' c' = Inr (s'', c'') \<and> good (EvCkRange i keys) \<sigma> s'' (c''\<lparr>pc := Idle\<rparr>) (log \<sigma>) (db \<sigma>)
     | Inr _ \<Rightarrow> good (EvCkRange i keys) \<sigma> s' (c'\<lparr>pc := CkCopying mode\<rparr>) (log \<sigma>) (db \<sigma>))"
proof -
  let ?s = "shared \<sigma>" and ?cs = "conns \<sigma>"
  note c = wal_inv_conn [OF inv i(1), unfolded i(2)]
  have n: "n = nbackfills ?s" "c_checkpoint_guard c = Some (guard_for mode)" using c(2) pc by (simp_all add: pc_ok_def)
  have ck: "checkpoints c" "ckpt_guard c = Some (guard_for mode)" using n(2) by (simp_all add: checkpoints_def ckpt_guard_def)
  have l: "locks ?s (cnt in_vacuum ?cs) (cnt writes ?cs) (cnt checkpoints ?cs) (slot_readers ?cs) (slot_writers ?cs)" using wal_inv_parts(1) [OF inv] by (simp add: locks_inv_def)
  have mx: "max_frame ?s < 2 ^ 32" using wal_inv_parts(2) [OF inv] by (simp add: index_inv_def)
  obtain mf s1 where s1: "max_safe_loop ?s (max_frame ?s) [1..<5] = Inr (mf, s1)" "locks s1 (cnt in_vacuum ?cs) (cnt writes ?cs) (cnt checkpoints ?cs) (slot_readers ?cs) (slot_writers ?cs)"
      "wal_meta s1 = wal_meta ?s" "held_marks (slot_readers ?cs) ?s s1" "mf \<le> max_frame ?s" "\<forall>k \<in> {1..<5}. slot_readers ?cs k \<noteq> 0 \<longrightarrow> mf \<le> unat (read_mark_value ?s k)"
    using max_safe_loop_ok [OF l mx, of "[1..<5]"] by auto
  have d: "determine_max_safe_checkpoint_frame ?s (s_max_frame (load_snapshot ?s)) = Inr (mf, s1)" using s1(1) mx by (simp add: determine_max_safe_checkpoint_frame_def load_snapshot_def)
  have l1: "locks_inv s1 ?cs" using s1(2) by (simp add: locks_inv_def)
  show ?thesis
  proof (cases "case mode of Truncate (Some upper_bound) \<Rightarrow> mf > upper_bound | _ \<Rightarrow> False")
    case True
    have "\<exists>s'. release_guard s1 (ckpt_guard c) = Inr s' \<and> good (EvCkRange i keys) \<sigma> s' (c\<lparr>c_checkpoint_guard := None, pc := Idle\<rparr>) (log \<sigma>) (db \<sigma>)"
      by (rule step_release [OF inv i s1(3,4) l1]) (use pc c(2) in \<open>simp_all add: restarting_def in_vacuum_def slot_of_def ck_active_def pc_ok_def\<close>)
    then show ?thesis using True d n(2) ck(2) by (auto simp: checkpoint_range_def checkpoint_failed_def)
  next
    case False
    define hi where "hi = (case mode of Passive (Some upper_bound) \<Rightarrow> min mf upper_bound | _ \<Rightarrow> mf)"
    let ?rem = "sort_key snd (iter_latest_frames s1 keys (n + 1) hi)"
    let ?c = "c\<lparr>oc_max_frame := hi, oc_min_frame := n + 1, pages_to_checkpoint := ?rem, pc := CkCopying mode\<rparr>"
    have "hi \<le> mf" by (simp add: hi_def split: checkpoint_mode.split option.split)
    then have v: "visible ?s ?cs hi" using s1(5,6) by (intro safe_visible [OF inv i ck(1)]) auto
    have rem: "(p, f) \<in> set ?rem \<longleftrightarrow> range_frame ?s (n + 1) hi p = Some f" for p f
    proof -
      have "range_frame s1 (n + 1) hi p = range_frame ?s (n + 1) hi p" by (simp add: range_frame_def wal_meta_fields [OF s1(3)])
      moreover have "p \<in> set keys" if "range_frame ?s (n + 1) hi p = Some f" using rfind_Some [OF that [unfolded range_frame_def]] keys by (metis empty_iff list.set(1))
      ultimately show ?thesis unfolding latest_frames_mem by auto
    qed
    have "good (EvCkRange i keys) \<sigma> s1 ?c (log \<sigma>) (db \<sigma>)"
    proof (rule step_meta [OF inv i(1) s1(3,4)])
      show "locks_inv s1 (?cs[i := ?c])" by (rule locks_inv_same [OF l1 i(1)]) (use i pc n(2) in \<open>simp_all add: roles\<close>)
      have "conn_ok s1 c" using other_ok [OF c(1,2) _ keeps_meta [OF s1(3)] s1(4)] i wal_meta_fields [OF s1(3)] by auto
      then show "conn_ok s1 ?c" by (simp add: conn_ok_def)
      have "visible ?s (?cs[i := ?c]) hi" by (rule visible_update [OF v order_refl i(1)]) (simp add: reads_on_def i(2))
      then show "ck_range ?s (?cs[i := ?c]) (log \<sigma>) (db \<sigma>) r" if "ck_active ?c = Some r" for r
        using that rem by (auto simp: ck_active_def ck_range_def n(1) [symmetric])
      show "pc_ok ?s (log \<sigma>) ?c" using c(2) pc n(2) by (simp add: pc_ok_def)
    qed (use i pc in \<open>simp_all add: reads_on_def session_def\<close>)
    moreover have "checkpoint_range ?s c mode n keys = Inr (Inr (), s1, c\<lparr>oc_max_frame := hi, oc_min_frame := n + 1, pages_to_checkpoint := ?rem\<rparr>)"
      using d False by (simp add: checkpoint_range_def Let_def hi_def)
    ultimately show ?thesis by (intro exI conjI) auto
  qed
qed

section \<open>Copying a page\<close>

text \<open>Writing the latest frame of a range into the database file does not change what anyone reads at or beyond the range.\<close>

lemma image_copy:
  assumes "sorted_wrt (<) (frame_cache s p)" "range_frame s lo hi p = Some f" "hi \<le> n"
  shows "image s l (d(p := b)) n = image s l d n"
proof
  fix q
  have "f \<in> set (frame_cache s p) \<and> f \<le> n" using rfind_Some assms(2,3) by (fastforce simp: range_frame_def)
  then have "rfind (\<lambda>f. f \<le> n) (frame_cache s p) \<noteq> None" using rfind_None by metis
  then show "image s l (d(p := b)) n q = image s l d n q" by (auto simp: image_def split: option.split)
qed

lemma step_ck_copy:
  assumes inv: "wal_inv \<sigma>" and i: "i < length (conns \<sigma>)" "conns \<sigma> ! i = c" and pc: "pc c = CkCopying mode"
    and k: "k < length (pages_to_checkpoint c)" "pages_to_checkpoint c ! k = (p, f)"
  shows "good (EvCkCopy i k) \<sigma> (shared \<sigma>) (c\<lparr>pages_to_checkpoint := take k (pages_to_checkpoint c) @ drop (Suc k) (pages_to_checkpoint c)\<rparr>) (log \<sigma>)
    ((db \<sigma>)(p := frame_page (log \<sigma> f)))"
proof -
  let ?s = "shared \<sigma>" and ?cs = "conns \<sigma>" and ?d = "(db \<sigma>)(p := frame_page (log \<sigma> f))" and ?lo = "oc_min_frame c" and ?hi = "oc_max_frame c"
  let ?rem = "take k (pages_to_checkpoint c) @ drop (Suc k) (pages_to_checkpoint c)"
  let ?c = "c\<lparr>pages_to_checkpoint := ?rem\<rparr>"
  note c = wal_inv_conn [OF inv i(1), unfolded i(2)]
  have act: "ck_active c = Some (?lo, ?hi, pages_to_checkpoint c)" using pc by (simp add: ck_active_def)
  have ck: "checkpoints c" using active_checkpoints [OF c(2)] act by simp
  have r: "?lo = nbackfills ?s + 1" "visible ?s ?cs ?hi" "\<And>q g. range_frame ?s ?lo ?hi q = Some g \<Longrightarrow> (q, g) \<in> set (pages_to_checkpoint c) \<or> db \<sigma> q = frame_page (log \<sigma> g)"
    "\<And>q g. (q, g) \<in> set (pages_to_checkpoint c) \<Longrightarrow> range_frame ?s ?lo ?hi q = Some g" using c(3) [OF act] by (auto simp: ck_range_def)
  have pf: "range_frame ?s ?lo ?hi p = Some f" using r(4) [of p f] nth_mem [OF k(1)] k(2) by simp
  have srt: "sorted_wrt (<) (frame_cache ?s q)" for q using wal_inv_parts(2) [OF inv] by (simp add: index_inv_def)
  have f: "f \<in> set (frame_cache ?s p)" "?lo \<le> f" "f \<le> ?hi" using rfind_Some pf by (fastforce simp: range_frame_def)+
  have rem: "set (pages_to_checkpoint c) = insert (p, f) (set ?rem)" using id_take_nth_drop [OF k(1)] k(2) by (metis set_append list.simps(15) Un_insert_right)
  have im: "image ?s (log \<sigma>) ?d n = image ?s (log \<sigma>) (db \<sigma>) n" if "?hi \<le> n" for n by (rule image_copy [OF srt pf that])
  have vis: "visible ?s (?cs[i := ?c]) n" if "visible ?s ?cs n" for n by (rule visible_update [OF that order_refl i(1)]) (simp add: reads_on_def i(2))
  have vf: "visible ?s ?cs f" using r(2) f(3) by (auto simp: visible_def intro: order.trans)
  have dbi: "db_inv ?s (?cs[i := ?c]) (log \<sigma>) ?d"
    unfolding db_inv_def
  proof (intro allI impI)
    fix q
    assume q: "\<exists>f \<in> set (frame_cache ?s q). f \<le> nbackfills ?s"
    show "\<exists>f \<in> set (frame_cache ?s q). ?d q = frame_page (log \<sigma> f) \<and> visible ?s (?cs[i := ?c]) f \<and> (\<forall>g \<in> set (frame_cache ?s q). g \<le> nbackfills ?s \<longrightarrow> g \<le> f)"
    proof (cases "q = p")
      case True
      then show ?thesis using f vis [OF vf] r(1) by (intro bexI [of _ f]) auto
    next
      case False
      then show ?thesis using wal_inv_parts(3) [OF inv] q vis unfolding db_inv_def by (metis fun_upd_other)
    qed
  qed
  have "conns_inv ?s (?cs[i := ?c]) (log \<sigma>) ?d"
    unfolding conns_inv_def
  proof
    fix x
    assume "x \<in> set (?cs[i := ?c])"
    then obtain j where j: "j < length ?cs" "?cs[i := ?c] ! j = x" by (auto simp: in_set_conv_nth)
    show "conn_ok ?s x \<and> pc_ok ?s (log \<sigma>) x \<and> (\<forall>r. ck_active x = Some r \<longrightarrow> ck_range ?s (?cs[i := ?c]) (log \<sigma>) ?d r)"
    proof (cases "j = i")
      case True
      have "(q, g) \<in> set ?rem \<or> ?d q = frame_page (log \<sigma> g)" if "range_frame ?s ?lo ?hi q = Some g" for q g using r(3) [OF that] that pf rem by (cases "q = p") auto
      moreover have "range_frame ?s ?lo ?hi q = Some g" if "(q, g) \<in> set ?rem" for q g using r(4) [of q g] that rem by blast
      ultimately have "ck_range ?s (?cs[i := ?c]) (log \<sigma>) ?d (?lo, ?hi, ?rem)" using r(1) vis [OF r(2)] unfolding ck_range_def by blast
      moreover have "x = ?c" using True j i(1) by simp
      ultimately show ?thesis using c(1,2) pc by (auto simp: ck_active_def conn_ok_def pc_ok_def)
    next
      case False
      then have x: "x = ?cs ! j" using j by simp
      have "ck_active x = None" using active_checkpoints [OF wal_inv_conn(2) [OF inv j(1)]] only_checkpointer [OF inv i(1)] False j(1) i(2) ck x by blast
      then show ?thesis using wal_inv_conn(1,2) [OF inv j(1)] x by simp
    qed
  qed
  moreover have "locks_inv ?s (?cs[i := ?c])" by (rule locks_inv_same [OF wal_inv_parts(1) [OF inv] i(1)]) (use i pc c(2) in \<open>simp_all add: roles pc_ok_def\<close>)
  ultimately have w: "wal_inv \<lparr>shared = ?s, conns = ?cs[i := ?c], log = log \<sigma>, db = ?d\<rparr>" using inv dbi by (simp add: wal_inv_def)
  have "session ?s (log \<sigma>) ?d (?cs[i := ?c] ! j) = session ?s (log \<sigma>) (db \<sigma>) (?cs ! j)" if j: "j < length ?cs" for j
  proof -
    have "?hi \<le> c_max_frame (?cs ! j)" if "reading (?cs ! j)" using r(2) j that by (simp add: visible_def)
    then show ?thesis using i j im by (cases "j = i") (simp_all add: session_def)
  qed
  then have "sessions (iso_of \<lparr>shared = ?s, conns = ?cs[i := ?c], log = log \<sigma>, db = ?d\<rparr>) = sessions (iso_of \<sigma>)" by (auto simp: iso_of_def intro!: nth_equalityI)
  moreover have "?hi \<le> max_frame ?s" using r(2) by (simp add: visible_def)
  ultimately have "iso_step (EvCkCopy i k) (iso_of \<sigma>) (iso_of \<lparr>shared = ?s, conns = ?cs[i := ?c], log = log \<sigma>, db = ?d\<rparr>)"
    by (intro iso_step_stutter) (use im in \<open>simp_all add: iso_of_def\<close>)
  then show ?thesis using w by (simp add: good_def)
qed

section \<open>The result\<close>

lemma step_ck_restart:
  assumes inv: "wal_inv \<sigma>" and i: "i < length (conns \<sigma>)" "conns \<sigma> ! i = c" and pc: "pc c = CkCopying mode" "pages_to_checkpoint c = []" "should_restart_log mode" "max_frame (shared \<sigma>) = oc_max_frame c"
    and s': "restarted (shared \<sigma>) s'" "locks s' (cnt in_vacuum (conns \<sigma>)) (cnt writes (conns \<sigma>)) (cnt checkpoints (conns \<sigma>)) (slot_readers (conns \<sigma>)) (\<lambda>i. if i \<in> {1..<5} then 1 else slot_writers (conns \<sigma>) i)"
      "\<forall>k \<in> {1..<5}. slot_readers (conns \<sigma>) k = 0"
    and r: "everything_backfilled r" "maybe_guard r = None"
  shows "good (EvCkResult i rnd) \<sigma> s' ((apply_restart_snapshot snap c)\<lparr>pc := CkFinalize mode r\<rparr>) (log \<sigma>) (db \<sigma>)"
proof -
  let ?s = "shared \<sigma>" and ?cs = "conns \<sigma>" and ?c = "(apply_restart_snapshot snap c)\<lparr>pc := CkFinalize mode r\<rparr>"
  note c = wal_inv_conn [OF inv i(1), unfolded i(2)]
  have g: "c_checkpoint_guard c = Some Writer" using c(2) pc by (cases mode) (simp_all add: pc_ok_def guard_for_def)
  have nw: "\<not> c_write_lock_held c" using c(2) g by (auto simp: pc_ok_def)
  have ck: "checkpoints c" "writes c" using g by (simp_all add: roles)
  note n = checkpointer_counts [OF inv i ck(1)]
  have act: "ck_active c = Some (oc_min_frame c, oc_max_frame c, [])" using pc by (simp add: ck_active_def)
  have nr: "\<not> reading (?cs ! j)" if j: "j < length ?cs" for j
  proof
    assume "reading (?cs ! j)"
    then obtain k where k: "k < 5" "slot_of (?cs ! j) = Some k" using reading_slot [OF wal_inv_conn(1) [OF inv j]] by blast
    then have "slot_readers ?cs k \<noteq> 0" using j slot_readers_0 [of ?cs k] nth_mem by blast
    then show False using s'(3) n(2) k(1) by (cases "k = 0") auto
  qed
  show ?thesis
  proof (rule step_restart [OF inv i s'(1)])
    show "\<forall>j < length ?cs. j \<noteq> i \<longrightarrow> \<not> reading (?cs ! j) \<and> \<not> writes (?cs ! j) \<and> \<not> checkpoints (?cs ! j)"
      using nr only_writer [OF inv i(1)] only_checkpointer [OF inv i(1)] i(2) ck by blast
    show "image ?s (log \<sigma>) (db \<sigma>) (max_frame ?s) = db \<sigma>"
      by (rule backfilled_image [OF wal_inv_parts(3,2) [OF inv]]) (use c(3) [OF act] pc(4) in \<open>auto simp: ck_range_def\<close>)
    have X: "slot_writers (?cs[i := ?c]) k = (if k \<in> {1..<5} then 1 else slot_writers ?cs k)" if "k < 5" for k
      using that cnt_same [of i ?cs checkpoints ?c] cnt_add [of i ?cs restarting ?c] i n(3) pc g
      by (auto simp: slot_writers_def checkpoints_def ckpt_guard_def restarting_def apply_restart_snapshot_def)
    have "locks s' (cnt in_vacuum (?cs[i := ?c])) (cnt writes (?cs[i := ?c])) (cnt checkpoints (?cs[i := ?c])) (slot_readers (?cs[i := ?c])) (\<lambda>i. if i \<in> {1..<5} then 1 else slot_writers ?cs i)"
      using s'(2) i pc g by (simp add: cnt_same slot_readers_same roles apply_restart_snapshot_def cong: if_cong)
    then show "locks_inv s' (?cs[i := ?c])" unfolding locks_inv_def by (rule locks_cong) (simp add: X)
    show "conn_ok s' ?c" using c(1) nr [OF i(1)] i(2) nw by (simp add: conn_ok_def apply_restart_snapshot_def)
    show "pc_ok s' (log \<sigma>) ?c" using c(2) pc s'(1) r nw by (simp add: pc_ok_def restarted_def apply_restart_snapshot_def)
  qed (use nr [OF i(1)] i(2) pc in \<open>simp_all add: ck_active_def apply_restart_snapshot_def\<close>)
qed

lemma step_ck_result:
  assumes inv: "wal_inv \<sigma>" and i: "i < length (conns \<sigma>)" "conns \<sigma> ! i = c" and pc: "pc c = CkCopying mode" "pages_to_checkpoint c = []"
  shows "\<exists>r s' c'. determine_result (shared \<sigma>) c mode rnd = Inr (r, s', c') \<and>
    (case r of Inl _ \<Rightarrow> \<exists>s'' c''. checkpoint_failed s' c' = Inr (s'', c'') \<and> good (EvCkResult i rnd) \<sigma> s'' (c''\<lparr>pc := Idle\<rparr>) (log \<sigma>) (db \<sigma>)
     | Inr result \<Rightarrow> good (EvCkResult i rnd) \<sigma> s' (c'\<lparr>pc := CkFinalize mode result\<rparr>) (log \<sigma>) (db \<sigma>))"
proof -
  let ?s = "shared \<sigma>" and ?cs = "conns \<sigma>"
  note c = wal_inv_conn [OF inv i(1), unfolded i(2)]
  have g: "c_checkpoint_guard c = Some (guard_for mode)" using c(2) pc by (simp add: pc_ok_def)
  have ck: "checkpoints c" "ckpt_guard c = Some (guard_for mode)" using g by (simp_all add: checkpoints_def ckpt_guard_def)
  note n = checkpointer_counts [OF inv i ck(1)]
  have l: "locks ?s (cnt in_vacuum ?cs) (cnt writes ?cs) (cnt checkpoints ?cs) (slot_readers ?cs) (slot_writers ?cs)" using wal_inv_parts(1) [OF inv] by (simp add: locks_inv_def)
  define result where "result = checkpoint_result_new (s_max_frame (load_snapshot ?s)) (oc_max_frame c) (oc_max_frame c - (oc_min_frame c - 1))"
  note dr = determine_result_def [of ?s c mode rnd, unfolded Let_def, folded result_def]
  have failed: "\<exists>s''. checkpoint_failed s1 c = Inr (s'', c\<lparr>c_checkpoint_guard := None\<rparr>) \<and> good (EvCkResult i rnd) \<sigma> s'' (c\<lparr>c_checkpoint_guard := None, pc := Idle\<rparr>) (log \<sigma>) (db \<sigma>)"
    if h: "wal_meta s1 = wal_meta ?s" "held_marks (slot_readers ?cs) ?s s1" "locks_inv s1 ?cs" for s1
  proof -
    have "\<exists>s'. release_guard s1 (ckpt_guard c) = Inr s' \<and> good (EvCkResult i rnd) \<sigma> s' (c\<lparr>c_checkpoint_guard := None, pc := Idle\<rparr>) (log \<sigma>) (db \<sigma>)"
      by (rule step_release [OF inv i h]) (use pc c(2) in \<open>simp_all add: restarting_def in_vacuum_def slot_of_def ck_active_def pc_ok_def\<close>)
    then show ?thesis using g ck(2) by (auto simp: checkpoint_failed_def)
  qed
  consider "require_all_backfilled mode \<and> \<not> everything_backfilled result" | "\<not> (require_all_backfilled mode \<and> \<not> everything_backfilled result)" "should_restart_log mode"
    | "\<not> (require_all_backfilled mode \<and> \<not> everything_backfilled result)" "\<not> should_restart_log mode" by blast
  then show ?thesis
  proof cases
    case 1
    then show ?thesis using failed [OF refl held_marks_refl wal_inv_parts(1) [OF inv]] by (auto simp: dr)
  next
    case 2
    have gw: "c_checkpoint_guard c = Some Writer" "require_all_backfilled mode" using g 2(2) by (cases mode; simp add: guard_for_def)+
    have X: "slot_writers ?cs 0 = 1" "\<forall>k \<in> {1..<5}. slot_writers ?cs k = 0" using n pc by (simp_all add: slot_writers_def restarting_def)
    obtain r s1 where s1: "begin_restart ?s rnd = Inr (r, s1)"
      "if \<forall>k \<in> {1..<5}. slot_readers ?cs k = 0 then r = Inr (load_snapshot s1) \<and> locks s1 (cnt in_vacuum ?cs) (cnt writes ?cs) (cnt checkpoints ?cs) (slot_readers ?cs) (\<lambda>i. if i \<in> {1..<5} then 1 else slot_writers ?cs i) \<and> restarted ?s s1
       else r = Inl Busy \<and> locks s1 (cnt in_vacuum ?cs) (cnt writes ?cs) (cnt checkpoints ?cs) (slot_readers ?cs) (slot_writers ?cs) \<and> wal_meta s1 = wal_meta ?s \<and> held_marks (slot_readers ?cs) ?s s1"
      using begin_restart_ok [OF l X, of rnd] by blast
    show ?thesis
    proof (cases "\<forall>k \<in> {1..<5}. slot_readers ?cs k = 0")
      case True
      then have t: "r = Inr (load_snapshot s1)" "restarted ?s s1"
        "locks s1 (cnt in_vacuum ?cs) (cnt writes ?cs) (cnt checkpoints ?cs) (slot_readers ?cs) (\<lambda>i. if i \<in> {1..<5} then 1 else slot_writers ?cs i)" using s1(2) by simp_all
      have e: "everything_backfilled result" "maybe_guard result = None" "max_frame ?s = oc_max_frame c" using 2 gw(2) by (auto simp: result_def everything_backfilled_def checkpoint_result_new_def load_snapshot_def)
      have "good (EvCkResult i rnd) \<sigma> s1 ((apply_restart_snapshot (load_snapshot s1) c)\<lparr>pc := CkFinalize mode result\<rparr>) (log \<sigma>) (db \<sigma>)"
        by (rule step_ck_restart [OF inv i pc 2(2) e(3) t(2,3) True e(1,2)])
      moreover have "determine_result ?s c mode rnd = Inr (Inr result, s1, apply_restart_snapshot (load_snapshot s1) c)"
        using 2 gw s1(1) t(1) by (simp add: dr restart_log_def)
      ultimately show ?thesis by simp
    next
      case False
      then have t: "r = Inl Busy" "wal_meta s1 = wal_meta ?s" "held_marks (slot_readers ?cs) ?s s1" "locks_inv s1 ?cs" using s1(2) by (auto simp: locks_inv_def)
      have "determine_result ?s c mode rnd = Inr (Inl Busy, s1, c)" using 2 gw s1(1) t(1) by (simp add: dr restart_log_def)
      then show ?thesis using failed [OF t(2-4)] by auto
    qed
  next
    case 3
    let ?c = "c\<lparr>pc := CkFinalize mode result\<rparr>"
    have "good (EvCkResult i rnd) \<sigma> ?s ?c (log \<sigma>) (db \<sigma>)"
    proof (rule step_meta [OF inv i(1) refl held_marks_refl])
      show "locks_inv ?s (?cs[i := ?c])" by (rule locks_inv_same [OF wal_inv_parts(1) [OF inv] i(1)]) (use i pc 3(2) g in \<open>simp_all add: roles\<close>)
      show "ck_range ?s (?cs[i := ?c]) (log \<sigma>) (db \<sigma>) r" if "ck_active ?c = Some r" for r
      proof -
        have "ck_active c = Some r" using that 3(2) pc by (simp add: ck_active_def)
        then show ?thesis using ck_range_keeps [OF c(3) _ i(1)] keeps_meta [of ?s ?s] i(2) by (simp add: reads_on_def)
      qed
      show "pc_ok ?s (log \<sigma>) ?c" using c(2) pc 3(2) by (auto simp: pc_ok_def result_def checkpoint_result_new_def)
    qed (use i c(1) pc in \<open>simp_all add: reads_on_def session_def conn_ok_def\<close>)
    moreover have "determine_result ?s c mode rnd = Inr (Inr result, ?s, c)" using 3 by (simp add: dr)
    ultimately show ?thesis by simp
  qed
qed

lemma bump_epoch_meta:
  "wal_meta (bump_checkpoint_epoch s) = wal_meta s" "same_marks s (bump_checkpoint_epoch s)" "locks (bump_checkpoint_epoch s) V W C R X = locks s V W C R X"
  by (simp_all add: bump_checkpoint_epoch_def same_marks_def read_mark_value_def locks_def)

text \<open>The guard moves from the connection to the result.\<close>

lemma step_ck_hand_over:
  assumes inv: "wal_inv \<sigma>" and i: "i < length (conns \<sigma>)" "conns \<sigma> ! i = c" and pc: "pc c = CkFinalize mode r"
    and s': "wal_meta s' = wal_meta (shared \<sigma>)" "same_marks (shared \<sigma>) s'"
      "locks s' (cnt in_vacuum (conns \<sigma>)) (cnt writes (conns \<sigma>)) (cnt checkpoints (conns \<sigma>)) (slot_readers (conns \<sigma>)) (\<lambda>k. if k \<in> {1..<5} then 0 else slot_writers (conns \<sigma>) k)"
  shows "good (EvCkFinalize i) \<sigma> s' (c\<lparr>c_checkpoint_guard := None, pages_to_checkpoint := [], pc := CkDone mode (r\<lparr>maybe_guard := c_checkpoint_guard c\<rparr>)\<rparr>) (log \<sigma>) (db \<sigma>)"
proof -
  let ?s = "shared \<sigma>" and ?cs = "conns \<sigma>" and ?c = "c\<lparr>c_checkpoint_guard := None, pages_to_checkpoint := [], pc := CkDone mode (r\<lparr>maybe_guard := c_checkpoint_guard c\<rparr>)\<rparr>"
  note c = wal_inv_conn [OF inv i(1), unfolded i(2)]
  have g: "c_checkpoint_guard c = Some (guard_for mode)" using c(2) pc by (simp add: pc_ok_def)
  have ck: "checkpoints c" using g by (simp add: checkpoints_def ckpt_guard_def)
  note n = checkpointer_counts [OF inv i ck]
  show ?thesis
  proof (rule step_meta [OF inv i(1) s'(1) same_marks_held [OF s'(2)]])
    have "cnt restarting (?cs[i := ?c]) = 0"
      using n(3,4) i cnt_sub [of i ?cs restarting ?c] cnt_same [of i ?cs restarting ?c] by (cases "restarting c") (simp_all add: restarting_def [of ?c])
    moreover have "cnt checkpoints (?cs[i := ?c]) = cnt checkpoints ?cs" using i g by (intro cnt_same) (simp_all add: checkpoints_def ckpt_guard_def)
    ultimately have X: "slot_writers (?cs[i := ?c]) k = (if k \<in> {1..<5} then 0 else slot_writers ?cs k)" if "k < 5" for k using that by (simp add: slot_writers_def)
    have "locks s' (cnt in_vacuum (?cs[i := ?c])) (cnt writes (?cs[i := ?c])) (cnt checkpoints (?cs[i := ?c])) (slot_readers (?cs[i := ?c])) (\<lambda>k. if k \<in> {1..<5} then 0 else slot_writers ?cs k)"
      using s'(3) i pc g by (simp add: cnt_same slot_readers_same roles cong: if_cong)
    then show "locks_inv s' (?cs[i := ?c])" unfolding locks_inv_def by (rule locks_cong) (simp add: X)
    have "conn_ok s' c" using conn_ok_meta [OF s'(1), of c] c(1) s'(2) by (simp add: same_marks_def conn_ok_def)
    then show "conn_ok s' ?c" by (simp add: conn_ok_def)
    show "pc_ok ?s (log \<sigma>) ?c" using c(2) pc by (auto simp: pc_ok_def)
    show "ck_range ?s (?cs[i := ?c]) (log \<sigma>) (db \<sigma>) x" if "ck_active ?c = Some x" for x
    proof -
      have h: "\<not> should_restart_log mode" "wal_checkpoint_backfilled r \<noteq> 0" "x = (wal_total_backfilled r - wal_checkpoint_backfilled r + 1, wal_total_backfilled r, [])"
        using that by (simp_all add: ck_active_def split: if_splits)
      then have act: "ck_active c = Some (oc_min_frame c, oc_max_frame c, [])" using pc by (simp add: ck_active_def)
      have "oc_min_frame c = nbackfills ?s + 1" using c(3) [OF act] by (simp add: ck_range_def)
      moreover have "wal_total_backfilled r = oc_max_frame c" "wal_checkpoint_backfilled r = oc_max_frame c - (oc_min_frame c - 1)" using c(2) pc h(1) by (simp_all add: pc_ok_def)
      ultimately have "x = (oc_min_frame c, oc_max_frame c, [])" using h(2,3) by simp
      then show ?thesis using ck_range_keeps [OF c(3) [OF act] keeps_meta [OF refl] i(1), of ?c] i(2) by (simp add: reads_on_def)
    qed
  qed (use i pc in \<open>simp_all add: reads_on_def session_def\<close>)
qed

lemma step_ck_finalize:
  assumes inv: "wal_inv \<sigma>" and i: "i < length (conns \<sigma>)" "conns \<sigma> ! i = c" and pc: "pc c = CkFinalize mode r"
  shows "\<exists>r' s' c'. checkpoint_finalize (shared \<sigma>) c mode r = Inr (r', s', c') \<and> good (EvCkFinalize i) \<sigma> s' (c'\<lparr>pc := CkDone mode r'\<rparr>) (log \<sigma>) (db \<sigma>)"
proof -
  let ?s = "shared \<sigma>" and ?cs = "conns \<sigma>"
  note c = wal_inv_conn [OF inv i(1), unfolded i(2)]
  have g: "c_checkpoint_guard c = Some (guard_for mode)" using c(2) pc by (simp add: pc_ok_def)
  have ck: "checkpoints c" "ckpt_guard c = c_checkpoint_guard c" using g by (simp_all add: checkpoints_def ckpt_guard_def)
  note n = checkpointer_counts [OF inv i ck(1)]
  have l: "locks ?s (cnt in_vacuum ?cs) (cnt writes ?cs) (cnt checkpoints ?cs) (slot_readers ?cs) (slot_writers ?cs)" using wal_inv_parts(1) [OF inv] by (simp add: locks_inv_def)
  show ?thesis
  proof (cases "should_restart_log mode")
    case True
    then have X: "\<forall>k \<in> {1..<5}. slot_writers ?cs k = 1" using n(4) pc by (simp add: slot_writers_def restarting_def)
    obtain s1 where s1: "end_restart ?s = Inr s1" "locks s1 (cnt in_vacuum ?cs) (cnt writes ?cs) (cnt checkpoints ?cs) (slot_readers ?cs) (\<lambda>k. if k \<in> {1..<5} then 0 else slot_writers ?cs k)"
      "wal_meta s1 = wal_meta ?s" "same_marks ?s s1" using end_restart_ok [OF l X] by blast
    have "everything_backfilled r" using c(2) pc True by (simp add: pc_ok_def)
    moreover have "good (EvCkFinalize i) \<sigma> (bump_checkpoint_epoch s1) (c\<lparr>c_checkpoint_guard := None, pages_to_checkpoint := [], pc := CkDone mode (r\<lparr>maybe_guard := c_checkpoint_guard c\<rparr>)\<rparr>) (log \<sigma>) (db \<sigma>)"
      by (rule step_ck_hand_over [OF inv i pc]) (use s1(2,3) same_marks_trans [OF s1(4) bump_epoch_meta(2)] in \<open>simp_all add: bump_epoch_meta\<close>)
    ultimately show ?thesis using True s1(1) by (simp add: checkpoint_finalize_def Let_def)
  next
    case False
    let ?s1 = "bump_checkpoint_epoch ?s"
    have X: "(\<lambda>k. if k \<in> {1..<5} then 0 else slot_writers ?cs k) k = slot_writers ?cs k" for k using n(3) pc False by (simp add: slot_writers_def restarting_def)
    show ?thesis
    proof (cases "everything_backfilled r \<or> wal_checkpoint_backfilled r > 0")
      case True
      have "good (EvCkFinalize i) \<sigma> ?s1 (c\<lparr>c_checkpoint_guard := None, pages_to_checkpoint := [], pc := CkDone mode (r\<lparr>maybe_guard := c_checkpoint_guard c\<rparr>)\<rparr>) (log \<sigma>) (db \<sigma>)"
        by (rule step_ck_hand_over [OF inv i pc]) (use locks_cong [OF l X [symmetric]] in \<open>simp_all only: bump_epoch_meta\<close>)
      then show ?thesis using True False by (auto simp: checkpoint_finalize_def Let_def)
    next
      case f: False
      have r: "maybe_guard r = None" using c(2) pc by (simp add: pc_ok_def)
      have "\<exists>s'. release_guard ?s1 (ckpt_guard c) = Inr s' \<and> good (EvCkFinalize i) \<sigma> s' (c\<lparr>c_checkpoint_guard := None, pages_to_checkpoint := [], pc := CkDone mode r\<rparr>) (log \<sigma>) (db \<sigma>)"
        by (rule step_release [OF inv i bump_epoch_meta(1) same_marks_held [OF bump_epoch_meta(2)]])
          (use pc c(2) False f r l in \<open>simp_all add: restarting_def in_vacuum_def slot_of_def ck_active_def pc_ok_def locks_inv_def bump_epoch_meta\<close>)
      then show ?thesis using f False ck(2) by (auto simp: checkpoint_finalize_def checkpoint_failed_def Let_def)
    qed
  qed
qed

section \<open>After the copy\<close>

lemma db_inv_publish:
  assumes inv: "db_inv s cs l d" "index_inv s" and r: "ck_range s cs l d (nbackfills s + 1, hi, [])" and h: "nbackfills s \<le> hi"
  shows "db_inv (s\<lparr>nbackfills := hi\<rparr>) cs l d"
  unfolding db_inv_def
proof (intro allI impI)
  fix p
  assume "\<exists>f \<in> set (frame_cache (s\<lparr>nbackfills := hi\<rparr>) p). f \<le> nbackfills (s\<lparr>nbackfills := hi\<rparr>)"
  then obtain g where g: "g \<in> set (frame_cache s p)" "g \<le> hi" by auto
  have srt: "sorted_wrt (<) (frame_cache s p)" using inv(2) by (simp add: index_inv_def)
  have vis: "visible (s\<lparr>nbackfills := hi\<rparr>) cs n = visible s cs n" for n by (simp add: visible_def)
  have "\<exists>f \<in> set (frame_cache s p). d p = frame_page (l f) \<and> visible s cs f \<and> (\<forall>g \<in> set (frame_cache s p). g \<le> hi \<longrightarrow> g \<le> f)"
  proof (cases "range_frame s (nbackfills s + 1) hi p")
    case (Some f)
    then have f: "f \<in> set (frame_cache s p)" "nbackfills s + 1 \<le> f" "f \<le> hi" "\<forall>g \<in> set (frame_cache s p). nbackfills s + 1 \<le> g \<and> g \<le> hi \<longrightarrow> g \<le> f"
      using rfind_sorted [OF srt] by (auto simp: range_frame_def)
    have "d p = frame_page (l f)" "visible s cs f" using r Some f(3) by (auto simp: ck_range_def visible_def intro: order.trans)
    moreover have "\<forall>g \<in> set (frame_cache s p). g \<le> hi \<longrightarrow> g \<le> f" using f(2,4) by (metis Suc_eq_plus1 not_less_eq_eq nle_le order_trans)
    ultimately show ?thesis using f(1) by blast
  next
    case None
    then have b: "\<forall>g \<in> set (frame_cache s p). g \<le> hi \<longrightarrow> g \<le> nbackfills s" using rfind_None [of _ "frame_cache s p"] by (auto simp: range_frame_def not_less_eq_eq)
    then have "\<exists>f \<in> set (frame_cache s p). f \<le> nbackfills s" using g by blast
    then show ?thesis using inv(1) b unfolding db_inv_def by meson
  qed
  then show "\<exists>f \<in> set (frame_cache (s\<lparr>nbackfills := hi\<rparr>) p). d p = frame_page (l f) \<and> visible (s\<lparr>nbackfills := hi\<rparr>) cs f \<and>
      (\<forall>g \<in> set (frame_cache (s\<lparr>nbackfills := hi\<rparr>) p). g \<le> nbackfills (s\<lparr>nbackfills := hi\<rparr>) \<longrightarrow> g \<le> f)" by (simp add: vis)
qed

lemma step_ck_publish:
  assumes inv: "wal_inv \<sigma>" and i: "i < length (conns \<sigma>)" "conns \<sigma> ! i = c" and pc: "pc c = CkDone mode r" "wal_checkpoint_backfilled r \<noteq> 0" "\<not> should_restart_log mode"
  shows "\<exists>s'. wal_publish_backfill (shared \<sigma>) (wal_total_backfilled r) = Inr s' \<and> good (EvCkPublish i) \<sigma> s' (c\<lparr>pc := CkPublished mode r\<rparr>) (log \<sigma>) (db \<sigma>)"
proof -
  let ?s = "shared \<sigma>" and ?cs = "conns \<sigma>" and ?c = "c\<lparr>pc := CkPublished mode r\<rparr>" and ?hi = "wal_total_backfilled r"
  let ?s' = "?s\<lparr>nbackfills := ?hi\<rparr>"
  note c = wal_inv_conn [OF inv i(1), unfolded i(2)]
  have act: "ck_active c = Some (?hi - wal_checkpoint_backfilled r + 1, ?hi, [])" using pc by (simp add: ck_active_def)
  have ck: "checkpoints c" using active_checkpoints [OF c(2)] act by simp
  have rg: "?hi - wal_checkpoint_backfilled r + 1 = nbackfills ?s + 1" "visible ?s ?cs ?hi" using c(3) [OF act] by (simp_all add: ck_range_def)
  then have h: "nbackfills ?s \<le> ?hi" "?hi \<le> max_frame ?s" by (simp_all add: visible_def)
  have r': "ck_range ?s (?cs[i := ?c]) (log \<sigma>) (db \<sigma>) (nbackfills ?s + 1, ?hi, [])"
    using ck_range_keeps [OF c(3) [OF act] keeps_meta [OF refl] i(1), of ?c] i(2) rg(1) by (simp add: reads_on_def)
  have "db_inv ?s (?cs[i := ?c]) (log \<sigma>) (db \<sigma>)"
    using db_inv_keeps [OF wal_inv_parts(3) [OF inv] _ keeps_meta [OF refl] i(1), of ?c] wal_inv_parts(2) [OF inv] i(2) by (simp add: reads_on_def index_inv_def)
  then have dbi: "db_inv ?s' (?cs[i := ?c]) (log \<sigma>) (db \<sigma>)" by (rule db_inv_publish [OF _ wal_inv_parts(2) [OF inv] r' h(1)])
  have mono: "conn_ok ?s' x" if "conn_ok ?s x" for x using that h(1) by (auto simp: conn_ok_def read_mark_value_def)
  have "conns_inv ?s' (?cs[i := ?c]) (log \<sigma>) (db \<sigma>)"
    unfolding conns_inv_def
  proof
    fix x
    assume "x \<in> set (?cs[i := ?c])"
    then obtain j where j: "j < length ?cs" "?cs[i := ?c] ! j = x" by (auto simp: in_set_conv_nth)
    show "conn_ok ?s' x \<and> pc_ok ?s' (log \<sigma>) x \<and> (\<forall>r. ck_active x = Some r \<longrightarrow> ck_range ?s' (?cs[i := ?c]) (log \<sigma>) (db \<sigma>) r)"
    proof (cases "j = i")
      case True
      then have "x = ?c" using j i(1) by simp
      moreover have "conn_ok ?s ?c" using c(1) by (simp add: conn_ok_def)
      ultimately show ?thesis using mono [of ?c] c(2) pc by (simp add: pc_ok_def ck_active_def)
    next
      case False
      then have x: "x = ?cs ! j" using j by simp
      note o = wal_inv_conn(1,2) [OF inv j(1), folded x]
      have nc: "\<not> checkpoints x" using only_checkpointer [OF inv i(1)] False j(1) i(2) ck x by blast
      have "ck_active x = None" using active_checkpoints [OF o(2)] nc by blast
      moreover have "pc_ok ?s' (log \<sigma>) x" using o(2) locked_checkpoints [OF o(2)] nc by (cases "pc x") (auto simp: pc_ok_def)
      ultimately show ?thesis using mono [OF o(1)] by simp
    qed
  qed
  moreover have "locks_inv ?s (?cs[i := ?c])" by (rule locks_inv_same [OF wal_inv_parts(1) [OF inv] i(1)]) (use i pc c(2) in \<open>simp_all add: roles pc_ok_def\<close>)
  ultimately have w: "wal_inv \<lparr>shared = ?s', conns = ?cs[i := ?c], log = log \<sigma>, db = db \<sigma>\<rparr>"
    using inv dbi h(2) by (simp add: wal_inv_def index_inv_def locks_inv_def locks_def)
  have im: "image ?s' (log \<sigma>) (db \<sigma>) k = image ?s (log \<sigma>) (db \<sigma>) k" for k using image_cong [of ?s' ?s] by simp
  have "session ?s' (log \<sigma>) (db \<sigma>) (?cs[i := ?c] ! j) = session ?s (log \<sigma>) (db \<sigma>) (?cs ! j)" if j: "j < length ?cs" for j
    using i j pc by (cases "j = i") (simp_all add: session_def im)
  then have "sessions (iso_of \<lparr>shared = ?s', conns = ?cs[i := ?c], log = log \<sigma>, db = db \<sigma>\<rparr>) = sessions (iso_of \<sigma>)" by (auto simp: iso_of_def intro!: nth_equalityI)
  then have "iso_step (EvCkPublish i) (iso_of \<sigma>) (iso_of \<lparr>shared = ?s', conns = ?cs[i := ?c], log = log \<sigma>, db = db \<sigma>\<rparr>)"
    by (rule iso_step_stutter) (use im in \<open>simp_all add: iso_of_def\<close>)
  then have "good (EvCkPublish i) \<sigma> ?s' ?c (log \<sigma>) (db \<sigma>)" using w by (simp add: good_def)
  moreover have "wal_publish_backfill ?s ?hi = Inr ?s'" using h by (simp add: wal_publish_backfill_def load_snapshot_def publish_backfill_def)
  ultimately show ?thesis by blast
qed

lemma step_ck_truncate:
  assumes inv: "wal_inv \<sigma>" and i: "i < length (conns \<sigma>)" "conns \<sigma> ! i = c" and pc: "pc c = CkDone (Truncate b) r"
  shows "good (EvCkTruncate i) \<sigma> (prepare_truncate (shared \<sigma>)) c (log \<sigma>) (db \<sigma>)"
proof -
  let ?s = "shared \<sigma>" and ?s' = "prepare_truncate (shared \<sigma>)"
  note c = wal_inv_conn [OF inv i(1), unfolded i(2)]
  have p: "max_frame ?s = 0" "maybe_guard r = Some Writer" "\<not> c_write_lock_held c" using c(2) pc by (auto simp: pc_ok_def guard_for_def)
  have wr: "writes c" using p(2) c(2) pc by (simp add: roles pc_ok_def)
  have upd: "(conns \<sigma>)[i := c] = conns \<sigma>" using i by auto
  have k: "keeps ?s (log \<sigma>) ?s' (log \<sigma>)" by (simp add: keeps_def prepare_truncate_def)
  have im: "session ?s' (log \<sigma>) (db \<sigma>) c = session ?s (log \<sigma>) (db \<sigma>) c" using image_cong [of ?s' ?s] by (simp add: session_def prepare_truncate_def)
  show ?thesis unfolding good_def Let_def event_conn.simps
  proof (rule step_keeps [OF inv i(1) _ k])
    show "quiet ?s (log \<sigma>) ?s' (log \<sigma>) i (conns \<sigma>)" using only_writer [OF inv i(1)] i(2) wr by (simp add: quiet_def)
    show "locks_inv ?s' ((conns \<sigma>)[i := c])" using wal_inv_parts(1) [OF inv] upd by (simp add: locks_inv_def locks_def prepare_truncate_def)
    show "index_inv ?s'" using wal_inv_parts(2) [OF inv] p(1) by (simp add: index_inv_def prepare_truncate_def)
    show "conn_ok ?s' c" using c(1) p(3) by (auto simp: conn_ok_def prepare_truncate_def read_mark_value_def)
    show "ck_range ?s' ((conns \<sigma>)[i := c]) (log \<sigma>) (db \<sigma>) x" if "ck_active c = Some x" for x using that pc by (simp add: ck_active_def)
    show "pc_ok ?s' (log \<sigma>) c" using c(2) pc by (simp add: pc_ok_def prepare_truncate_def)
  qed (use i im in \<open>simp_all add: reads_on_def held_marks_def prepare_truncate_def read_mark_value_def\<close>)
qed

lemma step_ck_finish:
  assumes inv: "wal_inv \<sigma>" and i: "i < length (conns \<sigma>)" "conns \<sigma> ! i = c" and pc: "pc c = CkDone mode r \<or> pc c = CkPublished mode r"
  shows "\<exists>s'. release_guard (shared \<sigma>) (result_guard (pc c)) = Inr s' \<and> good (EvCkFinish i) \<sigma> s' (c\<lparr>pc := Idle\<rparr>) (log \<sigma>) (db \<sigma>)"
proof -
  note c = wal_inv_conn [OF inv i(1), unfolded i(2)]
  have g: "c_checkpoint_guard c = None" "ckpt_guard c = result_guard (pc c)" using c(2) pc by (auto simp: pc_ok_def ckpt_guard_def)
  have "\<exists>s'. release_guard (shared \<sigma>) (ckpt_guard c) = Inr s' \<and> good (EvCkFinish i) \<sigma> s' (c\<lparr>pc := Idle\<rparr>) (log \<sigma>) (db \<sigma>)"
    by (rule step_release [OF inv i refl held_marks_refl wal_inv_parts(1) [OF inv]])
      (use pc c(2) g in \<open>auto simp: restarting_def in_vacuum_def slot_of_def ck_active_def pc_ok_def\<close>)
  then show ?thesis unfolding g(2) .
qed

lemma step_ck_abort:
  assumes inv: "wal_inv \<sigma>" and i: "i < length (conns \<sigma>)" "conns \<sigma> ! i = c"
    and pc: "case pc c of CkLoaded _ _ \<Rightarrow> True | CkLocked _ _ \<Rightarrow> True | CkCopying _ \<Rightarrow> True | CkDone _ _ \<Rightarrow> True | CkPublished _ _ \<Rightarrow> True | _ \<Rightarrow> False"
  shows "\<exists>s'. rbind (release_guard (shared \<sigma>) (result_guard (pc c))) (\<lambda>s. rbind (checkpoint_failed s c) (\<lambda>(s, c). Inr (s, wal_reset_internal_states c))) =
      Inr (s', wal_reset_internal_states (c\<lparr>c_checkpoint_guard := None\<rparr>)) \<and>
    good (EvCkAbort i) \<sigma> s' ((wal_reset_internal_states (c\<lparr>c_checkpoint_guard := None\<rparr>))\<lparr>pc := Idle\<rparr>) (log \<sigma>) (db \<sigma>)"
proof -
  let ?c = "(wal_reset_internal_states (c\<lparr>c_checkpoint_guard := None\<rparr>))\<lparr>pc := Idle\<rparr>"
  note c = wal_inv_conn [OF inv i(1), unfolded i(2)]
  have "\<exists>s'. release_guard (shared \<sigma>) (ckpt_guard c) = Inr s' \<and> good (EvCkAbort i) \<sigma> s' ?c (log \<sigma>) (db \<sigma>)"
    by (rule step_release [OF inv i refl held_marks_refl wal_inv_parts(1) [OF inv]])
      (use pc c(2) in \<open>auto simp: restarting_def in_vacuum_def slot_of_def ck_active_def pc_ok_def wal_reset_internal_states_def split: conn_pc.splits\<close>)
  then obtain s' where s': "release_guard (shared \<sigma>) (ckpt_guard c) = Inr s'" "good (EvCkAbort i) \<sigma> s' ?c (log \<sigma>) (db \<sigma>)" by blast
  have "result_guard (pc c) = None \<or> c_checkpoint_guard c = None" using c(2) by (cases "pc c") (auto simp: pc_ok_def)
  then have "rbind (release_guard (shared \<sigma>) (result_guard (pc c))) (\<lambda>s. release_guard s (c_checkpoint_guard c)) = Inr s'"
    using s'(1) by (auto simp: ckpt_guard_def release_guard_def split: option.splits)
  then show ?thesis using s'(2) by (cases "release_guard (shared \<sigma>) (result_guard (pc c))") (auto simp: checkpoint_failed_def)
qed

end
