(* ===== verification/Wal_Protocol.thy ===== *)
theory Wal_Protocol
  imports Wal_Checkpoint
begin

text \<open>
  The protocol as a whole: every event of every connection keeps the invariant, never panics and is a step of the
  machine of snapshot isolation; a reader's pages are those of its snapshot until it ends its transaction.
\<close>

section \<open>One step\<close>

definition good_result :: "wal_event \<Rightarrow> wal_sys \<Rightarrow> (wal_sys \<times> wal_conn) res \<Rightarrow> bool" where
  "good_result ev \<sigma> r \<longleftrightarrow> (\<exists>\<sigma>' c'. r = Inr (\<sigma>', c') \<and> good ev \<sigma> (shared \<sigma>') c' (log \<sigma>') (db \<sigma>'))"

lemma good_resultI: "good ev \<sigma> (shared \<sigma>') c' (log \<sigma>') (db \<sigma>') \<Longrightarrow> good_result ev \<sigma> (Inr (\<sigma>', c'))"
  by (auto simp: good_result_def)

lemma step_read_good:
  assumes inv: "wal_inv \<sigma>" and i: "event_conn ev < length (conns \<sigma>)" "conns \<sigma> ! event_conn ev = c" and a: "admissible ev \<sigma>" and r: "step_read ev \<sigma> c = Some r"
  shows "good_result ev \<sigma> r"
proof (cases ev)
  case (EvBeginRead i)
  then have pc: "pc c = Idle" "c_read_guard c = NoGuard" using r a i by (auto simp: step_read_def admissible_def Let_def split: conn_pc.splits)
  then show ?thesis using step_begin_read [OF inv _ _ pc, of i] i EvBeginRead r by (auto simp: step_read_def good_result_def)
next
  case (EvClaimRead i)
  then obtain snap where pc: "pc c = BeginRead snap" using r by (auto simp: step_read_def Let_def split: conn_pc.splits)
  then show ?thesis using step_claim_read [OF inv _ _ pc, of i] i EvClaimRead r by (auto simp: step_read_def good_result_def)
next
  case (EvCheckRead i)
  then obtain snap b where pc: "pc c = LockedRead snap b" using r by (auto simp: step_read_def Let_def split: conn_pc.splits)
  then show ?thesis using step_check_read [OF inv _ _ pc, of i] i EvCheckRead r by (auto simp: step_read_def good_result_def)
next
  case (EvLockRead i)
  then obtain snap b where pc: "pc c = ClaimedRead snap b" using r by (auto simp: step_read_def Let_def split: conn_pc.splits)
  then show ?thesis using step_lock_read [OF inv _ _ pc, of i] i EvLockRead r by (auto simp: step_read_def good_result_def)
next
  case (EvEndRead i)
  then have pc: "pc c = Idle" "\<not> c_write_lock_held c" using r a i by (auto simp: step_read_def admissible_def Let_def split: conn_pc.splits)
  then show ?thesis using step_end_read [OF inv _ _ pc, of i] i EvEndRead r by (auto simp: step_read_def good_result_def)
qed (use r in \<open>simp_all add: step_read_def\<close>)

lemma step_write_good:
  assumes inv: "wal_inv \<sigma>" and i: "event_conn ev < length (conns \<sigma>)" "conns \<sigma> ! event_conn ev = c" and a: "admissible ev \<sigma>" and r: "step_write big ev \<sigma> c = Some r"
  shows "good_result ev \<sigma> r"
proof (cases ev)
  case (EvBeginWrite i)
  then have pc: "pc c = Idle" "reading c" "\<not> c_write_lock_held c" using r a i by (auto simp: step_write_def admissible_def Let_def split: conn_pc.splits)
  then show ?thesis using step_begin_write [OF inv _ _ pc, of i] i EvBeginWrite r by (auto simp: step_write_def good_result_def)
next
  case (EvRestart i al rnd)
  then have pc: "pc c = BeginWrite" using r by (auto simp: step_write_def Let_def split: conn_pc.splits)
  then show ?thesis using step_restart_write [OF inv _ _ pc, of i al rnd] i EvRestart r by (auto simp: step_write_def good_result_def)
next
  case (EvPrepareWal i ps r1 r2)
  then have pc: "pc c = Idle" "c_write_lock_held c" using r a i by (auto simp: step_write_def admissible_def Let_def split: conn_pc.splits)
  then show ?thesis using step_prepare_wal [OF inv _ _ pc, of i big ps r1 r2] i EvPrepareWal r by (auto simp: step_write_def good_result_def)
next
  case (EvPrepare i pages ps dbs)
  have e: "c_write_lock_held c" "pages \<noteq> []" "length pages \<le> IOV_MAX" "initialized (shared \<sigma>)"
    "unat (wal_page_size (header (shared \<sigma>))) = ps" "\<forall>x \<in> set pages. length (snd x) = ps \<and> ps mod 8 = 0"
    using a i unfolding EvPrepare admissible_def Let_def by auto
  have p: "pc c = Idle \<or> prepared_batches (pc c) \<noteq> []"
    using r unfolding EvPrepare step_write_def Let_def prod.case wal_event.case by (auto split: if_splits)
  have "r = rbind (prepare_frames big (shared \<sigma>) c pages ps dbs (if prepared_batches (pc c) = [] then None else Some (last (prepared_batches (pc c))))) (\<lambda>(b, c').
             Inr (\<sigma>\<lparr>log := write_log b (log \<sigma>)\<rparr>, c'\<lparr>pc := Prepared (prepared_batches (pc c) @ [b])\<rparr>))"
    using r p unfolding EvPrepare step_write_def Let_def prod.case wal_event.case by (auto split: if_splits)
  then show ?thesis using step_prepare [OF inv _ _ p e refl, of i big dbs] i EvPrepare by (auto simp: good_result_def)
next
  case (EvAppend i)
  then obtain bs where pc: "pc c = Prepared bs" using r by (auto simp: step_write_def Let_def split: conn_pc.splits)
  obtain s' c' where f: "commit_prepared_frames bs (shared \<sigma>, c) = (s', c')" by force
  show ?thesis using step_append [OF inv _ _ pc f, of i] i EvAppend pc f r by (auto simp: step_write_def good_result_def)
next
  case (EvCommit i)
  then have pc: "pc c = Idle" "c_write_lock_held c" using r a i by (auto simp: step_write_def admissible_def Let_def split: conn_pc.splits)
  obtain s' c' where f: "finish_append_frames_commit (shared \<sigma>) c = (s', c')" by force
  have "c_max_frame c < 2 ^ 32" using a EvCommit i by (simp add: admissible_def)
  then show ?thesis using step_commit [OF inv _ _ pc _ f, of i] i EvCommit pc f r by (auto simp: step_write_def good_result_def)
next
  case (EvRollback i)
  then have pc: "pc c = Idle \<or> prepared_batches (pc c) \<noteq> []" "c_write_lock_held c" using r a i by (auto simp: step_write_def admissible_def Let_def split: if_splits)
  then show ?thesis using step_rollback [OF inv _ _ pc, of i] i EvRollback r by (auto simp: step_write_def Let_def good_result_def)
next
  case (EvEndWrite i)
  then have pc: "pc c = Idle" "c_write_lock_held c" "c_max_frame c = max_frame (shared \<sigma>)" using r a i by (auto simp: step_write_def admissible_def Let_def split: conn_pc.splits)
  then show ?thesis using step_end_write [OF inv _ _ pc, of i] i EvEndWrite r by (auto simp: step_write_def good_result_def)
qed (use r in \<open>simp_all add: step_write_def\<close>)

lemma to_idle_good:
  "good ev \<sigma> s' (c'\<lparr>pc := Idle\<rparr>) (log \<sigma>) (db \<sigma>) \<Longrightarrow> good_result ev \<sigma> (to_idle \<sigma> (Inr (s', c')))"
  by (auto simp: to_idle_def good_result_def)

lemma step_checkpoint_wal_good:
  assumes inv: "wal_inv \<sigma>" and i: "event_conn ev < length (conns \<sigma>)" "conns \<sigma> ! event_conn ev = c" and a: "admissible ev \<sigma>" and r: "step_checkpoint_wal ev \<sigma> c = Some r"
  shows "good_result ev \<sigma> r"
proof (cases ev)
  case (EvCkLoad i mode)
  then have pc: "pc c = Idle" using r by (auto simp: step_checkpoint_wal_def Let_def split: conn_pc.splits)
  then show ?thesis using step_ck_load [OF inv _ _ pc, of i mode] i EvCkLoad r by (auto simp: step_checkpoint_wal_def good_result_def)
next
  case (EvCkLock i)
  then obtain mode n where pc: "pc c = CkLoaded mode n" using r by (auto simp: step_checkpoint_wal_def Let_def split: conn_pc.splits)
  have n: "n = nbackfills (shared \<sigma>)" using a EvCkLock i pc by (simp add: admissible_def)
  obtain x s' c' where x: "acquire_proper_checkpoint_guard (shared \<sigma>) c mode = Inr (x, s', c')"
    "case x of Inl _ \<Rightarrow> \<exists>s'' c''. checkpoint_failed s' c' = Inr (s'', c'') \<and> good ev \<sigma> s'' (c''\<lparr>pc := Idle\<rparr>) (log \<sigma>) (db \<sigma>)
     | Inr _ \<Rightarrow> good ev \<sigma> s' (c'\<lparr>pc := CkLocked mode n\<rparr>) (log \<sigma>) (db \<sigma>)" using step_ck_lock [OF inv _ _ pc n, of i] i EvCkLock by auto
  then show ?thesis using r EvCkLock pc by (cases x) (auto simp: step_checkpoint_wal_def to_idle_good intro!: good_resultI)
next
  case (EvCkRange i keys)
  then obtain mode n where pc: "pc c = CkLocked mode n" using r by (auto simp: step_checkpoint_wal_def Let_def split: conn_pc.splits)
  have k: "\<forall>p. frame_cache (shared \<sigma>) p \<noteq> [] \<longrightarrow> p \<in> set keys" using a EvCkRange by (simp add: admissible_def)
  obtain x s' c' where x: "checkpoint_range (shared \<sigma>) c mode n keys = Inr (x, s', c')"
    "case x of Inl _ \<Rightarrow> \<exists>s'' c''. checkpoint_failed s' c' = Inr (s'', c'') \<and> good ev \<sigma> s'' (c''\<lparr>pc := Idle\<rparr>) (log \<sigma>) (db \<sigma>)
     | Inr _ \<Rightarrow> good ev \<sigma> s' (c'\<lparr>pc := CkCopying mode\<rparr>) (log \<sigma>) (db \<sigma>)" using step_ck_range [OF inv _ _ pc k, of i] i EvCkRange by auto
  then show ?thesis using r EvCkRange pc by (cases x) (auto simp: step_checkpoint_wal_def to_idle_good intro!: good_resultI)
next
  case (EvCkCopy i k)
  then obtain mode where pc: "pc c = CkCopying mode" using r by (auto simp: step_checkpoint_wal_def Let_def split: conn_pc.splits)
  obtain p f where pf: "pages_to_checkpoint c ! k = (p, f)" by force
  have k: "k < length (pages_to_checkpoint c)" using r EvCkCopy pc by (auto simp: step_checkpoint_wal_def Let_def split: if_splits)
  show ?thesis using step_ck_copy [OF inv _ _ pc k pf, of i] i EvCkCopy r pc k pf by (auto simp: step_checkpoint_wal_def Let_def good_result_def)
next
  case (EvCkResult i rnd)
  then obtain mode where pc: "pc c = CkCopying mode" "pages_to_checkpoint c = []" using r by (auto simp: step_checkpoint_wal_def Let_def split: conn_pc.splits if_splits)
  obtain x s' c' where x: "determine_result (shared \<sigma>) c mode rnd = Inr (x, s', c')"
    "case x of Inl _ \<Rightarrow> \<exists>s'' c''. checkpoint_failed s' c' = Inr (s'', c'') \<and> good ev \<sigma> s'' (c''\<lparr>pc := Idle\<rparr>) (log \<sigma>) (db \<sigma>)
     | Inr result \<Rightarrow> good ev \<sigma> s' (c'\<lparr>pc := CkFinalize mode result\<rparr>) (log \<sigma>) (db \<sigma>)" using step_ck_result [OF inv _ _ pc, of i rnd] i EvCkResult by auto
  then show ?thesis using r EvCkResult pc by (cases x) (auto simp: step_checkpoint_wal_def to_idle_good intro!: good_resultI)
next
  case (EvCkFinalize i)
  then obtain mode x where pc: "pc c = CkFinalize mode x" using r by (auto simp: step_checkpoint_wal_def Let_def split: conn_pc.splits)
  show ?thesis using step_ck_finalize [OF inv _ _ pc, of i] i EvCkFinalize r pc by (auto simp: step_checkpoint_wal_def good_result_def)
qed (use r in \<open>simp_all add: step_checkpoint_wal_def\<close>)

lemma step_checkpoint_pager_good:
  assumes inv: "wal_inv \<sigma>" and i: "event_conn ev < length (conns \<sigma>)" "conns \<sigma> ! event_conn ev = c" and r: "step_checkpoint_pager ev \<sigma> c = Some r"
  shows "good_result ev \<sigma> r"
proof (cases ev)
  case (EvCkPublish i)
  then obtain mode x where pc: "pc c = CkDone mode x" "wal_checkpoint_backfilled x \<noteq> 0" "\<not> should_restart_log mode"
    using r by (auto simp: step_checkpoint_pager_def Let_def split: conn_pc.splits if_splits)
  show ?thesis using step_ck_publish [OF inv _ _ pc, of i] i EvCkPublish r pc by (auto simp: step_checkpoint_pager_def good_result_def)
next
  case (EvCkTruncate i)
  then obtain b x where pc: "pc c = CkDone (Truncate b) x" using r by (auto simp: step_checkpoint_pager_def Let_def split: conn_pc.splits checkpoint_mode.splits)
  show ?thesis using step_ck_truncate [OF inv _ _ pc, of i] i EvCkTruncate r pc by (auto simp: step_checkpoint_pager_def good_result_def)
next
  case (EvCkFinish i)
  then obtain mode x where pc: "pc c = CkDone mode x \<or> pc c = CkPublished mode x" using r by (auto simp: step_checkpoint_pager_def Let_def split: conn_pc.splits if_splits)
  show ?thesis using step_ck_finish [OF inv _ _ pc, of i] i EvCkFinish r pc by (auto simp: step_checkpoint_pager_def to_idle_def good_result_def)
next
  case (EvCkAbort i)
  then have pc: "case pc c of CkLoaded _ _ \<Rightarrow> True | CkLocked _ _ \<Rightarrow> True | CkCopying _ \<Rightarrow> True | CkDone _ _ \<Rightarrow> True | CkPublished _ _ \<Rightarrow> True | _ \<Rightarrow> False"
    using r by (auto simp: step_checkpoint_pager_def Let_def split: if_splits)
  have "r = to_idle \<sigma> (rbind (release_guard (shared \<sigma>) (result_guard (pc c))) (\<lambda>s. rbind (checkpoint_failed s c) (\<lambda>(s, c). Inr (s, wal_reset_internal_states c))))"
    using r pc EvCkAbort by (simp add: step_checkpoint_pager_def Let_def)
  then show ?thesis using step_ck_abort [OF inv _ _ pc, of i] i EvCkAbort by (auto simp: to_idle_def good_result_def)
qed (use r in \<open>simp_all add: step_checkpoint_pager_def\<close>)

lemma wal_step_good:
  assumes inv: "wal_inv \<sigma>" and a: "admissible ev \<sigma>" and r: "wal_step big ev \<sigma> = Some r"
  shows "\<exists>\<sigma>'. r = Inr \<sigma>' \<and> wal_inv \<sigma>' \<and> iso_step ev (iso_of \<sigma>) (iso_of \<sigma>')"
proof -
  let ?c = "conns \<sigma> ! event_conn ev"
  have i: "event_conn ev < length (conns \<sigma>)" using r by (auto simp: wal_step_def Let_def split: if_splits)
  obtain r' where r': "conn_step big ev \<sigma> ?c = Some r'" "r = rbind r' (\<lambda>(\<sigma>', c). Inr (\<sigma>'\<lparr>conns := (conns \<sigma>)[event_conn ev := c]\<rparr>))"
    using r i by (auto simp: wal_step_def Let_def)
  have "good_result ev \<sigma> r'"
    using r'(1) step_read_good [OF inv i refl a] step_write_good [OF inv i refl a] step_checkpoint_wal_good [OF inv i refl a] step_checkpoint_pager_good [OF inv i refl] by (auto simp: conn_step_def split: option.splits)
  then obtain \<sigma>' c' where g: "r' = Inr (\<sigma>', c')" "good ev \<sigma> (shared \<sigma>') c' (log \<sigma>') (db \<sigma>')" by (auto simp: good_result_def)
  have eq: "\<sigma>'\<lparr>conns := (conns \<sigma>)[event_conn ev := c']\<rparr> = \<lparr>shared = shared \<sigma>', conns = (conns \<sigma>)[event_conn ev := c'], log = log \<sigma>', db = db \<sigma>'\<rparr>" by (cases \<sigma>') simp
  show ?thesis using g(2) r'(2) unfolding g(1) good_def Let_def eq [symmetric] by simp
qed

section \<open>Reading\<close>

text \<open>The page a connection reads is the page of its snapshot, from the log or from the database file.\<close>

lemma read_page_image:
  assumes inv: "wal_inv \<sigma>" and i: "i < length (conns \<sigma>)" "reading (conns \<sigma> ! i)"
  shows "read_page \<sigma> i p = Inr (image (shared \<sigma>) (log \<sigma>) (db \<sigma>) (c_max_frame (conns \<sigma> ! i)) p)"
proof -
  let ?s = "shared \<sigma>" and ?c = "conns \<sigma> ! i" and ?fs = "frame_cache (shared \<sigma>) p"
  let ?P = "\<lambda>f. c_min_frame ?c \<le> f \<and> f \<le> c_max_frame ?c"
  have srt: "sorted_wrt (<) ?fs" using wal_inv_parts(2) [OF inv] by (simp add: index_inv_def)
  have mn: "c_min_frame ?c \<le> nbackfills ?s + 1" using wal_inv_conn(1) [OF inv i(1)] i(2) by (simp add: conn_ok_def)
  have "(case rfind ?P ?fs of Some f \<Rightarrow> frame_page (log \<sigma> f) | None \<Rightarrow> db \<sigma> p) = image ?s (log \<sigma>) (db \<sigma>) (c_max_frame ?c) p"
  proof (cases "rfind (\<lambda>f. f \<le> c_max_frame ?c) ?fs")
    case None
    then have "rfind ?P ?fs = None" unfolding rfind_None by blast
    then show ?thesis using None by (simp add: image_def)
  next
    case (Some f)
    then have f: "f \<in> set ?fs" "f \<le> c_max_frame ?c" "\<forall>g \<in> set ?fs. g \<le> c_max_frame ?c \<longrightarrow> g \<le> f" using rfind_sorted [OF srt] by auto
    show ?thesis
    proof (cases "c_min_frame ?c \<le> f")
      case True
      then have "rfind ?P ?fs = Some f" using f by (simp add: rfind_sorted [OF srt])
      then show ?thesis using Some by (simp add: image_def)
    next
      case False
      then have fn: "f \<le> nbackfills ?s" using mn by simp
      have "rfind ?P ?fs = None" using False f(3) unfolding rfind_None by fastforce
      moreover obtain g where g: "g \<in> set ?fs" "db \<sigma> p = frame_page (log \<sigma> g)" "visible ?s (conns \<sigma>) g" "\<forall>h \<in> set ?fs. h \<le> nbackfills ?s \<longrightarrow> h \<le> g"
        using wal_inv_parts(3) [OF inv] f(1) fn unfolding db_inv_def by blast
      moreover have "g = f"
      proof (rule antisym)
        show "g \<le> f" using g(1,3) f(3) i by (simp add: visible_def)
        show "f \<le> g" using g(4) f(1) fn by blast
      qed
      ultimately show ?thesis using Some by (simp add: image_def)
    qed
  qed
  moreover have "rfind ?P ?fs = None" if "c_max_frame ?c < c_min_frame ?c" using that unfolding rfind_None by auto
  ultimately show ?thesis by (auto simp: read_page_def find_frame_def coordination_find_frame_def)
qed

end
