(* ===== verification/Wal_Recovery.thy ===== *)
theory Wal_Recovery
  imports Wal_Format
begin

text \<open>
  Recovery of the write-ahead log: from any prefix of a written log, that is after a crash at any byte, the
  scan of \<open>Wal_Format\<close> rebuilds the index of exactly the frames up to the last commit frame that the prefix
  holds, whatever the size of the chunks it reads.
\<close>

section \<open>A written log\<close>

text \<open>The frames of a log as \<^verbatim>\<open>prepare_frames\<close> chains them: each with the checksum it leaves.\<close>

type_synonym wal_entry = "u32 \<times> u32 \<times> bytes"

primrec log_frames :: "bool \<Rightarrow> wal_header \<Rightarrow> usize \<Rightarrow> u32 \<times> u32 \<Rightarrow> wal_entry list \<Rightarrow> ((u32 \<times> u32) \<times> bytes) list res" where
  "log_frames big h ps ck [] = Inr []"
| "log_frames big h ps ck (e # es) =
     (case e of (page_no, db_size, page) \<Rightarrow>
       rbind (prepare_wal_frame big h ck ps page_no db_size page) (\<lambda>f.
       rbind (log_frames big h ps (fst f) es) (\<lambda>fs. Inr (f # fs))))"

definition frames_of :: "nat \<Rightarrow> wal_entry list \<Rightarrow> nat list" where
  "frames_of p es = map Suc (filter (\<lambda>i. unat (fst (es ! i)) = p) [0..<length es])"

fun last_commit_from :: "nat \<Rightarrow> nat \<Rightarrow> wal_entry list \<Rightarrow> nat" where
  "last_commit_from best i [] = best"
| "last_commit_from best i ((_, db_size, _) # es) = last_commit_from (if 0 < db_size then Suc i else best) (Suc i) es"

definition last_commit :: "wal_entry list \<Rightarrow> nat" where
  "last_commit es = last_commit_from 0 0 es"

lemma last_commit_from_snoc:
  "last_commit_from best i (es @ [(p, d, b)]) = (if 0 < d then Suc (i + length es) else last_commit_from best i es)"
  by (induction best i es rule: last_commit_from.induct) auto

lemma last_commit_simps [simp]:
  "last_commit [] = 0" "last_commit (es @ [(p, d, b)]) = (if 0 < d then Suc (length es) else last_commit es)"
  by (simp_all add: last_commit_def last_commit_from_snoc)

lemma last_commit_le: "last_commit es \<le> length es"
  by (induction es rule: rev_induct) auto

lemma frames_of_snoc:
  "frames_of p (es @ [e]) = frames_of p es @ (if unat (fst e) = p then [Suc (length es)] else [])"
  by (auto simp: frames_of_def nth_append intro!:  filter_cong arg_cong [where f = "map Suc"])

lemma prepare_wal_frame_Inr:
  assumes "prepare_wal_frame big h ck ps pno db page = Inr (ck', fb)"
  shows "length fb = WAL_FRAME_HEADER_SIZE + ps" "drop 24 fb = page"
    "u32_at fb 0 = pno" "u32_at fb 4 = db" "u32_at fb 8 = salt_1 h" "u32_at fb 12 = salt_2 h" "u32_at fb 16 = fst ck'" "u32_at fb 20 = snd ck'"
    "rbind (checksum_wal big (take 8 fb) ck (use_native big h)) (\<lambda>seed. checksum_wal big page seed (use_native big h)) = Inr ck'"
proof -
  have fb: "fb = be_bytes 4 pno @ be_bytes 4 db @ be_bytes 4 (salt_1 h) @ be_bytes 4 (salt_2 h) @ be_bytes 4 (fst ck') @ be_bytes 4 (snd ck') @ page"
    and len: "length page = ps"
    and ck: "rbind (checksum_wal big (be_bytes 4 pno @ be_bytes 4 db) ck (use_native big h)) (\<lambda>seed. checksum_wal big page seed (use_native big h)) = Inr ck'"
    using assms by (auto simp: prepare_wal_frame_def Let_def rbind_eq_Inr_iff split: if_splits)
  show "length fb = WAL_FRAME_HEADER_SIZE + ps" "drop 24 fb = page" using fb len by (simp_all add: WAL_FRAME_HEADER_SIZE_def)
  show "rbind (checksum_wal big (take 8 fb) ck (use_native big h)) (\<lambda>seed. checksum_wal big page seed (use_native big h)) = Inr ck'"
    using ck fb by simp
  show "u32_at fb 0 = pno" "u32_at fb 4 = db" "u32_at fb 8 = salt_1 h" "u32_at fb 12 = salt_2 h" "u32_at fb 16 = fst ck'" "u32_at fb 20 = snd ck'"
    unfolding fb u32_at_def slice_def by simp_all
qed

lemma u32_at_take: "i + 4 \<le> n \<Longrightarrow> u32_at (take n b) i = u32_at b i"
  by (simp add: u32_at_def slice_def drop_take min_def)

text \<open>The state of the scan after \<open>n\<close> frames of a log.\<close>

definition checksum_at :: "u32 \<times> u32 \<Rightarrow> ((u32 \<times> u32) \<times> bytes) list \<Rightarrow> nat \<Rightarrow> u32 \<times> u32" where
  "checksum_at ck fs n = (if n = 0 then ck else fst (fs ! (n - 1)))"

definition indexed :: "wal_header \<Rightarrow> u32 \<times> u32 \<Rightarrow> ((u32 \<times> u32) \<times> bytes) list \<Rightarrow> wal_entry list \<Rightarrow> nat \<Rightarrow> wal_index \<Rightarrow> bool" where
  "indexed h ck fs es c wfs \<longleftrightarrow> header wfs = h \<and> max_frame wfs = c \<and> frame_cache_high_water wfs = c \<and> nbackfills wfs = 0 \<and> transaction_count wfs = 0 \<and>
     (\<forall>p. frame_cache wfs p = frames_of p (take c es))"

definition scanned :: "bool \<Rightarrow> wal_header \<Rightarrow> usize \<Rightarrow> u32 \<times> u32 \<Rightarrow> ((u32 \<times> u32) \<times> bytes) list \<Rightarrow> wal_entry list \<Rightarrow> nat \<Rightarrow> streaming_state \<Rightarrow> wal_index \<Rightarrow> bool" where
  "scanned big h ps ck fs es n st wfs \<longleftrightarrow>
     (let c = last_commit (take n es) in
      frame_idx st = Suc n \<and> cumulative_checksum st = checksum_at ck fs n \<and> last_valid_checksum st = checksum_at ck fs c \<and> last_valid_frame st = c \<and>
      pending_frames st = map (\<lambda>i. (unat (fst (es ! i)), Suc i)) [c..<n] \<and> st_page_size st = ps \<and> use_native_endian st = use_native big h \<and> header_valid st \<and>
      indexed h ck fs es c wfs)"

lemma log_frames_nth:
  assumes "log_frames big h ps ck es = Inr fs" "n < length es"
  shows "prepare_wal_frame big h (checksum_at ck fs n) ps (fst (es ! n)) (fst (snd (es ! n))) (snd (snd (es ! n))) = Inr (fs ! n)"
  using assms
proof (induction es arbitrary: ck fs n)
  case (Cons e es)
  then obtain f fs' where f: "prepare_wal_frame big h ck ps (fst e) (fst (snd e)) (snd (snd e)) = Inr f" "log_frames big h ps (fst f) es = Inr fs'" "fs = f # fs'"
    by (auto simp: rbind_eq_Inr_iff split: prod.splits)
  show ?case
  proof (cases n)
    case (Suc m)
    then have "checksum_at ck fs n = checksum_at (fst f) fs' m" using f(3) by (cases m) (simp_all add: checksum_at_def)
    then show ?thesis using Cons.IH [OF f(2), of m] Cons.prems(2) Suc f(3) by simp
  qed (use f in \<open>simp add: checksum_at_def\<close>)
qed simp

lemma log_frames_length: "log_frames big h ps ck es = Inr fs \<Longrightarrow> length fs = length es"
  by (induction es arbitrary: ck fs) (auto simp: rbind_eq_Inr_iff split: prod.splits)

lemma frames_of_split:
  assumes "c \<le> m" "m \<le> length es"
  shows "frames_of p (take m es) = frames_of p (take c es) @ map Suc (filter (\<lambda>i. unat (fst (es ! i)) = p) [c..<m])"
proof -
  have f: "frames_of p (take k es) = map Suc (filter (\<lambda>i. unat (fst (es ! i)) = p) [0..<k])" if "k \<le> length es" for k
    using that by (simp add: frames_of_def) (rule filter_cong, auto)
  have "[0..<m] = [0..<c] @ [c..<m]" using assms(1) by (metis le0 le_add_diff_inverse upt_add_eq_append)
  then show ?thesis using f [of m] f [of c] assms by simp
qed

lemma pending_frames_of:
  "map snd (filter (\<lambda>x. fst x = p) (map (\<lambda>i. (unat (fst (es ! i)), Suc i)) is)) = map Suc (filter (\<lambda>i. unat (fst (es ! i)) = p) is)"
  by (induction "is") auto

lemma process_frame_step:
  assumes log: "log_frames big h ps ck es = Inr fs" "n < length es" "fst (es ! n) \<noteq> 0" and sc: "scanned big h ps ck fs es n st wfs"
    and fb: "fb = snd (fs ! n)"
  shows "\<exists>st' wfs'. process_frame big h (take 24 fb) (drop 24 fb) st wfs = Inr (Some (st', wfs')) \<and> scanned big h ps ck fs es (Suc n) st' wfs'"
proof -
  obtain pno db page where e: "es ! n = (pno, db, page)" using prod_cases3 by blast
  obtain ck' where ck': "fs ! n = (ck', fb)" using fb by (cases "fs ! n") simp
  have p: "prepare_wal_frame big h (cumulative_checksum st) ps pno db page = Inr (ck', fb)"
    using log_frames_nth [OF log(1,2)] sc e ck' by (simp add: scanned_def Let_def)
  note pf = prepare_wal_frame_Inr [OF p]
  have tk: "take (Suc n) es = take n es @ [(pno, db, page)]" using log(2) e by (simp add: take_Suc_conv_app_nth)
  have nx: "checksum_at ck fs (Suc n) = ck'" using ck' by (simp add: checksum_at_def)
  define c where "c = last_commit (take n es)"
  have c: "c \<le> n" using last_commit_le [of "take n es"] log(2) by (simp add: c_def)
  have st: "frame_idx st = Suc n" "last_valid_frame st = c" "last_valid_checksum st = checksum_at ck fs c" "pending_frames st = map (\<lambda>i. (unat (fst (es ! i)), Suc i)) [c..<n]"
    "st_page_size st = ps" "use_native_endian st = use_native big h" "header_valid st" "indexed h ck fs es c wfs"
    using sc by (simp_all add: scanned_def Let_def c_def)
  have pend: "pending_frames st @ [(unat pno, Suc n)] = map (\<lambda>i. (unat (fst (es ! i)), Suc i)) [c..<Suc n]" using st(4) c e by simp
  let ?st = "st\<lparr>cumulative_checksum := ck', pending_frames := pending_frames st @ [(unat pno, Suc n)]\<rparr>"
  have run: "process_frame big h (take 24 fb) (drop 24 fb) st wfs = Inr (Some (
      let (st, wfs) = (if db > 0 then flush_pending_frames (?st\<lparr>last_valid_frame := Suc n, last_valid_checksum := ck'\<rparr>) wfs else (?st, wfs))
      in (st\<lparr>frame_idx := frame_idx st + 1\<rparr>, wfs)))"
    using pf log(3) e st(1,6) by (cases ck') (auto simp: process_frame_def u32_at_take Let_def rbind_eq_Inr_iff min_def split: prod.splits)
  show ?thesis
  proof (cases "0 < db")
    case False
    then show ?thesis using run st pend nx tk c_def by (simp add: scanned_def Let_def)
  next
    case True
    have fc: "frame_cache wfs p @ filter (\<lambda>f. f \<le> Suc n) (map snd (filter (\<lambda>x. fst x = p) (map (\<lambda>i. (unat (fst (es ! i)), Suc i)) [c..<Suc n]))) = frames_of p (take (Suc n) es)" for p
    proof -
      have "filter (\<lambda>f. f \<le> Suc n) (map Suc (filter (\<lambda>i. unat (fst (es ! i)) = p) [c..<Suc n])) = map Suc (filter (\<lambda>i. unat (fst (es ! i)) = p) [c..<Suc n])"
        by (rule filter_True) auto
      then show ?thesis using frames_of_split [of c "Suc n" es p] c log(2) st(8) unfolding pending_frames_of by (simp add: indexed_def)
    qed
    have ne: "map (\<lambda>i. (unat (fst (es ! i)), Suc i)) [c..<Suc n] \<noteq> []" using c by simp
    have cs: "checksum_at ck fs (Suc n) = ck'" using nx .
    have mx: "max c (Suc n) = Suc n" using c by simp
    have hw: "frame_cache_high_water wfs = c" using st(8) by (simp add: indexed_def)
    have lc: "last_commit (take (Suc n) es) = Suc n" using True tk log(2) by simp
    let ?wfs = "wfs\<lparr>frame_cache := (\<lambda>p. frames_of p (take (Suc n) es)), max_frame := Suc n, frame_cache_high_water := Suc n\<rparr>"
    have "process_frame big h (take 24 fb) (drop 24 fb) st wfs = Inr (Some (st\<lparr>cumulative_checksum := ck', last_valid_frame := Suc n,
        last_valid_checksum := ck', pending_frames := [], frame_idx := Suc (Suc n)\<rparr>, ?wfs))"
      using True st(1) ne hw unfolding run pend by (simp add: flush_pending_frames_def fc mx del: upt_Suc)
    then show ?thesis using st(1,5-8) unfolding scanned_def lc by (simp add: indexed_def cs)
  qed
qed

text \<open>A run of whole frames followed by less than a frame, or by a frame boundary.\<close>

lemma frame_lengths: "log_frames big h ps ck es = Inr fs \<Longrightarrow> n < length es \<Longrightarrow> length (snd (fs ! n)) = WAL_FRAME_HEADER_SIZE + ps"
  using log_frames_nth [of big h ps ck es fs n] prepare_wal_frame_Inr(1) by (metis prod.collapse)

lemma process_frames_run:
  assumes log: "log_frames big h ps ck es = Inr fs" "\<forall>e \<in> set es. fst e \<noteq> 0" and m: "n + m \<le> length es"
    and sc: "scanned big h ps ck fs es n st wfs"
    and buf: "drop pos buf = concat (map snd (take m (drop n fs))) @ rest" "length rest < WAL_FRAME_HEADER_SIZE + ps"
  shows "\<exists>st' wfs'. process_frames big h buf pos st wfs = Inr (pos + m * (WAL_FRAME_HEADER_SIZE + ps), st', wfs') \<and> scanned big h ps ck fs es (n + m) st' wfs'"
  using m sc buf(1)
proof (induction m arbitrary: n pos st wfs)
  case 0
  have "st_page_size st = ps" using 0 by (simp add: scanned_def Let_def)
  moreover have "length buf - pos = length rest" using arg_cong [OF 0(3), of length] by simp
  ultimately show ?case using 0 buf(2) by (subst process_frames.simps) (auto simp: Let_def)
next
  case (Suc m)
  let ?F = "WAL_FRAME_HEADER_SIZE + ps"
  have n: "n < length es" "n < length fs" using Suc.prems(1) log_frames_length [OF log(1)] by auto
  have ps: "st_page_size st = ps" using Suc.prems(2) by (simp add: scanned_def Let_def)
  have fb: "length (snd (fs ! n)) = ?F" by (rule frame_lengths [OF log(1) n(1)])
  have "drop n fs = fs ! n # drop (Suc n) fs" using n(2) by (rule Cons_nth_drop_Suc [symmetric])
  then have d: "drop pos buf = snd (fs ! n) @ concat (map snd (take m (drop (Suc n) fs))) @ rest" using Suc.prems(3) by simp
  have le: "pos + ?F \<le> length buf" using arg_cong [OF d, of length] fb WAL_FRAME_HEADER_SIZE_def by simp
  have dd: "drop (pos + k) buf = drop k (drop pos buf)" for k by (simp add: add.commute)
  have "slice buf pos (pos + WAL_FRAME_HEADER_SIZE) = take 24 (snd (fs ! n))" "slice buf (pos + WAL_FRAME_HEADER_SIZE) (pos + ?F) = drop 24 (snd (fs ! n))"
    unfolding slice_def dd d using fb by (simp_all add: WAL_FRAME_HEADER_SIZE_def)
  moreover obtain st' wfs' where st': "process_frame big h (take 24 (snd (fs ! n))) (drop 24 (snd (fs ! n))) st wfs = Inr (Some (st', wfs'))"
      "scanned big h ps ck fs es (Suc n) st' wfs'"
    using process_frame_step [OF log(1) n(1) _ Suc.prems(2) refl] log(2) n(1) by auto
  moreover have "drop (pos + ?F) buf = concat (map snd (take m (drop (Suc n) fs))) @ rest" unfolding dd d using fb by simp
  ultimately show ?case using Suc.IH [of "Suc n" st' wfs' "pos + ?F"] Suc.prems(1) le ps
    by (subst process_frames.simps) (auto simp: Let_def add_ac)
qed

lemma concat_blocks:
  assumes "\<forall>b \<in> set bs. length b = k" "m \<le> length bs"
  shows "take (m * k) (concat bs) = concat (take m bs)" "drop (m * k) (concat bs) = concat (drop m bs)" "length (concat bs) = length bs * k"
  using assms
proof (induction bs arbitrary: m)
  case (Cons b bs)
  { case 1 then show ?case using Cons.IH(1) [of "m - 1"] by (cases m) auto }
  { case 2 then show ?case using Cons.IH(2) [of "m - 1"] by (cases m) auto }
  { case 3 then show ?case using Cons.IH(3) by (metis add.commute concat.simps(2) le0 length_Cons length_append list.set_intros mult_Suc) }
qed auto

text \<open>The chunk loop on a log cut off after \<open>N\<close> whole frames and a part of the next.\<close>

definition recovered :: "wal_header \<Rightarrow> u32 \<times> u32 \<Rightarrow> ((u32 \<times> u32) \<times> bytes) list \<Rightarrow> wal_entry list \<Rightarrow> nat \<Rightarrow> wal_index \<Rightarrow> bool" where
  "recovered h ck fs es N wfs \<longleftrightarrow>
     (let c = last_commit (take N es) in
      header wfs = h \<and> initialized wfs \<and> max_frame wfs = c \<and> nbackfills wfs = 0 \<and> last_checksum wfs = checksum_at ck fs c \<and>
      frame_cache_high_water wfs = c \<and> (\<forall>p. frame_cache wfs p = frames_of p (take c es)))"

lemma finalize_scanned:
  assumes "scanned big h ps ck fs es N st wfs"
  shows "recovered h ck fs es N (finalize_loading st wfs)"
proof -
  have "filter (\<lambda>f. f \<le> c) (frames_of p (take c es)) = frames_of p (take c es)" for p c
    by (rule filter_True) (auto simp: frames_of_def)
  then show ?thesis using assms by (auto simp: scanned_def indexed_def recovered_def finalize_loading_def Let_def)
qed

lemma block_lengths: "log_frames big h ps ck es = Inr fs \<Longrightarrow> \<forall>b \<in> set (map snd fs). length b = WAL_FRAME_HEADER_SIZE + ps"
  using frame_lengths [of big h ps ck es fs] log_frames_length [of big h ps ck es fs] by (metis (no_types) in_set_conv_nth length_map nth_map)

lemma concat_sub_blocks:
  assumes "\<forall>b \<in> set bs. length b = k" "n + m \<le> length bs"
  shows "take (m * k) (drop (n * k) (concat bs)) = concat (take m (drop n bs))" "length (concat (take m (drop n bs))) = m * k"
proof -
  have d: "\<forall>b \<in> set (drop n bs). length b = k" "\<forall>b \<in> set (take m (drop n bs)). length b = k" using assms(1) by (auto dest: in_set_dropD in_set_takeD)
  show "take (m * k) (drop (n * k) (concat bs)) = concat (take m (drop n bs))"
    using concat_blocks(2) [OF assms(1), of n] concat_blocks(1) [OF d(1), of m] assms(2) by simp
  show "length (concat (take m (drop n bs))) = m * k" using concat_blocks(3) [OF d(2), of 0] assms(2) by (simp add: min_absorb2)
qed

text \<open>A chunk of such a file holds whole frames, and part of a frame only at the end of the file.\<close>

lemma chunk_of:
  assumes bs: "\<forall>b \<in> set bs. length b = F" "length bs = n + j" "0 < F"
    and cut: "file = hb @ concat bs @ rest" "off = length hb + n * F" "length rest < F"
    and rs: "rs = min (a * F) (length file - off)" "0 < a" and more: "off < length file"
  shows "\<exists>m rest'. slice file off (off + rs) = concat (take m (drop n bs)) @ rest' \<and> length rest' < F \<and> m \<le> j \<and> rs = m * F + length rest' \<and>
    (off + m * F < length file \<longrightarrow> rest' = [] \<longrightarrow> 0 < m) \<and> (rest' \<noteq> [] \<or> off + m * F \<ge> length file \<longrightarrow> m = j)"
proof -
  have L: "length (concat bs) = (n + j) * F" using concat_blocks(3) [OF bs(1), of 0] bs(2) by simp
  have lf: "length file - off = j * F + length rest" "off \<le> length file" using cut L by (auto simp: algebra_simps)
  have d: "drop off file = drop (n * F) (concat bs) @ rest" using cut L by (simp add: algebra_simps)
  show ?thesis
  proof (cases "a * F \<le> j * F + length rest")
    case True
    have "a \<le> j"
    proof (rule ccontr)
      assume "\<not> a \<le> j"
      then have "(j + 1) * F \<le> a * F" by (intro mult_le_mono) auto
      then show False using True cut(3) by simp
    qed
    then have "slice file off (off + rs) = concat (take a (drop n bs))"
      using concat_sub_blocks [OF bs(1), of n a] bs(2) True lf rs(1) L d mult_le_mono1 [of a j F] by (simp add: slice_def min_def algebra_simps)
    moreover have "a = j" if "off + a * F \<ge> length file"
    proof -
      have "j * F + length rest \<le> a * F" using that lf by linarith
      then have "j * F \<le> a * F" by linarith
      then show ?thesis using \<open>a \<le> j\<close> bs(3) by simp
    qed
    ultimately show ?thesis using \<open>a \<le> j\<close> True lf rs by (intro exI [of _ a] exI [of _ "[]"]) (auto simp: min_def bs(3))
  next
    case False
    then have "rs = j * F + length rest" using rs(1) lf by simp
    moreover have "slice file off (off + rs) = concat (take j (drop n bs)) @ rest"
      using concat_blocks(2) [OF bs(1), of n] concat_sub_blocks(2) [OF bs(1), of n j] bs(2) d calculation by (simp add: slice_def)
    ultimately show ?thesis using cut(3) lf more by (intro exI [of _ j] exI [of _ rest]) auto
  qed
qed

lemma finalize_twice: "finalize_loading st (finalize_loading st wfs) = finalize_loading st wfs"
  by (simp add: finalize_loading_def Let_def)

lemma chunk_loop_step:
  assumes "off < length file" "0 < st_page_size st"
    and "rs = min (max (base div (WAL_FRAME_HEADER_SIZE + st_page_size st) * (WAL_FRAME_HEADER_SIZE + st_page_size st)) (WAL_FRAME_HEADER_SIZE + st_page_size st)) (length file - off)"
    and "process_frames big (header wfs) (slice file off (off + rs)) 0 st wfs = Inr (k, st', wfs')"
  shows "chunk_loop base big file off st wfs = (if k < rs \<or> off + k \<ge> length file then Inr (finalize_loading st' wfs')
    else if off + k \<le> off then Inr (finalize_loading st' wfs') else chunk_loop base big file (off + k) st' wfs')"
proof -
  have len: "length (slice file off (off + rs)) = rs" using assms(1,3) by simp
  have "submit_one_chunk base file st off = Inr (slice file off (off + rs))" using assms(2) unfolding submit_one_chunk_def Let_def assms(3) by simp
  then show ?thesis
    unfolding chunk_loop.simps [of base big "file" off st wfs] using assms(1) by (simp add: handle_chunk_read_def rbind_def assms(4) len finalize_twice)
qed

lemma chunk_loop_recovers:
  assumes log: "log_frames big h ps ck es = Inr fs" "\<forall>e \<in> set es. fst e \<noteq> 0" and ps: "0 < ps" and N: "N \<le> length es"
    and cut: "file = hb @ concat (map snd (take N fs)) @ rest" "length hb = WAL_HEADER_SIZE" "length rest < WAL_FRAME_HEADER_SIZE + ps"
    and n: "n \<le> N" "scanned big h ps ck fs es n st wfs"
  shows "\<exists>wfs'. chunk_loop base big file (WAL_HEADER_SIZE + n * (WAL_FRAME_HEADER_SIZE + ps)) st wfs = Inr wfs' \<and> recovered h ck fs es N wfs'"
  using n
proof (induction "N - n" arbitrary: n st wfs rule: less_induct)
  case less
  define F where "F = WAL_FRAME_HEADER_SIZE + ps"
  define off where "off = WAL_HEADER_SIZE + n * F"
  define bs where "bs = map snd (take N fs)"
  have lf: "length fs = length es" by (rule log_frames_length [OF log(1)])
  have F: "0 < F" and bs: "\<forall>b \<in> set bs. length b = F" "length bs = n + (N - n)"
    using ps block_lengths [OF log(1)] N lf less.prems(1) by (auto simp: F_def bs_def min_def dest: in_set_takeD)
  have st: "st_page_size st = ps" "header wfs = h" using less.prems(2) by (simp_all add: scanned_def indexed_def Let_def)
  note fold = F_def [symmetric] off_def [symmetric]
  show ?case
  proof (cases "off \<ge> length file")
    case True
    then have "N * F + length rest \<le> n * F"
      using cut concat_blocks(3) [OF bs(1), of 0] bs(2) less.prems(1) unfolding bs_def [symmetric] by (simp add: off_def)
    then have "N * F \<le> n * F" by linarith
    then have "n = N" using F less.prems(1) by simp
    then show ?thesis using True finalize_scanned [OF less.prems(2)] unfolding fold by (subst chunk_loop.simps) simp
  next
    case False
    define rs where "rs = min (max (base div F * F) F) (length file - off)"
    obtain a where a: "max (base div F * F) F = a * F" "0 < a"
      by (cases "base div F * F \<le> F") (use F in \<open>auto simp: max_def intro: that [of 1] that [of "base div F"]\<close>)
    have "off < length file" "off = length hb + n * F" "length rest < F" "rs = min (a * F) (length file - off)"
      using False cut(2,3) a(1) by (simp_all add: off_def rs_def F_def)
    from chunk_of [OF bs F cut(1) [folded bs_def] this(2,3,4) a(2) this(1)] obtain m rest' where
      m: "slice file off (off + rs) = concat (take m (drop n bs)) @ rest'" "length rest' < F" "m \<le> N - n" "rs = m * F + length rest'"
        "off + m * F < length file \<longrightarrow> rest' = [] \<longrightarrow> 0 < m" "rest' \<noteq> [] \<or> off + m * F \<ge> length file \<longrightarrow> m = N - n"
      by blast
    have nm: "n + m \<le> length es" using m(3) less.prems(1) N by simp
    have "drop 0 (slice file off (off + rs)) = concat (map snd (take m (drop n fs))) @ rest'"
      using m(1,3) less.prems(1) by (simp add: bs_def drop_map take_map drop_take min_def)
    from process_frames_run [OF log nm less.prems(2) this m(2) [unfolded F_def]] obtain st' wfs' where
      p: "process_frames big h (slice file off (off + rs)) 0 st wfs = Inr (m * F, st', wfs')" "scanned big h ps ck fs es (n + m) st' wfs'"
      by (auto simp: F_def)
    have unf: "chunk_loop base big file off st wfs = (if m * F < rs \<or> off + m * F \<ge> length file then Inr (finalize_loading st' wfs')
        else if off + m * F \<le> off then Inr (finalize_loading st' wfs') else chunk_loop base big file (off + m * F) st' wfs')"
      using chunk_loop_step [of off "file" st rs base big wfs "m * F" st' wfs'] False ps p(1) unfolding st fold rs_def by simp
    show ?thesis
    proof (cases "m * F < rs \<or> off + m * F \<ge> length file")
      case True
      then have "n + m = N" using m(4,6) less.prems(1) by auto
      then show ?thesis using True finalize_scanned [OF p(2)] unfolding fold unf by simp
    next
      case go: False
      then have m0: "0 < m" "rest' = []" using m(4,5) by auto
      have e: "off + m * F = WAL_HEADER_SIZE + (n + m) * (WAL_FRAME_HEADER_SIZE + ps)" by (simp add: off_def F_def algebra_simps)
      have "\<exists>wfs''. chunk_loop base big file (off + m * F) st' wfs' = Inr wfs'' \<and> recovered h ck fs es N wfs''"
        unfolding e by (rule less.hyps [OF _ _ p(2)]) (use m0 m(3) less.prems(1) in auto)
      then show ?thesis using go m0 F unfolding fold unf by simp
    qed
  qed
qed

text \<open>The header that is written reads back, with the checksum the reader expects.\<close>

lemma swap_reads:
  assumes "length (w :: bytes) = 4"
  shows "from_ne big (rev w) = swap_bytes (from_ne big w)"
  using assms by (auto simp: from_ne_def swap_bytes_def be_bytes_from_be)

lemma ne_be: "from_ne big (be_bytes 4 w) = (if big then w else swap_bytes w)" "from_ne big (ne_bytes big w) = w"
  by (simp_all add: from_ne_def swap_bytes_def ne_bytes_def)

lemma u32_at_header:
  "u32_at (wal_header_bytes h) 0 = magic h" "u32_at (wal_header_bytes h) 4 = file_format h" "u32_at (wal_header_bytes h) 8 = wal_page_size h"
  "u32_at (wal_header_bytes h) 12 = checkpoint_seq h" "u32_at (wal_header_bytes h) 16 = salt_1 h" "u32_at (wal_header_bytes h) 20 = salt_2 h"
  "u32_at (wal_header_bytes h) 24 = checksum_1 h" "u32_at (wal_header_bytes h) 28 = checksum_2 h" "length (wal_header_bytes h) = WAL_HEADER_SIZE"
  unfolding wal_header_bytes_def u32_at_def slice_def by (simp_all add: WAL_HEADER_SIZE_def)

lemma list4: "length w = 4 \<Longrightarrow> \<exists>a b c d. w = [a, b, c, d]"
  by (auto simp: length_Suc_conv numeral_eq_Suc)

lemma checksum_words:
  assumes "length v = 4" "length w = 4"
  shows "checksum_loop rd (v @ w @ buf) (s0, s1) = checksum_loop rd buf (s0 + (rd v + s1), s1 + (rd w + (s0 + (rd v + s1))))"
  using list4 [OF assms(1)] list4 [OF assms(2)] by (auto simp: Let_def)

lemma length_ne_bytes [simp]: "length (ne_bytes big w) = 4"
  by (simp add: ne_bytes_def)

lemma seal_header_checksum:
  assumes "seal_wal_header big ps r1 r2 h0 = Inr h"
  shows "checksum_wal big (take 24 (wal_header_bytes h)) (0, 0) (use_native big h) = Inr (checksum_1 h, checksum_2 h)" "use_native big h"
proof -
  have m: "magic h = (if big then WAL_MAGIC_BE else WAL_MAGIC_LE)"
    using assms by (auto simp: seal_wal_header_def Let_def rbind_eq_Inr_iff split: if_splits)
  have o: "WAL_MAGIC_BE AND 1 = 1" "WAL_MAGIC_LE AND 1 = 0" by (simp_all add: WAL_MAGIC_BE_def WAL_MAGIC_LE_def)
  show n: "use_native big h" using m o by (auto simp: use_native_def)
  obtain h1 where h1: "checksum_wal big (take 24 (wal_header_as_bytes big h1)) (0, 0) (magic h1 AND 1 \<noteq> 0) = Inr (checksum_1 h, checksum_2 h)"
      "h = h1\<lparr>checksum_1 := checksum_1 h, checksum_2 := checksum_2 h\<rparr>"
    using assms unfolding seal_wal_header_def Let_def rbind_eq_Inr_iff WAL_HEADER_SIZE_def by auto
  have f: "magic h1 = magic h" "file_format h1 = file_format h" "wal_page_size h1 = wal_page_size h" "checkpoint_seq h1 = checkpoint_seq h"
    "salt_1 h1 = salt_1 h" "salt_2 h1 = salt_2 h" by (subst h1(2), simp)+
  have b: "(magic h1 AND 1 \<noteq> 0) = big" using f m o by simp
  show "checksum_wal big (take 24 (wal_header_bytes h)) (0, 0) (use_native big h) = Inr (checksum_1 h, checksum_2 h)"
    using h1(1) n unfolding b checksum_wal_def
    by (cases big) (simp_all add: wal_header_bytes_def wal_header_as_bytes_def checksum_words [where buf = "[]", simplified] checksum_words ne_be f)
qed

lemma handle_header_sealed:
  assumes "seal_wal_header big ps r1 r2 h0 = Inr h" "page_size_new (wal_page_size h) \<noteq> None"
  shows "\<exists>st wfs. handle_header_read big (wal_header_bytes h) streaming_new (wal_index_new big) = Inr (st, wfs, False) \<and>
    scanned big h (unat (wal_page_size h)) (checksum_1 h, checksum_2 h) fs es 0 st wfs"
proof -
  have "(big = (magic h AND 1 \<noteq> 0)) = use_native big h" by (simp add: use_native_def)
  then show ?thesis using seal_header_checksum [OF assms(1)] assms(2)
    by (simp add: handle_header_read_def u32_at_header Let_def scanned_def indexed_def streaming_new_def wal_index_new_def frames_of_def checksum_at_def)
qed

text \<open>The bytes of a log: the sealed header, then its frames.\<close>

definition log_bytes :: "wal_header \<Rightarrow> ((u32 \<times> u32) \<times> bytes) list \<Rightarrow> bytes" where
  "log_bytes h fs = wal_header_bytes h @ concat (map snd fs)"

lemma torn_log:
  assumes log: "log_frames big h ps ck es = Inr fs" and k: "WAL_HEADER_SIZE \<le> k" and F: "F = WAL_FRAME_HEADER_SIZE + ps" "0 < F"
    and N: "N = min (length es) ((k - WAL_HEADER_SIZE) div F)"
  shows "\<exists>rest. take k (log_bytes h fs) = wal_header_bytes h @ concat (map snd (take N fs)) @ rest \<and> length rest < F"
proof -
  let ?bs = "map snd fs" and ?k = "k - WAL_HEADER_SIZE"
  have bs: "\<forall>b \<in> set ?bs. length b = F" "length ?bs = length es" using block_lengths [OF log] log_frames_length [OF log] F by auto
  have tk: "take k (log_bytes h fs) = wal_header_bytes h @ take ?k (concat ?bs)" using k u32_at_header(9) [of h] by (simp add: log_bytes_def)
  have "N \<le> ?k div F" using N by simp
  then have "N * F \<le> ?k div F * F" by (rule mult_le_mono1)
  then have Nk: "N * F \<le> ?k" "N \<le> length ?bs" using bs(2) div_times_less_eq_dividend [of ?k F] by (linarith, simp add: N)
  have "take ?k (concat ?bs) = take (N * F) (concat ?bs) @ take (?k - N * F) (drop (N * F) (concat ?bs))"
    using Nk(1) by (metis le_add_diff_inverse take_add)
  also have "take (N * F) (concat ?bs) = concat (map snd (take N fs))" using concat_blocks(1) [OF bs(1) Nk(2)] by (simp add: take_map)
  also have "drop (N * F) (concat ?bs) = concat (drop N ?bs)" by (rule concat_blocks(2) [OF bs(1) Nk(2)])
  finally have eq: "take ?k (concat ?bs) = concat (map snd (take N fs)) @ take (?k - N * F) (concat (drop N ?bs))" .
  have "length (take (?k - N * F) (concat (drop N ?bs))) < F"
  proof (cases "N = length es")
    case False
    then have "N = ?k div F" using N by (simp add: min_def split: if_splits)
    then have "?k - N * F < F" using F(2) by (simp add: minus_div_mult_eq_mod)
    then show ?thesis by simp
  qed (use bs(2) F(2) in simp)
  then show ?thesis using tk eq by auto
qed

lemma build_shared_wal_recovers:
  assumes seal: "seal_wal_header big page_size r1 r2 h0 = Inr h" "page_size_new (wal_page_size h) \<noteq> None"
    and log: "log_frames big h (unat (wal_page_size h)) (checksum_1 h, checksum_2 h) es = Inr fs" "\<forall>e \<in> set es. fst e \<noteq> 0"
    and N: "N = min (length es) ((k - WAL_HEADER_SIZE) div (WAL_FRAME_HEADER_SIZE + unat (wal_page_size h)))" and k: "WAL_HEADER_SIZE \<le> k"
  shows "\<exists>wfs. build_shared_wal base big (take k (log_bytes h fs)) = Inr wfs \<and> recovered h (checksum_1 h, checksum_2 h) fs es N wfs"
proof -
  let ?ps = "unat (wal_page_size h)" and ?ck = "(checksum_1 h, checksum_2 h)" and ?file = "take k (log_bytes h fs)"
  have ps: "0 < ?ps" using seal(2) by (auto simp: page_size_new_def word_less_nat_alt not_less unat_eq_zero split: if_splits)
  from torn_log [OF log(1) _ refl _ N] k ps obtain rest where
    rest: "?file = wal_header_bytes h @ concat (map snd (take N fs)) @ rest" "length rest < WAL_FRAME_HEADER_SIZE + ?ps" by auto
  have tk: "take WAL_HEADER_SIZE ?file = wal_header_bytes h" "\<not> length ?file < WAL_HEADER_SIZE" unfolding rest(1) using u32_at_header(9) [of h] by simp_all
  obtain st wfs where st: "handle_header_read big (wal_header_bytes h) streaming_new (wal_index_new big) = Inr (st, wfs, False)"
      "scanned big h ?ps ?ck fs es 0 st wfs" using handle_header_sealed [OF seal] by blast
  have "\<exists>wfs'. chunk_loop base big ?file (WAL_HEADER_SIZE + 0 * (WAL_FRAME_HEADER_SIZE + ?ps)) st wfs = Inr wfs' \<and> recovered h ?ck fs es N wfs'"
    by (rule chunk_loop_recovers [OF log ps _ rest(1) u32_at_header(9) rest(2) _ st(2)]) (use N in simp_all)
  then show ?thesis using tk st(1) by (auto simp: build_shared_wal_def)
qed

section \<open>Properties\<close>

text \<open>C20. Crash recovery. Take any prefix of a log that was written as a sealed header and a chain of frames, cut at any byte and
  read in chunks of any size. Opening it recovers exactly the frames up to the last commit frame among the
  whole frames of the prefix: the log ends there, every page is mapped to its frames up to there in ascending order, and the
  running checksum is the one new frames must continue from. A prefix shorter than the header is an empty log.\<close>

theorem wal_recovery_exact:
  assumes seal: "seal_wal_header big page_size r1 r2 h0 = Inr h" "page_size_new (wal_page_size h) \<noteq> None"
    and log: "log_frames big h (unat (wal_page_size h)) (checksum_1 h, checksum_2 h) es = Inr fs" "\<forall>e \<in> set es. fst e \<noteq> 0"
    and N: "N = min (length es) ((k - WAL_HEADER_SIZE) div (WAL_FRAME_HEADER_SIZE + unat (wal_page_size h)))" "c = last_commit (take N es)"
  shows "if k < WAL_HEADER_SIZE then build_shared_wal base big (take k (log_bytes h fs)) = Inr (wal_index_new big)
    else \<exists>wfs. build_shared_wal base big (take k (log_bytes h fs)) = Inr wfs \<and> header wfs = h \<and> initialized wfs \<and> max_frame wfs = c \<and> nbackfills wfs = 0 \<and>
      (\<forall>p. frame_cache wfs p = frames_of p (take c es)) \<and> last_checksum wfs = (if c = 0 then (checksum_1 h, checksum_2 h) else fst (fs ! (c - 1)))"
proof (cases "k < WAL_HEADER_SIZE")
  case True
  then have "length (take k (log_bytes h fs)) < WAL_HEADER_SIZE" by simp
  then show ?thesis using True by (simp add: build_shared_wal_def)
next
  case False
  then obtain wfs where "build_shared_wal base big (take k (log_bytes h fs)) = Inr wfs" "recovered h (checksum_1 h, checksum_2 h) fs es N wfs"
    using build_shared_wal_recovers [OF seal log N(1), of base] by auto
  then show ?thesis using False N(2) by (auto simp: recovered_def checksum_at_def Let_def)
qed

definition example_log :: "wal_entry list" where
  "example_log = [(1, 1, replicate 512 0), (2, 0, replicate 512 1)]"

lemma example_seal: "\<exists>h. seal_wal_header False 512 7 8 (wal_header_new False) = Inr h \<and> wal_page_size h = 512"
  by (simp add: seal_wal_header_def wal_header_new_def WAL_HEADER_SIZE_def checksum_wal_def wal_header_as_bytes_def Let_def split: prod.splits)

lemma example_frames: "\<exists>fs. log_frames False h 512 ck example_log = Inr fs"
  by (simp add: example_log_def prepare_wal_frame_def checksum_wal_def Let_def)

lemma unat_numeral_512: "unat (512 :: u32) = 512"
  by simp

theorem wal_recovery_exact_witness:
  "\<exists>h fs wfs. seal_wal_header False 512 7 8 (wal_header_new False) = Inr h \<and>
     log_frames False h 512 (checksum_1 h, checksum_2 h) example_log = Inr fs \<and>
     build_shared_wal 4096 False (take 1000 (log_bytes h fs)) = Inr wfs \<and> max_frame wfs = 1 \<and> frame_cache wfs 1 = [1] \<and> frame_cache wfs 2 = []"
proof -
  obtain h where h: "seal_wal_header False 512 7 8 (wal_header_new False) = Inr h" "wal_page_size h = 512" using example_seal by blast
  then obtain fs where fs: "log_frames False h (unat (wal_page_size h)) (checksum_1 h, checksum_2 h) example_log = Inr fs" using example_frames [of h] by (metis h(2) unat_numeral_512)
  have N: "1 = min (length example_log) ((1000 - WAL_HEADER_SIZE) div (WAL_FRAME_HEADER_SIZE + unat (wal_page_size h)))" "1 = last_commit (take 1 example_log)"
    and e: "\<forall>e \<in> set example_log. fst e \<noteq> 0" "frames_of 1 (take 1 example_log) = [1]" "frames_of 2 (take 1 example_log) = []"
    using h(2) by (simp_all add: example_log_def WAL_HEADER_SIZE_def WAL_FRAME_HEADER_SIZE_def last_commit_def frames_of_def)
  have "page_size_new (wal_page_size h) \<noteq> None" unfolding h(2) using page_size_new_power(1) [of 9] by simp
  from wal_recovery_exact [OF h(1) this fs e(1) N, where base = 4096] obtain wfs where
    "build_shared_wal 4096 False (take 1000 (log_bytes h fs)) = Inr wfs" "max_frame wfs = 1" "frame_cache wfs 1 = [1]" "frame_cache wfs 2 = []"
    using e(2,3) by (auto simp: WAL_HEADER_SIZE_def)
  then show ?thesis using h fs by auto
qed

end
