(* ===== verification/Wal_Open.thy ===== *)
theory Wal_Open
  imports Wal_Protocol Wal_Recovery
begin

text \<open>
  Opening a database: the shared state that recovery builds from the bytes of the log file, with its locks
  (\<^verbatim>\<open>core/storage/sqlite3_ondisk.rs\<close>, \<^verbatim>\<open>BuildSharedWal\<close>), and the connections over it. The state satisfies the
  invariant of the protocol and its committed image is the database file under the committed frames of the log.
\<close>

section \<open>Opening\<close>

definition init_read_lock :: "nat \<Rightarrow> rwlock res" where
  "init_read_lock i = (case rw_write 0 of (_, l) \<Rightarrow> rbind (rw_set_value_exclusive l (if i < 2 then 0 else READMARK_NOT_USED)) rw_unlock)"

fun init_read_locks :: "nat list \<Rightarrow> rwlock list res" where
  "init_read_locks [] = Inr []"
| "init_read_locks (i # is) = rbind (init_read_lock i) (\<lambda>l. rbind (init_read_locks is) (\<lambda>ls. Inr (l # ls)))"

definition shared_wal_open :: "nat \<Rightarrow> bool \<Rightarrow> bytes \<Rightarrow> wal_shared res" where
  "shared_wal_open base big file =
     rbind (build_shared_wal base big file) (\<lambda>idx. rbind (init_read_locks [0..<5]) (\<lambda>ls.
       Inr \<lparr>header = header idx, max_frame = max_frame idx, nbackfills = nbackfills idx, transaction_count = transaction_count idx,
         last_checksum = last_checksum idx, initialized = initialized idx, frame_cache = frame_cache idx, frame_cache_high_water = frame_cache_high_water idx,
         read_locks = ls, vacuum_lock = 0, write_lock = 0, checkpoint_lock = 0, epoch = 0\<rparr>))"

text \<open>The bytes of a frame in the log file, at the offset where \<^verbatim>\<open>frame_offset\<close> puts it.\<close>

definition frame_bytes :: "bytes \<Rightarrow> usize \<Rightarrow> nat \<Rightarrow> bytes" where
  "frame_bytes file ps f = take (WAL_FRAME_HEADER_SIZE + ps) (drop (WAL_HEADER_SIZE + (f - 1) * (WAL_FRAME_HEADER_SIZE + ps)) file)"

definition conn_new :: "wal_shared \<Rightarrow> wal_conn" where
  "conn_new s = wal_file.extend (wal_file_new s) \<lparr>pc = Idle\<rparr>"

definition wal_system_open :: "nat \<Rightarrow> bool \<Rightarrow> bytes \<Rightarrow> (nat \<Rightarrow> bytes) \<Rightarrow> nat \<Rightarrow> wal_sys res" where
  "wal_system_open base big file d n =
     rbind (shared_wal_open base big file) (\<lambda>s.
       Inr \<lparr>shared = s, conns = replicate n (conn_new s), log = frame_bytes file (unat (wal_page_size (header s))), db = d\<rparr>)"

section \<open>The invariant at the start\<close>

lemma init_read_lock_ok: "\<exists>l. init_read_lock i = Inr l \<and> lock_ok l 0 0"
proof -
  have "lock_ok 0 0 0" using lock_ok_word [of 0 0 0] by (simp add: rw_word_def)
  then obtain l1 where l1: "rw_write 0 = (True, l1)" "lock_ok l1 0 1" using lock_write [of 0 0 0] by auto
  obtain l2 where l2: "rw_set_value_exclusive l1 (if i < 2 then 0 else READMARK_NOT_USED) = Inr l2" "lock_ok l2 0 1" using lock_set_value [OF l1(2)] by blast
  show ?thesis using lock_unlock_write [OF l2(2)] l1(1) l2(1) by (auto simp: init_read_lock_def)
qed

lemma init_read_locks_ok: "\<exists>ls. init_read_locks is = Inr ls \<and> length ls = length is \<and> (\<forall>l \<in> set ls. lock_ok l 0 0)"
proof (induction "is")
  case (Cons i "is")
  then show ?case using init_read_lock_ok [of i] by auto
qed simp

lemma conn_new_simps:
  "c_read_guard (conn_new s) = NoGuard" "\<not> c_vacuum_read (conn_new s)" "\<not> c_write_lock_held (conn_new s)" "c_checkpoint_guard (conn_new s) = None" "pc (conn_new s) = Idle"
  by (simp_all add: conn_new_def wal_file_new_def wal_file.extend_def)

lemma opened_inv:
  assumes idx: "build_shared_wal base big file = Inr idx" "index_inv idx" "nbackfills idx = 0" "\<And>p f. f \<in> set (frame_cache idx p) \<Longrightarrow> 0 < f" and n: "n + 1 < 2 ^ 31"
  shows "\<exists>\<sigma>. wal_system_open base big file d n = Inr \<sigma> \<and> wal_inv \<sigma> \<and> frame_cache (shared \<sigma>) = frame_cache idx \<and> max_frame (shared \<sigma>) = max_frame idx \<and>
    log \<sigma> = frame_bytes file (unat (wal_page_size (header idx))) \<and> db \<sigma> = d \<and> (\<forall>c \<in> set (conns \<sigma>). \<not> reading c \<and> pc c = Idle) \<and> length (conns \<sigma>) = n"
proof -
  obtain ls where ls: "init_read_locks [0..<5] = Inr ls" "length ls = 5" "\<forall>l \<in> set ls. lock_ok l 0 0" using init_read_locks_ok [of "[0..<5]"] by auto
  define s where "s = \<lparr>header = header idx, max_frame = max_frame idx, nbackfills = nbackfills idx, transaction_count = transaction_count idx,
         last_checksum = last_checksum idx, initialized = initialized idx, frame_cache = frame_cache idx, frame_cache_high_water = frame_cache_high_water idx,
         read_locks = ls, vacuum_lock = 0, write_lock = 0, checkpoint_lock = 0, epoch = 0\<rparr>"
  let ?cs = "replicate n (conn_new s)" and ?l = "frame_bytes file (unat (wal_page_size (header s)))"
  have z: "cnt in_vacuum ?cs = 0" "cnt writes ?cs = 0" "cnt checkpoints ?cs = 0" "slot_writers ?cs = (\<lambda>_. 0)" by (auto simp: cnt_def roles conn_new_simps slot_writers_def)
  have "slot_readers ?cs k = 0" for k unfolding slot_readers_0 by (auto simp: slot_of_def conn_new_simps)
  then have "slot_readers ?cs = (\<lambda>_. 0)" by blast
  note z = z this
  have "lock_ok 0 0 0" using lock_ok_word [of 0 0 0] by (simp add: rw_word_def)
  then have "locks_inv s ?cs" unfolding locks_inv_def z using ls(2,3) by (simp add: locks_def s_def)
  moreover have "index_inv s" using idx(2) by (simp add: index_inv_def s_def)
  moreover have "db_inv s ?cs ?l d" using idx(3,4) by (fastforce simp: db_inv_def s_def)
  moreover have "conns_inv s ?cs ?l d" by (auto simp: conns_inv_def conn_ok_def pc_ok_def ck_active_def conn_new_simps)
  ultimately have "wal_inv \<lparr>shared = s, conns = ?cs, log = ?l, db = d\<rparr>" using n by (simp add: wal_inv_def)
  moreover have "wal_system_open base big file d n = Inr \<lparr>shared = s, conns = ?cs, log = ?l, db = d\<rparr>"
    using idx(1) ls(1) by (simp add: wal_system_open_def shared_wal_open_def s_def)
  ultimately show ?thesis by (auto simp: s_def conn_new_simps)
qed

section \<open>The committed image\<close>

lemma frames_of_props: "sorted_wrt (<) (frames_of p es)" "f \<in> set (frames_of p es) \<Longrightarrow> 0 < f \<and> f \<le> length es"
  by (auto simp: frames_of_def sorted_wrt_map intro: sorted_wrt_filter)

lemma write_pages_frames:
  "write_pages (map (\<lambda>(p, _, page). (unat p, page)) es) d p = (if frames_of p es = [] then d p else snd (snd (es ! (last (frames_of p es) - 1))))"
proof (induction es rule: rev_induct)
  case Nil
  then show ?case by (simp add: write_pages_def frames_of_def)
next
  case (snoc e es)
  have "last (frames_of p es) - 1 < length es" if "frames_of p es \<noteq> []" using frames_of_props(2) [OF last_in_set [OF that]] by auto
  then show ?case using snoc by (cases e) (auto simp: frames_of_snoc write_pages_def nth_append)
qed

lemma rfind_all: "\<forall>f \<in> set xs. P f \<Longrightarrow> rfind P xs = (if xs = [] then None else Some (last xs))"
  by (simp add: rfind_filter)

lemma frame_bytes_nth:
  assumes log: "log_frames big h ps ck es = Inr fs" and k: "WAL_HEADER_SIZE \<le> k" and N: "N = min (length es) ((k - WAL_HEADER_SIZE) div (WAL_FRAME_HEADER_SIZE + ps))"
    and f: "0 < f" "f \<le> N"
  shows "frame_page (frame_bytes (take k (log_bytes h fs)) ps f) = snd (snd (es ! (f - 1)))"
proof -
  let ?F = "WAL_FRAME_HEADER_SIZE + ps" and ?bs = "map snd (take N fs)"
  obtain rest where rest: "take k (log_bytes h fs) = wal_header_bytes h @ concat ?bs @ rest"
    using torn_log [OF log k refl _ N] by (auto simp: WAL_FRAME_HEADER_SIZE_def)
  have len: "length fs = length es" "N \<le> length es" using log_frames_length [OF log] N by simp_all
  have bs: "\<forall>b \<in> set ?bs. length b = ?F" using block_lengths [OF log] by (auto dest: in_set_takeD)
  have lb: "length ?bs = N" using len by simp
  have "(f - 1) * ?F + ?F = f * ?F" using f(1) by (cases f) simp_all
  then have "(f - 1) * ?F + ?F \<le> length (concat ?bs)" using mult_le_mono1 [OF f(2), of ?F] concat_blocks(3) [OF bs le0] lb by simp
  moreover define F where "F = ?F"
  moreover have "take F (drop m (xs @ ys)) = take F (drop m xs)" if "m + F \<le> length xs" for m and xs ys :: bytes using that by simp
  ultimately have "take ?F (drop ((f - 1) * ?F) (concat ?bs @ rest)) = take ?F (drop ((f - 1) * ?F) (concat ?bs))" by metis
  also have "\<dots> = concat (take 1 (drop (f - 1) ?bs))" using concat_sub_blocks(1) [OF bs, of "f - 1" 1] lb f by simp
  also have "\<dots> = concat [?bs ! (f - 1)]" using Cons_nth_drop_Suc [of "f - 1" ?bs, symmetric] f lb len by simp
  also have "\<dots> = snd (fs ! (f - 1))" using f lb len by simp
  finally have "frame_bytes (take k (log_bytes h fs)) ps f = snd (fs ! (f - 1))" unfolding frame_bytes_def rest using u32_at_header(9) [of h] by simp
  moreover have "drop 24 (snd (fs ! (f - 1))) = snd (snd (es ! (f - 1)))"
  proof -
    obtain ck' fb where fb: "fs ! (f - 1) = (ck', fb)" by (cases "fs ! (f - 1)")
    have "f - 1 < length es" using f len(2) by simp
    then show ?thesis using prepare_wal_frame_Inr(2) [OF log_frames_nth [OF log, of "f - 1", unfolded fb]] fb by simp
  qed
  ultimately show ?thesis by (simp add: frame_page_def WAL_FRAME_HEADER_SIZE_def)
qed

lemma recovered_image:
  assumes log: "log_frames big h ps ck es = Inr fs" and k: "WAL_HEADER_SIZE \<le> k" and N: "N = min (length es) ((k - WAL_HEADER_SIZE) div (WAL_FRAME_HEADER_SIZE + ps))"
    and c: "c = last_commit (take N es)" and fc: "\<And>p. frame_cache s p = frames_of p (take c es)"
  shows "image s (frame_bytes (take k (log_bytes h fs)) ps) d c = write_pages (map (\<lambda>(p, _, page). (unat p, page)) (take c es)) d"
proof
  fix p
  have cN: "c \<le> N" using last_commit_le [of "take N es"] c by simp
  then have cl: "length (take c es) = c" using N by simp
  let ?fs = "frames_of p (take c es)"
  have b: "\<forall>f \<in> set ?fs. f \<le> c" using frames_of_props(2) cl by metis
  show "image s (frame_bytes (take k (log_bytes h fs)) ps) d c p = write_pages (map (\<lambda>(p, _, page). (unat p, page)) (take c es)) d p"
  proof (cases "?fs = []")
    case True
    then show ?thesis by (simp add: image_def fc write_pages_frames rfind_def)
  next
    case False
    have l: "0 < last ?fs" "last ?fs \<le> c" using frames_of_props(2) [OF last_in_set [OF False]] cl by auto
    then have "frame_page (frame_bytes (take k (log_bytes h fs)) ps (last ?fs)) = snd (snd (es ! (last ?fs - 1)))" using cN by (intro frame_bytes_nth [OF log k N]) auto
    moreover have "take c es ! (last ?fs - 1) = es ! (last ?fs - 1)" using l by (intro nth_take) linarith
    ultimately show ?thesis using False b by (simp add: image_def fc write_pages_frames rfind_all)
  qed
qed

section \<open>Properties\<close>

text \<open>C4. Opening a crashed database. Take any prefix of a log that was written as a sealed header and a chain of frames, cut at any
  byte, over any database file. Opening it with any number of connections succeeds, the state satisfies the invariant of the protocol, and
  its committed image is the database file overwritten, in order, by the pages of the frames up to the last commit frame that
  is whole in the prefix: no committed page is lost and no page of an unfinished transaction appears.\<close>

theorem wal_open_committed:
  assumes seal: "seal_wal_header big page_size r1 r2 h0 = Inr h" "page_size_new (wal_page_size h) \<noteq> None"
    and log: "log_frames big h (unat (wal_page_size h)) (checksum_1 h, checksum_2 h) es = Inr fs" "\<forall>e \<in> set es. fst e \<noteq> 0" "length es < 2 ^ 32"
    and N: "N = min (length es) ((k - WAL_HEADER_SIZE) div (WAL_FRAME_HEADER_SIZE + unat (wal_page_size h)))" "c = last_commit (take N es)" and n: "n + 1 < 2 ^ 31"
  shows "\<exists>\<sigma>. wal_system_open base big (take k (log_bytes h fs)) d n = Inr \<sigma> \<and> wal_inv \<sigma> \<and>
    committed (iso_of \<sigma>) = (if k < WAL_HEADER_SIZE then d else write_pages (map (\<lambda>(p, _, page). (unat p, page)) (take c es)) d)"
proof (cases "k < WAL_HEADER_SIZE")
  case True
  then have "length (take k (log_bytes h fs)) < WAL_HEADER_SIZE" by simp
  then have b: "build_shared_wal base big (take k (log_bytes h fs)) = Inr (wal_index_new big)" by (simp add: build_shared_wal_def)
  have "image s l d 0 = d" if "frame_cache s = (\<lambda>_. [])" for s :: wal_shared and l using that by (intro ext) (simp add: image_def rfind_def)
  then show ?thesis using opened_inv [OF b _ _ _ n, of d] True by (fastforce simp: wal_index_new_def index_inv_def iso_of_def)
next
  case False
  then have k: "WAL_HEADER_SIZE \<le> k" by simp
  obtain wfs where w: "build_shared_wal base big (take k (log_bytes h fs)) = Inr wfs" "recovered h (checksum_1 h, checksum_2 h) fs es N wfs"
    using build_shared_wal_recovers [OF seal log(1,2) N(1) k, of base] by blast
  have r: "header wfs = h" "initialized wfs" "max_frame wfs = c" "nbackfills wfs = 0" "frame_cache_high_water wfs = c" "\<And>p. frame_cache wfs p = frames_of p (take c es)"
    using w(2) N(2) by (simp_all add: recovered_def Let_def)
  have c: "c \<le> length es" using last_commit_le [of "take N es"] N by simp
  have f: "0 < f \<and> f \<le> c" if "f \<in> set (frame_cache wfs p)" for f p using frames_of_props(2) that c unfolding r(6) by fastforce
  have "index_inv wfs" using r c log(3) f frames_of_props(1) by (auto simp: index_inv_def)
  then obtain \<sigma> where \<sigma>: "wal_system_open base big (take k (log_bytes h fs)) d n = Inr \<sigma>" "wal_inv \<sigma>" "frame_cache (shared \<sigma>) = frame_cache wfs" "max_frame (shared \<sigma>) = c"
    "log \<sigma> = frame_bytes (take k (log_bytes h fs)) (unat (wal_page_size h))" "db \<sigma> = d" using opened_inv [OF w(1) _ r(4) _ n, of d] f r(1,3) by auto
  have "image (shared \<sigma>) (log \<sigma>) (db \<sigma>) c = write_pages (map (\<lambda>(p, _, page). (unat p, page)) (take c es)) d"
    unfolding \<sigma>(5,6) by (rule recovered_image [OF log(1) k N]) (simp add: \<sigma>(3) r(6))
  then show ?thesis using \<sigma>(1,2,4) False by (simp add: iso_of_def)
qed

theorem wal_open_committed_witness:
  "\<exists>h fs \<sigma>. seal_wal_header False 512 7 8 (wal_header_new False) = Inr h \<and> log_frames False h 512 (checksum_1 h, checksum_2 h) example_log = Inr fs \<and>
     wal_system_open 4096 False (take 1000 (log_bytes h fs)) (\<lambda>_. [3]) 2 = Inr \<sigma> \<and> wal_inv \<sigma> \<and> committed (iso_of \<sigma>) 1 = replicate 512 0 \<and> committed (iso_of \<sigma>) 2 = [3]"
proof -
  obtain h where h: "seal_wal_header False 512 7 8 (wal_header_new False) = Inr h" "wal_page_size h = 512" using example_seal by blast
  then obtain fs where fs: "log_frames False h (unat (wal_page_size h)) (checksum_1 h, checksum_2 h) example_log = Inr fs" using example_frames [of h] by (metis h(2) unat_numeral_512)
  have N: "1 = min (length example_log) ((1000 - WAL_HEADER_SIZE) div (WAL_FRAME_HEADER_SIZE + unat (wal_page_size h)))" "1 = last_commit (take 1 example_log)"
    and e: "\<forall>e \<in> set example_log. fst e \<noteq> 0" "length example_log < 2 ^ 32" "take 1 example_log = [(1, 1, replicate 512 0)]"
    using h(2) by (simp_all add: example_log_def WAL_HEADER_SIZE_def WAL_FRAME_HEADER_SIZE_def last_commit_def)
  have "page_size_new (wal_page_size h) \<noteq> None" unfolding h(2) using page_size_new_power(1) [of 9] by simp
  from wal_open_committed [OF h(1) this fs e(1,2) N, of 2 4096 "\<lambda>_. [3]"] obtain \<sigma> where
    "wal_system_open 4096 False (take 1000 (log_bytes h fs)) (\<lambda>_. [3]) 2 = Inr \<sigma>" "wal_inv \<sigma>" "committed (iso_of \<sigma>) = write_pages (map (\<lambda>(p, _, page). (unat p, page)) (take 1 example_log)) (\<lambda>_. [3])"
    by (auto simp: WAL_HEADER_SIZE_def)
  then show ?thesis using h fs e(3) by (auto simp: write_pages_def)
qed

end
