(* ===== verification/Simulation.thy ===== *)
theory Simulation
  imports Prelude
begin

text \<open>
  Simulation of an abstract machine by events that several parties interleave. The implementation's event is
  undefined where it is not enabled, fails where the code panics, and otherwise gives the next state; a guard says which
  events the environment may choose. One step of each event gives every run.
\<close>

inductive guarded_run :: "('ev \<Rightarrow> 's \<Rightarrow> bool) \<Rightarrow> ('ev \<Rightarrow> 's \<Rightarrow> 's res option) \<Rightarrow> 's \<Rightarrow> 'ev list \<Rightarrow> 's \<Rightarrow> bool" for guard step s where
  guarded_run_nil: "guarded_run guard step s [] s"
| guarded_run_snoc: "guarded_run guard step s evs s' \<Longrightarrow> guard ev s' \<Longrightarrow> step ev s' = Some (Inr s'') \<Longrightarrow> guarded_run guard step s (evs @ [ev]) s''"

inductive abstract_run :: "('ev \<Rightarrow> 'a \<Rightarrow> 'a \<Rightarrow> bool) \<Rightarrow> 'a \<Rightarrow> 'ev list \<Rightarrow> 'a \<Rightarrow> bool" for astep a where
  abstract_run_nil: "abstract_run astep a [] a"
| abstract_run_snoc: "abstract_run astep a evs a' \<Longrightarrow> astep ev a' a'' \<Longrightarrow> abstract_run astep a (evs @ [ev]) a''"

lemma guarded_run_one: "guard ev s \<Longrightarrow> step ev s = Some (Inr s') \<Longrightarrow> guarded_run guard step s [ev] s'"
  using guarded_run_snoc [OF guarded_run_nil, of guard ev s step s'] by simp

lemma guarded_run_append: "guarded_run guard step s1 ys s2 \<Longrightarrow> guarded_run guard step s xs s1 \<Longrightarrow> guarded_run guard step s (xs @ ys) s2"
proof (induction rule: guarded_run.induct)
  case (guarded_run_snoc evs s' ev s'')
  then show ?case using guarded_run.guarded_run_snoc [of guard step s "xs @ evs" s' ev s''] by simp
qed simp

text \<open>An executable check of a run, for concrete examples.\<close>

fun run_checked :: "('ev \<Rightarrow> 's \<Rightarrow> bool) \<Rightarrow> ('ev \<Rightarrow> 's \<Rightarrow> 's res option) \<Rightarrow> 'ev list \<Rightarrow> 's \<Rightarrow> 's option" where
  "run_checked guard step [] s = Some s"
| "run_checked guard step (ev # evs) s =
     (if guard ev s then (case step ev s of Some (Inr s') \<Rightarrow> run_checked guard step evs s' | _ \<Rightarrow> None) else None)"

lemma run_checked_guarded: "run_checked guard step evs s = Some s' \<Longrightarrow> guarded_run guard step s evs s'"
proof (induction evs arbitrary: s)
  case (Cons ev evs)
  then obtain s1 where s1: "guard ev s" "step ev s = Some (Inr s1)" "run_checked guard step evs s1 = Some s'"
    by (auto split: if_splits option.splits sum.splits)
  show ?case using guarded_run_append [OF Cons.IH [OF s1(3)] guarded_run_one [of guard ev s step s1, OF s1(1,2)]] by simp
qed (simp add: guarded_run_nil)

locale simulation =
  fixes inv :: "'s \<Rightarrow> bool"
    and abs :: "'s \<Rightarrow> 'a"
    and guard :: "'ev \<Rightarrow> 's \<Rightarrow> bool"
    and step :: "'ev \<Rightarrow> 's \<Rightarrow> 's res option"
    and astep :: "'ev \<Rightarrow> 'a \<Rightarrow> 'a \<Rightarrow> bool"
  assumes step_sim: "inv s \<Longrightarrow> guard ev s \<Longrightarrow> step ev s = Some r \<Longrightarrow> \<exists>s'. r = Inr s' \<and> inv s' \<and> astep ev (abs s) (abs s')"
begin

lemma run_sim:
  assumes "guarded_run guard step s evs s'" "inv s"
  shows "inv s' \<and> abstract_run astep (abs s) evs (abs s')"
  using assms
proof (induction rule: guarded_run.induct)
  case (guarded_run_snoc evs s' ev s'')
  then show ?case using step_sim [of s' ev "Inr s''"] by (auto intro: abstract_run_snoc)
qed (auto intro: abstract_run_nil)

lemma run_no_error: "guarded_run guard step s evs s' \<Longrightarrow> inv s \<Longrightarrow> guard ev s' \<Longrightarrow> step ev s' \<noteq> Some (Inl e)"
  using run_sim [of s evs s'] step_sim [of s' ev "Inl e"] by auto

text \<open>What every abstract event of a run keeps holds after the run; what no event of a run changes stays the same.\<close>

lemma run_keeps:
  assumes "guarded_run guard step s evs s'" "inv s" "P (abs s)" "\<And>ev a a'. ev \<in> set evs \<Longrightarrow> astep ev a a' \<Longrightarrow> P a \<Longrightarrow> P a'"
  shows "P (abs s')"
  using assms
proof (induction rule: guarded_run.induct)
  case (guarded_run_snoc evs s' ev s'')
  have "inv s'" using run_sim [OF guarded_run_snoc.hyps(1)] guarded_run_snoc.prems(1) by blast
  then have "astep ev (abs s') (abs s'')" using step_sim [OF _ guarded_run_snoc.hyps(2,3)] by auto
  moreover have "P (abs s')" by (rule guarded_run_snoc.IH) (use guarded_run_snoc.prems in auto)
  ultimately show ?case using guarded_run_snoc.prems(3) [of ev "abs s'" "abs s''"] by simp
qed simp

lemma run_stable:
  assumes "guarded_run guard step s evs s'" "inv s" "\<And>ev a a'. ev \<in> set evs \<Longrightarrow> astep ev a a' \<Longrightarrow> look a' = look a"
  shows "look (abs s') = look (abs s)"
  using run_keeps [OF assms(1,2), of "\<lambda>a. look a = look (abs s)"] assms(3) by simp

end

end
