(* ===== verification/Wal_Stale.thy ===== *)
theory Wal_Stale
  imports Wal_Open Simulation
begin

text \<open>
  A checkpoint loads the number of backfilled frames before it takes its locks (\<^verbatim>\<open>core/storage/wal.rs\<close>, \<^verbatim>\<open>checkpoint_inner\<close>).
  Here is a run of two connections in which the number is stale by the time the locks are held: the log is restarted
  without copying a committed frame, and the commit is lost. Every other event of the run is admissible: this one hypothesis of the other theorems is needed.
\<close>

section \<open>Events\<close>

fun run_events :: "bool \<Rightarrow> wal_event list \<Rightarrow> wal_sys \<Rightarrow> wal_sys res option" where
  "run_events big [] \<sigma> = Some (Inr \<sigma>)"
| "run_events big (ev # evs) \<sigma> =
     (case wal_step big ev \<sigma> of
        None \<Rightarrow> None
      | Some (Inl e) \<Rightarrow> Some (Inl e)
      | Some (Inr \<sigma>') \<Rightarrow> run_events big evs \<sigma>')"

definition write_tx :: "nat \<Rightarrow> nat \<Rightarrow> bytes \<Rightarrow> wal_event list" where
  "write_tx i p page = [EvBeginRead i, EvClaimRead i, EvLockRead i, EvCheckRead i, EvBeginWrite i, EvRestart i True 9, EvPrepareWal i (length page) 7 8,
     EvPrepare i [(p, page)] (length page) (Some 1), EvAppend i, EvCommit i, EvEndWrite i, EvEndRead i]"

definition passive_checkpoint :: "nat \<Rightarrow> nat \<Rightarrow> wal_event list" where
  "passive_checkpoint i p = [EvCkLoad i (Passive None), EvCkLock i, EvCkRange i [p], EvCkCopy i 0, EvCkResult i 5, EvCkFinalize i, EvCkPublish i, EvCkFinish i]"

definition locked_restart :: "nat \<Rightarrow> nat \<Rightarrow> wal_event list" where
  "locked_restart i p = [EvCkRange i [p], EvCkResult i 5, EvCkFinalize i, EvCkFinish i]"

text \<open>Runs whose events are admissible.\<close>

abbreviation run_admissible :: "bool \<Rightarrow> wal_event list \<Rightarrow> wal_sys \<Rightarrow> wal_sys option" where
  "run_admissible big \<equiv> run_checked admissible (wal_step big)"

lemma run_checked_append: "run_checked g st (xs @ ys) s = (case run_checked g st xs s of None \<Rightarrow> None | Some s' \<Rightarrow> run_checked g st ys s')"
  by (induction xs arbitrary: s) (auto split: option.split sum.split)

lemma run_checked_events: "run_admissible big evs \<sigma> = Some \<sigma>' \<Longrightarrow> run_events big evs \<sigma> = Some (Inr \<sigma>')"
  by (induction evs arbitrary: \<sigma>) (auto split: if_splits option.splits sum.splits)

section \<open>States between transactions\<close>

definition quiet_shared :: "wal_header \<Rightarrow> nat \<Rightarrow> nat \<Rightarrow> nat \<Rightarrow> u32 \<times> u32 \<Rightarrow> bool \<Rightarrow> (nat \<Rightarrow> nat list) \<Rightarrow> u32 \<Rightarrow> u32 \<Rightarrow> wal_shared" where
  "quiet_shared h mx nb tc ck ini fc m e = \<lparr>header = h, max_frame = mx, nbackfills = nb, transaction_count = tc, last_checksum = ck, initialized = ini,
     frame_cache = fc, frame_cache_high_water = mx,
     read_locks = [rw_word 0 0 False, rw_word m 0 False, rw_word READMARK_NOT_USED 0 False, rw_word READMARK_NOT_USED 0 False, rw_word READMARK_NOT_USED 0 False],
     vacuum_lock = rw_word 0 0 False, write_lock = rw_word 0 0 False, checkpoint_lock = rw_word 0 0 False, epoch = e\<rparr>"

definition quiet_conn :: "nat \<Rightarrow> nat \<Rightarrow> u32 \<times> u32 \<Rightarrow> u32 \<Rightarrow> nat \<Rightarrow> nat \<Rightarrow> nat \<Rightarrow> conn_pc \<Rightarrow> wal_conn" where
  "quiet_conn mx mn ck q tc lo hi p = \<lparr>c_max_frame = mx, c_min_frame = mn, c_last_checksum = ck, c_checkpoint_seq = q, c_transaction_count = tc,
     c_read_guard = NoGuard, c_write_lock_held = False, c_vacuum_read = False, c_checkpoint_guard = None, oc_min_frame = lo, oc_max_frame = hi,
     pages_to_checkpoint = [], pc = p\<rparr>"

definition quiet_sys :: "wal_shared \<Rightarrow> wal_conn list \<Rightarrow> (nat \<Rightarrow> bytes) \<Rightarrow> (nat \<Rightarrow> bytes) \<Rightarrow> wal_sys" where
  "quiet_sys s cs l d = \<lparr>shared = s, conns = cs, log = l, db = d\<rparr>"

lemmas quiet_defs = quiet_shared_def quiet_conn_def quiet_sys_def

lemma admissible_simps:
  "admissible (EvBeginRead i) \<sigma> \<longleftrightarrow> \<not> reading (conns \<sigma> ! i)"
  "admissible (EvClaimRead i) \<sigma>" "admissible (EvLockRead i) \<sigma>" "admissible (EvCheckRead i) \<sigma>"
  "admissible (EvEndRead i) \<sigma> \<longleftrightarrow> \<not> c_write_lock_held (conns \<sigma> ! i)"
  "admissible (EvBeginWrite i) \<sigma> \<longleftrightarrow> reading (conns \<sigma> ! i) \<and> \<not> c_write_lock_held (conns \<sigma> ! i)"
  "admissible (EvRestart i b rnd) \<sigma>"
  "admissible (EvPrepareWal i ps r1 r2) \<sigma> \<longleftrightarrow> c_write_lock_held (conns \<sigma> ! i)"
  "admissible (EvPrepare i [(p, page)] ps dbs) \<sigma> \<longleftrightarrow> c_write_lock_held (conns \<sigma> ! i) \<and> initialized (shared \<sigma>) \<and>
     unat (wal_page_size (header (shared \<sigma>))) = ps \<and> length page = ps \<and> ps mod 8 = 0"
  "admissible (EvAppend i) \<sigma>"
  "admissible (EvCommit i) \<sigma> \<longleftrightarrow> c_write_lock_held (conns \<sigma> ! i) \<and> c_max_frame (conns \<sigma> ! i) < 2 ^ 32"
  "admissible (EvRollback i) \<sigma> \<longleftrightarrow> c_write_lock_held (conns \<sigma> ! i)"
  "admissible (EvEndWrite i) \<sigma> \<longleftrightarrow> c_write_lock_held (conns \<sigma> ! i) \<and> c_max_frame (conns \<sigma> ! i) = max_frame (shared \<sigma>)"
  "admissible (EvCkLoad i mode) \<sigma>" "admissible (EvCkCopy i k) \<sigma>" "admissible (EvCkResult i rnd) \<sigma>" "admissible (EvCkFinalize i) \<sigma>"
  "admissible (EvCkPublish i) \<sigma>" "admissible (EvCkTruncate i) \<sigma>" "admissible (EvCkFinish i) \<sigma>" "admissible (EvCkAbort i) \<sigma>"
  "admissible (EvCkRange i [p]) \<sigma> \<longleftrightarrow> (\<forall>q. q \<noteq> p \<longrightarrow> frame_cache (shared \<sigma>) q = [])"
  "admissible (EvCkLock i) \<sigma> \<longleftrightarrow> (case pc (conns \<sigma> ! i) of CkLoaded _ n \<Rightarrow> n = nbackfills (shared \<sigma>) | _ \<Rightarrow> True)"
  by (auto simp: admissible_def Let_def IOV_MAX_def)

lemmas step_defs = wal_step_def conn_step_def step_read_def step_write_def step_checkpoint_wal_def step_checkpoint_pager_def admissible_simps Let_def

lemmas lock_defs = rw_ops rw_flags try_read_mark_shared_def try_read_mark_exclusive_def unlock_read_mark_def read_mark_value_def set_read_mark_value_exclusive_def
  try_upgrade_read_mark_def downgrade_read_mark_def try_write_lock_def unlock_write_lock_def try_checkpoint_lock_def unlock_checkpoint_lock_def

lemma five: "[Suc 0..<5] = [1, 2, 3, 4 :: nat]" "[0..<5] = [0, 1, 2, 3, 4 :: nat]"
  by (simp_all add: upt_rec)

lemma opened_empty:
  "wal_system_open base big [] d 2 = Inr (quiet_sys (quiet_shared (wal_header_new big) 0 0 0 (0, 0) False (\<lambda>_. []) 0 0) (replicate 2 (quiet_conn 0 0 (0, 0) 0 0 0 0 Idle)) (frame_bytes [] 0) d)"
proof -
  have z: "(0 :: u64) = rw_word 0 0 False" by (simp add: rw_word_def)
  have "init_read_lock i = Inr (rw_word (if i < 2 then 0 else READMARK_NOT_USED) 0 False)" for i by (simp add: init_read_lock_def z lock_defs)
  then show ?thesis by (simp add: wal_system_open_def shared_wal_open_def build_shared_wal_def WAL_HEADER_SIZE_def five wal_index_new_def conn_new_def wal_file_new_def
    wal_file.extend_def quiet_defs z numeral_2_eq_2 wal_header_new_def)
qed


lemmas tx_defs = begin_read_load_def begin_read_claim_def begin_read_lock_def begin_read_check_def load_snapshot_def try_begin_read_claim_def try_begin_read_lock_def try_begin_read_check_def install_snapshot_def snapshot_min_frame_def end_read_tx_def
  begin_write_lock_def db_changed_against_def connection_snapshot_def begin_write_restart_def try_restart_log_before_write_def prepare_wal_start_def prepare_wal_header_def
  mark_initialized_def prepare_frames_def IOV_MAX_def frame_offset_def complete_append_frame_def cache_frame_def write_log_def finish_append_frames_commit_def publish_commit_def end_write_tx_def

lemma first_write:
  assumes X: "length X = 512" and h: "seal_wal_header big 512 7 8 h = Inr h1" "wal_page_size h1 = 512" "checkpoint_seq h1 = checkpoint_seq h"
    and f: "prepare_wal_frame big h1 (checksum_1 h1, checksum_2 h1) 512 1 1 X = Inr (ck', buf)"
  shows "run_admissible big (write_tx 1 1 X) (quiet_sys (quiet_shared h 0 0 0 ck False (\<lambda>_. []) 0 e) [c0, quiet_conn 0 0 ck1 q 0 0 0 Idle] l d) =
    Some (quiet_sys (quiet_shared h1 1 0 1 ck' True ((\<lambda>_. [])(1 := [1])) 0 e) [c0, quiet_conn 1 1 ck' (checkpoint_seq h) 1 0 0 Idle] (l(1 := buf)) d)"
  using assms by (simp add: write_tx_def step_defs quiet_defs tx_defs lock_defs)

lemmas ck_defs = checkpoint_load_def acquire_proper_checkpoint_guard_def release_guard_def acquire_checkpoint_guard_def checkpoint_range_def determine_max_safe_checkpoint_frame_def
  iter_latest_frames_def rfind_def List.map_filter_def determine_result_def checkpoint_result_new_def everything_backfilled_def checkpoint_finalize_def checkpoint_failed_def
  bump_checkpoint_epoch_def wal_publish_backfill_def publish_backfill_def to_idle_def restart_log_def apply_restart_snapshot_def

lemmas restart_defs = try_restart_log_for_write_def begin_restart_def end_restart_def restart_wal_header_def

lemma not_used: "\<not> READMARK_NOT_USED < v"
proof -
  have "READMARK_NOT_USED = - 1" by (simp add: READMARK_NOT_USED_def)
  then show ?thesis using word_order.extremum [of v] by (simp add: not_less)
qed

lemma first_checkpoint:
  "run_admissible big (passive_checkpoint 1 1) (quiet_sys (quiet_shared h 1 0 1 ck True ((\<lambda>_. [])(1 := [1])) 0 e) [c0, quiet_conn 1 1 ck q 1 0 0 Idle] l d) =
    Some (quiet_sys (quiet_shared h 1 1 1 ck True ((\<lambda>_. [])(1 := [1])) 1 (e + 1)) [c0, quiet_conn 1 1 ck q 1 1 1 Idle] l (d(1 := frame_page (l 1))))"
  by (simp add: passive_checkpoint_def step_defs quiet_defs tx_defs lock_defs ck_defs five not_used)

lemma second_write:
  assumes Y: "length Y = 512" and h: "seal_wal_header big 512 7 8 (h\<lparr>checkpoint_seq := checkpoint_seq h + 1, salt_1 := salt_1 h + 1, salt_2 := 9\<rparr>) = Inr h2" "wal_page_size h2 = 512" "checkpoint_seq h2 = checkpoint_seq h + 1"
    and f: "prepare_wal_frame big h2 (checksum_1 h2, checksum_2 h2) 512 1 1 Y = Inr (ck', buf)"
  shows "\<exists>c1. run_admissible big (EvCkLoad 0 Restart # write_tx 1 1 Y) (quiet_sys (quiet_shared h 1 1 1 ck True ((\<lambda>_. [])(1 := [1])) 1 e) [quiet_conn 0 0 ck0 0 0 0 0 Idle, quiet_conn 1 1 ck q 1 1 1 Idle] l d) =
    Some (quiet_sys (quiet_shared h2 1 0 2 ck' True ((\<lambda>_. [])(1 := [1])) 0 (e + 1)) [quiet_conn 0 0 ck0 0 0 0 0 (CkLoaded Restart 1), c1] (l(1 := buf)) d) \<and> \<not> reading c1"
  using assms by (simp add: write_tx_def step_defs quiet_defs tx_defs lock_defs ck_defs restart_defs five not_used)

definition locked_sys :: "wal_header \<Rightarrow> u32 \<times> u32 \<Rightarrow> u32 \<Rightarrow> wal_conn \<Rightarrow> u32 \<times> u32 \<Rightarrow> (nat \<Rightarrow> bytes) \<Rightarrow> (nat \<Rightarrow> bytes) \<Rightarrow> wal_sys" where
  "locked_sys h ck e c1 ck0 l d = (let s = quiet_shared h 1 0 2 ck True ((\<lambda>_. [])(1 := [1])) 0 e in
     quiet_sys (s\<lparr>read_locks := (read_locks s)[0 := rw_word 0 0 True], write_lock := rw_word 0 0 True, checkpoint_lock := rw_word 0 0 True\<rparr>)
       [(quiet_conn 0 0 ck0 0 0 0 0 (CkLocked Restart 1))\<lparr>c_checkpoint_guard := Some Writer\<rparr>, c1] l d)"

lemma stale_lock:
  "wal_step big (EvCkLock 0) (quiet_sys (quiet_shared h 1 0 2 ck True ((\<lambda>_. [])(1 := [1])) 0 e) [quiet_conn 0 0 ck0 0 0 0 0 (CkLoaded Restart 1), c1] l d) = Some (Inr (locked_sys h ck e c1 ck0 l d))"
  by (simp add: locked_sys_def step_defs quiet_defs lock_defs ck_defs)

lemma lost_frame:
  "\<exists>h' c0 ck' ep. run_admissible big (locked_restart 0 1) (locked_sys h ck e c1 ck0 l d) = Some (quiet_sys (quiet_shared h' 0 0 2 ck' False (\<lambda>_. []) 0 ep) [c0, c1] l d)"
  by (simp add: locked_sys_def locked_restart_def step_defs quiet_defs tx_defs lock_defs ck_defs restart_defs five not_used)

section \<open>Properties\<close>

lemma seal_wal_header_fields:
  assumes "seal_wal_header big ps r1 r2 h = Inr h'"
  shows "wal_page_size h' = (if wal_page_size h = 0 then of_nat ps else wal_page_size h)" "checkpoint_seq h' = checkpoint_seq h"
  using assms by (auto simp: seal_wal_header_def Let_def rbind_eq_Inr_iff split: if_splits)

text \<open>C5. A commit can be lost. Two connections open an empty database; the second commits page 1 as \<open>X\<close> and backfills it, and the
  first begins a RESTART checkpoint: it loads the number of backfilled frames, 1. Before it takes its locks the second restarts the log and
  commits page 1 as \<open>Y\<close>. The checkpoint goes on with the stale number: its range of frames is empty, the one
  frame of the log counts as backfilled, and the log is restarted without copying it. The committed image had \<open>Y\<close> and now has \<open>X\<close>. Every event of the run is
  admissible but the lock of the checkpoint.\<close>

theorem stale_checkpoint_loses_commit:
  assumes X: "length X = 512" and Y: "length Y = 512"
  shows "\<exists>\<sigma>\<^sub>0 \<sigma> \<sigma>\<^sub>1 \<sigma>'. wal_system_open base big [] d 2 = Inr \<sigma>\<^sub>0 \<and>
    guarded_run admissible (wal_step big) \<sigma>\<^sub>0 (write_tx 1 1 X @ passive_checkpoint 1 1 @ EvCkLoad 0 Restart # write_tx 1 1 Y) \<sigma> \<and>
    wal_step big (EvCkLock 0) \<sigma> = Some (Inr \<sigma>\<^sub>1) \<and> guarded_run admissible (wal_step big) \<sigma>\<^sub>1 (locked_restart 0 1) \<sigma>' \<and>
    run_events big (write_tx 1 1 X @ passive_checkpoint 1 1 @ EvCkLoad 0 Restart # write_tx 1 1 Y) \<sigma>\<^sub>0 = Some (Inr \<sigma>) \<and>
    run_events big (EvCkLock 0 # locked_restart 0 1) \<sigma> = Some (Inr \<sigma>') \<and> committed (iso_of \<sigma>) 1 = Y \<and> committed (iso_of \<sigma>') 1 = X"
proof -
  obtain h1 where h1: "seal_wal_header big 512 7 8 (wal_header_new big) = Inr h1" using seal_wal_header_ok by blast
  then have f1: "wal_page_size h1 = 512" "checkpoint_seq h1 = checkpoint_seq (wal_header_new big)" using seal_wal_header_fields [OF h1] by (simp_all add: wal_header_new_def)
  obtain k1 b1 where b1: "prepare_wal_frame big h1 (checksum_1 h1, checksum_2 h1) 512 1 1 X = Inr (k1, b1)" "frame_page b1 = X"
    using prepare_wal_frame_ok [of X 512 big h1 "(checksum_1 h1, checksum_2 h1)" 1 1] X by auto
  obtain h2 where h2: "seal_wal_header big 512 7 8 (h1\<lparr>checkpoint_seq := checkpoint_seq h1 + 1, salt_1 := salt_1 h1 + 1, salt_2 := 9\<rparr>) = Inr h2" using seal_wal_header_ok by blast
  then have f2: "wal_page_size h2 = 512" "checkpoint_seq h2 = checkpoint_seq h1 + 1" using seal_wal_header_fields [OF h2] f1(1) by simp_all
  obtain k2 b2 where b2: "prepare_wal_frame big h2 (checksum_1 h2, checksum_2 h2) 512 1 1 Y = Inr (k2, b2)" "frame_page b2 = Y"
    using prepare_wal_frame_ok [of Y 512 big h2 "(checksum_1 h2, checksum_2 h2)" 1 1] Y by auto
  let ?c0 = "quiet_conn 0 0 (0, 0) 0 0 0 0" and ?l = "frame_bytes [] 0" and ?fc = "(\<lambda>_. [])(1 := [1])"
  let ?l2 = "(?l(1 := b1))(1 := b2)" and ?d = "d(1 := frame_page ((?l(1 := b1)) 1))"
  note w1 = first_write [OF X h1 f1 b1(1), of "(0, 0)" 0 "?c0 Idle" "(0, 0)" 0 ?l d]
  note w2 = first_checkpoint [of big h1 k1 0 "?c0 Idle" "checkpoint_seq (wal_header_new big)" "?l(1 := b1)" d]
  obtain c1 where w3: "run_admissible big (EvCkLoad 0 Restart # write_tx 1 1 Y) (quiet_sys (quiet_shared h1 1 1 1 k1 True ?fc 1 (0 + 1)) [?c0 Idle, quiet_conn 1 1 k1 (checkpoint_seq (wal_header_new big)) 1 1 1 Idle] (?l(1 := b1)) ?d) =
      Some (quiet_sys (quiet_shared h2 1 0 2 k2 True ?fc 0 (0 + 1 + 1)) [?c0 (CkLoaded Restart 1), c1] ?l2 ?d)"
    using second_write [OF Y h2 f2 b2(1)] by blast
  let ?s = "quiet_sys (quiet_shared h2 1 0 2 k2 True ?fc 0 (0 + 1 + 1)) [?c0 (CkLoaded Restart 1), c1] ?l2 ?d"
  let ?s1 = "locked_sys h2 k2 (0 + 1 + 1) c1 (0, 0) ?l2 ?d"
  have lock: "wal_step big (EvCkLock 0) ?s = Some (Inr ?s1)" by (rule stale_lock)
  obtain h3 c0 k3 ep where w4: "run_admissible big (locked_restart 0 1) ?s1 = Some (quiet_sys (quiet_shared h3 0 0 2 k3 False (\<lambda>_. []) 0 ep) [c0, c1] ?l2 ?d)"
    using lost_frame by blast
  have c2: "replicate 2 c = [c, c]" for c :: wal_conn by (simp add: numeral_2_eq_2)
  have w: "run_admissible big (write_tx 1 1 X @ passive_checkpoint 1 1 @ EvCkLoad 0 Restart # write_tx 1 1 Y) (quiet_sys (quiet_shared (wal_header_new big) 0 0 0 (0, 0) False (\<lambda>_. []) 0 0) [?c0 Idle, ?c0 Idle] ?l d) = Some ?s"
    unfolding run_checked_append w1 option.case w2 w3 ..
  have "run_events big (EvCkLock 0 # locked_restart 0 1) ?s = Some (Inr (quiet_sys (quiet_shared h3 0 0 2 k3 False (\<lambda>_. []) 0 ep) [c0, c1] ?l2 ?d))"
    using lock run_checked_events [OF w4] by simp
  moreover have "committed (iso_of ?s) 1 = Y" by (simp add: iso_of_def quiet_defs image_def rfind_def b2(2))
  moreover have "committed (iso_of (quiet_sys (quiet_shared h3 0 0 2 k3 False (\<lambda>_. []) 0 ep) [c0, c1] ?l2 ?d)) 1 = X" by (simp add: iso_of_def quiet_defs image_def rfind_def b1(2))
  ultimately show ?thesis using opened_empty [of base big d] lock run_checked_guarded [OF w4] run_checked_guarded [OF w] run_checked_events [OF w] unfolding c2 by blast
qed

theorem stale_checkpoint_loses_commit_witness:
  "\<exists>\<sigma>\<^sub>0 \<sigma> \<sigma>\<^sub>1 \<sigma>'. wal_system_open 4096 False [] (\<lambda>_. []) 2 = Inr \<sigma>\<^sub>0 \<and>
    guarded_run admissible (wal_step False) \<sigma>\<^sub>0 (write_tx 1 1 (replicate 512 1) @ passive_checkpoint 1 1 @ EvCkLoad 0 Restart # write_tx 1 1 (replicate 512 2)) \<sigma> \<and>
    wal_step False (EvCkLock 0) \<sigma> = Some (Inr \<sigma>\<^sub>1) \<and> guarded_run admissible (wal_step False) \<sigma>\<^sub>1 (locked_restart 0 1) \<sigma>' \<and>
    run_events False (write_tx 1 1 (replicate 512 1) @ passive_checkpoint 1 1 @ EvCkLoad 0 Restart # write_tx 1 1 (replicate 512 2)) \<sigma>\<^sub>0 = Some (Inr \<sigma>) \<and>
    run_events False (EvCkLock 0 # locked_restart 0 1) \<sigma> = Some (Inr \<sigma>') \<and> committed (iso_of \<sigma>) 1 = replicate 512 2 \<and> committed (iso_of \<sigma>') 1 = replicate 512 1"
  by (rule stale_checkpoint_loses_commit) simp_all

end
