(* ===== verification/Wal_Runs.thy ===== *)
theory Wal_Runs
  imports Wal_Stale Simulation
begin

text \<open>
  Runs of the log: connections that interleave as they like, from any state that satisfies the invariant, among them
  every state that opening a database gives.
\<close>

section \<open>Runs\<close>

interpretation wal_isolation: simulation wal_inv iso_of admissible "wal_step big" iso_step for big
  by unfold_locales (rule wal_step_good)

lemma iso_step_other: "iso_step ev a a' \<Longrightarrow> event_conn ev \<noteq> i \<Longrightarrow> sessions a' ! i = sessions a ! i"
  by (auto simp: iso_step_def Let_def)

lemma session_view: "i < length (conns \<sigma>) \<Longrightarrow> fst (sessions (iso_of \<sigma>) ! i) = (if reading (conns \<sigma> ! i) then Some (image (shared \<sigma>) (log \<sigma>) (db \<sigma>) (c_max_frame (conns \<sigma> ! i))) else None)"
  by (simp add: iso_of_def session_def)

lemma read_page_view:
  assumes "wal_inv \<sigma>" "i < length (conns \<sigma>)" "fst (sessions (iso_of \<sigma>) ! i) = Some v"
  shows "read_page \<sigma> i p = Inr (v p)"
  using assms read_page_image [OF assms(1,2), of p] session_view [OF assms(2)] by (auto split: if_splits)

lemma wal_step_conns: "wal_step big ev \<sigma> = Some (Inr \<sigma>') \<Longrightarrow> length (conns \<sigma>') = length (conns \<sigma>)"
  by (auto simp: wal_step_def Let_def rbind_eq_Inr_iff split: if_splits prod.splits)

lemma wal_run_conns: "guarded_run admissible (wal_step big) \<sigma> evs \<sigma>' \<Longrightarrow> length (conns \<sigma>') = length (conns \<sigma>)"
  by (induction rule: guarded_run.induct) (auto dest: wal_step_conns)

text \<open>A run for the witnesses: one connection begins to read, then another writes a page and commits it.\<close>

lemma opened_empty_inv: "wal_system_open base big [] d 2 = Inr \<sigma> \<Longrightarrow> wal_inv \<sigma>"
  using opened_inv [of base big "[]" "wal_index_new big" 2 d] by (auto simp: build_shared_wal_def WAL_HEADER_SIZE_def wal_index_new_def index_inv_def)

definition read_begin :: "nat \<Rightarrow> wal_event list" where
  "read_begin i = [EvBeginRead i, EvClaimRead i, EvLockRead i, EvCheckRead i]"

lemma example_run:
  "\<exists>\<sigma>\<^sub>0 \<sigma> \<sigma>'. wal_system_open 4096 False [] d 2 = Inr \<sigma>\<^sub>0 \<and> guarded_run admissible (wal_step False) \<sigma>\<^sub>0 (read_begin 0) \<sigma> \<and>
     guarded_run admissible (wal_step False) \<sigma> (write_tx 1 1 (replicate 512 1)) \<sigma>' \<and> wal_inv \<sigma> \<and>
     length (conns \<sigma>) = 2 \<and> reading (conns \<sigma> ! 0) \<and> committed (iso_of \<sigma>) 1 = d 1 \<and> committed (iso_of \<sigma>') 1 = replicate 512 1"
proof -
  obtain h where h: "seal_wal_header False 512 7 8 (wal_header_new False) = Inr h" using seal_wal_header_ok by blast
  have f: "wal_page_size h = 512" "checkpoint_seq h = checkpoint_seq (wal_header_new False)" using seal_wal_header_fields [OF h] by (simp_all add: wal_header_new_def)
  obtain k b where b: "prepare_wal_frame False h (checksum_1 h, checksum_2 h) 512 1 1 (replicate 512 1) = Inr (k, b)" "frame_page b = replicate 512 1"
    using prepare_wal_frame_ok [of "replicate 512 1" 512 False h "(checksum_1 h, checksum_2 h)" 1 1] by auto
  let ?c = "quiet_conn 0 0 (0, 0) 0 0 0 0 Idle" and ?s = "quiet_shared (wal_header_new False) 0 0 0 (0, 0) False (\<lambda>_. []) 0 0" and ?l = "frame_bytes [] 0"
  let ?init = "quiet_sys ?s [?c, ?c] ?l d"
  let ?opened = "quiet_sys (?s\<lparr>read_locks := (read_locks ?s)[0 := rw_word 0 1 False], vacuum_lock := rw_word 0 1 False\<rparr>)
    [?c\<lparr>c_min_frame := 1, c_checkpoint_seq := checkpoint_seq (wal_header_new False), c_read_guard := DbFile, c_vacuum_read := True\<rparr>, ?c] ?l d"
  have c2: "replicate 2 c = [c, c]" for c :: wal_conn by (simp add: numeral_2_eq_2)
  have o: "wal_system_open 4096 False [] d 2 = Inr ?init" unfolding opened_empty c2 ..
  have r1: "run_admissible False (read_begin 0) ?init = Some ?opened" by (simp add: read_begin_def step_defs quiet_defs tx_defs lock_defs)
  have "\<exists>\<sigma>'. run_admissible False (write_tx 1 1 (replicate 512 1)) ?opened = Some \<sigma>' \<and> committed (iso_of \<sigma>') 1 = replicate 512 1"
    using h f b by (simp add: write_tx_def step_defs quiet_defs tx_defs lock_defs iso_of_def image_def rfind_def)
  then obtain \<sigma>' where r2: "run_admissible False (write_tx 1 1 (replicate 512 1)) ?opened = Some \<sigma>'" "committed (iso_of \<sigma>') 1 = replicate 512 1" by blast
  have inv: "wal_inv ?opened" using wal_isolation.run_sim [OF run_checked_guarded [OF r1] opened_empty_inv [OF o]] by blast
  have "length (conns ?opened) = 2" "reading (conns ?opened ! 0)" "committed (iso_of ?opened) 1 = d 1" by (simp_all add: quiet_defs iso_of_def image_def rfind_def)
  then show ?thesis using o inv run_checked_guarded [OF r1] run_checked_guarded [OF r2(1)] r2(2) by blast
qed

section \<open>Properties\<close>

text \<open>C1. Snapshot isolation of the write-ahead log. From any state that satisfies the invariant of the log, connections read, write, commit, roll back,
  checkpoint in any mode and restart the log, and their events interleave in any order, as long as every event is \<open>admissible\<close>: the connection keeps
  the contract of the calls (\<open>Wal_Invariant\<close> lists it), frame numbers stay below 2^32, the page list of a checkpoint covers the index, and a checkpoint that takes its locks finds the
  number of backfilled frames it had loaded before. The last of these is not ensured by the code, and C5 is a run without it. The
  scan for a read mark with its claim, the locks of a checkpoint or of a restart, and the loop over the read marks are single events.
  Then the invariant
  holds and every event is a step of the abstract machine: a reader gets the committed image when it begins, a writer
  changes its own view only, a commit publishes exactly the writer's view, and checkpoints and restarts of the log change nothing that is visible.\<close>

theorem wal_snapshot_isolation:
  assumes "wal_inv \<sigma>" "guarded_run admissible (wal_step big) \<sigma> evs \<sigma>'"
  shows "wal_inv \<sigma>' \<and> abstract_run iso_step (iso_of \<sigma>) evs (iso_of \<sigma>')"
  by (rule wal_isolation.run_sim [OF assms(2,1)])

theorem wal_snapshot_isolation_witness:
  "\<exists>\<sigma> \<sigma>'. wal_system_open 4096 False [] (\<lambda>_. []) 2 = Inr \<sigma> \<and> guarded_run admissible (wal_step False) \<sigma> (read_begin 0 @ write_tx 1 1 (replicate 512 1)) \<sigma>' \<and>
     wal_inv \<sigma>' \<and> abstract_run iso_step (iso_of \<sigma>) (read_begin 0 @ write_tx 1 1 (replicate 512 1)) (iso_of \<sigma>') \<and> committed (iso_of \<sigma>') 1 = replicate 512 1"
proof -
  obtain \<sigma>\<^sub>0 \<sigma> \<sigma>' where s: "wal_system_open 4096 False [] (\<lambda>_. []) 2 = Inr \<sigma>\<^sub>0" "guarded_run admissible (wal_step False) \<sigma>\<^sub>0 (read_begin 0) \<sigma>"
    "guarded_run admissible (wal_step False) \<sigma> (write_tx 1 1 (replicate 512 1)) \<sigma>'" "committed (iso_of \<sigma>') 1 = replicate 512 1"
    using example_run [of "\<lambda>_. []"] by blast
  have g: "guarded_run admissible (wal_step False) \<sigma>\<^sub>0 (read_begin 0 @ write_tx 1 1 (replicate 512 1)) \<sigma>'" by (rule guarded_run_append [OF s(3,2)])
  show ?thesis using s(1,4) g wal_snapshot_isolation [OF opened_empty_inv [OF s(1)] g] by blast
qed

text \<open>C3. No interleaving of connections that keep the contract makes the log fail an assertion: in every state that a run of admissible events reaches, no admissible event of any connection
  ends in a panic (the lock words stay consistent, the snapshot and the connection agree where the code asserts it, a frame number is never zero). The assertions that check the caller's contract, as that a
  transaction is begun twice or that no page is prepared, are excluded by \<open>admissible\<close>, not shown.\<close>

theorem wal_never_panics:
  assumes "wal_inv \<sigma>" "guarded_run admissible (wal_step big) \<sigma> evs \<sigma>'" "admissible ev \<sigma>'"
  shows "wal_step big ev \<sigma>' \<noteq> Some (Inl e)"
  by (rule wal_isolation.run_no_error [OF assms(2,1,3)])

theorem wal_never_panics_witness:
  "\<exists>\<sigma> \<sigma>'. wal_system_open 4096 False [] (\<lambda>_. []) 2 = Inr \<sigma> \<and> guarded_run admissible (wal_step False) \<sigma> (read_begin 0) \<sigma>' \<and> wal_step False (EvCkLoad 0 Full) \<sigma>' \<noteq> Some (Inl Panic)"
proof -
  obtain \<sigma> \<sigma>' where s: "wal_system_open 4096 False [] (\<lambda>_. []) 2 = Inr \<sigma>" and g: "guarded_run admissible (wal_step False) \<sigma> (read_begin 0) \<sigma>'" using example_run [of "\<lambda>_. []"] by blast
  have "admissible (EvCkLoad 0 Full) \<sigma>'" by (simp add: admissible_simps)
  then show ?thesis using s g wal_never_panics [OF opened_empty_inv [OF s] g] by blast
qed

text \<open>C2. A reader's pages do not move. While a connection is in a transaction and other connections commit, checkpoint, copy pages into the
  database file or restart the log, by events that are admissible as in C1, every page it reads, from the log or from the file, is the page of the snapshot it began with.\<close>

theorem wal_reader_stable:
  assumes inv: "wal_inv \<sigma>" and run: "guarded_run admissible (wal_step big) \<sigma> evs \<sigma>'" and i: "i < length (conns \<sigma>)" "reading (conns \<sigma> ! i)" "\<forall>ev \<in> set evs. event_conn ev \<noteq> i"
  shows "read_page \<sigma>' i p = read_page \<sigma> i p \<and> read_page \<sigma> i p = Inr (image (shared \<sigma>) (log \<sigma>) (db \<sigma>) (c_max_frame (conns \<sigma> ! i)) p)"
proof -
  obtain v where v: "fst (sessions (iso_of \<sigma>) ! i) = Some v" using session_view [OF i(1)] i(2) by simp
  have "sessions (iso_of \<sigma>') ! i = sessions (iso_of \<sigma>) ! i"
    by (rule wal_isolation.run_stable [OF run inv]) (use i(3) iso_step_other in blast)
  then have "fst (sessions (iso_of \<sigma>') ! i) = Some v" using v by simp
  moreover have "wal_inv \<sigma>'" using wal_isolation.run_sim [OF run inv] by blast
  ultimately show ?thesis using read_page_view [OF inv i(1) v] read_page_view [of \<sigma>' i v p] wal_run_conns [OF run] i(1) read_page_image [OF inv i(1,2)] by simp
qed

theorem wal_reader_stable_witness:
  "\<exists>\<sigma> \<sigma>'. guarded_run admissible (wal_step False) \<sigma> (write_tx 1 1 (replicate 512 1)) \<sigma>' \<and> reading (conns \<sigma> ! 0) \<and> committed (iso_of \<sigma>') 1 = replicate 512 1 \<and>
     read_page \<sigma>' 0 1 = read_page \<sigma> 0 1"
proof -
  obtain \<sigma> \<sigma>' where g: "guarded_run admissible (wal_step False) \<sigma> (write_tx 1 1 (replicate 512 1)) \<sigma>'" "wal_inv \<sigma>" "length (conns \<sigma>) = 2" "reading (conns \<sigma> ! 0)"
    "committed (iso_of \<sigma>') 1 = replicate 512 1" using example_run [of "\<lambda>_. []"] by blast
  have "\<forall>ev \<in> set (write_tx 1 1 (replicate 512 1)). event_conn ev \<noteq> 0" by (simp add: write_tx_def)
  then show ?thesis using wal_reader_stable [OF g(2,1) _ g(4)] g by auto
qed

end
