(* ===== verification/Page_Cache.thy ===== *)
theory Page_Cache
  imports Prelude "HOL-Library.AList"
begin

text \<open>
  The page cache of \<^verbatim>\<open>core/storage/page_cache.rs\<close> and the page object of \<^verbatim>\<open>core/storage/pager.rs\<close>
  that it holds.

  A page is a shared object: a handle (\<^verbatim>\<open>Arc<Page>\<close>) is an address in the store \<open>pages\<close>, and the object
  carries its flags, its pin count, its log tag and the number of handles to it (\<^verbatim>\<open>Arc::strong_count\<close>). Passing a
  handle by value moves it, \<open>clone_ref\<close> and \<open>drop_ref\<close> are the clones and drops of the source.

  The cache owns boxed entries (\<open>boxes\<close>, with addresses from a counter) that are linked in the eviction queue; the
  hash map goes from keys to addresses of entries and the clock hand is the address of an entry or null. The hash map is
  an association list; where the code iterates over it, the order of the keys is an argument, since the order of a
  hash map is not specified.
\<close>

unbundle bit_operations_syntax

section \<open>The page object\<close>

definition TAG_UNSET :: u64 where "TAG_UNSET = - 1"
definition TAG_WRITE_PENDING :: u64 where "TAG_WRITE_PENDING = TAG_UNSET - 1"
definition EPOCH_BITS :: nat where "EPOCH_BITS = 20"
definition FRAME_BITS :: nat where "FRAME_BITS = 64 - EPOCH_BITS"
definition EPOCH_MAX :: u32 where "EPOCH_MAX = push_bit EPOCH_BITS 1 - 1"
definition FRAME_MAX :: u64 where "FRAME_MAX = push_bit FRAME_BITS 1 - 1"

definition pack_tag_pair :: "u64 \<Rightarrow> u32 \<Rightarrow> u64" where
  "pack_tag_pair frame seq = push_bit FRAME_BITS (ucast seq) OR (frame AND FRAME_MAX)"

definition unpack_tag_pair :: "u64 \<Rightarrow> u64 \<times> u32" where
  "unpack_tag_pair tag =
     (let epoch = ucast (drop_bit FRAME_BITS tag AND ucast EPOCH_MAX); frame = tag AND FRAME_MAX in (frame, epoch))"

lemmas tag_defs = TAG_UNSET_def TAG_WRITE_PENDING_def EPOCH_BITS_def FRAME_BITS_def EPOCH_MAX_def FRAME_MAX_def

record page =
  page_id :: usize
  flags :: u64
  pin_count :: nat
  wal_tag :: u64
  buffer :: "bytes option"
  overflow_cells :: "bytes list"
  strong_count :: nat

definition PAGE_LOCKED :: u64 where "PAGE_LOCKED = 2"
definition PAGE_DIRTY :: u64 where "PAGE_DIRTY = 8"
definition PAGE_LOADED :: u64 where "PAGE_LOADED = 16"
definition PAGE_SPILLED :: u64 where "PAGE_SPILLED = 32"

definition page_new :: "usize \<Rightarrow> page" where
  "page_new n = \<lparr>page_id = n, flags = 0, pin_count = 0, wal_tag = TAG_UNSET, buffer = None, overflow_cells = [],
     strong_count = 1\<rparr>"

definition is_locked :: "page \<Rightarrow> bool" where "is_locked p \<longleftrightarrow> flags p AND PAGE_LOCKED \<noteq> 0"
definition set_locked :: "page \<Rightarrow> page" where "set_locked p = p\<lparr>flags := flags p OR PAGE_LOCKED\<rparr>"
definition clear_locked :: "page \<Rightarrow> page" where "clear_locked p = p\<lparr>flags := flags p AND NOT PAGE_LOCKED\<rparr>"

definition clear_wal_tag :: "page \<Rightarrow> page" where "clear_wal_tag p = p\<lparr>wal_tag := TAG_UNSET\<rparr>"

definition is_dirty :: "page \<Rightarrow> bool" where "is_dirty p \<longleftrightarrow> flags p AND PAGE_DIRTY \<noteq> 0"

definition set_dirty :: "page \<Rightarrow> page" where
  "set_dirty p =
     (let p1 = clear_wal_tag p; p2 = p1\<lparr>flags := flags p1 AND NOT PAGE_SPILLED\<rparr> in p2\<lparr>flags := flags p2 OR PAGE_DIRTY\<rparr>)"

definition clear_dirty_keep_wal_tag :: "page \<Rightarrow> page" where
  "clear_dirty_keep_wal_tag p = p\<lparr>flags := flags p AND NOT PAGE_DIRTY\<rparr>"

definition clear_dirty :: "page \<Rightarrow> page" where
  "clear_dirty p = clear_wal_tag (p\<lparr>flags := flags p AND NOT PAGE_DIRTY\<rparr>)"

definition is_spilled :: "page \<Rightarrow> bool" where "is_spilled p \<longleftrightarrow> flags p AND PAGE_SPILLED \<noteq> 0"
definition set_spilled :: "page \<Rightarrow> page" where "set_spilled p = p\<lparr>flags := flags p OR PAGE_SPILLED\<rparr>"
definition clear_spilled :: "page \<Rightarrow> page" where "clear_spilled p = p\<lparr>flags := flags p AND NOT PAGE_SPILLED\<rparr>"

definition is_loaded :: "page \<Rightarrow> bool" where "is_loaded p \<longleftrightarrow> flags p AND PAGE_LOADED \<noteq> 0"
definition set_loaded :: "page \<Rightarrow> page" where "set_loaded p = p\<lparr>flags := flags p OR PAGE_LOADED\<rparr>"
definition clear_loaded :: "page \<Rightarrow> page" where "clear_loaded p = p\<lparr>flags := flags p AND NOT PAGE_LOADED\<rparr>"

definition pin :: "page \<Rightarrow> page" where "pin p = p\<lparr>pin_count := pin_count p + 1\<rparr>"

definition try_unpin :: "page \<Rightarrow> page \<times> bool" where
  "try_unpin p = (if pin_count p = 0 then (p, False) else (p\<lparr>pin_count := pin_count p - 1\<rparr>, True))"

definition unpin :: "page \<Rightarrow> page res" where
  "unpin p = (let (p1, was_pinned) = try_unpin p in if was_pinned then Inr p1 else Inl Panic)"

definition is_pinned :: "page \<Rightarrow> bool" where "is_pinned p \<longleftrightarrow> pin_count p > 0"

definition set_wal_tag :: "u64 \<Rightarrow> u32 \<Rightarrow> page \<Rightarrow> page" where
  "set_wal_tag frame epoch p = p\<lparr>wal_tag := pack_tag_pair frame (epoch AND EPOCH_MAX)\<rparr>"

definition wal_tag_pair :: "page \<Rightarrow> u64 \<times> u32" where "wal_tag_pair p = unpack_tag_pair (wal_tag p)"

definition has_wal_tag :: "page \<Rightarrow> bool" where
  "has_wal_tag p \<longleftrightarrow> wal_tag p \<noteq> TAG_UNSET \<and> wal_tag p \<noteq> TAG_WRITE_PENDING"

definition set_write_pending :: "page \<Rightarrow> page" where "set_write_pending p = p\<lparr>wal_tag := TAG_WRITE_PENDING\<rparr>"

definition try_set_wal_tag :: "u64 \<Rightarrow> u32 \<Rightarrow> page \<Rightarrow> page \<times> bool" where
  "try_set_wal_tag frame epoch p =
     (if wal_tag p = TAG_UNSET then (p, False) else (p\<lparr>wal_tag := pack_tag_pair frame epoch\<rparr>, True))"

definition is_valid_for_checkpoint :: "u64 \<Rightarrow> u32 \<Rightarrow> page \<Rightarrow> bool" where
  "is_valid_for_checkpoint target_frame epoch p =
     (let (f, s) = wal_tag_pair p in f = target_frame \<and> s = epoch \<and> \<not> is_dirty p \<and> is_loaded p \<and> \<not> is_locked p)"

section \<open>State and errors of the cache\<close>

type_synonym page_ref = nat
type_synonym entry_ptr = nat

definition DEFAULT_SPILL_THRESHOLD_PERCENT :: usize where "DEFAULT_SPILL_THRESHOLD_PERCENT = 90"
definition CLEAR :: nat where "CLEAR = 0"
definition REF_MAX :: nat where "REF_MAX = 3"
definition HEADER_PAGE_ID :: usize where "HEADER_PAGE_ID = 1"

datatype cache_error =
    CacheInternalError
  | CacheLocked usize
  | CacheDirty usize
  | CachePinned usize
  | CacheFull
  | KeyExists
  | CachePanic

datatype cache_resize_result = ResizeDone | PendingEvictions

datatype spill_result = SpillNotNeeded | SpillDisabled | PagesToSpill "page_ref list" | SpillCacheFull

record page_cache_entry =
  entry_key :: usize
  entry_page :: page_ref
  ref_bit :: nat

record page_cache =
  capacity :: usize
  key_map :: "(usize \<times> entry_ptr) list"
  queue :: "entry_ptr list"
  clock_hand :: "entry_ptr option"
  spill_threshold :: usize
  spill_enabled :: bool
  evictable_count :: usize
  boxes :: "entry_ptr \<Rightarrow> page_cache_entry"
  next_box :: entry_ptr
  pages :: "page_ref \<Rightarrow> page"

type_synonym 'a cache_res = "page_cache \<times> (cache_error + 'a)"

definition entry_at :: "page_cache \<Rightarrow> entry_ptr \<Rightarrow> page" where
  "entry_at c e = pages c (entry_page (boxes c e))"

definition on_page :: "page_ref \<Rightarrow> (page \<Rightarrow> page) \<Rightarrow> page_cache \<Rightarrow> page_cache" where
  "on_page r f c = c\<lparr>pages := (pages c)(r := f (pages c r))\<rparr>"

definition on_box :: "entry_ptr \<Rightarrow> (page_cache_entry \<Rightarrow> page_cache_entry) \<Rightarrow> page_cache \<Rightarrow> page_cache" where
  "on_box e f c = c\<lparr>boxes := (boxes c)(e := f (boxes c e))\<rparr>"

definition clone_ref :: "page_ref \<Rightarrow> page_cache \<Rightarrow> page_cache" where
  "clone_ref r = on_page r (\<lambda>p. p\<lparr>strong_count := strong_count p + 1\<rparr>)"

definition drop_ref :: "page_ref \<Rightarrow> page_cache \<Rightarrow> page_cache" where
  "drop_ref r = on_page r (\<lambda>p. p\<lparr>strong_count := strong_count p - 1\<rparr>)"

definition usize_max :: nat where "usize_max = 2 ^ 64 - 1"
definition saturating_mul :: "usize \<Rightarrow> usize \<Rightarrow> usize" where "saturating_mul a b = min (a * b) usize_max"
definition saturating_add :: "usize \<Rightarrow> usize \<Rightarrow> usize" where "saturating_add a b = min (a + b) usize_max"

section \<open>The queue\<close>

text \<open>The element after a given one, insertion after it: the cursor operations of the intrusive list.\<close>

fun next_of :: "'a list \<Rightarrow> 'a \<Rightarrow> 'a option" where
  "next_of [] h = None"
| "next_of [x] h = None"
| "next_of (x # y # xs) h = (if x = h then Some y else next_of (y # xs) h)"

fun insert_after :: "'a list \<Rightarrow> 'a \<Rightarrow> 'a \<Rightarrow> 'a list" where
  "insert_after [] h e = []"
| "insert_after (x # xs) h e = (if x = h then x # e # xs else x # insert_after xs h e)"

section \<open>Operations\<close>

definition page_cache_entry_new :: "usize \<Rightarrow> page_ref \<Rightarrow> page_cache_entry" where
  "page_cache_entry_new key r = \<lparr>entry_key = key, entry_page = r, ref_bit = CLEAR\<rparr>"

definition bump_ref :: "page_cache_entry \<Rightarrow> page_cache_entry" where
  "bump_ref e = e\<lparr>ref_bit := min (ref_bit e + 1) REF_MAX\<rparr>"

definition decrement_ref :: "page_cache_entry \<Rightarrow> page_cache_entry" where
  "decrement_ref e = e\<lparr>ref_bit := ref_bit e - 1\<rparr>"

definition new_with_spill :: "usize \<Rightarrow> bool \<Rightarrow> (page_ref \<Rightarrow> page) \<Rightarrow> page_cache" where
  "new_with_spill cap enabled ps =
     (let threshold = (cap * DEFAULT_SPILL_THRESHOLD_PERCENT) div 100 in
      \<lparr>capacity = cap, key_map = [], queue = [], clock_hand = None, spill_threshold = max threshold 1,
       spill_enabled = enabled, evictable_count = 0, boxes = (\<lambda>_. page_cache_entry_new 0 0), next_box = 0, pages = ps\<rparr>)"

definition page_cache_new :: "usize \<Rightarrow> (page_ref \<Rightarrow> page) \<Rightarrow> page_cache" where
  "page_cache_new cap = new_with_spill cap True"

definition cache_len :: "page_cache \<Rightarrow> usize" where "cache_len c = length (key_map c)"

definition advance_clock_hand :: "page_cache \<Rightarrow> page_cache" where
  "advance_clock_hand c =
     (case clock_hand c of
        None \<Rightarrow> c
      | Some h \<Rightarrow>
          (case next_of (queue c) h of
             Some n \<Rightarrow> c\<lparr>clock_hand := Some n\<rparr>
           | None \<Rightarrow> (case queue c of [] \<Rightarrow> c\<lparr>clock_hand := None\<rparr> | x # _ \<Rightarrow> c\<lparr>clock_hand := Some x\<rparr>)))"

definition contains_key :: "usize \<Rightarrow> page_cache \<Rightarrow> bool" where
  "contains_key key c \<longleftrightarrow> map_of (key_map c) key \<noteq> None"

definition spillable :: "page \<Rightarrow> bool" where
  "spillable p \<longleftrightarrow> is_dirty p \<and> \<not> is_spilled p \<and> \<not> is_locked p \<and> \<not> is_pinned p \<and> strong_count p = 1
     \<and> page_id p \<noteq> HEADER_PAGE_ID \<and> overflow_cells p = []"

definition counted_as_evictable :: "page \<Rightarrow> bool" where
  "counted_as_evictable p = (if page_id p = HEADER_PAGE_ID then False else \<not> is_dirty p \<or> is_spilled p)"

definition evictable :: "page \<Rightarrow> bool" where
  "evictable p \<longleftrightarrow> (\<not> is_dirty p \<or> is_spilled p) \<and> \<not> is_locked p \<and> \<not> is_pinned p \<and> page_id p \<noteq> HEADER_PAGE_ID
     \<and> strong_count p = 1"

definition clean_page :: "page_ref \<Rightarrow> page_cache \<Rightarrow> page_cache" where
  "clean_page r = on_page r (\<lambda>p. (clear_loaded p)\<lparr>buffer := None\<rparr>)"

text \<open>Removing the entry from the queue drops its box and with it the handle to the page.\<close>

definition unlink_entry :: "entry_ptr \<Rightarrow> page_cache \<Rightarrow> page_cache" where
  "unlink_entry e c = drop_ref (entry_page (boxes c e)) (c\<lparr>queue := remove1 e (queue c)\<rparr>)"

definition step_hand_off :: "entry_ptr \<Rightarrow> page_cache \<Rightarrow> page_cache" where
  "step_hand_off e c =
     (let c1 = advance_clock_hand c in if clock_hand c1 = Some e then c1\<lparr>clock_hand := None\<rparr> else c1)"

definition delete_inner :: "usize \<Rightarrow> bool \<Rightarrow> page_cache \<Rightarrow> unit cache_res" where
  "delete_inner key clean c =
     (case map_of (key_map c) key of
        None \<Rightarrow> (c, Inr ())
      | Some e \<Rightarrow>
          (let r = entry_page (boxes c e); p = pages c r in
           if is_locked p then (c, Inl (CacheLocked (page_id p)))
           else if is_dirty p then (c, Inl (CacheDirty (page_id p)))
           else if is_pinned p then (c, Inl (CachePinned (page_id p)))
           else
             (let was_evictable = counted_as_evictable p;
                  c1 = (if clean then clean_page r c else c);
                  c2 = c1\<lparr>key_map := AList.delete key (key_map c1)\<rparr>;
                  c3 = (if clock_hand c2 = Some e then step_hand_off e c2 else c2);
                  c4 = unlink_entry e c3;
                  c5 = (if was_evictable then c4\<lparr>evictable_count := evictable_count c4 - 1\<rparr> else c4)
              in (c5, Inr ()))))"

definition cache_delete :: "usize \<Rightarrow> page_cache \<Rightarrow> unit cache_res" where
  "cache_delete key c = delete_inner key True c"

definition cache_get :: "usize \<Rightarrow> page_cache \<Rightarrow> page_ref option cache_res" where
  "cache_get key c =
     (case map_of (key_map c) key of
        None \<Rightarrow> (c, Inr None)
      | Some e \<Rightarrow>
          (let r = entry_page (boxes c e); c1 = clone_ref r c in
           if \<not> is_loaded (pages c1 r) \<and> \<not> is_locked (pages c1 r) then
             (let (c2, res) = cache_delete key c1; c3 = drop_ref r c2 in
              (c3, (case res of Inl err \<Rightarrow> Inl err | Inr _ \<Rightarrow> Inr None)))
           else (on_box e bump_ref c1, Inr (Some r))))"

definition cache_peek :: "usize \<Rightarrow> bool \<Rightarrow> page_cache \<Rightarrow> page_cache \<times> page_ref option" where
  "cache_peek key touch c =
     (case map_of (key_map c) key of
        None \<Rightarrow> (c, None)
      | Some e \<Rightarrow>
          (let r = entry_page (boxes c e); c1 = clone_ref r c in
           (if touch then on_box e bump_ref c1 else c1, Some r)))"

text \<open>One turn of the clock; the counter is the number of examinations left.\<close>

primrec evict_loop :: "nat \<Rightarrow> page_cache \<Rightarrow> unit cache_res" where
  "evict_loop 0 c = (c, Inl CacheFull)"
| "evict_loop (Suc left) c =
     (case clock_hand c of
        None \<Rightarrow> (c, Inl CachePanic)
      | Some e \<Rightarrow>
          (let key = entry_key (boxes c e); r = entry_page (boxes c e); p = pages c r in
           if evictable p \<and> ref_bit (boxes c e) = CLEAR then
             (if \<not> counted_as_evictable p then (c, Inl CachePanic)
              else
                (let c1 = step_hand_off e c;
                     c2 = c1\<lparr>key_map := AList.delete key (key_map c1)\<rparr>;
                     c3 = clean_page r c2;
                     c4 = unlink_entry e c3
                 in (c4\<lparr>evictable_count := evictable_count c4 - 1\<rparr>, Inr ())))
           else if evictable p then evict_loop left (advance_clock_hand (on_box e decrement_ref c))
           else evict_loop left (advance_clock_hand c)))"

definition evict_one :: "page_cache \<Rightarrow> unit cache_res" where
  "evict_one c =
     (if cache_len c = 0 then (c, Inl CacheInternalError)
      else evict_loop (saturating_mul (cache_len c) (REF_MAX + 1)) c)"

text \<open>
  The loop \<^verbatim>\<open>while self.len() > target { self.evict_one()? }\<close>. A successful eviction removes one entry, so as many
  turns as there are entries are enough (\<open>evict_until_unfold\<close>).
\<close>

primrec evict_until_fuel :: "nat \<Rightarrow> usize \<Rightarrow> page_cache \<Rightarrow> unit cache_res" where
  "evict_until_fuel 0 target c = (if target < cache_len c then (c, Inl CachePanic) else (c, Inr ()))"
| "evict_until_fuel (Suc n) target c =
     (if target < cache_len c then
        (case evict_one c of (c1, Inl err) \<Rightarrow> (c1, Inl err) | (c1, Inr _) \<Rightarrow> evict_until_fuel n target c1)
      else (c, Inr ()))"

definition evict_until :: "usize \<Rightarrow> page_cache \<Rightarrow> unit cache_res" where
  "evict_until target c = evict_until_fuel (cache_len c) target c"

definition make_room_for :: "usize \<Rightarrow> bool \<Rightarrow> page_cache \<Rightarrow> unit cache_res" where
  "make_room_for n bypass_capacity c =
     (if bypass_capacity then (c, Inr ())
      else if n > capacity c then (c, Inl CacheFull)
      else (let target_len = capacity c - n in evict_until target_len c))"

definition link_entry :: "usize \<Rightarrow> page_ref \<Rightarrow> page_cache \<Rightarrow> unit cache_res" where
  "link_entry key r c =
     (let e = next_box c;
          c1 = c\<lparr>boxes := (boxes c)(e := page_cache_entry_new key r), next_box := Suc e\<rparr>
      in case clock_hand c1 of
           None \<Rightarrow>
             (c1\<lparr>queue := queue c1 @ [e], key_map := AList.update key e (key_map c1), clock_hand := Some e\<rparr>, Inr ())
         | Some h \<Rightarrow>
             (let c2 = c1\<lparr>queue := insert_after (queue c1) h e\<rparr> in
              case next_of (queue c2) h of
                None \<Rightarrow> (c2, Inl CacheInternalError)
              | Some entry_ptr \<Rightarrow> (c2\<lparr>key_map := AList.update key entry_ptr (key_map c2)\<rparr>, Inr ())))"

definition insert_new :: "usize \<Rightarrow> page_ref \<Rightarrow> bool \<Rightarrow> page_cache \<Rightarrow> unit cache_res" where
  "insert_new key r bypass_capacity c =
     (case make_room_for 1 bypass_capacity c of
        (c1, Inl err) \<Rightarrow> (drop_ref r c1, Inl err)
      | (c1, Inr _) \<Rightarrow>
          (let is_evictable = counted_as_evictable (pages c1 r) in
           case link_entry key r c1 of
             (c2, Inl err) \<Rightarrow> (c2, Inl err)
           | (c2, Inr _) \<Rightarrow>
               (if is_evictable then c2\<lparr>evictable_count := evictable_count c2 + 1\<rparr> else c2, Inr ())))"

definition replace_in_place :: "entry_ptr \<Rightarrow> page_ref \<Rightarrow> page_cache \<Rightarrow> page_cache" where
  "replace_in_place e r c =
     (let old_evictable = counted_as_evictable (entry_at c e);
          new_evictable = counted_as_evictable (pages c r);
          c1 = (if old_evictable \<and> \<not> new_evictable then c\<lparr>evictable_count := evictable_count c - 1\<rparr>
                else if \<not> old_evictable \<and> new_evictable then c\<lparr>evictable_count := evictable_count c + 1\<rparr>
                else c);
          old = entry_page (boxes c1 e)
      in drop_ref old (on_box e (\<lambda>b. b\<lparr>entry_page := r\<rparr>) c1))"

definition insert_inner :: "usize \<Rightarrow> page_ref \<Rightarrow> bool \<Rightarrow> bool \<Rightarrow> page_cache \<Rightarrow> unit cache_res" where
  "insert_inner key r update_in_place bypass_capacity c =
     (case map_of (key_map c) key of
        Some e \<Rightarrow>
          (if \<not> is_loaded (entry_at c e) \<and> \<not> is_locked (entry_at c e) then
             (case delete_inner key True c of
                (c1, Inl err) \<Rightarrow> (drop_ref r c1, Inl err)
              | (c1, Inr _) \<Rightarrow> insert_new key r bypass_capacity c1)
           else
             (let c1 = on_box e bump_ref c in
              if update_in_place then (replace_in_place e r c1, Inr ())
              else if entry_page (boxes c1 e) = r then (drop_ref r c1, Inl KeyExists)
              else (c1, Inl CachePanic)))
      | None \<Rightarrow> insert_new key r bypass_capacity c)"

definition cache_insert :: "usize \<Rightarrow> page_ref \<Rightarrow> page_cache \<Rightarrow> unit cache_res" where
  "cache_insert key r c = insert_inner key r False False c"

definition upsert_page :: "usize \<Rightarrow> page_ref \<Rightarrow> page_cache \<Rightarrow> unit cache_res" where
  "upsert_page key r c = insert_inner key r True False c"

text \<open>The forced variants clone the handle for the first attempt and drop the spare one when it does not fail with \<open>CacheFull\<close>.\<close>

definition force_upsert_page :: "usize \<Rightarrow> page_ref \<Rightarrow> page_cache \<Rightarrow> unit cache_res" where
  "force_upsert_page key r c =
     (let (c1, res) = upsert_page key r (clone_ref r c) in
      if res = Inl CacheFull then insert_inner key r True True c1 else (drop_ref r c1, res))"

definition force_insert_page :: "usize \<Rightarrow> page_ref \<Rightarrow> page_cache \<Rightarrow> unit cache_res" where
  "force_insert_page key r c =
     (let (c1, res) = cache_insert key r (clone_ref r c) in
      if res = Inl CacheFull then insert_inner key r False True c1 else (drop_ref r c1, res))"

definition cache_resize :: "usize \<Rightarrow> page_cache \<Rightarrow> page_cache \<times> cache_resize_result" where
  "cache_resize new_cap c =
     (if new_cap = capacity c then (c, ResizeDone)
      else
        (case evict_until new_cap c of
           (c1, Inl _) \<Rightarrow> (c1, PendingEvictions)
         | (c1, Inr _) \<Rightarrow>
             (c1\<lparr>capacity := new_cap, spill_threshold := max ((new_cap * DEFAULT_SPILL_THRESHOLD_PERCENT) div 100) 1\<rparr>,
              ResizeDone)))"

section \<open>Spilling\<close>

definition count_evictable_pages :: "page_cache \<Rightarrow> usize" where
  "count_evictable_pages c = length (filter (\<lambda>(k, e). evictable (entry_at c e)) (key_map c))"

definition needs_spill :: "page_cache \<Rightarrow> bool" where
  "needs_spill c =
     (let len = cache_len c in
      if len < spill_threshold c \<or> \<not> spill_enabled c then False
      else
        (let needed_evictable = len - spill_threshold c;
             empty_slots = capacity c - len;
             available_room = saturating_add (evictable_count c) empty_slots
         in if available_room \<ge> needed_evictable then False else count_evictable_pages c < needed_evictable))"

definition set_spill_enabled :: "bool \<Rightarrow> page_cache \<Rightarrow> page_cache" where
  "set_spill_enabled enabled c = c\<lparr>spill_enabled := enabled\<rparr>"

definition notify_page_dirty :: "usize \<Rightarrow> page_cache \<Rightarrow> page_cache" where
  "notify_page_dirty key c =
     (case map_of (key_map c) key of
        None \<Rightarrow> c
      | Some e \<Rightarrow>
          (if page_id (entry_at c e) \<noteq> HEADER_PAGE_ID then c\<lparr>evictable_count := evictable_count c - 1\<rparr> else c))"

definition notify_page_spilled :: "usize \<Rightarrow> page_cache \<Rightarrow> page_cache" where
  "notify_page_spilled key c =
     (case map_of (key_map c) key of
        None \<Rightarrow> c
      | Some e \<Rightarrow>
          (if page_id (entry_at c e) \<noteq> HEADER_PAGE_ID then c\<lparr>evictable_count := evictable_count c + 1\<rparr> else c))"

definition pin_guard_new :: "page_ref \<Rightarrow> page_cache \<Rightarrow> page_cache" where
  "pin_guard_new r = on_page r pin"

definition pin_guard_drop :: "page_ref \<Rightarrow> page_cache \<Rightarrow> page_cache" where
  "pin_guard_drop r c = drop_ref r (on_page r (\<lambda>p. fst (try_unpin p)) c)"

text \<open>The loop over the map pushes guards; \<open>acc\<close> holds the pages pushed so far, the last one first.\<close>

primrec collect_loop :: "usize list \<Rightarrow> usize \<Rightarrow> page_ref list \<Rightarrow> page_cache \<Rightarrow> page_cache \<times> page_ref list" where
  "collect_loop [] max_pages acc c = (c, acc)"
| "collect_loop (k # ks) max_pages acc c =
     (case map_of (key_map c) k of
        None \<Rightarrow> collect_loop ks max_pages acc c
      | Some e \<Rightarrow>
          (let r = entry_page (boxes c e);
               (c1, acc1) = (if spillable (pages c r) then (pin_guard_new r (clone_ref r c), r # acc) else (c, acc))
           in if length acc1 \<ge> max_pages then (c1, acc1) else collect_loop ks max_pages acc1 c1))"

definition collect_spillable_pages :: "usize list \<Rightarrow> usize \<Rightarrow> page_cache \<Rightarrow> page_cache \<times> page_ref list" where
  "collect_spillable_pages ks max_pages c =
     (if \<not> spill_enabled c \<or> max_pages = 0 then (c, [])
      else
        (let (c1, acc) = collect_loop ks max_pages [] c in
         (c1, sort_key (\<lambda>r. page_id (pages c1 r)) (rev acc))))"

definition check_spill :: "usize list \<Rightarrow> usize \<Rightarrow> page_cache \<Rightarrow> page_cache \<times> spill_result" where
  "check_spill ks max_pages c =
     (if \<not> needs_spill c then (c, SpillNotNeeded)
      else
        (let (c1, found) = collect_spillable_pages ks max_pages c in
         if found = [] then (c1, SpillCacheFull) else (c1, PagesToSpill found)))"

section \<open>Clearing\<close>

primrec clean_pages :: "usize list \<Rightarrow> page_cache \<Rightarrow> page_cache" where
  "clean_pages [] c = c"
| "clean_pages (k # ks) c =
     clean_pages ks (case map_of (key_map c) k of None \<Rightarrow> c | Some e \<Rightarrow> clean_page (entry_page (boxes c e)) c)"

definition drop_refs :: "page_ref list \<Rightarrow> page_cache \<Rightarrow> page_cache" where
  "drop_refs rs c = fold drop_ref rs c"

definition cache_clear :: "usize list \<Rightarrow> bool \<Rightarrow> page_cache \<Rightarrow> unit cache_res" where
  "cache_clear ks clear_dirty_pages c =
     (case find (\<lambda>k. case map_of (key_map c) k of None \<Rightarrow> False | Some e \<Rightarrow> is_dirty (entry_at c e) \<and> \<not> clear_dirty_pages) ks of
        Some k \<Rightarrow> (c, Inl (CacheDirty (case map_of (key_map c) k of None \<Rightarrow> 0 | Some e \<Rightarrow> page_id (entry_at c e))))
      | None \<Rightarrow>
          (let c1 = clean_pages ks c;
               c2 = drop_refs (map (\<lambda>e. entry_page (boxes c1 e)) (queue c1)) (c1\<lparr>key_map := [], queue := []\<rparr>)
           in (c2\<lparr>clock_hand := None, evictable_count := 0\<rparr>, Inr ())))"

primrec delete_all :: "usize list \<Rightarrow> page_cache \<Rightarrow> unit cache_res" where
  "delete_all [] c = (c, Inr ())"
| "delete_all (k # ks) c =
     (case cache_delete k c of (c1, Inl err) \<Rightarrow> (c1, Inl err) | (c1, Inr _) \<Rightarrow> delete_all ks c1)"

definition cache_truncate :: "usize list \<Rightarrow> usize \<Rightarrow> page_cache \<Rightarrow> unit cache_res" where
  "cache_truncate ks max_page_num c = delete_all (filter (\<lambda>k. k > max_page_num) ks) c"

definition delete_clean_pages_after_wal_frame :: "usize list \<Rightarrow> u64 \<Rightarrow> page_cache \<Rightarrow> unit cache_res" where
  "delete_clean_pages_after_wal_frame ks max_frame c =
     delete_all (filter (\<lambda>k. case map_of (key_map c) k of
        None \<Rightarrow> False
      | Some e \<Rightarrow> \<not> is_dirty (entry_at c e) \<and> has_wal_tag (entry_at c e) \<and> fst (wal_tag_pair (entry_at c e)) > max_frame) ks) c"

section \<open>Flags\<close>

lemma mask_keep_other: "a AND b = (0 :: u64) \<Longrightarrow> (w AND NOT a) AND b = w AND b"
  by (simp add: bit_eq_iff bit_simps) blast

lemma mask_set_other: "a AND b = (0 :: u64) \<Longrightarrow> (w OR a) AND b = w AND b"
  by (simp add: bit_eq_iff bit_simps) blast

lemma mask_cleared: "(w AND NOT a) AND a = (0 :: u64)"
  by (simp add: bit_eq_iff bit_simps)

lemma mask_set: "(w OR a) AND a = (a :: u64)"
  by (simp add: bit_eq_iff bit_simps)

lemma flag_masks:
  "PAGE_LOCKED AND PAGE_DIRTY = 0" "PAGE_LOCKED AND PAGE_LOADED = 0" "PAGE_LOCKED AND PAGE_SPILLED = 0" "PAGE_DIRTY AND PAGE_LOCKED = 0" "PAGE_DIRTY AND PAGE_LOADED = 0" "PAGE_DIRTY AND PAGE_SPILLED = 0" "PAGE_LOADED AND PAGE_LOCKED = 0" "PAGE_LOADED AND PAGE_DIRTY = 0" "PAGE_LOADED AND PAGE_SPILLED = 0" "PAGE_SPILLED AND PAGE_LOCKED = 0" "PAGE_SPILLED AND PAGE_DIRTY = 0" "PAGE_SPILLED AND PAGE_LOADED = 0"
  "PAGE_LOCKED \<noteq> 0" "PAGE_DIRTY \<noteq> 0" "PAGE_LOADED \<noteq> 0" "PAGE_SPILLED \<noteq> 0"
  unfolding PAGE_LOCKED_def PAGE_DIRTY_def PAGE_LOADED_def PAGE_SPILLED_def by simp_all

lemmas flag_defs = is_locked_def set_locked_def clear_locked_def is_dirty_def set_dirty_def clear_dirty_def is_spilled_def
  set_spilled_def clear_spilled_def is_loaded_def set_loaded_def clear_loaded_def clear_wal_tag_def
  clear_dirty_keep_wal_tag_def

lemma flag_simps [simp]:
  "is_locked (set_locked p)" "is_dirty (set_locked p) = is_dirty p" "is_spilled (set_locked p) = is_spilled p" "is_loaded (set_locked p) = is_loaded p"
  "\<not> is_locked (clear_locked p)" "is_dirty (clear_locked p) = is_dirty p" "is_spilled (clear_locked p) = is_spilled p" "is_loaded (clear_locked p) = is_loaded p"
  "is_locked (set_dirty p) = is_locked p" "is_dirty (set_dirty p)" "\<not> is_spilled (set_dirty p)" "is_loaded (set_dirty p) = is_loaded p"
  "is_locked (clear_dirty p) = is_locked p" "\<not> is_dirty (clear_dirty p)" "is_spilled (clear_dirty p) = is_spilled p" "is_loaded (clear_dirty p) = is_loaded p"
  "is_locked (set_spilled p) = is_locked p" "is_dirty (set_spilled p) = is_dirty p" "is_spilled (set_spilled p)" "is_loaded (set_spilled p) = is_loaded p"
  "is_locked (set_loaded p) = is_locked p" "is_dirty (set_loaded p) = is_dirty p" "is_spilled (set_loaded p) = is_spilled p" "is_loaded (set_loaded p)"
  "is_locked (clear_loaded p) = is_locked p" "is_dirty (clear_loaded p) = is_dirty p" "is_spilled (clear_loaded p) = is_spilled p" "\<not> is_loaded (clear_loaded p)"
  "is_locked (clear_wal_tag p) = is_locked p" "is_dirty (clear_wal_tag p) = is_dirty p" "is_spilled (clear_wal_tag p) = is_spilled p" "is_loaded (clear_wal_tag p) = is_loaded p"
  unfolding flag_defs by (simp_all add: mask_keep_other mask_set_other mask_cleared mask_set flag_masks Let_def)

lemma flag_field_simps [simp]:
  "page_id (set_locked p) = page_id p" "pin_count (set_locked p) = pin_count p" "strong_count (set_locked p) = strong_count p" "buffer (set_locked p) = buffer p"
  "page_id (clear_locked p) = page_id p" "pin_count (clear_locked p) = pin_count p" "strong_count (clear_locked p) = strong_count p" "buffer (clear_locked p) = buffer p"
  "page_id (set_dirty p) = page_id p" "pin_count (set_dirty p) = pin_count p" "strong_count (set_dirty p) = strong_count p" "buffer (set_dirty p) = buffer p"
  "page_id (clear_dirty p) = page_id p" "pin_count (clear_dirty p) = pin_count p" "strong_count (clear_dirty p) = strong_count p" "buffer (clear_dirty p) = buffer p"
  "page_id (set_spilled p) = page_id p" "pin_count (set_spilled p) = pin_count p" "strong_count (set_spilled p) = strong_count p" "buffer (set_spilled p) = buffer p"
  "page_id (set_loaded p) = page_id p" "pin_count (set_loaded p) = pin_count p" "strong_count (set_loaded p) = strong_count p" "buffer (set_loaded p) = buffer p"
  "page_id (clear_loaded p) = page_id p" "pin_count (clear_loaded p) = pin_count p" "strong_count (clear_loaded p) = strong_count p" "buffer (clear_loaded p) = buffer p"
  "page_id (clear_wal_tag p) = page_id p" "pin_count (clear_wal_tag p) = pin_count p" "strong_count (clear_wal_tag p) = strong_count p" "buffer (clear_wal_tag p) = buffer p"
  unfolding flag_defs by (simp_all add: Let_def)

lemma flag_update_simps [simp]:
  "is_locked (p\<lparr>strong_count := n\<rparr>) = is_locked p" "is_dirty (p\<lparr>strong_count := n\<rparr>) = is_dirty p"
  "is_spilled (p\<lparr>strong_count := n\<rparr>) = is_spilled p" "is_loaded (p\<lparr>strong_count := n\<rparr>) = is_loaded p"
  "is_locked (p\<lparr>buffer := b\<rparr>) = is_locked p" "is_dirty (p\<lparr>buffer := b\<rparr>) = is_dirty p"
  "is_spilled (p\<lparr>buffer := b\<rparr>) = is_spilled p" "is_loaded (p\<lparr>buffer := b\<rparr>) = is_loaded p"
  "is_locked (p\<lparr>pin_count := n\<rparr>) = is_locked p" "is_dirty (p\<lparr>pin_count := n\<rparr>) = is_dirty p"
  "is_spilled (p\<lparr>pin_count := n\<rparr>) = is_spilled p" "is_loaded (p\<lparr>pin_count := n\<rparr>) = is_loaded p"
  "is_locked (p\<lparr>wal_tag := t\<rparr>) = is_locked p" "is_dirty (p\<lparr>wal_tag := t\<rparr>) = is_dirty p"
  "is_spilled (p\<lparr>wal_tag := t\<rparr>) = is_spilled p" "is_loaded (p\<lparr>wal_tag := t\<rparr>) = is_loaded p"
  "is_locked (p\<lparr>page_id := n\<rparr>) = is_locked p" "is_dirty (p\<lparr>page_id := n\<rparr>) = is_dirty p"
  "is_spilled (p\<lparr>page_id := n\<rparr>) = is_spilled p" "is_loaded (p\<lparr>page_id := n\<rparr>) = is_loaded p"
  unfolding flag_defs by simp_all

lemma evictable_counted: "evictable p \<Longrightarrow> counted_as_evictable p"
  unfolding evictable_def counted_as_evictable_def by simp

section \<open>Log tags\<close>

lemma tag_masks: "FRAME_MAX = mask 44" "EPOCH_MAX = mask 20" "FRAME_BITS = 44"
  unfolding tag_defs by (simp_all add: mask_eq_exp_minus_1)

lemma le_mask_AND: "w \<le> mask 44 \<Longrightarrow> w AND mask 44 = (w :: u64)" "v \<le> mask 20 \<Longrightarrow> v AND mask 20 = (v :: u32)"
  unfolding mask_eq_iff word_le_def by (simp_all add: mask_eq_exp_minus_1)

text \<open>
  The pair packed into a tag is read back, up to the bits that the tag has room for; a tag set on a clean, loaded and
  unlocked page is what makes it valid for a checkpoint of that frame and epoch.
\<close>

lemma tag_roundtrip: "unpack_tag_pair (pack_tag_pair frame seq) = (frame AND FRAME_MAX, seq AND EPOCH_MAX)"
  unfolding unpack_tag_pair_def pack_tag_pair_def tag_masks
  by (simp add: bit_eq_iff bit_simps Let_def) auto

lemma set_wal_tag_valid:
  assumes "frame \<le> FRAME_MAX" "epoch \<le> EPOCH_MAX" "\<not> is_dirty p" "is_loaded p" "\<not> is_locked p"
  shows "is_valid_for_checkpoint frame' epoch' (set_wal_tag frame epoch p) \<longleftrightarrow> frame' = frame \<and> epoch' = epoch"
proof -
  have "unpack_tag_pair (pack_tag_pair frame (epoch AND EPOCH_MAX)) = (frame, epoch)"
    using assms(1,2) unfolding tag_roundtrip tag_masks by (simp add: le_mask_AND)
  then show ?thesis
    using assms(3-5) unfolding is_valid_for_checkpoint_def wal_tag_pair_def set_wal_tag_def by auto
qed

end
