(* ===== verification/Page_Evict.thy ===== *)
theory Page_Evict
  imports Page_Cache
begin

text \<open>
  The invariant of the page cache and the clock: what removing an entry does, that every sweep keeps the invariant, and
  that a sweep finds a victim exactly when some page may be evicted.
\<close>

section \<open>Queue lemmas\<close>

lemma next_of_nth: "distinct xs \<Longrightarrow> i < length xs \<Longrightarrow> next_of xs (xs ! i) = (if Suc i < length xs then Some (xs ! Suc i) else None)"
proof (induction xs "xs ! i" arbitrary: i rule: next_of.induct)
  case (3 x y xs)
  show ?case
  proof (cases i)
    case (Suc j)
    then have "(y # xs) ! j \<in> set (y # xs)" using 3 by (intro nth_mem) simp
    then have "x \<noteq> (y # xs) ! j" using 3(2) by (metis distinct.simps(2))
    then show ?thesis using 3 Suc by auto
  qed (use 3 in auto)
qed auto

lemma insert_after_set: "h \<in> set xs \<Longrightarrow> set (insert_after xs h e) = insert e (set xs)"
  by (induction xs) auto

lemma insert_after_subset: "set (insert_after xs h e) \<subseteq> insert e (set xs)"
  by (induction xs) auto

lemma insert_after_distinct: "distinct xs \<Longrightarrow> e \<notin> set xs \<Longrightarrow> distinct (insert_after xs h e)"
  using insert_after_subset by (induction xs) fastforce+

lemma insert_after_next: "h \<in> set xs \<Longrightarrow> next_of (insert_after xs h e) h = Some e"
proof (induction xs)
  case (Cons x xs)
  then show ?case by (cases xs) auto
qed simp

section \<open>Invariant\<close>

definition entry_counted :: "page_cache \<Rightarrow> entry_ptr set" where
  "entry_counted c = {e \<in> set (queue c). counted_as_evictable (entry_at c e)}"

definition entries_of :: "page_cache \<Rightarrow> page_ref \<Rightarrow> entry_ptr set" where
  "entries_of c r = {e \<in> set (queue c). entry_page (boxes c e) = r}"

definition key_of :: "page_cache \<Rightarrow> entry_ptr \<Rightarrow> usize" where "key_of c e = entry_key (boxes c e)"

definition index_ok :: "page_cache \<Rightarrow> bool" where
  "index_ok c \<longleftrightarrow> distinct (map fst (key_map c)) \<and> distinct (queue c) \<and> inj_on (key_of c) (set (queue c))
     \<and> set (key_map c) = (\<lambda>e. (key_of c e, e)) ` set (queue c)"

definition hand_ok :: "page_cache \<Rightarrow> bool" where
  "hand_ok c \<longleftrightarrow> (case clock_hand c of None \<Rightarrow> queue c = [] | Some h \<Rightarrow> h \<in> set (queue c))"

definition boxes_ok :: "page_cache \<Rightarrow> bool" where
  "boxes_ok c \<longleftrightarrow> (\<forall>e \<in> set (queue c). e < next_box c \<and> ref_bit (boxes c e) \<le> REF_MAX)"

definition count_ok :: "page_cache \<Rightarrow> bool" where
  "count_ok c \<longleftrightarrow> evictable_count c \<le> card (entry_counted c)"

definition refs_ok :: "page_cache \<Rightarrow> bool" where
  "refs_ok c \<longleftrightarrow> (\<forall>r. card (entries_of c r) \<le> strong_count (pages c r))"

definition cache_inv :: "page_cache \<Rightarrow> bool" where
  "cache_inv c \<longleftrightarrow> index_ok c \<and> hand_ok c \<and> boxes_ok c \<and> count_ok c \<and> refs_ok c"

lemmas inv_defs = cache_inv_def index_ok_def hand_ok_def boxes_ok_def count_ok_def refs_ok_def

definition cached_page :: "page_cache \<Rightarrow> usize \<Rightarrow> page_ref option" where
  "cached_page c k = map_option (\<lambda>e. entry_page (boxes c e)) (map_of (key_map c) k)"

lemma index_lookup:
  assumes "index_ok c"
  shows "map_of (key_map c) k = Some e \<longleftrightarrow> e \<in> set (queue c) \<and> key_of c e = k"
proof -
  have "map_of (key_map c) k = Some e \<longleftrightarrow> (k, e) \<in> set (key_map c)" using assms unfolding index_ok_def by (simp add: map_of_eq_Some_iff)
  also have "\<dots> \<longleftrightarrow> e \<in> set (queue c) \<and> key_of c e = k" using assms unfolding index_ok_def by auto
  finally show ?thesis .
qed

lemma index_len:
  assumes "index_ok c"
  shows "cache_len c = length (queue c)"
proof -
  have "distinct (key_map c)" using assms unfolding index_ok_def by (metis distinct_map)
  then have "length (key_map c) = card (set (key_map c))" by (simp add: distinct_card)
  also have "\<dots> = card (set (queue c))" using assms unfolding index_ok_def by (auto intro!: card_image inj_onI)
  also have "\<dots> = length (queue c)" using assms unfolding index_ok_def by (simp add: distinct_card)
  finally show ?thesis unfolding cache_len_def .
qed

section \<open>Advancing the hand\<close>

lemma advance_simps [simp]:
  "capacity (advance_clock_hand c) = capacity c" "key_map (advance_clock_hand c) = key_map c" "queue (advance_clock_hand c) = queue c"
  "spill_threshold (advance_clock_hand c) = spill_threshold c" "spill_enabled (advance_clock_hand c) = spill_enabled c"
  "evictable_count (advance_clock_hand c) = evictable_count c" "boxes (advance_clock_hand c) = boxes c"
  "next_box (advance_clock_hand c) = next_box c" "pages (advance_clock_hand c) = pages c"
  unfolding advance_clock_hand_def by (auto split: option.split list.split)

lemma advance_is_update: "advance_clock_hand c = c\<lparr>clock_hand := clock_hand (advance_clock_hand c)\<rparr>"
  by simp

lemma advance_nth:
  assumes "distinct (queue c)" "i < length (queue c)" "clock_hand c = Some (queue c ! i)"
  shows "clock_hand (advance_clock_hand c) = Some (queue c ! (Suc i mod length (queue c)))"
proof (cases "Suc i < length (queue c)")
  case True
  then show ?thesis using assms unfolding advance_clock_hand_def by (simp add: next_of_nth)
next
  case False
  then have "Suc i = length (queue c)" using assms by simp
  then show ?thesis using assms False unfolding advance_clock_hand_def by (cases "queue c") (simp_all add: next_of_nth)
qed

lemma hand_nth: "clock_hand c = Some h \<Longrightarrow> hand_ok c \<Longrightarrow> \<exists>i < length (queue c). clock_hand c = Some (queue c ! i)"
  unfolding hand_ok_def by (auto simp: in_set_conv_nth)

lemma advance_hand_ok:
  assumes "distinct (queue c)" "hand_ok c"
  shows "hand_ok (advance_clock_hand c)"
proof (cases "clock_hand c")
  case None
  then show ?thesis using assms unfolding advance_clock_hand_def by simp
next
  case (Some h)
  obtain i where i: "i < length (queue c)" "clock_hand c = Some (queue c ! i)" using hand_nth [OF Some assms(2)] by blast
  have "Suc i mod length (queue c) < length (queue c)" using i by (intro mod_less_divisor) linarith
  then show ?thesis using advance_nth [OF assms(1) i] unfolding hand_ok_def by simp
qed

text \<open>After stepping off an entry the hand is on another one, or null when there is no other.\<close>

lemma step_hand_off_hand:
  assumes "distinct (queue c)" "clock_hand c = Some e" "e \<in> set (queue c)"
  shows "case clock_hand (step_hand_off e c) of None \<Rightarrow> queue c = [e] | Some h \<Rightarrow> h \<in> set (queue c) \<and> h \<noteq> e"
proof -
  obtain i where i: "i < length (queue c)" "queue c ! i = e" using assms by (auto simp: in_set_conv_nth)
  let ?j = "Suc i mod length (queue c)"
  have j: "?j < length (queue c)" using i by (intro mod_less_divisor) linarith
  have adv: "clock_hand (advance_clock_hand c) = Some (queue c ! ?j)" using advance_nth [OF assms(1) i(1)] assms i by simp
  show ?thesis
  proof (cases "queue c ! ?j = e")
    case True
    then have "?j = i" using nth_eq_iff_index_eq [OF assms(1) j i(1)] i(2) by simp
    then have "length (queue c) = 1" using i by (metis Suc_lessI mod_less mod_self n_not_Suc_n One_nat_def)
    then have "queue c = [e]" using i by (cases "queue c") auto
    then show ?thesis using adv True unfolding step_hand_off_def by simp
  next
    case False
    then show ?thesis using adv j unfolding step_hand_off_def by simp
  qed
qed

lemma step_hand_off_simps [simp]:
  "capacity (step_hand_off e c) = capacity c" "key_map (step_hand_off e c) = key_map c" "queue (step_hand_off e c) = queue c"
  "spill_threshold (step_hand_off e c) = spill_threshold c" "spill_enabled (step_hand_off e c) = spill_enabled c"
  "evictable_count (step_hand_off e c) = evictable_count c" "boxes (step_hand_off e c) = boxes c"
  "next_box (step_hand_off e c) = next_box c" "pages (step_hand_off e c) = pages c"
  unfolding step_hand_off_def by (simp_all add: Let_def)

section \<open>Removing an entry\<close>

definition discard :: "page \<Rightarrow> page" where
  "discard p = (clear_loaded p)\<lparr>buffer := None, strong_count := strong_count p - 1\<rparr>"

definition remove_entry :: "entry_ptr \<Rightarrow> page_cache \<Rightarrow> page_cache" where
  "remove_entry e c =
     (let hand = (if clock_hand c = Some e then clock_hand (step_hand_off e c) else clock_hand c);
          r = entry_page (boxes c e)
      in c\<lparr>key_map := AList.delete (key_of c e) (key_map c), queue := remove1 e (queue c), clock_hand := hand,
           evictable_count := evictable_count c - (if counted_as_evictable (pages c r) then 1 else 0),
           pages := (pages c)(r := discard (pages c r))\<rparr>)"

lemma remove_entry_simps [simp]:
  "capacity (remove_entry e c) = capacity c" "spill_threshold (remove_entry e c) = spill_threshold c"
  "spill_enabled (remove_entry e c) = spill_enabled c" "boxes (remove_entry e c) = boxes c" "next_box (remove_entry e c) = next_box c"
  "queue (remove_entry e c) = remove1 e (queue c)" "key_map (remove_entry e c) = AList.delete (key_of c e) (key_map c)"
  "pages (remove_entry e c) = (pages c)(entry_page (boxes c e) := discard (entry_at c e))"
  unfolding remove_entry_def entry_at_def by (simp_all add: Let_def)

lemma counted_discard [simp]: "counted_as_evictable (discard p) = counted_as_evictable p"
  unfolding counted_as_evictable_def discard_def by simp

lemma step_hand_off_is_update: "step_hand_off e c = c\<lparr>clock_hand := clock_hand (step_hand_off e c)\<rparr>"
  by simp

lemma step_hand_off_hand_cong:
  "queue c' = queue c \<Longrightarrow> clock_hand c' = clock_hand c \<Longrightarrow> clock_hand (step_hand_off e c') = clock_hand (step_hand_off e c)"
  unfolding step_hand_off_def advance_clock_hand_def by (simp add: Let_def split: option.split list.split)

lemma delete_inner_eq:
  assumes "index_ok c"
  shows "delete_inner key True c =
     (case map_of (key_map c) key of
        None \<Rightarrow> (c, Inr ())
      | Some e \<Rightarrow>
          (let p = entry_at c e in
           if is_locked p then (c, Inl (CacheLocked (page_id p)))
           else if is_dirty p then (c, Inl (CacheDirty (page_id p)))
           else if is_pinned p then (c, Inl (CachePinned (page_id p)))
           else (remove_entry e c, Inr ())))"
proof (cases "map_of (key_map c) key")
  case None
  then show ?thesis unfolding delete_inner_def by simp
next
  case (Some e)
  then have key: "key_of c e = key" using index_lookup [OF assms] by blast
  have hand: "clock_hand (step_hand_off e (c\<lparr>pages := ps, key_map := m\<rparr>)) = clock_hand (step_hand_off e c)" for ps m
    by (rule step_hand_off_hand_cong) simp_all
  have off: "step_hand_off e (c\<lparr>pages := ps, key_map := m\<rparr>) = c\<lparr>pages := ps, key_map := m, clock_hand := clock_hand (step_hand_off e c)\<rparr>" for ps m
    using step_hand_off_is_update [of e "c\<lparr>pages := ps, key_map := m\<rparr>"] hand by simp
  obtain h where h: "\<And>ps m. step_hand_off e (c\<lparr>pages := ps, key_map := m\<rparr>) = c\<lparr>pages := ps, key_map := m, clock_hand := h\<rparr>"
    "clock_hand (step_hand_off e c) = h" using off by blast
  show ?thesis
    unfolding delete_inner_def remove_entry_def Some Let_def
    by (cases "clock_hand c = Some e"; cases "counted_as_evictable (pages c (entry_page (boxes c e)))")
       (simp_all add: entry_at_def key clean_page_def on_page_def h unlink_entry_def drop_ref_def discard_def)
qed

lemma remove_entry_index:
  assumes "index_ok c" "e \<in> set (queue c)"
  shows "index_ok (remove_entry e c)"
proof -
  have k: "key_of (remove_entry e c) = key_of c" unfolding key_of_def by simp
  have q: "set (remove1 e (queue c)) = set (queue c) - {e}" using assms unfolding index_ok_def by (simp add: set_remove1_eq)
  have "set (AList.delete (key_of c e) (key_map c)) = {x \<in> set (key_map c). fst x \<noteq> key_of c e}"
    by (auto simp: AList.delete_eq)
  also have "\<dots> = (\<lambda>x. (key_of c x, x)) ` (set (queue c) - {e})"
    using assms unfolding index_ok_def by (auto dest: inj_onD)
  finally have "set (AList.delete (key_of c e) (key_map c)) = (\<lambda>x. (key_of c x, x)) ` (set (queue c) - {e})" .
  then show ?thesis
    using assms k q unfolding index_ok_def
    by (auto simp: distinct_delete distinct_remove1 intro: inj_on_subset)
qed

lemma remove_entry_hand:
  assumes "index_ok c" "hand_ok c" "e \<in> set (queue c)"
  shows "hand_ok (remove_entry e c)"
proof -
  have d: "distinct (queue c)" using assms unfolding index_ok_def by blast
  have q: "set (remove1 e (queue c)) = set (queue c) - {e}" using d by (simp add: set_remove1_eq)
  show ?thesis
  proof (cases "clock_hand c = Some e")
    case True
    then have h: "clock_hand (remove_entry e c) = clock_hand (step_hand_off e c)" unfolding remove_entry_def by (simp add: Let_def)
    show ?thesis
      using step_hand_off_hand [OF d True assms(3)] q unfolding hand_ok_def h by (auto split: option.splits)
  next
    case False
    then have "clock_hand (remove_entry e c) = clock_hand c" unfolding remove_entry_def by (simp add: Let_def)
    then show ?thesis using assms False q unfolding hand_ok_def by (auto split: option.splits)
  qed
qed

lemma remove_entry_sets:
  assumes "distinct (queue c)"
  shows "entry_counted (remove_entry e c) = entry_counted c - {e}" "entries_of (remove_entry e c) r = entries_of c r - {e}"
  using assms unfolding entry_counted_def entries_of_def by (auto simp: set_remove1_eq entry_at_def)

lemma remove_entry_count:
  assumes "distinct (queue c)" "count_ok c" "e \<in> set (queue c)"
  shows "count_ok (remove_entry e c)"
proof -
  have f: "finite (entry_counted c)" unfolding entry_counted_def by simp
  have "evictable_count (remove_entry e c) = evictable_count c - (if e \<in> entry_counted c then 1 else 0)"
    using assms(3) unfolding remove_entry_def entry_counted_def entry_at_def by (simp add: Let_def)
  then show ?thesis using assms f unfolding count_ok_def remove_entry_sets(1) [OF assms(1)] by (auto simp: card_Diff_singleton)
qed

lemma remove_entry_refs:
  assumes "distinct (queue c)" "refs_ok c" "e \<in> set (queue c)"
  shows "refs_ok (remove_entry e c)"
proof -
  have f: "finite (entries_of c r)" for r unfolding entries_of_def by simp
  have "e \<in> entries_of c (entry_page (boxes c e))" using assms(3) unfolding entries_of_def by simp
  moreover have "card (entries_of c r - {e}) \<le> card (entries_of c r)" for r by (rule card_mono [OF f]) blast
  ultimately show ?thesis
    using assms(2) f unfolding refs_ok_def remove_entry_sets(2) [OF assms(1)]
    by (auto simp: card_Diff_singleton discard_def entry_at_def intro: diff_le_mono le_trans)
qed

lemma remove_entry_inv:
  assumes "cache_inv c" "e \<in> set (queue c)"
  shows "cache_inv (remove_entry e c)"
proof -
  have d: "distinct (queue c)" using assms unfolding cache_inv_def index_ok_def by blast
  have "boxes_ok (remove_entry e c)" using assms notin_set_remove1 unfolding cache_inv_def boxes_ok_def by auto
  then show ?thesis
    using assms remove_entry_index remove_entry_hand remove_entry_count [OF d] remove_entry_refs [OF d]
    unfolding cache_inv_def by blast
qed

section \<open>The sweep of the clock\<close>

text \<open>Between two evictions a sweep only moves the hand and lowers reference counts.\<close>

definition swept :: "page_cache \<Rightarrow> page_cache \<Rightarrow> bool" where
  "swept c c' \<longleftrightarrow> c' = c\<lparr>boxes := boxes c', clock_hand := clock_hand c'\<rparr>
     \<and> (\<forall>e. entry_key (boxes c' e) = entry_key (boxes c e) \<and> entry_page (boxes c' e) = entry_page (boxes c e)
          \<and> ref_bit (boxes c' e) \<le> ref_bit (boxes c e))"

lemma swept_refl [simp]: "swept c c"
  unfolding swept_def by simp

lemma swept_fields:
  assumes "swept c c'"
  shows "capacity c' = capacity c" "key_map c' = key_map c" "queue c' = queue c" "spill_threshold c' = spill_threshold c"
    "spill_enabled c' = spill_enabled c" "evictable_count c' = evictable_count c" "next_box c' = next_box c" "pages c' = pages c"
proof -
  have "c' = c\<lparr>boxes := boxes c', clock_hand := clock_hand c'\<rparr>" using assms unfolding swept_def by blast
  then obtain bs h where c': "c' = c\<lparr>boxes := bs, clock_hand := h\<rparr>" by blast
  show "capacity c' = capacity c" "key_map c' = key_map c" "queue c' = queue c" "spill_threshold c' = spill_threshold c"
    "spill_enabled c' = spill_enabled c" "evictable_count c' = evictable_count c" "next_box c' = next_box c" "pages c' = pages c"
    unfolding c' by simp_all
qed

lemma swept_entries:
  assumes "swept c c'"
  shows "entry_at c' = entry_at c" "key_of c' = key_of c" "cached_page c' = cached_page c" "entry_page (boxes c' e) = entry_page (boxes c e)"
  using assms swept_fields [OF assms] unfolding entry_at_def key_of_def cached_page_def swept_def by (simp_all add: fun_eq_iff)

lemma swept_trans:
  assumes "swept c c'" "swept c' c''"
  shows "swept c c''"
proof -
  have "c'' = c\<lparr>boxes := boxes c'', clock_hand := clock_hand c''\<rparr>"
    using swept_fields [OF assms(1)] swept_fields [OF assms(2)] by simp
  then show ?thesis using assms unfolding swept_def by (metis (no_types, lifting) order_trans)
qed

lemma swept_inv:
  assumes "cache_inv c" "swept c c'" "hand_ok c'"
  shows "cache_inv c'"
proof -
  note eqs = swept_fields [OF assms(2)] swept_entries [OF assms(2)]
  have sets: "entry_counted c' = entry_counted c" "entries_of c' r = entries_of c r" for r
    unfolding entry_counted_def entries_of_def eqs by simp_all
  moreover have "ref_bit (boxes c' e) \<le> ref_bit (boxes c e)" for e using assms(2) unfolding swept_def by blast
  ultimately have "boxes_ok c'" using assms(1) eqs(3,7) unfolding cache_inv_def boxes_ok_def by (metis le_trans)
  then show ?thesis
    using assms(1,3) eqs sets unfolding cache_inv_def index_ok_def count_ok_def refs_ok_def by simp
qed

lemma swept_decrement: "swept c (advance_clock_hand (on_box e decrement_ref c))"
  unfolding swept_def on_box_def decrement_ref_def by simp

lemma swept_advance: "swept c (advance_clock_hand c)"
  unfolding swept_def by simp

lemma evict_loop_victim:
  assumes "clock_hand c = Some e" "evictable (entry_at c e)" "ref_bit (boxes c e) = CLEAR"
  shows "evict_loop (Suc n) c = (remove_entry e c, Inr ())"
proof -
  have off: "step_hand_off e c = c\<lparr>clock_hand := clock_hand (step_hand_off e c)\<rparr>" by (rule step_hand_off_is_update)
  obtain h where h: "step_hand_off e c = c\<lparr>clock_hand := h\<rparr>" using off by blast
  show ?thesis
    using assms evictable_counted [OF assms(2)]
    by (simp add: Let_def entry_at_def remove_entry_def h key_of_def clean_page_def on_page_def unlink_entry_def drop_ref_def discard_def)
qed

lemma evict_loop_pass:
  assumes "clock_hand c = Some e" "\<not> (evictable (entry_at c e) \<and> ref_bit (boxes c e) = CLEAR)"
  shows "\<exists>c1. evict_loop (Suc n) c = evict_loop n c1 \<and> swept c c1 \<and> clock_hand c1 = clock_hand (advance_clock_hand c)
     \<and> (\<forall>x. ref_bit (boxes c1 x) = ref_bit (boxes c x) - (if x = e \<and> evictable (entry_at c e) then 1 else 0))"
proof (cases "evictable (entry_at c e)")
  case True
  have "clock_hand (advance_clock_hand (on_box e decrement_ref c)) = clock_hand (advance_clock_hand c)"
    unfolding on_box_def advance_clock_hand_def by (simp split: option.split list.split)
  then show ?thesis
    using True assms swept_decrement [of c e]
    by (intro exI [of _ "advance_clock_hand (on_box e decrement_ref c)"])
       (simp add: entry_at_def Let_def, simp add: on_box_def decrement_ref_def)
next
  case False
  then show ?thesis
    using assms swept_advance [of c] by (intro exI [of _ "advance_clock_hand c"]) (simp add: entry_at_def Let_def)
qed

lemma pass_inv: "cache_inv c \<Longrightarrow> swept c c1 \<Longrightarrow> clock_hand c1 = clock_hand (advance_clock_hand c) \<Longrightarrow> cache_inv c1"
  using swept_inv [of c c1] advance_hand_ok [of c] swept_fields [of c c1]
  unfolding cache_inv_def index_ok_def hand_ok_def by (simp split: option.splits)

definition evicts :: "page_cache \<Rightarrow> page_cache \<Rightarrow> bool" where
  "evicts c c' \<longleftrightarrow> (\<exists>c1 e. swept c c1 \<and> cache_inv c1 \<and> e \<in> set (queue c) \<and> evictable (entry_at c e)
     \<and> ref_bit (boxes c1 e) = CLEAR \<and> c' = remove_entry e c1)"

lemma hand_cases:
  assumes "cache_inv c" "queue c \<noteq> []"
  obtains e where "clock_hand c = Some e" "e \<in> set (queue c)"
  using assms unfolding cache_inv_def hand_ok_def by (cases "clock_hand c") auto

lemma evict_loop_outcome:
  assumes "cache_inv c" "queue c \<noteq> []"
  shows "(\<exists>c'. evict_loop n c = (c', Inl CacheFull) \<and> swept c c' \<and> cache_inv c')
     \<or> (\<exists>c'. evict_loop n c = (c', Inr ()) \<and> evicts c c')"
  using assms
proof (induction n arbitrary: c)
  case 0
  then show ?case by auto
next
  case (Suc n)
  obtain e where e: "clock_hand c = Some e" "e \<in> set (queue c)" using hand_cases [OF Suc.prems] .
  show ?case
  proof (cases "evictable (entry_at c e) \<and> ref_bit (boxes c e) = CLEAR")
    case True
    then have "evicts c (remove_entry e c)" using e Suc.prems(1) swept_refl unfolding evicts_def by blast
    then show ?thesis using evict_loop_victim [OF e(1)] True by simp
  next
    case False
    obtain c1 where c1: "evict_loop (Suc n) c = evict_loop n c1" "swept c c1" "clock_hand c1 = clock_hand (advance_clock_hand c)"
      using evict_loop_pass [OF e(1) False] by blast
    have "cache_inv c1" "queue c1 \<noteq> []" using pass_inv [OF Suc.prems(1) c1(2,3)] swept_fields(3) [OF c1(2)] Suc.prems(2) by auto
    moreover have "evicts c c'" if "evicts c1 c'" for c'
      using that swept_trans [OF c1(2)] unfolding evicts_def swept_fields(3) [OF c1(2)] swept_entries(1) [OF c1(2)] by blast
    ultimately show ?thesis using Suc.IH [of c1] swept_trans [OF c1(2)] unfolding c1(1) by blast
  qed
qed

section \<open>A victim is found within four sweeps\<close>

lemma turn_next:
  assumes "i < n" "j < n" "i \<noteq> (j :: nat)"
  shows "(j + n - i) mod n = Suc ((j + n - Suc i mod n) mod n)"
proof (cases "i < j")
  case True
  then have "j + n - i = (j - i) + n" "j + n - Suc i mod n = (j - Suc i) + n" "j - i < n" "j - Suc i < n" using assms by auto
  then have "(j + n - i) mod n = j - i" "(j + n - Suc i mod n) mod n = j - Suc i" by (metis mod_add_self2 mod_less)+
  then show ?thesis using True by simp
next
  case False
  then have "j < i" using assms by simp
  then show ?thesis using assms by (cases "Suc i < n") (auto simp: mod_if)
qed

lemma turn_round: "j < (n :: nat) \<Longrightarrow> (j + n - Suc j mod n) mod n = n - 1"
  by (cases "Suc j < n") (auto simp: mod_if not_less less_Suc_eq_le)

lemma evict_loop_finds:
  assumes "cache_inv c" "i < length (queue c)" "clock_hand c = Some (queue c ! i)"
    "j < length (queue c)" "evictable (entry_at c (queue c ! j))"
    "(j + length (queue c) - i) mod length (queue c) + length (queue c) * ref_bit (boxes c (queue c ! j)) < n"
  shows "\<exists>c'. evict_loop n c = (c', Inr ())"
  using assms
proof (induction n arbitrary: c i)
  case (Suc n)
  let ?q = "queue c" let ?e = "?q ! i" let ?n = "length ?q"
  have d: "distinct ?q" using Suc.prems(1) unfolding cache_inv_def index_ok_def by blast
  show ?case
  proof (cases "evictable (entry_at c ?e) \<and> ref_bit (boxes c ?e) = CLEAR")
    case True
    then show ?thesis using evict_loop_victim [OF Suc.prems(3)] by blast
  next
    case False
    obtain c1 where c1: "evict_loop (Suc n) c = evict_loop n c1" "swept c c1" "clock_hand c1 = clock_hand (advance_clock_hand c)"
      and ref: "\<And>x. ref_bit (boxes c1 x) = ref_bit (boxes c x) - (if x = ?e \<and> evictable (entry_at c ?e) then 1 else 0)"
      using evict_loop_pass [OF Suc.prems(3) False] by blast
    let ?i = "Suc i mod ?n"
    note eqs = swept_fields [OF c1(2)] swept_entries [OF c1(2)]
    have "(j + ?n - ?i) mod ?n + ?n * ref_bit (boxes c1 (?q ! j)) < n"
    proof (cases "i = j")
      case True
      then have "ref_bit (boxes c (?q ! j)) \<noteq> 0" "ref_bit (boxes c1 (?q ! j)) = ref_bit (boxes c (?q ! j)) - 1"
        using Suc.prems(5) False ref unfolding CLEAR_def by auto
      then obtain m where m: "ref_bit (boxes c (?q ! j)) = Suc m" "ref_bit (boxes c1 (?q ! j)) = m" by (cases "ref_bit (boxes c (?q ! j))") auto
      then show ?thesis using turn_round [OF Suc.prems(4)] Suc.prems(6) True Suc.prems(4) by simp
    next
      case False
      then have "?q ! j \<noteq> ?e" using d Suc.prems(2,4) by (simp add: nth_eq_iff_index_eq)
      then show ?thesis using turn_next [OF Suc.prems(2,4) False] Suc.prems(6) ref by simp
    qed
    moreover have "?i < ?n" using Suc.prems(2) by (intro mod_less_divisor) linarith
    ultimately show ?thesis
      using Suc.IH [of c1 ?i] pass_inv [OF Suc.prems(1) c1(2,3)] advance_nth [OF d Suc.prems(2,3)] Suc.prems(4,5) c1 eqs by simp
  qed
qed simp

lemma evict_one_outcome:
  assumes "cache_inv c" "0 < cache_len c"
  shows "(\<exists>c'. evict_one c = (c', Inl CacheFull) \<and> swept c c' \<and> cache_inv c') \<or> (\<exists>c'. evict_one c = (c', Inr ()) \<and> evicts c c')"
proof -
  have "queue c \<noteq> []" using assms index_len unfolding cache_inv_def by fastforce
  then show ?thesis using evict_loop_outcome [OF assms(1)] assms(2) unfolding evict_one_def by auto
qed

lemma evict_one_finds:
  assumes inv: "cache_inv c" and e: "e \<in> set (queue c)" "evictable (entry_at c e)" and len: "cache_len c * (REF_MAX + 1) \<le> usize_max"
  shows "\<exists>c'. evict_one c = (c', Inr ())"
proof -
  let ?n = "length (queue c)"
  have idx: "index_ok c" "hand_ok c" and box: "boxes_ok c" using inv unfolding cache_inv_def by auto
  have n: "cache_len c = ?n" "queue c \<noteq> []" using index_len [OF idx(1)] e by auto
  obtain j where j: "j < ?n" "queue c ! j = e" using e(1) by (auto simp: in_set_conv_nth)
  obtain i where i: "i < ?n" "clock_hand c = Some (queue c ! i)"
    using hand_cases [OF inv n(2)] hand_nth [OF _ idx(2)] by metis
  have "ref_bit (boxes c e) \<le> REF_MAX" using box e(1) unfolding boxes_ok_def by blast
  then have "(j + ?n - i) mod ?n + ?n * ref_bit (boxes c e) < ?n + ?n * REF_MAX"
    using i(1) by (intro add_less_le_mono mod_less_divisor mult_le_mono2) linarith
  then have "\<exists>c'. evict_loop (?n * (REF_MAX + 1)) c = (c', Inr ())"
    using evict_loop_finds [OF inv i j(1)] e(2) j(2) by (simp add: algebra_simps)
  then show ?thesis using n len unfolding evict_one_def saturating_mul_def by (simp add: min_def)
qed

section \<open>What eviction does to the contents\<close>

text \<open>
  \<open>sheds\<close> is the effect on the contents: some pages leave the cache, each of them evictable (clean or already spilled,
  unlocked, unpinned, held by nobody else), their buffers are given up, and nothing else changes.
\<close>

definition left_cache :: "page_cache \<Rightarrow> page_cache \<Rightarrow> page_ref \<Rightarrow> bool" where
  "left_cache c c' r \<longleftrightarrow> (\<exists>k. cached_page c k = Some r \<and> cached_page c' k = None)"

definition sheds :: "page_cache \<Rightarrow> page_cache \<Rightarrow> bool" where
  "sheds c c' \<longleftrightarrow> capacity c' = capacity c \<and> spill_threshold c' = spill_threshold c \<and> spill_enabled c' = spill_enabled c
     \<and> cached_page c' \<subseteq>\<^sub>m cached_page c \<and> (\<forall>r. left_cache c c' r \<longrightarrow> evictable (pages c r))
     \<and> (\<forall>r. pages c' r = (if left_cache c c' r then discard (pages c r) else pages c r))"

lemma cached_Some: "index_ok c \<Longrightarrow> cached_page c k = Some r \<longleftrightarrow> (\<exists>e \<in> set (queue c). key_of c e = k \<and> entry_page (boxes c e) = r)"
  unfolding cached_page_def by (auto simp: index_lookup)

lemma cached_unique:
  assumes "cache_inv c" "cached_page c k = Some r" "cached_page c k' = Some r" "strong_count (pages c r) = 1"
  shows "k = k'"
proof -
  have idx: "index_ok c" using assms unfolding cache_inv_def by blast
  obtain e e' where e: "e \<in> entries_of c r" "key_of c e = k" "e' \<in> entries_of c r" "key_of c e' = k'"
    using assms(2,3) unfolding cached_Some [OF idx] entries_of_def by blast
  have "card (entries_of c r) \<le> 1" using assms(1,4) unfolding cache_inv_def refs_ok_def by (metis)
  moreover have "finite (entries_of c r)" unfolding entries_of_def by simp
  ultimately show ?thesis using e by (metis card_le_Suc0_iff_eq One_nat_def)
qed

lemma remove_entry_cached:
  assumes "index_ok c" "e \<in> set (queue c)"
  shows "cached_page (remove_entry e c) = (cached_page c)(key_of c e := None)"
  unfolding cached_page_def by (simp add: fun_eq_iff delete_conv')

lemma sheds_refl [simp]: "sheds c c"
  unfolding sheds_def left_cache_def by auto

lemma sheds_swept: "swept c c' \<Longrightarrow> sheds c c'"
  using swept_fields [of c c'] swept_entries [of c c'] unfolding sheds_def left_cache_def by auto

lemma sheds_remove:
  assumes "cache_inv c" "e \<in> set (queue c)" "evictable (entry_at c e)"
  shows "sheds c (remove_entry e c)"
proof -
  have idx: "index_ok c" using assms unfolding cache_inv_def by blast
  have here: "cached_page c (key_of c e) = Some (entry_page (boxes c e))" using assms(2) unfolding cached_Some [OF idx] by blast
  have gone: "left_cache c (remove_entry e c) r \<longleftrightarrow> r = entry_page (boxes c e)" for r
    using here unfolding left_cache_def remove_entry_cached [OF idx assms(2)] by auto
  have "cached_page (remove_entry e c) \<subseteq>\<^sub>m cached_page c" unfolding remove_entry_cached [OF idx assms(2)] by (simp add: map_le_def)
  then show ?thesis using assms(3) unfolding sheds_def gone by (simp add: entry_at_def)
qed

lemma sheds_trans:
  assumes inv: "cache_inv c" and s: "sheds c c1" "sheds c1 c2"
  shows "sheds c c2"
proof -
  have le: "cached_page c1 \<subseteq>\<^sub>m cached_page c" "cached_page c2 \<subseteq>\<^sub>m cached_page c1" using s unfolding sheds_def by blast+
  have ev: "evictable (pages c r)" if "left_cache c c1 r" for r using that s(1) unfolding sheds_def by blast
  have excl: "\<not> left_cache c c1 r" if "cached_page c1 k = Some r" for k r
  proof
    assume l: "left_cache c c1 r"
    then obtain k' where k': "cached_page c k' = Some r" "cached_page c1 k' = None" unfolding left_cache_def by blast
    have "cached_page c k = Some r" using that le(1) by (simp add: map_le_def dom_def)
    then have "k = k'" using cached_unique [OF inv _ k'(1)] ev [OF l] unfolding evictable_def by blast
    then show False using that k'(2) by simp
  qed
  have split: "left_cache c c2 r \<longleftrightarrow> left_cache c c1 r \<or> left_cache c1 c2 r" for r
  proof
    assume "left_cache c c2 r"
    then obtain k where k: "cached_page c k = Some r" "cached_page c2 k = None" unfolding left_cache_def by blast
    show "left_cache c c1 r \<or> left_cache c1 c2 r"
    proof (cases "cached_page c1 k")
      case (Some r')
      then have "r' = r" using k(1) le(1) by (force simp: map_le_def dom_def)
      then show ?thesis using k Some unfolding left_cache_def by blast
    qed (use k in \<open>auto simp: left_cache_def\<close>)
  next
    assume "left_cache c c1 r \<or> left_cache c1 c2 r"
    then show "left_cache c c2 r"
    proof
      assume "left_cache c c1 r"
      then obtain k where k: "cached_page c k = Some r" "cached_page c1 k = None" unfolding left_cache_def by blast
      then have "cached_page c2 k = None" using le(2) by (metis domIff map_le_def not_None_eq)
      then show ?thesis using k(1) unfolding left_cache_def by blast
    next
      assume "left_cache c1 c2 r"
      then obtain k where k: "cached_page c1 k = Some r" "cached_page c2 k = None" unfolding left_cache_def by blast
      then have "cached_page c k = Some r" using le(1) by (simp add: map_le_def dom_def)
      then show ?thesis using k(2) unfolding left_cache_def by blast
    qed
  qed
  have same: "pages c1 r = pages c r" if "left_cache c1 c2 r" for r
    using that excl s(1) unfolding sheds_def left_cache_def by (metis (mono_tags))
  have both: "\<not> left_cache c1 c2 r" if "left_cache c c1 r" for r using that excl unfolding left_cache_def by metis
  show ?thesis
    using s ev same both map_le_trans [OF le(2,1)] unfolding sheds_def split by auto
qed

lemma evicts_sheds:
  assumes "cache_inv c" "evicts c c'"
  shows "sheds c c'" "cache_inv c'" "Suc (cache_len c') = cache_len c"
proof -
  obtain c1 e where c1: "swept c c1" "cache_inv c1" "e \<in> set (queue c)" "evictable (entry_at c e)" "c' = remove_entry e c1"
    using assms(2) unfolding evicts_def by blast
  have e: "e \<in> set (queue c1)" "evictable (entry_at c1 e)" using c1 swept_fields [OF c1(1)] swept_entries [OF c1(1)] by auto
  show "sheds c c'" using sheds_trans [OF assms(1) sheds_swept [OF c1(1)]] sheds_remove [OF c1(2) e] unfolding c1(5) by blast
  show inv': "cache_inv c'" using remove_entry_inv [OF c1(2) e(1)] unfolding c1(5) .
  have "cache_len c' = length (queue c')" "cache_len c = length (queue c)"
    using inv' assms(1) index_len unfolding cache_inv_def by blast+
  moreover have "queue c' = remove1 e (queue c)" using swept_fields [OF c1(1)] unfolding c1(5) by simp
  moreover have "0 < length (queue c)" using c1(3) by (cases "queue c") auto
  ultimately show "Suc (cache_len c') = cache_len c" using c1(3) by (simp add: length_remove1)
qed

section \<open>Making room\<close>

text \<open>No page may be evicted. The bound on the length excludes the saturation of the number of examinations.\<close>

definition stuck :: "page_cache \<Rightarrow> bool" where
  "stuck c \<longleftrightarrow> (\<forall>k r. cached_page c k = Some r \<longrightarrow> \<not> evictable (pages c r))"

definition len_ok :: "page_cache \<Rightarrow> bool" where "len_ok c \<longleftrightarrow> cache_len c * (REF_MAX + 1) \<le> usize_max"

lemma len_ok_mono: "cache_len c' \<le> cache_len c \<Longrightarrow> len_ok c \<Longrightarrow> len_ok c'"
  unfolding len_ok_def by (rule le_trans [OF mult_le_mono1])

lemma evict_one_full_stuck:
  assumes inv: "cache_inv c" and len: "len_ok c" and full: "evict_one c = (c', Inl CacheFull)" and sw: "swept c c'"
  shows "stuck c'"
proof -
  have idx: "index_ok c" using inv unfolding cache_inv_def by blast
  have "\<not> evictable (entry_at c e)" if "e \<in> set (queue c)" for e
    using evict_one_finds [OF inv that _ len [unfolded len_ok_def]] full by auto
  then have "stuck c" unfolding stuck_def cached_Some [OF idx] entry_at_def by blast
  then show ?thesis using swept_entries(3) [OF sw] swept_fields(8) [OF sw] unfolding stuck_def by simp
qed

text \<open>The loop that evicts down to a target length; the fuel never runs out.\<close>

lemma evict_until_fuel_outcome:
  assumes "cache_inv c" "cache_len c \<le> n"
  shows "\<exists>c'. sheds c c' \<and> cache_inv c' \<and> (evict_until_fuel n target c = (c', Inr ()) \<and> cache_len c' \<le> target \<or>
      evict_until_fuel n target c = (c', Inl CacheFull) \<and> target < cache_len c' \<and> (len_ok c \<longrightarrow> stuck c'))"
  using assms
proof (induction n arbitrary: c)
  case (Suc n)
  show ?case
  proof (cases "target < cache_len c")
    case True
    consider (full) c' where "evict_one c = (c', Inl CacheFull)" "swept c c'" "cache_inv c'"
      | (ok) c' where "evict_one c = (c', Inr ())" "evicts c c'"
      using evict_one_outcome [OF Suc.prems(1)] True by auto
    then show ?thesis
    proof cases
      case full
      have "cache_len c' = cache_len c" using swept_fields [OF full(2)] unfolding cache_len_def by simp
      then show ?thesis using full sheds_swept True evict_one_full_stuck [OF Suc.prems(1) _ full(1,2)] by auto
    next
      case ok
      note c' = evicts_sheds [OF Suc.prems(1) ok(2)]
      have "cache_len c' \<le> n" "len_ok c \<Longrightarrow> len_ok c'" using c'(3) Suc.prems(2) len_ok_mono [of c' c] by simp_all
      then show ?thesis using Suc.IH [OF c'(2)] sheds_trans [OF Suc.prems(1) c'(1)] True ok(1) by auto
    qed
  qed (use Suc.prems in \<open>auto intro: exI [of _ c]\<close>)
qed (auto intro: exI)

lemma evict_until_outcome:
  assumes "cache_inv c"
  obtains c' where "sheds c c'" "cache_inv c'" "evict_until target c = (c', Inr ())" "cache_len c' \<le> target"
  | c' where "sheds c c'" "cache_inv c'" "evict_until target c = (c', Inl CacheFull)" "target < cache_len c'"
      "len_ok c \<Longrightarrow> stuck c'"
  using evict_until_fuel_outcome [OF assms order_refl, of target] unfolding evict_until_def by auto

lemma evict_until_fuel_enough:
  assumes "cache_inv c" "cache_len c \<le> n" "cache_len c \<le> m"
  shows "evict_until_fuel n target c = evict_until_fuel m target c"
  using assms
proof (induction n arbitrary: c m)
  case 0
  then show ?case by (cases m) auto
next
  case (Suc n)
  show ?case
  proof (cases "target < cache_len c")
    case True
    then obtain m' where m: "m = Suc m'" using Suc.prems(3) by (cases m) auto
    show ?thesis
    proof (cases "\<exists>c'. evict_one c = (c', Inr ())")
      case True
      then obtain c' where c': "evict_one c = (c', Inr ())" by blast
      then have "evicts c c'" using evict_one_outcome [OF Suc.prems(1)] \<open>target < cache_len c\<close> by auto
      note * = evicts_sheds [OF Suc.prems(1) this]
      show ?thesis using Suc.IH [OF *(2), of m'] *(3) Suc.prems(2,3) c' unfolding m by simp
    next
      case False
      then obtain c' err where "evict_one c = (c', Inl err)" by (metis prod.exhaust sum.exhaust old.unit.exhaust)
      then show ?thesis unfolding m by simp
    qed
  qed (cases m; simp)
qed

lemma evict_until_unfold:
  assumes "cache_inv c"
  shows "evict_until target c =
     (if target < cache_len c then
        (case evict_one c of (c1, Inl err) \<Rightarrow> (c1, Inl err) | (c1, Inr _) \<Rightarrow> evict_until target c1)
      else (c, Inr ()))"
proof (cases "target < cache_len c")
  case True
  then obtain n where n: "cache_len c = Suc n" by (cases "cache_len c") auto
  have "evict_until_fuel n target c1 = evict_until target c1" if "evict_one c = (c1, Inr ())" for c1
  proof -
    have "evicts c c1" using evict_one_outcome [OF assms] that True by auto
    note * = evicts_sheds [OF assms this]
    show ?thesis unfolding evict_until_def by (rule evict_until_fuel_enough [OF *(2)]) (use *(3) n in auto)
  qed
  then show ?thesis using True n unfolding evict_until_def by (auto split: prod.split sum.split)
qed (cases "cache_len c"; simp add: evict_until_def)

end
