(* ===== verification/Page_Cache_Ops.thy ===== *)
theory Page_Cache_Ops
  imports Page_Evict
begin

text \<open>
  Insertion, lookup, deletion, resizing and clearing of the page cache: each keeps the invariant, and its effect on the
  contents is that of a map that may shed evictable pages to make room.
\<close>

section \<open>Handles\<close>

definition keys_of :: "page_cache \<Rightarrow> page_ref \<Rightarrow> usize set" where
  "keys_of c r = {k. cached_page c k = Some r}"

lemma keys_of_code [code]: "keys_of c r = set (filter (\<lambda>k. cached_page c k = Some r) (map fst (key_map c)))"
proof -
  have "k \<in> fst ` set (key_map c)" if "cached_page c k = Some r" for k
    using that unfolding cached_page_def by (metis map_of_eq_None_iff option.distinct(1) option.simps(8))
  then show ?thesis unfolding keys_of_def by auto
qed

text \<open>Somebody outside the cache holds a handle to the page.\<close>

definition owned :: "page_cache \<Rightarrow> page_ref \<Rightarrow> bool" where
  "owned c r \<longleftrightarrow> card (keys_of c r) < strong_count (pages c r)"

lemma keys_of_entries:
  assumes "index_ok c"
  shows "keys_of c r = key_of c ` entries_of c r" "card (keys_of c r) = card (entries_of c r)" "finite (keys_of c r)"
proof -
  show *: "keys_of c r = key_of c ` entries_of c r" unfolding keys_of_def entries_of_def cached_Some [OF assms] by blast
  have "inj_on (key_of c) (entries_of c r)"
    using assms unfolding index_ok_def entries_of_def by (blast intro: inj_on_subset)
  then show "card (keys_of c r) = card (entries_of c r)" unfolding * by (rule card_image)
  show "finite (keys_of c r)" unfolding * entries_of_def by simp
qed

lemma refs_keys: "cache_inv c \<Longrightarrow> card (keys_of c r) \<le> strong_count (pages c r)"
  using keys_of_entries(2) unfolding cache_inv_def refs_ok_def by metis

lemma sheds_owned:
  assumes "cache_inv c" "sheds c c1" "owned c r"
  shows "owned c1 r" "pages c1 r = pages c r"
proof -
  have idx: "index_ok c" using assms(1) unfolding cache_inv_def by blast
  have "\<not> left_cache c c1 r"
  proof
    assume l: "left_cache c c1 r"
    then have "keys_of c r \<noteq> {}" unfolding left_cache_def keys_of_def by blast
    then have "0 < card (keys_of c r)" using keys_of_entries(3) [OF idx] by (simp add: card_gt_0_iff)
    moreover have "strong_count (pages c r) = 1" using l assms(2) unfolding sheds_def evictable_def by blast
    ultimately show False using assms(3) unfolding owned_def by simp
  qed
  then show p: "pages c1 r = pages c r" using assms(2) unfolding sheds_def by simp
  have "keys_of c1 r \<subseteq> keys_of c r" using assms(2) unfolding sheds_def keys_of_def by (force simp: map_le_def dom_def)
  then have "card (keys_of c1 r) \<le> card (keys_of c r)" by (rule card_mono [OF keys_of_entries(3) [OF idx]])
  then show "owned c1 r" using assms(3) p unfolding owned_def by simp
qed

section \<open>Changes that leave the entries alone\<close>

text \<open>Writing to pages keeps the invariant when the counted pages stay counted and enough handles remain.\<close>

lemma on_page_simps [simp]:
  "capacity (on_page r f c) = capacity c" "key_map (on_page r f c) = key_map c" "queue (on_page r f c) = queue c"
  "clock_hand (on_page r f c) = clock_hand c" "spill_threshold (on_page r f c) = spill_threshold c"
  "spill_enabled (on_page r f c) = spill_enabled c" "evictable_count (on_page r f c) = evictable_count c"
  "boxes (on_page r f c) = boxes c" "next_box (on_page r f c) = next_box c"
  "pages (on_page r f c) = (pages c)(r := f (pages c r))" "cached_page (on_page r f c) = cached_page c"
  unfolding on_page_def cached_page_def by simp_all

lemma on_page_inv:
  assumes "cache_inv c" "keys_of c r \<noteq> {} \<Longrightarrow> counted_as_evictable (pages c r) \<Longrightarrow> counted_as_evictable (f (pages c r))"
    "card (keys_of c r) \<le> strong_count (f (pages c r))"
  shows "cache_inv (on_page r f c)"
proof -
  have idx: "index_ok c" using assms(1) unfolding cache_inv_def by blast
  have "entry_counted c \<subseteq> entry_counted (on_page r f c)"
    using assms(2) unfolding entry_counted_def entry_at_def keys_of_entries(1) [OF idx] entries_of_def by auto
  then have "card (entry_counted c) \<le> card (entry_counted (on_page r f c))"
    by (intro card_mono) (simp_all add: entry_counted_def)
  moreover have "entries_of (on_page r f c) = entries_of c" "key_of (on_page r f c) = key_of c"
    unfolding entries_of_def key_of_def by (simp_all add: fun_eq_iff)
  ultimately show ?thesis
    using assms(1,3) keys_of_entries(2) [OF idx, of r] unfolding inv_defs by (auto split: option.splits)
qed

lemma counted_strong [simp]: "counted_as_evictable (p\<lparr>strong_count := n\<rparr>) = counted_as_evictable p"
  unfolding counted_as_evictable_def by simp

lemma clone_ref_inv: "cache_inv c \<Longrightarrow> cache_inv (clone_ref r c)"
  unfolding clone_ref_def by (rule on_page_inv) (auto dest: refs_keys [of c r])

lemma drop_ref_inv: "cache_inv c \<Longrightarrow> owned c r \<Longrightarrow> cache_inv (drop_ref r c)"
  unfolding drop_ref_def owned_def by (rule on_page_inv) auto

lemma clone_ref_simps [simp]:
  "cached_page (clone_ref r c) = cached_page c" "capacity (clone_ref r c) = capacity c" "cache_len (clone_ref r c) = cache_len c"
  "key_map (clone_ref r c) = key_map c" "boxes (clone_ref r c) = boxes c" "queue (clone_ref r c) = queue c"
  unfolding clone_ref_def cache_len_def by simp_all

lemma drop_ref_simps [simp]:
  "cached_page (drop_ref r c) = cached_page c" "capacity (drop_ref r c) = capacity c" "cache_len (drop_ref r c) = cache_len c"
  "key_map (drop_ref r c) = key_map c" "boxes (drop_ref r c) = boxes c" "queue (drop_ref r c) = queue c"
  unfolding drop_ref_def cache_len_def by simp_all

lemma clone_drop [simp]: "drop_ref r (clone_ref r c) = c"
  unfolding clone_ref_def drop_ref_def on_page_def by simp

lemma clone_owned: "cache_inv c \<Longrightarrow> owned (clone_ref r c) r"
  using refs_keys [of c r] unfolding owned_def keys_of_def clone_ref_def by simp

lemma on_box_bump_simps [simp]:
  "capacity (on_box e f c) = capacity c" "key_map (on_box e f c) = key_map c" "queue (on_box e f c) = queue c"
  "clock_hand (on_box e f c) = clock_hand c" "spill_threshold (on_box e f c) = spill_threshold c"
  "spill_enabled (on_box e f c) = spill_enabled c" "evictable_count (on_box e f c) = evictable_count c"
  "boxes (on_box e f c) = (boxes c)(e := f (boxes c e))" "next_box (on_box e f c) = next_box c" "pages (on_box e f c) = pages c"
  unfolding on_box_def by simp_all

lemma bump_ref_simps [simp]:
  "entry_key (bump_ref b) = entry_key b" "entry_page (bump_ref b) = entry_page b" "ref_bit (bump_ref b) \<le> REF_MAX"
  unfolding bump_ref_def by simp_all

lemma bump_box:
  shows "entry_page (boxes (on_box e bump_ref c) x) = entry_page (boxes c x)" "key_of (on_box e bump_ref c) = key_of c"
    "entry_at (on_box e bump_ref c) = entry_at c" "cached_page (on_box e bump_ref c) = cached_page c"
proof -
  have eq: "entry_page (boxes (on_box e bump_ref c) x) = entry_page (boxes c x)" for x by simp
  then show "entry_page (boxes (on_box e bump_ref c) x) = entry_page (boxes c x)" .
  show "key_of (on_box e bump_ref c) = key_of c" unfolding key_of_def by (simp add: fun_eq_iff)
  show "entry_at (on_box e bump_ref c) = entry_at c" unfolding entry_at_def eq by simp
  show "cached_page (on_box e bump_ref c) = cached_page c" unfolding cached_page_def eq by simp
qed

lemma bump_inv:
  assumes "cache_inv c"
  shows "cache_inv (on_box e bump_ref c)"
proof -
  have "entry_counted (on_box e bump_ref c) = entry_counted c" "entries_of (on_box e bump_ref c) = entries_of c"
    unfolding entry_counted_def entries_of_def bump_box by simp_all
  moreover have "boxes_ok (on_box e bump_ref c)" using assms unfolding cache_inv_def boxes_ok_def by auto
  ultimately show ?thesis using assms unfolding inv_defs bump_box by (simp split: option.splits)
qed

section \<open>Linking a new entry\<close>

lemma update_fresh: "k \<notin> fst ` set al \<Longrightarrow> AList.update k v al = al @ [(k, v)]"
  by (induction al) auto

lemma link_entry_ok:
  assumes inv: "cache_inv c" and free: "cached_page c key = None"
  defines "e \<equiv> next_box c"
  shows "\<exists>c2. link_entry key r c = (c2, Inr ()) \<and> key_map c2 = AList.update key e (key_map c) \<and> distinct (queue c2)
     \<and> set (queue c2) = insert e (set (queue c)) \<and> e \<notin> set (queue c) \<and> boxes c2 = (boxes c)(e := page_cache_entry_new key r)
     \<and> next_box c2 = Suc e \<and> pages c2 = pages c \<and> evictable_count c2 = evictable_count c \<and> capacity c2 = capacity c
     \<and> spill_threshold c2 = spill_threshold c \<and> spill_enabled c2 = spill_enabled c
     \<and> (\<exists>h \<in> set (queue c2). clock_hand c2 = Some h)"
proof -
  have fresh: "e \<notin> set (queue c)" using inv unfolding cache_inv_def boxes_ok_def e_def by blast
  have d: "distinct (queue c)" using inv unfolding cache_inv_def index_ok_def by blast
  show ?thesis
  proof (cases "clock_hand c")
    case None
    then have "queue c = []" using inv unfolding cache_inv_def hand_ok_def by simp
    then show ?thesis using None unfolding link_entry_def by (simp add: Let_def e_def)
  next
    case (Some h)
    then have h: "h \<in> set (queue c)" using inv unfolding cache_inv_def hand_ok_def by simp
    show ?thesis
      using Some h fresh insert_after_set [OF h, of e] insert_after_next [OF h, of e] insert_after_distinct [OF d fresh]
      unfolding link_entry_def by (simp add: Let_def e_def)
  qed
qed

lemma insert_new_linked:
  assumes inv: "cache_inv c" and free: "cached_page c key = None" and own: "owned c r"
    and link: "link_entry key r c = (c1, Inr ())"
  defines "c2 \<equiv> (if counted_as_evictable (pages c r) then c1\<lparr>evictable_count := evictable_count c1 + 1\<rparr> else c1)"
  shows "cache_inv c2" "cached_page c2 = (cached_page c)(key \<mapsto> r)" "pages c2 = pages c" "cache_len c2 = Suc (cache_len c)" "capacity c2 = capacity c"
    "spill_threshold c2 = spill_threshold c" "spill_enabled c2 = spill_enabled c"
proof -
  let ?e = "next_box c"
  have idx: "index_ok c" using inv unfolding cache_inv_def by blast
  have new: "key_map c1 = AList.update key ?e (key_map c)" "distinct (queue c1)" "set (queue c1) = insert ?e (set (queue c))"
    "?e \<notin> set (queue c)" "boxes c1 = (boxes c)(?e := page_cache_entry_new key r)" "next_box c1 = Suc ?e" "pages c1 = pages c"
    "evictable_count c1 = evictable_count c" "capacity c1 = capacity c" "\<exists>h \<in> set (queue c1). clock_hand c1 = Some h"
    "spill_threshold c1 = spill_threshold c" "spill_enabled c1 = spill_enabled c"
    using link_entry_ok [OF inv free, of r] link by auto
  have c2: "key_map c2 = key_map c1" "queue c2 = queue c1" "boxes c2 = boxes c1" "next_box c2 = next_box c1" "pages c2 = pages c1"
    "capacity c2 = capacity c1" "clock_hand c2 = clock_hand c1" "spill_threshold c2 = spill_threshold c1" "spill_enabled c2 = spill_enabled c1"
    "evictable_count c2 = evictable_count c1 + (if counted_as_evictable (pages c r) then 1 else 0)"
    unfolding c2_def by simp_all
  have nokey: "key \<notin> fst ` set (key_map c)" using free unfolding cached_page_def by (simp add: map_of_eq_None_iff)
  have app: "AList.update key ?e (key_map c) = key_map c @ [(key, ?e)]"
    by (rule update_fresh [OF nokey])
  have keys: "key_of c2 x = (if x = ?e then key else key_of c x)" for x
    unfolding key_of_def c2 new by (simp add: page_cache_entry_new_def)
  have nokey': "key \<notin> key_of c ` set (queue c)" using nokey idx unfolding index_ok_def by force
  have img: "(\<lambda>x. (key_of c2 x, x)) ` set (queue c) = (\<lambda>x. (key_of c x, x)) ` set (queue c)"
    using new(4) by (intro image_cong) (auto simp: keys)
  have inj: "inj_on (key_of c2) (insert ?e (set (queue c)))"
    using idx nokey' new(4) unfolding index_ok_def inj_on_def by (auto simp: keys)
  have "index_ok c2"
    using idx nokey inj new(2,3) unfolding index_ok_def c2(1,2) new(1,3) app image_insert img by (simp add: keys)
  moreover have "hand_ok c2" using new(10) unfolding hand_ok_def c2 by auto
  moreover have "boxes_ok c2"
    using inv new(3,4) unfolding cache_inv_def boxes_ok_def c2 new(5,6) by (auto simp: page_cache_entry_new_def CLEAR_def)
  moreover have "count_ok c2"
  proof -
    have "entry_counted c2 = entry_counted c \<union> (if counted_as_evictable (pages c r) then {?e} else {})"
      using new(3,4) unfolding entry_counted_def entry_at_def c2 new(5,7) by (auto simp: page_cache_entry_new_def)
    moreover have "finite (entry_counted c)" "?e \<notin> entry_counted c" using new(4) unfolding entry_counted_def by auto
    ultimately show ?thesis using inv new(8) unfolding cache_inv_def count_ok_def c2(10) by simp
  qed
  moreover have "refs_ok c2"
  proof -
    have "entries_of c2 x = entries_of c x \<union> (if x = r then {?e} else {})" for x
      using new(3,4) unfolding entries_of_def c2 new(5) by (auto simp: page_cache_entry_new_def)
    moreover have "finite (entries_of c x)" "?e \<notin> entries_of c x" for x using new(4) unfolding entries_of_def by auto
    moreover have "card (entries_of c r) < strong_count (pages c r)" using own keys_of_entries(2) [OF idx, of r] unfolding owned_def by simp
    ultimately show ?thesis using inv unfolding cache_inv_def refs_ok_def c2(5) new(7) by auto
  qed
  ultimately show "cache_inv c2" unfolding cache_inv_def by blast
  show "cached_page c2 = (cached_page c)(key \<mapsto> r)"
  proof (rule ext)
    fix k
    have "x \<noteq> ?e" if "map_of (key_map c) k = Some x" for x using that new(4) index_lookup [OF idx] by blast
    then show "cached_page c2 k = ((cached_page c)(key \<mapsto> r)) k"
      unfolding cached_page_def c2(1,3) new(1,5) by (cases "map_of (key_map c) k") (auto simp: update_conv' page_cache_entry_new_def)
  qed
  show "cache_len c2 = Suc (cache_len c)" unfolding cache_len_def c2(1) new(1) app by simp
  show "pages c2 = pages c" "capacity c2 = capacity c" "spill_threshold c2 = spill_threshold c" "spill_enabled c2 = spill_enabled c"
    using c2 new by simp_all
qed

section \<open>Deletion\<close>

definition idle :: "page \<Rightarrow> bool" where "idle p \<longleftrightarrow> \<not> is_locked p \<and> \<not> is_dirty p \<and> \<not> is_pinned p"

definition delete_error :: "page \<Rightarrow> cache_error" where
  "delete_error p = (if is_locked p then CacheLocked (page_id p) else if is_dirty p then CacheDirty (page_id p) else CachePinned (page_id p))"

text \<open>The contents after one key is forgotten.\<close>

definition forgets :: "usize \<Rightarrow> page_ref \<Rightarrow> page_cache \<Rightarrow> page_cache \<Rightarrow> bool" where
  "forgets k r c c' \<longleftrightarrow> cached_page c' = (cached_page c)(k := None) \<and> pages c' = (pages c)(r := discard (pages c r))
     \<and> capacity c' = capacity c \<and> spill_threshold c' = spill_threshold c \<and> spill_enabled c' = spill_enabled c
     \<and> cache_len c = Suc (cache_len c')"

lemma cached_entry:
  assumes "cached_page c k = Some r"
  obtains e where "map_of (key_map c) k = Some e" "entry_page (boxes c e) = r" "entry_at c e = pages c r"
  using assms unfolding cached_page_def entry_at_def by auto

lemma forgets_remove:
  assumes "cache_inv c" "map_of (key_map c) k = Some e" "entry_page (boxes c e) = r"
  shows "forgets k r c (remove_entry e c)" "cache_inv (remove_entry e c)"
proof -
  have idx: "index_ok c" using assms(1) unfolding cache_inv_def by blast
  have e: "e \<in> set (queue c)" "key_of c e = k" using index_lookup [OF idx] assms(2) by blast+
  show inv: "cache_inv (remove_entry e c)" by (rule remove_entry_inv [OF assms(1) e(1)])
  have "cache_len (remove_entry e c) = length (remove1 e (queue c))" "cache_len c = length (queue c)"
    using index_len [OF idx] index_len [of "remove_entry e c"] inv unfolding cache_inv_def by simp_all
  moreover have "0 < length (queue c)" using e(1) by (cases "queue c") auto
  ultimately show "forgets k r c (remove_entry e c)"
    using e remove_entry_cached [OF idx e(1)] assms(3) unfolding forgets_def by (simp add: entry_at_def length_remove1)
qed

lemma delete_absent: "cached_page c k = None \<Longrightarrow> cache_delete k c = (c, Inr ())"
  unfolding cached_page_def cache_delete_def delete_inner_def by simp

lemma delete_present:
  assumes "cache_inv c" "cached_page c k = Some r"
  shows "idle (pages c r) \<Longrightarrow> \<exists>c'. cache_delete k c = (c', Inr ()) \<and> forgets k r c c' \<and> cache_inv c'"
    "\<not> idle (pages c r) \<Longrightarrow> cache_delete k c = (c, Inl (delete_error (pages c r)))"
proof -
  have idx: "index_ok c" using assms(1) unfolding cache_inv_def by blast
  obtain e where e: "map_of (key_map c) k = Some e" "entry_page (boxes c e) = r" "entry_at c e = pages c r"
    using cached_entry [OF assms(2)] .
  show "\<exists>c'. cache_delete k c = (c', Inr ()) \<and> forgets k r c c' \<and> cache_inv c'" if "idle (pages c r)"
    using that forgets_remove [OF assms(1) e(1,2)] e unfolding cache_delete_def delete_inner_eq [OF idx] idle_def by simp
  show "cache_delete k c = (c, Inl (delete_error (pages c r)))" if "\<not> idle (pages c r)"
    using that e unfolding cache_delete_def delete_inner_eq [OF idx] idle_def delete_error_def by (auto simp: Let_def)
qed

lemma delete_error_simps [simp]: "delete_error p \<noteq> CachePanic" "delete_error p \<noteq> CacheFull" "delete_error p \<noteq> KeyExists"
  "CachePanic \<noteq> delete_error p" "CacheFull \<noteq> delete_error p"
  unfolding delete_error_def by simp_all

lemma delete_cases:
  assumes "cache_inv c"
  obtains (same) res where "cache_delete k c = (c, res)" "res \<noteq> Inl CachePanic" "cached_page c k = None \<or> res \<noteq> Inr ()"
  | (gone) c' r where "cached_page c k = Some r" "idle (pages c r)" "cache_delete k c = (c', Inr ())" "forgets k r c c'" "cache_inv c'"
proof (cases "cached_page c k")
  case None
  then show ?thesis using same [of "Inr ()"] delete_absent by simp
next
  case (Some r)
  show ?thesis
  proof (cases "idle (pages c r)")
    case True
    then show ?thesis using delete_present(1) [OF assms Some] gone [OF Some] by blast
  next
    case False
    then show ?thesis using delete_present(2) [OF assms Some] same by simp
  qed
qed

lemma forgets_owned:
  assumes "cache_inv c" "forgets k r c c'" "owned c x" "cached_page c k = Some r"
  shows "owned c' x"
proof -
  have f: "finite (keys_of c x)" using keys_of_entries(3) assms(1) unfolding cache_inv_def by blast
  have "keys_of c' x = keys_of c x - {k}" using assms(2) unfolding forgets_def keys_of_def by auto
  then have "card (keys_of c' x) = card (keys_of c x) - (if x = r then 1 else 0)"
    using f assms(4) by (auto simp: keys_of_def card_Diff_singleton_if)
  moreover have "0 < card (keys_of c r)" using assms(4) f keys_of_entries(3) assms(1)
    unfolding cache_inv_def by (auto simp: card_gt_0_iff keys_of_def)
  ultimately show ?thesis using assms(2,3) unfolding owned_def forgets_def discard_def by (auto split: if_splits)
qed

section \<open>Insertion\<close>

text \<open>The contents after a page is admitted under a key, with pages shed to make room.\<close>

definition admits :: "usize \<Rightarrow> page_ref \<Rightarrow> page_cache \<Rightarrow> page_cache \<Rightarrow> bool" where
  "admits k r c c' \<longleftrightarrow> (\<exists>c1. sheds c c1 \<and> cache_inv c1 \<and> cached_page c' = (cached_page c1)(k \<mapsto> r) \<and> pages c' = pages c1)
     \<and> capacity c' = capacity c \<and> spill_threshold c' = spill_threshold c \<and> spill_enabled c' = spill_enabled c"

lemma sheds_fields: "sheds c c' \<Longrightarrow> capacity c' = capacity c \<and> spill_threshold c' = spill_threshold c \<and> spill_enabled c' = spill_enabled c"
  unfolding sheds_def by blast

lemma sheds_None: "sheds c c' \<Longrightarrow> cached_page c k = None \<Longrightarrow> cached_page c' k = None"
  unfolding sheds_def by (metis domIff map_le_def not_None_eq)

lemma make_room_cases:
  assumes "cache_inv c"
  obtains (room) c1 where "make_room_for 1 bypass c = (c1, Inr ())" "sheds c c1" "cache_inv c1" "\<not> bypass \<Longrightarrow> cache_len c1 < capacity c"
  | (full) c1 where "make_room_for 1 bypass c = (c1, Inl CacheFull)" "sheds c c1" "cache_inv c1" "\<not> bypass" "capacity c \<le> cache_len c1"
      "len_ok c \<Longrightarrow> 0 < capacity c \<Longrightarrow> stuck c1"
proof -
  consider "bypass" | "\<not> bypass" "capacity c = 0" | "\<not> bypass" "0 < capacity c" by auto
  then show ?thesis
  proof cases
    case 1
    then show ?thesis using room [of c] assms unfolding make_room_for_def by simp
  next
    case 2
    then show ?thesis using full [of c] assms unfolding make_room_for_def by simp
  next
    case 3
    then have eq: "make_room_for 1 bypass c = evict_until (capacity c - 1) c" unfolding make_room_for_def by (simp add: Let_def)
    show ?thesis
      by (rule evict_until_outcome [OF assms, of "capacity c - 1"]) (use 3 room full eq in auto)
  qed
qed

lemma insert_new_cases:
  assumes inv: "cache_inv c" and free: "cached_page c k = None" and own: "owned c r"
  obtains (added) c' where "insert_new k r bypass c = (c', Inr ())" "cache_inv c'" "admits k r c c'" "\<not> bypass \<Longrightarrow> cache_len c' \<le> capacity c"
  | (full) c1 where "insert_new k r bypass c = (drop_ref r c1, Inl CacheFull)" "sheds c c1" "cache_inv c1" "owned c1 r" "\<not> bypass"
      "capacity c \<le> cache_len c1" "len_ok c \<Longrightarrow> 0 < capacity c \<Longrightarrow> stuck c1"
  using inv
proof (cases rule: make_room_cases [where bypass = bypass, case_names room full])
  case (room c1)
  have free1: "cached_page c1 k = None" using sheds_None [OF room(2) free] .
  have own1: "owned c1 r" using sheds_owned [OF inv room(2) own] by blast
  obtain c2 where c2: "link_entry k r c1 = (c2, Inr ())" using link_entry_ok [OF room(3) free1] by blast
  note new = insert_new_linked [OF room(3) free1 own1 c2]
  let ?c = "if counted_as_evictable (pages c1 r) then c2\<lparr>evictable_count := evictable_count c2 + 1\<rparr> else c2"
  have "insert_new k r bypass c = (?c, Inr ())" unfolding insert_new_def room(1) by (simp add: c2 Let_def)
  moreover have "admits k r c ?c" using room(2,3) new sheds_fields [OF room(2)] unfolding admits_def by metis
  moreover have "cache_len ?c \<le> capacity c" if "\<not> bypass" using room(4) [OF that] new(4) by simp
  ultimately show ?thesis using added new(1) by blast
next
  case (full c1)
  have "insert_new k r bypass c = (drop_ref r c1, Inl CacheFull)" unfolding insert_new_def full(1) by simp
  moreover have "owned c1 r" using sheds_owned [OF inv full(2) own] by blast
  ultimately show ?thesis using that(2) [of c1] full(2-6) by simp
qed

lemma card_replace:
  assumes "finite A"
  shows "card (A - {e} \<union> (if b then {e} else {})) = card A - (if e \<in> A then 1 else 0) + (if b then 1 else 0)"
proof (cases "e \<in> A")
  case True
  then have "card A = Suc (card (A - {e}))" by (rule card.remove [OF assms])
  moreover have "A - {e} \<union> {e} = A" using True by blast
  ultimately show ?thesis using True by (cases b) simp_all
qed (use assms in auto)

lemma replace_in_place_ok:
  assumes inv: "cache_inv c" and own: "owned c r" and k: "cached_page c k = Some old" and e: "map_of (key_map c) k = Some e"
  shows "cache_inv (replace_in_place e r c)" "cached_page (replace_in_place e r c) = (cached_page c)(k \<mapsto> r)"
    "pages (replace_in_place e r c) = (pages c)(old := (pages c old)\<lparr>strong_count := strong_count (pages c old) - 1\<rparr>)"
    "capacity (replace_in_place e r c) = capacity c" "cache_len (replace_in_place e r c) = cache_len c"
    "spill_threshold (replace_in_place e r c) = spill_threshold c" "spill_enabled (replace_in_place e r c) = spill_enabled c"
proof -
  let ?c = "replace_in_place e r c"
  have idx: "index_ok c" using inv unfolding cache_inv_def by blast
  have eq: "e \<in> set (queue c)" "key_of c e = k" using index_lookup [OF idx] e by blast+
  have old: "entry_page (boxes c e) = old" "entry_at c e = pages c old" using k e unfolding cached_page_def entry_at_def by auto
  let ?a = "counted_as_evictable (pages c old)" let ?b = "counted_as_evictable (pages c r)"
  have ec: "evictable_count ?c = (if ?a \<and> \<not> ?b then evictable_count c - 1 else if \<not> ?a \<and> ?b then evictable_count c + 1 else evictable_count c)"
    and fields: "key_map ?c = key_map c" "queue ?c = queue c" "clock_hand ?c = clock_hand c" "next_box ?c = next_box c"
      "boxes ?c = (boxes c)(e := (boxes c e)\<lparr>entry_page := r\<rparr>)"
    and ps: "pages ?c = (pages c)(old := (pages c old)\<lparr>strong_count := strong_count (pages c old) - 1\<rparr>)"
    and cap: "capacity ?c = capacity c" "spill_threshold ?c = spill_threshold c" "spill_enabled ?c = spill_enabled c"
    unfolding replace_in_place_def using old by (simp_all add: Let_def drop_ref_def)
  show "pages ?c = (pages c)(old := (pages c old)\<lparr>strong_count := strong_count (pages c old) - 1\<rparr>)" by (rule ps)
  show "capacity ?c = capacity c" "cache_len ?c = cache_len c" "spill_threshold ?c = spill_threshold c" "spill_enabled ?c = spill_enabled c"
    unfolding cap cache_len_def fields by simp_all
  have keys: "key_of ?c = key_of c" unfolding key_of_def fields by (simp add: fun_eq_iff)
  have idx': "index_ok ?c" using idx unfolding index_ok_def keys fields by simp
  have cnt: "counted_as_evictable (pages ?c x) = counted_as_evictable (pages c x)" for x unfolding ps by simp
  have "entry_counted ?c = entry_counted c - {e} \<union> (if ?b then {e} else {})"
    using eq(1) unfolding entry_counted_def entry_at_def cnt fields by auto
  moreover have "e \<in> entry_counted c \<longleftrightarrow> ?a" using eq(1) old unfolding entry_counted_def by simp
  moreover have "finite (entry_counted c)" unfolding entry_counted_def by simp
  ultimately have "card (entry_counted ?c) = card (entry_counted c) - (if ?a then 1 else 0) + (if ?b then 1 else 0)"
    using card_replace [of "entry_counted c" e ?b] by simp
  moreover have "?a \<Longrightarrow> 0 < card (entry_counted c)"
    using \<open>e \<in> entry_counted c \<longleftrightarrow> ?a\<close> \<open>finite (entry_counted c)\<close> by (auto simp: card_gt_0_iff)
  ultimately have count: "count_ok ?c" using inv unfolding cache_inv_def count_ok_def ec by auto
  have f: "finite (entries_of c x)" for x unfolding entries_of_def by simp
  have ent: "entries_of ?c x = entries_of c x - {e} \<union> (if x = r then {e} else {})" for x
    using eq(1) unfolding entries_of_def fields by auto
  have mem: "e \<in> entries_of c x \<longleftrightarrow> x = old" for x using eq(1) old unfolding entries_of_def by auto
  have refs: "refs_ok ?c"
    unfolding refs_ok_def
  proof
    fix x
    have "card (entries_of ?c x) = card (entries_of c x) - (if x = old then 1 else 0) + (if x = r then 1 else 0)"
      unfolding ent using card_replace [OF f, of x e "x = r"] mem by simp
    moreover have "card (entries_of c x) \<le> strong_count (pages c x)" using inv unfolding cache_inv_def refs_ok_def by blast
    moreover have "x = r \<Longrightarrow> card (entries_of c x) < strong_count (pages c x)"
      using own keys_of_entries(2) [OF idx] unfolding owned_def by simp
    moreover have "x = old \<Longrightarrow> 0 < card (entries_of c x)" using mem f by (auto simp: card_gt_0_iff)
    ultimately show "card (entries_of ?c x) \<le> strong_count (pages ?c x)" unfolding ps by (cases "x = old"; cases "x = r") auto
  qed
  have "hand_ok ?c" "boxes_ok ?c" using inv unfolding cache_inv_def hand_ok_def boxes_ok_def fields by auto
  then show "cache_inv ?c" using idx' count refs unfolding cache_inv_def by blast
  show "cached_page ?c = (cached_page c)(k \<mapsto> r)"
  proof (rule ext)
    fix x
    have "y = e \<longleftrightarrow> x = k" if "map_of (key_map c) x = Some y" for y using that e eq index_lookup [OF idx, of x y] by (cases "x = k") auto
    then show "cached_page ?c x = ((cached_page c)(k \<mapsto> r)) x"
      using e unfolding cached_page_def fields by (cases "map_of (key_map c) x") auto
  qed
qed

section \<open>The operations of the interface\<close>

text \<open>A page whose read was aborted: neither loaded nor locked.\<close>

definition stale :: "page \<Rightarrow> bool" where "stale p \<longleftrightarrow> \<not> is_loaded p \<and> \<not> is_locked p"

lemma insert_inner_absent: "cached_page c k = None \<Longrightarrow> insert_inner k r upd bypass c = insert_new k r bypass c"
  unfolding insert_inner_def cached_page_def by simp

lemma insert_inner_stale:
  assumes "cache_inv c" "cached_page c k = Some old" "stale (pages c old)"
  shows "insert_inner k r upd bypass c =
     (case cache_delete k c of (c1, Inl err) \<Rightarrow> (drop_ref r c1, Inl err) | (c1, Inr _) \<Rightarrow> insert_new k r bypass c1)"
  by (rule cached_entry [OF assms(2)]) (use assms(3) in \<open>simp add: insert_inner_def cache_delete_def stale_def\<close>)

lemma insert_inner_present:
  assumes "cache_inv c" "cached_page c k = Some old" "\<not> stale (pages c old)"
  obtains e where "map_of (key_map c) k = Some e"
    "insert_inner k r upd bypass c =
       (if upd then (replace_in_place e r (on_box e bump_ref c), Inr ())
        else if old = r then (drop_ref r (on_box e bump_ref c), Inl KeyExists) else (on_box e bump_ref c, Inl CachePanic))"
proof -
  obtain e where e: "map_of (key_map c) k = Some e" "entry_page (boxes c e) = old" "entry_at c e = pages c old"
    using cached_entry [OF assms(2)] .
  then have "insert_inner k r upd bypass c =
       (if upd then (replace_in_place e r (on_box e bump_ref c), Inr ())
        else if old = r then (drop_ref r (on_box e bump_ref c), Inl KeyExists) else (on_box e bump_ref c, Inl CachePanic))"
    using assms(3) unfolding insert_inner_def stale_def by (auto simp: Let_def)
  then show ?thesis using e(1) that by blast
qed

text \<open>
  Every outcome of an insertion. The variable \<open>c0\<close> is the cache after a stale entry of the same key was removed.
\<close>

definition purged :: "usize \<Rightarrow> page_cache \<Rightarrow> page_cache \<Rightarrow> bool" where
  "purged k c c0 \<longleftrightarrow> c0 = c \<and> cached_page c k = None
     \<or> (\<exists>old. cached_page c k = Some old \<and> stale (pages c old) \<and> idle (pages c old) \<and> forgets k old c c0)"

lemma insert_inner_cases:
  assumes inv: "cache_inv c" and own: "owned c r"
  obtains (added) c0 c' where "insert_inner k r upd bypass c = (c', Inr ())" "purged k c c0" "cache_inv c0" "owned c0 r" "admits k r c0 c'"
      "cache_inv c'" "\<not> bypass \<Longrightarrow> cache_len c' \<le> capacity c"
  | (full) c0 c1 where "insert_inner k r upd bypass c = (drop_ref r c1, Inl CacheFull)" "purged k c c0" "cache_inv c0" "sheds c0 c1"
      "cache_inv c1" "owned c1 r" "\<not> bypass" "capacity c \<le> cache_len c1" "len_ok c \<Longrightarrow> 0 < capacity c \<Longrightarrow> stuck c1"
  | (refused) old where "insert_inner k r upd bypass c = (drop_ref r c, Inl (delete_error (pages c old)))" "cached_page c k = Some old"
      "stale (pages c old)" "\<not> idle (pages c old)"
  | (replaced) c' old where "insert_inner k r upd bypass c = (c', Inr ())" "upd" "cached_page c k = Some old" "\<not> stale (pages c old)"
      "cache_inv c'" "cached_page c' = (cached_page c)(k \<mapsto> r)" "capacity c' = capacity c"
      "pages c' = (pages c)(old := (pages c old)\<lparr>strong_count := strong_count (pages c old) - 1\<rparr>)"
  | (present) e where "insert_inner k r upd bypass c = (drop_ref r (on_box e bump_ref c), Inl KeyExists)" "cached_page c k = Some r"
      "\<not> stale (pages c r)" "\<not> upd"
  | (clash) e old where "insert_inner k r upd bypass c = (on_box e bump_ref c, Inl CachePanic)" "cached_page c k = Some old" "old \<noteq> r"
      "\<not> stale (pages c old)" "\<not> upd"
proof -
  have new: thesis if c0: "insert_inner k r upd bypass c = insert_new k r bypass c0" "purged k c c0" "cache_inv c0" "owned c0 r"
    "cached_page c0 k = None" "capacity c0 = capacity c" "len_ok c \<Longrightarrow> len_ok c0" for c0
    by (rule insert_new_cases [OF c0(3,5,4), of bypass]) (use c0 added full in auto)
  show thesis
  proof (cases "cached_page c k")
    case None
    then show thesis using new [of c] insert_inner_absent inv own unfolding purged_def by blast
  next
    case (Some old)
    show thesis
    proof (cases "stale (pages c old)")
      case stale: True
      note eq = insert_inner_stale [OF inv Some stale, of r upd bypass]
      show thesis
      proof (cases "idle (pages c old)")
        case True
        obtain c0 where c0: "cache_delete k c = (c0, Inr ())" "forgets k old c c0" "cache_inv c0"
          using delete_present(1) [OF inv Some True] by blast
        then show thesis
          using new [of c0] eq Some stale True forgets_owned [OF inv c0(2) own Some] len_ok_mono [of c0 c] unfolding purged_def forgets_def by auto
      next
        case False
        then show thesis using refused [of old] eq delete_present(2) [OF inv Some False] Some stale by simp
      qed
    next
      case False
      obtain e where e: "map_of (key_map c) k = Some e" and eq: "insert_inner k r upd bypass c =
         (if upd then (replace_in_place e r (on_box e bump_ref c), Inr ())
          else if old = r then (drop_ref r (on_box e bump_ref c), Inl KeyExists) else (on_box e bump_ref c, Inl CachePanic))"
        using insert_inner_present [OF inv Some False] by metis
      have "owned (on_box e bump_ref c) r" using own unfolding owned_def keys_of_def bump_box by simp
      note rep = replace_in_place_ok [OF bump_inv [OF inv, of e] this, of k old e]
      show thesis
      proof (cases upd)
        case True
        then show thesis using replaced [OF _ True Some False] eq rep e Some by (simp add: bump_box)
      next
        case upd: False
        then show thesis using present [of e] clash [of e old] eq Some False by (cases "old = r") auto
      qed
    qed
  qed
qed

lemma insert_new_bypass_not_full:
  assumes "cache_inv c" "owned c r"
  shows "snd (insert_inner k r upd True c) \<noteq> Inl CacheFull"
  by (rule insert_inner_cases [OF assms, of k upd True]) auto

lemma cache_get_cases:
  assumes inv: "cache_inv c"
  obtains (absent) "cache_get k c = (c, Inr None)" "cached_page c k = None"
  | (hit) r e where "cache_get k c = (on_box e bump_ref (clone_ref r c), Inr (Some r))" "cached_page c k = Some r" "\<not> stale (pages c r)"
  | (dropped) r c1 where "cache_get k c = (drop_ref r c1, Inr None)" "cached_page c k = Some r" "stale (pages c r)" "idle (pages c r)"
      "forgets k r (clone_ref r c) c1" "cache_inv c1" "owned c1 r"
  | (refused) r where "cache_get k c = (c, Inl (delete_error (pages c r)))" "cached_page c k = Some r" "stale (pages c r)" "\<not> idle (pages c r)"
proof (cases "cached_page c k")
  case None
  then show thesis using absent unfolding cache_get_def cached_page_def by simp
next
  case (Some r)
  obtain e where e: "map_of (key_map c) k = Some e" "entry_page (boxes c e) = r" using cached_entry [OF Some] by metis
  let ?c = "clone_ref r c"
  have c: "cache_inv ?c" "owned ?c r" "cached_page ?c k = Some r" using clone_ref_inv [OF inv] clone_owned [OF inv] Some by auto
  have p: "pages ?c r = (pages c r)\<lparr>strong_count := strong_count (pages c r) + 1\<rparr>" unfolding clone_ref_def by simp
  have st: "stale (pages ?c r) = stale (pages c r)" "idle (pages ?c r) = idle (pages c r)" "delete_error (pages ?c r) = delete_error (pages c r)"
    unfolding p stale_def idle_def delete_error_def is_pinned_def by simp_all
  show thesis
  proof (cases "stale (pages c r)")
    case stale: True
    then have eq: "cache_get k c =
       (let (c2, res) = cache_delete k ?c in (drop_ref r c2, (case res of Inl err \<Rightarrow> Inl err | Inr _ \<Rightarrow> Inr None)))"
      using e st(1) unfolding cache_get_def stale_def by (simp add: Let_def)
    show thesis
    proof (cases "idle (pages c r)")
      case True
      then obtain c1 where "cache_delete k ?c = (c1, Inr ())" "forgets k r ?c c1" "cache_inv c1"
        using delete_present(1) [OF c(1,3)] st by auto
      then show thesis using dropped [of r c1] eq Some stale True forgets_owned [OF c(1) _ c(2,3)] by simp
    next
      case False
      then show thesis using refused [of r] eq Some stale delete_present(2) [OF c(1,3)] st by simp
    qed
  next
    case False
    then show thesis using hit [of e r] e Some st unfolding cache_get_def stale_def by (auto simp: Let_def)
  qed
qed

section \<open>Spare handles\<close>

text \<open>The number of handles outside the cache; an insertion consumes at most one, whatever its outcome.\<close>

definition spare :: "page_cache \<Rightarrow> page_ref \<Rightarrow> nat" where
  "spare c r = strong_count (pages c r) - card (keys_of c r)"

lemma owned_spare: "owned c r \<longleftrightarrow> 0 < spare c r"
  unfolding owned_def spare_def by auto

lemma spare_drop: "spare (drop_ref r c) r = spare c r - 1"
  unfolding spare_def keys_of_def drop_ref_def by simp

lemma spare_bump [simp]: "spare (on_box e bump_ref c) = spare c"
  unfolding spare_def keys_of_def bump_box by (simp add: fun_eq_iff)

lemma spare_clone: "cache_inv c \<Longrightarrow> spare (clone_ref r c) r = Suc (spare c r)"
  using refs_keys [of c r] unfolding spare_def keys_of_def clone_ref_def by simp

lemma spare_sheds:
  assumes "cache_inv c" "sheds c c1" "owned c r"
  shows "spare c r \<le> spare c1 r"
proof -
  have "keys_of c1 r \<subseteq> keys_of c r" using assms(2) unfolding sheds_def keys_of_def by (force simp: map_le_def dom_def)
  moreover have "finite (keys_of c r)" using keys_of_entries(3) assms(1) unfolding cache_inv_def by blast
  ultimately have "card (keys_of c1 r) \<le> card (keys_of c r)" by (intro card_mono)
  then show ?thesis using sheds_owned(2) [OF assms] unfolding spare_def by simp
qed

lemma spare_forgets:
  assumes "cache_inv c" "forgets k old c c1" "cached_page c k = Some old"
  shows "spare c1 r = spare c r"
proof -
  have f: "finite (keys_of c r)" using keys_of_entries(3) assms(1) unfolding cache_inv_def by blast
  have keys: "keys_of c1 r = keys_of c r - {k}" using assms(2) unfolding forgets_def keys_of_def by auto
  show ?thesis
  proof (cases "r = old")
    case True
    then have k: "k \<in> keys_of c r" using assms(3) unfolding keys_of_def by simp
    have "card (keys_of c r) = Suc (card (keys_of c r - {k}))" by (rule card.remove [OF f k])
    then show ?thesis using assms(2) True unfolding spare_def keys forgets_def discard_def by simp
  next
    case False
    then have "k \<notin> keys_of c r" using assms(3) unfolding keys_of_def by simp
    then show ?thesis using assms(2) False unfolding spare_def keys forgets_def by simp
  qed
qed

lemma spare_purged: "cache_inv c \<Longrightarrow> purged k c c0 \<Longrightarrow> spare c0 r = spare c r"
  unfolding purged_def using spare_forgets by blast

lemma card_insert_le: "finite A \<Longrightarrow> card (insert x A) \<le> Suc (card A)"
  by (simp add: card_insert_if)

lemma spare_admits:
  assumes "cache_inv c" "admits k r c c'" "owned c r"
  shows "spare c r \<le> Suc (spare c' r)"
proof -
  obtain c1 where c1: "sheds c c1" "cache_inv c1" "cached_page c' = (cached_page c1)(k \<mapsto> r)" "pages c' = pages c1"
    using assms(2) unfolding admits_def by blast
  have "keys_of c' r = insert k (keys_of c1 r)" unfolding keys_of_def c1(3) by auto
  moreover have "finite (keys_of c1 r)" using keys_of_entries(3) c1(2) unfolding cache_inv_def by blast
  ultimately have "card (keys_of c' r) \<le> Suc (card (keys_of c1 r))" using card_insert_le by simp
  then show ?thesis using spare_sheds [OF assms(1) c1(1) assms(3)] unfolding spare_def c1(4) by simp
qed

lemma spare_replaced:
  assumes "cache_inv c" "cached_page c k = Some old" "cached_page c' = (cached_page c)(k \<mapsto> r)"
    "pages c' = (pages c)(old := (pages c old)\<lparr>strong_count := strong_count (pages c old) - 1\<rparr>)"
  shows "spare c r \<le> Suc (spare c' r)"
proof -
  have f: "finite (keys_of c r)" using keys_of_entries(3) assms(1) unfolding cache_inv_def by blast
  have keys: "keys_of c' r = insert k (keys_of c r)" unfolding keys_of_def assms(3) by auto
  show ?thesis
  proof (cases "old = r")
    case True
    then have "insert k (keys_of c r) = keys_of c r" using assms(2) unfolding keys_of_def by auto
    then show ?thesis using True unfolding spare_def keys assms(4) by simp
  next
    case False
    then show ?thesis using card_insert_le [OF f, of k] unfolding spare_def keys assms(4) by simp
  qed
qed

lemma insert_inner_spare:
  assumes inv: "cache_inv c" and own: "owned c r"
  shows "spare c r \<le> Suc (spare (fst (insert_inner k r upd bypass c)) r)"
proof (rule insert_inner_cases [OF inv own, of k upd bypass])
  fix c0 c' assume *: "insert_inner k r upd bypass c = (c', Inr ())" "purged k c c0" "cache_inv c0" "owned c0 r" "admits k r c0 c'"
  then show ?thesis using spare_purged [OF inv *(2)] spare_admits [OF *(3,5,4)] by simp
next
  fix c0 c1 assume *: "insert_inner k r upd bypass c = (drop_ref r c1, Inl CacheFull)" "purged k c c0" "cache_inv c0" "sheds c0 c1" "owned c1 r"
  have "owned c0 r" using own spare_purged [OF inv *(2)] unfolding owned_spare by simp
  then have "spare c r \<le> spare c1 r" using spare_purged [OF inv *(2)] spare_sheds [OF *(3,4)] by metis
  then show ?thesis using *(1) by (simp add: spare_drop)
next
  fix c' old
  assume *: "insert_inner k r upd bypass c = (c', Inr ())" "cached_page c k = Some old" "cached_page c' = (cached_page c)(k \<mapsto> r)"
    "pages c' = (pages c)(old := (pages c old)\<lparr>strong_count := strong_count (pages c old) - 1\<rparr>)"
  then show ?thesis using spare_replaced [OF inv *(2-4)] by simp
qed (simp_all add: spare_drop)

end
