(* ===== verification/Page_Cache_Events.thy ===== *)
theory Page_Cache_Events
  imports Page_Cache_Ops Simulation
begin

text \<open>
  The events of the page cache: its calls, and the changes of pages between the calls (locks, pins, handles, dirty and
  spilled flags); what the callers respect, and what an event may do to a page with unsaved changes.
\<close>

section \<open>Events\<close>

datatype cache_event =
    EvNew page_ref usize
  | EvClone page_ref
  | EvDrop page_ref
  | EvLock page_ref
  | EvUnlock page_ref
  | EvPin page_ref
  | EvUnpin page_ref
  | EvFinishRead page_ref bytes
  | EvWrite page_ref bytes
  | EvRenumber page_ref usize
  | EvTag page_ref u64
  | EvAddDirty page_ref
  | EvClearDirty page_ref
  | EvMarkSpilled page_ref
  | EvInsert usize page_ref
  | EvForceInsert usize page_ref
  | EvForceUpsert usize page_ref
  | EvDelete usize
  | EvGet usize
  | EvPeek usize bool
  | EvResize usize
  | EvCheckSpill "usize list" usize
  | EvGuardDrop page_ref
  | EvClear "usize list" bool
  | EvTruncate "usize list" usize
  | EvDeleteAfter "usize list" u64
  | EvSetSpill bool

text \<open>The end of a read, and the calls with which the pager marks a page dirty or spilled.\<close>

definition finish_read_page :: "bytes \<Rightarrow> page \<Rightarrow> page" where
  "finish_read_page b p = clear_wal_tag (set_loaded (clear_locked (p\<lparr>buffer := Some b\<rparr>)))"

definition add_dirty_notify :: "page_ref \<Rightarrow> page_cache \<Rightarrow> page_cache" where
  "add_dirty_notify r c =
     (let p = pages c r;
          c1 = (if \<not> is_dirty p \<or> is_spilled p then notify_page_dirty (page_id p) c else c)
      in on_page r set_dirty c1)"

definition mark_spilled :: "page_ref \<Rightarrow> page_cache \<Rightarrow> page_cache" where
  "mark_spilled r c =
     (let p = pages c r in
      if has_wal_tag p then on_page r set_spilled (notify_page_spilled (page_id p) c) else c)"

definition cache_result :: "page_cache \<times> (cache_error + 'a) \<Rightarrow> page_cache res" where
  "cache_result x = (case snd x of Inl CachePanic \<Rightarrow> Inl Panic | _ \<Rightarrow> Inr (fst x))"

fun cache_step :: "cache_event \<Rightarrow> page_cache \<Rightarrow> page_cache res option" where
  "cache_step (EvNew r n) c = Some (Inr (on_page r (\<lambda>_. page_new n) c))"
| "cache_step (EvClone r) c = Some (Inr (clone_ref r c))"
| "cache_step (EvDrop r) c = Some (Inr (drop_ref r c))"
| "cache_step (EvLock r) c = Some (Inr (on_page r set_locked c))"
| "cache_step (EvUnlock r) c = Some (Inr (on_page r clear_locked c))"
| "cache_step (EvPin r) c = Some (Inr (on_page r pin c))"
| "cache_step (EvUnpin r) c = Some (Inr (on_page r (\<lambda>p. fst (try_unpin p)) c))"
| "cache_step (EvFinishRead r b) c = Some (Inr (on_page r (finish_read_page b) c))"
| "cache_step (EvWrite r b) c = Some (Inr (on_page r (\<lambda>p. p\<lparr>buffer := Some b\<rparr>) c))"
| "cache_step (EvRenumber r n) c = Some (Inr (on_page r (\<lambda>p. p\<lparr>page_id := n\<rparr>) c))"
| "cache_step (EvTag r t) c = Some (Inr (on_page r (\<lambda>p. p\<lparr>wal_tag := t\<rparr>) c))"
| "cache_step (EvAddDirty r) c = Some (if is_loaded (pages c r) then Inr (add_dirty_notify r c) else Inl Panic)"
| "cache_step (EvClearDirty r) c = Some (Inr (on_page r clear_dirty c))"
| "cache_step (EvMarkSpilled r) c = Some (Inr (mark_spilled r c))"
| "cache_step (EvInsert k r) c = Some (cache_result (cache_insert k r c))"
| "cache_step (EvForceInsert k r) c = Some (cache_result (force_insert_page k r c))"
| "cache_step (EvForceUpsert k r) c = Some (cache_result (force_upsert_page k r c))"
| "cache_step (EvDelete k) c = Some (cache_result (cache_delete k c))"
| "cache_step (EvGet k) c = Some (cache_result (cache_get k c))"
| "cache_step (EvPeek k touch) c = Some (Inr (fst (cache_peek k touch c)))"
| "cache_step (EvResize n) c = Some (Inr (fst (cache_resize n c)))"
| "cache_step (EvCheckSpill ks n) c = Some (Inr (fst (check_spill ks n c)))"
| "cache_step (EvGuardDrop r) c = Some (Inr (pin_guard_drop r c))"
| "cache_step (EvClear ks b) c = Some (cache_result (cache_clear ks b c))"
| "cache_step (EvTruncate ks n) c = Some (cache_result (cache_truncate ks n c))"
| "cache_step (EvDeleteAfter ks f) c = Some (cache_result (delete_clean_pages_after_wal_frame ks f c))"
| "cache_step (EvSetSpill b) c = Some (Inr (set_spill_enabled b c))"

text \<open>
  What the callers respect. A handle that is dropped or moved into the cache is one that somebody outside the cache
  holds. An insertion under a key that is present brings the same page. A page that is marked dirty is loaded, and it is
  cached under its own number only; a page that is marked spilled has unsaved changes, and no other page has its key.
  The hash map is iterated over all its keys.
\<close>

definition insertable :: "usize \<Rightarrow> page_ref \<Rightarrow> page_cache \<Rightarrow> bool" where
  "insertable k r c \<longleftrightarrow> owned c r \<and> (case cached_page c k of None \<Rightarrow> True | Some old \<Rightarrow> old = r \<or> stale (pages c old))"

definition unsaved :: "page \<Rightarrow> bool" where "unsaved p \<longleftrightarrow> is_dirty p \<and> \<not> is_spilled p"

definition cache_admissible :: "cache_event \<Rightarrow> page_cache \<Rightarrow> bool" where
  "cache_admissible ev c \<longleftrightarrow> (case ev of
      EvNew r n \<Rightarrow> strong_count (pages c r) = 0
    | EvDrop r \<Rightarrow> owned c r
    | EvGuardDrop r \<Rightarrow> owned c r
    | EvRenumber r n \<Rightarrow> page_id (pages c r) \<noteq> HEADER_PAGE_ID \<and> n \<noteq> HEADER_PAGE_ID
    | EvAddDirty r \<Rightarrow> is_loaded (pages c r) \<and> keys_of c r \<subseteq> {page_id (pages c r)}
    | EvMarkSpilled r \<Rightarrow> unsaved (pages c r) \<and> cached_page c (page_id (pages c r)) \<in> {None, Some r}
    | EvInsert k r \<Rightarrow> insertable k r c
    | EvForceInsert k r \<Rightarrow> insertable k r c
    | EvForceUpsert k r \<Rightarrow> owned c r
    | EvClear ks b \<Rightarrow> set ks = fst ` set (key_map c)
    | _ \<Rightarrow> True)"

section \<open>Pages with unsaved changes\<close>

text \<open>Events by which the pager itself gives up, replaces or rewrites a page.\<close>

definition releases :: "cache_event \<Rightarrow> usize \<Rightarrow> page_ref \<Rightarrow> bool" where
  "releases ev k r \<longleftrightarrow> (case ev of
      EvFinishRead r' b \<Rightarrow> r' = r
    | EvWrite r' b \<Rightarrow> r' = r
    | EvClearDirty r' \<Rightarrow> r' = r
    | EvMarkSpilled r' \<Rightarrow> r' = r
    | EvForceUpsert k' r' \<Rightarrow> k' = k
    | EvClear ks b \<Rightarrow> b
    | _ \<Rightarrow> False)"

definition inserts :: "cache_event \<Rightarrow> usize \<Rightarrow> page_ref \<Rightarrow> bool" where
  "inserts ev k r \<longleftrightarrow> (case ev of
      EvInsert k' r' \<Rightarrow> k' = k \<and> r' = r
    | EvForceInsert k' r' \<Rightarrow> k' = k \<and> r' = r
    | EvForceUpsert k' r' \<Rightarrow> k' = k \<and> r' = r
    | _ \<Rightarrow> False)"

type_synonym contents = "(usize \<Rightarrow> page_ref option) \<times> (page_ref \<Rightarrow> page)"

definition cache_abs :: "page_cache \<Rightarrow> contents" where "cache_abs c = (cached_page c, pages c)"

definition kept :: "contents \<Rightarrow> contents \<Rightarrow> usize \<Rightarrow> page_ref \<Rightarrow> bool" where
  "kept a a' k r \<longleftrightarrow> (fst a k = Some r \<and> unsaved (snd a r) \<longrightarrow>
     fst a' k = Some r \<and> unsaved (snd a' r) \<and> buffer (snd a' r) = buffer (snd a r))"

definition cache_spec :: "cache_event \<Rightarrow> contents \<Rightarrow> contents \<Rightarrow> bool" where
  "cache_spec ev a a' \<longleftrightarrow> (\<forall>k r. \<not> releases ev k r \<longrightarrow> kept a a' k r)
     \<and> (\<forall>k r. fst a' k = Some r \<longrightarrow> fst a k = Some r \<or> inserts ev k r)"

definition retains :: "page_cache \<Rightarrow> page_cache \<Rightarrow> bool" where
  "retains c c' \<longleftrightarrow> (\<forall>k r. kept (cache_abs c) (cache_abs c') k r) \<and> cached_page c' \<subseteq>\<^sub>m cached_page c"

lemmas kept_defs = retains_def kept_def cache_abs_def

lemma retains_refl [simp]: "retains c c"
  unfolding kept_defs by auto

lemma retains_trans: "retains c c1 \<Longrightarrow> retains c1 c2 \<Longrightarrow> retains c c2"
  unfolding kept_defs fst_conv snd_conv by (metis map_le_trans)

lemma map_le_someD: "m' \<subseteq>\<^sub>m m \<Longrightarrow> m' k = Some r \<Longrightarrow> m k = Some r"
  by (metis domI map_le_def)

lemma retains_spec: "retains c c' \<Longrightarrow> cache_spec ev (cache_abs c) (cache_abs c')"
  unfolding cache_spec_def retains_def cache_abs_def by (auto dest: map_le_someD)

lemma retains_on_page:
  assumes "unsaved (pages c r) \<Longrightarrow> unsaved (f (pages c r)) \<and> buffer (f (pages c r)) = buffer (pages c r)"
  shows "retains c (on_page r f c)"
  using assms unfolding kept_defs by auto

lemma retains_same: "cached_page c' = cached_page c \<Longrightarrow> pages c' = pages c \<Longrightarrow> retains c c'"
  unfolding kept_defs by auto

lemma retains_clone [simp]: "retains c (clone_ref r c)"
  unfolding clone_ref_def by (rule retains_on_page) (simp add: unsaved_def)

lemma retains_drop [simp]: "retains c (drop_ref r c)"
  unfolding drop_ref_def by (rule retains_on_page) (simp add: unsaved_def)

lemma retains_bump [simp]: "retains c (on_box e bump_ref c)"
  by (rule retains_same) (simp_all add: bump_box)

lemma evictable_saved: "evictable p \<Longrightarrow> \<not> unsaved p"
  unfolding evictable_def unsaved_def by blast

lemma retains_sheds:
  assumes "sheds c c'"
  shows "retains c c'"
proof -
  have le: "cached_page c' \<subseteq>\<^sub>m cached_page c" and pg: "\<And>r. \<not> left_cache c c' r \<Longrightarrow> pages c' r = pages c r"
    and ev: "\<And>r. left_cache c c' r \<Longrightarrow> \<not> unsaved (pages c r)" using assms evictable_saved unfolding sheds_def by simp_all
  have "cached_page c' k = Some r \<and> pages c' r = pages c r" if "cached_page c k = Some r" "unsaved (pages c r)" for k r
  proof -
    have stay: "\<not> left_cache c c' r" using ev that(2) by blast
    then have "cached_page c' k \<noteq> None" using that(1) unfolding left_cache_def by auto
    then show ?thesis using map_le_someD [OF le, of k] that(1) pg [OF stay] by auto
  qed
  then show ?thesis using le unfolding kept_defs by auto
qed

lemma retains_forgets: "forgets k r c c' \<Longrightarrow> cached_page c k = Some r \<Longrightarrow> \<not> unsaved (pages c r) \<Longrightarrow> retains c c'"
  unfolding kept_defs forgets_def by (auto simp: map_le_def)

lemma idle_saved: "idle p \<Longrightarrow> \<not> unsaved p"
  unfolding idle_def unsaved_def by blast

lemma retains_purged: "purged k c c0 \<Longrightarrow> retains c c0"
  unfolding purged_def using retains_forgets idle_saved by force

end
