(* ===== verification/Page_Cache_Runs.thy ===== *)
theory Page_Cache_Runs
  imports Page_Cache_Events
begin

text \<open>
  Runs of the page cache: every event keeps the invariant and never fails an assertion, and a page with unsaved changes
  stays in the cache until the pager itself gives it up.
\<close>

section \<open>Every event\<close>

definition good_step :: "cache_event \<Rightarrow> page_cache \<Rightarrow> page_cache \<Rightarrow> bool" where
  "good_step ev c c' \<longleftrightarrow> cache_inv c' \<and> cache_spec ev (cache_abs c) (cache_abs c')"

lemma good_retains: "cache_inv c' \<Longrightarrow> retains c c' \<Longrightarrow> good_step ev c c'"
  unfolding good_step_def using retains_spec by blast

lemma good_on_page:
  assumes "cache_inv c" "counted_as_evictable (pages c r) \<Longrightarrow> counted_as_evictable (f (pages c r))"
    "strong_count (f (pages c r)) = strong_count (pages c r)"
    "\<And>k. \<not> releases ev k r \<Longrightarrow> unsaved (pages c r) \<Longrightarrow> unsaved (f (pages c r)) \<and> buffer (f (pages c r)) = buffer (pages c r)"
  shows "good_step ev c (on_page r f c)"
proof -
  have "cache_inv (on_page r f c)" using on_page_inv [OF assms(1), of r f] assms(2,3) refs_keys [OF assms(1), of r] by simp
  then show ?thesis using assms(4) unfolding good_step_def cache_spec_def kept_def cache_abs_def by auto
qed

lemma good_page_events:
  assumes "cache_inv c"
  shows "good_step (EvLock r) c (on_page r set_locked c)" "good_step (EvUnlock r) c (on_page r clear_locked c)"
    "good_step (EvPin r) c (on_page r pin c)" "good_step (EvUnpin r) c (on_page r (\<lambda>p. fst (try_unpin p)) c)"
    "good_step (EvFinishRead r b) c (on_page r (finish_read_page b) c)" "good_step (EvWrite r b) c (on_page r (\<lambda>p. p\<lparr>buffer := Some b\<rparr>) c)"
    "good_step (EvTag r t) c (on_page r (\<lambda>p. p\<lparr>wal_tag := t\<rparr>) c)" "good_step (EvClearDirty r) c (on_page r clear_dirty c)"
    "page_id (pages c r) \<noteq> HEADER_PAGE_ID \<Longrightarrow> n \<noteq> HEADER_PAGE_ID \<Longrightarrow> good_step (EvRenumber r n) c (on_page r (\<lambda>p. p\<lparr>page_id := n\<rparr>) c)"
  by (auto intro!: good_on_page [OF assms]
      simp: counted_as_evictable_def unsaved_def pin_def try_unpin_def finish_read_page_def releases_def split: if_splits)

lemma good_handles:
  assumes inv: "cache_inv c"
  shows "good_step (EvClone r) c (clone_ref r c)" "owned c r \<Longrightarrow> good_step (EvDrop r) c (drop_ref r c)"
    "owned c r \<Longrightarrow> good_step (EvGuardDrop r) c (pin_guard_drop r c)"
    "strong_count (pages c r) = 0 \<Longrightarrow> good_step (EvNew r n) c (on_page r (\<lambda>_. page_new n) c)"
proof -
  show "good_step (EvClone r) c (clone_ref r c)" by (rule good_retains [OF clone_ref_inv [OF inv] retains_clone])
  show "good_step (EvDrop r) c (drop_ref r c)" if "owned c r" by (rule good_retains [OF drop_ref_inv [OF inv that] retains_drop])
  show "good_step (EvGuardDrop r) c (pin_guard_drop r c)" if own: "owned c r"
  proof -
    let ?c = "on_page r (\<lambda>p. fst (try_unpin p)) c"
    have strong: "strong_count (fst (try_unpin p)) = strong_count p" for p unfolding try_unpin_def by simp
    have "cache_inv ?c" using good_page_events(4) [OF inv] unfolding good_step_def by blast
    moreover have "owned ?c r" using own strong unfolding owned_def keys_of_def by simp
    moreover have "retains c ?c" by (rule retains_on_page) (simp add: unsaved_def try_unpin_def)
    ultimately show ?thesis
      unfolding pin_guard_drop_def by (intro good_retains drop_ref_inv) (auto intro: retains_trans)
  qed
  show "good_step (EvNew r n) c (on_page r (\<lambda>_. page_new n) c)" if "strong_count (pages c r) = 0"
  proof -
    have "finite (keys_of c r)" using keys_of_entries(3) inv unfolding cache_inv_def by blast
    then have none: "keys_of c r = {}" using refs_keys [OF inv, of r] that by simp
    then have "cache_inv (on_page r (\<lambda>_. page_new n) c)" by (intro on_page_inv [OF inv]) auto
    moreover have "retains c (on_page r (\<lambda>_. page_new n) c)" using none unfolding kept_defs keys_of_def by auto
    ultimately show ?thesis by (rule good_retains)
  qed
qed

lemma notify_fields [simp]:
  "cached_page (notify_page_dirty k c) = cached_page c" "pages (notify_page_dirty k c) = pages c"
  "cached_page (notify_page_spilled k c) = cached_page c" "pages (notify_page_spilled k c) = pages c"
  unfolding notify_page_dirty_def notify_page_spilled_def cached_page_def by (simp_all split: option.split)

lemma on_page_count_inv:
  assumes inv: "cache_inv c" and strong: "strong_count (f (pages c r)) = strong_count (pages c r)"
    and n: "n \<le> card (entry_counted (on_page r f c))"
  shows "cache_inv (on_page r f (c\<lparr>evictable_count := n\<rparr>))"
proof -
  let ?c = "on_page r f (c\<lparr>evictable_count := n\<rparr>)"
  have "entry_counted ?c = entry_counted (on_page r f c)" "entries_of ?c = entries_of c" "key_of ?c = key_of c"
    unfolding entry_counted_def entries_of_def key_of_def entry_at_def by (simp_all add: fun_eq_iff)
  then show ?thesis using inv strong n unfolding inv_defs by (auto split: option.splits)
qed

lemma notify_count:
  "notify_page_dirty k c = c\<lparr>evictable_count := evictable_count (notify_page_dirty k c)\<rparr>"
  "notify_page_spilled k c = c\<lparr>evictable_count := evictable_count (notify_page_spilled k c)\<rparr>"
  unfolding notify_page_dirty_def notify_page_spilled_def by (simp_all split: option.split)

lemma good_add_dirty:
  assumes inv: "cache_inv c" and own_key: "keys_of c r \<subseteq> {page_id (pages c r)}"
  shows "good_step (EvAddDirty r) c (add_dirty_notify r c)"
proof -
  let ?p = "pages c r" let ?n = "evictable_count (notify_page_dirty (page_id ?p) c)"
  have idx: "index_ok c" and cnt: "evictable_count c \<le> card (entry_counted c)" using inv unfolding cache_inv_def count_ok_def by auto
  have f: "finite (entry_counted c)" unfolding entry_counted_def by simp
  have sub: "entry_counted c - entries_of c r \<subseteq> entry_counted (on_page r set_dirty c)"
    unfolding entry_counted_def entries_of_def entry_at_def by auto
  have fin: "finite (entry_counted (on_page r set_dirty c))" unfolding entry_counted_def by simp
  have le: "?n \<le> card (entry_counted c - entries_of c r)" if "\<not> is_dirty ?p \<or> is_spilled ?p"
  proof (cases "keys_of c r = {}")
    case True
    then have "entries_of c r = {}" unfolding keys_of_entries(1) [OF idx] by simp
    moreover have "?n \<le> evictable_count c" unfolding notify_page_dirty_def by (simp split: option.split)
    ultimately show ?thesis using cnt by simp
  next
    case False
    then have "cached_page c (page_id ?p) = Some r" using own_key unfolding keys_of_def by blast
    then obtain e where e: "map_of (key_map c) (page_id ?p) = Some e" "entry_page (boxes c e) = r" "entry_at c e = ?p"
      by (rule cached_entry)
    have "card (entries_of c r) \<le> 1"
      using keys_of_entries(2) [OF idx, of r] card_mono [OF _ own_key] by simp
    moreover have "e \<in> entries_of c r" using e index_lookup [OF idx] unfolding entries_of_def by blast
    moreover have "finite (entries_of c r)" unfolding entries_of_def by simp
    ultimately have ent: "entries_of c r = {e}" using card_seteq [of "entries_of c r" "{e}"] by simp
    show ?thesis
    proof (cases "page_id ?p = HEADER_PAGE_ID")
      case True
      then have "e \<notin> entry_counted c" using e(3) unfolding entry_counted_def counted_as_evictable_def by simp
      then show ?thesis using cnt e True unfolding ent notify_page_dirty_def by simp
    next
      case False
      then have "?n = evictable_count c - 1" using e unfolding notify_page_dirty_def by simp
      then show ?thesis using cnt f unfolding ent by (auto simp: card_Diff_singleton_if)
    qed
  qed
  have inv': "cache_inv (add_dirty_notify r c)"
  proof (cases "\<not> is_dirty ?p \<or> is_spilled ?p")
    case True
    have "add_dirty_notify r c = on_page r set_dirty (c\<lparr>evictable_count := ?n\<rparr>)"
      using True notify_count(1) [of "page_id ?p" c] unfolding add_dirty_notify_def by (simp add: Let_def)
    moreover have "?n \<le> card (entry_counted (on_page r set_dirty c))" using le [OF True] card_mono [OF fin sub] by simp
    ultimately show ?thesis using on_page_count_inv [OF inv, of set_dirty r ?n] by simp
  next
    case False
    then have "add_dirty_notify r c = on_page r set_dirty c" unfolding add_dirty_notify_def by (simp add: Let_def)
    moreover have "cache_inv (on_page r set_dirty c)"
      by (rule on_page_inv [OF inv]) (use False refs_keys [OF inv, of r] in \<open>auto simp: counted_as_evictable_def split: if_splits\<close>)
    ultimately show ?thesis by simp
  qed
  have "retains c (add_dirty_notify r c)" unfolding kept_defs add_dirty_notify_def by (auto simp: Let_def unsaved_def)
  then show ?thesis by (rule good_retains [OF inv'])
qed

lemma good_mark_spilled:
  assumes inv: "cache_inv c" and dirty: "unsaved (pages c r)" and key: "cached_page c (page_id (pages c r)) \<in> {None, Some r}"
  shows "good_step (EvMarkSpilled r) c (mark_spilled r c)"
proof (cases "has_wal_tag (pages c r)")
  case False
  then show ?thesis using good_retains [OF inv retains_refl] unfolding mark_spilled_def by simp
next
  case True
  let ?p = "pages c r" let ?n = "evictable_count (notify_page_spilled (page_id ?p) c)"
  have idx: "index_ok c" and cnt: "evictable_count c \<le> card (entry_counted c)" using inv unfolding cache_inv_def count_ok_def by auto
  have sub: "entry_counted c \<subseteq> entry_counted (on_page r set_spilled c)"
    unfolding entry_counted_def entry_at_def counted_as_evictable_def by auto
  have fin: "finite (entry_counted (on_page r set_spilled c))" unfolding entry_counted_def by simp
  have "?n \<le> card (entry_counted (on_page r set_spilled c))"
  proof (cases "map_of (key_map c) (page_id ?p)")
    case None
    then show ?thesis using cnt card_mono [OF fin sub] unfolding notify_page_spilled_def by simp
  next
    case (Some e)
    then have e: "e \<in> set (queue c)" using index_lookup [OF idx] by blast
    have page: "entry_page (boxes c e) = r" "entry_at c e = ?p" using key Some unfolding cached_page_def entry_at_def by auto
    show ?thesis
    proof (cases "page_id ?p = HEADER_PAGE_ID")
      case True
      then show ?thesis using cnt card_mono [OF fin sub] Some page unfolding notify_page_spilled_def by simp
    next
      case False
      have "e \<notin> entry_counted c" using page(2) dirty False unfolding entry_counted_def counted_as_evictable_def unsaved_def by simp
      moreover have "e \<in> entry_counted (on_page r set_spilled c)"
        using e page False unfolding entry_counted_def counted_as_evictable_def entry_at_def by simp
      ultimately have "Suc (card (entry_counted c)) \<le> card (entry_counted (on_page r set_spilled c))"
        using sub psubset_card_mono [OF fin, of "entry_counted c"] by (metis Suc_leI psubsetI)
      then show ?thesis using cnt Some page False unfolding notify_page_spilled_def by simp
    qed
  qed
  then have "cache_inv (on_page r set_spilled (c\<lparr>evictable_count := ?n\<rparr>))" by (intro on_page_count_inv [OF inv]) simp
  moreover have "mark_spilled r c = on_page r set_spilled (c\<lparr>evictable_count := ?n\<rparr>)"
    using True notify_count(2) [of "page_id ?p" c] unfolding mark_spilled_def by (simp add: Let_def)
  moreover have "cache_spec (EvMarkSpilled r) (cache_abs c) (cache_abs (on_page r set_spilled (c\<lparr>evictable_count := ?n\<rparr>)))"
    unfolding cache_spec_def kept_def cache_abs_def releases_def cached_page_def by auto
  ultimately show ?thesis unfolding good_step_def by simp
qed

section \<open>Insertions\<close>

lemma cache_result_cases: "x \<noteq> Inl CachePanic \<Longrightarrow> cache_result (c, x) = Inr c"
  unfolding cache_result_def by (simp split: sum.split cache_error.split)

lemma cache_result_simps [simp]: "cache_result (c, Inr x) = Inr c" "e \<noteq> CachePanic \<Longrightarrow> cache_result (c, Inl e) = Inr c"
  by (simp_all add: cache_result_cases)

text \<open>
  An insertion keeps the unsaved pages under other keys, and under its own key unless it replaces in place; it adds at
  most the page of the call.
\<close>

definition adds_only :: "bool \<Rightarrow> usize \<Rightarrow> page_ref \<Rightarrow> page_cache \<Rightarrow> page_cache \<Rightarrow> bool" where
  "adds_only upd k r c c' \<longleftrightarrow> (\<forall>k' x. k' \<noteq> k \<or> \<not> upd \<longrightarrow> kept (cache_abs c) (cache_abs c') k' x)
     \<and> (\<forall>k' x. cached_page c' k' = Some x \<longrightarrow> cached_page c k' = Some x \<or> k' = k \<and> x = r)"

lemma kept_trans: "kept a b k r \<Longrightarrow> kept b d k r \<Longrightarrow> kept a d k r"
  unfolding kept_def by auto

lemma adds_only_trans:
  assumes "adds_only upd k r c c1" "adds_only upd k r c1 c2"
  shows "adds_only upd k r c c2"
  using assms unfolding adds_only_def by (metis kept_trans)

lemma adds_only_retains: "retains c c' \<Longrightarrow> adds_only upd k r c c'"
  unfolding adds_only_def retains_def by (auto dest: map_le_someD)

lemma kept_None: "fst a k = None \<Longrightarrow> kept a b k r"
  unfolding kept_def by simp

lemma adds_only_linked:
  assumes "cached_page c k = None \<or> upd" "cached_page c' = (cached_page c)(k \<mapsto> r)"
    "\<And>x. unsaved (pages c x) \<Longrightarrow> unsaved (pages c' x) \<and> buffer (pages c' x) = buffer (pages c x)"
  shows "adds_only upd k r c c'"
  using assms unfolding adds_only_def kept_def cache_abs_def by auto

lemma adds_only_admits:
  assumes "admits k r c c'" "cached_page c k = None"
  shows "adds_only upd k r c c'"
proof -
  obtain c1 where c1: "sheds c c1" "cached_page c' = (cached_page c1)(k \<mapsto> r)" "pages c' = pages c1" using assms(1) unfolding admits_def by blast
  have "adds_only upd k r c1 c'" using sheds_None [OF c1(1) assms(2)] c1 by (intro adds_only_linked) auto
  then show ?thesis by (rule adds_only_trans [OF adds_only_retains [OF retains_sheds [OF c1(1)]]])
qed

lemma purged_None: "purged k c c0 \<Longrightarrow> cached_page c0 k = None"
  unfolding purged_def forgets_def by auto

lemma insert_inner_good:
  assumes inv: "cache_inv c" and own: "owned c r" and ok: "upd \<or> insertable k r c"
    and res: "insert_inner k r upd bypass c = (c', res)"
  shows "res \<noteq> Inl CachePanic \<and> cache_inv c' \<and> adds_only upd k r c c'"
proof (rule insert_inner_cases [OF inv own, of k upd bypass], goal_cases)
  case (1 c0 c1)
  have "adds_only upd k r c0 c1" using adds_only_admits [OF 1(5) purged_None [OF 1(2)]] .
  then show ?case using 1 res adds_only_trans [OF adds_only_retains [OF retains_purged [OF 1(2)]]] by auto
next
  case (2 c0 c1)
  have "retains c (drop_ref r c1)" using retains_trans [OF retains_trans [OF retains_purged [OF 2(2)] retains_sheds [OF 2(4)]]] by simp
  then show ?case using 2 res adds_only_retains drop_ref_inv [OF 2(5,6)] by auto
next
  case (3 old)
  then show ?case using res drop_ref_inv [OF inv own] adds_only_retains [OF retains_drop] by auto
next
  case (4 c1 old)
  then have "adds_only upd k r c c1" by (intro adds_only_linked) (auto simp: unsaved_def)
  then show ?case using 4 res by auto
next
  case (5 e)
  have "retains c (drop_ref r (on_box e bump_ref c))" by (rule retains_trans [OF retains_bump retains_drop])
  moreover have "owned (on_box e bump_ref c) r" using own unfolding owned_spare by simp
  ultimately show ?case using 5 res drop_ref_inv [OF bump_inv [OF inv]] adds_only_retains by auto
next
  case (6 e old)
  then show ?case using ok unfolding insertable_def by simp
qed

lemma adds_only_spec: "cache_inv c' \<Longrightarrow> adds_only False k r c c' \<Longrightarrow> good_step (EvInsert k r) c c' \<and> good_step (EvForceInsert k r) c c'"
  "cache_inv c' \<Longrightarrow> adds_only True k r c c' \<Longrightarrow> good_step (EvForceUpsert k r) c c'"
  unfolding good_step_def cache_spec_def adds_only_def releases_def inserts_def cache_abs_def by auto

lemma good_insert:
  assumes "cache_inv c" "insertable k r c"
  shows "\<exists>c'. cache_result (cache_insert k r c) = Inr c' \<and> good_step (EvInsert k r) c c'"
proof -
  obtain c' res where x: "insert_inner k r False False c = (c', res)" by (rule prod.exhaust)
  have "res \<noteq> Inl CachePanic \<and> cache_inv c' \<and> adds_only False k r c c'"
    using insert_inner_good [OF assms(1) _ _ x] assms(2) unfolding insertable_def by blast
  then show ?thesis using adds_only_spec(1) cache_result_cases unfolding cache_insert_def x by blast
qed

lemma force_full:
  assumes inv: "cache_inv c" and own: "owned c r" and full: "insert_inner k r upd False c = (c', Inl CacheFull)"
  shows "cached_page c' k = None"
  by (rule insert_inner_cases [OF inv own, of k upd False]) (use full purged_None sheds_None in auto)

text \<open>Both forced variants: an attempt with a second handle, and another one that ignores the capacity.\<close>

definition force_inner :: "bool \<Rightarrow> usize \<Rightarrow> page_ref \<Rightarrow> page_cache \<Rightarrow> unit cache_res" where
  "force_inner upd k r c =
     (let (c1, res) = insert_inner k r upd False (clone_ref r c) in
      if res = Inl CacheFull then insert_inner k r upd True c1 else (drop_ref r c1, res))"

lemma force_inner_eq: "force_upsert_page k r c = force_inner True k r c" "force_insert_page k r c = force_inner False k r c"
  unfolding force_upsert_page_def force_insert_page_def force_inner_def upsert_page_def cache_insert_def by simp_all

lemma force_inner_good:
  assumes inv: "cache_inv c" and own: "owned c r" and ok: "upd \<or> insertable k r c" and res: "force_inner upd k r c = (c', res)"
  shows "res \<noteq> Inl CachePanic \<and> res \<noteq> Inl CacheFull \<and> cache_inv c' \<and> adds_only upd k r c c'"
proof -
  let ?c = "clone_ref r c"
  have c: "cache_inv ?c" "owned ?c r" by (rule clone_ref_inv [OF inv], rule clone_owned [OF inv])
  have same: "stale (pages ?c y) = stale (pages c y)" for y unfolding clone_ref_def stale_def by simp
  have ins: "upd \<or> insertable k r ?c" using ok c(2) same unfolding insertable_def by (auto split: option.splits)
  obtain c1 res1 where x: "insert_inner k r upd False ?c = (c1, res1)" by (rule prod.exhaust)
  have x1: "res1 \<noteq> Inl CachePanic" "cache_inv c1" "adds_only upd k r ?c c1" using insert_inner_good [OF c ins x] by auto
  have "Suc (spare c r) \<le> Suc (spare c1 r)" using insert_inner_spare [OF c, of k upd False] spare_clone [OF inv, of r] x by simp
  then have own1: "owned c1 r" using own unfolding owned_spare by simp
  have add1: "adds_only upd k r c c1" by (rule adds_only_trans [OF adds_only_retains [OF retains_clone] x1(3)])
  show ?thesis
  proof (cases "res1 = Inl CacheFull")
    case True
    have "cached_page c1 k = None" using force_full [OF c] x True by blast
    then have "insertable k r c1" using own1 unfolding insertable_def by simp
    moreover have y: "insert_inner k r upd True c1 = (c', res)" using res x True unfolding force_inner_def by simp
    ultimately show ?thesis
      using insert_inner_good [OF x1(2) own1 _ y] insert_new_bypass_not_full [OF x1(2) own1, of k upd] adds_only_trans [OF add1] by auto
  next
    case False
    then have "c' = drop_ref r c1" "res = res1" using res x unfolding force_inner_def by auto
    then show ?thesis
      using False x1(1) drop_ref_inv [OF x1(2) own1] adds_only_trans [OF add1 adds_only_retains [OF retains_drop]] by simp
  qed
qed

lemma good_force:
  assumes inv: "cache_inv c"
  shows "insertable k r c \<Longrightarrow> \<exists>c'. cache_result (force_insert_page k r c) = Inr c' \<and> good_step (EvForceInsert k r) c c'"
    "owned c r \<Longrightarrow> \<exists>c'. cache_result (force_upsert_page k r c) = Inr c' \<and> good_step (EvForceUpsert k r) c c'"
proof -
  have *: "\<exists>c'. cache_result (force_inner upd k r c) = Inr c' \<and> cache_inv c' \<and> adds_only upd k r c c'"
    if own: "owned c r" and ok: "upd \<or> insertable k r c" for upd
  proof -
    obtain c' res where x: "force_inner upd k r c = (c', res)" by (rule prod.exhaust)
    show ?thesis using force_inner_good [OF inv own ok x] cache_result_cases [of res c'] unfolding x by auto
  qed
  show "\<exists>c'. cache_result (force_insert_page k r c) = Inr c' \<and> good_step (EvForceInsert k r) c c'" if "insertable k r c"
    using * [of False] that adds_only_spec(1) unfolding force_inner_eq insertable_def by blast
  show "\<exists>c'. cache_result (force_upsert_page k r c) = Inr c' \<and> good_step (EvForceUpsert k r) c c'" if "owned c r"
    using * [of True] that adds_only_spec(2) unfolding force_inner_eq by blast
qed

section \<open>The other calls\<close>

lemma good_delete:
  assumes inv: "cache_inv c"
  shows "\<exists>c'. cache_result (cache_delete k c) = Inr c' \<and> cache_inv c' \<and> retains c c'"
proof (rule delete_cases [OF inv, of k])
  fix res assume "cache_delete k c = (c, res)" "res \<noteq> Inl CachePanic"
  then show ?thesis using cache_result_cases [of res c] inv by simp
next
  fix c' r
  assume *: "cached_page c k = Some r" "idle (pages c r)" "cache_delete k c = (c', Inr ())" "forgets k r c c'" "cache_inv c'"
  then show ?thesis using retains_forgets [OF *(4,1)] idle_saved by simp
qed

lemma good_get:
  assumes inv: "cache_inv c"
  shows "\<exists>c'. cache_result (cache_get k c) = Inr c' \<and> cache_inv c' \<and> retains c c'"
proof (rule cache_get_cases [OF inv, of k], goal_cases)
  case 1
  then show ?case using inv by simp
next
  case (2 r e)
  have "retains c (on_box e bump_ref (clone_ref r c))" by (rule retains_trans [OF retains_clone retains_bump])
  then show ?case using 2 bump_inv [OF clone_ref_inv [OF inv]] by simp
next
  case (3 r c1)
  have "\<not> unsaved (pages (clone_ref r c) r)" using idle_saved [OF 3(4)] unfolding clone_ref_def unsaved_def by simp
  then have "retains (clone_ref r c) c1" using retains_forgets [OF 3(5)] 3(2) by simp
  then have "retains c (drop_ref r c1)" using retains_trans [OF retains_clone] retains_trans [OF _ retains_drop] by blast
  then show ?case using 3 drop_ref_inv [OF 3(6,7)] by simp
next
  case (4 r)
  then show ?case using inv by simp
qed

lemma good_peek: "cache_inv c \<Longrightarrow> cache_inv (fst (cache_peek k touch c)) \<and> retains c (fst (cache_peek k touch c))"
  using retains_trans [OF retains_clone retains_bump]
  unfolding cache_peek_def by (auto simp: Let_def intro: bump_inv clone_ref_inv split: option.split)

lemma cap_inv: "cache_inv (c\<lparr>capacity := n, spill_threshold := m\<rparr>) = cache_inv c" "cache_inv (c\<lparr>spill_enabled := b\<rparr>) = cache_inv c"
  unfolding inv_defs entry_counted_def entries_of_def key_of_def entry_at_def by (simp_all split: option.splits)

lemma good_resize:
  assumes inv: "cache_inv c"
  shows "cache_inv (fst (cache_resize n c)) \<and> retains c (fst (cache_resize n c))"
proof (cases "n = capacity c")
  case True
  then show ?thesis using inv unfolding cache_resize_def by simp
next
  case False
  have same: "retains c1 (c1\<lparr>capacity := n, spill_threshold := m\<rparr>)" for c1 m by (rule retains_same) (simp_all add: cached_page_def fun_eq_iff)
  show ?thesis
    by (rule evict_until_outcome [OF inv, of n])
       (use False same retains_trans [OF retains_sheds] retains_sheds in \<open>auto simp: cache_resize_def cap_inv\<close>)
qed

lemma good_collect:
  assumes "cache_inv c" "collect_loop ks n acc c = (c', acc')"
  shows "cache_inv c' \<and> retains c c'"
  using assms
proof (induction ks arbitrary: acc c)
  case (Cons k ks)
  show ?case
  proof (cases "map_of (key_map c) k")
    case None
    then show ?thesis using Cons by simp
  next
    case (Some e)
    let ?r = "entry_page (boxes c e)"
    let ?c = "if spillable (pages c ?r) then pin_guard_new ?r (clone_ref ?r c) else c"
    let ?acc = "if spillable (pages c ?r) then ?r # acc else acc"
    have "cache_inv (on_page ?r pin (clone_ref ?r c))"
      using good_page_events(3) [OF clone_ref_inv [OF Cons.prems(1)]] unfolding good_step_def by blast
    moreover have "retains (clone_ref ?r c) (on_page ?r pin (clone_ref ?r c))" by (rule retains_on_page) (simp add: pin_def unsaved_def)
    ultimately have c: "cache_inv ?c" "retains c ?c" using Cons.prems(1) retains_trans [OF retains_clone] unfolding pin_guard_new_def by auto
    have "(if n \<le> length ?acc then (?c, ?acc) else collect_loop ks n ?acc ?c) = (c', acc')"
      using Cons.prems(2) Some by (auto simp: Let_def split: if_splits)
    then show ?thesis using Cons.IH [OF c(1)] retains_trans [OF c(2)] c by (metis Pair_inject)
  qed
qed simp

lemma good_check_spill:
  assumes inv: "cache_inv c"
  shows "cache_inv (fst (check_spill ks n c)) \<and> retains c (fst (check_spill ks n c))"
proof -
  obtain c1 acc where x: "collect_loop ks n [] c = (c1, acc)" by (rule prod.exhaust)
  have "cache_inv (fst (collect_spillable_pages ks n c)) \<and> retains c (fst (collect_spillable_pages ks n c))"
    using good_collect [OF inv x] inv x unfolding collect_spillable_pages_def by simp
  then show ?thesis using inv unfolding check_spill_def by (auto simp: Let_def split: prod.split)
qed

lemma good_delete_all:
  assumes "cache_inv c"
  shows "\<exists>c'. cache_result (delete_all ks c) = Inr c' \<and> cache_inv c' \<and> retains c c'"
  using assms
proof (induction ks arbitrary: c)
  case Nil
  then show ?case by simp
next
  case (Cons k ks)
  obtain c1 res where x: "cache_delete k c = (c1, res)" by (rule prod.exhaust)
  have ok: "cache_inv c1" "retains c c1" "cache_result (c1, res) = Inr c1"
    using good_delete [OF Cons.prems, of k] unfolding x cache_result_def by (auto split: sum.splits cache_error.splits)
  show ?case
  proof (cases res)
    case (Inl err)
    then show ?thesis using x ok unfolding cache_result_def by (auto split: cache_error.splits)
  next
    case (Inr u)
    then show ?thesis using x Cons.IH [OF ok(1)] retains_trans [OF ok(2)] by auto
  qed
qed

section \<open>Clearing\<close>

lemma clean_pages_fields:
  "key_map (clean_pages ks c) = key_map c" "boxes (clean_pages ks c) = boxes c" "cached_page (clean_pages ks c) = cached_page c"
proof -
  have "key_map (clean_pages ks c) = key_map c \<and> boxes (clean_pages ks c) = boxes c"
    by (induction ks arbitrary: c) (simp_all add: clean_page_def split: option.split)
  then show "key_map (clean_pages ks c) = key_map c" "boxes (clean_pages ks c) = boxes c" "cached_page (clean_pages ks c) = cached_page c"
    unfolding cached_page_def by simp_all
qed

lemma empty_inv: "key_map c = [] \<Longrightarrow> queue c = [] \<Longrightarrow> clock_hand c = None \<Longrightarrow> evictable_count c = 0 \<Longrightarrow> cache_inv c"
  unfolding inv_defs entry_counted_def entries_of_def by simp

lemma drop_refs_fields:
  "key_map (drop_refs rs c) = key_map c" "queue (drop_refs rs c) = queue c"
  unfolding drop_refs_def by (induction rs arbitrary: c) simp_all

lemma good_clear:
  assumes inv: "cache_inv c" and ks: "set ks = fst ` set (key_map c)"
  shows "\<exists>c'. cache_result (cache_clear ks b c) = Inr c' \<and> good_step (EvClear ks b) c c'"
proof -
  let ?found = "\<lambda>k. case map_of (key_map c) k of None \<Rightarrow> False | Some e \<Rightarrow> is_dirty (entry_at c e) \<and> \<not> b"
  show ?thesis
  proof (cases "find ?found ks")
    case None
    obtain c' where c': "cache_clear ks b c = (c', Inr ())" "key_map c' = []" "queue c' = []" "clock_hand c' = None" "evictable_count c' = 0"
      using None unfolding cache_clear_def by (simp add: Let_def drop_refs_fields)
    have "\<not> unsaved (pages c r)" if nb: "\<not> b" and hit: "cached_page c k = Some r" for k r
    proof -
      obtain e where e: "map_of (key_map c) k = Some e" "entry_at c e = pages c r" using cached_entry [OF hit] by metis
      have "k \<in> set ks" using e(1) ks by (metis domI dom_map_of_conv_image_fst)
      then have "\<not> ?found k" using None by (simp add: find_None_iff)
      then show ?thesis using e nb unfolding unsaved_def by simp
    qed
    then have "cache_spec (EvClear ks b) (cache_abs c) (cache_abs c')"
      using c'(2) unfolding cache_spec_def kept_def cache_abs_def releases_def cached_page_def by auto
    then show ?thesis using c' empty_inv unfolding good_step_def by simp
  next
    case (Some k)
    then show ?thesis using good_retains [OF inv retains_refl] unfolding cache_clear_def cache_result_def by simp
  qed
qed

section \<open>One step and all runs\<close>

lemma cache_step_good:
  assumes inv: "cache_inv c" and adm: "cache_admissible ev c" and step: "cache_step ev c = Some res"
  shows "\<exists>c'. res = Inr c' \<and> good_step ev c c'"
proof (cases ev)
  case (EvAddDirty r)
  then show ?thesis using good_add_dirty [OF inv] adm step unfolding cache_admissible_def by auto
next
  case (EvMarkSpilled r)
  then show ?thesis using good_mark_spilled [OF inv] adm step unfolding cache_admissible_def by auto
next
  case (EvInsert k r)
  then show ?thesis using good_insert [OF inv] adm step unfolding cache_admissible_def by auto
next
  case (EvForceInsert k r)
  then show ?thesis using good_force(1) [OF inv] adm step unfolding cache_admissible_def by auto
next
  case (EvForceUpsert k r)
  then show ?thesis using good_force(2) [OF inv] adm step unfolding cache_admissible_def by auto
next
  case (EvDelete k)
  then show ?thesis using good_delete [OF inv, of k] good_retains step by auto
next
  case (EvGet k)
  then show ?thesis using good_get [OF inv, of k] good_retains step by auto
next
  case (EvPeek k b)
  then show ?thesis using good_peek [OF inv, of k b] good_retains step by auto
next
  case (EvResize n)
  then show ?thesis using good_resize [OF inv, of n] good_retains step by auto
next
  case (EvCheckSpill ks n)
  then show ?thesis using good_check_spill [OF inv, of ks n] good_retains step by auto
next
  case (EvClear ks b)
  then show ?thesis using good_clear [OF inv] adm step unfolding cache_admissible_def by auto
next
  case (EvTruncate ks n)
  then show ?thesis using good_delete_all [OF inv] good_retains step by (fastforce simp: cache_truncate_def)
next
  case (EvDeleteAfter ks f)
  then show ?thesis using good_delete_all [OF inv] good_retains step by (fastforce simp: delete_clean_pages_after_wal_frame_def)
next
  case (EvSetSpill b)
  have "retains c (set_spill_enabled b c)" by (rule retains_same) (simp_all add: set_spill_enabled_def cached_page_def fun_eq_iff)
  then show ?thesis using EvSetSpill good_retains step cap_inv(2) inv by (auto simp: set_spill_enabled_def)
qed (use good_handles [OF inv] good_page_events [OF inv] adm step in \<open>auto simp: cache_admissible_def\<close>)

interpretation page_cache_runs: simulation cache_inv cache_abs cache_admissible cache_step cache_spec
  by unfold_locales (use cache_step_good in \<open>auto simp: good_step_def\<close>)

lemma new_inv: "cache_inv (page_cache_new cap ps)"
  unfolding page_cache_new_def new_with_spill_def by (rule empty_inv) (simp_all add: Let_def)

section \<open>Contents after one call\<close>

lemma evicts_contents:
  assumes "cache_inv c" "evicts c c'"
  shows "\<exists>k r. cached_page c k = Some r \<and> evictable (pages c r) \<and> cached_page c' = (cached_page c)(k := None)
     \<and> pages c' = (pages c)(r := discard (pages c r)) \<and> cache_inv c'"
proof -
  obtain c1 e where c1: "swept c c1" "cache_inv c1" "e \<in> set (queue c)" "evictable (entry_at c e)" "c' = remove_entry e c1"
    using assms(2) unfolding evicts_def by blast
  note eqs = swept_fields [OF c1(1)] swept_entries [OF c1(1)]
  have idx: "index_ok c" "index_ok c1" and e: "e \<in> set (queue c1)" using assms(1) c1(2,3) eqs unfolding cache_inv_def by auto
  have "cached_page c (key_of c e) = Some (entry_page (boxes c e))" using c1(3) cached_Some [OF idx(1)] by blast
  moreover have "cached_page c' = (cached_page c)(key_of c e := None)" using remove_entry_cached [OF idx(2) e] eqs unfolding c1(5) by simp
  moreover have "pages c' = (pages c)(entry_page (boxes c e) := discard (pages c (entry_page (boxes c e))))"
    using eqs unfolding c1(5) by (simp add: entry_at_def)
  ultimately show ?thesis using c1(4) remove_entry_inv [OF c1(2) e] unfolding c1(5) entry_at_def by blast
qed

section \<open>When an insertion succeeds\<close>

text \<open>The cached pages that no eviction removes: they decide whether room can be made.\<close>

definition pinned_down :: "page_cache \<Rightarrow> nat" where
  "pinned_down c = card {k. \<exists>r. cached_page c k = Some r \<and> \<not> evictable (pages c r)}"

lemma cache_len_dom:
  assumes "cache_inv c"
  shows "cache_len c = card (dom (cached_page c))" "finite (dom (cached_page c))"
proof -
  have idx: "index_ok c" using assms unfolding cache_inv_def by blast
  have d: "dom (cached_page c) = key_of c ` set (queue c)" unfolding dom_def using cached_Some [OF idx] by auto
  then show "finite (dom (cached_page c))" by simp
  show "cache_len c = card (dom (cached_page c))"
    using index_len [OF idx] idx unfolding d index_ok_def by (simp add: card_image distinct_card)
qed

lemma pinned_down_le: "cache_inv c \<Longrightarrow> pinned_down c \<le> cache_len c"
  unfolding pinned_down_def cache_len_dom(1) by (rule card_mono) (use cache_len_dom(2) in auto)

lemma pinned_down_stuck:
  assumes "cache_inv c" "stuck c"
  shows "pinned_down c = cache_len c"
proof -
  have "{k. \<exists>r. cached_page c k = Some r \<and> \<not> evictable (pages c r)} = dom (cached_page c)" using assms(2) unfolding stuck_def by auto
  then show ?thesis unfolding pinned_down_def cache_len_dom(1) [OF assms(1)] by simp
qed

lemma pinned_down_sheds:
  assumes inv: "cache_inv c" and s: "sheds c c1"
  shows "pinned_down c1 = pinned_down c"
proof -
  have le: "cached_page c1 \<subseteq>\<^sub>m cached_page c" and ev: "\<And>r. left_cache c c1 r \<Longrightarrow> evictable (pages c r)"
    and pg: "\<And>r. pages c1 r = (if left_cache c c1 r then discard (pages c r) else pages c r)" using s unfolding sheds_def by blast+
  have "cached_page c1 k = Some r \<and> \<not> evictable (pages c1 r) \<longleftrightarrow> cached_page c k = Some r \<and> \<not> evictable (pages c r)" for k r
  proof
    assume r: "cached_page c1 k = Some r \<and> \<not> evictable (pages c1 r)"
    then have k: "cached_page c k = Some r" using map_le_someD [OF le] by blast
    have "\<not> left_cache c c1 r"
    proof
      assume l: "left_cache c c1 r"
      then obtain k' where k': "cached_page c k' = Some r" "cached_page c1 k' = None" unfolding left_cache_def by blast
      then have "k = k'" using cached_unique [OF inv k k'(1)] ev [OF l] unfolding evictable_def by blast
      then show False using r k'(2) by simp
    qed
    then show "cached_page c k = Some r \<and> \<not> evictable (pages c r)" using r k pg by simp
  next
    assume r: "cached_page c k = Some r \<and> \<not> evictable (pages c r)"
    then have "\<not> left_cache c c1 r" using ev by blast
    moreover from this have "cached_page c1 k \<noteq> None" using r unfolding left_cache_def by metis
    ultimately show "cached_page c1 k = Some r \<and> \<not> evictable (pages c1 r)" using r pg map_le_someD [OF le, of k] by auto
  qed
  then show ?thesis unfolding pinned_down_def by simp
qed

lemma cache_get_loaded: "cache_inv c \<Longrightarrow> cached_page c k = Some r \<Longrightarrow> is_loaded (pages c r) \<Longrightarrow> snd (cache_get k c) = Inr (Some r)"
  by (rule cache_get_cases [of c k]) (auto simp: stale_def)

lemma admits_loaded:
  assumes "cache_inv c" "owned c r" "admits k r c c'"
  shows "cached_page c' k = Some r" "pages c' r = pages c r" "capacity c' = capacity c"
proof -
  obtain c1 where c1: "sheds c c1" "cached_page c' = (cached_page c1)(k \<mapsto> r)" "pages c' = pages c1" using assms(3) unfolding admits_def by blast
  show "pages c' r = pages c r" using sheds_owned(2) [OF assms(1) c1(1) assms(2)] c1(3) by simp
  show "cached_page c' k = Some r" using c1(2) by simp
  show "capacity c' = capacity c" using assms(3) unfolding admits_def by blast
qed

lemma admits_room:
  assumes "cache_inv c" "cache_inv c'" "admits k r c c'" "cached_page c k = None" "cache_len c' \<le> n"
  shows "pinned_down c < n"
proof -
  obtain c1 where c1: "sheds c c1" "cache_inv c1" "cached_page c' = (cached_page c1)(k \<mapsto> r)" using assms(3) unfolding admits_def by blast
  have "k \<notin> dom (cached_page c1)" using sheds_None [OF c1(1) assms(4)] by auto
  then have "cache_len c' = Suc (cache_len c1)"
    using cache_len_dom [OF c1(2)] cache_len_dom(1) [OF assms(2)] c1(3) by simp
  then show ?thesis using pinned_down_le [OF c1(2)] pinned_down_sheds [OF assms(1) c1(1)] assms(5) by simp
qed

text \<open>Why a key refuses a page, before room is looked for.\<close>

definition key_refusal :: "usize \<Rightarrow> page_ref \<Rightarrow> page_cache \<Rightarrow> cache_error option" where
  "key_refusal k r c = (case cached_page c k of
      None \<Rightarrow> None
    | Some old \<Rightarrow>
        if \<not> stale (pages c old) then Some (if old = r then KeyExists else CachePanic)
        else if idle (pages c old) then None else Some (delete_error (pages c old)))"

lemma purged_facts:
  assumes "purged k c c0"
  shows "key_refusal k r c = None" "cached_page c0 k = None" "capacity c0 = capacity c" "is_loaded (pages c r) \<Longrightarrow> pages c0 r = pages c r"
  using assms unfolding purged_def key_refusal_def forgets_def by (auto simp: stale_def)

lemma insert_refused:
  assumes inv: "cache_inv c" and own: "owned c r" and e: "key_refusal k r c = Some e"
  shows "\<exists>c1. insert_inner k r False bypass c = (c1, Inl e) \<and> cached_page c1 = cached_page c \<and> e \<noteq> CacheFull"
proof (rule insert_inner_cases [OF inv own, of k False bypass])
  fix c0 c' assume "purged k c c0"
  then show ?thesis using purged_facts(1) e by simp
next
  fix c0 c1 assume "purged k c c0"
  then show ?thesis using purged_facts(1) e by simp
qed (use e in \<open>auto simp: key_refusal_def delete_error_def bump_box split: if_splits\<close>)

lemma insert_room:
  assumes inv: "cache_inv c" and own: "owned c r" and e: "key_refusal k r c = None"
  obtains (added) c0 c' where "insert_inner k r False bypass c = (c', Inr ())" "purged k c c0" "cache_inv c0" "owned c0 r" "admits k r c0 c'"
      "cache_inv c'" "\<not> bypass \<Longrightarrow> cache_len c' \<le> capacity c \<and> pinned_down c0 < capacity c"
  | (full) c0 c1 where "insert_inner k r False bypass c = (drop_ref r c1, Inl CacheFull)" "purged k c c0" "cache_inv c0" "sheds c0 c1"
      "cache_inv c1" "owned c1 r" "\<not> bypass" "len_ok c \<Longrightarrow> capacity c \<le> pinned_down c0"
proof (rule insert_inner_cases [OF inv own, of k False bypass])
  fix c0 c'
  assume *: "insert_inner k r False bypass c = (c', Inr ())" "purged k c c0" "cache_inv c0" "owned c0 r" "admits k r c0 c'"
    "cache_inv c'" "\<not> bypass \<Longrightarrow> cache_len c' \<le> capacity c"
  show thesis using added [OF *(1-6)] *(7) admits_room [OF *(3,6,5) purged_facts(2) [OF *(2)]] by blast
next
  fix c0 c1
  assume *: "insert_inner k r False bypass c = (drop_ref r c1, Inl CacheFull)" "purged k c c0" "cache_inv c0" "sheds c0 c1"
    "cache_inv c1" "owned c1 r" "\<not> bypass" "capacity c \<le> cache_len c1" "len_ok c \<Longrightarrow> 0 < capacity c \<Longrightarrow> stuck c1"
  have "capacity c \<le> pinned_down c0" if "len_ok c"
    using *(8,9) that pinned_down_stuck [OF *(5)] pinned_down_sheds [OF *(3,4)] by (cases "capacity c = 0") auto
  then show thesis using full [OF *(1-7)] by blast
qed (use e in \<open>auto simp: key_refusal_def\<close>)

lemma key_refusal_clone [simp]: "key_refusal k r (clone_ref x c) = key_refusal k r c"
proof -
  have "stale (pages (clone_ref x c) y) = stale (pages c y)" "idle (pages (clone_ref x c) y) = idle (pages c y)"
    "delete_error (pages (clone_ref x c) y) = delete_error (pages c y)" for y
    unfolding clone_ref_def stale_def idle_def delete_error_def is_pinned_def by auto
  then show ?thesis unfolding key_refusal_def by (simp split: option.split)
qed

lemma loaded_handles [simp]: "is_loaded (pages (clone_ref x c) y) = is_loaded (pages c y)" "is_loaded (pages (drop_ref x c) y) = is_loaded (pages c y)"
  unfolding clone_ref_def drop_ref_def by auto

lemma force_insert_refused:
  assumes inv: "cache_inv c" and e: "key_refusal k r c = Some e"
  shows "\<exists>c1. force_insert_page k r c = (c1, Inl e) \<and> cached_page c1 = cached_page c"
proof -
  obtain c1 where "insert_inner k r False False (clone_ref r c) = (c1, Inl e)" "cached_page c1 = cached_page c" "e \<noteq> CacheFull"
    using insert_refused [OF clone_ref_inv [OF inv] clone_owned [OF inv], where k = k and e = e and bypass = False] e by auto
  then show ?thesis unfolding force_insert_page_def cache_insert_def by simp
qed

lemma force_insert_room:
  assumes inv: "cache_inv c" and own: "owned c r" and e: "key_refusal k r c = None"
  shows "\<exists>c''. force_insert_page k r c = (c'', Inr ()) \<and> cache_inv c'' \<and> cached_page c'' k = Some r \<and> (is_loaded (pages c r) \<longrightarrow> is_loaded (pages c'' r))"
proof -
  let ?c = "clone_ref r c"
  have c: "cache_inv ?c" "owned ?c r" "key_refusal k r ?c = None" using clone_ref_inv [OF inv] clone_owned [OF inv] e by auto
  obtain c1 res where x: "insert_inner k r False False ?c = (c1, res)" by (rule prod.exhaust)
  have "Suc (spare c r) \<le> Suc (spare c1 r)" using insert_inner_spare [OF c(1,2), of k False False] spare_clone [OF inv, of r] x by simp
  then have own1: "owned c1 r" using own unfolding owned_spare by simp
  show ?thesis using c
  proof (cases rule: insert_room [where bypass = False, case_names added full])
    case (added c0 c')
    have "is_loaded (pages c r) \<Longrightarrow> is_loaded (pages c1 r)"
      using admits_loaded(2) [OF added(3-5)] purged_facts(4) [OF added(2), of r] added(1) x by simp
    then show ?thesis using added(1) x own1 drop_ref_inv [OF added(6)] admits_loaded(1) [OF added(3-5)]
      unfolding force_insert_page_def cache_insert_def by auto
  next
    case (full c0 c2)
    have c1: "c1 = drop_ref r c2" "cache_inv c1" "cached_page c1 k = None"
      using full(1) x drop_ref_inv [OF full(5,6)] sheds_None [OF full(4) purged_facts(2) [OF full(2)]] by auto
    have "owned c0 r" using c(2) spare_purged [OF c(1) full(2)] unfolding owned_spare by simp
    then have load1: "is_loaded (pages c r) \<Longrightarrow> is_loaded (pages c1 r)"
      using sheds_owned(2) [OF full(3,4)] purged_facts(4) [OF full(2), of r] unfolding c1(1) by simp
    have eq: "force_insert_page k r c = insert_inner k r False True c1" using x full(1) c1(1) unfolding force_insert_page_def cache_insert_def by simp
    have "key_refusal k r c1 = None" using c1(3) unfolding key_refusal_def by simp
    with c1(2) own1 show ?thesis
    proof (cases rule: insert_room [where bypass = True, case_names added full])
      case (added c3 c')
      then show ?thesis using load1 admits_loaded [OF added(3-5)] purged_facts(4) [OF added(2), of r] unfolding eq by auto
    qed simp
  qed
qed

section \<open>An example run\<close>

text \<open>A page is loaded, cached in a cache of capacity one and changed; a second page is loaded and inserted by force.\<close>

definition example_pages :: "page_ref \<Rightarrow> page" where
  "example_pages = (\<lambda>_. (page_new 0)\<lparr>strong_count := 0\<rparr>)"

definition example_events :: "cache_event list" where
  "example_events = [EvNew 7 2, EvFinishRead 7 [1], EvClone 7, EvInsert 2 7, EvAddDirty 7, EvDrop 7, EvNew 8 3, EvFinishRead 8 [2]]"

lemmas cache_eval = on_page_def page_new_def finish_read_page_def clone_ref_def drop_ref_def cache_insert_def insert_inner_def insert_new_def
  make_room_for_def evict_until_def cache_len_def link_entry_def page_cache_entry_new_def add_dirty_notify_def notify_page_dirty_def
  cache_result_def page_cache_new_def new_with_spill_def entry_at_def counted_as_evictable_def HEADER_PAGE_ID_def
  flag_defs PAGE_LOCKED_def PAGE_DIRTY_def PAGE_LOADED_def PAGE_SPILLED_def
  cache_admissible_def owned_def keys_of_code insertable_def stale_def cached_page_def unsaved_def
  DEFAULT_SPILL_THRESHOLD_PERCENT_def CLEAR_def force_insert_page_def evict_one_def evict_loop_def evictable_def is_pinned_def
  saturating_mul_def usize_max_def REF_MAX_def advance_clock_hand_def

lemma cache_example_run:
  "\<exists>c c'. run_checked cache_admissible cache_step example_events (page_cache_new 1 example_pages) = Some c \<and> cached_page c 2 = Some 7
     \<and> unsaved (pages c 7) \<and> run_checked cache_admissible cache_step [EvForceInsert 3 8] c = Some c'"
  by (simp add: example_events_def example_pages_def cache_eval Let_def)

section \<open>Properties\<close>

text \<open>C7. Whatever the pager does between the calls (loading, pinning, locking, cloning and dropping handles, marking pages
  dirty or spilled) and however calls of the page cache follow each other, as long as the pager keeps its side (\<open>cache_admissible\<close>: among others, it drops
  only handles it has, and inserts under a key that is present only the page that is there, which the code asserts, or over a stale one), the cache keeps its invariant: keys and
  entries correspond one to one, the clock hand is null exactly when the queue is empty, every reference count is at
  most the maximum, the cache holds a handle for each of its entries, and the estimate of evictable pages never exceeds
  their number. No admissible call fails an assertion.\<close>

theorem page_cache_invariant:
  assumes "guarded_run cache_admissible cache_step (page_cache_new cap ps) evs c"
  shows "cache_inv c \<and> (\<forall>ev e. cache_admissible ev c \<longrightarrow> cache_step ev c \<noteq> Some (Inl e))"
  using page_cache_runs.run_sim [OF assms new_inv] page_cache_runs.run_no_error [OF assms new_inv] by blast

theorem page_cache_invariant_witness:
  "\<exists>c. guarded_run cache_admissible cache_step (page_cache_new 1 example_pages) example_events c \<and> cached_page c 2 = Some 7 \<and> cache_inv c"
proof -
  obtain c where c: "run_checked cache_admissible cache_step example_events (page_cache_new 1 example_pages) = Some c" "cached_page c 2 = Some 7"
    using cache_example_run by blast
  show ?thesis using page_cache_invariant [OF run_checked_guarded [OF c(1)]] run_checked_guarded [OF c(1)] c(2) by blast
qed

text \<open>C6. A page with unsaved changes (dirty and not spilled) stays in the page cache, with its contents, through every
  admissible run of insertions, evictions, resizings, lookups and deletions, until the pager itself writes it, replaces it,
  clears its flags or clears the cache.\<close>

theorem unsaved_pages_stay_cached:
  assumes "guarded_run cache_admissible cache_step (page_cache_new cap ps) evs0 c"
    and "guarded_run cache_admissible cache_step c evs c'"
    and "cached_page c k = Some r" "unsaved (pages c r)" "\<And>ev. ev \<in> set evs \<Longrightarrow> \<not> releases ev k r"
  shows "cached_page c' k = Some r \<and> unsaved (pages c' r) \<and> buffer (pages c' r) = buffer (pages c r)"
proof -
  let ?P = "\<lambda>a. fst a k = Some r \<and> unsaved (snd a r) \<and> buffer (snd a r) = buffer (pages c r)"
  have "cache_inv c" using page_cache_runs.run_sim [OF assms(1) new_inv] by blast
  moreover have "?P (cache_abs c)" using assms(3,4) unfolding cache_abs_def by simp
  moreover have "?P a'" if "ev \<in> set evs" "cache_spec ev a a'" "?P a" for ev a a'
    using that assms(5) unfolding cache_spec_def kept_def by metis
  ultimately have "?P (cache_abs c')" by (rule page_cache_runs.run_keeps [OF assms(2)])
  then show ?thesis unfolding cache_abs_def by simp
qed

theorem unsaved_pages_stay_cached_witness:
  "\<exists>c c'. guarded_run cache_admissible cache_step (page_cache_new 1 example_pages) example_events c \<and> unsaved (pages c 7)
     \<and> guarded_run cache_admissible cache_step c [EvForceInsert 3 8] c' \<and> cached_page c' 2 = Some 7 \<and> buffer (pages c' 7) = buffer (pages c 7)"
proof -
  obtain c c' where c: "run_checked cache_admissible cache_step example_events (page_cache_new 1 example_pages) = Some c" "cached_page c 2 = Some 7"
    "unsaved (pages c 7)" "run_checked cache_admissible cache_step [EvForceInsert 3 8] c = Some c'" using cache_example_run by blast
  note g = run_checked_guarded [OF c(1)] run_checked_guarded [OF c(4)]
  have "\<not> releases ev 2 7" if "ev \<in> set [EvForceInsert 3 8]" for ev using that by (simp add: releases_def)
  then show ?thesis using unsaved_pages_stay_cached [OF g c(2,3)] g c(3) by blast
qed

text \<open>C8. Evicting one page. When some cached page may be evicted (clean or spilled, unlocked, unpinned, not page 1, held by
  nobody else), \<^verbatim>\<open>evict_one\<close> removes exactly one such page, drops its buffer and leaves every other page as it is; otherwise it
  fails with \<open>CacheFull\<close> and the contents stay the same. The number of examinations the loop allows is always enough.\<close>

theorem evict_one_exact:
  assumes inv: "cache_inv c" and len: "0 < cache_len c" "cache_len c * (REF_MAX + 1) \<le> usize_max"
  shows "if \<exists>k r. cached_page c k = Some r \<and> evictable (pages c r)
     then \<exists>k r c'. evict_one c = (c', Inr ()) \<and> cached_page c k = Some r \<and> evictable (pages c r) \<and> cached_page c' = (cached_page c)(k := None)
       \<and> pages c' = (pages c)(r := discard (pages c r)) \<and> cache_inv c'
     else \<exists>c'. evict_one c = (c', Inl CacheFull) \<and> cached_page c' = cached_page c \<and> pages c' = pages c \<and> cache_inv c'"
proof (cases "\<exists>k r. cached_page c k = Some r \<and> evictable (pages c r)")
  case True
  have idx: "index_ok c" using inv unfolding cache_inv_def by blast
  obtain e where "e \<in> set (queue c)" "evictable (entry_at c e)" using True unfolding cached_Some [OF idx] entry_at_def by blast
  then obtain c' where "evict_one c = (c', Inr ())" using evict_one_finds [OF inv _ _ len(2)] by blast
  moreover from this have "evicts c c'" using evict_one_outcome [OF inv len(1)] by auto
  ultimately show ?thesis using True evicts_contents [OF inv] by metis
next
  case False
  then obtain c' where c': "evict_one c = (c', Inl CacheFull)" "swept c c'" "cache_inv c'"
    using evict_one_outcome [OF inv len(1)] evicts_contents [OF inv] by blast
  then show ?thesis using False swept_entries(3) [OF c'(2)] swept_fields(8) [OF c'(2)] by simp
qed

definition example_full :: page_cache where
  "example_full = fst (insert_new 2 7 False (page_cache_new 1 (example_pages(7 := set_loaded (page_new 2)))))"

lemma example_full_facts: "cache_inv example_full" "cached_page example_full 2 = Some 7" "evictable (pages example_full 7)" "cache_len example_full = 1"
proof -
  let ?c = "page_cache_new 1 (example_pages(7 := set_loaded (page_new 2)))"
  have own: "owned ?c 7" "cached_page ?c 2 = None" by (simp_all add: cache_eval example_pages_def Let_def)
  show "cache_inv example_full"
    by (rule insert_new_cases [OF new_inv own(2,1), of False]) (auto simp: example_full_def cache_eval Let_def)
  show "cached_page example_full 2 = Some 7" "evictable (pages example_full 7)" "cache_len example_full = 1"
    by (simp_all add: example_full_def cache_eval example_pages_def Let_def)
qed

theorem evict_one_exact_witness:
  "cache_inv example_full \<and> 0 < cache_len example_full \<and> cache_len example_full * (REF_MAX + 1) \<le> usize_max
     \<and> (\<exists>c'. evict_one example_full = (c', Inr ()) \<and> cache_inv c')"
proof -
  have "cache_len example_full * (REF_MAX + 1) \<le> usize_max" "0 < cache_len example_full"
    by (simp_all add: example_full_facts REF_MAX_def usize_max_def)
  moreover have "\<exists>k r. cached_page example_full k = Some r \<and> evictable (pages example_full r)" using example_full_facts by blast
  ultimately show ?thesis using evict_one_exact [OF example_full_facts(1)] example_full_facts(1) by (metis (no_types, lifting))
qed

text \<open>C9. Inserting a page, on every branch. A key that holds another live page panics, one that holds the page itself gives \<open>KeyExists\<close>, and one whose
  page was left unread but is dirty or pinned gives the error of the deletion; then the contents stay as they are, and \<^verbatim>\<open>force_insert_page\<close> does the same.
  Otherwise (the key is absent, or its page was left unread and is removed first) the insertion succeeds exactly when fewer cached pages than the capacity
  are unevictable: only evictable pages leave the cache to make room, the length stays within the
  capacity, and a lookup of the key returns the page when it is loaded. Else it fails with \<open>CacheFull\<close>. \<^verbatim>\<open>force_insert_page\<close> then succeeds in both cases.
  (The number of entries is one for which the bound on examinations does not saturate.)\<close>

theorem cache_insert_correct:
  assumes inv: "cache_inv c" and own: "owned c r" and len: "cache_len c * (REF_MAX + 1) \<le> usize_max"
  shows "case key_refusal k r c of
      Some e \<Rightarrow> (\<exists>c'. cache_insert k r c = (c', Inl e) \<and> cached_page c' = cached_page c)
        \<and> (\<exists>c'. force_insert_page k r c = (c', Inl e) \<and> cached_page c' = cached_page c)
    | None \<Rightarrow>
        (\<exists>c0. purged k c c0 \<and>
          (if pinned_down c0 < capacity c
           then \<exists>c'. cache_insert k r c = (c', Inr ()) \<and> cache_inv c' \<and> admits k r c0 c' \<and> cache_len c' \<le> capacity c'
             \<and> (is_loaded (pages c r) \<longrightarrow> snd (cache_get k c') = Inr (Some r))
           else \<exists>c1. cache_insert k r c = (drop_ref r c1, Inl CacheFull) \<and> cache_inv c1 \<and> sheds c0 c1))
        \<and> (\<exists>c'. force_insert_page k r c = (c', Inr ()) \<and> cache_inv c' \<and> cached_page c' k = Some r
             \<and> (is_loaded (pages c r) \<longrightarrow> snd (cache_get k c') = Inr (Some r)))"
proof (cases "key_refusal k r c")
  case None
  have "\<exists>c'. force_insert_page k r c = (c', Inr ()) \<and> cache_inv c' \<and> cached_page c' k = Some r
      \<and> (is_loaded (pages c r) \<longrightarrow> snd (cache_get k c') = Inr (Some r))"
    using force_insert_room [OF inv own None] cache_get_loaded by blast
  moreover have "\<exists>c0. purged k c c0 \<and>
      (if pinned_down c0 < capacity c
       then \<exists>c'. cache_insert k r c = (c', Inr ()) \<and> cache_inv c' \<and> admits k r c0 c' \<and> cache_len c' \<le> capacity c'
         \<and> (is_loaded (pages c r) \<longrightarrow> snd (cache_get k c') = Inr (Some r))
       else \<exists>c1. cache_insert k r c = (drop_ref r c1, Inl CacheFull) \<and> cache_inv c1 \<and> sheds c0 c1)"
    using inv own None
  proof (cases rule: insert_room [where bypass = False, case_names added full])
    case (added c0 c')
    have "is_loaded (pages c r) \<Longrightarrow> snd (cache_get k c') = Inr (Some r)"
      using cache_get_loaded [OF added(6)] admits_loaded(1,2) [OF added(3-5)] purged_facts(4) [OF added(2), of r] by simp
    then show ?thesis using added admits_loaded(3) [OF added(3-5)] purged_facts(3) [OF added(2)] unfolding cache_insert_def by auto
  next
    case (full c0 c1)
    then show ?thesis using len unfolding cache_insert_def len_ok_def by (intro exI [of _ c0]) auto
  qed
  ultimately show ?thesis unfolding None by simp
next
  case (Some e)
  then show ?thesis using insert_refused [OF inv own Some] force_insert_refused [OF inv Some] unfolding cache_insert_def by auto
qed

theorem cache_insert_correct_witness:
  "\<exists>c. cache_inv c \<and> owned c 7 \<and> cache_len c * (REF_MAX + 1) \<le> usize_max \<and> key_refusal 2 7 c = None
     \<and> (\<exists>c'. cache_insert 2 7 c = (c', Inr ()) \<and> snd (cache_get 2 c') = Inr (Some 7)) \<and> (\<exists>c'. force_insert_page 2 7 c = (c', Inr ()))"
proof -
  let ?c = "page_cache_new 1 (example_pages(7 := set_loaded (page_new 2)))"
  have c: "owned ?c 7" "cache_len ?c * (REF_MAX + 1) \<le> usize_max" "cached_page ?c 2 = None" "is_loaded (pages ?c 7)"
    "snd (cache_insert 2 7 ?c) = Inr ()" by (simp_all add: cache_eval example_pages_def Let_def)
  have none: "key_refusal 2 7 ?c = None" using c(3) by (simp add: key_refusal_def)
  have "(\<exists>c'. cache_insert 2 7 ?c = (c', Inr ()) \<and> snd (cache_get 2 c') = Inr (Some 7)) \<and> (\<exists>c'. force_insert_page 2 7 ?c = (c', Inr ()))"
    using cache_insert_correct [OF new_inv c(1,2), of 2] c(4,5) unfolding none by (auto split: if_splits)
  then show ?thesis using c none new_inv by blast
qed

end
