(* ===== verification/Slot_Bitmap.thy ===== *)
theory Slot_Bitmap
  imports Simulation
begin

text \<open>
  The lock-free bitmap of free slots of \<^verbatim>\<open>core/storage/slot_bitmap.rs\<close>, with the threads that allocate and free slots
  interleaved at every atomic operation. A thread is where its call stands between two atomic operations; a
  compare-and-exchange may fail spuriously, as \<^verbatim>\<open>compare_exchange_weak\<close> does. The atomic operations are sequentially
  consistent in the model.
\<close>

unbundle bit_operations_syntax

section \<open>The bitmap\<close>

definition WORD_SHIFT :: nat where "WORD_SHIFT = 6"
definition WORD_BITS :: u32 where "WORD_BITS = 64"
definition WORD_MASK :: u32 where "WORD_MASK = 63"
definition ALL_FREE :: u64 where "ALL_FREE = - 1"
definition ALL_ALLOCATED :: u64 where "ALL_ALLOCATED = 0"

definition word_and_bit_to_slot :: "usize \<Rightarrow> nat \<Rightarrow> u32" where
  "word_and_bit_to_slot word_idx b = push_bit WORD_SHIFT (of_nat word_idx) OR of_nat b"

definition slot_to_word_and_bit :: "u32 \<Rightarrow> usize \<times> nat" where
  "slot_to_word_and_bit slot = (unat (drop_bit WORD_SHIFT slot), unat (slot AND WORD_MASK))"

record slot_bitmap =
  words :: "u64 list"
  n_slots :: u32
  next_word_hint :: usize

definition bitmap_new :: "u32 \<Rightarrow> slot_bitmap res" where
  "bitmap_new n =
     (if n > 0 \<and> n mod WORD_BITS = 0 then
        (let n_words = unat (n div WORD_BITS) in Inr \<lparr>words = replicate n_words ALL_FREE, n_slots = n, next_word_hint = 0\<rparr>)
      else Inl Panic)"

definition is_free :: "slot_bitmap \<Rightarrow> u32 \<Rightarrow> bool res" where
  "is_free bm slot =
     (if slot \<ge> n_slots bm then Inr False
      else
        (let (word_idx, b) = slot_to_word_and_bit slot in
         if word_idx < length (words bm) then Inr (words bm ! word_idx AND push_bit b 1 \<noteq> 0) else Inl Panic))"

definition trailing_zeros :: "u64 \<Rightarrow> nat" where
  "trailing_zeros w = length (takeWhile (\<lambda>n. \<not> bit w n) [0..<64])"

section \<open>Calls between two atomic operations\<close>

datatype call =
    Idle
  | Scan usize usize
  | TryWord usize usize u64
  | SetHint usize u32
  | Returned "u32 option"
  | FreeSlot u32
  | FreeHint usize
  | FreeStore usize

definition alloc_one_begin :: "slot_bitmap \<Rightarrow> call" where
  "alloc_one_begin bm =
     (let n_words = length (words bm) in
      if n_words = 0 then Returned None else Scan (min (next_word_hint bm) (n_words - 1)) 0)"

text \<open>The test \<^verbatim>\<open>while word != ALL_ALLOCATED\<close> after a word was read.\<close>

definition alloc_one_word :: "usize \<Rightarrow> usize \<Rightarrow> u64 \<Rightarrow> call" where
  "alloc_one_word hint offset w = (if w \<noteq> ALL_ALLOCATED then TryWord hint offset w else Scan hint (offset + 1))"

definition alloc_one_scan :: "usize \<Rightarrow> usize \<Rightarrow> slot_bitmap \<Rightarrow> call" where
  "alloc_one_scan hint offset bm =
     (let n_words = length (words bm) in
      if offset < n_words then
        (let word_idx = (hint + offset) mod n_words in alloc_one_word hint offset (words bm ! word_idx))
      else Returned None)"

definition alloc_one_try :: "bool \<Rightarrow> usize \<Rightarrow> usize \<Rightarrow> u64 \<Rightarrow> slot_bitmap \<Rightarrow> slot_bitmap \<times> call" where
  "alloc_one_try spurious hint offset w bm =
     (let n_words = length (words bm);
          word_idx = (hint + offset) mod n_words;
          b = trailing_zeros w;
          new_word = w AND NOT (push_bit b 1);
          actual = words bm ! word_idx
      in if actual = w \<and> \<not> spurious then
           (let new_hint = (if new_word = ALL_ALLOCATED then (word_idx + 1) mod n_words else word_idx)
            in (bm\<lparr>words := (words bm)[word_idx := new_word]\<rparr>, SetHint new_hint (word_and_bit_to_slot word_idx b)))
         else (bm, alloc_one_word hint offset actual))"

definition free_one_begin :: "u32 \<Rightarrow> slot_bitmap \<Rightarrow> (slot_bitmap \<times> call) res" where
  "free_one_begin slot bm =
     (if \<not> slot < n_slots bm then Inl Panic
      else
        (let (word_idx, b) = slot_to_word_and_bit slot; m = push_bit b 1 in
         if \<not> word_idx < length (words bm) then Inl Panic
         else
           (let old = words bm ! word_idx; bm1 = bm\<lparr>words := (words bm)[word_idx := old OR m]\<rparr> in
            if old AND m \<noteq> 0 then Inl Panic else Inr (bm1, FreeHint word_idx))))"

definition free_one_hint :: "usize \<Rightarrow> slot_bitmap \<Rightarrow> call" where
  "free_one_hint word_idx bm = (if word_idx < next_word_hint bm then FreeStore word_idx else Idle)"

fun call_step :: "bool \<Rightarrow> slot_bitmap \<Rightarrow> call \<Rightarrow> (slot_bitmap \<times> call) res option" where
  "call_step spurious bm (Scan hint offset) = Some (Inr (bm, alloc_one_scan hint offset bm))"
| "call_step spurious bm (TryWord hint offset w) = Some (Inr (alloc_one_try spurious hint offset w bm))"
| "call_step spurious bm (SetHint hint slot) = Some (Inr (bm\<lparr>next_word_hint := hint\<rparr>, Returned (Some slot)))"
| "call_step spurious bm (FreeSlot slot) = Some (free_one_begin slot bm)"
| "call_step spurious bm (FreeHint word_idx) = Some (Inr (bm, free_one_hint word_idx bm))"
| "call_step spurious bm (FreeStore word_idx) = Some (Inr (bm\<lparr>next_word_hint := word_idx\<rparr>, Idle))"
| "call_step spurious bm Idle = None"
| "call_step spurious bm (Returned r) = None"

section \<open>Threads\<close>

record slot_thread =
  call_of :: call
  held :: "u32 list"

record slot_sys =
  bitmap :: slot_bitmap
  threads :: "slot_thread list"

datatype slot_event = EvAlloc nat | EvCall nat bool | EvReturn nat | EvFree nat u32

definition with_thread :: "slot_sys \<Rightarrow> nat \<Rightarrow> slot_bitmap \<Rightarrow> slot_thread \<Rightarrow> slot_sys" where
  "with_thread s t bm th = s\<lparr>bitmap := bm, threads := (threads s)[t := th]\<rparr>"

fun slot_step :: "slot_event \<Rightarrow> slot_sys \<Rightarrow> slot_sys res option" where
  "slot_step (EvAlloc t) s =
     (if t < length (threads s) \<and> call_of (threads s ! t) = Idle then
        Some (Inr (with_thread s t (bitmap s) ((threads s ! t)\<lparr>call_of := alloc_one_begin (bitmap s)\<rparr>)))
      else None)"
| "slot_step (EvCall t spurious) s =
     (if t < length (threads s) then
        (case call_step spurious (bitmap s) (call_of (threads s ! t)) of
           None \<Rightarrow> None
         | Some (Inl e) \<Rightarrow> Some (Inl e)
         | Some (Inr (bm, c)) \<Rightarrow> Some (Inr (with_thread s t bm ((threads s ! t)\<lparr>call_of := c\<rparr>))))
      else None)"
| "slot_step (EvReturn t) s =
     (if t < length (threads s) then
        (case call_of (threads s ! t) of
           Returned r \<Rightarrow>
             Some (Inr (with_thread s t (bitmap s)
               \<lparr>call_of = Idle, held = (case r of None \<Rightarrow> [] | Some slot \<Rightarrow> [slot]) @ held (threads s ! t)\<rparr>))
         | _ \<Rightarrow> None)
      else None)"
| "slot_step (EvFree t slot) s =
     (if t < length (threads s) \<and> call_of (threads s ! t) = Idle \<and> slot \<in> set (held (threads s ! t)) then
        Some (Inr (with_thread s t (bitmap s) \<lparr>call_of = FreeSlot slot, held = remove1 slot (held (threads s ! t))\<rparr>))
      else None)"

definition slot_sys_new :: "u32 \<Rightarrow> nat \<Rightarrow> slot_sys res" where
  "slot_sys_new n k = rbind (bitmap_new n) (\<lambda>bm. Inr \<lparr>bitmap = bm, threads = replicate k \<lparr>call_of = Idle, held = []\<rparr>\<rparr>)"

section \<open>Specification: a pool of slots\<close>

text \<open>
  A pool has free slots, and each thread owns some. One event takes a free slot for a thread, gives an owned one back or
  changes nothing.
\<close>

record slot_pool =
  pool_free :: "nat set"
  pool_owner :: "nat \<Rightarrow> nat set"

definition event_thread :: "slot_event \<Rightarrow> nat" where
  "event_thread ev = (case ev of EvAlloc t \<Rightarrow> t | EvCall t _ \<Rightarrow> t | EvReturn t \<Rightarrow> t | EvFree t _ \<Rightarrow> t)"

definition pool_step :: "slot_event \<Rightarrow> slot_pool \<Rightarrow> slot_pool \<Rightarrow> bool" where
  "pool_step ev p p' \<longleftrightarrow> p' = p
     \<or> (\<exists>s \<in> pool_free p. p' = \<lparr>pool_free = pool_free p - {s}, pool_owner = (pool_owner p)(event_thread ev := insert s (pool_owner p (event_thread ev)))\<rparr>)
     \<or> (\<exists>s \<in> pool_owner p (event_thread ev).
          p' = \<lparr>pool_free = insert s (pool_free p), pool_owner = (pool_owner p)(event_thread ev := pool_owner p (event_thread ev) - {s})\<rparr>)"

definition slot_free :: "slot_bitmap \<Rightarrow> nat \<Rightarrow> bool" where
  "slot_free bm i \<longleftrightarrow> i < 64 * length (words bm) \<and> bit (words bm ! (i div 64)) (i mod 64)"

definition in_flight :: "call \<Rightarrow> u32 list" where
  "in_flight c = (case c of SetHint h s \<Rightarrow> [s] | Returned (Some s) \<Rightarrow> [s] | FreeSlot s \<Rightarrow> [s] | _ \<Rightarrow> [])"

definition thread_slots :: "slot_thread \<Rightarrow> u32 list" where
  "thread_slots th = in_flight (call_of th) @ held th"

definition owner_of :: "slot_sys \<Rightarrow> nat \<Rightarrow> nat set" where
  "owner_of s t = (if t < length (threads s) then unat ` set (thread_slots (threads s ! t)) else {})"

definition pool_of :: "slot_sys \<Rightarrow> slot_pool" where
  "pool_of s = \<lparr>pool_free = {i. slot_free (bitmap s) i}, pool_owner = owner_of s\<rparr>"

section \<open>Words and slots\<close>

lemma trailing_zeros_bit:
  assumes "w \<noteq> 0"
  shows "trailing_zeros w < 64" "bit w (trailing_zeros w)"
proof -
  let ?xs = "takeWhile (\<lambda>n. \<not> bit w n) [0..<64]"
  obtain n where n: "bit w n" "n < 64" using assms by (auto simp: bit_eq_iff dest: bit_imp_le_length)
  have "\<not> (\<forall>x \<in> set [0..<64]. \<not> bit w x)" using n by auto
  then have "?xs \<noteq> [0..<64]" by (simp add: takeWhile_eq_all_conv)
  then show lt: "trailing_zeros w < 64"
    unfolding trailing_zeros_def by (metis length_takeWhile_le length_upt diff_zero le_neq_implies_less takeWhile_eq_take take_all order_refl)
  have "\<not> \<not> bit w ([0..<64] ! length ?xs)" by (rule nth_length_takeWhile) (use lt in \<open>simp add: trailing_zeros_def\<close>)
  then show "bit w (trailing_zeros w)" using lt unfolding trailing_zeros_def by simp
qed

lemma and_63: "unat (slot AND 63 :: u32) = unat slot mod 64"
proof -
  have "(63 :: u32) = mask 6" by (simp add: mask_eq_exp_minus_1)
  then have "unat (slot AND 63 :: u32) = unat (take_bit 6 slot)" by (simp only: take_bit_eq_mask)
  also have "\<dots> = unat slot mod 64" by (simp add: take_bit_eq_mod unat_mod_distrib)
  finally show ?thesis .
qed

lemma slot_word_bit: "slot_to_word_and_bit slot = (unat slot div 64, unat slot mod 64)"
  unfolding slot_to_word_and_bit_def WORD_SHIFT_def WORD_MASK_def
  by (simp add: and_63 unat_drop_bit_eq drop_bit_eq_div unat_div_distrib)

lemma word_bit_slot:
  assumes "w < 2 ^ 26" "b < 64"
  shows "unat (word_and_bit_to_slot w b) = 64 * w + b"
proof -
  have b: "b = take_bit 6 b" using assms(2) by (simp add: take_bit_eq_mod)
  have "push_bit 6 w AND take_bit 6 b = 0" by (simp add: bit_eq_iff bit_simps)
  then have "push_bit 6 w OR b = 64 * w + b"
    using b disjunctive_add_eq_or [of "push_bit 6 w" b] by (simp add: push_bit_eq_mult)
  moreover have "word_and_bit_to_slot w b = of_nat (push_bit 6 w OR b)"
    unfolding word_and_bit_to_slot_def WORD_SHIFT_def by (simp add: push_bit_of_nat of_nat_or_eq)
  ultimately have "unat (word_and_bit_to_slot w b) = (64 * w + b) mod 2 ^ LENGTH(32)" by (simp only: unat_of_nat)
  then show ?thesis using assms by simp
qed

section \<open>Invariant\<close>

definition bitmap_ok :: "slot_bitmap \<Rightarrow> bool" where
  "bitmap_ok bm \<longleftrightarrow> 0 < length (words bm) \<and> unat (n_slots bm) = 64 * length (words bm)"

definition call_ok :: "slot_bitmap \<Rightarrow> call \<Rightarrow> bool" where
  "call_ok bm c \<longleftrightarrow> (case c of
      TryWord hint offset w \<Rightarrow> w \<noteq> 0
    | SetHint hint slot \<Rightarrow> hint < length (words bm)
    | _ \<Rightarrow> True)"

definition slot_inv :: "slot_sys \<Rightarrow> bool" where
  "slot_inv s \<longleftrightarrow> bitmap_ok (bitmap s)
     \<and> (\<forall>th \<in> set (threads s). call_ok (bitmap s) (call_of th) \<and> distinct (thread_slots th))
     \<and> (\<forall>t u. t \<noteq> u \<longrightarrow> owner_of s t \<inter> owner_of s u = {})
     \<and> (\<forall>i. i < 64 * length (words (bitmap s)) \<longrightarrow> (slot_free (bitmap s) i \<longleftrightarrow> (\<forall>t. i \<notin> owner_of s t)))
     \<and> (\<forall>t. owner_of s t \<subseteq> {..<64 * length (words (bitmap s))})"

lemma slot_invD:
  assumes "slot_inv s"
  shows "bitmap_ok (bitmap s)" "t < length (threads s) \<Longrightarrow> call_ok (bitmap s) (call_of (threads s ! t))"
    "t < length (threads s) \<Longrightarrow> distinct (thread_slots (threads s ! t))" "t \<noteq> u \<Longrightarrow> owner_of s t \<inter> owner_of s u = {}"
    "i \<in> owner_of s t \<Longrightarrow> i < 64 * length (words (bitmap s)) \<and> \<not> slot_free (bitmap s) i"
    "i < 64 * length (words (bitmap s)) \<Longrightarrow> \<not> slot_free (bitmap s) i \<Longrightarrow> \<exists>t. i \<in> owner_of s t"
  using assms unfolding slot_inv_def by (auto simp: subset_iff)

lemma words_bound: "bitmap_ok bm \<Longrightarrow> length (words bm) < 2 ^ 26"
  using unsigned_less [of "n_slots bm", where ?'a = nat] unfolding bitmap_ok_def by simp

lemma set_thread: "t < length (threads s) \<Longrightarrow> owner_of (with_thread s t bm th) u = (if u = t then unat ` set (thread_slots th) else owner_of s u)"
  unfolding owner_of_def with_thread_def by simp

text \<open>One bit changes: the slot is taken by the compare-and-exchange or given back by the fetch-or.\<close>

lemma slot_free_update:
  assumes "w < length (words bm)" "b < 64" "\<And>n. n \<noteq> b \<Longrightarrow> n < 64 \<Longrightarrow> bit v n = bit (words bm ! w) n"
  shows "slot_free (bm\<lparr>words := (words bm)[w := v]\<rparr>) i \<longleftrightarrow> (if i = 64 * w + b then bit v b else slot_free bm i)"
proof (cases "i div 64 = w \<and> i mod 64 = b")
  case True
  then have "i = 64 * w + b" by (metis mult_div_mod_eq)
  then show ?thesis using True assms(1,2) unfolding slot_free_def by simp
next
  case False
  then have ne: "i \<noteq> 64 * w + b" using assms(2) by auto
  show ?thesis
  proof (cases "i div 64 = w")
    case True
    then have "bit v (i mod 64) = bit (words bm ! w) (i mod 64)" using False assms(3) by simp
    then show ?thesis using ne True assms(1) unfolding slot_free_def by simp
  qed (use ne in \<open>auto simp: slot_free_def nth_list_update\<close>)
qed

section \<open>Every event is a step of the pool\<close>

text \<open>A step that changes neither the bitmap's words nor the slots of any thread.\<close>

lemma same_step:
  assumes inv: "slot_inv s" and t: "t < length (threads s)" and words: "words bm = words (bitmap s)" "n_slots bm = n_slots (bitmap s)"
    and set: "set (thread_slots th) = set (thread_slots (threads s ! t))" "distinct (thread_slots th)" and ok: "call_ok bm (call_of th)"
  shows "slot_inv (with_thread s t bm th)" "pool_of (with_thread s t bm th) = pool_of s"
proof -
  have own: "owner_of (with_thread s t bm th) = owner_of s"
    using t set_thread [OF t] set unfolding owner_of_def by (auto simp: fun_eq_iff)
  have free: "slot_free (bitmap (with_thread s t bm th)) = slot_free (bitmap s)"
    unfolding slot_free_def with_thread_def using words by (simp add: fun_eq_iff)
  have "call_ok bm = call_ok (bitmap s)" "bitmap_ok bm = bitmap_ok (bitmap s)"
    unfolding call_ok_def bitmap_ok_def words by (simp_all add: fun_eq_iff)
  moreover have "\<forall>x \<in> set ((threads s)[t := th]). call_ok (bitmap s) (call_of x) \<and> distinct (thread_slots x)"
    using inv ok calculation set(2) set_update_subset_insert [of "threads s" t th] unfolding slot_inv_def by auto
  ultimately show "slot_inv (with_thread s t bm th)"
    using inv own free words unfolding slot_inv_def by (simp add: with_thread_def)
  show "pool_of (with_thread s t bm th) = pool_of s" unfolding pool_of_def own free ..
qed

lemma pair_of_slots:
  assumes "slot_inv s" "t < length (threads s)" "u < length (threads s)" "t \<noteq> u"
  shows "unat ` set (thread_slots (threads s ! t)) \<inter> unat ` set (thread_slots (threads s ! u)) = {}"
  using slot_invD(4) [OF assms(1,4)] assms(2,3) unfolding owner_of_def by simp

text \<open>A successful compare-and-exchange takes a free slot.\<close>

lemma take_step:
  assumes inv: "slot_inv s" and t: "t < length (threads s)" and slot: "slot_free (bitmap s) (unat x)"
    and words: "length (words bm) = length (words (bitmap s))" "n_slots bm = n_slots (bitmap s)"
    and free: "\<And>i. slot_free bm i \<longleftrightarrow> slot_free (bitmap s) i \<and> i \<noteq> unat x"
    and slots: "thread_slots th = x # thread_slots (threads s ! t)" and ok: "call_ok bm (call_of th)"
  shows "slot_inv (with_thread s t bm th)"
    "pool_of (with_thread s t bm th) = \<lparr>pool_free = pool_free (pool_of s) - {unat x}, pool_owner = (pool_owner (pool_of s))(t := insert (unat x) (pool_owner (pool_of s) t))\<rparr>"
proof -
  let ?s = "with_thread s t bm th"
  have fresh: "unat x \<notin> owner_of s u" for u using slot slot_invD(5) [OF inv] by blast
  have own: "owner_of ?s u = (if u = t then insert (unat x) (owner_of s t) else owner_of s u)" for u
    using set_thread [OF t] t slots unfolding owner_of_def by simp
  have bm: "bitmap ?s = bm" unfolding with_thread_def by simp
  have bound: "unat x < 64 * length (words (bitmap s))" using slot unfolding slot_free_def by blast
  have "x \<notin> set (thread_slots (threads s ! t))" using fresh [of t] t unfolding owner_of_def by auto
  then have "distinct (thread_slots th)" using slot_invD(3) [OF inv t] slots by simp
  moreover have "call_ok bm = call_ok (bitmap s)" unfolding call_ok_def words by (simp add: fun_eq_iff)
  ultimately have ths: "\<forall>y \<in> set (threads ?s). call_ok bm (call_of y) \<and> distinct (thread_slots y)"
    using inv ok set_update_subset_insert [of "threads s" t th] unfolding slot_inv_def with_thread_def by auto
  have "bitmap_ok bm" using slot_invD(1) [OF inv] unfolding bitmap_ok_def words by simp
  moreover have "owner_of ?s u \<inter> owner_of ?s v = {}" if "u \<noteq> v" for u v
    using that slot_invD(4) [OF inv] fresh unfolding own by auto
  moreover have "slot_free bm i \<longleftrightarrow> (\<forall>u. i \<notin> owner_of ?s u)" if "i < 64 * length (words bm)" for i
    using that inv fresh unfolding free own words slot_inv_def by (metis insertE insertI1 insertI2)
  moreover have "owner_of ?s u \<subseteq> {..<64 * length (words bm)}" for u
    using inv bound unfolding own words slot_inv_def by auto
  ultimately show "slot_inv ?s" using ths unfolding slot_inv_def bm by blast
  show "pool_of ?s = \<lparr>pool_free = pool_free (pool_of s) - {unat x}, pool_owner = (pool_owner (pool_of s))(t := insert (unat x) (pool_owner (pool_of s) t))\<rparr>"
    unfolding pool_of_def bm by (auto simp: free own fun_eq_iff)
qed

text \<open>A fetch-or gives the slot of the call back.\<close>

lemma give_step:
  assumes inv: "slot_inv s" and t: "t < length (threads s)"
    and words: "length (words bm) = length (words (bitmap s))" "n_slots bm = n_slots (bitmap s)"
    and free: "\<And>i. slot_free bm i \<longleftrightarrow> slot_free (bitmap s) i \<or> i = unat x"
    and slots: "thread_slots (threads s ! t) = x # thread_slots th" and ok: "call_ok bm (call_of th)"
  shows "slot_inv (with_thread s t bm th)"
    "pool_of (with_thread s t bm th) = \<lparr>pool_free = insert (unat x) (pool_free (pool_of s)), pool_owner = (pool_owner (pool_of s))(t := pool_owner (pool_of s) t - {unat x})\<rparr>"
    "unat x \<in> pool_owner (pool_of s) t"
proof -
  let ?s = "with_thread s t bm th"
  have d: "distinct (x # thread_slots th)" using slot_invD(3) [OF inv t] slots by simp
  have mine: "owner_of s t = insert (unat x) (unat ` set (thread_slots th))" using t slots unfolding owner_of_def by simp
  have notin: "unat x \<notin> unat ` set (thread_slots th)" using d by (auto simp: word_unat_eq_iff [symmetric])
  have own: "owner_of ?s u = (if u = t then owner_of s t - {unat x} else owner_of s u)" for u
    using set_thread [OF t] mine notin by auto
  have bm: "bitmap ?s = bm" unfolding with_thread_def by simp
  have here: "unat x \<in> owner_of s t" using mine by simp
  then show "unat x \<in> pool_owner (pool_of s) t" unfolding pool_of_def by simp
  have "call_ok bm = call_ok (bitmap s)" unfolding call_ok_def words by (simp add: fun_eq_iff)
  then have ths: "\<forall>y \<in> set (threads ?s). call_ok bm (call_of y) \<and> distinct (thread_slots y)"
    using inv ok d set_update_subset_insert [of "threads s" t th] unfolding slot_inv_def with_thread_def by auto
  have "bitmap_ok bm" using slot_invD(1) [OF inv] unfolding bitmap_ok_def words by simp
  moreover have "owner_of ?s u \<inter> owner_of ?s v = {}" if "u \<noteq> v" for u v
    using that slot_invD(4) [OF inv] unfolding own by auto
  moreover have "slot_free bm i \<longleftrightarrow> (\<forall>u. i \<notin> owner_of ?s u)" if "i < 64 * length (words bm)" for i
  proof (cases "i = unat x")
    case True
    moreover have "unat x \<notin> owner_of s u" if "u \<noteq> t" for u using here slot_invD(4) [OF inv that] by blast
    ultimately show ?thesis unfolding free own by auto
  next
    case False
    then show ?thesis using that inv unfolding free own words slot_inv_def by auto
  qed
  moreover have "owner_of ?s u \<subseteq> {..<64 * length (words bm)}" for u
    using inv unfolding own words slot_inv_def by auto
  ultimately show "slot_inv ?s" using ths unfolding slot_inv_def bm by blast
  show "pool_of ?s = \<lparr>pool_free = insert (unat x) (pool_free (pool_of s)), pool_owner = (pool_owner (pool_of s))(t := pool_owner (pool_of s) t - {unat x})\<rparr>"
    unfolding pool_of_def bm by (auto simp: free own fun_eq_iff)
qed

lemma in_flight_simps [simp]:
  "in_flight Idle = []" "in_flight (Scan h n) = []" "in_flight (TryWord h n w) = []" "in_flight (SetHint h x) = [x]"
  "in_flight (Returned None) = []" "in_flight (Returned (Some x)) = [x]" "in_flight (FreeSlot x) = [x]" "in_flight (FreeHint i) = []"
  "in_flight (FreeStore i) = []"
  unfolding in_flight_def by simp_all

lemma call_ok_simps [simp]:
  "call_ok bm Idle" "call_ok bm (Scan h n)" "call_ok bm (TryWord h n w) \<longleftrightarrow> w \<noteq> 0" "call_ok bm (SetHint h x) \<longleftrightarrow> h < length (words bm)"
  "call_ok bm (Returned r)" "call_ok bm (FreeSlot x)" "call_ok bm (FreeHint i)" "call_ok bm (FreeStore i)"
  unfolding call_ok_def by simp_all

lemma alloc_one_word_ok [simp]: "call_ok bm (alloc_one_word h n w)" "in_flight (alloc_one_word h n w) = []"
  unfolding alloc_one_word_def ALL_ALLOCATED_def by simp_all

lemma bit_cleared: "bit (w AND NOT (2 ^ b) :: u64) n \<longleftrightarrow> bit w n \<and> n \<noteq> b"
  by (auto simp: bit_simps dest: bit_imp_le_length)

lemma bit_set: "b < 64 \<Longrightarrow> bit (w OR 2 ^ b :: u64) n \<longleftrightarrow> bit w n \<or> n = b"
  by (auto simp: bit_simps)

lemma bit_mask_test: "w AND 2 ^ b = (0 :: u64) \<longleftrightarrow> \<not> bit w b"
  by (simp add: and_exp_eq_0_iff_not_bit)

text \<open>The slot that a compare-and-exchange takes.\<close>

lemma alloc_one_try_taken:
  assumes ok: "bitmap_ok bm" and w: "w \<noteq> 0" and hit: "words bm ! ((h + n) mod length (words bm)) = w"
  defines "x \<equiv> word_and_bit_to_slot ((h + n) mod length (words bm)) (trailing_zeros w)"
  shows "\<exists>bm' h'. alloc_one_try False h n w bm = (bm', SetHint h' x) \<and> h' < length (words bm)
     \<and> length (words bm') = length (words bm) \<and> n_slots bm' = n_slots bm \<and> slot_free bm (unat x)
     \<and> (\<forall>i. slot_free bm' i \<longleftrightarrow> slot_free bm i \<and> i \<noteq> unat x)"
proof -
  let ?i = "(h + n) mod length (words bm)" let ?b = "trailing_zeros w"
  have len: "0 < length (words bm)" using ok unfolding bitmap_ok_def by blast
  then have i: "?i < length (words bm)" by (rule mod_less_divisor)
  note b = trailing_zeros_bit [OF w]
  have x: "unat x = 64 * ?i + ?b" unfolding x_def by (rule word_bit_slot) (use i words_bound [OF ok] b(1) in linarith)+
  have here: "slot_free bm (unat x)" unfolding x slot_free_def using i b hit by simp
  have "slot_free (bm\<lparr>words := (words bm)[?i := w AND NOT (2 ^ ?b)]\<rparr>) j \<longleftrightarrow> slot_free bm j \<and> j \<noteq> unat x" for j
    using slot_free_update [OF i b(1), of "w AND NOT (2 ^ ?b)" j] hit by (auto simp: bit_cleared x)
  moreover have "Suc ?i mod length (words bm) < length (words bm)" using len by (rule mod_less_divisor)
  ultimately show ?thesis using hit here i unfolding alloc_one_try_def by (simp add: Let_def x_def)
qed

lemma alloc_one_try_failed:
  "words bm ! ((h + n) mod length (words bm)) \<noteq> w \<or> spurious \<Longrightarrow>
     alloc_one_try spurious h n w bm = (bm, alloc_one_word h n (words bm ! ((h + n) mod length (words bm))))"
  unfolding alloc_one_try_def by (auto simp: Let_def)

lemma free_one_begin_given:
  assumes ok: "bitmap_ok bm" and x: "unat x < 64 * length (words bm)" "\<not> slot_free bm (unat x)"
  shows "\<exists>bm'. free_one_begin x bm = Inr (bm', FreeHint (unat x div 64)) \<and> length (words bm') = length (words bm) \<and> n_slots bm' = n_slots bm
     \<and> (\<forall>i. slot_free bm' i \<longleftrightarrow> slot_free bm i \<or> i = unat x)"
proof -
  let ?i = "unat x div 64" let ?b = "unat x mod 64" let ?v = "words bm ! ?i OR 2 ^ ?b"
  have i: "?i < length (words bm)" using x(1) by (simp add: less_mult_imp_div_less mult.commute)
  have "x < n_slots bm" using ok x(1) unfolding bitmap_ok_def by (simp add: word_less_nat_alt)
  moreover have "\<not> bit (words bm ! ?i) ?b" using x unfolding slot_free_def by blast
  moreover have "slot_free (bm\<lparr>words := (words bm)[?i := ?v]\<rparr>) j \<longleftrightarrow> slot_free bm j \<or> j = unat x" for j
    using slot_free_update [OF i, of ?b ?v j] by (auto simp: bit_set)
  ultimately show ?thesis using i unfolding free_one_begin_def slot_word_bit by (simp add: Let_def bit_mask_test)
qed

lemma pool_step_same [simp]: "pool_step ev p p"
  unfolding pool_step_def by blast

lemma call_step_good:
  assumes inv: "slot_inv s" and t: "t < length (threads s)"
    and r: "Some r = (case call_step sp (bitmap s) (call_of (threads s ! t)) of None \<Rightarrow> None | Some (Inl e) \<Rightarrow> Some (Inl e)
       | Some (Inr (bm, c)) \<Rightarrow> Some (Inr (with_thread s t bm ((threads s ! t)\<lparr>call_of := c\<rparr>))))"
  shows "\<exists>s'. r = Inr s' \<and> slot_inv s' \<and> pool_step (EvCall t sp) (pool_of s) (pool_of s')"
proof -
  let ?th = "threads s ! t" let ?bm = "bitmap s"
  have d: "distinct (thread_slots ?th)" by (rule slot_invD(3) [OF inv t])
  have cok: "call_ok ?bm (call_of ?th)" by (rule slot_invD(2) [OF inv t])
  have same: "\<exists>s'. r = Inr s' \<and> slot_inv s' \<and> pool_step (EvCall t sp) (pool_of s) (pool_of s')"
    if "r = Inr (with_thread s t bm th)" "words bm = words ?bm" "n_slots bm = n_slots ?bm" "set (thread_slots th) = set (thread_slots ?th)"
      "distinct (thread_slots th)" "call_ok bm (call_of th)" for bm th
    using same_step [OF inv t that(2-)] that(1) by simp
  show ?thesis
  proof (cases "call_of ?th")
    case (Scan h n)
    have "in_flight (alloc_one_scan h n ?bm) = []" "call_ok ?bm (alloc_one_scan h n ?bm)"
      unfolding alloc_one_scan_def by (simp_all add: Let_def)
    moreover have "r = Inr (with_thread s t ?bm (?th\<lparr>call_of := alloc_one_scan h n ?bm\<rparr>))" using r Scan by simp
    ultimately show ?thesis using same Scan d by (simp add: thread_slots_def)
  next
    case (TryWord h n w)
    let ?i = "(h + n) mod length (words ?bm)"
    show ?thesis
    proof (cases "words ?bm ! ?i = w \<and> \<not> sp")
      case True
      let ?x = "word_and_bit_to_slot ?i (trailing_zeros w)"
      have "w \<noteq> 0" using cok TryWord by simp
      then obtain bm' h' where taken: "alloc_one_try False h n w ?bm = (bm', SetHint h' ?x)" "h' < length (words ?bm)"
        "length (words bm') = length (words ?bm)" "n_slots bm' = n_slots ?bm" "slot_free ?bm (unat ?x)"
        "\<And>i. slot_free bm' i \<longleftrightarrow> slot_free ?bm i \<and> i \<noteq> unat ?x"
        using alloc_one_try_taken [OF slot_invD(1) [OF inv], of w h n] True by blast
      let ?new = "?th\<lparr>call_of := SetHint h' ?x\<rparr>"
      have "thread_slots ?new = ?x # thread_slots ?th" "call_ok bm' (call_of ?new)"
        using TryWord taken(2,3) unfolding thread_slots_def by simp_all
      note * = take_step [OF inv t taken(5,3,4,6) this]
      have "r = Inr (with_thread s t bm' ?new)" using r TryWord taken(1) True by simp
      then show ?thesis using * taken(5) unfolding pool_step_def event_thread_def by (auto simp: pool_of_def)
    next
      case False
      then have "alloc_one_try sp h n w ?bm = (?bm, alloc_one_word h n (words ?bm ! ?i))" using alloc_one_try_failed by blast
      then have "r = Inr (with_thread s t ?bm (?th\<lparr>call_of := alloc_one_word h n (words ?bm ! ?i)\<rparr>))" using r TryWord by simp
      then show ?thesis using same TryWord d by (simp add: thread_slots_def)
    qed
  next
    case (SetHint h x)
    then have "r = Inr (with_thread s t (?bm\<lparr>next_word_hint := h\<rparr>) (?th\<lparr>call_of := Returned (Some x)\<rparr>))" using r by simp
    then show ?thesis using same SetHint d by (simp add: thread_slots_def)
  next
    case (FreeSlot x)
    have mine: "unat x \<in> owner_of s t" using t FreeSlot unfolding owner_of_def thread_slots_def by simp
    obtain bm' where given: "free_one_begin x ?bm = Inr (bm', FreeHint (unat x div 64))" "length (words bm') = length (words ?bm)"
      "n_slots bm' = n_slots ?bm" "\<And>i. slot_free bm' i \<longleftrightarrow> slot_free ?bm i \<or> i = unat x"
      using free_one_begin_given [OF slot_invD(1) [OF inv]] slot_invD(5) [OF inv mine] by blast
    let ?new = "?th\<lparr>call_of := FreeHint (unat x div 64)\<rparr>"
    have "thread_slots ?th = x # thread_slots ?new" "call_ok bm' (call_of ?new)" using FreeSlot unfolding thread_slots_def by simp_all
    note * = give_step [OF inv t given(2,3,4) this]
    have "r = Inr (with_thread s t bm' ?new)" using r FreeSlot given(1) by simp
    then show ?thesis using * unfolding pool_step_def event_thread_def by auto
  next
    case (FreeHint i)
    have "in_flight (free_one_hint i ?bm) = []" "call_ok ?bm (free_one_hint i ?bm)" unfolding free_one_hint_def by simp_all
    moreover have "r = Inr (with_thread s t ?bm (?th\<lparr>call_of := free_one_hint i ?bm\<rparr>))" using r FreeHint by simp
    ultimately show ?thesis using same FreeHint d by (simp add: thread_slots_def)
  next
    case (FreeStore i)
    then have "r = Inr (with_thread s t (?bm\<lparr>next_word_hint := i\<rparr>) (?th\<lparr>call_of := Idle\<rparr>))" using r by simp
    then show ?thesis using same FreeStore d by (simp add: thread_slots_def)
  qed (use r in auto)
qed

lemma slot_step_good:
  assumes inv: "slot_inv s" and step: "slot_step ev s = Some r"
  shows "\<exists>s'. r = Inr s' \<and> slot_inv s' \<and> pool_step ev (pool_of s) (pool_of s')"
proof -
  obtain t where t: "event_thread ev = t" "t < length (threads s)"
    using step unfolding event_thread_def by (cases ev) (auto split: if_splits)
  let ?th = "threads s ! t"
  have d: "distinct (thread_slots ?th)" by (rule slot_invD(3) [OF inv t(2)])
  have same: "\<exists>s'. r = Inr s' \<and> slot_inv s' \<and> pool_step ev (pool_of s) (pool_of s')"
    if "r = Inr (with_thread s t bm th)" "words bm = words (bitmap s)" "n_slots bm = n_slots (bitmap s)" "set (thread_slots th) = set (thread_slots ?th)"
      "distinct (thread_slots th)" "call_ok bm (call_of th)" for bm th
    using same_step [OF inv t(2) that(2-)] that(1) by simp
  show ?thesis
  proof (cases ev)
    case (EvAlloc u)
    then have "r = Inr (with_thread s t (bitmap s) (?th\<lparr>call_of := alloc_one_begin (bitmap s)\<rparr>))" "call_of ?th = Idle"
      using step t unfolding event_thread_def by (auto split: if_splits)
    moreover have "in_flight (alloc_one_begin (bitmap s)) = []" "call_ok (bitmap s) (alloc_one_begin (bitmap s))"
      unfolding alloc_one_begin_def by (simp_all add: Let_def)
    ultimately show ?thesis using same d by (simp add: thread_slots_def)
  next
    case (EvReturn u)
    then obtain res where res: "call_of ?th = Returned res"
      "r = Inr (with_thread s t (bitmap s) \<lparr>call_of = Idle, held = (case res of None \<Rightarrow> [] | Some x \<Rightarrow> [x]) @ held ?th\<rparr>)"
      using step t unfolding event_thread_def by (auto split: if_splits call.splits)
    then show ?thesis using same d by (cases res) (simp_all add: thread_slots_def)
  next
    case (EvFree u x)
    then have "call_of ?th = Idle" "x \<in> set (held ?th)" "r = Inr (with_thread s t (bitmap s) \<lparr>call_of = FreeSlot x, held = remove1 x (held ?th)\<rparr>)"
      using step t unfolding event_thread_def by (auto split: if_splits)
    then show ?thesis using same d by (auto simp: thread_slots_def set_remove1_eq insert_absorb)
  next
    case (EvCall u sp)
    then have r: "Some r = (case call_step sp (bitmap s) (call_of ?th) of None \<Rightarrow> None | Some (Inl e) \<Rightarrow> Some (Inl e)
       | Some (Inr (bm, c)) \<Rightarrow> Some (Inr (with_thread s t bm (?th\<lparr>call_of := c\<rparr>))))"
      using step t unfolding event_thread_def by (auto split: if_splits)
    show ?thesis using call_step_good [OF inv t(2) r] EvCall t(1) by (simp add: event_thread_def)
  qed
qed

interpretation bitmap_runs: simulation slot_inv pool_of "\<lambda>_ _. True" slot_step pool_step
  by unfold_locales (rule slot_step_good)

section \<open>A fresh bitmap\<close>

lemma bitmap_new_ok:
  assumes "bitmap_new n = Inr bm"
  shows "bitmap_ok bm" "n_slots bm = n" "slot_free bm i \<longleftrightarrow> i < unat n"
proof -
  have n: "0 < n" "n mod 64 = 0" and bm: "words bm = replicate (unat (n div 64)) (- 1)" "n_slots bm = n"
    using assms unfolding bitmap_new_def WORD_BITS_def ALL_FREE_def by (auto simp: Let_def split: if_splits)
  have "unat n mod 64 = unat (n mod 64)" by (simp add: unat_mod_distrib)
  then have "unat n mod 64 = 0" using n(2) by simp
  then have "64 * (unat n div 64) = unat n" using mult_div_mod_eq [of 64 "unat n"] by linarith
  then have len: "64 * unat (n div 64) = unat n" by (simp add: unat_div_distrib)
  moreover have "0 < unat n" using n(1) by (simp add: unat_gt_0)
  ultimately show "bitmap_ok bm" unfolding bitmap_ok_def bm by simp
  show "n_slots bm = n" by (rule bm(2))
  show "slot_free bm i \<longleftrightarrow> i < unat n"
    using len unfolding slot_free_def bm by (auto simp: less_mult_imp_div_less mult.commute)
qed

lemma slot_sys_new_inv:
  assumes "slot_sys_new n k = Inr s"
  shows "slot_inv s" "pool_of s = \<lparr>pool_free = {..<unat n}, pool_owner = (\<lambda>_. {})\<rparr>" "64 * length (words (bitmap s)) = unat n"
proof -
  obtain bm where bm: "bitmap_new n = Inr bm" "s = \<lparr>bitmap = bm, threads = replicate k \<lparr>call_of = Idle, held = []\<rparr>\<rparr>"
    using assms unfolding slot_sys_new_def by (auto simp: rbind_def split: sum.splits)
  note ok = bitmap_new_ok [OF bm(1)]
  have own: "owner_of s t = {}" for t unfolding owner_of_def bm(2) thread_slots_def by simp
  show "64 * length (words (bitmap s)) = unat n" using ok(1,2) unfolding bitmap_ok_def bm(2) by simp
  moreover have b: "bitmap s = bm" "\<forall>th \<in> set (threads s). call_ok bm (call_of th) \<and> distinct (thread_slots th)"
    unfolding bm(2) thread_slots_def by simp_all
  ultimately show "slot_inv s" using ok unfolding slot_inv_def own by simp
  show "pool_of s = \<lparr>pool_free = {..<unat n}, pool_owner = (\<lambda>_. {})\<rparr>" unfolding pool_of_def b(1) using ok(3) own by auto
qed

lemma pool_complete:
  assumes "slot_inv s"
  shows "pool_free (pool_of s) \<union> (\<Union>t. pool_owner (pool_of s) t) = {..<64 * length (words (bitmap s))}"
    "pool_free (pool_of s) \<inter> pool_owner (pool_of s) t = {}"
proof -
  have "i < 64 * length (words (bitmap s))" if "slot_free (bitmap s) i" for i using that unfolding slot_free_def by blast
  then have "slot_free (bitmap s) i \<or> (\<exists>t. i \<in> owner_of s t) \<longleftrightarrow> i < 64 * length (words (bitmap s))" for i
    using slot_invD(5,6) [OF assms] by blast
  then show "pool_free (pool_of s) \<union> (\<Union>t. pool_owner (pool_of s) t) = {..<64 * length (words (bitmap s))}"
    unfolding pool_of_def by (simp add: set_eq_iff)
  show "pool_free (pool_of s) \<inter> pool_owner (pool_of s) t = {}" using slot_invD(5) [OF assms] unfolding pool_of_def by auto
qed

section \<open>An allocation without contention\<close>

text \<open>
  A thread that runs alone. The list says, for each atomic access the thread makes, whether the hardware lets it fail
  spuriously, which only a \<^verbatim>\<open>compare_exchange_weak\<close> can do. \<open>None\<close> means that the call has not returned by the end of the list.
\<close>

primrec alloc_alone :: "bool list \<Rightarrow> slot_bitmap \<Rightarrow> call \<Rightarrow> (slot_bitmap \<times> u32 option) option" where
  "alloc_alone [] bm c = (case c of Returned r \<Rightarrow> Some (bm, r) | _ \<Rightarrow> None)"
| "alloc_alone (f # fs) bm c =
     (case c of
        Returned r \<Rightarrow> Some (bm, r)
      | _ \<Rightarrow> (case call_step f bm c of Some (Inr (bm', c')) \<Rightarrow> alloc_alone fs bm' c' | _ \<Rightarrow> None))"

definition takes_free :: "slot_bitmap \<Rightarrow> slot_bitmap \<Rightarrow> u32 option \<Rightarrow> bool" where
  "takes_free bm bm' r \<longleftrightarrow> (case r of
      None \<Rightarrow> bm' = bm \<and> (\<forall>i. \<not> slot_free bm i)
    | Some x \<Rightarrow> slot_free bm (unat x) \<and> (\<forall>i. slot_free bm' i \<longleftrightarrow> slot_free bm i \<and> i \<noteq> unat x))"

lemma rotation_covers:
  assumes "j < n"
  shows "\<exists>k < n. (h + k) mod n = (j :: nat)"
proof -
  let ?k = "(j + n - h mod n) mod n"
  have n: "0 < n" using assms by simp
  have "(h + ?k) mod n = (h mod n + (j + n - h mod n)) mod n" by (simp add: mod_simps)
  also have "\<dots> = (j + n) mod n" using n mod_less_divisor [OF n, of h] by (simp add: le_add_diff_inverse less_imp_le_nat trans_le_add2)
  finally have "(h + ?k) mod n = j" using assms by simp
  then show ?thesis using mod_less_divisor [OF n] by blast
qed

lemma alloc_alone_returned [simp]: "alloc_alone fs bm (Returned r) = Some (bm, r)"
  by (cases fs) simp_all

text \<open>The accesses that do not fail spuriously are those that count.\<close>

lemma alloc_alone_hint:
  "0 < count_list fs False \<Longrightarrow> alloc_alone fs bm (SetHint h x) = Some (bm\<lparr>next_word_hint := h\<rparr>, Some x)"
  by (cases fs) simp_all

lemma alloc_alone_try:
  assumes ok: "bitmap_ok bm" and w: "words bm ! ((h + n) mod length (words bm)) \<noteq> 0" and fuel: "2 \<le> count_list fs False"
  shows "\<exists>bm' r. alloc_alone fs bm (TryWord h n (words bm ! ((h + n) mod length (words bm)))) = Some (bm', r) \<and> takes_free bm bm' r"
  using fuel
proof (induction fs)
  case (Cons f fs)
  let ?i = "(h + n) mod length (words bm)" let ?w = "words bm ! ?i"
  show ?case
  proof (cases f)
    case True
    then have "alloc_alone (f # fs) bm (TryWord h n ?w) = alloc_alone fs bm (TryWord h n ?w)"
      using w by (simp add: alloc_one_try_def alloc_one_word_def ALL_ALLOCATED_def Let_def)
    then show ?thesis using Cons True by simp
  next
    case False
    let ?x = "word_and_bit_to_slot ?i (trailing_zeros ?w)"
    obtain bm' h' where *: "alloc_one_try False h n ?w bm = (bm', SetHint h' ?x)" "slot_free bm (unat ?x)"
      "\<forall>i. slot_free bm' i \<longleftrightarrow> slot_free bm i \<and> i \<noteq> unat ?x"
      using alloc_one_try_taken [OF ok w refl] by blast
    have "slot_free (bm'\<lparr>next_word_hint := h'\<rparr>) i = slot_free bm' i" for i unfolding slot_free_def by simp
    then have "takes_free bm (bm'\<lparr>next_word_hint := h'\<rparr>) (Some ?x)" using *(2,3) unfolding takes_free_def by simp
    then show ?thesis using alloc_alone_hint [of fs bm' h' ?x] Cons.prems False *(1) by simp
  qed
qed simp

lemma alloc_alone_scan:
  assumes ok: "bitmap_ok bm" and n: "n \<le> length (words bm)"
    and seen: "\<And>k. k < n \<Longrightarrow> words bm ! ((h + k) mod length (words bm)) = 0"
    and fuel: "length (words bm) - n + 3 \<le> count_list fs False"
  shows "\<exists>bm' r. alloc_alone fs bm (Scan h n) = Some (bm', r) \<and> takes_free bm bm' r"
  using n seen fuel
proof (induction fs arbitrary: n)
  case (Cons f fs)
  let ?i = "(h + n) mod length (words bm)" let ?w = "words bm ! ?i"
  have step: "alloc_alone (f # fs) bm (Scan h n) = alloc_alone fs bm (alloc_one_scan h n bm)" by simp
  consider (last) "n = length (words bm)" | (zero) "n < length (words bm)" "?w = 0" | (found) "n < length (words bm)" "?w \<noteq> 0"
    using Cons.prems(1) by linarith
  then show ?case
  proof cases
    case last
    have "words bm ! j = 0" if "j < length (words bm)" for j using rotation_covers [OF that, of h] Cons.prems(2) last by metis
    then have "\<not> slot_free bm i" for i unfolding slot_free_def by (auto simp: less_mult_imp_div_less mult.commute)
    then show ?thesis using last unfolding step takes_free_def by (simp add: alloc_one_scan_def)
  next
    case zero
    have "words bm ! ((h + k) mod length (words bm)) = 0" if "k < Suc n" for k
      using that Cons.prems(2) zero by (cases "k = n") auto
    moreover have "length (words bm) - Suc n + 3 \<le> count_list fs False" using Cons.prems(3) zero(1) by (simp split: if_splits)
    ultimately have "\<exists>bm' r. alloc_alone fs bm (Scan h (Suc n)) = Some (bm', r) \<and> takes_free bm bm' r"
      using Cons.IH [of "Suc n"] zero(1) by simp
    then show ?thesis using zero unfolding step by (simp add: alloc_one_scan_def alloc_one_word_def ALL_ALLOCATED_def)
  next
    case found
    have "2 \<le> count_list fs False" using Cons.prems(3) by (simp split: if_splits)
    then show ?thesis using found alloc_alone_try [OF ok found(2)] unfolding step by (simp add: alloc_one_scan_def alloc_one_word_def ALL_ALLOCATED_def)
  qed
qed simp

text \<open>A free word ahead is found by the scan, and a compare-and-exchange that always fails spuriously never leaves it.\<close>

lemma alloc_alone_starved_try:
  "words bm ! ((h + n) mod length (words bm)) \<noteq> 0 \<Longrightarrow> alloc_alone (replicate k True) bm (TryWord h n (words bm ! ((h + n) mod length (words bm)))) = None"
  by (induction k) (simp_all add: alloc_one_try_def alloc_one_word_def ALL_ALLOCATED_def Let_def)

lemma alloc_alone_starved:
  assumes "m < length (words bm)" "n \<le> m" "words bm ! ((h + m) mod length (words bm)) \<noteq> 0"
  shows "alloc_alone (replicate k True) bm (Scan h n) = None"
  using assms
proof (induction k arbitrary: n)
  case (Suc k)
  let ?w = "words bm ! ((h + n) mod length (words bm))"
  have "alloc_alone (replicate (Suc k) True) bm (Scan h n) = alloc_alone (replicate k True) bm (alloc_one_word h n ?w)"
    using Suc.prems(1,2) by (simp add: alloc_one_scan_def)
  then show ?case using Suc alloc_alone_starved_try [of bm h n k]
    by (cases "n = m"; cases "?w = 0") (auto simp: alloc_one_word_def ALL_ALLOCATED_def)
qed simp

lemma slot_free_word:
  assumes "slot_free bm i"
  shows "\<exists>m < length (words bm). words bm ! ((h + m) mod length (words bm)) \<noteq> 0"
proof -
  have i: "i div 64 < length (words bm)" "words bm ! (i div 64) \<noteq> 0"
    using assms unfolding slot_free_def by (auto simp: less_mult_imp_div_less mult.commute)
  then show ?thesis using rotation_covers [OF i(1), of h] by metis
qed

section \<open>Properties\<close>

text \<open>C10. However threads interleave their atomic operations, with spurious failures of the compare-and-exchange, the slot
  bitmap behaves as a pool of slots: every event is a step of the pool that takes a free slot, gives an owned one back or
  changes nothing. Two threads never own the same slot, every slot is free or owned, and no assertion fails: no double
  free, no slot out of bounds.\<close>

theorem slot_bitmap_linearizable:
  assumes new: "slot_sys_new n k = Inr s0" and run: "guarded_run (\<lambda>_ _. True) slot_step s0 evs s"
  shows "abstract_run pool_step \<lparr>pool_free = {..<unat n}, pool_owner = (\<lambda>_. {})\<rparr> evs (pool_of s)
     \<and> (\<forall>t u. t \<noteq> u \<longrightarrow> pool_owner (pool_of s) t \<inter> pool_owner (pool_of s) u = {})
     \<and> (\<forall>t. pool_free (pool_of s) \<inter> pool_owner (pool_of s) t = {})
     \<and> pool_free (pool_of s) \<union> (\<Union>t. pool_owner (pool_of s) t) = {..<64 * length (words (bitmap s))}
     \<and> (\<forall>ev e. slot_step ev s \<noteq> Some (Inl e))"
proof -
  note init = slot_sys_new_inv [OF new]
  have sim: "slot_inv s" "abstract_run pool_step (pool_of s0) evs (pool_of s)" using bitmap_runs.run_sim [OF run init(1)] by auto
  moreover have "slot_step ev s \<noteq> Some (Inl e)" for ev e using bitmap_runs.run_no_error [OF run init(1)] by simp
  moreover have "pool_owner (pool_of s) t \<inter> pool_owner (pool_of s) u = {}" if "t \<noteq> u" for t u
    using slot_invD(4) [OF sim(1) that] unfolding pool_of_def by simp
  ultimately show ?thesis using pool_complete [OF sim(1)] unfolding init(2) by simp
qed

definition contended_alloc :: "slot_event list" where
  "contended_alloc = [EvAlloc 0, EvCall 0 False, EvAlloc 1, EvCall 1 False, EvCall 0 False, EvCall 1 False, EvCall 1 False]"

lemma trailing_zeros_examples: "trailing_zeros (- 1) = 0" "trailing_zeros (- 2) = 1"
  unfolding trailing_zeros_def by (simp_all add: upt_rec)

lemma replicate_pair: "replicate 2 x = [x, x]"
  by (simp add: numeral_2_eq_2)

lemma contended_run:
  "\<exists>s0 s. slot_sys_new 64 2 = Inr s0 \<and> run_checked (\<lambda>_ _. True) slot_step contended_alloc s0 = Some s \<and> pool_owner (pool_of s) 0 \<noteq> {}"
  by (simp add: slot_sys_new_def bitmap_new_def WORD_BITS_def ALL_FREE_def ALL_ALLOCATED_def rbind_def contended_alloc_def with_thread_def
      alloc_one_begin_def alloc_one_scan_def alloc_one_word_def alloc_one_try_def trailing_zeros_examples pool_of_def owner_of_def
      thread_slots_def Let_def replicate_pair)

theorem slot_bitmap_linearizable_witness:
  "\<exists>s0 s. slot_sys_new 64 2 = Inr s0 \<and> guarded_run (\<lambda>_ _. True) slot_step s0 contended_alloc s \<and> pool_owner (pool_of s) 0 \<noteq> {}
     \<and> pool_owner (pool_of s) 0 \<inter> pool_owner (pool_of s) 1 = {}"
proof -
  obtain s0 s where s: "slot_sys_new 64 2 = Inr s0" "run_checked (\<lambda>_ _. True) slot_step contended_alloc s0 = Some s" "pool_owner (pool_of s) 0 \<noteq> {}"
    using contended_run by blast
  have g: "guarded_run (\<lambda>_ _. True) slot_step s0 contended_alloc s" by (rule run_checked_guarded [OF s(2)])
  have "pool_owner (pool_of s) 0 \<inter> pool_owner (pool_of s) 1 = {}" using slot_bitmap_linearizable [OF s(1) g] by (metis zero_neq_one)
  then show ?thesis using s(1,3) g by blast
qed

text \<open>C11. An allocation that no other thread disturbs, whatever the hint is and whichever of its compare-and-exchange operations fail spuriously:
  it ends as soon as as many of its accesses as there are words, plus three, have not failed spuriously. It returns a
  free slot and clears exactly its bit; it returns nothing exactly when no slot is free. The condition cannot be dropped: when a slot is
  free and every compare-and-exchange fails spuriously, the call never returns.\<close>

theorem alloc_one_alone:
  assumes "bitmap_ok bm"
  shows "(\<forall>fs. length (words bm) + 3 \<le> count_list fs False \<longrightarrow>
        (\<exists>bm' r. alloc_alone fs bm (alloc_one_begin bm) = Some (bm', r) \<and> takes_free bm bm' r))
     \<and> ((\<exists>i. slot_free bm i) \<longrightarrow> (\<forall>k. alloc_alone (replicate k True) bm (alloc_one_begin bm) = None))"
proof -
  let ?h = "min (next_word_hint bm) (length (words bm) - 1)"
  have begin_eq: "alloc_one_begin bm = Scan ?h 0"
    using assms unfolding alloc_one_begin_def bitmap_ok_def by (simp add: Let_def)
  have "alloc_alone (replicate k True) bm (Scan ?h 0) = None" if "slot_free bm i" for i k
    using slot_free_word [OF that, of ?h] alloc_alone_starved [of _ bm 0 ?h k] by blast
  then show ?thesis using alloc_alone_scan [OF assms, of 0] unfolding begin_eq by auto
qed

theorem alloc_one_alone_witness:
  "bitmap_ok \<lparr>words = [0, 4], n_slots = 128, next_word_hint = 0\<rparr> \<and>
     (\<exists>bm' r. alloc_alone [False, False, True, True, False, False, False] \<lparr>words = [0, 4], n_slots = 128, next_word_hint = 0\<rparr>
          (alloc_one_begin \<lparr>words = [0, 4], n_slots = 128, next_word_hint = 0\<rparr>) = Some (bm', r)
        \<and> takes_free \<lparr>words = [0, 4], n_slots = 128, next_word_hint = 0\<rparr> bm' r)
     \<and> alloc_alone (replicate 1000 True) \<lparr>words = [0, 4], n_slots = 128, next_word_hint = 0\<rparr>
          (alloc_one_begin \<lparr>words = [0, 4], n_slots = 128, next_word_hint = 0\<rparr>) = None"
proof -
  let ?bm = "\<lparr>words = [0, 4], n_slots = 128, next_word_hint = 0\<rparr> :: slot_bitmap"
  have ok: "bitmap_ok ?bm" by (simp add: bitmap_ok_def)
  have "bit (4 :: u64) 2" by (simp add: bit_numeral_rec)
  then have free: "slot_free ?bm 66" by (simp add: slot_free_def)
  have "length (words ?bm) + 3 \<le> count_list [False, False, True, True, False, False, False] False" by simp
  then show ?thesis using ok alloc_one_alone [OF ok] free by blast
qed

end
