(* ===== verification/Spec2Isabelle.thy ===== *)
theory Spec2Isabelle
  imports Record_Compare Cell_Insert Wal_Runs Page_Cache_Runs Slot_Bitmap
begin

text \<open>
  Verification of the storage core of Turso (limbo), an in-process SQL database in Rust that reads and writes SQLite files. Paths
  below are relative to \<^verbatim>\<open>src/\<close>.

  \<^bold>\<open>The program.\<close> A row is encoded as a \<^emph>\<open>record\<close>: a header of varints (serial types) and the column contents
  (\<^verbatim>\<open>core/types.rs\<close>, \<^verbatim>\<open>core/storage/sqlite3_ondisk.rs\<close>). Records are compared with search keys column by column under collations and sort
  directions, with numbers compared exactly across integers and floats (\<^verbatim>\<open>core/numeric\<close>, \<^verbatim>\<open>core/translate/collate.rs\<close>). A record is
  the payload of a \<^emph>\<open>cell\<close> on a b-tree page; what does not fit goes to a chain of overflow pages (\<^verbatim>\<open>core/storage/btree.rs\<close>). Pages are allocated from a
  freelist in the file (\<^verbatim>\<open>core/storage/pager.rs\<close>). Changed pages are appended as \<^emph>\<open>frames\<close> to the write-ahead log
  (\<^verbatim>\<open>core/storage/wal.rs\<close>); connections read a page from its latest frame within their snapshot or from the database file, a
  checkpoint copies frames into the file, and the log is restarted when all of them are copied. After a crash the log is scanned and its index
  rebuilt up to the last whole commit. Between the log and the b-tree lies the \<^emph>\<open>page cache\<close> (\<^verbatim>\<open>core/storage/page_cache.rs\<close>), a ring of pages with a clock hand that evicts clean and
  spilled pages; page buffers come from an arena whose free slots a lock-free bitmap tracks (\<^verbatim>\<open>core/storage/slot_bitmap.rs\<close>).

  \<^bold>\<open>Conventions.\<close> Machine integers are words of their width; \<^verbatim>\<open>usize\<close> and the \<^verbatim>\<open>u64\<close> frame counters are natural numbers (the bounds that
  matter are hypotheses). Buffers are byte lists. A fallible function returns \<open>'a res\<close>, the error on the left; a failed assertion, an index out of range or
  an arithmetic overflow that Rust checks is the error \<open>Panic\<close>. Where an error leaves a changed state behind, the result carries both. The
  byte order of the target and random numbers are parameters.

  \<^bold>\<open>Theories.\<close>

  \<^item> \<open>Prelude\<close>: words, results with sequencing, slices, big-endian encodings, the locale \<open>prefix_codec\<close> of prefix codes.
  \<^item> \<open>Ordering_Spec\<close>: the contract of Rust's \<^verbatim>\<open>Ord\<close> as the locale \<open>cmp_order\<close>, interpreted for numbers and values.
  \<^item> \<open>Varint\<close>: \<^verbatim>\<open>read_varint\<close>, \<^verbatim>\<open>read_varint_partial\<close>, \<^verbatim>\<open>write_varint\<close>, \<^verbatim>\<open>varint_len\<close>; round trip, bounds, streaming; an interpretation of \<open>prefix_codec\<close>.
  \<^item> \<open>Float64\<close>, \<open>Numerics\<close>: \<^verbatim>\<open>f64\<close> as its bit pattern with the rational it denotes; \<^verbatim>\<open>sqlite_int_float_cmp\<close>, the order of numbers, shifts and remainder.
  \<^item> \<open>Values\<close>: \<^verbatim>\<open>Value\<close> and \<^verbatim>\<open>ValueRef\<close>, collations and hash keys, \<^verbatim>\<open>compare_immutable\<close> and its iterator form.
  \<^item> \<open>Serial_Types\<close>, \<open>Records\<close>, \<open>Record_Compare\<close>: serial types and the column decoders; building, serialising and reading records; the comparison of a stored record with a key, generic and
    specialised, and the choice between them.
  \<^item> \<open>Page_Format\<close>: page sizes, the database header, pointer map arithmetic.
  \<^item> \<open>Freelist\<close>: \<^verbatim>\<open>Pager::allocate_page\<close> and \<^verbatim>\<open>Pager::free_page\<close>, with the locale \<open>page_allocator\<close> of what a client may rely on.
  \<^item> \<open>Btree_Page\<close>, \<open>Overflow\<close>: reading cells, thresholds and the fast path for index keys; writing and reading payloads with overflow chains.
  \<^item> \<open>Page_Space\<close>, \<open>Page_Free\<close>, \<open>Page_Defrag\<close>, \<open>Page_Cells\<close>: freeblocks, searching and freeing space, defragmentation, inserting and dropping cells; a page refines the list of its
    cells (the locales of \<open>Refinement\<close>). \<open>Cell_Insert\<close>: inserting a record into a leaf page, from the payload to the cell that is read back.
  \<^item> \<open>Wal_Format\<close>, \<open>Wal_Recovery\<close>: the log file and the scan of \<^verbatim>\<open>BuildSharedWal\<close>; recovery from every prefix.
  \<^item> \<open>Rw_Lock\<close>, \<open>Wal_Coordination\<close>, \<open>Wal_Locks\<close>: the lock word \<^verbatim>\<open>TursoRwLock\<close>; \<^verbatim>\<open>InProcessWalCoordination\<close> and \<^verbatim>\<open>WalFileShared\<close>, operation by operation; what each does to the counts
    of lock holders and to the read marks.
  \<^item> \<open>Wal_File\<close>: \<^verbatim>\<open>WalFile\<close>, one definition for each part of an operation that runs without interruption.
  \<^item> \<open>Wal_System\<close>: several connections over one log; an event is one such part, and the program counter of a connection records the phase of its call. Beginning to read is four events: the
    snapshot, the claim of a read mark, its lock, and the check under the lock. The scan for a read mark with its claim, the locks of a checkpoint or of a restart of the log, and the loop over the read marks that bounds a checkpoint are one event
    each, although the code takes the shared lock for every operation in them. The rollback to a savepoint is an operation and not an event.
  \<^item> \<open>Wal_Invariant\<close>, \<open>Wal_Isolation\<close>: the invariant of the system, and snapshot isolation as an abstract machine.
  \<^item> \<open>Wal_Steps\<close>, \<open>Wal_Write\<close>, \<open>Wal_Append\<close>, \<open>Wal_Checkpoint\<close>, \<open>Wal_Protocol\<close>: one lemma for each event (it succeeds, keeps the invariant and is a step of the abstract machine), and
    the page a connection reads.
  \<^item> \<open>Wal_Open\<close>: the state that opening gives, composed with recovery. \<open>Wal_Stale\<close>: a run that loses a commit. \<open>Simulation\<close>, \<open>Wal_Runs\<close>: runs of any length.
  \<^item> \<open>Page_Cache\<close>: \<^verbatim>\<open>Page\<close> with its flags, pins and packed log tag, and every operation of \<^verbatim>\<open>PageCache\<close> over a store of boxes and shared pages. \<open>Page_Evict\<close>, \<open>Page_Cache_Ops\<close>: the invariant of the
    cache, eviction, insertion and deletion. \<open>Page_Cache_Events\<close>, \<open>Page_Cache_Runs\<close>: what the pager does with cache and pages between the calls, as events, and runs of them.
  \<^item> \<open>Slot_Bitmap\<close>: \<^verbatim>\<open>AtomicSlotBitmap\<close>, one step for each atomic access, and several threads that allocate and free.

  \<^bold>\<open>What is shown.\<close> Encodings round-trip and decoders reject or agree on every byte string; comparisons are total preorders and the specialised ones agree with the
  generic one; pages in use, on the freelist and reserved partition the file along every run; a page behaves as the list of its cells under any
  sequence of insertions, drops and defragmentations within its capacity; a record of any size is written and read back through overflow pages, from the page it was inserted into, and clearing frees exactly its
  chain. A cell shorter than four bytes counts as four: where only its own bytes fit, the code accepts it and the page is corrupt afterwards (\<open>insert_into_cell_correct\<close> has the three cases). For the log:
  recovery from any crash point gives exactly the committed frames; in every interleaving of events that are \<open>admissible\<close>, connections see
  snapshot isolation, a reader's pages do not move and no assertion fails. An event is admissible when the caller keeps the contract of the calls (transactions begun and ended in order, at
  least one page prepared, of the page size, on an initialised log, everything committed or rolled back at the end), frame numbers stay below \<open>2 ^ 32\<close>, the list of pages of a checkpoint covers the
  index, and a checkpoint that takes its locks still has the current number of backfilled frames. The
  last condition is one that the code does not establish: \<open>stale_checkpoint_loses_commit\<close> is a run in which only this condition fails and a commit is lost.

  For the page cache: along every run that keeps the callers' contract no assertion fails and a page with unsaved changes is never lost; eviction removes exactly one evictable page or reports that there is none, and insertion makes the page
  reachable or fails, exactly when its key is taken or no room can be made. For the slot bitmap: under every interleaving it is a pool of slots, each owned by one thread at a time.

  \<^bold>\<open>Termination and fuel.\<close> Loops are recursive functions with termination proofs. The loop of \<^verbatim>\<open>calc_header_size\<close> is shown to reach its fixpoint; \<^verbatim>\<open>last_value\<close>, which may
  diverge, is a partial function; the state machine of \<^verbatim>\<open>fill_cell_payload\<close> and the walks along overflow chains and freeblocks take a step bound, which the theorems
  show to suffice (the number of bytes to copy, the number of pages of the file, the length of the page). The eviction loop has the source's own bound of four examinations per entry, shown to be enough;
  the loops that evict until there is room are bounded by the number of entries. An undisturbed allocation from the bitmap takes at most as many accesses as there are words, plus three, that do not fail spuriously;
  without a bound on spurious failures of the compare-exchange it need not end, and both are shown.

  \<^bold>\<open>Not modelled.\<close> Asynchronous I/O: an operation that suspends on I/O is modelled as running to the next point where other connections can
  interfere, and read and write errors are left out. Fallible allocation. Checks of debug builds only. In the log: coordination of several processes through shared memory
  (\<^verbatim>\<open>shared_wal_coordination.rs\<close>), the blocking transaction of VACUUM (its lock is), encryption and page checksums, and raw frame access for replication. The memory of the arena itself. The fields of the database header that the freelist uses are fields of the pager model, apart from the bytes of page 1. B-tree cursors (but for the insertion of a cell) and balancing, the virtual machine, the SQL compiler, the MVCC store with its skip list, incremental views, the function libraries,
  extensions, the sync engine, command line and bindings: these are state machines over asynchronous I/O, foreign interfaces or whole compilers, each larger than the storage core.
\<close>

end
